(* ===== verification/Prelude.thy ===== *)
theory Prelude
  imports Main "HOL-Library.Word" "HOL-Library.Multiset" "HOL-Library.Sublist"
begin

text \<open>
  Shared vocabulary of the development: the machine integer types of
  \<open>src/inc/c/datype/integer.h\<close> at the width of the 64-bit hosted build, the collections of
  simplification facts the component theories fill, and generic lemmas on lists, association
  lists and words that several components use.
\<close>

section \<open>Machine integers\<close>

type_synonym byte = "8 word"
type_synonym uint16 = "16 word"
type_synonym uint32 = "32 word"
type_synonym uint64 = "64 word"
type_synonym stduint = "64 word"
type_synonym stdsint = "64 word"

section \<open>Collections\<close>

named_theorems cstr_simps \<open>evaluation of the C string routines\<close>
named_theorems tree_simps \<open>lookup and update in the trees of the configuration formats\<close>
named_theorems net_simps \<open>reading and writing of packet fields\<close>

section \<open>Lists\<close>

lemma length_dropWhile_less:
  "xs \<noteq> [] \<Longrightarrow> P (hd xs) \<Longrightarrow> length (dropWhile P xs) < length xs"
  by (cases xs) (auto simp: length_dropWhile_le le_imp_less_Suc)

text \<open>Whether a scan reaches the end of the text is decided by cases, not rewritten.\<close>

declare dropWhile_eq_Nil_conv [simp del]

lemma takeWhile_stop: "\<forall>x \<in> set xs. P x \<Longrightarrow> \<not> P y \<Longrightarrow> takeWhile P (xs @ y # ys) = xs"
  by (induction xs) auto

lemma dropWhile_stop: "\<forall>x \<in> set xs. P x \<Longrightarrow> \<not> P y \<Longrightarrow> dropWhile P (xs @ y # ys) = y # ys"
  by (induction xs) auto

lemma dropWhile_skip: "\<forall>x \<in> set xs. P x \<Longrightarrow> dropWhile P (xs @ ys) = dropWhile P ys"
  by (induction xs) auto

lemma dropWhile_hd: "xs \<noteq> [] \<Longrightarrow> \<not> P (hd xs) \<Longrightarrow> dropWhile P (xs @ ys) = xs @ ys"
  by (cases xs) auto

section \<open>Memory\<close>

text \<open>A memory area, and the area after a piece of it was overwritten.\<close>

type_synonym mem = "byte list"

definition patch :: "'a list \<Rightarrow> nat \<Rightarrow> 'a list \<Rightarrow> 'a list" where
  "patch xs i ys = take i xs @ ys @ drop (i + length ys) xs"

lemma length_patch [simp]: "i + length ys \<le> length xs \<Longrightarrow> length (patch xs i ys) = length xs"
  by (simp add: patch_def)

lemma patch_Nil [simp]: "patch xs i [] = xs"
  by (simp add: patch_def)

lemma patch_append:
  "i + length ys \<le> length xs \<Longrightarrow> patch (patch xs i ys) (i + length ys) zs = patch xs i (ys @ zs)"
  by (simp add: patch_def add.assoc) (simp add: add.commute add.left_commute)

lemma take_drop_patch [simp]:
  "i + length ys \<le> length xs \<Longrightarrow> take (length ys) (drop i (patch xs i ys)) = ys"
  by (simp add: patch_def)

lemma nth_patch:
  "i + length ys \<le> length xs \<Longrightarrow> k < length xs \<Longrightarrow>
   patch xs i ys ! k = (if i \<le> k \<and> k < i + length ys then ys ! (k - i) else xs ! k)"
  by (auto simp: patch_def nth_append)

text \<open>Writing back a block in which a part was replaced replaces that part of the whole.\<close>

lemma patch_patch:
  assumes "b + n \<le> length xs" "j + length ys \<le> n"
  shows "patch xs b (patch (take n (drop b xs)) j ys) = patch xs (b + j) ys"
  using assms by (intro nth_equalityI) (auto simp: nth_patch)

lemma patch_take:
  "i + length ys \<le> n \<Longrightarrow> n \<le> length xs \<Longrightarrow> patch (take n xs) i ys = take n (patch xs i ys)"
  by (intro nth_equalityI) (auto simp: nth_patch)

lemma patch_drop:
  "j \<le> length xs \<Longrightarrow> j + i + length ys \<le> length xs \<Longrightarrow>
   patch (drop j xs) i ys = drop j (patch xs (j + i) ys)"
  by (intro nth_equalityI) (auto simp: nth_patch)

lemma take_drop_add: "take m (drop i xs) @ take n (drop (i + m) xs) = take (m + n) (drop i xs)"
  by (simp add: take_add add.commute)

text \<open>Reduction to 64 bits, for the components that count in natural numbers.\<close>

definition u64 :: "nat \<Rightarrow> nat" where
  "u64 n = n mod 2 ^ 64"

lemma u64_id [simp]: "n < 2 ^ 64 \<Longrightarrow> u64 n = n"
  by (simp add: u64_def)

end
