(* ===== verification/CString.thy ===== *)
theory CString
  imports Prelude
begin

text \<open>
  The C string routines the configuration parsers call
  (\<open>src/inc/c/ustring.h\<close>, \<open>src/inc/c/uctype.h\<close>, \<open>src/lib/c/ustring/gstring/atoins.c\<close>).
  A NUL-terminated string behind a \<open>const char*\<close> is the list of its characters before the
  terminator, so reading \<open>*p\<close> at the end of the list gives \<open>NUL\<close> and \<open>p++\<close> is the tail;
  a nullable \<open>rostr\<close> is a \<open>string option\<close>. Plain \<open>char\<close> is signed, as on the hosted
  x86-64 targets. The class \<open>String\<close> is used here through its value, the list of characters
  \<open>reference()\<close> points to.
\<close>

type_synonym rostr = "string option"

abbreviation (input) NUL :: char where "NUL \<equiv> CHR 0x00"
abbreviation (input) TAB :: char where "TAB \<equiv> CHR 0x09"
abbreviation (input) LF :: char where "LF \<equiv> CHR 0x0A"
abbreviation (input) CR :: char where "CR \<equiv> CHR 0x0D"
abbreviation (input) DQUOTE :: char where "DQUOTE \<equiv> CHR 0x22"
abbreviation (input) SQUOTE :: char where "SQUOTE \<equiv> CHR 0x27"
abbreviation (input) BACKSLASH :: char where "BACKSLASH \<equiv> CHR 0x5C"

section \<open>Reading characters\<close>

text \<open>\<open>deref p\<close> is \<open>*p\<close>; \<open>cstr_of\<close> is the string a buffer of bytes denotes.\<close>

definition deref :: "string \<Rightarrow> char" where
  "deref p = (case p of [] \<Rightarrow> NUL | c # _ \<Rightarrow> c)"

definition cstr_of :: "char list \<Rightarrow> string" where
  "cstr_of buf = takeWhile (\<lambda>c. c \<noteq> NUL) buf"

definition char_val :: "char \<Rightarrow> int" where
  "char_val c = (let n = int (of_char c) in if n < 128 then n else n - 256)"

lemma deref_simps [simp]: "deref [] = NUL" "deref (c # p) = c"
  by (simp_all add: deref_def)

lemma NUL_notin_cstr_of: "NUL \<notin> set (cstr_of buf)"
  by (auto simp: cstr_of_def dest: set_takeWhileD)

lemma cstr_of_id [simp]: "NUL \<notin> set s \<Longrightarrow> cstr_of s = s"
  unfolding cstr_of_def by (rule takeWhile_eq_all_conv [THEN iffD2]) auto

lemma cstr_of_idem [simp]: "cstr_of (cstr_of s) = cstr_of s"
  by (rule cstr_of_id) (rule NUL_notin_cstr_of)

section \<open>Comparison\<close>

lemma deref_tl_less [termination_simp]: "deref a \<noteq> NUL \<Longrightarrow> length (tl a) < length a"
  by (cases a) simp_all

function StrCompare :: "string \<Rightarrow> string \<Rightarrow> int" where
  "StrCompare a b =
     (let tmp = char_val (deref a) - char_val (deref b)
      in if tmp = 0 \<and> deref a \<noteq> NUL then StrCompare (tl a) (tl b) else tmp)"
  by pat_completeness auto
termination
  by (relation "measure (\<lambda>(a, b). length a)") (auto simp: deref_def split: list.splits)

declare StrCompare.simps [simp del]

fun StrCompareN :: "string \<Rightarrow> string \<Rightarrow> nat \<Rightarrow> int" where
  "StrCompareN a b n =
     (if n = 0 then 0
      else let tmp = char_val (deref a) - char_val (deref b)
           in if tmp = 0 \<and> deref a \<noteq> NUL then StrCompareN (tl a) (tl b) (n - 1) else tmp)"

declare StrCompareN.simps [simp del]

lemma char_val_inject [simp]: "char_val a = char_val b \<longleftrightarrow> a = b"
proof
  have b: "(of_char c :: nat) < 256" for c
    by (rule nat_of_char_less_256)
  assume "char_val a = char_val b"
  then have "(of_char a :: nat) = of_char b"
    using b [of a] b [of b]
    by (auto simp: char_val_def Let_def simp del: nat_of_char_less_256 split: if_splits)
  then show "a = b" by simp
qed simp

lemma char_val_diff_0 [simp]: "char_val a - char_val b = 0 \<longleftrightarrow> a = b"
  using char_val_inject [of a b] by linarith

lemma cstr_of_deref: "cstr_of a = (if deref a = NUL then [] else deref a # cstr_of (tl a))"
  by (cases a) (auto simp: cstr_of_def)

text \<open>Comparing equal is denoting the same string.\<close>

lemma cstr_of_eq_iff:
  "cstr_of a = cstr_of b \<longleftrightarrow>
     deref a = deref b \<and> (deref a \<noteq> NUL \<longrightarrow> cstr_of (tl a) = cstr_of (tl b))"
  by (cases a; cases b) (auto simp: cstr_of_def)

lemma take_cstr_of_eq_iff:
  "take (Suc n) (cstr_of a) = take (Suc n) (cstr_of b) \<longleftrightarrow>
     deref a = deref b \<and> (deref a \<noteq> NUL \<longrightarrow> take n (cstr_of (tl a)) = take n (cstr_of (tl b)))"
  by (cases a; cases b) (auto simp: cstr_of_def)

lemma StrCompare_eq_0 [tree_simps]: "StrCompare a b = 0 \<longleftrightarrow> cstr_of a = cstr_of b"
proof (induction a b rule: StrCompare.induct)
  case (1 a b)
  show ?case
  proof (cases "deref a = deref b \<and> deref a \<noteq> NUL")
    case True
    with 1 have "StrCompare (tl a) (tl b) = 0 \<longleftrightarrow> cstr_of (tl a) = cstr_of (tl b)" by auto
    with True show ?thesis
      by (simp add: StrCompare.simps [of a b] cstr_of_eq_iff [of a b])
  next
    case False
    then show ?thesis
      by (auto simp: StrCompare.simps [of a b] cstr_of_eq_iff [of a b] Let_def)
  qed
qed

lemma StrCompareN_eq_0: "StrCompareN a b n = 0 \<longleftrightarrow> take n (cstr_of a) = take n (cstr_of b)"
proof (induction n arbitrary: a b)
  case 0
  show ?case by (simp add: StrCompareN.simps)
next
  case (Suc n)
  show ?case
    by (auto simp: StrCompareN.simps [of a b "Suc n"] take_cstr_of_eq_iff Suc.IH Let_def)
qed

section \<open>Decimal conversion\<close>

text \<open>
  \<open>bytdif\<close> is an unsigned byte difference, so only the ten digits pass \<open>ascii_isdigit\<close>.
  \<open>setsym\<close> leaves its result in the static \<open>sign\<close>, here the first component.
  \<open>_size_decimal_get\<close> is 20 on a 64-bit build: \<open>sizeof(ptrdiff_t) <= numsof(table)\<close> is
  \<open>8 <= 6\<close>, so the loop counts the decimal digits of \<open>(size_t)~0\<close>. The accumulator wraps
  at 64 bits (the source overflows a \<open>ptrdiff_t\<close> there).
\<close>

definition bytdif :: "char \<Rightarrow> char \<Rightarrow> byte" where
  "bytdif c v = of_char c - of_char v"

definition ascii_isdigit :: "char \<Rightarrow> bool" where
  "ascii_isdigit c \<longleftrightarrow> bytdif c (CHR ''0'') < 10"

definition ascii_digtoins :: "char \<Rightarrow> byte" where
  "ascii_digtoins c = bytdif c (CHR ''0'')"

definition setsym :: "string \<Rightarrow> bool \<times> string" where
  "setsym inp =
     (if deref inp = CHR ''-'' then (True, tl inp)
      else if deref inp = CHR ''+'' then (False, tl inp)
      else (False, inp))"

fun size_decimal_loop :: "nat \<Rightarrow> nat \<Rightarrow> nat" where
  "size_decimal_loop i r = (if r = 0 then i else size_decimal_loop (Suc i) (r div 10))"

declare size_decimal_loop.simps [simp del]

definition size_decimal_get :: nat where
  "size_decimal_get = size_decimal_loop 0 (2 ^ 64 - 1)"

fun atoins_loop :: "nat \<Rightarrow> string \<Rightarrow> stdsint \<Rightarrow> stdsint" where
  "atoins_loop 0 str inst = inst"
| "atoins_loop (Suc k) str inst =
     (if ascii_isdigit (deref str)
      then atoins_loop k (tl str) (inst * 10 + ucast (ascii_digtoins (deref str)))
      else inst)"

definition atoins :: "string \<Rightarrow> stdsint" where
  "atoins str =
     (if deref str = NUL then 0
      else let (sign, str') = setsym str;
               inst = atoins_loop size_decimal_get str' 0
           in if sign then - inst else inst)"

lemma ascii_isdigit_NUL [simp]: "\<not> ascii_isdigit NUL"
  by (simp add: ascii_isdigit_def bytdif_def)

lemma atoins_loop_cstr_of: "atoins_loop k (cstr_of str) inst = atoins_loop k str inst"
proof (induction k arbitrary: str inst)
  case (Suc k)
  have "deref (cstr_of str) = deref str" by (subst cstr_of_deref) simp
  moreover have "deref str \<noteq> NUL \<Longrightarrow> tl (cstr_of str) = cstr_of (tl str)"
    by (subst cstr_of_deref) simp
  ultimately show ?case using Suc by (cases "deref str = NUL") auto
qed simp

lemma setsym_cstr_of: "setsym (cstr_of str) = map_prod id cstr_of (setsym str)"
  by (auto simp: setsym_def cstr_of_deref [of str])

lemma atoins_cstr_of [simp]: "atoins (cstr_of str) = atoins str"
proof -
  have "deref (cstr_of str) = deref str" by (subst cstr_of_deref) simp
  then show ?thesis
    by (simp add: atoins_def setsym_cstr_of atoins_loop_cstr_of split_beta)
qed

lemma size_decimal_get_20: "size_decimal_get = 20"
  by (simp add: size_decimal_get_def size_decimal_loop.simps)

section \<open>Decimal texts\<close>

text \<open>The usual decimal rendering, as the reference for \<open>atoins\<close>.\<close>

definition digit_char :: "nat \<Rightarrow> char" where
  "digit_char d = char_of (48 + d)"

fun decimal :: "nat \<Rightarrow> string" where
  "decimal n = (if n < 10 then [digit_char n] else decimal (n div 10) @ [digit_char (n mod 10)])"

declare decimal.simps [simp del]

definition decimal_int :: "int \<Rightarrow> string" where
  "decimal_int i = (if i < 0 then CHR ''-'' # decimal (nat (- i)) else decimal (nat i))"

lemma of_char_digit_char: "d < 10 \<Longrightarrow> (of_char (digit_char d) :: nat) = 48 + d"
  by (simp add: digit_char_def)

lemma ascii_digtoins_digit_char: "d < 10 \<Longrightarrow> ascii_digtoins (digit_char d) = of_nat d"
proof -
  assume "d < 10"
  then have "(of_char (digit_char d) :: byte) = 48 + of_nat d"
    using of_char_digit_char [of d] of_nat_of_char [of "digit_char d", where 'a = byte] by simp
  then show ?thesis by (simp add: ascii_digtoins_def bytdif_def)
qed

lemma ucast_digit: "d < 10 \<Longrightarrow> ucast (of_nat d :: byte) = (of_nat d :: stdsint)"
  by (simp add: unsigned_of_nat take_bit_nat_eq_self)

lemma ascii_isdigit_digit_char: "d < 10 \<Longrightarrow> ascii_isdigit (digit_char d)"
  using ascii_digtoins_digit_char [of d]
  by (simp add: ascii_isdigit_def ascii_digtoins_def word_less_nat_alt unat_of_nat)

lemma decimal_digits: "c \<in> set (decimal n) \<Longrightarrow> \<exists>d < 10. c = digit_char d"
proof (induction n rule: decimal.induct)
  case IH: (1 n)
  show ?case
  proof (cases "n < 10")
    case True
    with IH.prems show ?thesis by (auto simp: decimal.simps [of n])
  next
    case False
    with IH consider "c \<in> set (decimal (n div 10))" | "c = digit_char (n mod 10)"
      by (auto simp: decimal.simps [of n])
    then show ?thesis
    proof cases
      case 1
      with IH.IH False show ?thesis by blast
    next
      case 2
      moreover have "n mod 10 < 10" by simp
      ultimately show ?thesis by blast
    qed
  qed
qed

lemma decimal_not_Nil [simp]: "decimal n \<noteq> []"
  by (subst decimal.simps) simp

lemma length_decimal: "n < 10 ^ k \<Longrightarrow> 0 < k \<Longrightarrow> length (decimal n) \<le> k"
proof (induction k arbitrary: n)
  case (Suc k)
  show ?case
  proof (cases "n < 10")
    case True
    then show ?thesis by (simp add: decimal.simps [of n])
  next
    case False
    with Suc.prems have "n div 10 < 10 ^ k" "0 < k"
      by (auto simp: div_less_iff_less_mult mult.commute intro!: gr0I)
    then have "length (decimal (n div 10)) \<le> k" by (rule Suc.IH)
    with False show ?thesis by (simp add: decimal.simps [of n])
  qed
qed simp

definition digits_val :: "stdsint \<Rightarrow> string \<Rightarrow> stdsint" where
  "digits_val = foldl (\<lambda>inst c. inst * 10 + ucast (ascii_digtoins c))"

lemma atoins_loop_digits:
  "\<forall>c \<in> set ds. ascii_isdigit c \<Longrightarrow> length ds \<le> k \<Longrightarrow> \<not> ascii_isdigit (deref rest) \<Longrightarrow>
   atoins_loop k (ds @ rest) inst = digits_val inst ds"
proof (induction ds arbitrary: k inst)
  case Nil
  then show ?case by (cases k) (simp_all add: digits_val_def)
next
  case (Cons d ds)
  then show ?case by (cases k) (simp_all add: digits_val_def)
qed

lemma digits_val_decimal: "digits_val 0 (decimal n) = of_nat n"
proof (induction n rule: decimal.induct)
  case (1 n)
  show ?case
  proof (cases "n < 10")
    case True
    then show ?thesis
      by (simp add: decimal.simps [of n] digits_val_def ascii_digtoins_digit_char ucast_digit)
  next
    case False
    have m: "n mod 10 < 10" by simp
    have "of_nat n = (of_nat (n div 10 * 10 + n mod 10) :: stdsint)" by simp
    also have "\<dots> = of_nat (n div 10) * 10 + of_nat (n mod 10)" by (simp only: of_nat_add of_nat_mult of_nat_numeral)
    finally show ?thesis using False 1
      by (simp add: decimal.simps [of n] digits_val_def ascii_digtoins_digit_char [OF m] ucast_digit)
  qed
qed

lemma decimal_all_digits: "\<forall>c \<in> set (decimal n). ascii_isdigit c"
  using decimal_digits [of _ n] ascii_isdigit_digit_char by auto

lemma digit_char_neq: "d < 10 \<Longrightarrow> c \<in> {CHR ''-'', CHR ''+'', NUL} \<Longrightarrow> digit_char d \<noteq> c"
  using of_char_digit_char [of d] by auto

lemma deref_decimal: "deref (decimal n) \<notin> {CHR ''-'', CHR ''+'', NUL}"
proof -
  have "deref (decimal n) \<in> set (decimal n)"
    using decimal_not_Nil [of n] by (cases "decimal n") simp_all
  then obtain d where "d < 10" "deref (decimal n) = digit_char d"
    using decimal_digits by blast
  then show ?thesis using digit_char_neq [of d] by auto
qed

text \<open>\<open>atoins\<close> inverts the decimal rendering of every number of at most 20 digits.\<close>

lemma atoins_decimal: "n < 10 ^ 20 \<Longrightarrow> atoins (decimal n) = of_nat n"
  using deref_decimal [of n] length_decimal [of n 20]
    atoins_loop_digits [OF decimal_all_digits [of n], of 20 "[]" 0]
  by (simp add: atoins_def setsym_def size_decimal_get_20 digits_val_decimal)

lemma atoins_decimal_int:
  assumes "\<bar>i\<bar> < 10 ^ 20"
  shows "atoins (decimal_int i) = of_int i"
proof (cases "i < 0")
  case True
  have "atoins_loop 20 (decimal (nat (- i))) 0 = of_nat (nat (- i))"
    using True assms length_decimal [of "nat (- i)" 20]
      atoins_loop_digits [OF decimal_all_digits [of "nat (- i)"], of 20 "[]" 0]
    by (simp add: digits_val_decimal nat_less_iff)
  with True show ?thesis
    by (simp add: decimal_int_def atoins_def setsym_def size_decimal_get_20)
next
  case False
  with assms atoins_decimal [of "nat i"] show ?thesis
    by (simp add: decimal_int_def nat_less_iff)
qed

section \<open>Digits in a text\<close>

text \<open>The test \<open>*p >= '0' && *p <= '9'\<close> of the number parsers.\<close>

definition dec_digit :: "char \<Rightarrow> bool" where
  "dec_digit c \<longleftrightarrow> char_val (CHR ''0'') \<le> char_val c \<and> char_val c \<le> char_val (CHR ''9'')"

lemma dec_digit_iff: "dec_digit c \<longleftrightarrow> ascii_isdigit c"
proof -
  define n where "n = (of_char c :: nat)"
  have w: "(of_char c :: byte) = of_nat n" by (simp add: n_def of_nat_of_char)
  have n: "n < 256" by (simp add: n_def)
  have "dec_digit c \<longleftrightarrow> 48 \<le> n \<and> n \<le> 57"
    using n by (auto simp: dec_digit_def char_val_def Let_def simp flip: n_def)
  also have "\<dots> \<longleftrightarrow> ascii_isdigit c"
    using n by (auto simp: ascii_isdigit_def bytdif_def w word_less_nat_alt unat_sub_if' unat_of_nat
        word_le_nat_alt)
  finally show ?thesis .
qed

lemma dropWhile_decimal:
  "\<not> dec_digit (deref rest) \<Longrightarrow> dropWhile dec_digit (decimal n @ rest) = rest"
  using decimal_all_digits [of n]
  by (cases rest) (auto simp: dec_digit_iff dropWhile_append2 dropWhile_eq_Nil_conv)

lemma length_decimal_int: "\<bar>i\<bar> < 10 ^ 20 \<Longrightarrow> length (decimal_int i) \<le> 21"
  using length_decimal [of "nat (- i)" 20] length_decimal [of "nat i" 20]
  by (auto simp: decimal_int_def nat_less_iff)

lemma deref_decimal_int: "deref (decimal_int i @ rest) = CHR ''-'' \<or> dec_digit (deref (decimal_int i @ rest))"
proof (cases "i < 0")
  case False
  then have "deref (decimal_int i @ rest) \<in> set (decimal (nat i))"
    using decimal_not_Nil [of "nat i"] by (cases "decimal (nat i)") (auto simp: decimal_int_def)
  then show ?thesis using decimal_all_digits by (simp add: dec_digit_iff)
qed (simp add: decimal_int_def)

lemma NUL_free_decimal_int: "NUL \<notin> set (decimal_int i)"
  using decimal_all_digits [of "nat i"] decimal_all_digits [of "nat (- i)"]
  by (auto simp: decimal_int_def)

lemma StrCompareN_prefix: "NUL \<notin> set lit \<Longrightarrow> StrCompareN (lit @ rest) lit (length lit) = 0"
proof -
  assume "NUL \<notin> set lit"
  then have "cstr_of (lit @ rest) = lit @ cstr_of rest"
    unfolding cstr_of_def by (subst takeWhile_append2) auto
  with \<open>NUL \<notin> set lit\<close> show ?thesis by (simp add: StrCompareN_eq_0)
qed

lemma StrCompareN_differ:
  "deref p \<noteq> deref lit \<Longrightarrow> 0 < n \<Longrightarrow> StrCompareN p lit n \<noteq> 0"
  by (simp add: StrCompareN.simps [of p lit n] Let_def)

end
