(* ===== verification/ConfigText.thy ===== *)
theory ConfigText
  imports CString
begin

text \<open>
  What the four configuration formats share: the interface class
  \<open>uni::trait::ConfigText\<close> (\<open>src/inc/cpp/trait/ConfigText.hpp\<close>) as a locale, the splitting of
  a hierarchical name into bounded segments, and the singly linked list of key/value pairs
  each node type keeps (appended at the tail, searched from the head), as an association list.
\<close>

section \<open>Hierarchical names\<close>

text \<open>
  Every traversal copies the characters up to the next separator into a
  \<open>char segment[128]\<close>, dropping what does not fit, and then skips a run of separators.
\<close>

definition seg_limit :: nat where "seg_limit = 127"

definition segment :: "(char \<Rightarrow> bool) \<Rightarrow> string \<Rightarrow> string" where
  "segment sep p = take seg_limit (takeWhile (\<lambda>c. \<not> sep c) p)"

definition after_segment :: "(char \<Rightarrow> bool) \<Rightarrow> string \<Rightarrow> string" where
  "after_segment sep p = dropWhile sep (dropWhile (\<lambda>c. \<not> sep c) p)"

lemma after_segment_le: "length (after_segment sep p) \<le> length p"
  unfolding after_segment_def by (meson length_dropWhile_le le_trans)

lemma after_segment_less [termination_simp]:
  "p \<noteq> [] \<Longrightarrow> length (after_segment sep p) < length p"
proof (cases p)
  case (Cons c cs)
  have *: "length (dropWhile sep (dropWhile (\<lambda>c. \<not> sep c) cs)) \<le> length cs"
    by (meson length_dropWhile_le le_trans)
  show ?thesis
  proof (cases "sep c")
    case True
    with Cons show ?thesis
      by (simp add: after_segment_def length_dropWhile_le le_imp_less_Suc)
  next
    case False
    with Cons * show ?thesis by (simp add: after_segment_def)
  qed
qed simp

text \<open>The list of segments a traversal visits, the abstract form of a name.\<close>

fun segments :: "(char \<Rightarrow> bool) \<Rightarrow> string \<Rightarrow> string list" where
  "segments sep p = (if p = [] then [] else segment sep p # segments sep (after_segment sep p))"

declare segments.simps [simp del]

definition name_segments :: "(char \<Rightarrow> bool) \<Rightarrow> string \<Rightarrow> string list" where
  "name_segments sep name = segments sep (dropWhile sep (cstr_of name))"

lemma segments_Nil [simp]: "segments sep [] = []"
  by (simp add: segments.simps)

lemma segments_step: "p \<noteq> [] \<Longrightarrow> segments sep p = segment sep p # segments sep (after_segment sep p)"
  by (subst segments.simps) simp

lemma segments_eq_Nil [simp]: "segments sep p = [] \<longleftrightarrow> p = []"
  by (subst segments.simps) simp

lemma NUL_free_takeWhile: "NUL \<notin> set p \<Longrightarrow> NUL \<notin> set (takeWhile P p)"
  by (auto dest: set_takeWhileD)

lemma NUL_free_dropWhile: "NUL \<notin> set p \<Longrightarrow> NUL \<notin> set (dropWhile P p)"
  by (auto dest: set_dropWhileD)

lemma NUL_free_segments: "NUL \<notin> set p \<Longrightarrow> s \<in> set (segments sep p) \<Longrightarrow> NUL \<notin> set s"
proof (induction p rule: measure_induct_rule [where f = length])
  case (less p)
  then have p: "p \<noteq> []" by auto
  have "NUL \<notin> set (after_segment sep p)"
    unfolding after_segment_def by (intro NUL_free_dropWhile less.prems)
  moreover have "NUL \<notin> set (segment sep p)"
    unfolding segment_def using NUL_free_takeWhile [OF less.prems(1)] in_set_takeD by metis
  ultimately show ?case
    using less.IH [OF after_segment_less [OF p]] less.prems(2) by (auto simp: segments_step [OF p])
qed

lemma NUL_free_name_segments: "s \<in> set (name_segments sep name) \<Longrightarrow> NUL \<notin> set s"
  unfolding name_segments_def
  by (rule NUL_free_segments) (rule NUL_free_dropWhile, rule NUL_notin_cstr_of)

text \<open>Appending a key to a name appends a segment to its path.\<close>

lemma segment_prefix:
  assumes "sep c"
  shows "segment sep (q @ c # key) = segment sep q"
    and "after_segment sep (q @ c # key) = dropWhile sep (dropWhile (\<lambda>c. \<not> sep c) q @ c # key)"
proof -
  have "takeWhile (\<lambda>c. \<not> sep c) (q @ c # key) = takeWhile (\<lambda>c. \<not> sep c) q"
    using assms by (induction q) auto
  then show "segment sep (q @ c # key) = segment sep q" by (simp add: segment_def)
  have "dropWhile (\<lambda>c. \<not> sep c) (q @ c # key) = dropWhile (\<lambda>c. \<not> sep c) q @ c # key"
    using assms by (induction q) auto
  then show "after_segment sep (q @ c # key) = dropWhile sep (dropWhile (\<lambda>c. \<not> sep c) q @ c # key)"
    by (simp add: after_segment_def)
qed

definition key_segment :: "(char \<Rightarrow> bool) \<Rightarrow> string \<Rightarrow> bool" where
  "key_segment sep key \<longleftrightarrow> key \<noteq> [] \<and> length key \<le> seg_limit \<and> (\<forall>c \<in> set key. \<not> sep c \<and> c \<noteq> NUL)"

lemma segments_key:
  assumes "key_segment sep key"
  shows "segments sep key = [key]"
proof -
  have "takeWhile (\<lambda>c. \<not> sep c) key = key" "dropWhile (\<lambda>c. \<not> sep c) key = []"
    using assms by (auto simp: key_segment_def takeWhile_eq_all_conv dropWhile_eq_Nil_conv)
  then show ?thesis
    using assms
    by (simp add: key_segment_def segments_step segment_def after_segment_def del: takeWhile_eq_all_conv)
qed

lemma segments_append_key:
  assumes "key_segment sep key" and "sep c"
  shows "segments sep (dropWhile sep (p @ c # key)) = segments sep (dropWhile sep p) @ [key]"
proof (induction p rule: measure_induct_rule [where f = length])
  case (less p)
  let ?q = "dropWhile sep p"
  have key: "dropWhile sep (c # key) = key"
    using assms by (cases key) (auto simp: key_segment_def)
  show ?case
  proof (cases "?q = []")
    case True
    then have "\<forall>x \<in> set p. sep x" by (simp add: dropWhile_eq_Nil_conv)
    then have "dropWhile sep (p @ c # key) = key" by (simp add: dropWhile_skip key del: dropWhile.simps)
    then show ?thesis using True assms(1) by (simp add: segments_key)
  next
    case False
    then have app: "dropWhile sep (p @ c # key) = ?q @ c # key"
      using dropWhile_append1 [of _ p sep] by (metis dropWhile_eq_Nil_conv)
    have hd: "\<not> sep (hd ?q)" using False by (rule hd_dropWhile)
    let ?r = "dropWhile (\<lambda>c. \<not> sep c) ?q"
    have "length ?r < length ?q" using False hd by (intro length_dropWhile_less) auto
    also have "length ?q \<le> length p" by (rule length_dropWhile_le)
    finally have "segments sep (dropWhile sep (?r @ c # key)) = segments sep (dropWhile sep ?r) @ [key]"
      by (rule less.IH)
    then show ?thesis
      using assms(2) False
      by (simp add: app segments_step segment_prefix) (simp add: after_segment_def)
  qed
qed

lemma name_segments_append_key:
  assumes "key_segment sep key" and "sep c" and "c \<noteq> NUL" and "NUL \<notin> set name"
  shows "name_segments sep (name @ c # key) = name_segments sep name @ [key]"
proof -
  have "NUL \<notin> set (name @ c # key)" using assms by (auto simp: key_segment_def)
  then show ?thesis
    using segments_append_key [OF assms(1,2), of name] assms(4) by (simp add: name_segments_def)
qed

lemma NUL_free_names:
  "\<forall>s \<in> set (name_segments sep n) \<union> set (name_segments sep' m). NUL \<notin> set s"
  by (auto dest: NUL_free_name_segments)

section \<open>Bounded buffers\<close>

text \<open>
  The copying loops of the string parsers fill a \<open>char buf[1024]\<close> and append it to the result
  when 1023 characters are in it: \<open>out\<close> is the result so far, \<open>buf\<close> the filled part.
\<close>

definition buf_flush :: "string \<Rightarrow> string \<Rightarrow> string \<times> string" where
  "buf_flush out buf = (if length buf \<ge> 1024 - 1 then (out @ buf, []) else (out, buf))"

lemma buf_flush_append: "buf_flush out buf = (out', buf') \<Longrightarrow> out' @ buf' = out @ buf"
  by (auto simp: buf_flush_def split: if_splits)

section \<open>Key/value chains\<close>

text \<open>
  \<open>kv_update k f kvs\<close> is what writing through the pointer \<open>findChild(k)\<close> returned does: the
  first pair with key \<open>k\<close> gets its value changed by \<open>f\<close>.
\<close>

fun kv_find :: "string \<Rightarrow> (string \<times> 'n) list \<Rightarrow> 'n option" where
  "kv_find key [] = None"
| "kv_find key ((k, v) # kvs) = (if StrCompare k key = 0 then Some v else kv_find key kvs)"

fun kv_update :: "string \<Rightarrow> ('n \<Rightarrow> 'n) \<Rightarrow> (string \<times> 'n) list \<Rightarrow> (string \<times> 'n) list" where
  "kv_update key f [] = []"
| "kv_update key f ((k, v) # kvs) =
     (if StrCompare k key = 0 then (k, f v) # kvs else (k, v) # kv_update key f kvs)"

lemma StrCompare_self [simp]: "StrCompare a a = 0"
  by (simp add: StrCompare_eq_0)

lemma kv_find_append [tree_simps]:
  "kv_find key (xs @ ys) = (case kv_find key xs of None \<Rightarrow> kv_find key ys | Some v \<Rightarrow> Some v)"
  by (induction xs) auto

lemma kv_find_singleton [tree_simps]:
  "kv_find k [(cstr_of k', v)] = (if cstr_of k = cstr_of k' then Some v else None)"
  by (auto simp: StrCompare_eq_0)

lemma kv_find_update_same [tree_simps]:
  "kv_find key (kv_update key f kvs) = map_option f (kv_find key kvs)"
  by (induction key f kvs rule: kv_update.induct) auto

lemma kv_find_update_other [tree_simps]:
  "StrCompare key key' \<noteq> 0 \<Longrightarrow> kv_find key' (kv_update key f kvs) = kv_find key' kvs"
  by (induction key f kvs rule: kv_update.induct) (auto simp: StrCompare_eq_0)

lemma kv_update_cong:
  "(\<And>v. kv_find key kvs = Some v \<Longrightarrow> f v = g v) \<Longrightarrow> kv_update key f kvs = kv_update key g kvs"
  by (induction kvs) auto

lemma kv_update_update: "kv_update key f (kv_update key g kvs) = kv_update key (\<lambda>c. f (g c)) kvs"
  by (induction key g kvs rule: kv_update.induct) auto

lemma kv_update_append:
  "kv_find key xs = None \<Longrightarrow> kv_update key f (xs @ ys) = xs @ kv_update key f ys"
  by (induction xs) (auto split: if_splits)

lemma kv_update_id: "kv_update key (\<lambda>c. c) kvs = kvs"
  by (induction kvs) auto

lemma map_fst_kv_update [simp]: "map fst (kv_update key f kvs) = map fst kvs"
  by (induction key f kvs rule: kv_update.induct) auto

lemma kv_update_members:
  "(k, v) \<in> set (kv_update key f kvs) \<Longrightarrow> \<exists>u. (k, u) \<in> set kvs \<and> (v = u \<or> v = f u)"
proof (induction kvs)
  case (Cons kv kvs)
  then show ?case
    by (cases kv; cases "StrCompare (fst kv) key = 0") (simp_all, blast+)
qed simp

text \<open>The chains of a node that keeps one pair per key.\<close>

definition kv_ok :: "('n \<Rightarrow> bool) \<Rightarrow> (string \<times> 'n) list \<Rightarrow> bool" where
  "kv_ok ok kvs \<longleftrightarrow> distinct (map fst kvs) \<and> (\<forall>(k, v) \<in> set kvs. NUL \<notin> set k \<and> ok v)"

lemma kv_ok_Nil [simp]: "kv_ok ok []"
  by (simp add: kv_ok_def)

lemma kv_ok_find: "kv_ok ok kvs \<Longrightarrow> kv_find key kvs = Some v \<Longrightarrow> ok v"
  by (induction kvs) (auto simp: kv_ok_def split: if_splits)

lemma kv_ok_update:
  "kv_ok ok kvs \<Longrightarrow> (\<And>v. ok v \<Longrightarrow> ok (f v)) \<Longrightarrow> kv_ok ok (kv_update key f kvs)"
  by (auto simp: kv_ok_def dest!: kv_update_members)

lemma kv_find_None_notin:
  "kv_find key kvs = None \<Longrightarrow> (k, v) \<in> set kvs \<Longrightarrow> NUL \<notin> set k \<Longrightarrow> k \<noteq> cstr_of key"
  by (induction kvs) (auto simp: StrCompare_eq_0 split: if_splits)

lemma kv_ok_append:
  "kv_ok ok kvs \<Longrightarrow> kv_find key kvs = None \<Longrightarrow> ok v \<Longrightarrow> kv_ok ok (kvs @ [(cstr_of key, v)])"
  by (auto simp: kv_ok_def NUL_notin_cstr_of dest: kv_find_None_notin)

lemma kv_ok_cong [fundef_cong]:
  "kvs = kvs' \<Longrightarrow> (\<And>k v. (k, v) \<in> set kvs' \<Longrightarrow> ok v = ok' v) \<Longrightarrow> kv_ok ok kvs = kv_ok ok' kvs'"
  by (auto simp: kv_ok_def)

lemma kv_find_mem: "kv_find key kvs = Some v \<Longrightarrow> v \<in> snd ` set kvs"
  by (induction kvs) (auto split: if_splits)

lemma kv_find_size [termination_simp]:
  "kv_find key kvs = Some v \<Longrightarrow> size v < size_list (size_prod (\<lambda>_. 0) size) kvs"
  by (induction kvs) (auto split: if_splits)

section \<open>Paths in a tree of nodes\<close>

text \<open>
  Reading and writing at a path, over the node operations of a format: \<open>fnd\<close> is
  \<open>findChild\<close>, \<open>ensure\<close> is \<open>getOrCreateChild\<close> (or \<open>Section\<close>, \<open>Table\<close>), \<open>upd\<close> a write
  through the pointer to a child, \<open>leaf\<close> the leaf branch of \<open>set\<close>.
\<close>

fun tree_lookup :: "('n \<Rightarrow> string \<Rightarrow> 'n option) \<Rightarrow> 'n \<Rightarrow> string list \<Rightarrow> 'n option" where
  "tree_lookup fnd n [] = Some n"
| "tree_lookup fnd n (s # ss) = (case fnd n s of None \<Rightarrow> None | Some c \<Rightarrow> tree_lookup fnd c ss)"

fun tree_store :: "('n \<Rightarrow> string \<Rightarrow> 'n) \<Rightarrow> (string \<Rightarrow> ('n \<Rightarrow> 'n) \<Rightarrow> 'n \<Rightarrow> 'n) \<Rightarrow>
    ('n \<Rightarrow> string \<Rightarrow> 'v \<Rightarrow> 'n) \<Rightarrow> 'n \<Rightarrow> string list \<Rightarrow> 'v \<Rightarrow> 'n" where
  "tree_store ensure upd leaf n [] v = n"
| "tree_store ensure upd leaf n [s] v = leaf n s v"
| "tree_store ensure upd leaf n (s # t # ss) v =
     upd s (\<lambda>c. tree_store ensure upd leaf c (t # ss) v) (ensure n s)"

lemma tree_store_Cons:
  "ss \<noteq> [] \<Longrightarrow> tree_store ensure upd leaf n (s # ss) v =
     upd s (\<lambda>c. tree_store ensure upd leaf c ss v) (ensure n s)"
  by (cases ss) simp_all

text \<open>Two paths are unrelated when neither is a prefix of the other.\<close>

definition unrelated :: "'a list \<Rightarrow> 'a list \<Rightarrow> bool" where
  "unrelated ps qs \<longleftrightarrow> \<not> prefix ps qs \<and> \<not> prefix qs ps"

lemma unrelated_sym: "unrelated ps qs \<Longrightarrow> unrelated qs ps"
  by (auto simp: unrelated_def)

lemma unrelated_Cons [simp]:
  "unrelated (x # xs) (y # ys) \<longleftrightarrow> (x = y \<longrightarrow> unrelated xs ys)"
  by (auto simp: unrelated_def)

lemma unrelated_Nil [simp]: "\<not> unrelated [] ys" "\<not> unrelated xs []"
  by (auto simp: unrelated_def)

text \<open>\<open>holds l v\<close> says that the node \<open>l\<close> carries the value \<open>v\<close> that was written.\<close>

locale config_tree =
  fixes fnd :: "'n \<Rightarrow> string \<Rightarrow> 'n option"
    and ensure :: "'n \<Rightarrow> string \<Rightarrow> 'n"
    and upd :: "string \<Rightarrow> ('n \<Rightarrow> 'n) \<Rightarrow> 'n \<Rightarrow> 'n"
    and leaf :: "'n \<Rightarrow> string \<Rightarrow> 'v \<Rightarrow> 'n"
    and holds :: "'n \<Rightarrow> 'v \<Rightarrow> bool"
  assumes find_upd_same: "fnd (upd k f (ensure n k)) k = map_option f (fnd (ensure n k) k)"
    and find_upd_other:
      "cstr_of k \<noteq> cstr_of k' \<Longrightarrow> fnd (upd k f (ensure n k)) k' = fnd (ensure n k) k'"
    and find_ensure_same: "\<exists>c. fnd (ensure n k) k = Some c \<and>
       fnd c = (case fnd n k of None \<Rightarrow> (\<lambda>_. None) | Some c' \<Rightarrow> fnd c')"
    and find_ensure_other: "cstr_of k \<noteq> cstr_of k' \<Longrightarrow> fnd (ensure n k) k' = fnd n k'"
    and find_leaf_same: "\<exists>l. fnd (leaf n k v) k = Some l \<and> holds l v"
    and find_leaf_other: "cstr_of k \<noteq> cstr_of k' \<Longrightarrow> fnd (leaf n k v) k' = fnd n k'"
begin

lemma lookup_store_same:
  assumes "ss \<noteq> []"
  shows "\<exists>l. tree_lookup fnd (tree_store ensure upd leaf n ss v) ss = Some l \<and> holds l v"
  using assms
proof (induction ss arbitrary: n rule: induct_list012)
  case (2 s)
  show ?case using find_leaf_same [of n s v] by auto
next
  case (3 s t ss)
  obtain c where "fnd (ensure n s) s = Some c" using find_ensure_same [of n s] by blast
  then show ?case using "3.IH"(2) [of c] by (simp add: find_upd_same)
qed simp

lemma lookup_cong:
  "fnd c = fnd c' \<Longrightarrow> ss \<noteq> [] \<Longrightarrow> tree_lookup fnd c ss = tree_lookup fnd c' ss"
  by (cases ss) auto

lemma lookup_store_other:
  assumes "unrelated ps qs" and "\<forall>s \<in> set ps \<union> set qs. NUL \<notin> set s"
  shows "tree_lookup fnd (tree_store ensure upd leaf n ps v) qs = tree_lookup fnd n qs"
  using assms
proof (induction ps arbitrary: n qs rule: induct_list012)
  case (2 s)
  then obtain q qs' where "qs = q # qs'" "s \<noteq> q" by (cases qs) auto
  with 2 show ?case using find_leaf_other [of s q n v] by simp
next
  case (3 s t ss)
  then obtain q qs' where qs: "qs = q # qs'" by (cases qs) auto
  show ?case
  proof (cases "s = q")
    case False
    with 3 have "cstr_of s \<noteq> cstr_of q" by (auto simp: qs)
    then show ?thesis by (simp add: qs find_upd_other find_ensure_other)
  next
    case True
    with 3 have u: "unrelated (t # ss) qs'" and ne: "qs' \<noteq> []"
      by (auto simp: qs)
    obtain c where c: "fnd (ensure n s) s = Some c"
        "fnd c = (case fnd n s of None \<Rightarrow> (\<lambda>_. None) | Some c' \<Rightarrow> fnd c')"
      using find_ensure_same [of n s] by blast
    have "tree_lookup fnd (tree_store ensure upd leaf c (t # ss) v) qs' = tree_lookup fnd c qs'"
      using 3 u by (intro "3.IH"(2)) (auto simp: qs)
    also have "\<dots> = (case fnd n s of None \<Rightarrow> None | Some c' \<Rightarrow> tree_lookup fnd c' qs')"
      using c(2) ne by (cases qs') (auto split: option.splits)
    finally show ?thesis using True c(1) by (simp add: qs find_upd_same)
  qed
qed simp

end

text \<open>A sequence of stores, and what is found after it.\<close>

definition tree_stores :: "('n \<Rightarrow> string list \<Rightarrow> 'v \<Rightarrow> 'n) \<Rightarrow> 'n \<Rightarrow> (string list \<times> 'v) list \<Rightarrow> 'n" where
  "tree_stores store = foldl (\<lambda>n (path, v). store n path v)"

lemma tree_stores_simps [simp]:
  "tree_stores store n [] = n"
  "tree_stores store n ((path, v) # as) = tree_stores store (store n path v) as"
  "tree_stores store n (as @ bs) = tree_stores store (tree_stores store n as) bs"
  by (simp_all add: tree_stores_def)

context config_tree
begin

lemma lookup_stores_other:
  assumes "\<forall>(path, v) \<in> set as. unrelated path qs \<and> (\<forall>s \<in> set path. NUL \<notin> set s)"
    and "\<forall>s \<in> set qs. NUL \<notin> set s"
  shows "tree_lookup fnd (tree_stores (tree_store ensure upd leaf) n as) qs = tree_lookup fnd n qs"
  using assms
proof (induction as arbitrary: n)
  case (Cons a as)
  then show ?case by (cases a) (auto intro!: lookup_store_other)
qed simp

lemma lookup_stores_last:
  assumes "path \<noteq> []" and "\<forall>s \<in> set path. NUL \<notin> set s"
    and "\<forall>(p, v) \<in> set later. unrelated p path \<and> (\<forall>s \<in> set p. NUL \<notin> set s)"
  shows "\<exists>l. tree_lookup fnd (tree_stores (tree_store ensure upd leaf) n (earlier @ (path, v) # later)) path
      = Some l \<and> holds l v"
  using lookup_store_same [OF assms(1)] lookup_stores_other [OF assms(3,2)] by simp

end

section \<open>Trees of sections\<close>

text \<open>
  The INI and TOML parsers keep a pointer to the section or table the last header named and
  put the pairs of the following lines into it. The pointer is modelled by the path of keys to
  it: \<open>tree_ensure\<close> is the navigation to a header's section, which creates what is missing, and
  \<open>tree_at\<close> an operation on the node at a path.
\<close>

fun tree_ensure :: "('n \<Rightarrow> string \<Rightarrow> 'n) \<Rightarrow> (string \<Rightarrow> ('n \<Rightarrow> 'n) \<Rightarrow> 'n \<Rightarrow> 'n) \<Rightarrow> 'n \<Rightarrow> string list \<Rightarrow> 'n" where
  "tree_ensure ensure upd n [] = n"
| "tree_ensure ensure upd n (s # ss) = upd s (\<lambda>c. tree_ensure ensure upd c ss) (ensure n s)"

fun tree_at :: "(string \<Rightarrow> ('n \<Rightarrow> 'n) \<Rightarrow> 'n \<Rightarrow> 'n) \<Rightarrow> string list \<Rightarrow> ('n \<Rightarrow> 'n) \<Rightarrow> 'n \<Rightarrow> 'n" where
  "tree_at upd [] f n = f n"
| "tree_at upd (s # ss) f n = upd s (tree_at upd ss f) n"

text \<open>The path leads through sections to a section.\<close>

fun is_open :: "('n \<Rightarrow> string \<Rightarrow> 'n option) \<Rightarrow> ('n \<Rightarrow> bool) \<Rightarrow> 'n \<Rightarrow> string list \<Rightarrow> bool" where
  "is_open fnd sec n [] = sec n"
| "is_open fnd sec n (s # ss) = (sec n \<and> (case fnd n s of None \<Rightarrow> False | Some c \<Rightarrow> is_open fnd sec c ss))"

locale section_tree =
  fixes fnd :: "'n \<Rightarrow> string \<Rightarrow> 'n option"
    and ensure :: "'n \<Rightarrow> string \<Rightarrow> 'n"
    and upd :: "string \<Rightarrow> ('n \<Rightarrow> 'n) \<Rightarrow> 'n \<Rightarrow> 'n"
    and setv :: "'n \<Rightarrow> string \<Rightarrow> 'n \<Rightarrow> 'n"
    and sec :: "'n \<Rightarrow> bool"
  assumes upd_upd: "upd k f (upd k g n) = upd k (\<lambda>c. f (g c)) n"
    and upd_cong: "sec n \<Longrightarrow> (\<And>c. fnd n k = Some c \<Longrightarrow> f c = g c) \<Longrightarrow> upd k f n = upd k g n"
    and upd_id: "upd k (\<lambda>c. c) n = n"
    and sec_upd: "sec (upd k f n) = sec n"
    and find_upd: "fnd (upd k f n) k = map_option f (fnd n k)"
    and ensure_sec: "sec (ensure n k)"
    and find_ensure: "\<exists>c. fnd (ensure n k) k = Some c \<and> sec c"
    and ensure_idem: "sec n \<Longrightarrow> fnd n k = Some c \<Longrightarrow> sec c \<Longrightarrow> ensure n k = n"
    and sec_setv: "sec n \<Longrightarrow> sec (setv n k x)"
begin

lemma is_open_sec: "is_open fnd sec n ss \<Longrightarrow> sec n"
  by (cases ss) auto

lemma is_open_ensure: "sec n \<Longrightarrow> is_open fnd sec (tree_ensure ensure upd n ss) ss"
proof (induction ss arbitrary: n)
  case (Cons s ss)
  obtain c where c: "fnd (ensure n s) s = Some c" "sec c" using find_ensure by blast
  then show ?case using Cons.IH [OF c(2)] by (simp add: sec_upd ensure_sec find_upd)
qed simp

lemma ensure_open: "is_open fnd sec n ss \<Longrightarrow> tree_ensure ensure upd n ss = n"
proof (induction ss arbitrary: n)
  case (Cons s ss)
  then obtain c where c: "sec n" "fnd n s = Some c" "is_open fnd sec c ss"
    by (auto split: option.splits)
  then have "ensure n s = n" by (auto intro: ensure_idem is_open_sec)
  then show ?case
    using c Cons.IH by (simp, subst upd_cong [where g = "\<lambda>c. c"]) (auto simp: upd_id)
qed simp

lemma is_open_at:
  "is_open fnd sec n ss \<Longrightarrow> (\<And>n. sec n \<Longrightarrow> sec (f n)) \<Longrightarrow> is_open fnd sec (tree_at upd ss f n) ss"
  by (induction ss arbitrary: n) (auto simp: sec_upd find_upd split: option.splits)

lemma at_ensure:
  "tree_at upd ss (\<lambda>n. setv n k x) (tree_ensure ensure upd n ss) = tree_store ensure upd setv n (ss @ [k]) x"
  by (induction ss arbitrary: n) (simp_all add: upd_upd tree_store_Cons)

text \<open>A pair under a header is a store at the header's path extended by the key.\<close>

lemma at_open:
  "is_open fnd sec n ss \<Longrightarrow> tree_at upd ss (\<lambda>n. setv n k x) n = tree_store ensure upd setv n (ss @ [k]) x"
  using at_ensure [of ss k x n] by (simp add: ensure_open)

lemma is_open_store:
  "sec n \<Longrightarrow> is_open fnd sec (tree_store ensure upd setv n (ss @ [k]) x) ss"
  using is_open_at [OF is_open_ensure [of n ss], of "\<lambda>n. setv n k x"] by (simp add: at_ensure sec_setv)

lemma store_ensure:
  "sec n \<Longrightarrow> tree_store ensure upd setv (tree_ensure ensure upd n ss) (ss @ [k]) x =
     tree_store ensure upd setv n (ss @ [k]) x"
  using at_ensure [of ss k x n] at_open [OF is_open_ensure [of n ss], of k x] by simp

lemma store_cong:
  assumes "\<And>n k v. sec n \<Longrightarrow> leaf n k v = setv n k (mk v)"
  shows "sec n \<Longrightarrow> ss \<noteq> [] \<Longrightarrow> tree_store ensure upd leaf n ss v = tree_store ensure upd setv n ss (mk v)"
proof (induction ss arbitrary: n rule: induct_list012)
  case (3 s t ss)
  obtain c where c: "fnd (ensure n s) s = Some c" "sec c" using find_ensure by blast
  show ?case
    using "3.IH"(2) [OF c(2)] c(1) by (simp, intro upd_cong ensure_sec) auto
qed (simp_all add: assms)

end

section \<open>The interface\<close>

text \<open>A sequence of calls of \<open>set\<close>.\<close>

definition set_all :: "('c \<Rightarrow> 'k \<Rightarrow> 'v \<Rightarrow> 'c \<times> bool) \<Rightarrow> 'c \<Rightarrow> ('k \<times> 'v) list \<Rightarrow> 'c" where
  "set_all cset = foldl (\<lambda>c (name, val). fst (cset c name val))"

lemma set_all_simps [simp]:
  "set_all cset c [] = c"
  "set_all cset c ((name, val) # kvs) = set_all cset (fst (cset c name val)) kvs"
  "set_all cset c (xs @ ys) = set_all cset (set_all cset c xs) ys"
  by (simp_all add: set_all_def)

lemma set_all_invariant:
  assumes "P c" and "\<And>c name val. P c \<Longrightarrow> P (fst (cset c name val))"
  shows "P (set_all cset c kvs)"
  using assms(1) by (induction kvs arbitrary: c) (auto simp: assms(2))

text \<open>
  \<open>segs\<close> gives the path a name denotes in a given configuration (the XML format strips a
  leading root tag, so the path may depend on the state).
\<close>

locale config_text =
  fixes segs :: "'c \<Rightarrow> string \<Rightarrow> string list"
    and cset :: "'c \<Rightarrow> string \<Rightarrow> string \<Rightarrow> 'c \<times> bool"
    and cget :: "'c \<Rightarrow> string \<Rightarrow> string"
    and cgetNumber :: "'c \<Rightarrow> string \<Rightarrow> stdsint"
  assumes set_succeeds: "snd (cset c name val) \<longleftrightarrow> segs c name \<noteq> []"
    and segs_set: "segs (fst (cset c name val)) q = segs c q"
    and get_set_same:
      "segs c name \<noteq> [] \<Longrightarrow> segs c q = segs c name \<Longrightarrow> cget (fst (cset c name val)) q = cstr_of val"
    and getNumber_set_same:
      "segs c name \<noteq> [] \<Longrightarrow> segs c q = segs c name \<Longrightarrow>
       cgetNumber (fst (cset c name val)) q = atoins val"
    and get_set_other:
      "unrelated (segs c name) (segs c q) \<Longrightarrow> cget (fst (cset c name val)) q = cget c q"
    and getNumber_set_other:
      "unrelated (segs c name) (segs c q) \<Longrightarrow>
       cgetNumber (fst (cset c name val)) q = cgetNumber c q"
begin

text \<open>What the client of the interface observes after a sequence of assignments.\<close>

lemma segs_set_all: "segs (set_all cset c kvs) q = segs c q"
  by (induction kvs arbitrary: c) (auto simp: segs_set)

lemma read_set_all_unrelated:
  assumes "\<forall>(name, val) \<in> set kvs. unrelated (segs c name) (segs c q)"
  shows "cget (set_all cset c kvs) q = cget c q \<and> cgetNumber (set_all cset c kvs) q = cgetNumber c q"
  using assms
proof (induction kvs arbitrary: c)
  case (Cons kv kvs)
  obtain name val where kv: "kv = (name, val)" by (cases kv)
  let ?c = "fst (cset c name val)"
  have "cget (set_all cset ?c kvs) q = cget ?c q \<and> cgetNumber (set_all cset ?c kvs) q = cgetNumber ?c q"
    by (rule Cons.IH) (use Cons.prems in \<open>auto simp: segs_set\<close>)
  moreover have "cget ?c q = cget c q" "cgetNumber ?c q = cgetNumber c q"
    using Cons.prems kv by (auto intro: get_set_other getNumber_set_other)
  ultimately show ?case by (simp add: kv)
qed simp

lemma read_set_all_last:
  assumes "segs c name \<noteq> []"
    and "\<forall>(n, v) \<in> set later. unrelated (segs c n) (segs c name)"
  shows "cget (set_all cset c (earlier @ (name, val) # later)) name = cstr_of val \<and>
    cgetNumber (set_all cset c (earlier @ (name, val) # later)) name = atoins val"
proof -
  let ?c1 = "set_all cset c earlier"
  let ?c2 = "fst (cset ?c1 name val)"
  have "cget (set_all cset ?c2 later) name = cget ?c2 name \<and>
      cgetNumber (set_all cset ?c2 later) name = cgetNumber ?c2 name"
    by (rule read_set_all_unrelated) (use assms(2) in \<open>auto simp: segs_set segs_set_all\<close>)
  moreover have "cget ?c2 name = cstr_of val" "cgetNumber ?c2 name = atoins val"
    using assms(1) by (auto intro!: get_set_same getNumber_set_same simp: segs_set_all)
  ultimately show ?thesis by simp
qed

lemma set_commute:
  assumes "unrelated (segs c n1) (segs c n2)" and "segs c q = segs c n1 \<or> segs c q = segs c n2"
  shows "cget (fst (cset (fst (cset c n1 v1)) n2 v2)) q = cget (fst (cset (fst (cset c n2 v2)) n1 v1)) q"
proof -
  have ne: "segs c n1 \<noteq> []" "segs c n2 \<noteq> []"
    using assms(1) by auto
  have u: "unrelated (segs c n2) (segs c n1)"
    using assms(1) by (rule unrelated_sym)
  show ?thesis
    using assms ne u by (auto simp: get_set_same get_set_other segs_set)
qed

end

end
