(* ===== verification/ConfigJSON.thy ===== *)
theory ConfigJSON
  imports ConfigText
begin

text \<open>
  The JSON configuration format, \<open>src/lib/cpp/Format/ConfigText/JSON.cpp\<close>: the node type and
  its methods, the recursive descent parser and the four operations of the \<open>ConfigText\<close>
  interface. A parser that takes \<open>const char*& p\<close> returns the remaining text with its result;
  \<open>None\<close> is its failing return (\<open>false\<close> or \<open>nullptr\<close>), after which no caller looks at \<open>p\<close>
  or at the deleted nodes again.
\<close>

section \<open>Nodes\<close>

datatype JSONType = JSON_Null | JSON_Boolean | JSON_Number | JSON_String | JSON_Array | JSON_Object

text \<open>
  \<open>object_head\<close> and \<open>array_head\<close> are the two linked lists of a node, from head to tail.
\<close>

datatype JSONNode = JSONNode (jtype: JSONType) (str_val: string) (num_val: stdsint) (bool_val: bool)
  (object_head: "(string \<times> JSONNode) list") (array_head: "JSONNode list")

definition new_JSONNode :: "JSONType \<Rightarrow> JSONNode" where
  "new_JSONNode t = JSONNode t [] 0 False [] []"

definition json_clear :: "JSONNode \<Rightarrow> JSONNode" where
  "json_clear n = JSONNode (jtype n) (str_val n) (num_val n) (bool_val n) [] []"

definition json_set_type :: "JSONType \<Rightarrow> JSONNode \<Rightarrow> JSONNode" where
  "json_set_type t n = JSONNode t (str_val n) (num_val n) (bool_val n) (object_head n) (array_head n)"

definition json_set_members :: "(string \<times> JSONNode) list \<Rightarrow> JSONNode \<Rightarrow> JSONNode" where
  "json_set_members kvs n = JSONNode (jtype n) (str_val n) (num_val n) (bool_val n) kvs (array_head n)"

definition json_findChild :: "JSONNode \<Rightarrow> string \<Rightarrow> JSONNode option" where
  "json_findChild n key =
     (if jtype n \<noteq> JSON_Object then None else kv_find key (object_head n))"

definition addObjectMember :: "JSONNode \<Rightarrow> string \<Rightarrow> JSONNode \<Rightarrow> JSONNode" where
  "addObjectMember n key child = json_set_members (object_head n @ [(cstr_of key, child)]) n"

definition addArrayElement :: "JSONNode \<Rightarrow> JSONNode \<Rightarrow> JSONNode" where
  "addArrayElement n child =
     JSONNode (jtype n) (str_val n) (num_val n) (bool_val n) (object_head n) (array_head n @ [child])"

text \<open>
  \<open>getOrCreateChild\<close> returns a pointer to a child of the node; the model returns the node
  after the call, and the pointer is the first member with that key.
\<close>

definition json_getOrCreateChild :: "JSONNode \<Rightarrow> string \<Rightarrow> JSONNode" where
  "json_getOrCreateChild n key =
     (let n = (if jtype n \<noteq> JSON_Object then json_set_type JSON_Object (json_clear n) else n)
      in case json_findChild n key of
           Some existing \<Rightarrow> n
         | None \<Rightarrow> json_set_members
                     (object_head n @ [(cstr_of key, new_JSONNode JSON_Object)]) n)"

text \<open>Writing through the pointer to the child with the given key.\<close>

definition json_update_child :: "string \<Rightarrow> (JSONNode \<Rightarrow> JSONNode) \<Rightarrow> JSONNode \<Rightarrow> JSONNode" where
  "json_update_child key f n = json_set_members (kv_update key f (object_head n)) n"

section \<open>The parser\<close>

definition json_ws :: "char \<Rightarrow> bool" where
  "json_ws c \<longleftrightarrow> c = CHR '' '' \<or> c = TAB \<or> c = CR \<or> c = LF"

definition skip_json_whitespace :: "string \<Rightarrow> string" where
  "skip_json_whitespace p = dropWhile json_ws p"

definition json_unescape :: "char \<Rightarrow> char" where
  "json_unescape ch =
     (if ch = DQUOTE then DQUOTE
      else if ch = BACKSLASH then BACKSLASH
      else if ch = CHR ''/'' then CHR ''/''
      else if ch = CHR ''b'' then CHR 0x08
      else if ch = CHR ''f'' then CHR 0x0C
      else if ch = CHR ''n'' then LF
      else if ch = CHR ''r'' then CR
      else if ch = CHR ''t'' then TAB
      else ch)"

text \<open>The copying loop of \<open>parse_json_string\<close>: \<open>out\<close> is \<open>out_str\<close>.\<close>

fun json_string_loop :: "string \<Rightarrow> string \<Rightarrow> string \<Rightarrow> (string \<times> string) option" where
  "json_string_loop out buf [] = None"
| "json_string_loop out buf (c # p) =
     (if c = DQUOTE then Some (out @ buf, p)
      else if c = BACKSLASH
      then (case p of
              [] \<Rightarrow> None
            | ch # p' \<Rightarrow> (case buf_flush out (buf @ [json_unescape ch]) of
                             (out', buf') \<Rightarrow> json_string_loop out' buf' p'))
      else (case buf_flush out (buf @ [c]) of
              (out', buf') \<Rightarrow> json_string_loop out' buf' p))"

definition parse_json_string :: "string \<Rightarrow> (string \<times> string) option" where
  "parse_json_string p = (if deref p \<noteq> DQUOTE then None else json_string_loop [] [] (tl p))"

definition parse_json_number :: "string \<Rightarrow> JSONNode \<times> string" where
  "parse_json_number start =
     (let p = (if deref start = CHR ''-'' then tl start else start);
          p = dropWhile dec_digit p;
          len = length start - length p;
          num_buf = take (if len \<ge> 64 then 64 - 1 else len) start
      in (JSONNode JSON_Number num_buf (atoins num_buf) False [] [], p))"

definition json_literal :: "string \<Rightarrow> string \<Rightarrow> bool" where
  "json_literal p lit \<longleftrightarrow> StrCompareN p lit (length lit) = 0"

text \<open>
  The mutually recursive part. \<open>json_members\<close> and \<open>json_elements\<close> are the \<open>while (*p)\<close> loops
  of \<open>parse_json_object\<close> and \<open>parse_json_array\<close>, with the node built so far as argument.
\<close>

function (sequential)
  parse_json_value :: "string \<Rightarrow> (JSONNode \<times> string) option" and
  parse_json_object :: "string \<Rightarrow> (JSONNode \<times> string) option" and
  json_members :: "JSONNode \<Rightarrow> string \<Rightarrow> (JSONNode \<times> string) option" and
  parse_json_array :: "string \<Rightarrow> (JSONNode \<times> string) option" and
  json_elements :: "JSONNode \<Rightarrow> string \<Rightarrow> (JSONNode \<times> string) option"
where
  "parse_json_value p0 =
     (let p = skip_json_whitespace p0 in
      if p = [] then None
      else if deref p = CHR ''{'' then parse_json_object p
      else if deref p = CHR ''['' then parse_json_array p
      else if deref p = DQUOTE then
        (case parse_json_string p of
           None \<Rightarrow> None
         | Some (str, p') \<Rightarrow> Some (JSONNode JSON_String str 0 False [] [], p'))
      else if deref p = CHR ''t'' \<or> deref p = CHR ''f'' then
        (if deref p = CHR ''t'' then
           (if json_literal p ''true''
            then Some (JSONNode JSON_Boolean ''true'' 0 True [] [], drop 4 p) else None)
         else
           (if json_literal p ''false''
            then Some (JSONNode JSON_Boolean ''false'' 0 False [] [], drop 5 p) else None))
      else if deref p = CHR ''n'' then
        (if json_literal p ''null'' then Some (new_JSONNode JSON_Null, drop 4 p) else None)
      else if deref p = CHR ''-'' \<or> dec_digit (deref p) then Some (parse_json_number p)
      else None)"
| "parse_json_object p0 =
     (if deref p0 \<noteq> CHR ''{'' then None
      else let p = skip_json_whitespace (tl p0); obj = new_JSONNode JSON_Object
           in if deref p = CHR ''}'' then Some (obj, tl p) else json_members obj p)"
| "json_members obj p0 =
     (if p0 = [] then None
      else let p = skip_json_whitespace p0 in
        if deref p \<noteq> DQUOTE then None
        else case parse_json_string p of
          None \<Rightarrow> None
        | Some (key, p1) \<Rightarrow>
            (let p2 = skip_json_whitespace p1 in
             if deref p2 \<noteq> CHR '':'' then None
             else case parse_json_value (skip_json_whitespace (tl p2)) of
               None \<Rightarrow> None
             | Some (val, p3) \<Rightarrow>
                 (let obj' = addObjectMember obj key val; p4 = skip_json_whitespace p3 in
                  if deref p4 = CHR '','' then json_members obj' (tl p4)
                  else if deref p4 = CHR ''}'' then Some (obj', tl p4)
                  else None)))"
| "parse_json_array p0 =
     (if deref p0 \<noteq> CHR ''['' then None
      else let p = skip_json_whitespace (tl p0); arr = new_JSONNode JSON_Array
           in if deref p = CHR '']'' then Some (arr, tl p) else json_elements arr p)"
| "json_elements arr p0 =
     (if p0 = [] then None
      else case parse_json_value (skip_json_whitespace p0) of
        None \<Rightarrow> None
      | Some (val, p1) \<Rightarrow>
          (let arr' = addArrayElement arr val; p2 = skip_json_whitespace p1 in
           if deref p2 = CHR '','' then json_elements arr' (tl p2)
           else if deref p2 = CHR '']'' then Some (arr', tl p2)
           else None))"
  by pat_completeness auto


text \<open>
  Every parser leaves a strictly shorter text. For the mutually recursive ones this is proved
  on their domain first, and gives their termination: a call is either on a shorter text, or
  on the same text one level down in \<open>members, elements > value > object, array\<close>.
\<close>

lemma length_skip_json_whitespace [simp]: "length (skip_json_whitespace p) \<le> length p"
  by (simp add: skip_json_whitespace_def length_dropWhile_le)

lemma length_tl_deref: "deref p \<noteq> NUL \<Longrightarrow> length (tl p) < length p"
  by (cases p) auto

lemma length_tl_skip: "deref (skip_json_whitespace p) \<noteq> NUL \<Longrightarrow> length (tl (skip_json_whitespace p)) < length p"
  using length_tl_deref [of "skip_json_whitespace p"] length_skip_json_whitespace [of p] by linarith

lemma json_string_loop_length:
  "json_string_loop out buf p = Some (s, p') \<Longrightarrow> length p' < length p"
  by (induction out buf p rule: json_string_loop.induct)
     (fastforce split: if_splits list.splits prod.splits)+

lemma parse_json_string_length: "parse_json_string p = Some (s, p') \<Longrightarrow> length p' < length p"
  by (cases p) (auto simp: parse_json_string_def dest: json_string_loop_length split: if_splits)

lemma parse_json_number_length:
  "deref p = CHR ''-'' \<or> dec_digit (deref p) \<Longrightarrow> p \<noteq> [] \<Longrightarrow>
   length (snd (parse_json_number p)) < length p"
  by (cases p) (auto simp: parse_json_number_def Let_def le_imp_less_Suc length_dropWhile_le)

text \<open>The text a member leaves behind for the next one.\<close>

lemma json_member_length:
  assumes "parse_json_string (skip_json_whitespace p0) = Some (key, p1)"
    and "deref (skip_json_whitespace p1) = CHR '':''"
    and "length p3 < length (skip_json_whitespace (tl (skip_json_whitespace p1)))"
  shows "length p3 < length p0"
proof -
  have "length (skip_json_whitespace (tl (skip_json_whitespace p1))) \<le> length (tl (skip_json_whitespace p1))"
    by (rule length_skip_json_whitespace)
  also have "\<dots> < length p1" using assms(2) by (intro length_tl_skip) simp
  also have "length p1 < length p0"
    using parse_json_string_length [OF assms(1)] length_skip_json_whitespace [of p0] by linarith
  finally show ?thesis using assms(3) by linarith
qed

abbreviation "json_dom \<equiv> parse_json_value_parse_json_object_json_members_parse_json_array_json_elements_dom"

lemma json_parse_length:
  "json_dom (Inl (Inl p)) \<Longrightarrow> parse_json_value p = Some (v, p') \<Longrightarrow> length p' < length p"
  "json_dom (Inl (Inr q)) \<Longrightarrow> parse_json_object q = Some (v, p') \<Longrightarrow> length p' < length q"
  "json_dom (Inr (Inl (obj, m))) \<Longrightarrow> json_members obj m = Some (v, p') \<Longrightarrow> length p' < length m"
  "json_dom (Inr (Inr (Inl r))) \<Longrightarrow> parse_json_array r = Some (v, p') \<Longrightarrow> length p' < length r"
  "json_dom (Inr (Inr (Inr (arr, e)))) \<Longrightarrow> json_elements arr e = Some (v, p') \<Longrightarrow> length p' < length e"
proof (induction p and q and obj m and r and arr e arbitrary: v p' and v p' and v p' and v p' and v p' rule: parse_json_value_parse_json_object_json_members_parse_json_array_json_elements.pinduct)
  case (1 p0)
  have "length p' < length (skip_json_whitespace p0)"
    using 1 parse_json_string_length [of "skip_json_whitespace p0"]
      parse_json_number_length [of "skip_json_whitespace p0"]
    by (auto simp: parse_json_value.psimps Let_def split: if_splits option.splits prod.splits)
  also have "\<dots> \<le> length p0" by simp
  finally show ?case .
next
  case (2 p0)
  then have l: "length (tl p0) < length p0"
    by (intro length_tl_deref) (auto simp: parse_json_object.psimps split: if_splits)
  have "length p' < length (skip_json_whitespace (tl p0)) \<or> p' = tl (skip_json_whitespace (tl p0))"
    using 2 by (auto simp: parse_json_object.psimps Let_def split: if_splits)
  moreover have "length (skip_json_whitespace (tl p0)) \<le> length (tl p0)"
    by (rule length_skip_json_whitespace)
  ultimately show ?case using l by auto
next
  case (3 obj p0)
  from 3(1,4) obtain key p1 val p3 where
      str: "parse_json_string (skip_json_whitespace p0) = Some (key, p1)"
    and colon: "deref (skip_json_whitespace p1) = CHR '':''"
    and val: "parse_json_value (skip_json_whitespace (tl (skip_json_whitespace p1))) = Some (val, p3)"
    and rest: "deref (skip_json_whitespace p3) = CHR '','' \<and>
        json_members (addObjectMember obj key val) (tl (skip_json_whitespace p3)) = Some (v, p') \<or>
      deref (skip_json_whitespace p3) = CHR ''}'' \<and> p' = tl (skip_json_whitespace p3)"
    and ne: "p0 \<noteq> []" "deref (skip_json_whitespace p0) = DQUOTE"
    by (auto simp: json_members.psimps Let_def split: if_splits option.splits prod.splits)
  have p3: "length p3 < length p0"
    using 3(2) ne str colon val by (intro json_member_length [OF str colon]) auto
  have "length (tl (skip_json_whitespace p3)) < length p3"
    using rest by (intro length_tl_skip) auto
  moreover have "length p' \<le> length (tl (skip_json_whitespace p3))"
    using rest 3(3) ne str colon val by (auto intro: less_imp_le)
  ultimately show ?case using p3 by linarith
next
  case (4 p0)
  then have l: "length (tl p0) < length p0"
    by (intro length_tl_deref) (auto simp: parse_json_array.psimps split: if_splits)
  have "length p' < length (skip_json_whitespace (tl p0)) \<or> p' = tl (skip_json_whitespace (tl p0))"
    using 4 by (auto simp: parse_json_array.psimps Let_def split: if_splits)
  moreover have "length (skip_json_whitespace (tl p0)) \<le> length (tl p0)"
    by (rule length_skip_json_whitespace)
  ultimately show ?case using l by auto
next
  case (5 arr p0)
  from 5(1,4) obtain val p1 where
      val: "parse_json_value (skip_json_whitespace p0) = Some (val, p1)"
    and rest: "deref (skip_json_whitespace p1) = CHR '','' \<and>
        json_elements (addArrayElement arr val) (tl (skip_json_whitespace p1)) = Some (v, p') \<or>
      deref (skip_json_whitespace p1) = CHR '']'' \<and> p' = tl (skip_json_whitespace p1)"
    and ne: "p0 \<noteq> []"
    by (auto simp: json_elements.psimps Let_def split: if_splits option.splits prod.splits)
  have "length p1 < length (skip_json_whitespace p0)" using 5(2) ne val by auto
  moreover have "length (skip_json_whitespace p0) \<le> length p0" by simp
  moreover have "length (tl (skip_json_whitespace p1)) < length p1"
    using rest by (intro length_tl_skip) auto
  moreover have "length p' \<le> length (tl (skip_json_whitespace p1))"
    using rest 5(3) ne val by (auto intro: less_imp_le)
  ultimately show ?case by linarith
qed

lemma less_skip: "length q < n \<Longrightarrow> length (skip_json_whitespace q) < n"
  using length_skip_json_whitespace [of q] by linarith

termination parse_json_value
proof (relation "measures [\<lambda>x. case x of Inl (Inl p) \<Rightarrow> length p | Inl (Inr p) \<Rightarrow> length p
      | Inr (Inl (_, p)) \<Rightarrow> length p | Inr (Inr (Inl p)) \<Rightarrow> length p | Inr (Inr (Inr (_, p))) \<Rightarrow> length p,
      \<lambda>x. case x of Inl (Inl p) \<Rightarrow> 1 | Inl (Inr p) \<Rightarrow> 0
      | Inr (Inl (_, p)) \<Rightarrow> 2 | Inr (Inr (Inl p)) \<Rightarrow> 0 | Inr (Inr (Inr (_, p))) \<Rightarrow> 2]", goal_cases)
  case 1
  show ?case by simp
next
  case (2 p0 p)
  then show ?case by (simp flip: le_less)
next
  case (3 p0 p)
  then show ?case by (simp flip: le_less)
next
  case (4 p0 p obj)
  then show ?case
    using less_skip [OF length_tl_deref [of p0]] by (simp del: length_tl)
next
  case (5 obj p0 p kp key p1 p2)
  then have "length (tl p2) < length p1"
    using length_tl_skip [of p1] by simp
  moreover have "length p1 < length p"
    using 5 by (intro parse_json_string_length) auto
  moreover have "length p \<le> length p0"
    using 5 by simp
  ultimately have "length (skip_json_whitespace (tl p2)) < length p0"
    by (intro less_skip) linarith
  then show ?case by (simp del: length_tl)
next
  case (6 obj p0 p kp key p1 p2 vp val p3 obj' p4)
  then have "length p3 < length p0"
    using json_parse_length(1) [of "skip_json_whitespace (tl p2)" val p3]
    by (intro json_member_length [of p0 key p1]) auto
  moreover have "length (tl p4) < length p3"
    using 6 length_tl_skip [of p3] by simp
  ultimately have "length (tl p4) < length p0" by linarith
  then show ?case by (simp del: length_tl)
next
  case (7 p0 p arr)
  then show ?case
    using less_skip [OF length_tl_deref [of p0]] by (simp del: length_tl)
next
  case (8 arr p0)
  then show ?case by (simp flip: le_less)
next
  case (9 arr p0 vp val p1 arr' p2)
  then have "length p1 < length (skip_json_whitespace p0)"
    using json_parse_length(1) [of "skip_json_whitespace p0" val p1] by auto
  moreover have "length (tl p2) < length p1"
    using 9 length_tl_skip [of p1] by simp
  ultimately have "length (tl p2) < length p0"
    using length_skip_json_whitespace [of p0] by linarith
  then show ?case by (simp del: length_tl)
qed


declare parse_json_value.simps [simp del] parse_json_object.simps [simp del]
  json_members.simps [simp del] parse_json_array.simps [simp del] json_elements.simps [simp del]

section \<open>The configuration object\<close>

text \<open>\<open>root_node\<close> is \<open>None\<close> while the pointer is null.\<close>

record ConfigJSON =
  json_root :: "JSONNode option"
  json_valid :: bool

definition parse_json :: "ConfigJSON \<Rightarrow> rostr \<Rightarrow> ConfigJSON" where
  "parse_json c text =
     (case text of
        None \<Rightarrow> c\<lparr>json_valid := False\<rparr>
      | Some t \<Rightarrow>
          (let p = skip_json_whitespace (cstr_of t) in
           if p = [] then c\<lparr>json_valid := False\<rparr>
           else case parse_json_value p of
             Some (parsed, p') \<Rightarrow>
               (if skip_json_whitespace p' = [] then c\<lparr>json_root := Some parsed, json_valid := True\<rparr>
                else c\<lparr>json_root := Some (new_JSONNode JSON_Object), json_valid := False\<rparr>)
           | None \<Rightarrow> c\<lparr>json_root := Some (new_JSONNode JSON_Object), json_valid := False\<rparr>))"

text \<open>
  The constructor. \<open>file\<close> is \<open>None\<close> for a null handle, otherwise the bytes \<open>fread\<close>
  delivered into the buffer (an allocation failure leaves the text empty, as an empty file).
\<close>

definition new_ConfigJSON :: "char list option \<Rightarrow> ConfigJSON" where
  "new_ConfigJSON file =
     parse_json \<lparr>json_root = None, json_valid = False\<rparr>
       (Some (case file of None \<Rightarrow> [] | Some raw \<Rightarrow> cstr_of raw))"

definition json_Probe :: "ConfigJSON \<Rightarrow> bool" where
  "json_Probe c = json_valid c"

definition json_sep :: "char \<Rightarrow> bool" where
  "json_sep c \<longleftrightarrow> c = CHR ''/''"

function traverse_json_loop :: "JSONNode \<Rightarrow> string \<Rightarrow> JSONNode option" where
  "traverse_json_loop cur p =
     (if p = [] then Some cur
      else let seg = segment json_sep p; p' = after_segment json_sep p in
        if jtype cur = JSON_Object
        then (case json_findChild cur seg of
                None \<Rightarrow> None
              | Some child \<Rightarrow> traverse_json_loop child p')
        else None)"
  by pat_completeness auto
termination
  by (relation "measure (\<lambda>(n, p). length p)") (auto simp: after_segment_less)

definition traverse_json_path :: "JSONNode option \<Rightarrow> rostr \<Rightarrow> JSONNode option" where
  "traverse_json_path root path =
     (case root of None \<Rightarrow> None | Some r \<Rightarrow>
       (case path of None \<Rightarrow> None | Some s \<Rightarrow>
          (let p = dropWhile json_sep (cstr_of s) in
           if p = [] then Some r else traverse_json_loop r p)))"

definition json_get :: "ConfigJSON \<Rightarrow> rostr \<Rightarrow> string" where
  "json_get c name =
     (if json_root c = None \<or> name = None then []
      else case traverse_json_path (json_root c) name of
        None \<Rightarrow> []
      | Some node \<Rightarrow>
          (if jtype node = JSON_String \<or> jtype node = JSON_Number \<or> jtype node = JSON_Boolean
           then str_val node else []))"

definition json_getNumber :: "ConfigJSON \<Rightarrow> rostr \<Rightarrow> stdsint" where
  "json_getNumber c name =
     (if json_root c = None \<or> name = None then 0
      else case traverse_json_path (json_root c) name of
        None \<Rightarrow> 0
      | Some node \<Rightarrow>
          (if jtype node = JSON_Number then num_val node
           else if jtype node = JSON_String then atoins (str_val node)
           else if jtype node = JSON_Boolean then (if bool_val node then 1 else 0)
           else 0))"

text \<open>
  The descent of \<open>set\<close>: the leaf branch writes the last segment, the other one goes on in
  the child \<open>getOrCreateChild\<close> returned. The result is the node \<open>cur\<close> points to, after the
  writes below it.
\<close>

definition json_leaf :: "string \<Rightarrow> JSONNode \<Rightarrow> JSONNode" where
  "json_leaf val leaf = JSONNode (jtype leaf) (cstr_of val) (atoins val) (bool_val leaf)
     (object_head leaf) (array_head leaf)"

definition json_set_leaf :: "JSONNode \<Rightarrow> string \<Rightarrow> string \<Rightarrow> JSONNode" where
  "json_set_leaf cur seg val =
     (let cur = (if jtype cur \<noteq> JSON_Object then json_set_type JSON_Object (json_clear cur) else cur)
      in case json_findChild cur seg of
           None \<Rightarrow> json_update_child seg (json_leaf val)
                     (addObjectMember cur seg (new_JSONNode JSON_String))
         | Some leaf \<Rightarrow>
             json_update_child seg (\<lambda>leaf. json_leaf val (json_set_type JSON_String (json_clear leaf))) cur)"

function json_set_loop :: "JSONNode \<Rightarrow> string \<Rightarrow> string \<Rightarrow> JSONNode" where
  "json_set_loop cur p val =
     (if p = [] then cur
      else let seg = segment json_sep p; p' = after_segment json_sep p in
        if p' = [] then json_set_leaf cur seg val
        else json_update_child seg (\<lambda>child. json_set_loop child p' val) (json_getOrCreateChild cur seg))"
  by pat_completeness auto
termination
  by (relation "measure (\<lambda>(n, p, v). length p)") (auto simp: after_segment_less)

definition json_set :: "ConfigJSON \<Rightarrow> rostr \<Rightarrow> rostr \<Rightarrow> ConfigJSON \<times> bool" where
  "json_set c name val =
     (case name of None \<Rightarrow> (c, False) | Some nm \<Rightarrow>
       (case val of None \<Rightarrow> (c, False) | Some v \<Rightarrow>
          (let root = (case json_root c of None \<Rightarrow> new_JSONNode JSON_Object | Some r \<Rightarrow> r);
               c = c\<lparr>json_root := Some root\<rparr>;
               p = dropWhile json_sep (cstr_of nm)
           in if p = [] then (c, False)
              else (c\<lparr>json_root := Some (json_set_loop root p v)\<rparr>, True))))"

declare traverse_json_loop.simps [simp del] json_set_loop.simps [simp del]


section \<open>The tree operations and the interface\<close>

lemmas json_node_defs = json_findChild_def json_set_members_def json_update_child_def
  json_getOrCreateChild_def addObjectMember_def json_set_type_def json_clear_def new_JSONNode_def
  json_set_leaf_def json_leaf_def

definition json_value_of :: "JSONNode \<Rightarrow> string" where
  "json_value_of node =
     (if jtype node = JSON_String \<or> jtype node = JSON_Number \<or> jtype node = JSON_Boolean
      then str_val node else [])"

definition json_number_of :: "JSONNode \<Rightarrow> stdsint" where
  "json_number_of node =
     (if jtype node = JSON_Number then num_val node
      else if jtype node = JSON_String then atoins (str_val node)
      else if jtype node = JSON_Boolean then (if bool_val node then 1 else 0)
      else 0)"

interpretation json_tree: config_tree json_findChild json_getOrCreateChild json_update_child
  json_set_leaf "\<lambda>l v. json_value_of l = cstr_of v \<and> json_number_of l = atoins v"
proof (unfold_locales, goal_cases)
  case (1 k f n)
  show ?case by (auto simp: json_node_defs Let_def tree_simps)
next
  case (2 k k' f n)
  then show ?case by (auto simp: json_node_defs Let_def tree_simps)
next
  case (3 n k)
  show ?case
    by (auto simp: json_node_defs Let_def tree_simps fun_eq_iff split: option.splits)
next
  case (4 k k' n)
  then show ?case
    by (auto simp: json_node_defs Let_def tree_simps split: option.splits)
next
  case (5 n k v)
  show ?case
    by (auto simp: json_node_defs Let_def tree_simps json_value_of_def json_number_of_def
        split: option.splits)
next
  case (6 k k' n v)
  then show ?case
    by (auto simp: json_node_defs Let_def tree_simps split: option.splits)
qed

lemma traverse_json_loop_lookup:
  "traverse_json_loop cur p = tree_lookup json_findChild cur (segments json_sep p)"
proof (induction cur p rule: traverse_json_loop.induct)
  case (1 cur p)
  show ?case
  proof (cases "p = []")
    case True
    then show ?thesis by (simp add: traverse_json_loop.simps)
  next
    case False
    then show ?thesis using 1
      by (auto simp: traverse_json_loop.simps [of cur p] segments_step json_findChild_def Let_def
          split: option.splits)
  qed
qed

lemma json_set_loop_store:
  "json_set_loop cur p v = tree_store json_getOrCreateChild json_update_child json_set_leaf
     cur (segments json_sep p) v"
proof (induction cur p v rule: json_set_loop.induct)
  case (1 cur p v)
  show ?case
  proof (cases "p = [] \<or> after_segment json_sep p = []")
    case True
    then show ?thesis by (auto simp: json_set_loop.simps [of cur p v] segments_step Let_def)
  next
    case False
    then have "segments json_sep (after_segment json_sep p) \<noteq> []" by simp
    then show ?thesis using False 1
      by (auto simp: json_set_loop.simps [of cur p v] segments_step [of p] Let_def tree_store_Cons)
  qed
qed

definition json_tree_of :: "ConfigJSON \<Rightarrow> JSONNode" where
  "json_tree_of c = (case json_root c of None \<Rightarrow> new_JSONNode JSON_Object | Some r \<Rightarrow> r)"

lemma new_JSONNode_jtype [simp]: "jtype (new_JSONNode t) = t"
  by (simp add: new_JSONNode_def)

text \<open>Before the first \<open>set\<close> a null root reads as an empty object.\<close>

lemma lookup_new_object:
  "tree_lookup json_findChild (new_JSONNode JSON_Object) ss =
     (if ss = [] then Some (new_JSONNode JSON_Object) else None)"
  by (cases ss) (auto simp: json_findChild_def new_JSONNode_def)

lemma traverse_json_path_lookup:
  "traverse_json_path (Some r) (Some s) =
     tree_lookup json_findChild r (name_segments json_sep s)"
  by (cases "dropWhile json_sep (cstr_of s)")
     (simp_all add: traverse_json_path_def traverse_json_loop_lookup name_segments_def Let_def)

lemma json_get_lookup:
  "json_get c (Some name) =
     (case tree_lookup json_findChild (json_tree_of c) (name_segments json_sep name) of
        None \<Rightarrow> [] | Some n \<Rightarrow> json_value_of n)"
  by (cases "json_root c")
     (auto simp: json_get_def json_tree_of_def traverse_json_path_lookup json_value_of_def
        lookup_new_object new_JSONNode_jtype split: option.splits)

lemma json_getNumber_lookup:
  "json_getNumber c (Some name) =
     (case tree_lookup json_findChild (json_tree_of c) (name_segments json_sep name) of
        None \<Rightarrow> 0 | Some n \<Rightarrow> json_number_of n)"
  by (cases "json_root c")
     (auto simp: json_getNumber_def json_tree_of_def traverse_json_path_lookup json_number_of_def
        lookup_new_object new_JSONNode_jtype split: option.splits)

lemma json_set_store:
  "json_set c (Some name) (Some v) =
     (c\<lparr>json_root := Some (tree_store json_getOrCreateChild json_update_child json_set_leaf
          (json_tree_of c) (name_segments json_sep name) v)\<rparr>,
      name_segments json_sep name \<noteq> [])"
  by (cases "dropWhile json_sep (cstr_of name)")
     (simp_all add: json_set_def json_set_loop_store json_tree_of_def name_segments_def Let_def)

lemma json_tree_of_set [simp]:
  "json_tree_of (c\<lparr>json_root := Some r\<rparr>) = r"
  by (simp add: json_tree_of_def)

interpretation json_config: config_text "\<lambda>_. name_segments json_sep"
  "\<lambda>c name v. json_set c (Some name) (Some v)" "\<lambda>c name. json_get c (Some name)"
  "\<lambda>c name. json_getNumber c (Some name)"
proof (unfold_locales, goal_cases)
  case (3 c name q v)
  then show ?case
    using json_tree.lookup_store_same [of "name_segments json_sep name" "json_tree_of c" v]
    by (auto simp: json_set_store json_get_lookup)
next
  case (4 c name q v)
  then show ?case
    using json_tree.lookup_store_same [of "name_segments json_sep name" "json_tree_of c" v]
    by (auto simp: json_set_store json_getNumber_lookup)
next
  case (5 c name q v)
  then show ?case
    by (simp add: json_set_store json_get_lookup json_tree.lookup_store_other NUL_free_names)
next
  case (6 c name q v)
  then show ?case
    by (simp add: json_set_store json_getNumber_lookup json_tree.lookup_store_other NUL_free_names)
qed (simp_all add: json_set_store)

end
