(* ===== verification/JSONText.thy ===== *)
theory JSONText
  imports ConfigJSON
begin

text \<open>
  The texts the JSON parser must accept, as an inductive grammar with free whitespace and
  both spellings of an escapable character, and the proof that the parser of
  \<open>src/lib/cpp/Format/ConfigText/JSON.cpp\<close> returns the tree of each of them.
\<close>

section \<open>Values and their trees\<close>

datatype json_value =
    JV_Null | JV_Bool bool | JV_Num int | JV_Str string
  | JV_Arr "json_value list" | JV_Obj "(string \<times> json_value) list"

fun json_node :: "json_value \<Rightarrow> JSONNode" where
  "json_node JV_Null = new_JSONNode JSON_Null"
| "json_node (JV_Bool b) = JSONNode JSON_Boolean (if b then ''true'' else ''false'') 0 b [] []"
| "json_node (JV_Num i) = JSONNode JSON_Number (decimal_int i) (of_int i) False [] []"
| "json_node (JV_Str s) = JSONNode JSON_String s 0 False [] []"
| "json_node (JV_Arr vs) = JSONNode JSON_Array [] 0 False [] (map json_node vs)"
| "json_node (JV_Obj kvs) = JSONNode JSON_Object [] 0 False (map (\<lambda>(k, v). (k, json_node v)) kvs) []"

section \<open>The grammar\<close>

text \<open>The escapes with one character of the JSON standard, written out independently of the parser.\<close>

definition json_escapes :: "(char \<times> char) set" where
  "json_escapes = {(DQUOTE, DQUOTE), (BACKSLASH, BACKSLASH), (CHR ''/'', CHR ''/''), (CHR ''b'', CHR 0x08),
     (CHR ''f'', CHR 0x0C), (CHR ''n'', CHR 0x0A), (CHR ''r'', CHR 0x0D), (CHR ''t'', CHR 0x09)}"

inductive json_chars :: "string \<Rightarrow> string \<Rightarrow> bool" where
  chars_Nil: "json_chars [] []"
| chars_plain: "c \<notin> {DQUOTE, BACKSLASH, NUL} \<Longrightarrow> json_chars s t \<Longrightarrow> json_chars (c # s) (c # t)"
| chars_escape: "(e, c) \<in> json_escapes \<Longrightarrow> json_chars s t \<Longrightarrow> json_chars (c # s) (BACKSLASH # e # t)"

definition json_space :: "string \<Rightarrow> bool" where
  "json_space w \<longleftrightarrow> (\<forall>c \<in> set w. json_ws c)"

inductive json_text :: "json_value \<Rightarrow> string \<Rightarrow> bool"
  and json_elems :: "json_value list \<Rightarrow> string \<Rightarrow> bool"
  and json_membs :: "(string \<times> json_value) list \<Rightarrow> string \<Rightarrow> bool"
where
  text_null: "json_text JV_Null ''null''"
| text_true: "json_text (JV_Bool True) ''true''"
| text_false: "json_text (JV_Bool False) ''false''"
| text_num: "\<bar>i\<bar> < 10 ^ 20 \<Longrightarrow> json_text (JV_Num i) (decimal_int i)"
| text_str: "json_chars s t \<Longrightarrow> json_text (JV_Str s) (DQUOTE # t @ [DQUOTE])"
| text_arr0: "json_space w \<Longrightarrow> json_text (JV_Arr []) (CHR ''['' # w @ '']'')"
| text_arr: "json_elems vs t \<Longrightarrow> json_text (JV_Arr vs) (CHR ''['' # t)"
| text_obj0: "json_space w \<Longrightarrow> json_text (JV_Obj []) (CHR ''{'' # w @ ''}'')"
| text_obj: "json_membs kvs t \<Longrightarrow> json_text (JV_Obj kvs) (CHR ''{'' # t)"
| elems_last: "json_space w1 \<Longrightarrow> json_space w2 \<Longrightarrow> json_text v t \<Longrightarrow>
    json_elems [v] (w1 @ t @ w2 @ '']'')"
| elems_more: "json_space w1 \<Longrightarrow> json_space w2 \<Longrightarrow> json_text v t \<Longrightarrow> json_elems vs u \<Longrightarrow>
    json_elems (v # vs) (w1 @ t @ w2 @ CHR '','' # u)"
| membs_last: "json_space w1 \<Longrightarrow> json_space w2 \<Longrightarrow> json_space w3 \<Longrightarrow> json_space w4 \<Longrightarrow>
    json_chars k kt \<Longrightarrow> json_text v t \<Longrightarrow>
    json_membs [(k, v)] (w1 @ DQUOTE # kt @ DQUOTE # w2 @ CHR '':'' # w3 @ t @ w4 @ ''}'')"
| membs_more: "json_space w1 \<Longrightarrow> json_space w2 \<Longrightarrow> json_space w3 \<Longrightarrow> json_space w4 \<Longrightarrow>
    json_chars k kt \<Longrightarrow> json_text v t \<Longrightarrow> json_membs kvs u \<Longrightarrow>
    json_membs ((k, v) # kvs)
      (w1 @ DQUOTE # kt @ DQUOTE # w2 @ CHR '':'' # w3 @ t @ w4 @ CHR '','' # u)"

section \<open>The parser on the grammar\<close>

lemma json_unescape_escapes:
  "(e, c) \<in> json_escapes \<Longrightarrow> json_unescape e = c \<and> e \<noteq> NUL \<and> c \<noteq> NUL"
  by (auto simp: json_escapes_def json_unescape_def)

text \<open>
  The chunked copying of a string literal is the plain one: the flushes of the 1024 byte
  buffer leave no trace in the result.
\<close>

lemma json_string_loop_chars:
  "json_chars s t \<Longrightarrow> json_string_loop out buf (t @ DQUOTE # rest) = Some (out @ buf @ s, rest)"
proof (induction arbitrary: out buf rule: json_chars.induct)
  case chars_Nil
  show ?case by simp
next
  case (chars_plain c s t)
  then show ?case
    by (auto split: prod.splits dest!: buf_flush_append)
next
  case (chars_escape e c s t)
  then show ?case
    using json_unescape_escapes [OF chars_escape(1)] by (auto split: prod.splits dest!: buf_flush_append)
qed


lemma parse_json_string_chars:
  "json_chars s t \<Longrightarrow> parse_json_string (DQUOTE # t @ DQUOTE # rest) = Some (s, rest)"
  by (simp add: parse_json_string_def json_string_loop_chars)

lemma NUL_free_json_chars: "json_chars s t \<Longrightarrow> NUL \<notin> set s"
  by (induction rule: json_chars.induct) (auto dest: json_unescape_escapes)

subsection \<open>Whitespace\<close>

lemma skip_space [simp]: "json_space w \<Longrightarrow> skip_json_whitespace (w @ p) = skip_json_whitespace p"
  by (induction w) (auto simp: json_space_def skip_json_whitespace_def)

lemma skip_nonspace [simp]: "\<not> json_ws (deref p) \<Longrightarrow> skip_json_whitespace p = p"
  by (cases p) (auto simp: skip_json_whitespace_def)

lemma skip_skip [simp]: "skip_json_whitespace (skip_json_whitespace p) = skip_json_whitespace p"
  by (simp add: skip_json_whitespace_def)

lemma json_ws_chars [simp]:
  "\<not> json_ws DQUOTE" "\<not> json_ws (CHR '']'')" "\<not> json_ws (CHR '','')" "\<not> json_ws (CHR ''}'')"
  "\<not> json_ws (CHR '':'')" "\<not> json_ws (CHR ''{'')" "\<not> json_ws (CHR ''['')" "\<not> json_ws NUL"
  "\<not> json_ws (CHR ''n'')" "\<not> json_ws (CHR ''t'')" "\<not> json_ws (CHR ''f'')" "\<not> json_ws (CHR ''-'')"
  by (simp_all add: json_ws_def)

lemma parse_json_value_skip [simp]: "parse_json_value (skip_json_whitespace p) = parse_json_value p"
  by (simp add: parse_json_value.simps [of p] parse_json_value.simps [of "skip_json_whitespace p"])

lemma skip_Nil [simp]: "skip_json_whitespace [] = []"
  by (simp add: skip_json_whitespace_def)

lemma parse_json_value_Nil [simp]: "parse_json_value [] = None"
  by (simp add: parse_json_value.simps)

lemma json_members_skip [simp]: "json_members obj (skip_json_whitespace p) = json_members obj p"
  by (cases "skip_json_whitespace p = []"; cases "p = []")
     (simp_all add: json_members.simps [of obj p] json_members.simps [of obj "skip_json_whitespace p"]
        json_members.simps [of obj "[]"])

lemma json_elements_skip [simp]: "json_elements arr (skip_json_whitespace p) = json_elements arr p"
proof (cases "skip_json_whitespace p = []")
  case True
  then have "parse_json_value p = None"
    using parse_json_value_skip [of p] by simp
  with True show ?thesis by (simp add: json_elements.simps [of arr p] json_elements.simps [of arr "[]"])
next
  case False
  then show ?thesis
    by (auto simp: json_elements.simps [of arr p] json_elements.simps [of arr "skip_json_whitespace p"])
qed

subsection \<open>Numbers\<close>

lemma parse_json_number_decimal:
  assumes "\<bar>i\<bar> < 10 ^ 20" and "\<not> dec_digit (deref rest)"
  shows "parse_json_number (decimal_int i @ rest) = (json_node (JV_Num i), rest)"
proof -
  let ?s = "decimal_int i @ rest"
  have "dropWhile dec_digit (if deref ?s = CHR ''-'' then tl ?s else ?s) = rest"
  proof (cases "i < 0")
    case False
    then have "deref ?s \<noteq> CHR ''-''"
      using deref_decimal [of "nat i"] decimal_not_Nil [of "nat i"]
      by (cases "decimal (nat i)") (auto simp: decimal_int_def)
    with False assms(2) show ?thesis by (simp add: decimal_int_def dropWhile_decimal)
  qed (simp add: decimal_int_def dropWhile_decimal assms(2))
  moreover have "take (length ?s - length rest) ?s = decimal_int i" by simp
  ultimately show ?thesis
    using length_decimal_int [OF assms(1)] atoins_decimal_int [OF assms(1)]
    by (simp add: parse_json_number_def Let_def)
qed

lemma json_digit_not:
  "dec_digit c \<Longrightarrow> c \<notin> {CHR ''{'', CHR ''['', CHR '']'', CHR ''}'', DQUOTE, CHR ''t'', CHR ''f'', CHR ''n'', NUL}"
  "dec_digit c \<Longrightarrow> \<not> json_ws c"
  by (auto simp: dec_digit_def char_val_def json_ws_def)

subsection \<open>Values\<close>

text \<open>No value starts with whitespace or a closing bracket.\<close>

lemma decimal_int_first:
  "decimal_int i \<noteq> []" "\<not> json_ws (deref (decimal_int i @ rest))"
  "deref (decimal_int i @ rest) \<notin> {CHR '']'', CHR ''}''}"
  using deref_decimal_int [of i rest] json_digit_not [of "deref (decimal_int i @ rest)"]
  by (auto simp: decimal_int_def)

lemma json_text_first:
  assumes "json_text v t"
  shows "t \<noteq> []" and "\<not> json_ws (deref (t @ rest))" and "deref (t @ rest) \<notin> {CHR '']'', CHR ''}''}"
  using assms decimal_int_first decimal_int_first(1) [THEN not_sym]
  by (auto elim!: json_text.cases)

lemma addObjectMember_members:
  "NUL \<notin> set key \<Longrightarrow> object_head (addObjectMember obj key v) = object_head obj @ [(key, v)]"
  by (simp add: addObjectMember_def json_set_members_def)

lemma json_set_members_add [simp]: "json_set_members kvs (addObjectMember obj key v) = json_set_members kvs obj"
  by (simp add: addObjectMember_def json_set_members_def)

definition json_set_elems :: "JSONNode list \<Rightarrow> JSONNode \<Rightarrow> JSONNode" where
  "json_set_elems vs n = JSONNode (jtype n) (str_val n) (num_val n) (bool_val n) (object_head n) vs"

lemma json_set_elems_add [simp]:
  "json_set_elems vs (addArrayElement arr v) = json_set_elems vs arr"
  "array_head (addArrayElement arr v) = array_head arr @ [v]"
  by (simp_all add: addArrayElement_def json_set_elems_def)

lemma json_literal_prefix: "NUL \<notin> set lit \<Longrightarrow> json_literal (lit @ rest) lit"
  by (simp add: json_literal_def StrCompareN_prefix)

lemmas json_literals = json_literal_prefix [of "''true''", simplified]
  json_literal_prefix [of "''false''", simplified] json_literal_prefix [of "''null''", simplified]

lemma json_space_no_digit: "json_space w \<Longrightarrow> \<not> dec_digit c \<Longrightarrow> \<not> dec_digit (deref (w @ c # u))"
  by (cases w) (auto simp: json_space_def dest: json_digit_not)

lemma json_punct_no_digit [simp]:
  "\<not> dec_digit (CHR '','')" "\<not> dec_digit (CHR '']'')" "\<not> dec_digit (CHR ''}'')"
  by (simp_all add: dec_digit_def char_val_def)

lemma json_elems_first:
  assumes "json_elems vs t"
  shows "deref (skip_json_whitespace (t @ rest)) \<noteq> CHR '']''"
proof -
  obtain w v s u where "t = w @ s @ u" "json_space w" "json_text v s"
    using assms by (cases rule: json_elems.cases) auto
  then show ?thesis using json_text_first(2,3) [of v s "u @ rest"] by auto
qed

lemma json_membs_first:
  assumes "json_membs kvs t"
  shows "deref (skip_json_whitespace (t @ rest)) = DQUOTE"
proof -
  obtain w u where "t = w @ DQUOTE # u" "json_space w"
    using assms by (cases rule: json_membs.cases) auto
  then show ?thesis by simp
qed

text \<open>One step of each loop, once the value in front of it is parsed.\<close>

lemma parse_json_value_array:
  "deref (skip_json_whitespace t) \<noteq> CHR '']'' \<Longrightarrow>
   parse_json_value (CHR ''['' # t) = json_elements (new_JSONNode JSON_Array) t"
  by (simp add: parse_json_value.simps parse_json_array.simps Let_def)

lemma parse_json_value_object:
  "deref (skip_json_whitespace t) = DQUOTE \<Longrightarrow>
   parse_json_value (CHR ''{'' # t) = json_members (new_JSONNode JSON_Object) t"
  by (simp add: parse_json_value.simps parse_json_object.simps Let_def)

lemma json_elements_value:
  "parse_json_value p = Some (v, q) \<Longrightarrow> skip_json_whitespace q = c # q' \<Longrightarrow>
   json_elements arr p =
     (if c = CHR '','' then json_elements (addArrayElement arr v) q'
      else if c = CHR '']'' then Some (addArrayElement arr v, q') else None)"
  by (cases "p = []") (simp_all add: json_elements.simps [of arr p])

lemma json_members_value:
  assumes "json_chars k kt" and "json_space w1" and "json_space w2"
    and "parse_json_value p = Some (v, q)" and "skip_json_whitespace q = c # q'"
  shows "json_members obj (w1 @ DQUOTE # kt @ DQUOTE # w2 @ CHR '':'' # p) =
     (if c = CHR '','' then json_members (addObjectMember obj k v) q'
      else if c = CHR ''}'' then Some (addObjectMember obj k v, q') else None)"
  using assms by (simp add: json_members.simps [of obj "w1 @ _"] parse_json_string_chars)

lemma parse_json_value_space:
  "json_space w \<Longrightarrow> parse_json_value (w @ p) = parse_json_value p"
  using parse_json_value_skip [of "w @ p"] parse_json_value_skip [of p] by simp

lemma json_text_parse:
  "json_text v t \<Longrightarrow> \<not> dec_digit (deref rest) \<Longrightarrow> parse_json_value (t @ rest) = Some (json_node v, rest)"
  "json_elems vs et \<Longrightarrow> json_elements arr (et @ rest) =
     Some (json_set_elems (array_head arr @ map json_node vs) arr, rest)"
  "json_membs kvs mt \<Longrightarrow> json_members obj (mt @ rest) =
     Some (json_set_members (object_head obj @ map (\<lambda>(k, v). (k, json_node v)) kvs) obj, rest)"
proof (induction arbitrary: rest and arr rest and obj rest rule: json_text_json_elems_json_membs.inducts)
  case text_null
  then show ?case by (simp add: parse_json_value.simps json_literals)
next
  case text_true
  then show ?case by (simp add: parse_json_value.simps json_literals)
next
  case text_false
  then show ?case by (simp add: parse_json_value.simps json_literals)
next
  case (text_num i)
  let ?c = "deref (decimal_int i @ rest)"
  have "?c \<notin> {CHR ''{'', CHR ''['', DQUOTE, CHR ''t'', CHR ''f'', CHR ''n''}"
    using deref_decimal_int [of i rest] json_digit_not(1) [of ?c] by auto
  with text_num show ?case
    using deref_decimal_int [of i rest]
    by (simp add: parse_json_value.simps [of "_ @ _"] decimal_int_first parse_json_number_decimal Let_def)
next
  case (text_str s t)
  then show ?case by (simp add: parse_json_value.simps parse_json_string_chars)
next
  case (text_arr0 w)
  then show ?case by (simp add: parse_json_value.simps parse_json_array.simps new_JSONNode_def)
next
  case (text_arr vs t)
  then show ?case
    using json_elems_first [of vs t rest]
    by (simp add: parse_json_value_array json_set_elems_def new_JSONNode_def)
next
  case (text_obj0 w)
  then show ?case by (simp add: parse_json_value.simps parse_json_object.simps new_JSONNode_def)
next
  case (text_obj kvs t)
  then show ?case
    using json_membs_first [of kvs t rest]
    by (simp add: parse_json_value_object json_set_members_def new_JSONNode_def)
next
  case (elems_last w1 w2 v t)
  then have "parse_json_value (w1 @ t @ w2 @ CHR '']'' # rest) = Some (json_node v, w2 @ CHR '']'' # rest)"
    by (simp add: json_space_no_digit parse_json_value_space)
  from json_elements_value [OF this] elems_last show ?case
    by (simp add: addArrayElement_def json_set_elems_def)
next
  case (elems_more w1 w2 v t vs u)
  then have "parse_json_value (w1 @ t @ w2 @ CHR '','' # u @ rest) = Some (json_node v, w2 @ CHR '','' # u @ rest)"
    by (simp add: json_space_no_digit parse_json_value_space)
  from json_elements_value [OF this] elems_more show ?case by simp
next
  case (membs_last w1 w2 w3 w4 k kt v t)
  then have "parse_json_value (w3 @ t @ w4 @ CHR ''}'' # rest) = Some (json_node v, w4 @ CHR ''}'' # rest)"
    by (simp add: json_space_no_digit parse_json_value_space)
  from json_members_value [OF membs_last(5,1,2) this] membs_last NUL_free_json_chars [of k kt] show ?case
    by (simp add: addObjectMember_def json_set_members_def)
next
  case (membs_more w1 w2 w3 w4 k kt v t kvs u)
  then have "parse_json_value (w3 @ t @ w4 @ CHR '','' # u @ rest) = Some (json_node v, w4 @ CHR '','' # u @ rest)"
    by (simp add: json_space_no_digit parse_json_value_space)
  from json_members_value [OF membs_more(5,1,2) this] membs_more NUL_free_json_chars [of k kt] show ?case
    by (simp add: addObjectMember_members)
qed

section \<open>Well-formed trees\<close>

text \<open>
  The shape every tree of the program has: only an object has members, only an array has
  elements, and the keys are C strings.
\<close>

fun json_wf :: "JSONNode \<Rightarrow> bool" where
  "json_wf (JSONNode t s n b kvs vs) \<longleftrightarrow>
     (t \<noteq> JSON_Object \<longrightarrow> kvs = []) \<and> (t \<noteq> JSON_Array \<longrightarrow> vs = []) \<and>
     (\<forall>(k, v) \<in> set kvs. NUL \<notin> set k \<and> json_wf v) \<and> (\<forall>v \<in> set vs. json_wf v)"

lemma json_wf_iff:
  "json_wf n \<longleftrightarrow> (jtype n \<noteq> JSON_Object \<longrightarrow> object_head n = []) \<and>
     (jtype n \<noteq> JSON_Array \<longrightarrow> array_head n = []) \<and>
     (\<forall>(k, v) \<in> set (object_head n). NUL \<notin> set k \<and> json_wf v) \<and> (\<forall>v \<in> set (array_head n). json_wf v)"
  by (cases n) simp

lemma json_wf_addObjectMember [simp]:
  "json_wf obj \<Longrightarrow> jtype obj = JSON_Object \<Longrightarrow> json_wf v \<Longrightarrow> json_wf (addObjectMember obj key v)"
  by (auto simp: addObjectMember_def json_set_members_def json_wf_iff [of obj] NUL_notin_cstr_of)

lemma json_wf_addArrayElement [simp]:
  "json_wf arr \<Longrightarrow> jtype arr = JSON_Array \<Longrightarrow> json_wf v \<Longrightarrow> json_wf (addArrayElement arr v)"
  by (auto simp: addArrayElement_def json_wf_iff [of arr])

lemma json_wf_new [simp]: "json_wf (new_JSONNode t)"
  by (simp add: new_JSONNode_def)

lemma jtype_add [simp]:
  "jtype (addObjectMember obj key v) = jtype obj" "jtype (addArrayElement obj v) = jtype obj"
  by (simp_all add: addObjectMember_def json_set_members_def addArrayElement_def)

lemma parse_json_wf:
  "parse_json_value p = Some (v, p') \<Longrightarrow> json_wf v"
  "parse_json_object q = Some (v, p') \<Longrightarrow> json_wf v"
  "json_members obj m = Some (v, p') \<Longrightarrow> json_wf obj \<Longrightarrow> jtype obj = JSON_Object \<Longrightarrow> json_wf v"
  "parse_json_array r = Some (v, p') \<Longrightarrow> json_wf v"
  "json_elements arr e = Some (v, p') \<Longrightarrow> json_wf arr \<Longrightarrow> jtype arr = JSON_Array \<Longrightarrow> json_wf v"
proof (induction p and q and obj m and r and arr e arbitrary: v p' and v p' and v p' and v p' and v p'
    rule: parse_json_value_parse_json_object_json_members_parse_json_array_json_elements.induct)
  case (1 p0)
  then show ?case
    by (auto simp: parse_json_value.simps [of p0] parse_json_number_def Let_def
        split: if_splits option.splits)
next
  case (2 p0)
  then show ?case
    by (auto simp: parse_json_object.simps [of p0] Let_def split: if_splits)
next
  case (3 obj p0)
  from 3(3) obtain key p1 val p3 where *:
      "parse_json_string (skip_json_whitespace p0) = Some (key, p1)"
      "parse_json_value (skip_json_whitespace (tl (skip_json_whitespace p1))) = Some (val, p3)"
      "json_members (addObjectMember obj key val) (tl (skip_json_whitespace p3)) = Some (v, p') \<and>
       deref (skip_json_whitespace p3) = CHR '','' \<or> v = addObjectMember obj key val"
      "p0 \<noteq> []" "deref (skip_json_whitespace p0) = DQUOTE" "deref (skip_json_whitespace p1) = CHR '':''"
    by (auto simp: json_members.simps [of obj p0] Let_def split: if_splits option.splits)
  from 3(1) * have "json_wf val" by auto
  then show ?case using * 3(2,4,5) by auto
next
  case (4 p0)
  then show ?case
    by (auto simp: parse_json_array.simps [of p0] Let_def split: if_splits)
next
  case (5 arr p0)
  from 5(3) obtain val p1 where *:
      "parse_json_value (skip_json_whitespace p0) = Some (val, p1)"
      "json_elements (addArrayElement arr val) (tl (skip_json_whitespace p1)) = Some (v, p') \<and>
       deref (skip_json_whitespace p1) = CHR '','' \<or> v = addArrayElement arr val"
      "p0 \<noteq> []"
    by (auto simp: json_elements.simps [of arr p0] Let_def split: if_splits option.splits)
  from 5(1) * have "json_wf val" by auto
  then show ?case using * 5(2,4,5) by auto
qed

lemma json_wf_update_child:
  "json_wf n \<Longrightarrow> (\<And>c. json_wf c \<Longrightarrow> json_wf (f c)) \<Longrightarrow> json_wf (json_update_child key f n)"
  by (cases n) (auto simp: json_update_child_def json_set_members_def dest!: kv_update_members)

lemma json_wf_getOrCreateChild: "json_wf n \<Longrightarrow> json_wf (json_getOrCreateChild n key)"
  by (cases n) (auto simp: json_node_defs Let_def NUL_notin_cstr_of split: option.splits)

lemma json_wf_set_leaf:
  assumes "json_wf n"
  shows "json_wf (json_set_leaf n seg v)"
proof -
  let ?n = "if jtype n \<noteq> JSON_Object then json_set_type JSON_Object (json_clear n) else n"
  have wf: "json_wf ?n" and ty: "jtype ?n = JSON_Object"
    using assms by (cases n; auto simp: json_set_type_def json_clear_def)+
  have leaf: "json_wf (json_leaf v (json_set_type JSON_String (json_clear c)))" for c
    by (simp add: json_leaf_def json_set_type_def json_clear_def)
  have leaf': "json_wf c \<Longrightarrow> json_wf (json_leaf v c)" for c
    by (cases c) (simp add: json_leaf_def)
  show ?thesis
    using wf ty by (auto simp: json_set_leaf_def Let_def leaf leaf' split: option.splits
        intro!: json_wf_update_child)
qed

lemma json_wf_set_loop: "json_wf n \<Longrightarrow> json_wf (json_set_loop n p v)"
proof (induction n p v rule: json_set_loop.induct)
  case (1 n p v)
  then show ?case
    by (auto simp: json_set_loop.simps [of n p v] Let_def
        intro!: json_wf_set_leaf json_wf_update_child json_wf_getOrCreateChild)
qed

definition json_config_wf :: "ConfigJSON \<Rightarrow> bool" where
  "json_config_wf c \<longleftrightarrow> (\<forall>r. json_root c = Some r \<longrightarrow> json_wf r) \<and> (json_valid c \<longrightarrow> json_root c \<noteq> None)"

lemma json_config_wf_new: "json_config_wf (new_ConfigJSON file)"
  by (auto simp: json_config_wf_def new_ConfigJSON_def parse_json_def Let_def
      split: option.splits dest: parse_json_wf(1))

lemma json_config_wf_set: "json_config_wf c \<Longrightarrow> json_config_wf (fst (json_set c name v))"
  by (auto simp: json_config_wf_def json_set_def Let_def json_wf_set_loop split: option.splits)

subsection \<open>Texts as files\<close>

lemma NUL_free_json_chars_text: "json_chars s t \<Longrightarrow> NUL \<notin> set t"
  by (induction rule: json_chars.induct) (auto dest: json_unescape_escapes)

lemma NUL_free_json_space: "json_space w \<Longrightarrow> NUL \<notin> set w"
  using bspec [of "set w" json_ws NUL] by (force simp: json_space_def json_ws_def)

lemma NUL_free_json_text:
  "json_text v t \<Longrightarrow> NUL \<notin> set t"
  "json_elems vs t \<Longrightarrow> NUL \<notin> set t"
  "json_membs kvs t \<Longrightarrow> NUL \<notin> set t"
  by (induction rule: json_text_json_elems_json_membs.inducts)
     (auto simp: NUL_free_json_chars_text NUL_free_json_space NUL_free_decimal_int)

section \<open>Properties\<close>

text \<open>
  C1. The texts of \<open>json_text\<close> are those of the JSON grammar, with any whitespace, whose numbers are integers
  of less than 10^20 in canonical decimal form (no fraction, no exponent) and whose strings escape by the eight escapes with one
  character (no \<open>u\<close> escape with hexadecimal digits). Each of them, with whitespace around it, is accepted
  by the constructor, which holds exactly the tree of the value: on this subset the recursive descent
  parser is complete, and the root it keeps is the value that was written. With any
  character but whitespace, a digit or the terminating zero after the value the text is rejected; in particular \<open>1.5\<close> and \<open>1e3\<close>, which are JSON, are.
\<close>

theorem json_parse_complete:
  assumes "json_text v t" and "json_space w1" and "json_space w2"
  shows "new_ConfigJSON (Some (w1 @ t @ w2)) = \<lparr>json_root = Some (json_node v), json_valid = True\<rparr> \<and>
    (\<not> json_ws c \<and> \<not> dec_digit c \<and> c \<noteq> NUL \<longrightarrow> \<not> json_Probe (new_ConfigJSON (Some (w1 @ t @ w2 @ c # r))))"
proof (intro conjI impI)
  have nul: "NUL \<notin> set w1" "NUL \<notin> set t" "NUL \<notin> set w2"
    using assms NUL_free_json_text(1) NUL_free_json_space by blast+
  have first: "skip_json_whitespace (w1 @ t @ p) = t @ p" "t \<noteq> []" for p
    using assms json_text_first by auto
  have "\<not> dec_digit (deref w2)"
    using json_space_no_digit [OF assms(3), of "CHR '',''" "[]"] by (cases w2) (auto simp: dec_digit_def char_val_def)
  then have "parse_json_value (t @ w2) = Some (json_node v, w2)"
    by (rule json_text_parse(1) [OF assms(1)])
  moreover have "skip_json_whitespace w2 = []"
    using skip_space [OF assms(3), of "[]"] by simp
  moreover have "cstr_of (w1 @ t @ w2) = w1 @ t @ w2"
    using nul by (intro cstr_of_id) auto
  ultimately show "new_ConfigJSON (Some (w1 @ t @ w2)) = \<lparr>json_root = Some (json_node v), json_valid = True\<rparr>"
    using first by (simp add: new_ConfigJSON_def parse_json_def Let_def)
  assume c: "\<not> json_ws c \<and> \<not> dec_digit c \<and> c \<noteq> NUL"
  let ?r = "cstr_of r"
  have read: "cstr_of (w1 @ t @ w2 @ c # r) = w1 @ t @ w2 @ c # ?r"
    using nul c by (auto simp: cstr_of_def takeWhile_append)
  then have read2: "cstr_of (w1 @ t @ w2 @ c # ?r) = w1 @ t @ w2 @ c # ?r" by (metis cstr_of_idem)
  have "\<not> dec_digit (deref (w2 @ c # ?r))"
    using json_space_no_digit [OF assms(3)] c by simp
  then have "parse_json_value (t @ w2 @ c # ?r) = Some (json_node v, w2 @ c # ?r)"
    by (rule json_text_parse(1) [OF assms(1)])
  moreover have "skip_json_whitespace (w2 @ c # ?r) = c # ?r"
    using skip_space [OF assms(3)] c by simp
  ultimately show "\<not> json_Probe (new_ConfigJSON (Some (w1 @ t @ w2 @ c # r)))"
    using first read read2 by (simp add: new_ConfigJSON_def parse_json_def json_Probe_def Let_def)
qed

theorem json_parse_complete_witness:
  "new_ConfigJSON (Some (''  {'' @ [DQUOTE] @ ''a'' @ [DQUOTE] @ '' : [12, true]} '')) =
     \<lparr>json_root = Some (json_node (JV_Obj [(''a'', JV_Arr [JV_Num 12, JV_Bool True])])), json_valid = True\<rparr> \<and>
   \<not> json_Probe (new_ConfigJSON (Some ''1.5'')) \<and> \<not> json_Probe (new_ConfigJSON (Some ''1e3''))"
proof -
  have one: "json_text (JV_Num 1) ''1''"
  proof -
    have "decimal_int 1 = ''1''" by code_simp
    then show ?thesis using text_num [of 1] by simp
  qed
  have digits: "decimal_int 12 = ''12''"
    by (code_simp)
  have num: "json_text (JV_Num 12) ''12''"
    using text_num [of 12] by (simp add: digits)
  have "json_elems [JV_Num 12, JV_Bool True] (''''  @ ''12'' @ '''' @ CHR '','' # ('' '' @ ''true'' @ '''' @ '']''))"
    by (intro elems_more elems_last num text_true) (simp_all add: json_space_def json_ws_def)
  then have arr: "json_text (JV_Arr [JV_Num 12, JV_Bool True]) ''[12, true]''"
    using text_arr by fastforce
  have "json_chars ''a'' ''a''"
    by (intro chars_plain chars_Nil) simp
  then have "json_membs [(''a'', JV_Arr [JV_Num 12, JV_Bool True])]
     ('''' @ DQUOTE # ''a'' @ DQUOTE # '' '' @ CHR '':'' # '' '' @ ''[12, true]'' @ '''' @ ''}'')"
    by (intro membs_last arr) (simp_all add: json_space_def json_ws_def)
  from text_obj [OF this]
  show ?thesis
    using json_parse_complete [of "JV_Obj [(''a'', JV_Arr [JV_Num 12, JV_Bool True])]"
        "CHR ''{'' # ('''' @ DQUOTE # ''a'' @ DQUOTE # '' '' @ CHR '':'' # '' '' @ ''[12, true]'' @ '''' @ ''}'')"
        "''  ''" "'' ''"]
      json_parse_complete [OF one, of "[]" "[]" "CHR ''.''" "''5''"] json_parse_complete [OF one, of "[]" "[]" "CHR ''e''" "''3''"]
    by (simp add: json_space_def json_ws_def dec_digit_def char_val_def)
qed

text \<open>
  Every configuration the program can reach, from any file and by any calls of \<open>set\<close>
  (null arguments included), is a well-formed tree: only objects have members, only arrays
  have elements, at every depth, and a valid configuration has a root.
\<close>

lemma json_wf_invariant:
  "json_config_wf (set_all json_set (new_ConfigJSON file) kvs)"
  by (rule set_all_invariant) (rule json_config_wf_new, rule json_config_wf_set)

text \<open>
  A rejected file reads as an empty configuration: \<open>get\<close> returns the empty string and
  \<open>getNumber\<close> zero for every name.
\<close>

lemma json_invalid_reads_empty:
  assumes "\<not> json_Probe (new_ConfigJSON file)"
  shows "json_get (new_ConfigJSON file) name = [] \<and> json_getNumber (new_ConfigJSON file) name = 0"
proof -
  have tree: "json_tree_of (new_ConfigJSON file) = new_JSONNode JSON_Object"
    using assms by (auto simp: new_ConfigJSON_def parse_json_def json_Probe_def json_tree_of_def Let_def
        split: option.splits if_splits)
  show ?thesis
  proof (cases name)
    case None
    then show ?thesis by (simp add: json_get_def json_getNumber_def)
  next
    case (Some n)
    show ?thesis
      unfolding Some json_get_lookup json_getNumber_lookup tree lookup_new_object
      by (simp add: json_value_of_def json_number_of_def)
  qed
qed

lemma json_invalid_reads_empty_example:
  "\<not> json_Probe (new_ConfigJSON (Some ''{1}'')) \<and> json_get (new_ConfigJSON (Some ''{1}'')) (Some ''a'') = []"
proof -
  have "\<not> json_Probe (new_ConfigJSON (Some ''{1}''))"
    by (simp add: json_Probe_def new_ConfigJSON_def parse_json_def cstr_of_def parse_json_value.simps
        parse_json_object.simps json_members.simps skip_json_whitespace_def json_ws_def)
  with json_invalid_reads_empty [OF this, of "Some ''a''"] show ?thesis by simp
qed

text \<open>
  The last assignment wins: after any sequence of \<open>set\<close> calls, \<open>get\<close> returns the value
  last written to a name and \<open>getNumber\<close> its conversion, whatever was written before, as long
  as the names written after it neither lie above nor below it in the tree.
\<close>

lemma json_last_write_wins:
  assumes "name_segments json_sep name \<noteq> []"
    and "\<forall>(n, v) \<in> set later. unrelated (name_segments json_sep n) (name_segments json_sep name)"
  shows "let c' = set_all (\<lambda>c n v. json_set c (Some n) (Some v)) c (earlier @ (name, val) # later) in
    json_get c' (Some name) = cstr_of val \<and> json_getNumber c' (Some name) = atoins val"
  using json_config.read_set_all_last [OF assms] by (simp add: Let_def)

lemma json_last_write_wins_example:
  "let c' = set_all (\<lambda>c n v. json_set c (Some n) (Some v)) (new_ConfigJSON None)
      ([(''/net'', ''x'')] @ (''net/mtu'', ''1500'') # [(''net/dev'', ''eth0'')]) in
    json_get c' (Some ''net/mtu'') = cstr_of ''1500'' \<and> json_getNumber c' (Some ''net/mtu'') = atoins ''1500''"
  by (rule json_last_write_wins)
     (simp_all add: name_segments_def segments.simps segment_def after_segment_def seg_limit_def
        json_sep_def cstr_of_def)

end
