(* ===== verification/ConfigINI.thy ===== *)
theory ConfigINI
  imports ConfigText
begin

text \<open>
  The INI configuration format, \<open>src/lib/cpp/Format/ConfigText/INI.cpp\<close>: the node type and its
  methods, the line parser and the operations of the \<open>ConfigText\<close> interface. The pointer
  \<open>current_section\<close> of the parser is the path of keys from the root to it: a node keeps one
  pair per key, and the parser only replaces values inside the current section, so the path
  keeps denoting the node the pointer points to.
\<close>

section \<open>Nodes\<close>

datatype ININode = ININode (is_section: bool) (ini_str_val: string) (ini_num_val: stdsint)
  (ini_head: "(string \<times> ININode) list")

definition new_ININode :: "bool \<Rightarrow> ININode" where
  "new_ININode sect = ININode sect [] 0 []"

definition ini_clear :: "ININode \<Rightarrow> ININode" where
  "ini_clear n = ININode (is_section n) (ini_str_val n) (ini_num_val n) []"

definition ini_set_section :: "bool \<Rightarrow> ININode \<Rightarrow> ININode" where
  "ini_set_section b n = ININode b (ini_str_val n) (ini_num_val n) (ini_head n)"

definition ini_set_head :: "(string \<times> ININode) list \<Rightarrow> ININode \<Rightarrow> ININode" where
  "ini_set_head kvs n = ININode (is_section n) (ini_str_val n) (ini_num_val n) kvs"

definition ini_findChild :: "ININode \<Rightarrow> string \<Rightarrow> ININode option" where
  "ini_findChild n key = (if \<not> is_section n then None else kv_find key (ini_head n))"

text \<open>A write through the pointer to the child with the given key.\<close>

definition ini_update_child :: "string \<Rightarrow> (ININode \<Rightarrow> ININode) \<Rightarrow> ININode \<Rightarrow> ININode" where
  "ini_update_child key f n = ini_set_head (kv_update key f (ini_head n)) n"

text \<open>
  \<open>getOrCreateSection\<close> returns a pointer; the model returns the node after the call, and the
  pointer is the child with that key.
\<close>

definition ini_getOrCreateSection :: "ININode \<Rightarrow> string \<Rightarrow> ININode" where
  "ini_getOrCreateSection n key =
     (let n = (if \<not> is_section n then ini_set_section True (ini_clear n) else n)
      in case ini_findChild n key of
           Some existing \<Rightarrow>
             (if \<not> is_section existing
              then ini_update_child key (\<lambda>e. ini_set_section True (ini_clear e)) n
              else n)
         | None \<Rightarrow> ini_set_head (ini_head n @ [(cstr_of key, new_ININode True)]) n)"

definition ini_setValue :: "ININode \<Rightarrow> string \<Rightarrow> ININode \<Rightarrow> ININode" where
  "ini_setValue n key child =
     (case kv_find key (ini_head n) of
        Some _ \<Rightarrow> ini_set_head (kv_update key (\<lambda>_. child) (ini_head n)) n
      | None \<Rightarrow> ini_set_head (ini_head n @ [(cstr_of key, child)]) n)"

section \<open>The parser\<close>

definition ini_blank :: "char \<Rightarrow> bool" where
  "ini_blank c \<longleftrightarrow> c = CHR '' '' \<or> c = TAB"

definition ini_eol :: "char \<Rightarrow> bool" where
  "ini_eol c \<longleftrightarrow> c = CR \<or> c = LF"

definition skip_ini_inline_spaces :: "string \<Rightarrow> string" where
  "skip_ini_inline_spaces p = dropWhile ini_blank p"

text \<open>The loop \<open>while (len > 0 && ...) buf[--len] = 0\<close> that cuts trailing blanks.\<close>

definition ini_trim :: "string \<Rightarrow> string" where
  "ini_trim buf = rev (dropWhile ini_blank (rev buf))"

definition ini_sep :: "char \<Rightarrow> bool" where
  "ini_sep c \<longleftrightarrow> c = CHR ''/'' \<or> c = CHR ''.''"

function navigate_ini_loop :: "ININode \<Rightarrow> string \<Rightarrow> ININode" where
  "navigate_ini_loop cur p =
     (if p = [] then cur
      else ini_update_child (segment ini_sep p)
             (\<lambda>child. navigate_ini_loop child (after_segment ini_sep p))
             (ini_getOrCreateSection cur (segment ini_sep p)))"
  by pat_completeness auto
termination
  by (relation "measure (\<lambda>(n, p). length p)") (auto simp: after_segment_less)

text \<open>The tree after the navigation, and the path of the section it returns.\<close>

definition navigate_ini_section :: "ININode \<Rightarrow> string \<Rightarrow> ININode \<times> string list" where
  "navigate_ini_section root sec_name =
     (let p = dropWhile ini_sep (cstr_of sec_name)
      in if p = [] then (root, []) else (navigate_ini_loop root p, segments ini_sep p))"

text \<open>
  A section header, after the \<open>[\<close>: the name in \<open>sec_buf\<close> and the rest of the text, or \<open>None\<close>
  when the \<open>]\<close> is missing.
\<close>

definition ini_header :: "string \<Rightarrow> (string \<times> string) option" where
  "ini_header p0 =
     (let p1 = skip_ini_inline_spaces p0;
          sec_buf = take 255 (takeWhile (\<lambda>c. \<not> (c = CHR '']'' \<or> ini_eol c)) p1);
          p2 = dropWhile (\<lambda>c. \<not> (c = CHR '']'' \<or> ini_eol c)) p1
      in if deref p2 \<noteq> CHR '']'' then None else Some (ini_trim sec_buf, tl p2))"

text \<open>The value after the \<open>=\<close>, with the rest of the text.\<close>

definition ini_value :: "string \<Rightarrow> string \<times> string" where
  "ini_value p0 =
     (let p = skip_ini_inline_spaces p0
      in if deref p = DQUOTE \<or> deref p = SQUOTE
         then (let quote_char = deref p; p1 = tl p;
                   val_buf = take 1023 (takeWhile (\<lambda>c. \<not> (c = quote_char \<or> ini_eol c)) p1);
                   p2 = dropWhile (\<lambda>c. \<not> (c = quote_char \<or> ini_eol c)) p1
               in (val_buf, if deref p2 = quote_char then tl p2 else p2))
         else (let val_buf = take 1023 (takeWhile (\<lambda>c. \<not> (ini_eol c \<or> c = CHR '';'' \<or> c = CHR ''#'')) p);
                   p1 = dropWhile (\<lambda>c. \<not> (ini_eol c \<or> c = CHR '';'' \<or> c = CHR ''#'')) p
               in (ini_trim val_buf, p1)))"

text \<open>A pair: key, value and the text after the line, or \<open>None\<close> when the \<open>=\<close> is missing.\<close>

definition ini_pair :: "string \<Rightarrow> (string \<times> string \<times> string) option" where
  "ini_pair p0 =
     (let key_buf = take 255 (takeWhile (\<lambda>c. \<not> (c = CHR ''='' \<or> c = CHR '':'' \<or> ini_eol c)) p0);
          p1 = dropWhile (\<lambda>c. \<not> (c = CHR ''='' \<or> c = CHR '':'' \<or> ini_eol c)) p0
      in if deref p1 \<noteq> CHR ''='' \<and> deref p1 \<noteq> CHR '':'' then None
         else case ini_value (tl p1) of
           (val, p2) \<Rightarrow> (let p3 = dropWhile (\<lambda>c. c \<noteq> LF) p2
                         in Some (ini_trim key_buf, val, if deref p3 = LF then tl p3 else p3)))"

definition ini_value_node :: "string \<Rightarrow> ININode" where
  "ini_value_node val = ININode False (cstr_of val) (atoins val) []"

definition ini_ws :: "char \<Rightarrow> bool" where
  "ini_ws c \<longleftrightarrow> ini_blank c \<or> ini_eol c"

lemma ini_header_length: "ini_header p = Some (name, p') \<Longrightarrow> length p' \<le> length p"
proof -
  let ?P = "\<lambda>c. \<not> (c = CHR '']'' \<or> ini_eol c)"
  assume "ini_header p = Some (name, p')"
  then have "p' = tl (dropWhile ?P (skip_ini_inline_spaces p))"
    by (auto simp: ini_header_def Let_def split: if_splits)
  then show ?thesis
    using length_dropWhile_le [of ?P "skip_ini_inline_spaces p"] length_dropWhile_le [of ini_blank p]
    by (simp add: skip_ini_inline_spaces_def)
qed

lemma ini_value_length: "length (snd (ini_value p)) \<le> length p"
proof -
  define q where "q = skip_ini_inline_spaces p"
  have q: "length q \<le> length p" by (simp add: q_def skip_ini_inline_spaces_def length_dropWhile_le)
  have d: "length (dropWhile P xs) \<le> n" "length (dropWhile P (tl xs)) \<le> n" if "length xs \<le> n" for P xs n
    using that length_dropWhile_le [of P xs] length_dropWhile_le [of P "tl xs"] by auto
  show ?thesis
    using d [OF q] unfolding ini_value_def q_def [symmetric] Let_def
    by (auto intro: le_trans [OF diff_le_self])
qed

lemma ini_pair_length: "ini_pair p = Some (k, v, p') \<Longrightarrow> length p' < length p"
proof -
  let ?P = "\<lambda>c. \<not> (c = CHR ''='' \<or> c = CHR '':'' \<or> ini_eol c)"
  let ?q = "dropWhile ?P p"
  assume pair: "ini_pair p = Some (k, v, p')"
  then have ne: "?q \<noteq> []"
    by (auto simp: ini_pair_def Let_def split: if_splits)
  have "length p' \<le> length (snd (ini_value (tl ?q)))"
    using pair length_dropWhile_le [of "\<lambda>c. c \<noteq> LF" "snd (ini_value (tl ?q))"]
    by (auto simp: ini_pair_def Let_def split: if_splits prod.splits)
  also have "\<dots> \<le> length (tl ?q)" by (rule ini_value_length)
  also have "\<dots> < length ?q" using ne by (cases ?q) simp_all
  also have "\<dots> \<le> length p" by (rule length_dropWhile_le)
  finally show ?thesis .
qed

text \<open>The \<open>while (*p)\<close> loop of \<open>parse_ini\<close>; \<open>None\<close> is \<open>error_occurred\<close>.\<close>

function ini_lines :: "ININode \<Rightarrow> string list \<Rightarrow> string \<Rightarrow> ININode option" where
  "ini_lines root current_section p0 =
     (let p = dropWhile ini_ws p0 in
      if p = [] then Some root
      else if deref p = CHR '';'' \<or> deref p = CHR ''#'' then
        ini_lines root current_section (dropWhile (\<lambda>c. c \<noteq> LF) p)
      else if deref p = CHR ''['' then
        (case ini_header (tl p) of
           None \<Rightarrow> None
         | Some (sec_buf, p') \<Rightarrow>
             (case navigate_ini_section root sec_buf of
                (root', sect) \<Rightarrow> ini_lines root' sect p'))
      else
        (case ini_pair p of
           None \<Rightarrow> None
         | Some (key_buf, val_buf, p') \<Rightarrow>
             ini_lines (tree_at ini_update_child current_section
                (\<lambda>s. ini_setValue s key_buf (ini_value_node val_buf)) root) current_section p'))"
  by pat_completeness auto
termination
proof (relation "measure (\<lambda>(n, s, p). length p)", goal_cases)
  case (2 root sec p0 p)
  have "length (dropWhile (\<lambda>c. c \<noteq> LF) p) < length p"
    using 2 by (intro length_dropWhile_less) (auto simp: deref_def split: list.splits)
  also have "length p \<le> length p0" by (simp add: 2 length_dropWhile_le)
  finally show ?case by simp
next
  case (3 root sec p0 p _ name p')
  then have "length p' \<le> length (tl p)" by (auto dest: ini_header_length)
  also have "\<dots> < length p" using 3(2) by (cases p) simp_all
  also have "length p \<le> length p0" by (simp add: 3(1) length_dropWhile_le)
  finally show ?case by simp
next
  case (4 root sec p0 p _ key _ val p')
  then have "length p' < length p" by (auto dest: ini_pair_length)
  also have "length p \<le> length p0" by (simp add: 4(1) length_dropWhile_le)
  finally show ?case by simp
qed simp

declare navigate_ini_loop.simps [simp del] ini_lines.simps [simp del]

section \<open>The configuration\<close>

record ConfigINI =
  ini_root :: "ININode option"
  ini_valid :: bool

definition parse_ini :: "ConfigINI \<Rightarrow> rostr \<Rightarrow> ConfigINI" where
  "parse_ini c text =
     (case text of
        None \<Rightarrow> c\<lparr>ini_valid := False\<rparr>
      | Some t \<Rightarrow>
          (case ini_lines (new_ININode True) [] (cstr_of t) of
             None \<Rightarrow> c\<lparr>ini_root := Some (new_ININode True), ini_valid := False\<rparr>
           | Some root \<Rightarrow> c\<lparr>ini_root := Some root, ini_valid := True\<rparr>))"

text \<open>The constructor; \<open>file\<close> is \<open>None\<close> for a null handle, else the bytes \<open>fread\<close> delivered.\<close>

definition new_ConfigINI :: "char list option \<Rightarrow> ConfigINI" where
  "new_ConfigINI file =
     parse_ini \<lparr>ini_root = None, ini_valid = False\<rparr>
       (Some (case file of None \<Rightarrow> [] | Some raw \<Rightarrow> cstr_of raw))"

definition ini_Probe :: "ConfigINI \<Rightarrow> bool" where
  "ini_Probe c = ini_valid c"

function traverse_ini_loop :: "ININode \<Rightarrow> string \<Rightarrow> ININode option" where
  "traverse_ini_loop cur p =
     (if p = [] then Some cur
      else let seg = segment ini_sep p; p' = after_segment ini_sep p in
        if is_section cur
        then (case ini_findChild cur seg of
                None \<Rightarrow> None
              | Some child \<Rightarrow> traverse_ini_loop child p')
        else None)"
  by pat_completeness auto
termination
  by (relation "measure (\<lambda>(n, p). length p)") (auto simp: after_segment_less)

definition traverse_ini_path :: "ININode option \<Rightarrow> rostr \<Rightarrow> ININode option" where
  "traverse_ini_path root path =
     (case root of None \<Rightarrow> None | Some r \<Rightarrow>
       (case path of None \<Rightarrow> None | Some s \<Rightarrow>
          (let p = dropWhile ini_sep (cstr_of s) in
           if p = [] then Some r else traverse_ini_loop r p)))"

definition ini_get :: "ConfigINI \<Rightarrow> rostr \<Rightarrow> string" where
  "ini_get c name =
     (if ini_root c = None \<or> name = None then []
      else case traverse_ini_path (ini_root c) name of None \<Rightarrow> [] | Some node \<Rightarrow> ini_str_val node)"

definition ini_getNumber :: "ConfigINI \<Rightarrow> rostr \<Rightarrow> stdsint" where
  "ini_getNumber c name =
     (if ini_root c = None \<or> name = None then 0
      else case traverse_ini_path (ini_root c) name of None \<Rightarrow> 0 | Some node \<Rightarrow> ini_num_val node)"

definition ini_leaf :: "string \<Rightarrow> ININode \<Rightarrow> ININode" where
  "ini_leaf val leaf = ININode (is_section leaf) (cstr_of val) (atoins val) (ini_head leaf)"

definition ini_set_leaf :: "ININode \<Rightarrow> string \<Rightarrow> string \<Rightarrow> ININode" where
  "ini_set_leaf cur seg val =
     (let cur = (if \<not> is_section cur then ini_set_section True (ini_clear cur) else cur)
      in case ini_findChild cur seg of
           None \<Rightarrow> ini_update_child seg (ini_leaf val) (ini_setValue cur seg (new_ININode False))
         | Some leaf \<Rightarrow>
             ini_update_child seg (\<lambda>leaf. ini_leaf val (ini_set_section False (ini_clear leaf))) cur)"

function ini_set_loop :: "ININode \<Rightarrow> string \<Rightarrow> string \<Rightarrow> ININode" where
  "ini_set_loop cur p val =
     (if p = [] then cur
      else let seg = segment ini_sep p; p' = after_segment ini_sep p in
        if p' = [] then ini_set_leaf cur seg val
        else ini_update_child seg (\<lambda>child. ini_set_loop child p' val) (ini_getOrCreateSection cur seg))"
  by pat_completeness auto
termination
  by (relation "measure (\<lambda>(n, p, v). length p)") (auto simp: after_segment_less)

definition ini_set :: "ConfigINI \<Rightarrow> rostr \<Rightarrow> rostr \<Rightarrow> ConfigINI \<times> bool" where
  "ini_set c name val =
     (case name of None \<Rightarrow> (c, False) | Some nm \<Rightarrow>
       (case val of None \<Rightarrow> (c, False) | Some v \<Rightarrow>
          (let root = (case ini_root c of None \<Rightarrow> new_ININode True | Some r \<Rightarrow> r);
               c = c\<lparr>ini_root := Some root\<rparr>;
               p = dropWhile ini_sep (cstr_of nm)
           in if p = [] then (c, False)
              else (c\<lparr>ini_root := Some (ini_set_loop root p v)\<rparr>, True))))"

declare traverse_ini_loop.simps [simp del] ini_set_loop.simps [simp del]

section \<open>The tree operations and the interface\<close>

lemmas ini_node_defs = ini_findChild_def ini_set_head_def ini_update_child_def
  ini_getOrCreateSection_def ini_setValue_def ini_set_section_def ini_clear_def new_ININode_def
  ini_set_leaf_def ini_leaf_def

interpretation ini_tree: config_tree ini_findChild ini_getOrCreateSection ini_update_child
  ini_set_leaf "\<lambda>l v. ini_str_val l = cstr_of v \<and> ini_num_val l = atoins v"
proof (unfold_locales, goal_cases)
  case (1 k f n)
  show ?case by (auto simp: ini_node_defs Let_def tree_simps)
next
  case (2 k k' f n)
  then show ?case by (auto simp: ini_node_defs Let_def tree_simps)
next
  case (3 n k)
  show ?case
    by (auto simp: ini_node_defs Let_def tree_simps fun_eq_iff split: option.splits)
next
  case (4 k k' n)
  then show ?case
    by (auto simp: ini_node_defs Let_def tree_simps split: option.splits)
next
  case (5 n k v)
  show ?case
    by (auto simp: ini_node_defs Let_def tree_simps split: option.splits)
next
  case (6 k k' n v)
  then show ?case
    by (auto simp: ini_node_defs Let_def tree_simps split: option.splits)
qed

interpretation ini_sections: section_tree ini_findChild ini_getOrCreateSection ini_update_child
  ini_setValue is_section
proof (unfold_locales, goal_cases)
  case (2 n k f g)
  then have "kv_update k f (ini_head n) = kv_update k g (ini_head n)"
    by (intro kv_update_cong) (simp add: ini_findChild_def)
  then show ?case by (simp add: ini_update_child_def)
next
  case (7 n k)
  show ?case by (auto simp: ini_node_defs Let_def tree_simps split: option.splits)
next
  case (8 n k c)
  then show ?case by (auto simp: ini_getOrCreateSection_def ini_findChild_def Let_def)
qed (auto simp: ini_node_defs Let_def tree_simps kv_update_update kv_update_id split: option.splits)

lemma navigate_ini_loop_ensure:
  "navigate_ini_loop cur p =
     tree_ensure ini_getOrCreateSection ini_update_child cur (segments ini_sep p)"
proof (induction cur p rule: navigate_ini_loop.induct)
  case (1 cur p)
  then show ?case
    by (cases "p = []") (simp_all add: navigate_ini_loop.simps [of cur] segments_step)
qed

lemma navigate_ini_section_ensure:
  "navigate_ini_section root name =
     (tree_ensure ini_getOrCreateSection ini_update_child root (name_segments ini_sep name),
      name_segments ini_sep name)"
  by (simp add: navigate_ini_section_def navigate_ini_loop_ensure name_segments_def Let_def)

lemma traverse_ini_loop_lookup:
  "traverse_ini_loop cur p = tree_lookup ini_findChild cur (segments ini_sep p)"
proof (induction cur p rule: traverse_ini_loop.induct)
  case (1 cur p)
  then show ?case
    by (cases "p = []")
       (auto simp: traverse_ini_loop.simps [of cur] segments_step ini_findChild_def Let_def
          split: option.splits)
qed

lemma ini_set_loop_store:
  "ini_set_loop cur p v = tree_store ini_getOrCreateSection ini_update_child ini_set_leaf
     cur (segments ini_sep p) v"
proof (induction cur p v rule: ini_set_loop.induct)
  case (1 cur p v)
  show ?case
  proof (cases "p = [] \<or> after_segment ini_sep p = []")
    case True
    then show ?thesis by (auto simp: ini_set_loop.simps [of cur p v] segments_step Let_def)
  next
    case False
    then have "segments ini_sep (after_segment ini_sep p) \<noteq> []" by simp
    then show ?thesis using False 1
      by (auto simp: ini_set_loop.simps [of cur p v] segments_step [of p] Let_def tree_store_Cons)
  qed
qed

definition ini_tree_of :: "ConfigINI \<Rightarrow> ININode" where
  "ini_tree_of c = (case ini_root c of None \<Rightarrow> new_ININode True | Some r \<Rightarrow> r)"

lemma new_ININode_vals [simp]:
  "is_section (new_ININode b) = b" "ini_str_val (new_ININode b) = []" "ini_num_val (new_ININode b) = 0"
  by (simp_all add: new_ININode_def)

lemma ini_lookup_new:
  "tree_lookup ini_findChild (new_ININode True) ss = (if ss = [] then Some (new_ININode True) else None)"
  by (cases ss) (auto simp: ini_findChild_def new_ININode_def)

lemma traverse_ini_path_lookup:
  "traverse_ini_path (Some r) (Some s) = tree_lookup ini_findChild r (name_segments ini_sep s)"
  by (cases "dropWhile ini_sep (cstr_of s)")
     (simp_all add: traverse_ini_path_def traverse_ini_loop_lookup name_segments_def Let_def)

lemma ini_get_lookup:
  "ini_get c (Some name) =
     (case tree_lookup ini_findChild (ini_tree_of c) (name_segments ini_sep name) of
        None \<Rightarrow> [] | Some n \<Rightarrow> ini_str_val n)"
  by (cases "ini_root c")
     (auto simp: ini_get_def ini_tree_of_def traverse_ini_path_lookup ini_lookup_new)

lemma ini_getNumber_lookup:
  "ini_getNumber c (Some name) =
     (case tree_lookup ini_findChild (ini_tree_of c) (name_segments ini_sep name) of
        None \<Rightarrow> 0 | Some n \<Rightarrow> ini_num_val n)"
  by (cases "ini_root c")
     (auto simp: ini_getNumber_def ini_tree_of_def traverse_ini_path_lookup ini_lookup_new)

lemma ini_set_store:
  "ini_set c (Some name) (Some v) =
     (c\<lparr>ini_root := Some (tree_store ini_getOrCreateSection ini_update_child ini_set_leaf
          (ini_tree_of c) (name_segments ini_sep name) v)\<rparr>,
      name_segments ini_sep name \<noteq> [])"
  by (cases "dropWhile ini_sep (cstr_of name)")
     (simp_all add: ini_set_def ini_set_loop_store ini_tree_of_def name_segments_def Let_def)

lemma ini_tree_of_set [simp]: "ini_tree_of (c\<lparr>ini_root := Some r\<rparr>) = r"
  by (simp add: ini_tree_of_def)

interpretation ini_config: config_text "\<lambda>_. name_segments ini_sep"
  "\<lambda>c name v. ini_set c (Some name) (Some v)" "\<lambda>c name. ini_get c (Some name)"
  "\<lambda>c name. ini_getNumber c (Some name)"
proof (unfold_locales, goal_cases)
  case (3 c name q v)
  then show ?case
    using ini_tree.lookup_store_same [of "name_segments ini_sep name" "ini_tree_of c" v]
    by (auto simp: ini_set_store ini_get_lookup)
next
  case (4 c name q v)
  then show ?case
    using ini_tree.lookup_store_same [of "name_segments ini_sep name" "ini_tree_of c" v]
    by (auto simp: ini_set_store ini_getNumber_lookup)
next
  case (5 c name q v)
  then show ?case
    by (simp add: ini_set_store ini_get_lookup ini_tree.lookup_store_other NUL_free_names)
next
  case (6 c name q v)
  then show ?case
    by (simp add: ini_set_store ini_getNumber_lookup ini_tree.lookup_store_other NUL_free_names)
qed (simp_all add: ini_set_store)

end
