(* ===== verification/INIText.thy ===== *)
theory INIText
  imports ConfigINI
begin

text \<open>
  The texts of INI files as an inductive grammar (free blanks, blank lines, both comment
  characters, both assignment characters, quoted and plain values), and the proof that the
  parser of \<open>src/lib/cpp/Format/ConfigText/INI.cpp\<close> reads such a file as the sequence of
  assignments it writes; the well-formedness invariant of the trees; the properties of the
  INI component.
\<close>

section \<open>The grammar\<close>

definition blanks :: "string \<Rightarrow> bool" where
  "blanks w \<longleftrightarrow> (\<forall>c \<in> set w. ini_blank c)"

text \<open>A text that survives trimming: it neither starts nor ends with a blank.\<close>

definition trimmed :: "string \<Rightarrow> bool" where
  "trimmed s \<longleftrightarrow> (s = [] \<or> \<not> ini_blank (hd s) \<and> \<not> ini_blank (last s))"

definition ini_key :: "string \<Rightarrow> bool" where
  "ini_key key \<longleftrightarrow> key_segment ini_sep key \<and> trimmed key \<and> hd key \<notin> {CHR '';'', CHR ''#'', CHR ''[''} \<and>
     (\<forall>c \<in> set key. c \<notin> {CHR ''='', CHR '':'', CR, LF})"

inductive ini_val_text :: "string \<Rightarrow> string \<Rightarrow> bool" where
  val_plain: "\<lbrakk>blanks w; trimmed v; blanks w'; length (v @ w') \<le> 1023;
     \<forall>c \<in> set v. c \<notin> {CR, LF, CHR '';'', CHR ''#'', NUL}; v = [] \<or> hd v \<notin> {DQUOTE, SQUOTE};
     LF \<notin> set r; NUL \<notin> set r; r = [] \<or> hd r \<in> {CR, CHR '';'', CHR ''#''}\<rbrakk> \<Longrightarrow>
   ini_val_text v (w @ v @ w' @ r)"
| val_quoted: "\<lbrakk>blanks w; q \<in> {DQUOTE, SQUOTE}; \<forall>c \<in> set v. c \<notin> {q, CR, LF, NUL}; length v \<le> 1023;
     LF \<notin> set r; NUL \<notin> set r\<rbrakk> \<Longrightarrow>
   ini_val_text v (w @ q # v @ q # r)"

definition ini_name :: "string \<Rightarrow> string \<Rightarrow> string" where
  "ini_name sect key = sect @ CHR ''/'' # key"

text \<open>
  \<open>ini_text sect t items\<close>: in section \<open>sect\<close>, the text \<open>t\<close> consists of \<open>items\<close>, in this order: headers with
  the name of the section, and pairs of full name (section and key) and value. Keys hold no separator.
\<close>

datatype ini_item = Ini_Section string | is_pair: Ini_Pair string string

inductive ini_text :: "string \<Rightarrow> string \<Rightarrow> ini_item list \<Rightarrow> bool" where
  ini_end: "ini_text sect [] []"
| ini_space: "ini_ws c \<Longrightarrow> ini_text sect t items \<Longrightarrow> ini_text sect (c # t) items"
| ini_comment: "\<lbrakk>c \<in> {CHR '';'', CHR ''#''}; LF \<notin> set cm; NUL \<notin> set cm; ini_text sect t items\<rbrakk> \<Longrightarrow>
     ini_text sect (c # cm @ LF # t) items"
| ini_head: "\<lbrakk>blanks w; trimmed name; blanks w'; length (name @ w') \<le> 255;
     \<forall>c \<in> set name. c \<notin> {CHR '']'', CR, LF, NUL}; ini_text name t items\<rbrakk> \<Longrightarrow>
     ini_text sect (CHR ''['' # w @ name @ w' @ CHR '']'' # t) (Ini_Section name # items)"
| ini_assign: "\<lbrakk>ini_key key; blanks w; length (key @ w) \<le> 255; eq \<in> {CHR ''='', CHR '':''};
     ini_val_text v vt; ini_text sect t items\<rbrakk> \<Longrightarrow>
     ini_text sect (key @ w @ eq # vt @ LF # t) (Ini_Pair (ini_name sect key) v # items)"

text \<open>What an item does to a configuration: a header creates its section, a pair is a call of \<open>set\<close>.\<close>

fun ini_apply :: "ConfigINI \<Rightarrow> ini_item \<Rightarrow> ConfigINI" where
  "ini_apply c (Ini_Section name) = c\<lparr>ini_root := Some (fst (navigate_ini_section (ini_tree_of c) name))\<rparr>"
| "ini_apply c (Ini_Pair name v) = fst (ini_set c (Some name) (Some v))"

fun ini_pairs :: "ini_item list \<Rightarrow> (string \<times> string) list" where
  "ini_pairs [] = []"
| "ini_pairs (Ini_Section name # items) = ini_pairs items"
| "ini_pairs (Ini_Pair name v # items) = (name, v) # ini_pairs items"

text \<open>Every header is followed by a pair of its section.\<close>

fun headed :: "ini_item list \<Rightarrow> bool" where
  "headed [] = True"
| "headed (Ini_Section name # items) \<longleftrightarrow> items \<noteq> [] \<and> is_pair (hd items) \<and> headed items"
| "headed (Ini_Pair name v # items) \<longleftrightarrow> headed items"

section \<open>Reading a line\<close>

lemma ini_trim_append: "blanks w \<Longrightarrow> trimmed s \<Longrightarrow> ini_trim (s @ w) = s"
proof -
  assume w: "blanks w" and s: "trimmed s"
  have "dropWhile ini_blank (rev w @ rev s) = dropWhile ini_blank (rev s)"
    using w by (intro dropWhile_skip) (simp add: blanks_def)
  also have "\<dots> = rev s"
    using s by (cases s rule: rev_cases) (auto simp: trimmed_def)
  finally show ?thesis by (simp add: ini_trim_def)
qed

lemma skip_blanks:
  "blanks w \<Longrightarrow> skip_ini_inline_spaces (w @ p) = skip_ini_inline_spaces p"
  by (simp add: skip_ini_inline_spaces_def blanks_def dropWhile_skip)

lemma skip_trimmed:
  "trimmed s \<Longrightarrow> s = [] \<longrightarrow> \<not> ini_blank (deref p) \<Longrightarrow> skip_ini_inline_spaces (s @ p) = s @ p"
  by (cases s; cases p) (auto simp: skip_ini_inline_spaces_def trimmed_def)

lemma blanks_not:
  "blanks w \<Longrightarrow> c \<in> set w \<Longrightarrow> \<not> ini_eol c"
  "blanks w \<Longrightarrow> c \<in> set w \<Longrightarrow> c \<notin> {CHR '']'', CHR ''='', CHR '':'', CHR '';'', CHR ''#'', NUL, LF, CR}"
  by (fastforce simp: blanks_def ini_blank_def ini_eol_def)+

lemma ini_header_text:
  assumes "blanks w" "trimmed name" "blanks w'" "length (name @ w') \<le> 255"
    and name: "\<forall>c \<in> set name. c \<notin> {CHR '']'', CR, LF, NUL}"
  shows "ini_header (w @ name @ w' @ CHR '']'' # t) = Some (name, t)"
proof -
  let ?P = "\<lambda>c. \<not> (c = CHR '']'' \<or> ini_eol c)"
  obtain u where u: "skip_ini_inline_spaces (w @ name @ w' @ CHR '']'' # t) = u @ CHR '']'' # t"
      and trim: "ini_trim u = name" and len: "length u \<le> 255" and P: "\<forall>c \<in> set u. ?P c"
  proof (cases "name = []")
    case True
    have "skip_ini_inline_spaces (w @ name @ w' @ CHR '']'' # t) = [] @ CHR '']'' # t"
      using True skip_trimmed [of "[]" "CHR '']'' # t"]
      by (simp add: assms(1,3) skip_blanks trimmed_def ini_blank_def)
    then show ?thesis using True that [of "[]"] by (simp add: ini_trim_def)
  next
    case False
    have "skip_ini_inline_spaces (w @ name @ w' @ CHR '']'' # t) = (name @ w') @ CHR '']'' # t"
      using False skip_trimmed [OF assms(2), of "w' @ CHR '']'' # t"] by (simp add: assms(1) skip_blanks)
    moreover have "\<forall>c \<in> set (name @ w'). ?P c"
      using name blanks_not [OF assms(3)] by (auto simp: ini_eol_def)
    ultimately show ?thesis using assms(4) by (intro that [OF _ ini_trim_append [OF assms(3,2)]])
  qed
  have "takeWhile ?P (u @ CHR '']'' # t) = u" "dropWhile ?P (u @ CHR '']'' # t) = CHR '']'' # t"
    using P by (auto intro!: takeWhile_stop dropWhile_stop)
  with u trim len show ?thesis by (simp add: ini_header_def)
qed

lemma ini_value_plain:
  assumes "blanks w" "trimmed v" "blanks w'" "length (v @ w') \<le> 1023"
    and v: "\<forall>c \<in> set v. c \<notin> {CR, LF, CHR '';'', CHR ''#'', NUL}" "v = [] \<or> hd v \<notin> {DQUOTE, SQUOTE}"
    and y: "y \<in> {LF, CR, CHR '';'', CHR ''#''}"
  shows "ini_value (w @ v @ w' @ y # p) = (v, y # p)"
proof -
  let ?P = "\<lambda>c. \<not> (ini_eol c \<or> c = CHR '';'' \<or> c = CHR ''#'')"
  have ynb: "\<not> ini_blank y" "\<not> ?P y" "y \<notin> {DQUOTE, SQUOTE}"
    using y by (auto simp: ini_blank_def ini_eol_def)
  obtain u where u: "skip_ini_inline_spaces (w @ v @ w' @ y # p) = u @ y # p"
      and trim: "ini_trim u = v" and len: "length u \<le> 1023" and P: "\<forall>c \<in> set u. ?P c"
      and q: "deref (u @ y # p) \<notin> {DQUOTE, SQUOTE}"
  proof (cases "v = []")
    case True
    have "skip_ini_inline_spaces (w @ v @ w' @ y # p) = [] @ y # p"
      using True ynb skip_trimmed [of "[]" "y # p"] by (simp add: assms(1,3) skip_blanks trimmed_def)
    then show ?thesis using True that [of "[]"] ynb by (simp add: ini_trim_def)
  next
    case False
    have "skip_ini_inline_spaces (w @ v @ w' @ y # p) = (v @ w') @ y # p"
      using False skip_trimmed [OF assms(2), of "w' @ y # p"] by (simp add: assms(1) skip_blanks)
    moreover have "\<forall>c \<in> set (v @ w'). ?P c"
      using v blanks_not [OF assms(3)] by (auto simp: ini_eol_def)
    moreover have "deref ((v @ w') @ y # p) \<notin> {DQUOTE, SQUOTE}"
      using False v(2) by (cases v) auto
    ultimately show ?thesis using assms(4) by (intro that [OF _ ini_trim_append [OF assms(3,2)]])
  qed
  have "takeWhile ?P (u @ y # p) = u" "dropWhile ?P (u @ y # p) = y # p"
    using P ynb by (auto intro!: takeWhile_stop dropWhile_stop)
  with u trim len q show ?thesis by (simp add: ini_value_def)
qed

lemma ini_value_quoted:
  assumes "blanks w" "q \<in> {DQUOTE, SQUOTE}" "\<forall>c \<in> set v. c \<notin> {q, CR, LF, NUL}" "length v \<le> 1023"
  shows "ini_value (w @ q # v @ q # p) = (v, p)"
proof -
  let ?P = "\<lambda>c. \<not> (c = q \<or> ini_eol c)"
  have "skip_ini_inline_spaces (w @ q # v @ q # p) = q # v @ q # p"
    using assms(2) skip_trimmed [of "[q]" "v @ q # p"]
    by (auto simp: assms(1) skip_blanks trimmed_def ini_blank_def)
  moreover have "takeWhile ?P (v @ q # p) = v" "dropWhile ?P (v @ q # p) = q # p"
    using assms(3) by (auto intro!: takeWhile_stop dropWhile_stop simp: ini_eol_def)
  ultimately show ?thesis using assms(2,4) by (auto simp: ini_value_def Let_def)
qed

lemma ini_val_text_parse:
  assumes "ini_val_text v vt"
  shows "\<exists>r. ini_value (vt @ LF # t) = (v, r @ LF # t) \<and> LF \<notin> set r"
  using assms
proof cases
  case (val_plain w w' r)
  show ?thesis
  proof (cases r)
    case Nil
    then show ?thesis
      using val_plain ini_value_plain [of w v w' LF t] by (intro exI [of _ "[]"]) simp
  next
    case (Cons y r')
    then show ?thesis
      using val_plain ini_value_plain [of w v w' y "r' @ LF # t"] by (intro exI [of _ r]) auto
  qed
next
  case (val_quoted w q r)
  then show ?thesis using ini_value_quoted [of w q v "r @ LF # t"] by auto
qed

lemma ini_pair_text:
  assumes "ini_key key" "blanks w" "length (key @ w) \<le> 255" "eq \<in> {CHR ''='', CHR '':''}" "ini_val_text v vt"
  shows "ini_pair (key @ w @ eq # vt @ LF # t) = Some (key, v, t)"
proof -
  let ?P = "\<lambda>c. \<not> (c = CHR ''='' \<or> c = CHR '':'' \<or> ini_eol c)"
  obtain r where r: "ini_value (vt @ LF # t) = (v, r @ LF # t)" "LF \<notin> set r"
    using ini_val_text_parse [OF assms(5)] by blast
  have "\<forall>c \<in> set (key @ w). ?P c"
    using assms(1) blanks_not [OF assms(2)] by (auto simp: ini_key_def ini_eol_def)
  moreover have "\<not> ?P eq" using assms(4) by auto
  ultimately have kw: "takeWhile ?P (key @ w @ eq # vt @ LF # t) = key @ w"
      "dropWhile ?P (key @ w @ eq # vt @ LF # t) = eq # vt @ LF # t"
    using takeWhile_stop [of "key @ w" ?P eq] dropWhile_stop [of "key @ w" ?P eq] by simp_all
  have "dropWhile (\<lambda>c. c \<noteq> LF) (r @ LF # t) = LF # t"
    using r(2) by (intro dropWhile_stop) auto
  moreover have "ini_trim (key @ w) = key"
    using assms(1,2) by (simp add: ini_trim_append ini_key_def)
  ultimately show ?thesis
    using assms(3,4) r(1) unfolding ini_pair_def Let_def kw by auto
qed

lemma ini_key_first:
  assumes "ini_key key"
  shows "dropWhile ini_ws (key @ p) = key @ p" "deref (key @ p) \<notin> {CHR '';'', CHR ''#'', CHR ''[''}" "key \<noteq> []"
proof -
  obtain c key' where key: "key = c # key'" using assms by (cases key) (auto simp: ini_key_def key_segment_def)
  have "\<not> ini_ws c" using assms by (auto simp: key ini_key_def trimmed_def ini_ws_def ini_eol_def)
  then show "dropWhile ini_ws (key @ p) = key @ p" "key \<noteq> []" by (simp_all add: key)
  show "deref (key @ p) \<notin> {CHR '';'', CHR ''#'', CHR ''[''}" using assms by (simp add: key ini_key_def)
qed

section \<open>Reading a file\<close>

abbreviation "ini_put \<equiv> tree_store ini_getOrCreateSection ini_update_child ini_setValue"

abbreviation "ini_open \<equiv> is_open ini_findChild is_section"

definition ini_puts :: "ININode \<Rightarrow> (string \<times> string) list \<Rightarrow> ININode" where
  "ini_puts root as = tree_stores ini_put root (map (\<lambda>(n, v). (name_segments ini_sep n, ini_value_node v)) as)"

lemma ini_puts_simps [simp]:
  "ini_puts root [] = root"
  "ini_puts root ((n, v) # as) = ini_puts (ini_put root (name_segments ini_sep n) (ini_value_node v)) as"
  by (simp_all add: ini_puts_def)

lemma ini_name_segments:
  "ini_key key \<Longrightarrow> NUL \<notin> set sect \<Longrightarrow> name_segments ini_sep (ini_name sect key) = name_segments ini_sep sect @ [key]"
  by (simp add: ini_key_def ini_name_def name_segments_append_key ini_sep_def)

text \<open>What the items of a text do to the tree.\<close>

fun ini_step :: "ININode \<Rightarrow> ini_item \<Rightarrow> ININode" where
  "ini_step root (Ini_Section name) = fst (navigate_ini_section root name)"
| "ini_step root (Ini_Pair name v) = ini_put root (name_segments ini_sep name) (ini_value_node v)"

definition ini_steps :: "ININode \<Rightarrow> ini_item list \<Rightarrow> ININode" where
  "ini_steps root items = foldl ini_step root items"

lemma ini_steps_simps [simp]:
  "ini_steps root [] = root" "ini_steps root (x # items) = ini_steps (ini_step root x) items"
  by (simp_all add: ini_steps_def)

lemma ini_text_parse:
  "ini_text sect t items \<Longrightarrow> NUL \<notin> set sect \<Longrightarrow> ini_open root (name_segments ini_sep sect) \<Longrightarrow>
   ini_lines root (name_segments ini_sep sect) t = Some (ini_steps root items)"
proof (induction sect t items arbitrary: root rule: ini_text.induct)
  case (ini_end sect)
  show ?case by (simp add: ini_lines.simps)
next
  case (ini_space c sect t items)
  then have "ini_lines root (name_segments ini_sep sect) t = Some (ini_steps root items)" by simp
  then show ?case
    using ini_space.hyps(1) by (simp add: ini_lines.simps [of root _ "c # t"] ini_lines.simps [of root _ t])
next
  case (ini_comment c cm sect t items)
  have "\<forall>x \<in> set (c # cm). x \<noteq> LF" using ini_comment.hyps(1,2) by auto
  from dropWhile_stop [OF this, of LF t] have "dropWhile (\<lambda>c. c \<noteq> LF) (c # cm @ LF # t) = LF # t"
    by simp
  moreover have "\<not> ini_ws c" using ini_comment.hyps(1) by (auto simp: ini_ws_def ini_blank_def ini_eol_def)
  moreover have "ini_lines root (name_segments ini_sep sect) (LF # t) = ini_lines root (name_segments ini_sep sect) t"
    by (simp add: ini_lines.simps [of root _ "LF # t"] ini_lines.simps [of root _ t] ini_ws_def ini_eol_def)
  ultimately show ?case
    using ini_comment by (subst ini_lines.simps) auto
next
  case (ini_head w name w' t items sect)
  let ?root = "tree_ensure ini_getOrCreateSection ini_update_child root (name_segments ini_sep name)"
  have nul: "NUL \<notin> set name" using ini_head.hyps(5) by auto
  have sec: "is_section root" using ini_head.prems(2) by (rule ini_sections.is_open_sec)
  have "ini_lines root (name_segments ini_sep sect) (CHR ''['' # w @ name @ w' @ CHR '']'' # t) =
      ini_lines ?root (name_segments ini_sep name) t"
    using ini_header_text [OF ini_head.hyps(1-5), of t]
    by (subst ini_lines.simps) (simp add: ini_ws_def ini_blank_def ini_eol_def navigate_ini_section_ensure)
  also have "\<dots> = Some (ini_steps ?root items)"
    using nul sec by (intro ini_head.IH ini_sections.is_open_ensure)
  finally show ?case by (simp add: ini_steps_def navigate_ini_section_ensure)
next
  case (ini_assign key w eq v vt sect t items)
  let ?p = "key @ w @ eq # vt @ LF # t" and ?ss = "name_segments ini_sep sect"
  let ?root = "ini_put root (?ss @ [key]) (ini_value_node v)"
  note first = ini_key_first [OF ini_assign.hyps(1)]
  have at: "tree_at ini_update_child ?ss (\<lambda>s. ini_setValue s key (ini_value_node v)) root = ?root"
    using ini_assign.prems(2) by (rule ini_sections.at_open)
  have "ini_lines root ?ss ?p = ini_lines ?root ?ss t"
    using first ini_pair_text [OF ini_assign.hyps(1-5), of t] at by (subst ini_lines.simps) auto
  also have "\<dots> = Some (ini_steps ?root items)"
    using ini_assign.prems ini_sections.is_open_sec
    by (intro ini_assign.IH ini_sections.is_open_store) auto
  finally show ?case by (simp add: ini_name_segments ini_assign ini_steps_def)
qed


section \<open>Reading as a sequence of assignments\<close>

lemma ini_set_leaf_setValue:
  "is_section n \<Longrightarrow> ini_set_leaf n k v = ini_setValue n k (ini_value_node v)"
  by (auto simp: ini_node_defs ini_value_node_def Let_def kv_update_append StrCompare_eq_0
      split: option.splits)

lemma is_section_store:
  assumes "is_section n"
  shows "is_section (tree_store ini_getOrCreateSection ini_update_child ini_setValue n ss x)"
  by (induction ss rule: induct_list012)
     (simp_all add: assms ini_sections.sec_upd ini_sections.ensure_sec ini_sections.sec_setv)

text \<open>A header that a pair of its section follows does no more than the pair.\<close>

lemma ini_text_first_pair:
  "ini_text sect t items \<Longrightarrow> items = Ini_Pair n v # items' \<Longrightarrow> \<exists>key. ini_key key \<and> n = ini_name sect key"
  by (induction rule: ini_text.induct) auto

lemma ini_steps_headed:
  "ini_text sect t items \<Longrightarrow> NUL \<notin> set sect \<Longrightarrow> is_section root \<Longrightarrow> headed items \<Longrightarrow>
   ini_steps root items = ini_puts root (ini_pairs items)"
proof (induction sect t items arbitrary: root rule: ini_text.induct)
  case (ini_head w name w' t items sect)
  let ?ss = "name_segments ini_sep name"
  let ?root = "tree_ensure ini_getOrCreateSection ini_update_child root ?ss"
  have nul: "NUL \<notin> set name" using ini_head.hyps(5) by auto
  obtain n v items' where first: "items = Ini_Pair n v # items'" using ini_head.prems(3) by (cases items; cases "hd items") auto
  obtain key where key: "ini_key key" "n = ini_name name key"
    using ini_text_first_pair [OF ini_head.hyps(6) first] by blast
  have "is_section ?root"
    using ini_head.prems(2) by (intro ini_sections.is_open_sec [OF ini_sections.is_open_ensure])
  then have "ini_steps ?root items = ini_puts ?root (ini_pairs items)"
    using nul ini_head.prems(3) by (intro ini_head.IH) simp_all
  also have "\<dots> = ini_puts root (ini_pairs items)"
    using ini_sections.store_ensure [OF ini_head.prems(2)] by (simp add: first key(2) ini_name_segments [OF key(1) nul])
  finally show ?case by (simp add: navigate_ini_section_ensure)
next
  case (ini_assign key w eq v vt sect t items)
  have "is_section (ini_put root (name_segments ini_sep sect @ [key]) (ini_value_node v))"
    using ini_assign.prems(2) by (rule is_section_store)
  then show ?case using ini_assign by (simp add: ini_name_segments)
qed simp_all

lemma ini_set_store_put:
  "is_section n \<Longrightarrow> ss \<noteq> [] \<Longrightarrow>
   tree_store ini_getOrCreateSection ini_update_child ini_set_leaf n ss v = ini_put n ss (ini_value_node v)"
  by (rule ini_sections.store_cong [where mk = ini_value_node]) (rule ini_set_leaf_setValue)

lemma ini_set_put:
  assumes "is_section (ini_tree_of c)" and "name_segments ini_sep n \<noteq> []"
  shows "fst (ini_set c (Some n) (Some v)) =
    c\<lparr>ini_root := Some (ini_put (ini_tree_of c) (name_segments ini_sep n) (ini_value_node v))\<rparr>"
  using ini_set_store_put [OF assms] by (simp add: ini_set_store)

lemma ini_puts_set_all:
  assumes "\<forall>(n, v) \<in> set as. name_segments ini_sep n \<noteq> []" and "is_section r"
  shows "\<lparr>ini_root = Some (ini_puts r as), ini_valid = b\<rparr> =
    set_all (\<lambda>c n v. ini_set c (Some n) (Some v)) \<lparr>ini_root = Some r, ini_valid = b\<rparr> as"
  using assms
proof (induction as arbitrary: r)
  case (Cons a as)
  obtain n v where a: "a = (n, v)" by (cases a)
  let ?r = "ini_put r (name_segments ini_sep n) (ini_value_node v)"
  have "fst (ini_set \<lparr>ini_root = Some r, ini_valid = b\<rparr> (Some n) (Some v)) = \<lparr>ini_root = Some ?r, ini_valid = b\<rparr>"
    using Cons.prems by (subst ini_set_put) (auto simp: a ini_tree_of_def)
  moreover have "\<lparr>ini_root = Some (ini_puts ?r as), ini_valid = b\<rparr> =
      set_all (\<lambda>c n v. ini_set c (Some n) (Some v)) \<lparr>ini_root = Some ?r, ini_valid = b\<rparr> as"
    using Cons.prems by (intro Cons.IH is_section_store) auto
  ultimately show ?case by (simp add: a)
qed simp

lemma ini_apply_steps:
  "ini_text sect t items \<Longrightarrow> NUL \<notin> set sect \<Longrightarrow> is_section r \<Longrightarrow>
   foldl ini_apply \<lparr>ini_root = Some r, ini_valid = b\<rparr> items = \<lparr>ini_root = Some (ini_steps r items), ini_valid = b\<rparr>"
proof (induction sect t items arbitrary: r rule: ini_text.induct)
  case (ini_head w name w' t items sect)
  have "NUL \<notin> set name" using ini_head.hyps(5) by auto
  moreover have "is_section (tree_ensure ini_getOrCreateSection ini_update_child r (name_segments ini_sep name))"
    using ini_head.prems(2) by (intro ini_sections.is_open_sec [OF ini_sections.is_open_ensure])
  ultimately show ?case using ini_head.IH by (simp add: ini_tree_of_def navigate_ini_section_ensure)
next
  case (ini_assign key w eq v vt sect t items)
  let ?n = "ini_name sect key"
  have ss: "name_segments ini_sep ?n = name_segments ini_sep sect @ [key]"
    using ini_assign.hyps(1) ini_assign.prems(1) by (rule ini_name_segments)
  have "is_section (ini_put r (name_segments ini_sep sect @ [key]) (ini_value_node v))"
    using ini_assign.prems(2) by (rule is_section_store)
  moreover have "fst (ini_set \<lparr>ini_root = Some r, ini_valid = b\<rparr> (Some ?n) (Some v)) =
      \<lparr>ini_root = Some (ini_put r (name_segments ini_sep sect @ [key]) (ini_value_node v)), ini_valid = b\<rparr>"
    using ini_assign.prems(2) ss by (subst ini_set_put) (auto simp: ini_tree_of_def)
  ultimately show ?case using ini_assign.IH ini_assign.prems(1) ss by simp
qed simp_all

lemma ini_text_names:
  "ini_text sect t items \<Longrightarrow> NUL \<notin> set sect \<Longrightarrow> \<forall>(n, v) \<in> set (ini_pairs items). name_segments ini_sep n \<noteq> []"
proof (induction rule: ini_text.induct)
  case (ini_head w name w' t items sect)
  then have "NUL \<notin> set name" by blast
  then show ?case using ini_head.IH by simp
qed (simp_all add: ini_name_segments)

lemma NUL_free_blanks: "blanks w \<Longrightarrow> NUL \<notin> set w"
  using blanks_not(2) by blast

lemma NUL_free_ini_val_text: "ini_val_text v vt \<Longrightarrow> NUL \<notin> set vt"
  by (induction rule: ini_val_text.induct) (auto simp: NUL_free_blanks)

lemma NUL_free_ini_text: "ini_text sect t items \<Longrightarrow> NUL \<notin> set t"
  by (induction rule: ini_text.induct)
     (auto simp: NUL_free_blanks NUL_free_ini_val_text ini_key_def key_segment_def ini_ws_def
        ini_blank_def ini_eol_def)

section \<open>Well-formed trees\<close>

text \<open>Only sections have pairs, one per key, and the keys are C strings.\<close>

fun ini_wf :: "ININode \<Rightarrow> bool" where
  "ini_wf (ININode b s i kvs) \<longleftrightarrow> (\<not> b \<longrightarrow> kvs = []) \<and> kv_ok ini_wf kvs"

lemma ini_wf_iff: "ini_wf n \<longleftrightarrow> (\<not> is_section n \<longrightarrow> ini_head n = []) \<and> kv_ok ini_wf (ini_head n)"
  by (cases n) simp

lemma ini_wf_update_child:
  "ini_wf n \<Longrightarrow> (\<And>c. ini_wf c \<Longrightarrow> ini_wf (f c)) \<Longrightarrow> ini_wf (ini_update_child k f n)"
  by (auto simp: ini_wf_iff [of n] ini_wf_iff [of "ini_update_child k f n"] ini_update_child_def
      ini_set_head_def intro: kv_ok_update)

lemma ini_wf_to_section: "ini_wf (ini_set_section True (ini_clear n))"
  by (simp add: ini_set_section_def ini_clear_def)

lemma ini_wf_new [simp]: "ini_wf (new_ININode b)"
  by (simp add: new_ININode_def)

lemma ini_wf_append:
  "ini_wf n \<Longrightarrow> is_section n \<Longrightarrow> kv_find k (ini_head n) = None \<Longrightarrow> ini_wf c \<Longrightarrow>
   ini_wf (ini_set_head (ini_head n @ [(cstr_of k, c)]) n)"
  by (auto simp: ini_wf_iff [of n] ini_set_head_def intro: kv_ok_append)

lemma ini_wf_setValue: "ini_wf n \<Longrightarrow> is_section n \<Longrightarrow> ini_wf c \<Longrightarrow> ini_wf (ini_setValue n k c)"
  by (auto simp: ini_setValue_def ini_wf_append ini_update_child_def [symmetric]
      split: option.splits intro: ini_wf_update_child)

lemma ini_wf_getOrCreateSection:
  assumes "ini_wf n"
  shows "ini_wf (ini_getOrCreateSection n k)"
proof -
  let ?n = "if \<not> is_section n then ini_set_section True (ini_clear n) else n"
  have "ini_wf ?n" "is_section ?n"
    using assms ini_wf_to_section by (auto simp: ini_set_section_def)
  then show ?thesis
    by (auto simp: ini_getOrCreateSection_def Let_def ini_findChild_def ini_wf_to_section
        split: option.splits intro!: ini_wf_update_child ini_wf_append)
qed

lemma ini_wf_set_leaf:
  assumes "ini_wf n"
  shows "ini_wf (ini_set_leaf n k v)"
proof -
  let ?n = "if \<not> is_section n then ini_set_section True (ini_clear n) else n"
  have n: "ini_wf ?n" "is_section ?n"
    using assms ini_wf_to_section by (auto simp: ini_set_section_def)
  have "ini_set_leaf n k v = ini_set_leaf ?n k v"
    using n(2) by (auto simp: ini_set_leaf_def)
  also have "\<dots> = ini_setValue ?n k (ini_value_node v)"
    by (rule ini_set_leaf_setValue [OF n(2)])
  finally show ?thesis
    using n by (simp add: ini_wf_setValue ini_value_node_def)
qed

lemma ini_wf_store:
  "ini_wf n \<Longrightarrow> ini_wf (tree_store ini_getOrCreateSection ini_update_child ini_set_leaf n ss v)"
  by (induction ss arbitrary: n rule: induct_list012)
     (auto intro!: ini_wf_set_leaf ini_wf_update_child ini_wf_getOrCreateSection)

lemma ini_wf_ensure:
  "ini_wf n \<Longrightarrow> ini_wf (tree_ensure ini_getOrCreateSection ini_update_child n ss)"
  by (induction ss arbitrary: n) (auto intro!: ini_wf_update_child ini_wf_getOrCreateSection)

lemma ini_wf_put:
  "ini_wf n \<Longrightarrow> is_section n \<Longrightarrow> ini_wf (ini_put n (ss @ [k]) (ini_value_node v))"
  using ini_set_store_put [of n "ss @ [k]" v] ini_wf_store [of n "ss @ [k]" v] by simp

lemma ini_lines_wf:
  "ini_lines root ss p = Some r \<Longrightarrow> ini_wf root \<Longrightarrow> ini_open root ss \<Longrightarrow> ini_wf r"
proof (induction root ss p rule: ini_lines.induct)
  case (1 root ss p0)
  note sec = ini_sections.is_open_sec [OF "1.prems"(3)]
  have at: "tree_at ini_update_child ss (\<lambda>s. ini_setValue s k (ini_value_node v)) root =
      ini_put root (ss @ [k]) (ini_value_node v)" for k v
    using "1.prems"(3) by (rule ini_sections.at_open)
  have put: "ini_wf (ini_put root (ss @ [k]) (ini_value_node v))"
      "ini_open (ini_put root (ss @ [k]) (ini_value_node v)) ss" for k v
    using "1.prems"(2) sec by (simp_all add: ini_wf_put ini_sections.is_open_store)
  show ?case
    using 1 put sec
    by (auto simp: ini_lines.simps [of root ss p0] Let_def at navigate_ini_section_ensure ini_wf_ensure
        ini_sections.is_open_ensure split: if_splits option.splits)
qed

definition ini_config_wf :: "ConfigINI \<Rightarrow> bool" where
  "ini_config_wf c \<longleftrightarrow> (case ini_root c of None \<Rightarrow> \<not> ini_valid c | Some r \<Rightarrow> ini_wf r)"

lemma ini_config_wf_new: "ini_config_wf (new_ConfigINI file)"
  by (auto simp: ini_config_wf_def new_ConfigINI_def parse_ini_def split: option.splits
      dest: ini_lines_wf)

lemma ini_config_wf_set: "ini_config_wf c \<Longrightarrow> ini_config_wf (fst (ini_set c name v))"
  by (auto simp: ini_config_wf_def ini_set_def Let_def ini_set_loop_store ini_wf_store split: option.splits)

section \<open>Properties\<close>

text \<open>
  C2. Reading an INI file does what its items say, in order, on an empty configuration: a header creates
  its section (as \<open>navigate_ini_section\<close> does), and a pair is a call of \<open>set\<close> with the full name (section,
  then key) and the value. This is shown for every text of the grammar \<open>ini_text\<close>: lines end in a line
  feed, keys hold no separator and headers, keys and values fit the buffers. If every header is followed by a pair of its
  section, the configuration is exactly the one that the calls of \<open>set\<close> alone build; a header without
  pairs leaves an empty section, which the pairs alone do not make.
\<close>

theorem ini_parse_is_sets:
  assumes "ini_text [] t items"
  shows "new_ConfigINI (Some t) = foldl ini_apply (new_ConfigINI None) items \<and>
    (headed items \<longrightarrow>
      new_ConfigINI (Some t) = set_all (\<lambda>c n v. ini_set c (Some n) (Some v)) (new_ConfigINI None) (ini_pairs items))"
proof -
  have "name_segments ini_sep [] = []" by (simp add: name_segments_def cstr_of_def)
  then have "ini_lines (new_ININode True) [] t = Some (ini_steps (new_ININode True) items)"
    using ini_text_parse [OF assms, of "new_ININode True"] by simp
  then have read: "new_ConfigINI (Some t) = \<lparr>ini_root = Some (ini_steps (new_ININode True) items), ini_valid = True\<rparr>"
    using NUL_free_ini_text [OF assms] by (simp add: new_ConfigINI_def parse_ini_def)
  have empty: "new_ConfigINI None = \<lparr>ini_root = Some (new_ININode True), ini_valid = True\<rparr>"
    by (simp add: new_ConfigINI_def parse_ini_def cstr_of_def ini_lines.simps)
  show ?thesis
    using read empty ini_apply_steps [OF assms, of "new_ININode True" True] ini_steps_headed [OF assms, of "new_ININode True"]
      ini_text_names [OF assms] ini_puts_set_all [of "ini_pairs items" "new_ININode True" True] by simp
qed

theorem ini_parse_is_sets_witness:
  "new_ConfigINI (Some (''[net]'' @ [LF] @ ''mtu = 1500 ;x'' @ [LF] @ ''dev:'' @ [SQUOTE] @ ''a b'' @ [SQUOTE, LF])) =
   set_all (\<lambda>c n v. ini_set c (Some n) (Some v)) (new_ConfigINI None) [(''net/mtu'', ''1500''), (''net/dev'', ''a b'')] \<and>
   new_ConfigINI (Some ''[net]'') = ini_apply (new_ConfigINI None) (Ini_Section ''net'')"
proof (rule conjI)
  note ev = blanks_def trimmed_def ini_blank_def ini_key_def key_segment_def seg_limit_def ini_sep_def
  have plain: "ini_val_text ''1500'' ('' '' @ ''1500'' @ '' '' @ '';x'')"
    by (rule val_plain) (simp_all add: ev)
  have quoted: "ini_val_text ''a b'' ([] @ SQUOTE # ''a b'' @ SQUOTE # [])"
    by (rule val_quoted) (simp_all add: ev)
  have "ini_text ''net'' (''dev'' @ [] @ CHR '':'' # ([] @ SQUOTE # ''a b'' @ SQUOTE # []) @ LF # [])
      [Ini_Pair (ini_name ''net'' ''dev'') ''a b'']"
    by (rule ini_assign [OF _ _ _ _ quoted ini_end]) (simp_all add: ev)
  then have "ini_text ''net'' (''mtu'' @ '' '' @ CHR ''='' # ('' '' @ ''1500'' @ '' '' @ '';x'') @ LF #
      (''dev'' @ [] @ CHR '':'' # ([] @ SQUOTE # ''a b'' @ SQUOTE # []) @ LF # []))
      [Ini_Pair (ini_name ''net'' ''mtu'') ''1500'', Ini_Pair (ini_name ''net'' ''dev'') ''a b'']"
    by (intro ini_assign [OF _ _ _ _ plain]) (simp_all add: ev)
  then have "ini_text ''net'' (LF # (''mtu'' @ '' '' @ CHR ''='' # ('' '' @ ''1500'' @ '' '' @ '';x'') @ LF #
      (''dev'' @ [] @ CHR '':'' # ([] @ SQUOTE # ''a b'' @ SQUOTE # []) @ LF # [])))
      [Ini_Pair (ini_name ''net'' ''mtu'') ''1500'', Ini_Pair (ini_name ''net'' ''dev'') ''a b'']"
    by (intro ini_space) (simp_all add: ini_ws_def ini_eol_def)
  from ini_parse_is_sets [OF ini_head [of "[]" "''net''" "[]", OF _ _ _ _ _ this], THEN conjunct2]
  show "new_ConfigINI (Some (''[net]'' @ [LF] @ ''mtu = 1500 ;x'' @ [LF] @ ''dev:'' @ [SQUOTE] @ ''a b'' @ [SQUOTE, LF])) =
   set_all (\<lambda>c n v. ini_set c (Some n) (Some v)) (new_ConfigINI None) [(''net/mtu'', ''1500''), (''net/dev'', ''a b'')]"
    by (simp add: ev ini_name_def)
  from ini_parse_is_sets [OF ini_head [of "[]" "''net''" "[]", OF _ _ _ _ _ ini_end], THEN conjunct1]
  show "new_ConfigINI (Some ''[net]'') = ini_apply (new_ConfigINI None) (Ini_Section ''net'')"
    by (simp add: ev)
qed

text \<open>
  Every configuration the program can reach, from any file and by any calls of \<open>set\<close>, is a
  well-formed tree: a value has no children, and a section has one pair per key.
\<close>

lemma ini_wf_invariant: "ini_config_wf (set_all ini_set (new_ConfigINI file) kvs)"
  by (rule set_all_invariant) (rule ini_config_wf_new, rule ini_config_wf_set)

text \<open>
  Reading is all or nothing: a file with a malformed line leaves no trace of the lines
  before it, the configuration is the one of an empty file marked invalid.
\<close>

lemma ini_rejected_is_empty:
  assumes "\<not> ini_Probe (new_ConfigINI file)"
  shows "new_ConfigINI file = (new_ConfigINI None)\<lparr>ini_valid := False\<rparr>"
  using assms
  by (auto simp: ini_Probe_def new_ConfigINI_def parse_ini_def cstr_of_def ini_lines.simps [of _ _ "[]"]
      split: option.splits)

lemma ini_rejected_is_empty_example:
  "new_ConfigINI (Some ([CHR ''a'', CHR ''='', CHR ''1'', LF] @ ''[b'')) = (new_ConfigINI None)\<lparr>ini_valid := False\<rparr>"
proof -
  have "\<not> ini_Probe (new_ConfigINI (Some ([CHR ''a'', CHR ''='', CHR ''1'', LF] @ ''[b'')))"
    by (simp add: ini_Probe_def new_ConfigINI_def parse_ini_def cstr_of_def ini_lines.simps ini_ws_def
        ini_blank_def ini_eol_def ini_pair_def ini_value_def ini_header_def skip_ini_inline_spaces_def)
  from ini_rejected_is_empty [OF this] show ?thesis by simp
qed

text \<open>
  The last assignment wins: after any sequence of \<open>set\<close> calls, \<open>get\<close> returns the value
  last written to a name and \<open>getNumber\<close> its conversion, if the names written after it neither
  lie above nor below it in the tree.
\<close>

lemma ini_last_write_wins:
  assumes "name_segments ini_sep name \<noteq> []"
    and "\<forall>(n, v) \<in> set later. unrelated (name_segments ini_sep n) (name_segments ini_sep name)"
  shows "let c' = set_all (\<lambda>c n v. ini_set c (Some n) (Some v)) c (earlier @ (name, val) # later) in
    ini_get c' (Some name) = cstr_of val \<and> ini_getNumber c' (Some name) = atoins val"
  using ini_config.read_set_all_last [OF assms] by (simp add: Let_def)

lemma ini_last_write_wins_example:
  "let c' = set_all (\<lambda>c n v. ini_set c (Some n) (Some v)) (new_ConfigINI None)
      ([(''net'', ''x'')] @ (''net.mtu'', ''1500'') # [(''net/dev'', ''eth0'')]) in
    ini_get c' (Some ''net.mtu'') = cstr_of ''1500'' \<and> ini_getNumber c' (Some ''net.mtu'') = atoins ''1500''"
  by (rule ini_last_write_wins)
     (simp_all add: name_segments_def segments.simps segment_def after_segment_def seg_limit_def
        ini_sep_def cstr_of_def)

end
