(* ===== verification/ConfigTOML.thy ===== *)
theory ConfigTOML
  imports ConfigText
begin

text \<open>
  The TOML configuration format, \<open>src/lib/cpp/Format/ConfigText/TOML.cpp\<close>: the node type and
  its methods, the parser of keys, values, headers and lines, and the operations of the
  \<open>ConfigText\<close> interface. As in \<open>ConfigINI\<close>, the pointer \<open>current_table\<close> is the path of keys
  to the table.
\<close>

section \<open>Nodes\<close>

datatype TOMLType = TOML_Table | TOML_String | TOML_Number | TOML_Boolean

datatype TOMLNode = TOMLNode (ttype: TOMLType) (toml_str_val: string) (toml_num_val: stdsint)
  (toml_bool_val: bool) (toml_head: "(string \<times> TOMLNode) list")

definition new_TOMLNode :: "TOMLType \<Rightarrow> TOMLNode" where
  "new_TOMLNode t = TOMLNode t [] 0 False []"

definition toml_clear :: "TOMLNode \<Rightarrow> TOMLNode" where
  "toml_clear n = TOMLNode (ttype n) (toml_str_val n) (toml_num_val n) (toml_bool_val n) []"

definition toml_set_type :: "TOMLType \<Rightarrow> TOMLNode \<Rightarrow> TOMLNode" where
  "toml_set_type t n = TOMLNode t (toml_str_val n) (toml_num_val n) (toml_bool_val n) (toml_head n)"

definition toml_set_head :: "(string \<times> TOMLNode) list \<Rightarrow> TOMLNode \<Rightarrow> TOMLNode" where
  "toml_set_head kvs n = TOMLNode (ttype n) (toml_str_val n) (toml_num_val n) (toml_bool_val n) kvs"

definition toml_findChild :: "TOMLNode \<Rightarrow> string \<Rightarrow> TOMLNode option" where
  "toml_findChild n key = (if ttype n \<noteq> TOML_Table then None else kv_find key (toml_head n))"

definition toml_update_child :: "string \<Rightarrow> (TOMLNode \<Rightarrow> TOMLNode) \<Rightarrow> TOMLNode \<Rightarrow> TOMLNode" where
  "toml_update_child key f n = toml_set_head (kv_update key f (toml_head n)) n"

definition toml_getOrCreateTable :: "TOMLNode \<Rightarrow> string \<Rightarrow> TOMLNode" where
  "toml_getOrCreateTable n key =
     (let n = (if ttype n \<noteq> TOML_Table then toml_set_type TOML_Table (toml_clear n) else n)
      in case toml_findChild n key of
           Some existing \<Rightarrow>
             (if ttype existing \<noteq> TOML_Table
              then toml_update_child key (\<lambda>e. toml_set_type TOML_Table (toml_clear e)) n
              else n)
         | None \<Rightarrow> toml_set_head (toml_head n @ [(cstr_of key, new_TOMLNode TOML_Table)]) n)"

definition toml_setValue :: "TOMLNode \<Rightarrow> string \<Rightarrow> TOMLNode \<Rightarrow> TOMLNode" where
  "toml_setValue n key child =
     (case kv_find key (toml_head n) of
        Some _ \<Rightarrow> toml_set_head (kv_update key (\<lambda>_. child) (toml_head n)) n
      | None \<Rightarrow> toml_set_head (toml_head n @ [(cstr_of key, child)]) n)"

section \<open>Keys and values\<close>

definition toml_blank :: "char \<Rightarrow> bool" where
  "toml_blank c \<longleftrightarrow> c = CHR '' '' \<or> c = TAB"

definition skip_toml_inline_spaces :: "string \<Rightarrow> string" where
  "skip_toml_inline_spaces p = dropWhile toml_blank p"

text \<open>
  The loop over a quoted key: a backslash in a double-quoted key takes the next character as
  it is; characters that do not fit into the 256 byte buffer are dropped.
\<close>

fun toml_key_loop :: "char \<Rightarrow> string \<Rightarrow> string \<Rightarrow> (string \<times> string) option" where
  "toml_key_loop quote buf [] = None"
| "toml_key_loop quote buf (c # p) =
     (if c = quote then Some (buf, p)
      else if c = BACKSLASH \<and> quote = DQUOTE
      then (case p of
              [] \<Rightarrow> None
            | ch # p' \<Rightarrow> toml_key_loop quote (if length buf < 256 - 1 then buf @ [ch] else buf) p')
      else toml_key_loop quote (if length buf < 256 - 1 then buf @ [c] else buf) p)"

definition toml_bare :: "char \<Rightarrow> bool" where
  "toml_bare c \<longleftrightarrow> char_val c > char_val (CHR '' '') \<and> c \<noteq> CHR ''='' \<and> c \<noteq> CHR '']'' \<and> c \<noteq> CHR ''.'' \<and>
     c \<noteq> CHR ''/'' \<and> c \<noteq> CHR ''#''"

definition parse_toml_key :: "string \<Rightarrow> (string \<times> string) option" where
  "parse_toml_key p0 =
     (let p = skip_toml_inline_spaces p0 in
      if p = [] then None
      else if deref p = DQUOTE \<or> deref p = SQUOTE then toml_key_loop (deref p) [] (tl p)
      else let buf = take 255 (takeWhile toml_bare p)
           in if buf = [] then None else Some (buf, dropWhile toml_bare p))"

definition toml_unescape :: "char \<Rightarrow> char" where
  "toml_unescape ch =
     (if ch = DQUOTE then DQUOTE
      else if ch = BACKSLASH then BACKSLASH
      else if ch = CHR ''n'' then LF
      else if ch = CHR ''t'' then TAB
      else if ch = CHR ''r'' then CR
      else ch)"

fun toml_string_loop :: "char \<Rightarrow> string \<Rightarrow> string \<Rightarrow> string \<Rightarrow> (string \<times> string) option" where
  "toml_string_loop quote str buf [] = None"
| "toml_string_loop quote str buf (c # p) =
     (if c = quote then Some (str @ buf, p)
      else if c = BACKSLASH \<and> quote = DQUOTE
      then (case p of
              [] \<Rightarrow> None
            | ch # p' \<Rightarrow> (case buf_flush str (buf @ [toml_unescape ch]) of
                             (str', buf') \<Rightarrow> toml_string_loop quote str' buf' p'))
      else (case buf_flush str (buf @ [c]) of
              (str', buf') \<Rightarrow> toml_string_loop quote str' buf' p))"

definition toml_number :: "string \<Rightarrow> TOMLNode \<times> string" where
  "toml_number start =
     (let p = (if deref start = CHR ''+'' \<or> deref start = CHR ''-'' then tl start else start);
          p = dropWhile dec_digit p;
          len = length start - length p;
          num_buf = take (if len \<ge> 64 then 64 - 1 else len) start
      in (TOMLNode TOML_Number num_buf (atoins num_buf) False [], p))"

definition parse_toml_value :: "string \<Rightarrow> (TOMLNode \<times> string) option" where
  "parse_toml_value p0 =
     (let p = skip_toml_inline_spaces p0 in
      if p = [] then None
      else if deref p = DQUOTE \<or> deref p = SQUOTE then
        (case toml_string_loop (deref p) [] [] (tl p) of
           None \<Rightarrow> None
         | Some (str, p') \<Rightarrow> Some (TOMLNode TOML_String str 0 False [], p'))
      else if StrCompareN p ''true'' 4 = 0 then
        Some (TOMLNode TOML_Boolean ''true'' 0 True [], drop 4 p)
      else if StrCompareN p ''false'' 5 = 0 then
        Some (TOMLNode TOML_Boolean ''false'' 0 False [], drop 5 p)
      else if deref p = CHR ''+'' \<or> deref p = CHR ''-'' \<or> dec_digit (deref p) then Some (toml_number p)
      else None)"

text \<open>The parsers consume text.\<close>

lemma toml_key_loop_length: "toml_key_loop q buf p = Some (k, p') \<Longrightarrow> length p' < length p"
  by (induction q buf p rule: toml_key_loop.induct) (fastforce split: if_splits list.splits)+

lemma toml_string_loop_length: "toml_string_loop q str buf p = Some (s, p') \<Longrightarrow> length p' < length p"
  by (induction q str buf p rule: toml_string_loop.induct)
     (fastforce split: if_splits list.splits prod.splits)+

lemma skip_toml_length: "length (skip_toml_inline_spaces p) \<le> length p"
  by (simp add: skip_toml_inline_spaces_def length_dropWhile_le)

lemma parse_toml_key_length:
  assumes "parse_toml_key p = Some (k, p')"
  shows "length p' < length p"
proof -
  let ?p = "skip_toml_inline_spaces p"
  have "length p' < length ?p"
  proof (cases "deref ?p = DQUOTE \<or> deref ?p = SQUOTE")
    case True
    then have "length p' < length (tl ?p)"
      using assms by (intro toml_key_loop_length [of "deref ?p" "[]" _ k])
        (simp add: parse_toml_key_def Let_def split: if_splits)
    then show ?thesis by simp
  next
    case False
    then have "takeWhile toml_bare ?p \<noteq> []" "p' = dropWhile toml_bare ?p"
      using assms by (auto simp: parse_toml_key_def Let_def split: if_splits)
    then show ?thesis
      by (auto intro!: length_dropWhile_less simp: takeWhile_eq_Nil_iff)
  qed
  also have "\<dots> \<le> length p" by (rule skip_toml_length)
  finally show ?thesis .
qed

lemma parse_toml_value_length:
  assumes "parse_toml_value p = Some (n, p')"
  shows "length p' \<le> length p"
proof -
  let ?p = "skip_toml_inline_spaces p"
  have num: "length (snd (toml_number q)) \<le> length q" for q
    using length_dropWhile_le [of dec_digit q] length_dropWhile_le [of dec_digit "tl q"]
    by (auto simp: toml_number_def Let_def)
  have str: "length q' \<le> length ?p" if "toml_string_loop (deref ?p) [] [] (tl ?p) = Some (s, q')" for s q'
    using toml_string_loop_length [OF that] by simp
  have "length p' \<le> length ?p"
    using assms num [of ?p] str
    by (auto simp: parse_toml_value_def Let_def split: if_splits option.splits)
  also have "\<dots> \<le> length p" by (rule skip_toml_length)
  finally show ?thesis .
qed

section \<open>The parser\<close>

text \<open>After a key of a header: blanks and one separator.\<close>

definition toml_after_key :: "string \<Rightarrow> string" where
  "toml_after_key p0 =
     (let p = skip_toml_inline_spaces p0
      in if deref p = CHR ''.'' \<or> deref p = CHR ''/'' then tl p else p)"

lemma toml_after_key_length: "length (toml_after_key p) \<le> length p"
  using skip_toml_length [of p] by (auto simp: toml_after_key_def Let_def)

function navigate_toml_loop :: "TOMLNode \<Rightarrow> string \<Rightarrow> TOMLNode" where
  "navigate_toml_loop cur p =
     (if p = [] then cur
      else case parse_toml_key p of
        None \<Rightarrow> cur
      | Some (seg, p') \<Rightarrow>
          toml_update_child seg (\<lambda>child. navigate_toml_loop child (toml_after_key p'))
            (toml_getOrCreateTable cur seg))"
  by pat_completeness auto
termination
  by (relation "measure (\<lambda>(n, p). length p)")
     (auto dest: parse_toml_key_length intro: le_less_trans [OF toml_after_key_length])

text \<open>The keys the loop goes through: the path of the table it returns.\<close>

function toml_keys :: "string \<Rightarrow> string list" where
  "toml_keys p =
     (if p = [] then []
      else case parse_toml_key p of
        None \<Rightarrow> []
      | Some (seg, p') \<Rightarrow> seg # toml_keys (toml_after_key p'))"
  by pat_completeness auto
termination
  by (relation "measure length")
     (auto dest: parse_toml_key_length intro: le_less_trans [OF toml_after_key_length])

definition toml_sep :: "char \<Rightarrow> bool" where
  "toml_sep c \<longleftrightarrow> c = CHR ''/'' \<or> c = CHR ''.''"

definition navigate_toml_table :: "TOMLNode \<Rightarrow> string \<Rightarrow> TOMLNode \<times> string list" where
  "navigate_toml_table root path =
     (let p = dropWhile toml_sep (cstr_of path)
      in if p = [] then (root, []) else (navigate_toml_loop root p, toml_keys p))"

definition toml_header :: "string \<Rightarrow> (string \<times> string) option" where
  "toml_header p0 =
     (let p1 = skip_toml_inline_spaces p0;
          header_buf = take 511 (takeWhile (\<lambda>c. \<not> (c = CHR '']'' \<or> c = LF \<or> c = CR)) p1);
          p2 = dropWhile (\<lambda>c. \<not> (c = CHR '']'' \<or> c = LF \<or> c = CR)) p1
      in if deref p2 \<noteq> CHR '']'' then None else Some (header_buf, tl p2))"

text \<open>What the loop consumes after a value: blanks, a comment, one line end.\<close>

definition toml_rest_of_line :: "string \<Rightarrow> string" where
  "toml_rest_of_line p0 =
     (let p = skip_toml_inline_spaces p0;
          p = (if deref p = CHR ''#'' then dropWhile (\<lambda>c. c \<noteq> LF) p else p);
          p = (if deref p = CR then tl p else p)
      in if deref p = LF then tl p else p)"

definition toml_pair :: "string \<Rightarrow> (string \<times> TOMLNode \<times> string) option" where
  "toml_pair p0 =
     (case parse_toml_key p0 of
        None \<Rightarrow> None
      | Some (key, p1) \<Rightarrow>
          (let p2 = skip_toml_inline_spaces p1 in
           if deref p2 \<noteq> CHR ''='' then None
           else case parse_toml_value (tl p2) of
             None \<Rightarrow> None
           | Some (val_node, p3) \<Rightarrow> Some (key, val_node, toml_rest_of_line p3)))"

definition toml_ws :: "char \<Rightarrow> bool" where
  "toml_ws c \<longleftrightarrow> c = CHR '' '' \<or> c = TAB \<or> c = CR \<or> c = LF"

lemma toml_header_length: "toml_header p = Some (name, p') \<Longrightarrow> length p' \<le> length p"
proof -
  let ?P = "\<lambda>c. \<not> (c = CHR '']'' \<or> c = LF \<or> c = CR)"
  assume "toml_header p = Some (name, p')"
  then have "p' = tl (dropWhile ?P (skip_toml_inline_spaces p))"
    by (auto simp: toml_header_def Let_def split: if_splits)
  then show ?thesis
    using length_dropWhile_le [of ?P "skip_toml_inline_spaces p"] skip_toml_length [of p] by simp
qed

lemma toml_rest_of_line_length: "length (toml_rest_of_line p) \<le> length p"
  using skip_toml_length [of p] length_dropWhile_le [of "\<lambda>c. c \<noteq> LF" "skip_toml_inline_spaces p"]
  by (auto simp: toml_rest_of_line_def Let_def)

lemma toml_pair_length:
  assumes "toml_pair p = Some (k, v, p')"
  shows "length p' < length p"
proof -
  obtain p1 p3 where key: "parse_toml_key p = Some (k, p1)"
    and val: "parse_toml_value (tl (skip_toml_inline_spaces p1)) = Some (v, p3)" and p': "p' = toml_rest_of_line p3"
    using assms by (auto simp: toml_pair_def Let_def split: option.splits if_splits)
  have "length p' \<le> length p3" by (simp add: p' toml_rest_of_line_length)
  also have "\<dots> \<le> length (tl (skip_toml_inline_spaces p1))" using val by (rule parse_toml_value_length)
  also have "\<dots> \<le> length p1" using skip_toml_length [of p1] by simp
  also have "\<dots> < length p" using key by (rule parse_toml_key_length)
  finally show ?thesis .
qed

text \<open>The \<open>while (*p)\<close> loop of \<open>parse_toml\<close>; \<open>None\<close> is \<open>error_occurred\<close>.\<close>

function toml_lines :: "TOMLNode \<Rightarrow> string list \<Rightarrow> string \<Rightarrow> TOMLNode option" where
  "toml_lines root current_table p0 =
     (let p = dropWhile toml_ws p0 in
      if p = [] then Some root
      else if deref p = CHR ''#'' then toml_lines root current_table (dropWhile (\<lambda>c. c \<noteq> LF) p)
      else if deref p = CHR ''['' then
        (case toml_header (tl p) of
           None \<Rightarrow> None
         | Some (header_buf, p') \<Rightarrow>
             (case navigate_toml_table root header_buf of (root', table) \<Rightarrow> toml_lines root' table p'))
      else
        (case toml_pair p of
           None \<Rightarrow> None
         | Some (key, val_node, p') \<Rightarrow>
             toml_lines (tree_at toml_update_child current_table
                (\<lambda>t. toml_setValue t key val_node) root) current_table p'))"
  by pat_completeness auto
termination
proof (relation "measure (\<lambda>(n, s, p). length p)", goal_cases)
  case (2 root sec p0 p)
  have "length (dropWhile (\<lambda>c. c \<noteq> LF) p) < length p"
    using 2 by (intro length_dropWhile_less) (auto simp: deref_def split: list.splits)
  also have "length p \<le> length p0" by (simp add: 2 length_dropWhile_le)
  finally show ?case by simp
next
  case (3 root sec p0 p _ name p')
  then have "length p' \<le> length (tl p)" by (auto dest: toml_header_length)
  also have "\<dots> < length p" using 3(2) by (cases p) simp_all
  also have "length p \<le> length p0" by (simp add: 3(1) length_dropWhile_le)
  finally show ?case by simp
next
  case (4 root sec p0 p _ key _ val p')
  then have "length p' < length p" by (auto dest: toml_pair_length)
  also have "length p \<le> length p0" by (simp add: 4(1) length_dropWhile_le)
  finally show ?case by simp
qed simp

declare navigate_toml_loop.simps [simp del] toml_keys.simps [simp del] toml_lines.simps [simp del]

section \<open>The configuration\<close>

record ConfigTOML =
  toml_root :: "TOMLNode option"
  toml_valid :: bool

definition parse_toml :: "ConfigTOML \<Rightarrow> rostr \<Rightarrow> ConfigTOML" where
  "parse_toml c text =
     (case text of
        None \<Rightarrow> c\<lparr>toml_valid := False\<rparr>
      | Some t \<Rightarrow>
          (case toml_lines (new_TOMLNode TOML_Table) [] (cstr_of t) of
             None \<Rightarrow> c\<lparr>toml_root := Some (new_TOMLNode TOML_Table), toml_valid := False\<rparr>
           | Some root \<Rightarrow> c\<lparr>toml_root := Some root, toml_valid := True\<rparr>))"

text \<open>The constructor; \<open>file\<close> is \<open>None\<close> for a null handle, else the bytes \<open>fread\<close> delivered.\<close>

definition new_ConfigTOML :: "char list option \<Rightarrow> ConfigTOML" where
  "new_ConfigTOML file =
     parse_toml \<lparr>toml_root = None, toml_valid = False\<rparr>
       (Some (case file of None \<Rightarrow> [] | Some raw \<Rightarrow> cstr_of raw))"

definition toml_Probe :: "ConfigTOML \<Rightarrow> bool" where
  "toml_Probe c = toml_valid c"

function traverse_toml_loop :: "TOMLNode \<Rightarrow> string \<Rightarrow> TOMLNode option" where
  "traverse_toml_loop cur p =
     (if p = [] then Some cur
      else let seg = segment toml_sep p; p' = after_segment toml_sep p in
        if ttype cur = TOML_Table
        then (case toml_findChild cur seg of
                None \<Rightarrow> None
              | Some child \<Rightarrow> traverse_toml_loop child p')
        else None)"
  by pat_completeness auto
termination
  by (relation "measure (\<lambda>(n, p). length p)") (auto simp: after_segment_less)

definition traverse_toml_path :: "TOMLNode option \<Rightarrow> rostr \<Rightarrow> TOMLNode option" where
  "traverse_toml_path root path =
     (case root of None \<Rightarrow> None | Some r \<Rightarrow>
       (case path of None \<Rightarrow> None | Some s \<Rightarrow>
          (let p = dropWhile toml_sep (cstr_of s) in
           if p = [] then Some r else traverse_toml_loop r p)))"

definition toml_get :: "ConfigTOML \<Rightarrow> rostr \<Rightarrow> string" where
  "toml_get c name =
     (if toml_root c = None \<or> name = None then []
      else case traverse_toml_path (toml_root c) name of
        None \<Rightarrow> []
      | Some node \<Rightarrow>
          (if ttype node = TOML_String \<or> ttype node = TOML_Number \<or> ttype node = TOML_Boolean
           then toml_str_val node else []))"

definition toml_getNumber :: "ConfigTOML \<Rightarrow> rostr \<Rightarrow> stdsint" where
  "toml_getNumber c name =
     (if toml_root c = None \<or> name = None then 0
      else case traverse_toml_path (toml_root c) name of
        None \<Rightarrow> 0
      | Some node \<Rightarrow>
          (if ttype node = TOML_Number then toml_num_val node
           else if ttype node = TOML_String then atoins (toml_str_val node)
           else if ttype node = TOML_Boolean then (if toml_bool_val node then 1 else 0)
           else 0))"

definition toml_leaf :: "string \<Rightarrow> TOMLNode \<Rightarrow> TOMLNode" where
  "toml_leaf val leaf = TOMLNode (ttype leaf) (cstr_of val) (atoins val) (toml_bool_val leaf)
     (toml_head leaf)"

definition toml_set_leaf :: "TOMLNode \<Rightarrow> string \<Rightarrow> string \<Rightarrow> TOMLNode" where
  "toml_set_leaf cur seg val =
     (let cur = (if ttype cur \<noteq> TOML_Table then toml_set_type TOML_Table (toml_clear cur) else cur)
      in case toml_findChild cur seg of
           None \<Rightarrow> toml_update_child seg (toml_leaf val) (toml_setValue cur seg (new_TOMLNode TOML_String))
         | Some leaf \<Rightarrow>
             toml_update_child seg (\<lambda>leaf. toml_leaf val (toml_set_type TOML_String (toml_clear leaf))) cur)"

function toml_set_loop :: "TOMLNode \<Rightarrow> string \<Rightarrow> string \<Rightarrow> TOMLNode" where
  "toml_set_loop cur p val =
     (if p = [] then cur
      else let seg = segment toml_sep p; p' = after_segment toml_sep p in
        if p' = [] then toml_set_leaf cur seg val
        else toml_update_child seg (\<lambda>child. toml_set_loop child p' val) (toml_getOrCreateTable cur seg))"
  by pat_completeness auto
termination
  by (relation "measure (\<lambda>(n, p, v). length p)") (auto simp: after_segment_less)

definition toml_set :: "ConfigTOML \<Rightarrow> rostr \<Rightarrow> rostr \<Rightarrow> ConfigTOML \<times> bool" where
  "toml_set c name val =
     (case name of None \<Rightarrow> (c, False) | Some nm \<Rightarrow>
       (case val of None \<Rightarrow> (c, False) | Some v \<Rightarrow>
          (let root = (case toml_root c of None \<Rightarrow> new_TOMLNode TOML_Table | Some r \<Rightarrow> r);
               c = c\<lparr>toml_root := Some root\<rparr>;
               p = dropWhile toml_sep (cstr_of nm)
           in if p = [] then (c, False)
              else (c\<lparr>toml_root := Some (toml_set_loop root p v)\<rparr>, True))))"

declare traverse_toml_loop.simps [simp del] toml_set_loop.simps [simp del]

section \<open>The tree operations and the interface\<close>

lemmas toml_node_defs = toml_findChild_def toml_set_head_def toml_update_child_def
  toml_getOrCreateTable_def toml_setValue_def toml_set_type_def toml_clear_def new_TOMLNode_def
  toml_set_leaf_def toml_leaf_def

definition toml_value_of :: "TOMLNode \<Rightarrow> string" where
  "toml_value_of node =
     (if ttype node = TOML_String \<or> ttype node = TOML_Number \<or> ttype node = TOML_Boolean
      then toml_str_val node else [])"

definition toml_number_of :: "TOMLNode \<Rightarrow> stdsint" where
  "toml_number_of node =
     (if ttype node = TOML_Number then toml_num_val node
      else if ttype node = TOML_String then atoins (toml_str_val node)
      else if ttype node = TOML_Boolean then (if toml_bool_val node then 1 else 0)
      else 0)"

interpretation toml_tree: config_tree toml_findChild toml_getOrCreateTable toml_update_child
  toml_set_leaf "\<lambda>l v. toml_value_of l = cstr_of v \<and> toml_number_of l = atoins v"
proof (unfold_locales, goal_cases)
  case (1 k f n)
  show ?case by (auto simp: toml_node_defs Let_def tree_simps)
next
  case (2 k k' f n)
  then show ?case by (auto simp: toml_node_defs Let_def tree_simps)
next
  case (3 n k)
  show ?case
    by (auto simp: toml_node_defs Let_def tree_simps fun_eq_iff split: option.splits)
next
  case (4 k k' n)
  then show ?case
    by (auto simp: toml_node_defs Let_def tree_simps split: option.splits)
next
  case (5 n k v)
  show ?case
    by (auto simp: toml_node_defs toml_value_of_def toml_number_of_def Let_def tree_simps
        split: option.splits)
next
  case (6 k k' n v)
  then show ?case
    by (auto simp: toml_node_defs Let_def tree_simps split: option.splits)
qed

interpretation toml_sections: section_tree toml_findChild toml_getOrCreateTable toml_update_child
  toml_setValue "\<lambda>n. ttype n = TOML_Table"
proof (unfold_locales, goal_cases)
  case (2 n k f g)
  then have "kv_update k f (toml_head n) = kv_update k g (toml_head n)"
    by (intro kv_update_cong) (simp add: toml_findChild_def)
  then show ?case by (simp add: toml_update_child_def)
next
  case (7 n k)
  show ?case by (auto simp: toml_node_defs Let_def tree_simps split: option.splits)
next
  case (8 n k c)
  then show ?case by (auto simp: toml_getOrCreateTable_def toml_findChild_def Let_def)
qed (auto simp: toml_node_defs Let_def tree_simps kv_update_update kv_update_id split: option.splits)

lemma navigate_toml_loop_ensure:
  "navigate_toml_loop cur p = tree_ensure toml_getOrCreateTable toml_update_child cur (toml_keys p)"
proof (induction cur p rule: navigate_toml_loop.induct)
  case (1 cur p)
  then show ?case
    by (cases "p = []")
       (auto simp: navigate_toml_loop.simps [of cur] toml_keys.simps [of p] toml_keys.simps [of "[]"]
          split: option.splits)
qed

definition toml_table_path :: "string \<Rightarrow> string list" where
  "toml_table_path path = toml_keys (dropWhile toml_sep (cstr_of path))"

lemma navigate_toml_table_ensure:
  "navigate_toml_table root path =
     (tree_ensure toml_getOrCreateTable toml_update_child root (toml_table_path path), toml_table_path path)"
  by (simp add: navigate_toml_table_def navigate_toml_loop_ensure toml_table_path_def
      toml_keys.simps [of "[]"] Let_def)

lemma traverse_toml_loop_lookup:
  "traverse_toml_loop cur p = tree_lookup toml_findChild cur (segments toml_sep p)"
proof (induction cur p rule: traverse_toml_loop.induct)
  case (1 cur p)
  then show ?case
    by (cases "p = []")
       (auto simp: traverse_toml_loop.simps [of cur] segments_step toml_findChild_def Let_def
          split: option.splits)
qed

lemma toml_set_loop_store:
  "toml_set_loop cur p v = tree_store toml_getOrCreateTable toml_update_child toml_set_leaf
     cur (segments toml_sep p) v"
proof (induction cur p v rule: toml_set_loop.induct)
  case (1 cur p v)
  show ?case
  proof (cases "p = [] \<or> after_segment toml_sep p = []")
    case True
    then show ?thesis by (auto simp: toml_set_loop.simps [of cur p v] segments_step Let_def)
  next
    case False
    then have "segments toml_sep (after_segment toml_sep p) \<noteq> []" by simp
    then show ?thesis using False 1
      by (auto simp: toml_set_loop.simps [of cur p v] segments_step [of p] Let_def tree_store_Cons)
  qed
qed

definition toml_tree_of :: "ConfigTOML \<Rightarrow> TOMLNode" where
  "toml_tree_of c = (case toml_root c of None \<Rightarrow> new_TOMLNode TOML_Table | Some r \<Rightarrow> r)"

lemma new_TOMLNode_vals [simp]:
  "ttype (new_TOMLNode b) = b" "toml_str_val (new_TOMLNode b) = []" "toml_num_val (new_TOMLNode b) = 0"
  by (simp_all add: new_TOMLNode_def)

lemma toml_lookup_new:
  "tree_lookup toml_findChild (new_TOMLNode TOML_Table) ss = (if ss = [] then Some (new_TOMLNode TOML_Table) else None)"
  by (cases ss) (auto simp: toml_findChild_def new_TOMLNode_def)

lemma traverse_toml_path_lookup:
  "traverse_toml_path (Some r) (Some s) = tree_lookup toml_findChild r (name_segments toml_sep s)"
  by (cases "dropWhile toml_sep (cstr_of s)")
     (simp_all add: traverse_toml_path_def traverse_toml_loop_lookup name_segments_def Let_def)

lemma toml_get_lookup:
  "toml_get c (Some name) =
     (case tree_lookup toml_findChild (toml_tree_of c) (name_segments toml_sep name) of
        None \<Rightarrow> [] | Some n \<Rightarrow> toml_value_of n)"
  by (cases "toml_root c")
     (auto simp: toml_get_def toml_tree_of_def toml_value_of_def traverse_toml_path_lookup toml_lookup_new split: option.splits)

lemma toml_getNumber_lookup:
  "toml_getNumber c (Some name) =
     (case tree_lookup toml_findChild (toml_tree_of c) (name_segments toml_sep name) of
        None \<Rightarrow> 0 | Some n \<Rightarrow> toml_number_of n)"
  by (cases "toml_root c")
     (auto simp: toml_getNumber_def toml_tree_of_def toml_number_of_def traverse_toml_path_lookup toml_lookup_new split: option.splits)

lemma toml_set_store:
  "toml_set c (Some name) (Some v) =
     (c\<lparr>toml_root := Some (tree_store toml_getOrCreateTable toml_update_child toml_set_leaf
          (toml_tree_of c) (name_segments toml_sep name) v)\<rparr>,
      name_segments toml_sep name \<noteq> [])"
  by (cases "dropWhile toml_sep (cstr_of name)")
     (simp_all add: toml_set_def toml_set_loop_store toml_tree_of_def name_segments_def Let_def)

lemma toml_tree_of_set [simp]: "toml_tree_of (c\<lparr>toml_root := Some r\<rparr>) = r"
  by (simp add: toml_tree_of_def)

interpretation toml_config: config_text "\<lambda>_. name_segments toml_sep"
  "\<lambda>c name v. toml_set c (Some name) (Some v)" "\<lambda>c name. toml_get c (Some name)"
  "\<lambda>c name. toml_getNumber c (Some name)"
proof (unfold_locales, goal_cases)
  case (3 c name q v)
  then show ?case
    using toml_tree.lookup_store_same [of "name_segments toml_sep name" "toml_tree_of c" v]
    by (auto simp: toml_set_store toml_get_lookup)
next
  case (4 c name q v)
  then show ?case
    using toml_tree.lookup_store_same [of "name_segments toml_sep name" "toml_tree_of c" v]
    by (auto simp: toml_set_store toml_getNumber_lookup)
next
  case (5 c name q v)
  then show ?case
    by (simp add: toml_set_store toml_get_lookup toml_tree.lookup_store_other NUL_free_names)
next
  case (6 c name q v)
  then show ?case
    by (simp add: toml_set_store toml_getNumber_lookup toml_tree.lookup_store_other NUL_free_names)
qed (simp_all add: toml_set_store)


end
