(* ===== verification/TOMLText.thy ===== *)
theory TOMLText
  imports ConfigTOML
begin

text \<open>
  The texts of TOML files as an inductive grammar (comments, bare and quoted keys, dotted table
  headers, both kinds of strings with escapes, booleans, integers) and the proof that the parser
  of \<open>src/lib/cpp/Format/ConfigText/TOML.cpp\<close> makes every value readable under its full name;
  the well-formedness invariant of the trees; the properties of the TOML component.
\<close>

section \<open>The grammar\<close>

datatype toml_value = TV_Str string | TV_Bool bool | TV_Num int

fun toml_node :: "toml_value \<Rightarrow> TOMLNode" where
  "toml_node (TV_Str s) = TOMLNode TOML_String s 0 False []"
| "toml_node (TV_Bool b) = TOMLNode TOML_Boolean (if b then ''true'' else ''false'') 0 b []"
| "toml_node (TV_Num i) = TOMLNode TOML_Number (decimal_int i) (of_int i) False []"

text \<open>What \<open>get\<close> and \<open>getNumber\<close> must return for a value.\<close>

fun toml_value_string :: "toml_value \<Rightarrow> string" where
  "toml_value_string (TV_Str s) = s"
| "toml_value_string (TV_Bool b) = (if b then ''true'' else ''false'')"
| "toml_value_string (TV_Num i) = decimal_int i"

fun toml_value_number :: "toml_value \<Rightarrow> stdsint" where
  "toml_value_number (TV_Str s) = atoins s"
| "toml_value_number (TV_Bool b) = (if b then 1 else 0)"
| "toml_value_number (TV_Num i) = of_int i"

text \<open>The escapes of basic strings, written out independently of the parser.\<close>

definition toml_escapes :: "(char \<times> char) set" where
  "toml_escapes = {(DQUOTE, DQUOTE), (BACKSLASH, BACKSLASH), (CHR ''n'', CHR 0x0A), (CHR ''t'', CHR 0x09),
     (CHR ''r'', CHR 0x0D)}"

inductive toml_chars :: "string \<Rightarrow> string \<Rightarrow> bool" where
  tchars_Nil: "toml_chars [] []"
| tchars_plain: "c \<notin> {DQUOTE, BACKSLASH, NUL} \<Longrightarrow> toml_chars s t \<Longrightarrow> toml_chars (c # s) (c # t)"
| tchars_escape: "(e, c) \<in> toml_escapes \<Longrightarrow> toml_chars s t \<Longrightarrow> toml_chars (c # s) (BACKSLASH # e # t)"

inductive toml_val_text :: "toml_value \<Rightarrow> string \<Rightarrow> bool" where
  tval_basic: "toml_chars s t \<Longrightarrow> toml_val_text (TV_Str s) (DQUOTE # t @ [DQUOTE])"
| tval_literal: "SQUOTE \<notin> set s \<Longrightarrow> NUL \<notin> set s \<Longrightarrow> toml_val_text (TV_Str s) (SQUOTE # s @ [SQUOTE])"
| tval_true: "toml_val_text (TV_Bool True) ''true''"
| tval_false: "toml_val_text (TV_Bool False) ''false''"
| tval_num: "\<bar>i\<bar> < 10 ^ 20 \<Longrightarrow> toml_val_text (TV_Num i) (decimal_int i)"

definition toml_bare_key :: "string \<Rightarrow> bool" where
  "toml_bare_key key \<longleftrightarrow> key_segment toml_sep key \<and> (\<forall>c \<in> set key. toml_bare c) \<and>
     hd key \<notin> {CHR ''['', DQUOTE, SQUOTE}"

inductive toml_key_text :: "string \<Rightarrow> string \<Rightarrow> bool" where
  tkey_bare: "toml_bare_key key \<Longrightarrow> toml_key_text key key"
| tkey_quoted: "\<lbrakk>q \<in> {DQUOTE, SQUOTE}; key_segment toml_sep key; \<forall>c \<in> set key. c \<notin> {q, BACKSLASH}\<rbrakk> \<Longrightarrow>
     toml_key_text key (q # key @ [q])"

definition toml_blanks :: "string \<Rightarrow> bool" where
  "toml_blanks w \<longleftrightarrow> (\<forall>c \<in> set w. toml_blank c)"

fun toml_dotted :: "string list \<Rightarrow> string" where
  "toml_dotted [] = []"
| "toml_dotted [k] = k"
| "toml_dotted (k # l # ks) = k @ CHR ''.'' # toml_dotted (l # ks)"

text \<open>
  \<open>toml_text table t as\<close>: in the table at path \<open>table\<close>, the text \<open>t\<close> gives the values \<open>as\<close> at
  their full paths, in this order. Every header is followed by a pair of its table before the
  next one.
\<close>

inductive toml_text :: "string list \<Rightarrow> string \<Rightarrow> (string list \<times> toml_value) list \<Rightarrow> bool" where
  toml_end: "toml_text table [] []"
| toml_space: "toml_ws c \<Longrightarrow> toml_text table t as \<Longrightarrow> toml_text table (c # t) as"
| toml_comment: "\<lbrakk>LF \<notin> set cm; NUL \<notin> set cm; toml_text table t as\<rbrakk> \<Longrightarrow>
     toml_text table (CHR ''#'' # cm @ LF # t) as"
| toml_head: "\<lbrakk>toml_blanks w; ks \<noteq> []; \<forall>k \<in> set ks. toml_bare_key k; length (toml_dotted ks) \<le> 511;
     toml_text ks t ((ks @ [key], v) # as)\<rbrakk> \<Longrightarrow>
     toml_text table (CHR ''['' # w @ toml_dotted ks @ CHR '']'' # t) ((ks @ [key], v) # as)"
| toml_assign: "\<lbrakk>toml_key_text key kt; toml_blanks w1; toml_blanks w2; toml_val_text v vt; toml_blanks w3;
     r = [] \<or> hd r = CHR ''#''; LF \<notin> set r; NUL \<notin> set r; toml_text table t as\<rbrakk> \<Longrightarrow>
     toml_text table (kt @ w1 @ CHR ''='' # w2 @ vt @ w3 @ r @ LF # t) ((table @ [key], v) # as)"

section \<open>Reading keys and values\<close>

lemma skip_toml_blanks:
  "toml_blanks w \<Longrightarrow> skip_toml_inline_spaces (w @ p) = skip_toml_inline_spaces p"
  by (simp add: skip_toml_inline_spaces_def toml_blanks_def dropWhile_skip)

lemma skip_toml_nonblank:
  "\<not> toml_blank (deref p) \<Longrightarrow> skip_toml_inline_spaces p = p"
  by (cases p) (simp_all add: skip_toml_inline_spaces_def)

lemma toml_bare_not:
  "toml_bare c \<Longrightarrow> \<not> toml_blank c" "toml_bare c \<Longrightarrow> \<not> toml_ws c" "toml_bare c \<Longrightarrow> c \<noteq> CHR ''#''"
  unfolding toml_blank_def toml_ws_def
  by (safe; simp add: toml_bare_def char_val_def)+

lemma toml_key_loop_plain:
  assumes "\<forall>c \<in> set key. c \<notin> {q, BACKSLASH}" and "length (buf @ key) \<le> 255"
  shows "toml_key_loop q buf (key @ q # p) = Some (buf @ key, p)"
  using assms by (induction key arbitrary: buf) auto

lemma parse_toml_key_text:
  assumes "toml_key_text key kt" and "\<not> toml_bare (deref p)"
  shows "parse_toml_key (kt @ p) = Some (key, p)"
  using assms
proof cases
  case tkey_bare
  then obtain c key' where key: "key = c # key'" "toml_bare c" "c \<notin> {DQUOTE, SQUOTE}" "length key \<le> 255"
    by (cases key) (auto simp: toml_bare_key_def key_segment_def seg_limit_def)
  have bare: "\<forall>c \<in> set key. toml_bare c" using tkey_bare by (simp add: toml_bare_key_def)
  have tw: "takeWhile toml_bare (key @ p) = key" "dropWhile toml_bare (key @ p) = p"
    using bare assms(2) takeWhile_append2 [of key toml_bare p] dropWhile_append2 [of key toml_bare p]
    by (cases p; simp)+
  have "skip_toml_inline_spaces (key @ p) = key @ p"
    using key by (intro skip_toml_nonblank) (simp add: toml_bare_not)
  with tw key tkey_bare show ?thesis
    by (simp add: parse_toml_key_def Let_def del: takeWhile_eq_all_conv)
next
  case (tkey_quoted q)
  have "skip_toml_inline_spaces (q # key @ q # p) = q # key @ q # p"
    using tkey_quoted(2) by (intro skip_toml_nonblank) (auto simp: toml_blank_def)
  then show ?thesis
    using tkey_quoted toml_key_loop_plain [of key q "[]" p]
    by (auto simp: parse_toml_key_def key_segment_def seg_limit_def)
qed

lemma toml_unescape_escapes:
  "(e, c) \<in> toml_escapes \<Longrightarrow> toml_unescape e = c \<and> e \<noteq> NUL \<and> c \<noteq> NUL"
  by (auto simp: toml_escapes_def toml_unescape_def)

lemma toml_string_loop_basic:
  "toml_chars s t \<Longrightarrow> toml_string_loop DQUOTE str buf (t @ DQUOTE # p) = Some (str @ buf @ s, p)"
proof (induction s t arbitrary: str buf rule: toml_chars.induct)
  case (tchars_plain c s t)
  then show ?case by (auto split: prod.splits dest!: buf_flush_append)
next
  case (tchars_escape e c s t)
  then show ?case
    using toml_unescape_escapes [OF tchars_escape(1)] by (auto split: prod.splits dest!: buf_flush_append)
qed simp

lemma toml_string_loop_literal:
  "SQUOTE \<notin> set s \<Longrightarrow> toml_string_loop SQUOTE str buf (s @ SQUOTE # p) = Some (str @ buf @ s, p)"
  by (induction s arbitrary: str buf) (auto split: prod.splits dest!: buf_flush_append)

lemma toml_number_decimal:
  assumes "\<bar>i\<bar> < 10 ^ 20" and "\<not> dec_digit (deref rest)"
  shows "toml_number (decimal_int i @ rest) = (toml_node (TV_Num i), rest)"
proof -
  let ?s = "decimal_int i @ rest"
  have "dropWhile dec_digit (if deref ?s = CHR ''+'' \<or> deref ?s = CHR ''-'' then tl ?s else ?s) = rest"
  proof (cases "i < 0")
    case False
    then have "deref ?s \<noteq> CHR ''-''" "deref ?s \<noteq> CHR ''+''"
      using deref_decimal [of "nat i"] decimal_not_Nil [of "nat i"]
      by (cases "decimal (nat i)"; auto simp: decimal_int_def)+
    with False assms(2) show ?thesis by (simp add: decimal_int_def dropWhile_decimal)
  qed (simp add: decimal_int_def dropWhile_decimal assms(2))
  moreover have "take (length ?s - length rest) ?s = decimal_int i" by simp
  ultimately show ?thesis
    using length_decimal_int [OF assms(1)] atoins_decimal_int [OF assms(1)]
    by (simp add: toml_number_def Let_def)
qed

lemma dec_digit_not_toml: "dec_digit c \<Longrightarrow> c \<notin> {DQUOTE, SQUOTE, CHR ''t'', CHR ''f'', CHR '' '', TAB, NUL}"
  by (intro notI) (auto simp: dec_digit_def char_val_def)

lemma parse_toml_value_text:
  assumes "toml_val_text v vt" and "toml_blanks w" and "\<not> dec_digit (deref p)"
  shows "parse_toml_value (w @ vt @ p) = Some (toml_node v, p)"
  using assms(1)
proof cases
  case (tval_basic s t)
  have "skip_toml_inline_spaces (w @ vt @ p) = DQUOTE # t @ DQUOTE # p"
    using tval_basic by (simp add: skip_toml_blanks [OF assms(2)] skip_toml_nonblank toml_blank_def)
  with toml_string_loop_basic [OF tval_basic(3), of "[]" "[]" p] tval_basic(1) show ?thesis
    by (simp add: parse_toml_value_def)
next
  case (tval_literal s)
  have "skip_toml_inline_spaces (w @ vt @ p) = SQUOTE # s @ SQUOTE # p"
    using tval_literal by (simp add: skip_toml_blanks [OF assms(2)] skip_toml_nonblank toml_blank_def)
  with toml_string_loop_literal [OF tval_literal(3), of "[]" "[]" p] tval_literal(1) show ?thesis
    by (simp add: parse_toml_value_def)
next
  case tval_true
  have "skip_toml_inline_spaces (w @ vt @ p) = ''true'' @ p"
    using tval_true by (simp add: skip_toml_blanks [OF assms(2)] skip_toml_nonblank toml_blank_def)
  moreover have "StrCompareN (''true'' @ p) ''true'' 4 = 0"
    using StrCompareN_prefix [of "''true''" p] by (simp add: eval_nat_numeral)
  ultimately show ?thesis using tval_true(1) by (simp add: parse_toml_value_def)
next
  case tval_false
  have "skip_toml_inline_spaces (w @ vt @ p) = ''false'' @ p"
    using tval_false by (simp add: skip_toml_blanks [OF assms(2)] skip_toml_nonblank toml_blank_def)
  moreover have "StrCompareN (''false'' @ p) ''false'' 5 = 0"
    using StrCompareN_prefix [of "''false''" p] by (simp add: eval_nat_numeral)
  moreover have "StrCompareN (''false'' @ p) ''true'' 4 \<noteq> 0"
    by (rule StrCompareN_differ) simp_all
  ultimately show ?thesis using tval_false(1) by (simp add: parse_toml_value_def)
next
  case (tval_num i)
  let ?s = "decimal_int i @ p"
  have d: "deref ?s = CHR ''-'' \<or> dec_digit (deref ?s)" by (rule deref_decimal_int)
  then have nt: "deref ?s \<notin> {DQUOTE, SQUOTE, CHR ''t'', CHR ''f'', CHR '' '', TAB, NUL}"
    using dec_digit_not_toml by auto
  have "skip_toml_inline_spaces (w @ vt @ p) = ?s"
    using tval_num nt by (simp add: skip_toml_blanks [OF assms(2)] skip_toml_nonblank toml_blank_def)
  moreover have "?s \<noteq> []" using nt by auto
  moreover have "StrCompareN ?s ''true'' 4 \<noteq> 0" "StrCompareN ?s ''false'' 5 \<noteq> 0"
    using nt by (intro StrCompareN_differ; simp)+
  ultimately show ?thesis
    using d nt toml_number_decimal [OF tval_num(3) assms(3)] tval_num(1)
    by (auto simp: parse_toml_value_def Let_def)
qed

section \<open>Reading lines\<close>

lemma toml_bare_key_text: "toml_bare_key k \<Longrightarrow> parse_toml_key (k @ p) = Some (k, p)" if "\<not> toml_bare (deref p)"
  using parse_toml_key_text [OF tkey_bare that] by simp

lemma toml_bare_NUL: "\<not> toml_bare NUL" "\<not> toml_bare (CHR ''.'')"
  by (simp_all add: toml_bare_def char_val_def)

lemma toml_bare_key_not_Nil: "toml_bare_key k \<Longrightarrow> k \<noteq> []"
  by (simp add: toml_bare_key_def key_segment_def)

lemma toml_keys_dotted: "\<forall>k \<in> set ks. toml_bare_key k \<Longrightarrow> toml_keys (toml_dotted ks) = ks"
proof (induction ks rule: toml_dotted.induct)
  case (2 k)
  then show ?case
    using toml_bare_key_text [of "[]" k] toml_bare_key_not_Nil [of k]
    by (simp add: toml_bare_NUL toml_keys.simps [of k] toml_keys.simps [of "[]"] toml_after_key_def
        skip_toml_inline_spaces_def)
next
  case (3 k l ks)
  then have "parse_toml_key (toml_dotted (k # l # ks)) = Some (k, CHR ''.'' # toml_dotted (l # ks))"
    using toml_bare_key_text [of "CHR ''.'' # toml_dotted (l # ks)" k] by (simp add: toml_bare_NUL)
  moreover have "toml_after_key (CHR ''.'' # toml_dotted (l # ks)) = toml_dotted (l # ks)"
    by (simp add: toml_after_key_def skip_toml_inline_spaces_def toml_blank_def)
  ultimately show ?case
    using 3 toml_bare_key_not_Nil [of k] by (subst toml_keys.simps) simp
qed (simp add: toml_keys.simps)

lemma toml_dotted_chars:
  "\<forall>k \<in> set ks. toml_bare_key k \<Longrightarrow> c \<in> set (toml_dotted ks) \<Longrightarrow> toml_bare c \<or> c = CHR ''.''"
  by (induction ks rule: toml_dotted.induct) (auto simp: toml_bare_key_def)

lemma toml_dotted_hd:
  "ks \<noteq> [] \<Longrightarrow> \<forall>k \<in> set ks. toml_bare_key k \<Longrightarrow> \<exists>c t. toml_dotted ks = c # t \<and> toml_bare c"
proof -
  assume "ks \<noteq> []" and bare: "\<forall>k \<in> set ks. toml_bare_key k"
  then obtain k ks' where ks: "ks = k # ks'" by (cases ks) auto
  with bare obtain c k' where "k = c # k'" "toml_bare c"
    by (cases k) (auto simp: toml_bare_key_def key_segment_def)
  then show ?thesis by (cases ks') (simp_all add: ks)
qed

lemma toml_dotted_NUL: "\<forall>k \<in> set ks. toml_bare_key k \<Longrightarrow> NUL \<notin> set (toml_dotted ks)"
  using toml_dotted_chars toml_bare_NUL by fastforce

lemma toml_table_path_dotted:
  assumes "\<forall>k \<in> set ks. toml_bare_key k" and "ks \<noteq> []"
  shows "toml_table_path (toml_dotted ks) = ks"
proof -
  obtain c t where c: "toml_dotted ks = c # t" "toml_bare c" using toml_dotted_hd [OF assms(2,1)] by blast
  then have "dropWhile toml_sep (toml_dotted ks) = toml_dotted ks"
    by (auto simp: toml_sep_def toml_bare_def)
  then show ?thesis
    using assms by (simp add: toml_table_path_def toml_dotted_NUL toml_keys_dotted)
qed

lemma toml_header_text:
  assumes "toml_blanks w" "ks \<noteq> []" "\<forall>k \<in> set ks. toml_bare_key k" "length (toml_dotted ks) \<le> 511"
  shows "toml_header (w @ toml_dotted ks @ CHR '']'' # t) = Some (toml_dotted ks, t)"
proof -
  let ?P = "\<lambda>c. \<not> (c = CHR '']'' \<or> c = LF \<or> c = CR)"
  have "?P c" if "toml_bare c \<or> c = CHR ''.''" for c
    using that by (auto simp: toml_bare_def char_val_def)
  then have "\<forall>c \<in> set (toml_dotted ks). ?P c" using toml_dotted_chars [OF assms(3)] by blast
  then have "takeWhile ?P (toml_dotted ks @ CHR '']'' # t) = toml_dotted ks"
      "dropWhile ?P (toml_dotted ks @ CHR '']'' # t) = CHR '']'' # t"
    by (auto intro!: takeWhile_stop dropWhile_stop)
  moreover have "skip_toml_inline_spaces (w @ toml_dotted ks @ CHR '']'' # t) = toml_dotted ks @ CHR '']'' # t"
    using toml_dotted_hd [OF assms(2,3)] toml_bare_not(1)
    by (auto simp: skip_toml_blanks [OF assms(1)] intro!: skip_toml_nonblank)
  ultimately show ?thesis using assms(4) by (simp add: toml_header_def)
qed

lemma toml_rest_of_line_text:
  assumes "toml_blanks w" "r = [] \<or> hd r = CHR ''#''" "LF \<notin> set r"
  shows "toml_rest_of_line (w @ r @ LF # t) = t"
proof -
  have skip: "skip_toml_inline_spaces (w @ r @ LF # t) = r @ LF # t"
    using assms(2) by (cases r) (auto simp: skip_toml_blanks [OF assms(1)] skip_toml_nonblank toml_blank_def)
  have "dropWhile (\<lambda>c. c \<noteq> LF) (r @ LF # t) = LF # t"
    using assms(3) by (intro dropWhile_stop) auto
  then have "(if deref (r @ LF # t) = CHR ''#'' then dropWhile (\<lambda>c. c \<noteq> LF) (r @ LF # t) else r @ LF # t) = LF # t"
    using assms(2) by (cases r) auto
  with skip show ?thesis by (simp add: toml_rest_of_line_def)
qed

lemma toml_blanks_bare: "toml_blanks w \<Longrightarrow> \<not> toml_bare y \<Longrightarrow> \<not> toml_bare (deref (w @ y # p))"
  using toml_bare_not(1) by (cases w) (auto simp: toml_blanks_def)

lemma toml_blanks_digit: "toml_blanks w \<Longrightarrow> \<not> dec_digit y \<Longrightarrow> \<not> dec_digit (deref (w @ y # p))"
  using dec_digit_not_toml by (cases w) (fastforce simp: toml_blanks_def toml_blank_def)+

lemma toml_pair_text:
  assumes "toml_key_text key kt" "toml_blanks w1" "toml_blanks w2" "toml_val_text v vt" "toml_blanks w3"
    and r: "r = [] \<or> hd r = CHR ''#''" "LF \<notin> set r"
  shows "toml_pair (kt @ w1 @ CHR ''='' # w2 @ vt @ w3 @ r @ LF # t) = Some (key, toml_node v, t)"
proof -
  have "\<not> toml_bare (CHR ''='')" by (simp add: toml_bare_def)
  then have "parse_toml_key (kt @ w1 @ CHR ''='' # w2 @ vt @ w3 @ r @ LF # t) =
      Some (key, w1 @ CHR ''='' # w2 @ vt @ w3 @ r @ LF # t)"
    using toml_blanks_bare [OF assms(2)] by (intro parse_toml_key_text assms(1)) blast
  moreover have "skip_toml_inline_spaces (w1 @ CHR ''='' # w2 @ vt @ w3 @ r @ LF # t) =
      CHR ''='' # w2 @ vt @ w3 @ r @ LF # t"
    by (simp add: skip_toml_blanks [OF assms(2)] skip_toml_nonblank toml_blank_def)
  moreover have "\<not> dec_digit (deref (w3 @ r @ LF # t))"
    using r(1) toml_blanks_digit [OF assms(5), of LF t] toml_blanks_digit [OF assms(5), of "CHR ''#''"]
    by (cases r) (auto simp: dec_digit_def char_val_def)
  ultimately show ?thesis
    using parse_toml_value_text [OF assms(4,3)] toml_rest_of_line_text [OF assms(5) r, of t]
    by (simp add: toml_pair_def)
qed

section \<open>Reading a file\<close>

abbreviation "toml_put \<equiv> tree_store toml_getOrCreateTable toml_update_child toml_setValue"

abbreviation "toml_open \<equiv> is_open toml_findChild (\<lambda>n. ttype n = TOML_Table)"

definition toml_puts :: "TOMLNode \<Rightarrow> (string list \<times> toml_value) list \<Rightarrow> TOMLNode" where
  "toml_puts root as = tree_stores toml_put root (map (\<lambda>(path, v). (path, toml_node v)) as)"

lemma toml_puts_simps [simp]:
  "toml_puts root [] = root"
  "toml_puts root ((path, v) # as) = toml_puts (toml_put root path (toml_node v)) as"
  by (simp_all add: toml_puts_def)

lemma toml_key_text_first:
  assumes "toml_key_text key kt"
  shows "kt \<noteq> []" "\<not> toml_ws (deref (kt @ p))" "deref (kt @ p) \<notin> {CHR ''#'', CHR ''[''}"
proof -
  have "kt \<noteq> [] \<and> \<not> toml_ws (deref (kt @ p)) \<and> deref (kt @ p) \<notin> {CHR ''#'', CHR ''[''}"
    using assms
  proof cases
    case tkey_bare
    then obtain c key' where "key = c # key'" "toml_bare c" "c \<noteq> CHR ''[''"
      by (cases key) (auto simp: toml_bare_key_def key_segment_def)
    with tkey_bare show ?thesis using toml_bare_not [of c] by simp
  qed (auto simp: toml_ws_def)
  then show "kt \<noteq> []" "\<not> toml_ws (deref (kt @ p))" "deref (kt @ p) \<notin> {CHR ''#'', CHR ''[''}" by auto
qed

lemma dropWhile_deref: "\<not> P (deref p) \<Longrightarrow> dropWhile P p = p"
  by (cases p) simp_all

lemma toml_text_parse:
  "toml_text table t as \<Longrightarrow> toml_open root table \<Longrightarrow> toml_lines root table t = Some (toml_puts root as)"
proof (induction table t as arbitrary: root rule: toml_text.induct)
  case (toml_end table)
  show ?case by (simp add: toml_lines.simps)
next
  case (toml_space c table t as)
  then have "toml_lines root table t = Some (toml_puts root as)" by simp
  then show ?case
    using toml_space.hyps(1) by (simp add: toml_lines.simps [of root _ "c # t"] toml_lines.simps [of root _ t])
next
  case (toml_comment cm table t as)
  have "dropWhile (\<lambda>c. c \<noteq> LF) (cm @ LF # t) = LF # t"
    using toml_comment.hyps(1) by (intro dropWhile_stop) auto
  moreover have "toml_lines root table (LF # t) = toml_lines root table t"
    by (simp add: toml_lines.simps [of root _ "LF # t"] toml_lines.simps [of root _ t] toml_ws_def)
  ultimately show ?case
    using toml_comment by (subst toml_lines.simps) (simp add: toml_ws_def)
next
  case (toml_head w ks t key v as table)
  let ?root = "tree_ensure toml_getOrCreateTable toml_update_child root ks"
  have sec: "ttype root = TOML_Table" using toml_head.prems by (rule toml_sections.is_open_sec)
  have "toml_lines root table (CHR ''['' # w @ toml_dotted ks @ CHR '']'' # t) = toml_lines ?root ks t"
    using toml_header_text [OF toml_head.hyps(1-4), of t] toml_table_path_dotted [OF toml_head.hyps(3,2)]
    by (subst toml_lines.simps) (simp add: toml_ws_def navigate_toml_table_ensure)
  also have "\<dots> = Some (toml_puts ?root ((ks @ [key], v) # as))"
    using sec by (intro toml_head.IH toml_sections.is_open_ensure)
  finally show ?case using toml_sections.store_ensure [OF sec] by simp
next
  case (toml_assign key kt w1 w2 v vt w3 r table t as)
  let ?p = "kt @ w1 @ CHR ''='' # w2 @ vt @ w3 @ r @ LF # t"
  let ?root = "toml_put root (table @ [key]) (toml_node v)"
  note first = toml_key_text_first [OF toml_assign.hyps(1)]
  have at: "tree_at toml_update_child table (\<lambda>s. toml_setValue s key (toml_node v)) root = ?root"
    using toml_assign.prems by (rule toml_sections.at_open)
  have "dropWhile toml_ws ?p = ?p" using first(2) by (rule dropWhile_deref)
  then have "toml_lines root table ?p = toml_lines ?root table t"
    using first toml_pair_text [OF toml_assign.hyps(1-7), of t] at
    by (subst toml_lines.simps) (auto simp: Let_def)
  also have "\<dots> = Some (toml_puts ?root as)"
    using toml_assign.prems toml_sections.is_open_sec
    by (intro toml_assign.IH toml_sections.is_open_store) auto
  finally show ?case by simp
qed

text \<open>The values are found under their paths.\<close>

definition toml_place :: "TOMLNode \<Rightarrow> string \<Rightarrow> TOMLNode \<Rightarrow> TOMLNode" where
  "toml_place n k x =
     toml_setValue (if ttype n \<noteq> TOML_Table then toml_set_type TOML_Table (toml_clear n) else n) k x"

interpretation toml_values: config_tree toml_findChild toml_getOrCreateTable toml_update_child
  toml_place "(=)"
proof (unfold_locales, goal_cases)
  case (5 n k v)
  show ?case by (auto simp: toml_place_def toml_node_defs tree_simps split: option.splits)
next
  case (6 k k' n v)
  then show ?case by (auto simp: toml_place_def toml_node_defs tree_simps split: option.splits)
qed (simp_all add: toml_tree.find_upd_same toml_tree.find_upd_other toml_tree.find_ensure_same
      toml_tree.find_ensure_other)

lemma toml_put_place:
  "ttype n = TOML_Table \<Longrightarrow> path \<noteq> [] \<Longrightarrow>
   tree_store toml_getOrCreateTable toml_update_child toml_place n path x = toml_put n path x"
  by (rule toml_sections.store_cong [where mk = "\<lambda>x. x"]) (simp_all add: toml_place_def)

lemma toml_put_table:
  assumes "ttype n = TOML_Table"
  shows "ttype (toml_put n path x) = TOML_Table"
  by (induction path rule: induct_list012)
     (simp_all add: assms toml_sections.sec_upd toml_sections.ensure_sec toml_sections.sec_setv)

lemma toml_puts_place:
  assumes "ttype n = TOML_Table" and "\<forall>(path, v) \<in> set as. path \<noteq> []"
  shows "toml_puts n as = tree_stores (tree_store toml_getOrCreateTable toml_update_child toml_place) n
    (map (\<lambda>(path, v). (path, toml_node v)) as)"
  using assms
proof (induction as arbitrary: n)
  case (Cons a as)
  then show ?case by (cases a) (simp add: toml_put_place toml_put_table)
qed (simp add: toml_puts_def)

lemma toml_text_paths:
  "toml_text table t as \<Longrightarrow> \<forall>k \<in> set table. NUL \<notin> set k \<Longrightarrow>
   \<forall>(path, v) \<in> set as. path \<noteq> [] \<and> (\<forall>k \<in> set path. NUL \<notin> set k)"
proof (induction rule: toml_text.induct)
  case (toml_head w ks t key v as table)
  then have "\<forall>k \<in> set ks. NUL \<notin> set k" by (auto simp: toml_bare_key_def key_segment_def)
  then show ?case by (rule toml_head.IH)
next
  case (toml_assign key kt w1 w2 v vt w3 r table t as)
  from toml_assign.hyps(1) have "NUL \<notin> set key"
    by cases (auto simp: toml_bare_key_def key_segment_def)
  with toml_assign show ?case by auto
qed simp_all

lemma toml_value_node:
  "toml_value_of (toml_node v) = toml_value_string v" "toml_number_of (toml_node v) = toml_value_number v"
  by (cases v; simp add: toml_value_of_def toml_number_of_def)+

lemma NUL_free_toml_val_text: "toml_val_text v vt \<Longrightarrow> NUL \<notin> set vt"
proof (induction rule: toml_val_text.induct)
  case (tval_basic s t)
  then have "NUL \<notin> set t" by (induction rule: toml_chars.induct) (auto dest: toml_unescape_escapes)
  then show ?case by simp
qed (simp_all add: NUL_free_decimal_int)

lemma NUL_free_toml_blanks: "toml_blanks w \<Longrightarrow> NUL \<notin> set w"
  using bspec [of "set w" toml_blank NUL] by (force simp: toml_blanks_def toml_blank_def)

lemma NUL_free_key_segment: "key_segment sep key \<Longrightarrow> NUL \<notin> set key"
  by (auto simp: key_segment_def)

lemma NUL_free_toml_key_text:
  assumes "toml_key_text k kt"
  shows "NUL \<notin> set kt"
  using assms
proof cases
  case tkey_bare
  then show ?thesis using NUL_free_key_segment [of toml_sep k] by (simp add: toml_bare_key_def)
next
  case (tkey_quoted q)
  then have "q \<noteq> NUL" by auto
  with NUL_free_key_segment [OF tkey_quoted(3)] tkey_quoted(1) show ?thesis by simp
qed

lemma NUL_free_toml_text: "toml_text table t as \<Longrightarrow> NUL \<notin> set t"
proof (induction rule: toml_text.induct)
  case (toml_space c table t as)
  then show ?case by (auto simp: toml_ws_def)
qed (simp_all add: NUL_free_toml_blanks NUL_free_toml_val_text NUL_free_toml_key_text toml_dotted_NUL)

section \<open>Well-formed trees\<close>

text \<open>Only tables have pairs, one per key, and the keys are C strings.\<close>

fun toml_wf :: "TOMLNode \<Rightarrow> bool" where
  "toml_wf (TOMLNode t s i b kvs) \<longleftrightarrow> (t \<noteq> TOML_Table \<longrightarrow> kvs = []) \<and> kv_ok toml_wf kvs"

lemma toml_wf_iff:
  "toml_wf n \<longleftrightarrow> (ttype n \<noteq> TOML_Table \<longrightarrow> toml_head n = []) \<and> kv_ok toml_wf (toml_head n)"
  by (cases n) simp

lemma toml_wf_update_child:
  "toml_wf n \<Longrightarrow> (\<And>c. toml_wf c \<Longrightarrow> toml_wf (f c)) \<Longrightarrow> toml_wf (toml_update_child k f n)"
  by (auto simp: toml_wf_iff [of n] toml_wf_iff [of "toml_update_child k f n"] toml_update_child_def
      toml_set_head_def intro: kv_ok_update)

lemma toml_wf_new [simp]: "toml_wf (new_TOMLNode t)"
  by (simp add: new_TOMLNode_def)

definition toml_as_table :: "TOMLNode \<Rightarrow> TOMLNode" where
  "toml_as_table n = (if ttype n \<noteq> TOML_Table then toml_set_type TOML_Table (toml_clear n) else n)"

lemma toml_wf_as_table [simp]: "toml_wf n \<Longrightarrow> toml_wf (toml_as_table n)" "ttype (toml_as_table n) = TOML_Table"
  by (simp_all add: toml_as_table_def toml_set_type_def toml_clear_def)

lemma toml_wf_append:
  "toml_wf n \<Longrightarrow> ttype n = TOML_Table \<Longrightarrow> kv_find k (toml_head n) = None \<Longrightarrow> toml_wf c \<Longrightarrow>
   toml_wf (toml_set_head (toml_head n @ [(cstr_of k, c)]) n)"
  by (auto simp: toml_wf_iff [of n] toml_set_head_def intro: kv_ok_append)

lemma toml_wf_setValue: "toml_wf n \<Longrightarrow> ttype n = TOML_Table \<Longrightarrow> toml_wf c \<Longrightarrow> toml_wf (toml_setValue n k c)"
  by (auto simp: toml_setValue_def toml_wf_append toml_update_child_def [symmetric]
      split: option.splits intro: toml_wf_update_child)

lemma toml_wf_getOrCreateTable:
  assumes "toml_wf n"
  shows "toml_wf (toml_getOrCreateTable n k)"
proof -
  have sub: "toml_wf (toml_set_type TOML_Table (toml_clear c))" for c
    by (simp add: toml_set_type_def toml_clear_def)
  have "toml_wf (toml_as_table n)" "ttype (toml_as_table n) = TOML_Table"
    using assms by simp_all
  then show ?thesis
    unfolding toml_getOrCreateTable_def toml_as_table_def [symmetric] Let_def
    by (auto simp: toml_findChild_def sub split: option.splits intro!: toml_wf_update_child toml_wf_append)
qed

lemma toml_wf_set_leaf:
  assumes "toml_wf n"
  shows "toml_wf (toml_set_leaf n k v)"
proof -
  have leaf: "toml_wf c \<Longrightarrow> toml_wf (toml_leaf v c)" "toml_wf (toml_leaf v (toml_set_type TOML_String (toml_clear c)))" for c
    by (cases c; simp add: toml_leaf_def toml_set_type_def toml_clear_def)+
  have "toml_wf (toml_as_table n)" "ttype (toml_as_table n) = TOML_Table"
    using assms by simp_all
  then show ?thesis
    unfolding toml_set_leaf_def toml_as_table_def [symmetric] Let_def
    by (auto simp: leaf split: option.splits intro!: toml_wf_update_child toml_wf_setValue)
qed

lemma toml_wf_store:
  "toml_wf n \<Longrightarrow> toml_wf (tree_store toml_getOrCreateTable toml_update_child toml_set_leaf n ss v)"
  by (induction ss arbitrary: n rule: induct_list012)
     (auto intro!: toml_wf_set_leaf toml_wf_update_child toml_wf_getOrCreateTable)

lemma toml_wf_ensure:
  "toml_wf n \<Longrightarrow> toml_wf (tree_ensure toml_getOrCreateTable toml_update_child n ss)"
  by (induction ss arbitrary: n) (auto intro!: toml_wf_update_child toml_wf_getOrCreateTable)

lemma toml_wf_place: "toml_wf n \<Longrightarrow> toml_wf x \<Longrightarrow> toml_wf (toml_place n k x)"
  unfolding toml_place_def toml_as_table_def [symmetric] by (simp add: toml_wf_setValue)

lemma toml_wf_put:
  assumes "toml_wf n" and "ttype n = TOML_Table" and "toml_wf x"
  shows "toml_wf (toml_put n (ss @ [k]) x)"
proof -
  have "toml_wf (tree_store toml_getOrCreateTable toml_update_child toml_place m qs x)" if "toml_wf m" for m qs
    using that by (induction qs arbitrary: m rule: induct_list012)
      (auto intro!: toml_wf_place assms(3) toml_wf_update_child toml_wf_getOrCreateTable)
  with toml_put_place [OF assms(2), of "ss @ [k]" x] assms(1) show ?thesis by (metis append_is_Nil_conv list.discI)
qed

lemma toml_pair_wf: "toml_pair p = Some (k, v, p') \<Longrightarrow> toml_wf v"
  by (auto simp: toml_pair_def parse_toml_value_def toml_number_def Let_def split: option.splits if_splits)

lemma toml_lines_wf:
  "toml_lines root ss p = Some r \<Longrightarrow> toml_wf root \<Longrightarrow> toml_open root ss \<Longrightarrow> toml_wf r"
proof (induction root ss p rule: toml_lines.induct)
  case (1 root ss p0)
  note sec = toml_sections.is_open_sec [OF "1.prems"(3)]
  have at: "tree_at toml_update_child ss (\<lambda>s. toml_setValue s k v) root = toml_put root (ss @ [k]) v" for k v
    using "1.prems"(3) by (rule toml_sections.at_open)
  have put: "toml_wf v \<Longrightarrow> toml_wf (toml_put root (ss @ [k]) v)"
      "toml_open (toml_put root (ss @ [k]) v) ss" for k v
    using "1.prems"(2) sec by (simp_all add: toml_wf_put toml_sections.is_open_store)
  show ?case
    using 1 put sec toml_pair_wf [of "dropWhile toml_ws p0"]
    by (auto simp: toml_lines.simps [of root ss p0] Let_def at navigate_toml_table_ensure toml_wf_ensure
        toml_sections.is_open_ensure split: if_splits option.splits)
qed

definition toml_config_wf :: "ConfigTOML \<Rightarrow> bool" where
  "toml_config_wf c \<longleftrightarrow> (case toml_root c of None \<Rightarrow> \<not> toml_valid c | Some r \<Rightarrow> toml_wf r)"

lemma toml_config_wf_new: "toml_config_wf (new_ConfigTOML file)"
  by (auto simp: toml_config_wf_def new_ConfigTOML_def parse_toml_def split: option.splits
      dest: toml_lines_wf)

lemma toml_config_wf_set: "toml_config_wf c \<Longrightarrow> toml_config_wf (fst (toml_set c name v))"
  by (auto simp: toml_config_wf_def toml_set_def Let_def toml_set_loop_store toml_wf_store split: option.splits)

section \<open>Properties\<close>

text \<open>
  C3. Every TOML file of the grammar is accepted, and each of its values is readable under
  its full name: \<open>get\<close> returns its text (strings unescaped) and \<open>getNumber\<close> its number, for
  the last assignment to the path, if what follows it lies neither above nor below it.
\<close>

theorem toml_parse_reads:
  assumes "toml_text [] t (earlier @ (path, v) # later)"
    and "\<forall>(p, u) \<in> set later. unrelated p path"
    and "name_segments toml_sep name = path"
  shows "let c = new_ConfigTOML (Some t) in
    toml_Probe c \<and> toml_get c (Some name) = toml_value_string v \<and> toml_getNumber c (Some name) = toml_value_number v"
proof -
  let ?as = "earlier @ (path, v) # later" and ?n = "new_TOMLNode TOML_Table"
  let ?nodes = "map (\<lambda>(path, v). (path, toml_node v))"
  let ?store = "tree_store toml_getOrCreateTable toml_update_child toml_place"
  have paths: "\<forall>(path, v) \<in> set ?as. path \<noteq> [] \<and> (\<forall>k \<in> set path. NUL \<notin> set k)"
    using toml_text_paths [OF assms(1)] by simp
  have "toml_lines ?n [] t = Some (toml_puts ?n ?as)"
    using toml_text_parse [OF assms(1), of ?n] by simp
  then have new: "new_ConfigTOML (Some t) = \<lparr>toml_root = Some (toml_puts ?n ?as), toml_valid = True\<rparr>"
    using NUL_free_toml_text [OF assms(1)] by (simp add: new_ConfigTOML_def parse_toml_def)
  have puts: "toml_puts ?n ?as = tree_stores ?store ?n (?nodes earlier @ (path, toml_node v) # ?nodes later)"
    using paths by (subst toml_puts_place) auto
  have "path \<noteq> []" "\<forall>k \<in> set path. NUL \<notin> set k"
    "\<forall>(p, v) \<in> set (?nodes later). unrelated p path \<and> (\<forall>k \<in> set p. NUL \<notin> set k)"
    using paths assms(2) by (simp, simp, fastforce)
  from toml_values.lookup_stores_last [OF this, of ?n "?nodes earlier" "toml_node v"]
  have "tree_lookup toml_findChild (toml_puts ?n ?as) path = Some (toml_node v)"
    by (simp only: puts) auto
  then show ?thesis
    by (simp add: new toml_Probe_def toml_get_lookup toml_getNumber_lookup toml_tree_of_def assms(3)
        toml_value_node)
qed

theorem toml_parse_reads_witness:
  "let c = new_ConfigTOML (Some (''[net.a]'' @ [LF] @ ''mtu = -15 #x'' @ [LF])) in
    toml_Probe c \<and> toml_get c (Some ''net/a/mtu'') = toml_value_string (TV_Num (- 15)) \<and>
    toml_getNumber c (Some ''net/a/mtu'') = toml_value_number (TV_Num (- 15))"
proof -
  note ev = toml_blanks_def toml_blank_def toml_bare_key_def key_segment_def seg_limit_def toml_sep_def
    toml_bare_def char_val_def toml_ws_def
  have dec: "decimal_int (- 15) = ''-15''" by code_simp
  have num: "toml_val_text (TV_Num (- 15)) ''-15''" using tval_num [of "- 15"] by (simp add: dec)
  have key: "toml_key_text ''mtu'' ''mtu''" by (rule tkey_bare) (simp add: ev)
  have "toml_text [''net'', ''a''] (''mtu'' @ '' '' @ CHR ''='' # '' '' @ ''-15'' @ '' '' @ ''#x'' @ LF # [])
      [([''net'', ''a''] @ [''mtu''], TV_Num (- 15))]"
    by (rule toml_assign [OF key _ _ num _ _ _ _ toml_end]) (simp_all add: ev)
  then have "toml_text [''net'', ''a''] (LF # (''mtu'' @ '' '' @ CHR ''='' # '' '' @ ''-15'' @ '' '' @ ''#x'' @ LF # []))
      [([''net'', ''a''] @ [''mtu''], TV_Num (- 15))]"
    by (intro toml_space) (simp_all add: ev)
  then have "toml_text [] (CHR ''['' # [] @ toml_dotted [''net'', ''a''] @ CHR '']'' #
      (LF # (''mtu'' @ '' '' @ CHR ''='' # '' '' @ ''-15'' @ '' '' @ ''#x'' @ LF # [])))
      [([''net'', ''a''] @ [''mtu''], TV_Num (- 15))]"
    by (intro toml_head) (simp_all add: ev)
  then have doc: "toml_text [] (''[net.a]'' @ [LF] @ ''mtu = -15 #x'' @ [LF])
      ([] @ ([''net'', ''a'', ''mtu''], TV_Num (- 15)) # [])" by simp
  show ?thesis
    by (rule toml_parse_reads [OF doc])
       (simp_all add: name_segments_def segments.simps segment_def after_segment_def seg_limit_def
          toml_sep_def cstr_of_def)
qed

text \<open>
  Every configuration the program can reach, from any file and by any calls of \<open>set\<close>, is a
  well-formed tree: a value has no children, and a table has one pair per key.
\<close>

lemma toml_wf_invariant: "toml_config_wf (set_all toml_set (new_ConfigTOML file) kvs)"
  by (rule set_all_invariant) (rule toml_config_wf_new, rule toml_config_wf_set)

text \<open>
  Reading is all or nothing: a file with a malformed line leaves the configuration of an
  empty file, marked invalid.
\<close>

lemma toml_rejected_is_empty:
  assumes "\<not> toml_Probe (new_ConfigTOML file)"
  shows "new_ConfigTOML file = (new_ConfigTOML None)\<lparr>toml_valid := False\<rparr>"
  using assms
  by (auto simp: toml_Probe_def new_ConfigTOML_def parse_toml_def cstr_of_def toml_lines.simps [of _ _ "[]"]
      split: option.splits)

lemma toml_rejected_is_empty_example:
  "new_ConfigTOML (Some ([CHR ''a'', CHR ''='', CHR ''1'', LF] @ ''[b'')) = (new_ConfigTOML None)\<lparr>toml_valid := False\<rparr>"
proof -
  have "\<not> toml_Probe (new_ConfigTOML (Some ([CHR ''a'', CHR ''='', CHR ''1'', LF] @ ''[b'')))"
    by (simp add: toml_Probe_def new_ConfigTOML_def parse_toml_def cstr_of_def toml_lines.simps toml_ws_def
        toml_blank_def toml_pair_def parse_toml_key_def parse_toml_value_def toml_header_def toml_number_def
        toml_rest_of_line_def skip_toml_inline_spaces_def toml_bare_def char_val_def dec_digit_def
        StrCompareN.simps Let_def)
  from toml_rejected_is_empty [OF this] show ?thesis by simp
qed

text \<open>
  The last assignment wins: after any sequence of \<open>set\<close> calls, \<open>get\<close> returns the value
  last written to a name and \<open>getNumber\<close> its conversion, if the names written after it neither
  lie above nor below it in the tree.
\<close>

lemma toml_last_write_wins:
  assumes "name_segments toml_sep name \<noteq> []"
    and "\<forall>(n, v) \<in> set later. unrelated (name_segments toml_sep n) (name_segments toml_sep name)"
  shows "let c' = set_all (\<lambda>c n v. toml_set c (Some n) (Some v)) c (earlier @ (name, val) # later) in
    toml_get c' (Some name) = cstr_of val \<and> toml_getNumber c' (Some name) = atoins val"
  using toml_config.read_set_all_last [OF assms] by (simp add: Let_def)

lemma toml_last_write_wins_example:
  "let c' = set_all (\<lambda>c n v. toml_set c (Some n) (Some v)) (new_ConfigTOML None)
      ([(''net'', ''x'')] @ (''net.mtu'', ''1500'') # [(''net/dev'', ''eth0'')]) in
    toml_get c' (Some ''net.mtu'') = cstr_of ''1500'' \<and> toml_getNumber c' (Some ''net.mtu'') = atoins ''1500''"
  by (rule toml_last_write_wins)
     (simp_all add: name_segments_def segments.simps segment_def after_segment_def seg_limit_def
        toml_sep_def cstr_of_def)

end
