(* ===== verification/ConfigXML.thy ===== *)
theory ConfigXML
  imports ConfigText
begin

text \<open>
  The XML configuration format, \<open>src/lib/cpp/Format/ConfigText/XML.cpp\<close>: the node type and its
  methods, the recursive element parser (attributes are skipped, closing tags are read but not
  compared) and the operations of the \<open>ConfigText\<close> interface. A name may start with the tag of
  the root, which is then stripped.
\<close>

section \<open>Nodes\<close>

datatype XMLNode = XMLNode (tag_name: string) (text_content: string) (xml_num_val: stdsint)
  (children_head: "(string \<times> XMLNode) list")

definition new_XMLNode :: "string \<Rightarrow> XMLNode" where
  "new_XMLNode tag = XMLNode (cstr_of tag) [] 0 []"

definition xml_set_children :: "(string \<times> XMLNode) list \<Rightarrow> XMLNode \<Rightarrow> XMLNode" where
  "xml_set_children kvs n = XMLNode (tag_name n) (text_content n) (xml_num_val n) kvs"

definition xml_findChild :: "XMLNode \<Rightarrow> string \<Rightarrow> XMLNode option" where
  "xml_findChild n key = kv_find key (children_head n)"

definition xml_addChild :: "XMLNode \<Rightarrow> string \<Rightarrow> XMLNode \<Rightarrow> XMLNode" where
  "xml_addChild n key child = xml_set_children (children_head n @ [(cstr_of key, child)]) n"

text \<open>The node after the call; the returned pointer is its first child with that key.\<close>

definition xml_getOrCreateChild :: "XMLNode \<Rightarrow> string \<Rightarrow> XMLNode" where
  "xml_getOrCreateChild n key =
     (case xml_findChild n key of
        Some existing \<Rightarrow> n
      | None \<Rightarrow> xml_set_children (children_head n @ [(cstr_of key, new_XMLNode key)]) n)"

definition xml_update_child :: "string \<Rightarrow> (XMLNode \<Rightarrow> XMLNode) \<Rightarrow> XMLNode \<Rightarrow> XMLNode" where
  "xml_update_child key f n = xml_set_children (kv_update key f (children_head n)) n"

section \<open>The parser\<close>

definition xml_ws :: "char \<Rightarrow> bool" where
  "xml_ws c \<longleftrightarrow> c = CHR '' '' \<or> c = TAB \<or> c = CR \<or> c = LF"

definition skip_xml_whitespace :: "string \<Rightarrow> string" where
  "skip_xml_whitespace p = dropWhile xml_ws p"

text \<open>The tests \<open>*p == .. && *(p + 1) == ..\<close>, and the loops that run to such a position.\<close>

definition xml_at :: "string \<Rightarrow> string \<Rightarrow> bool" where
  "xml_at pat p \<longleftrightarrow> take (length pat) p = pat"

fun xml_find :: "string \<Rightarrow> string \<Rightarrow> string" where
  "xml_find pat [] = []"
| "xml_find pat (c # p) = (if xml_at pat (c # p) then c # p else xml_find pat p)"

lemma xml_find_length: "length (xml_find pat p) \<le> length p"
  by (induction p) auto

lemma skip_xml_length: "length (skip_xml_whitespace p) \<le> length p"
  by (simp add: skip_xml_whitespace_def length_dropWhile_le)

lemma xml_at_Cons: "xml_at (c # pat) p \<Longrightarrow> p \<noteq> []"
  by (auto simp: xml_at_def)

function skip_xml_prolog_or_comment :: "string \<Rightarrow> string" where
  "skip_xml_prolog_or_comment p0 =
     (if p0 = [] then []
      else let p = skip_xml_whitespace p0 in
        if xml_at ''<?'' p then skip_xml_prolog_or_comment (drop 2 (xml_find ''?>'' (drop 2 p)))
        else if xml_at ''<!--'' p then skip_xml_prolog_or_comment (drop 3 (xml_find ''-->'' (drop 4 p)))
        else p)"
  by pat_completeness auto
termination
proof (relation "measure length", goal_cases)
  case (2 p0 p)
  have "length (drop 2 (xml_find ''?>'' (drop 2 p))) \<le> length (drop 2 p)"
    using xml_find_length [of "''?>''" "drop 2 p"] by simp
  also have "\<dots> < length p" using xml_at_Cons [OF 2(3)] by (cases p) simp_all
  also have "\<dots> \<le> length p0" by (simp add: 2 skip_xml_length)
  finally show ?case by simp
next
  case (3 p0 p)
  have "length (drop 3 (xml_find ''-->'' (drop 4 p))) \<le> length (drop 4 p)"
    using xml_find_length [of "''-->''" "drop 4 p"] by simp
  also have "\<dots> < length p" using xml_at_Cons [OF 3(4)] by (cases p) simp_all
  also have "\<dots> \<le> length p0" by (simp add: 3 skip_xml_length)
  finally show ?case by simp
qed simp

definition xml_tag_char :: "char \<Rightarrow> bool" where
  "xml_tag_char c \<longleftrightarrow> c \<noteq> CHR ''>'' \<and> c \<noteq> CHR ''/'' \<and> \<not> xml_ws c"

fun xml_skip_attrs :: "string \<Rightarrow> string" where
  "xml_skip_attrs [] = []"
| "xml_skip_attrs (c # p) =
     (if c \<noteq> CHR ''>'' \<and> \<not> xml_at ''/>'' (c # p) then xml_skip_attrs p else c # p)"

text \<open>
  The start of an element: its tag, whether it closes itself, and the text after it; \<open>None\<close> for
  the failing returns.
\<close>

definition xml_start :: "string \<Rightarrow> (string \<times> bool \<times> string) option" where
  "xml_start p0 =
     (let p = skip_xml_whitespace p0 in
      if deref p \<noteq> CHR ''<'' \<or> deref (tl p) = CHR ''/'' \<or> deref (tl p) = CHR ''?'' \<or> deref (tl p) = CHR ''!''
      then None
      else let p1 = tl p;
               tag_buf = take 127 (takeWhile xml_tag_char p1);
               p2 = dropWhile xml_tag_char p1
           in if tag_buf = [] then None
              else let p3 = xml_skip_attrs p2
                   in if xml_at ''/>'' p3 then Some (tag_buf, True, drop 2 p3)
                      else if deref p3 = CHR ''>'' then Some (tag_buf, False, tl p3)
                      else None)"

text \<open>The closing tag is collected into \<open>close_tag\<close>, which nothing reads.\<close>

definition xml_close :: "string \<Rightarrow> string" where
  "xml_close p =
     (let p1 = drop 2 p;
          p2 = dropWhile (\<lambda>c. c \<noteq> CHR ''>'' \<and> \<not> xml_ws c) p1;
          p3 = dropWhile (\<lambda>c. c \<noteq> CHR ''>'') p2
      in if deref p3 = CHR ''>'' then tl p3 else p3)"

definition xml_trim :: "string \<Rightarrow> string" where
  "xml_trim buf = dropWhile xml_ws (rev (dropWhile xml_ws (rev buf)))"

definition xml_text_item :: "XMLNode \<Rightarrow> string \<Rightarrow> XMLNode" where
  "xml_text_item n raw =
     (let content = xml_trim (take 1023 raw)
      in if content = [] then n else XMLNode (tag_name n) content (atoins content) (children_head n))"

lemma xml_skip_attrs_length: "length (xml_skip_attrs p) \<le> length p"
  by (induction p) auto

lemma xml_start_length:
  assumes "xml_start p0 = Some (tag, b, p')"
  shows "length p' < length p0"
proof -
  let ?p = "skip_xml_whitespace p0"
  let ?p3 = "xml_skip_attrs (dropWhile xml_tag_char (tl ?p))"
  have "?p \<noteq> []" and p': "p' = drop 2 ?p3 \<or> p' = tl ?p3"
    using assms by (auto simp: xml_start_def Let_def split: if_splits)
  from p' have "length p' \<le> length ?p3" by auto
  also have "\<dots> \<le> length (dropWhile xml_tag_char (tl ?p))" by (rule xml_skip_attrs_length)
  also have "\<dots> \<le> length (tl ?p)" by (rule length_dropWhile_le)
  also have "\<dots> < length ?p" using \<open>?p \<noteq> []\<close> by simp
  also have "\<dots> \<le> length p0" by (rule skip_xml_length)
  finally show ?thesis .
qed

lemma xml_close_length:
  assumes "xml_at ''</'' p"
  shows "length (xml_close p) < length p"
proof -
  let ?p2 = "dropWhile (\<lambda>c. c \<noteq> CHR ''>'' \<and> \<not> xml_ws c) (drop 2 p)"
  have "length (xml_close p) \<le> length (dropWhile (\<lambda>c. c \<noteq> CHR ''>'') ?p2)"
    by (simp add: xml_close_def Let_def)
  also have "\<dots> \<le> length ?p2" by (rule length_dropWhile_le)
  also have "\<dots> \<le> length (drop 2 p)" by (rule length_dropWhile_le)
  also have "\<dots> < length p" using xml_at_Cons [OF assms] by (cases p) simp_all
  finally show ?thesis .
qed

lemma xml_comment_length:
  assumes "xml_at ''<!--'' p"
  shows "length (drop 3 (xml_find ''-->'' (drop 4 p))) < length p"
  using xml_at_Cons [OF assms] xml_find_length [of "''-->''" "drop 4 p"] by (cases p) auto

function (sequential)
  parse_xml_element :: "string \<Rightarrow> (XMLNode \<times> string) option" and
  xml_content :: "XMLNode \<Rightarrow> string \<Rightarrow> (XMLNode \<times> string) option"
where
  "parse_xml_element p0 =
     (case xml_start p0 of
        None \<Rightarrow> None
      | Some (tag_buf, self_closing, p) \<Rightarrow>
          if self_closing then Some (new_XMLNode tag_buf, p) else xml_content (new_XMLNode tag_buf) p)"
| "xml_content node p0 =
     (if p0 = [] then None
      else let p = skip_xml_whitespace p0 in
        if xml_at ''<!--'' p then xml_content node (drop 3 (xml_find ''-->'' (drop 4 p)))
        else if xml_at ''</'' p then Some (node, xml_close p)
        else if deref p = CHR ''<'' then
          (case parse_xml_element p of
             None \<Rightarrow> None
           | Some (child, p') \<Rightarrow> xml_content (xml_addChild node (tag_name child) child) p')
        else xml_content (xml_text_item node (takeWhile (\<lambda>c. c \<noteq> CHR ''<'') p))
               (dropWhile (\<lambda>c. c \<noteq> CHR ''<'') p))"
  by pat_completeness auto

abbreviation "xml_dom \<equiv> parse_xml_element_xml_content_dom"

lemma xml_parse_length:
  "xml_dom (Inl p) \<Longrightarrow> parse_xml_element p = Some (v, p') \<Longrightarrow> length p' < length p"
  "xml_dom (Inr (n, q)) \<Longrightarrow> xml_content n q = Some (v, p') \<Longrightarrow> length p' < length q"
proof (induction p and n q arbitrary: v p' and v p' rule: parse_xml_element_xml_content.pinduct)
  case (1 p0)
  then show ?case
    using xml_start_length [of p0]
    by (fastforce simp: parse_xml_element.psimps split: option.splits if_splits dest: less_trans)
next
  case (2 node p0)
  let ?p = "skip_xml_whitespace p0"
  note le = skip_xml_length [of p0]
  have drop: "length (dropWhile (\<lambda>c. c \<noteq> CHR ''<'') ?p) \<le> length ?p" by (rule length_dropWhile_le)
  consider "xml_at ''<!--'' ?p" | "xml_at ''</'' ?p" "\<not> xml_at ''<!--'' ?p"
    | "deref ?p = CHR ''<''" "\<not> xml_at ''<!--'' ?p" "\<not> xml_at ''</'' ?p"
    | "deref ?p \<noteq> CHR ''<''" "\<not> xml_at ''<!--'' ?p" "\<not> xml_at ''</'' ?p" by blast
  then show ?case
  proof cases
    case 1
    with 2 xml_comment_length [OF 1] le show ?thesis
      by (fastforce simp: xml_content.psimps split: if_splits)
  next
    case 2
    with "2.prems" \<open>xml_dom (Inr (node, p0))\<close> xml_close_length [OF 2(1)] le show ?thesis
      by (auto simp: xml_content.psimps split: if_splits)
  next
    case 3
    from \<open>xml_dom (Inr (node, p0))\<close> "2.prems" 3 obtain c q where
        "p0 \<noteq> []" "parse_xml_element ?p = Some (c, q)"
        "xml_content (xml_addChild node (tag_name c) c) q = Some (v, p')"
      by (auto simp: xml_content.psimps Let_def split: if_splits option.splits)
    with 3 "2.IH"(2,3) le show ?thesis by fastforce
  next
    case 4
    let ?rest = "dropWhile (\<lambda>c. c \<noteq> CHR ''<'') ?p"
    from \<open>xml_dom (Inr (node, p0))\<close> "2.prems" 4 have ne: "p0 \<noteq> []" and cont:
        "xml_content (xml_text_item node (takeWhile (\<lambda>c. c \<noteq> CHR ''<'') ?p)) ?rest = Some (v, p')"
      by (simp_all add: xml_content.psimps Let_def split: if_splits)
    have "length p' < length ?rest"
      by (rule "2.IH"(4) [OF ne refl 4(2,3,1) cont])
    with drop le show ?thesis by linarith
  qed
qed

termination parse_xml_element
proof (relation "measure (\<lambda>x. case x of Inl p \<Rightarrow> 2 * length p | Inr (n, p) \<Rightarrow> 2 * length p + 1)", goal_cases)
  case (2 p0 x tag y b p)
  then show ?case using xml_start_length [of p0 tag b p] by simp
next
  case (3 node p0 p)
  then show ?case using xml_comment_length [of p] skip_xml_length [of p0] by simp
next
  case (4 node p0 p)
  then show ?case using skip_xml_length [of p0] by simp
next
  case (5 node p0 p x child p')
  then show ?case using xml_parse_length(1) [of p child p'] skip_xml_length [of p0] by simp
next
  case (6 node p0 p)
  have "length (dropWhile (\<lambda>c. c \<noteq> CHR ''<'') p) < length p0"
  proof (cases p)
    case Nil
    then show ?thesis using 6(1) by simp
  next
    case (Cons c q)
    then have "length (dropWhile (\<lambda>c. c \<noteq> CHR ''<'') p) < length p"
      using 6(5) by (intro length_dropWhile_less) auto
    then show ?thesis using skip_xml_length [of p0] 6(2) by simp
  qed
  then show ?case by simp
qed simp

declare skip_xml_prolog_or_comment.simps [simp del] parse_xml_element.simps [simp del] xml_content.simps [simp del]

section \<open>The configuration\<close>

record ConfigXML =
  xml_root :: "XMLNode option"
  xml_valid :: bool

text \<open>What follows the root element is skipped or ignored: nothing depends on it.\<close>

definition parse_xml :: "ConfigXML \<Rightarrow> rostr \<Rightarrow> ConfigXML" where
  "parse_xml c text =
     (case text of
        None \<Rightarrow> c\<lparr>xml_valid := False\<rparr>
      | Some t \<Rightarrow>
          (let p = skip_xml_prolog_or_comment (cstr_of t) in
           if p = [] then c\<lparr>xml_valid := False\<rparr>
           else case parse_xml_element p of
             Some (root, p') \<Rightarrow> c\<lparr>xml_root := Some root, xml_valid := True\<rparr>
           | None \<Rightarrow> c\<lparr>xml_root := Some (new_XMLNode ''root''), xml_valid := False\<rparr>))"

definition new_ConfigXML :: "char list option \<Rightarrow> ConfigXML" where
  "new_ConfigXML file =
     parse_xml \<lparr>xml_root = None, xml_valid = False\<rparr>
       (Some (case file of None \<Rightarrow> [] | Some raw \<Rightarrow> cstr_of raw))"

definition xml_Probe :: "ConfigXML \<Rightarrow> bool" where
  "xml_Probe c = xml_valid c"

definition xml_sep :: "char \<Rightarrow> bool" where
  "xml_sep c \<longleftrightarrow> c = CHR ''/''"

text \<open>The check whether the first segment of a name is the tag of the root.\<close>

definition xml_strip_root :: "XMLNode \<Rightarrow> string \<Rightarrow> string" where
  "xml_strip_root root p =
     (if StrCompare (tag_name root) (segment xml_sep p) = 0 then after_segment xml_sep p else p)"

function traverse_xml_loop :: "XMLNode \<Rightarrow> string \<Rightarrow> XMLNode option" where
  "traverse_xml_loop cur p =
     (if p = [] then Some cur
      else case xml_findChild cur (segment xml_sep p) of
        None \<Rightarrow> None
      | Some child \<Rightarrow> traverse_xml_loop child (after_segment xml_sep p))"
  by pat_completeness auto
termination
  by (relation "measure (\<lambda>(n, p). length p)") (auto simp: after_segment_less)

definition traverse_xml_path :: "XMLNode option \<Rightarrow> rostr \<Rightarrow> XMLNode option" where
  "traverse_xml_path root path =
     (case root of None \<Rightarrow> None | Some r \<Rightarrow>
       (case path of None \<Rightarrow> None | Some s \<Rightarrow>
          (let p = dropWhile xml_sep (cstr_of s) in
           if p = [] then Some r else traverse_xml_loop r (xml_strip_root r p))))"

definition xml_get :: "ConfigXML \<Rightarrow> rostr \<Rightarrow> string" where
  "xml_get c name =
     (if xml_root c = None \<or> name = None then []
      else case traverse_xml_path (xml_root c) name of None \<Rightarrow> [] | Some node \<Rightarrow> text_content node)"

definition xml_getNumber :: "ConfigXML \<Rightarrow> rostr \<Rightarrow> stdsint" where
  "xml_getNumber c name =
     (if xml_root c = None \<or> name = None then 0
      else case traverse_xml_path (xml_root c) name of
        None \<Rightarrow> 0
      | Some node \<Rightarrow> (if xml_num_val node \<noteq> 0 then xml_num_val node else atoins (text_content node)))"

definition xml_leaf :: "string \<Rightarrow> XMLNode \<Rightarrow> XMLNode" where
  "xml_leaf val leaf = XMLNode (tag_name leaf) (cstr_of val) (atoins val) (children_head leaf)"

definition xml_set_leaf :: "XMLNode \<Rightarrow> string \<Rightarrow> string \<Rightarrow> XMLNode" where
  "xml_set_leaf cur seg val =
     (case xml_findChild cur seg of
        None \<Rightarrow> xml_update_child seg (xml_leaf val) (xml_addChild cur seg (new_XMLNode seg))
      | Some leaf \<Rightarrow> xml_update_child seg (xml_leaf val) cur)"

function xml_set_loop :: "XMLNode \<Rightarrow> string \<Rightarrow> string \<Rightarrow> XMLNode" where
  "xml_set_loop cur p val =
     (if p = [] then cur
      else let seg = segment xml_sep p; p' = after_segment xml_sep p in
        if p' = [] then xml_set_leaf cur seg val
        else xml_update_child seg (\<lambda>child. xml_set_loop child p' val) (xml_getOrCreateChild cur seg))"
  by pat_completeness auto
termination
  by (relation "measure (\<lambda>(n, p, v). length p)") (auto simp: after_segment_less)

definition xml_set :: "ConfigXML \<Rightarrow> rostr \<Rightarrow> rostr \<Rightarrow> ConfigXML \<times> bool" where
  "xml_set c name val =
     (case name of None \<Rightarrow> (c, False) | Some nm \<Rightarrow>
       (case val of None \<Rightarrow> (c, False) | Some v \<Rightarrow>
          (let root = (case xml_root c of None \<Rightarrow> new_XMLNode ''root'' | Some r \<Rightarrow> r);
               c = c\<lparr>xml_root := Some root\<rparr>;
               p = dropWhile xml_sep (cstr_of nm)
           in if p = [] then (c, False)
              else let p' = xml_strip_root root p
                   in (c\<lparr>xml_root := Some (xml_set_loop root p' v)\<rparr>, p' \<noteq> []))))"

declare traverse_xml_loop.simps [simp del] xml_set_loop.simps [simp del]

section \<open>The tree operations and the interface\<close>

lemmas xml_node_defs = xml_findChild_def xml_set_children_def xml_update_child_def
  xml_getOrCreateChild_def xml_addChild_def new_XMLNode_def xml_set_leaf_def xml_leaf_def

definition xml_number_of :: "XMLNode \<Rightarrow> stdsint" where
  "xml_number_of node = (if xml_num_val node \<noteq> 0 then xml_num_val node else atoins (text_content node))"

interpretation xml_tree: config_tree xml_findChild xml_getOrCreateChild xml_update_child
  xml_set_leaf "\<lambda>l v. text_content l = cstr_of v \<and> xml_number_of l = atoins v"
proof (unfold_locales, goal_cases)
  case (1 k f n)
  show ?case by (auto simp: xml_node_defs tree_simps)
next
  case (2 k k' f n)
  then show ?case by (auto simp: xml_node_defs tree_simps)
next
  case (3 n k)
  show ?case by (auto simp: xml_node_defs tree_simps fun_eq_iff split: option.splits)
next
  case (4 k k' n)
  then show ?case by (auto simp: xml_node_defs tree_simps split: option.splits)
next
  case (5 n k v)
  show ?case by (auto simp: xml_node_defs tree_simps xml_number_of_def split: option.splits)
next
  case (6 k k' n v)
  then show ?case by (auto simp: xml_node_defs tree_simps split: option.splits)
qed

lemma traverse_xml_loop_lookup:
  "traverse_xml_loop cur p = tree_lookup xml_findChild cur (segments xml_sep p)"
proof (induction cur p rule: traverse_xml_loop.induct)
  case (1 cur p)
  then show ?case
    by (cases "p = []")
       (auto simp: traverse_xml_loop.simps [of cur] segments_step split: option.splits)
qed

lemma xml_set_loop_store:
  "xml_set_loop cur p v = tree_store xml_getOrCreateChild xml_update_child xml_set_leaf
     cur (segments xml_sep p) v"
proof (induction cur p v rule: xml_set_loop.induct)
  case (1 cur p v)
  show ?case
  proof (cases "p = [] \<or> after_segment xml_sep p = []")
    case True
    then show ?thesis by (auto simp: xml_set_loop.simps [of cur p v] segments_step Let_def)
  next
    case False
    then have "segments xml_sep (after_segment xml_sep p) \<noteq> []" by simp
    then show ?thesis using False 1
      by (auto simp: xml_set_loop.simps [of cur p v] segments_step [of p] Let_def tree_store_Cons)
  qed
qed

definition xml_tree_of :: "ConfigXML \<Rightarrow> XMLNode" where
  "xml_tree_of c = (case xml_root c of None \<Rightarrow> new_XMLNode ''root'' | Some r \<Rightarrow> r)"

text \<open>The path a name denotes: its segments, without a leading one equal to the root tag.\<close>

definition xml_segs :: "ConfigXML \<Rightarrow> string \<Rightarrow> string list" where
  "xml_segs c name =
     (let p = dropWhile xml_sep (cstr_of name)
      in if p = [] then [] else segments xml_sep (xml_strip_root (xml_tree_of c) p))"

lemma new_XMLNode_vals [simp]:
  "text_content (new_XMLNode t) = []" "xml_num_val (new_XMLNode t) = 0" "children_head (new_XMLNode t) = []"
  "tag_name (new_XMLNode t) = cstr_of t"
  by (simp_all add: new_XMLNode_def)

lemma xml_lookup_new:
  "tree_lookup xml_findChild (new_XMLNode t) ss = (if ss = [] then Some (new_XMLNode t) else None)"
  by (cases ss) (auto simp: xml_findChild_def)

lemma traverse_xml_path_lookup:
  "xml_root c = Some r \<Longrightarrow> traverse_xml_path (Some r) (Some s) = tree_lookup xml_findChild r (xml_segs c s)"
  by (simp add: traverse_xml_path_def traverse_xml_loop_lookup xml_segs_def xml_tree_of_def Let_def)

lemma atoins_Nil [simp]: "atoins [] = 0"
  by (simp add: atoins_def)

lemma xml_get_lookup:
  "xml_get c (Some name) =
     (case tree_lookup xml_findChild (xml_tree_of c) (xml_segs c name) of
        None \<Rightarrow> [] | Some n \<Rightarrow> text_content n)"
  by (cases "xml_root c")
     (auto simp: xml_get_def xml_tree_of_def traverse_xml_path_lookup xml_lookup_new)

lemma xml_getNumber_lookup:
  "xml_getNumber c (Some name) =
     (case tree_lookup xml_findChild (xml_tree_of c) (xml_segs c name) of
        None \<Rightarrow> 0 | Some n \<Rightarrow> xml_number_of n)"
  by (cases "xml_root c")
     (auto simp: xml_getNumber_def xml_tree_of_def traverse_xml_path_lookup xml_lookup_new
        xml_number_of_def split: option.splits)

lemma xml_set_store:
  "xml_set c (Some name) (Some v) =
     (c\<lparr>xml_root := Some (tree_store xml_getOrCreateChild xml_update_child xml_set_leaf
          (xml_tree_of c) (xml_segs c name) v)\<rparr>, xml_segs c name \<noteq> [])"
  by (simp add: xml_set_def xml_set_loop_store xml_tree_of_def xml_segs_def Let_def)

lemma xml_tree_of_set [simp]: "xml_tree_of (c\<lparr>xml_root := Some r\<rparr>) = r"
  by (simp add: xml_tree_of_def)

lemma xml_segs_cong: "tag_name (xml_tree_of c) = tag_name (xml_tree_of c') \<Longrightarrow> xml_segs c = xml_segs c'"
  by (simp add: xml_segs_def xml_strip_root_def fun_eq_iff Let_def)

lemma tag_name_store:
  "tag_name (tree_store xml_getOrCreateChild xml_update_child xml_set_leaf n ss v) = tag_name n"
  by (induction ss rule: induct_list012) (simp_all add: xml_node_defs split: option.splits)

lemma NUL_free_xml_segs: "s \<in> set (xml_segs c name) \<Longrightarrow> NUL \<notin> set s"
proof -
  assume s: "s \<in> set (xml_segs c name)"
  let ?p = "dropWhile xml_sep (cstr_of name)"
  have "NUL \<notin> set ?p" by (rule NUL_free_dropWhile) (rule NUL_notin_cstr_of)
  then have "NUL \<notin> set (xml_strip_root r ?p)" for r
    by (simp add: xml_strip_root_def after_segment_def NUL_free_dropWhile)
  with s show ?thesis
    by (auto simp: xml_segs_def Let_def split: if_splits dest: NUL_free_segments [rotated])
qed

interpretation xml_config: config_text xml_segs
  "\<lambda>c name v. xml_set c (Some name) (Some v)" "\<lambda>c name. xml_get c (Some name)"
  "\<lambda>c name. xml_getNumber c (Some name)"
proof -
  have segs: "xml_segs (c\<lparr>xml_root := Some (tree_store xml_getOrCreateChild xml_update_child xml_set_leaf
      (xml_tree_of c) ss v)\<rparr>) = xml_segs c" for c ss v
    by (rule xml_segs_cong) (simp add: tag_name_store)
  show "config_text xml_segs (\<lambda>c name v. xml_set c (Some name) (Some v))
      (\<lambda>c name. xml_get c (Some name)) (\<lambda>c name. xml_getNumber c (Some name))"
  proof (unfold_locales, goal_cases)
    case (3 c name q v)
    then show ?case
      using xml_tree.lookup_store_same [of "xml_segs c name" "xml_tree_of c" v]
      by (auto simp: xml_set_store xml_get_lookup segs)
  next
    case (4 c name q v)
    then show ?case
      using xml_tree.lookup_store_same [of "xml_segs c name" "xml_tree_of c" v]
      by (auto simp: xml_set_store xml_getNumber_lookup segs)
  next
    case (5 c name q v)
    moreover have "\<forall>s \<in> set (xml_segs c name) \<union> set (xml_segs c q). NUL \<notin> set s"
      by (auto dest: NUL_free_xml_segs)
    ultimately show ?case by (simp add: xml_set_store xml_get_lookup segs xml_tree.lookup_store_other)
  next
    case (6 c name q v)
    moreover have "\<forall>s \<in> set (xml_segs c name) \<union> set (xml_segs c q). NUL \<notin> set s"
      by (auto dest: NUL_free_xml_segs)
    ultimately show ?case by (simp add: xml_set_store xml_getNumber_lookup segs xml_tree.lookup_store_other)
  qed (simp_all add: xml_set_store segs)
qed

end
