(* ===== verification/XMLText.thy ===== *)
theory XMLText
  imports ConfigXML
begin

text \<open>
  XML documents as trees of items and their texts as an inductive grammar (prolog, comments,
  attributes, self-closing elements, text with whitespace around it), and the proof that the
  parser of \<open>src/lib/cpp/Format/ConfigText/XML.cpp\<close> returns the tree of each of them; the
  well-formedness invariant; the properties of the XML component.
\<close>

section \<open>Documents and their trees\<close>

datatype xml_item = XI_Text string | XI_Elem string "xml_item list"

text \<open>The program keeps one text per element, the last one, and files the children by tag.\<close>

fun xml_tag_of :: "xml_item \<Rightarrow> string" where
  "xml_tag_of (XI_Text s) = []"
| "xml_tag_of (XI_Elem tag items) = tag"

fun xml_last_text :: "xml_item list \<Rightarrow> string" where
  "xml_last_text [] = []"
| "xml_last_text (XI_Text s # items) = (let t = xml_last_text items in if t = [] then s else t)"
| "xml_last_text (XI_Elem tag is # items) = xml_last_text items"

fun xml_is_elem :: "xml_item \<Rightarrow> bool" where
  "xml_is_elem (XI_Elem tag items) = True"
| "xml_is_elem (XI_Text s) = False"

fun xml_node :: "xml_item \<Rightarrow> XMLNode" where
  "xml_node (XI_Text s) = new_XMLNode []"
| "xml_node (XI_Elem tag items) =
     XMLNode tag (xml_last_text items) (atoins (xml_last_text items))
       (map (\<lambda>i. (xml_tag_of i, xml_node i)) (filter xml_is_elem items))"

section \<open>The grammar\<close>

definition xml_space :: "string \<Rightarrow> bool" where
  "xml_space w \<longleftrightarrow> (\<forall>c \<in> set w. xml_ws c)"

definition xml_tag :: "string \<Rightarrow> bool" where
  "xml_tag tag \<longleftrightarrow> tag \<noteq> [] \<and> length tag \<le> 127 \<and> hd tag \<notin> {CHR ''?'', CHR ''!''} \<and>
     (\<forall>c \<in> set tag. xml_tag_char c) \<and> NUL \<notin> set tag"

text \<open>Attributes: nothing, or a blank and characters other than the closing ones.\<close>

definition xml_attrs :: "string \<Rightarrow> bool" where
  "xml_attrs a \<longleftrightarrow> a = [] \<or> xml_ws (hd a) \<and> CHR ''>'' \<notin> set a \<and> CHR ''/'' \<notin> set a \<and> NUL \<notin> set a"

definition xml_chars :: "string \<Rightarrow> bool" where
  "xml_chars s \<longleftrightarrow> s \<noteq> [] \<and> length s \<le> 1023 \<and> \<not> xml_ws (hd s) \<and> \<not> xml_ws (last s) \<and>
     CHR ''<'' \<notin> set s \<and> NUL \<notin> set s"

definition xml_comment :: "string \<Rightarrow> bool" where
  "xml_comment cm \<longleftrightarrow> CHR ''>'' \<notin> set cm \<and> NUL \<notin> set cm"

inductive xml_elem :: "xml_item \<Rightarrow> string \<Rightarrow> bool"
  and xml_items :: "xml_item list \<Rightarrow> string \<Rightarrow> bool"
where
  elem_empty: "\<lbrakk>xml_tag tag; xml_attrs a\<rbrakk> \<Longrightarrow> xml_elem (XI_Elem tag []) (CHR ''<'' # tag @ a @ ''/>'')"
| elem_full: "\<lbrakk>xml_tag tag; xml_attrs a; xml_items items t; xml_space w\<rbrakk> \<Longrightarrow>
     xml_elem (XI_Elem tag items) (CHR ''<'' # tag @ a @ CHR ''>'' # t @ ''</'' @ tag @ w @ ''>'')"
| items_nil: "xml_items [] []"
| items_space: "\<lbrakk>xml_ws c; xml_items items t\<rbrakk> \<Longrightarrow> xml_items items (c # t)"
| items_comment: "\<lbrakk>xml_comment cm; xml_items items t\<rbrakk> \<Longrightarrow> xml_items items (''<!--'' @ cm @ ''-->'' @ t)"
| items_elem: "\<lbrakk>xml_elem e s; xml_items items t\<rbrakk> \<Longrightarrow> xml_items (e # items) (s @ t)"
| items_text: "\<lbrakk>xml_chars s; xml_space w; xml_items items t; t = [] \<or> hd t = CHR ''<''\<rbrakk> \<Longrightarrow>
     xml_items (XI_Text s # items) (s @ w @ t)"

text \<open>What may stand before the root element.\<close>

inductive xml_prolog :: "string \<Rightarrow> bool" where
  prolog_nil: "xml_prolog []"
| prolog_space: "xml_ws c \<Longrightarrow> xml_prolog t \<Longrightarrow> xml_prolog (c # t)"
| prolog_pi: "CHR ''>'' \<notin> set s \<Longrightarrow> NUL \<notin> set s \<Longrightarrow> xml_prolog t \<Longrightarrow> xml_prolog (''<?'' @ s @ ''?>'' @ t)"
| prolog_comment: "xml_comment cm \<Longrightarrow> xml_prolog t \<Longrightarrow> xml_prolog (''<!--'' @ cm @ ''-->'' @ t)"

section \<open>Reading an element\<close>

lemma xml_ws_not: "xml_ws c \<Longrightarrow> c \<notin> {CHR ''>'', CHR ''<'', CHR ''/'', NUL}"
  by (auto simp: xml_ws_def)

lemma skip_xml_space [simp]: "xml_space w \<Longrightarrow> skip_xml_whitespace (w @ p) = skip_xml_whitespace p"
  by (simp add: skip_xml_whitespace_def xml_space_def dropWhile_skip)

lemma skip_xml_nonspace: "\<not> xml_ws (deref p) \<Longrightarrow> skip_xml_whitespace p = p"
  by (cases p) (simp_all add: skip_xml_whitespace_def)

lemma xml_find_pi: "CHR ''>'' \<notin> set s \<Longrightarrow> xml_find ''?>'' (s @ ''?>'' @ p) = ''?>'' @ p"
proof (induction s)
  case (Cons c s)
  then have "deref (s @ ''?>'' @ p) \<noteq> CHR ''>''" by (cases s) auto
  then have "\<not> xml_at ''?>'' (c # s @ ''?>'' @ p)"
    by (cases s) (auto simp: xml_at_def)
  with Cons show ?case by simp
qed (simp add: xml_at_def)

lemma xml_find_comment: "CHR ''>'' \<notin> set s \<Longrightarrow> xml_find ''-->'' (s @ ''-->'' @ p) = ''-->'' @ p"
proof (induction s)
  case (Cons c s)
  then have "\<not> xml_at ''-->'' (c # s @ ''-->'' @ p)"
    by (cases s; cases "tl s") (auto simp: xml_at_def)
  with Cons show ?case by simp
qed (simp add: xml_at_def)

lemma xml_skip_attrs_stop:
  assumes "CHR ''>'' \<notin> set a \<and> CHR ''/'' \<notin> set a" and "deref p = CHR ''>'' \<or> xml_at ''/>'' p"
  shows "xml_skip_attrs (a @ p) = p"
  using assms(1)
proof (induction a)
  case Nil
  show ?case using assms(2) by (cases p) (auto simp: xml_at_def)
next
  case (Cons c a)
  then show ?case by (auto simp: xml_at_def)
qed

lemma xml_start_text:
  assumes "xml_tag tag" "xml_attrs a" "deref p = CHR ''>'' \<or> xml_at ''/>'' p"
  shows "xml_start (CHR ''<'' # tag @ a @ p) =
    Some (tag, xml_at ''/>'' p, if xml_at ''/>'' p then drop 2 p else tl p)"
proof -
  obtain t tag' where t: "tag = t # tag'" "xml_tag_char t" "t \<notin> {CHR ''?'', CHR ''!''}"
    using assms(1) by (cases tag) (auto simp: xml_tag_def)
  have stop: "\<not> xml_tag_char (deref (a @ p))" "a @ p \<noteq> []"
    using assms(2,3) by (cases a; cases p; auto simp: xml_attrs_def xml_tag_char_def xml_at_def)
       (use assms(3) in \<open>auto simp: xml_at_def\<close>)
  have all: "\<forall>c \<in> set tag. xml_tag_char c" using assms(1) by (simp add: xml_tag_def)
  from stop obtain y ys where y: "a @ p = y # ys" "\<not> xml_tag_char y" by (cases "a @ p") auto
  have tw: "takeWhile xml_tag_char (tag @ a @ p) = tag" "dropWhile xml_tag_char (tag @ a @ p) = a @ p"
    using takeWhile_stop [OF all y(2)] dropWhile_stop [OF all y(2)] by (simp_all add: y(1))
  have "CHR ''>'' \<notin> set a \<and> CHR ''/'' \<notin> set a" using assms(2) by (auto simp: xml_attrs_def)
  then have attrs: "xml_skip_attrs (a @ p) = p" using assms(3) by (rule xml_skip_attrs_stop)
  have first: "deref (tag @ a @ p) \<notin> {CHR ''/'', CHR ''?'', CHR ''!''}"
    using t by (simp add: xml_tag_char_def)
  have skip: "skip_xml_whitespace (CHR ''<'' # tag @ a @ p) = CHR ''<'' # tag @ a @ p"
    by (rule skip_xml_nonspace) (simp add: xml_ws_def)
  have len: "take 127 tag = tag" "tag \<noteq> []" using assms(1) by (auto simp: xml_tag_def)
  show ?thesis
    using first len assms(3)
    unfolding xml_start_def Let_def skip list.sel deref_simps tw attrs by auto
qed

lemma xml_close_tag:
  assumes "CHR ''>'' \<notin> set tag" "xml_space w"
  shows "xml_close (''</'' @ tag @ w @ CHR ''>'' # p) = p"
proof -
  let ?P = "\<lambda>c. c \<noteq> CHR ''>'' \<and> \<not> xml_ws c" and ?Q = "\<lambda>c. c \<noteq> CHR ''>''"
  have drop: "dropWhile ?Q (dropWhile ?P (u @ CHR ''>'' # p)) = CHR ''>'' # p" if "CHR ''>'' \<notin> set u" for u
    using that
  proof (induction u)
    case (Cons c u)
    moreover have "dropWhile ?Q (u @ CHR ''>'' # p) = CHR ''>'' # p"
      using Cons.prems by (intro dropWhile_stop) auto
    ultimately show ?case by auto
  qed simp
  have "CHR ''>'' \<notin> set w" using assms(2) xml_ws_not unfolding xml_space_def by blast
  then have "CHR ''>'' \<notin> set (tag @ w)" using assms(1) by simp
  from drop [OF this] show ?thesis by (simp add: xml_close_def Let_def)
qed

section \<open>Reading a document\<close>

text \<open>The items of an element are added to its node one by one.\<close>

fun xml_add :: "XMLNode \<Rightarrow> xml_item \<Rightarrow> XMLNode" where
  "xml_add n (XI_Text s) = XMLNode (tag_name n) s (atoins s) (children_head n)"
| "xml_add n (XI_Elem tag items) =
     xml_set_children (children_head n @ [(tag, xml_node (XI_Elem tag items))]) n"

definition xml_items_ok :: "xml_item list \<Rightarrow> bool" where
  "xml_items_ok items \<longleftrightarrow> XI_Text [] \<notin> set items"

lemma foldl_xml_add:
  "xml_items_ok items \<Longrightarrow> foldl xml_add (XMLNode tag s (atoins s) kvs) items =
     (let t = (if xml_last_text items = [] then s else xml_last_text items)
      in XMLNode tag t (atoins t) (kvs @ map (\<lambda>i. (xml_tag_of i, xml_node i)) (filter xml_is_elem items)))"
proof (induction items arbitrary: s kvs rule: xml_last_text.induct)
  case (2 u items)
  then show ?case by (auto simp: xml_items_ok_def Let_def)
qed (auto simp: xml_items_ok_def Let_def xml_set_children_def)

lemma foldl_xml_add_new:
  "xml_items_ok items \<Longrightarrow> NUL \<notin> set tag \<Longrightarrow>
   foldl xml_add (new_XMLNode tag) items = xml_node (XI_Elem tag items)"
  using foldl_xml_add [of items tag "[]" "[]"] by (simp add: new_XMLNode_def Let_def)

lemma xml_elem_form:
  "xml_elem e s \<Longrightarrow> \<exists>tag items u. e = XI_Elem tag items \<and> xml_tag tag \<and> s = CHR ''<'' # tag @ u"
  by (cases rule: xml_elem.cases) auto

lemma xml_items_ok_grammar: "xml_items items t \<Longrightarrow> xml_items_ok items"
proof -
  have "xml_elem e s \<Longrightarrow> True" "xml_items items t \<Longrightarrow> xml_items_ok items" for e s
    by (induction rule: xml_elem_xml_items.inducts)
       (auto simp: xml_items_ok_def xml_chars_def dest: xml_elem_form)
  then show "xml_items items t \<Longrightarrow> xml_items_ok items" by blast
qed

lemma xml_elem_deref:
  assumes "xml_elem e s"
  shows "deref (s @ p) = CHR ''<''" "\<not> xml_at ''<!--'' (s @ p)" "\<not> xml_at ''</'' (s @ p)" "s \<noteq> []"
proof -
  obtain tag u where s: "s = CHR ''<'' # tag @ u" and tag: "xml_tag tag" using xml_elem_form [OF assms] by blast
  then obtain c tag' where c: "tag = c # tag'" "xml_tag_char c" "c \<noteq> CHR ''!''"
    by (cases tag) (auto simp: xml_tag_def)
  show "deref (s @ p) = CHR ''<''" "s \<noteq> []" by (simp_all add: s)
  show "\<not> xml_at ''<!--'' (s @ p)" "\<not> xml_at ''</'' (s @ p)"
    using c by (auto simp: s xml_at_def xml_tag_char_def)
qed

lemma xml_content_space: "xml_ws c \<Longrightarrow> p \<noteq> [] \<Longrightarrow> xml_content n (c # p) = xml_content n p"
  by (subst (1 2) xml_content.simps) (simp add: skip_xml_whitespace_def)

lemma xml_content_comment:
  "xml_comment cm \<Longrightarrow> xml_content n (''<!--'' @ cm @ ''-->'' @ p) = xml_content n p"
proof -
  assume "xml_comment cm"
  then have "xml_find ''-->'' (cm @ ''-->'' @ p) = ''-->'' @ p"
    by (intro xml_find_comment) (simp add: xml_comment_def)
  moreover have "skip_xml_whitespace (''<!--'' @ cm @ ''-->'' @ p) = ''<!--'' @ cm @ ''-->'' @ p"
    by (rule skip_xml_nonspace) (simp add: xml_ws_def)
  ultimately show ?thesis
    by (subst xml_content.simps) (simp add: xml_at_def)
qed

lemma xml_trim_chars:
  assumes "xml_chars s" "xml_space w"
  shows "xml_trim (take 1023 (s @ w)) = s"
proof -
  have s: "s \<noteq> []" "length s \<le> 1023" "\<not> xml_ws (hd s)" "\<not> xml_ws (last s)"
    using assms(1) by (auto simp: xml_chars_def)
  let ?w = "take (1023 - length s) w"
  have "\<forall>c \<in> set (rev ?w). xml_ws c" using assms(2) by (auto simp: xml_space_def dest: in_set_takeD)
  then have "dropWhile xml_ws (rev ?w @ rev s) = dropWhile xml_ws (rev s)" by (rule dropWhile_skip)
  moreover have "dropWhile xml_ws (rev s) = rev s"
    using s(1,4) by (cases s rule: rev_cases) simp_all
  ultimately have "dropWhile xml_ws (rev ?w @ rev s) = rev s" by simp
  moreover have "take 1023 (s @ w) = s @ ?w" using s(2) by simp
  ultimately show ?thesis
    using s by (cases s) (simp_all add: xml_trim_def)
qed

lemma xml_content_text:
  assumes "xml_chars s" "xml_space w" "deref p = CHR ''<''"
  shows "xml_content n (s @ w @ p) = xml_content (XMLNode (tag_name n) s (atoins s) (children_head n)) p"
proof -
  obtain c t where s: "s = c # t" "\<not> xml_ws c" "c \<noteq> CHR ''<''" using assms(1) by (cases s) (auto simp: xml_chars_def)
  obtain q where p: "p = CHR ''<'' # q" using assms(3) by (cases p) auto
  have "CHR ''<'' \<notin> set w" using assms(2) xml_ws_not unfolding xml_space_def by blast
  then have "\<forall>x \<in> set (s @ w). x \<noteq> CHR ''<''" using assms(1) by (auto simp: xml_chars_def)
  then have tw: "takeWhile (\<lambda>c. c \<noteq> CHR ''<'') (s @ w @ p) = s @ w" "dropWhile (\<lambda>c. c \<noteq> CHR ''<'') (s @ w @ p) = p"
    using takeWhile_stop [of "s @ w" "\<lambda>c. c \<noteq> CHR ''<''" "CHR ''<''" q]
      dropWhile_stop [of "s @ w" "\<lambda>c. c \<noteq> CHR ''<''" "CHR ''<''" q] by (simp_all add: p)
  have skip: "skip_xml_whitespace (s @ w @ p) = s @ w @ p" using s by (intro skip_xml_nonspace) simp
  have no: "\<not> xml_at ''<!--'' (s @ w @ p)" "\<not> xml_at ''</'' (s @ w @ p)" "deref (s @ w @ p) \<noteq> CHR ''<''"
      "s @ w @ p \<noteq> []"
    using s by (simp_all add: xml_at_def)
  have "xml_text_item n (s @ w) = XMLNode (tag_name n) s (atoins s) (children_head n)"
    using s(1) unfolding xml_text_item_def xml_trim_chars [OF assms(1,2)] Let_def by simp
  then show ?thesis
    by (subst xml_content.simps) (simp only: Let_def skip no tw if_False)
qed

lemma xml_content_elem:
  assumes "xml_elem e s" "parse_xml_element (s @ p) = Some (xml_node e, p)"
  shows "xml_content n (s @ p) = xml_content (xml_add n e) p"
proof -
  obtain tag items where e: "e = XI_Elem tag items" "xml_tag tag" using xml_elem_form [OF assms(1)] by blast
  note d = xml_elem_deref [OF assms(1)]
  have skip: "skip_xml_whitespace (s @ p) = s @ p"
    by (rule skip_xml_nonspace) (simp add: d xml_ws_def)
  have "xml_addChild n (tag_name (xml_node e)) (xml_node e) = xml_add n e"
    using e by (simp add: xml_addChild_def xml_tag_def)
  then show ?thesis
    using assms(2) d by (subst xml_content.simps) (simp add: Let_def skip)
qed

text \<open>
  The main lemma: an element is read to its tree, and the items of an element up to its closing
  tag are added to its node.
\<close>

lemma xml_text_parse:
  "xml_elem e s \<Longrightarrow> parse_xml_element (s @ p) = Some (xml_node e, p)"
  "xml_items items t \<Longrightarrow> deref q = CHR ''<'' \<Longrightarrow> xml_content n (t @ q) = xml_content (foldl xml_add n items) q"
proof (induction arbitrary: p and n q rule: xml_elem_xml_items.inducts)
  case (elem_empty tag a)
  have "xml_at ''/>'' (''/>'' @ p)" by (simp add: xml_at_def)
  moreover from this have "xml_start (CHR ''<'' # tag @ a @ ''/>'' @ p) = Some (tag, True, p)"
    using xml_start_text [OF elem_empty(1,2), of "''/>'' @ p"] by simp
  ultimately show ?case
    using elem_empty(1) by (simp add: parse_xml_element.simps new_XMLNode_def xml_tag_def)
next
  case (elem_full tag a items t w)
  let ?q = "''</'' @ tag @ w @ ''>'' @ p"
  have nat: "\<not> xml_at ''/>'' (CHR ''>'' # t @ ?q)" by (simp add: xml_at_def)
  then have start: "xml_start (CHR ''<'' # tag @ a @ CHR ''>'' # t @ ?q) = Some (tag, False, t @ ?q)"
    using xml_start_text [OF elem_full(1,2), of "CHR ''>'' # t @ ?q"] by simp
  have tag: "CHR ''>'' \<notin> set tag" "NUL \<notin> set tag"
    using elem_full(1) unfolding xml_tag_def xml_tag_char_def by blast+
  have close: "xml_close ?q = p"
    using xml_close_tag [OF tag(1) elem_full(4), of p] by simp
  have skip: "skip_xml_whitespace ?q = ?q" by (rule skip_xml_nonspace) (simp add: xml_ws_def)
  have "xml_content m ?q = Some (m, p)" for m
    using skip close by (subst xml_content.simps) (simp add: Let_def xml_at_def)
  moreover have "xml_content (new_XMLNode tag) (t @ ?q) = xml_content (foldl xml_add (new_XMLNode tag) items) ?q"
    by (rule elem_full.IH) simp
  ultimately show ?case
    using start foldl_xml_add_new [OF xml_items_ok_grammar [OF elem_full(3)] tag(2)]
    by (simp add: parse_xml_element.simps)
next
  case items_nil
  then show ?case by simp
next
  case (items_space c items t)
  then have "t @ q \<noteq> []" by auto
  with items_space show ?case by (simp add: xml_content_space)
next
  case (items_comment cm items t)
  then show ?case using xml_content_comment [OF items_comment(1), of n "t @ q"] by simp
next
  case (items_elem e s items t)
  then show ?case using xml_content_elem [OF items_elem(1), of "t @ q" n] by simp
next
  case (items_text s w items t)
  have "deref (t @ q) = CHR ''<''" using items_text(4) items_text.prems by (cases t) auto
  from xml_content_text [OF items_text(1,2) this, of n] items_text show ?case by simp
qed

lemma skip_xml_prolog:
  assumes "xml_prolog w" "deref p = CHR ''<''" "\<not> xml_at ''<?'' p" "\<not> xml_at ''<!--'' p"
  shows "skip_xml_prolog_or_comment (w @ p) = p"
  using assms(1)
proof (induction rule: xml_prolog.induct)
  case prolog_nil
  have "skip_xml_whitespace p = p" using assms(2) by (intro skip_xml_nonspace) (simp add: xml_ws_def)
  then show ?case using assms by (subst skip_xml_prolog_or_comment.simps) (auto simp: Let_def)
next
  case (prolog_space c t)
  then have "t @ p \<noteq> []" using assms(2) by auto
  then have "skip_xml_prolog_or_comment (c # t @ p) = skip_xml_prolog_or_comment (t @ p)"
    using prolog_space(1) unfolding skip_xml_prolog_or_comment.simps [of "c # t @ p"]
      skip_xml_prolog_or_comment.simps [of "t @ p"]
    by (auto simp: skip_xml_whitespace_def)
  with prolog_space show ?case by simp
next
  case (prolog_pi s t)
  have "skip_xml_whitespace (''<?'' @ s @ ''?>'' @ t @ p) = ''<?'' @ s @ ''?>'' @ t @ p"
    by (rule skip_xml_nonspace) (simp add: xml_ws_def)
  with xml_find_pi [OF prolog_pi(1), of "t @ p"] prolog_pi(4) show ?case
    by (subst skip_xml_prolog_or_comment.simps) (simp add: xml_at_def)
next
  case (prolog_comment cm t)
  have "skip_xml_whitespace (''<!--'' @ cm @ ''-->'' @ t @ p) = ''<!--'' @ cm @ ''-->'' @ t @ p"
    by (rule skip_xml_nonspace) (simp add: xml_ws_def)
  with xml_find_comment [of cm "t @ p"] prolog_comment show ?case
    by (subst skip_xml_prolog_or_comment.simps) (simp add: xml_at_def xml_comment_def)
qed

subsection \<open>Texts as files\<close>

lemma NUL_free_xml_space: "xml_space w \<Longrightarrow> NUL \<notin> set w"
  using xml_ws_not unfolding xml_space_def by blast

lemma NUL_free_xml_text:
  "xml_elem e s \<Longrightarrow> NUL \<notin> set s"
  "xml_items items t \<Longrightarrow> NUL \<notin> set t"
proof (induction rule: xml_elem_xml_items.inducts)
  case (items_space c items t)
  then show ?case using xml_ws_not [of c] by auto
qed (auto simp: xml_tag_def xml_attrs_def xml_chars_def xml_comment_def NUL_free_xml_space)

lemma NUL_free_xml_prolog: "xml_prolog w \<Longrightarrow> NUL \<notin> set w"
proof (induction rule: xml_prolog.induct)
  case (prolog_space c t)
  then show ?case using xml_ws_not [of c] by auto
qed (simp_all add: xml_comment_def)

section \<open>Well-formed trees\<close>

text \<open>Every child is filed under its own tag, and tags are C strings.\<close>

fun xml_wf :: "XMLNode \<Rightarrow> bool" where
  "xml_wf (XMLNode tag s i kvs) \<longleftrightarrow> NUL \<notin> set tag \<and> (\<forall>(k, c) \<in> set kvs. k = tag_name c \<and> xml_wf c)"

lemma xml_wf_iff:
  "xml_wf n \<longleftrightarrow> NUL \<notin> set (tag_name n) \<and> (\<forall>(k, c) \<in> set (children_head n). k = tag_name c \<and> xml_wf c)"
  by (cases n) simp

lemma xml_wf_new [simp]: "xml_wf (new_XMLNode tag)"
  by (simp add: new_XMLNode_def NUL_notin_cstr_of)

lemma xml_wf_addChild:
  "xml_wf n \<Longrightarrow> xml_wf c \<Longrightarrow> tag_name c = cstr_of key \<Longrightarrow> xml_wf (xml_addChild n key c)"
  by (auto simp: xml_addChild_def xml_set_children_def xml_wf_iff [of n])

lemma xml_wf_text_item: "xml_wf n \<Longrightarrow> xml_wf (xml_text_item n raw)"
  by (auto simp: xml_text_item_def Let_def xml_wf_iff [of n])

lemma xml_parse_wf:
  "parse_xml_element p = Some (v, p') \<Longrightarrow> xml_wf v"
  "xml_content n q = Some (v, p') \<Longrightarrow> xml_wf n \<Longrightarrow> xml_wf v"
proof (induction p and n q arbitrary: v p' and v p' rule: parse_xml_element_xml_content.induct)
  case (1 p0)
  then show ?case
    by (auto simp: parse_xml_element.simps [of p0] split: option.splits if_splits)
next
  case (2 node p0)
  have child: "xml_wf (xml_addChild node (tag_name c) c)" if "xml_wf c" for c
    using that "2.prems"(2) by (intro xml_wf_addChild) (auto simp: xml_wf_iff [of c])
  show ?case
    using 2 child xml_wf_text_item
    by (auto simp: xml_content.simps [of node p0] Let_def split: if_splits option.splits)
qed

lemma xml_wf_update_child:
  assumes "xml_wf n" and "\<And>c. xml_wf c \<Longrightarrow> xml_wf (f c) \<and> tag_name (f c) = tag_name c"
  shows "xml_wf (xml_update_child k f n)"
  using assms
  by (auto simp: xml_update_child_def xml_set_children_def xml_wf_iff [of n] dest!: kv_update_members)

lemma xml_wf_getOrCreateChild: "xml_wf n \<Longrightarrow> xml_wf (xml_getOrCreateChild n k)"
  by (auto simp: xml_getOrCreateChild_def xml_addChild_def [symmetric] xml_wf_addChild split: option.splits)

lemma xml_wf_leaf: "xml_wf c \<Longrightarrow> xml_wf (xml_leaf v c) \<and> tag_name (xml_leaf v c) = tag_name c"
  by (cases c) (simp add: xml_leaf_def)

lemma xml_wf_set_leaf:
  assumes "xml_wf n"
  shows "xml_wf (xml_set_leaf n k v)"
proof (cases "xml_findChild n k")
  case None
  have "xml_wf (xml_addChild n k (new_XMLNode k))" using assms by (simp add: xml_wf_addChild)
  then show ?thesis unfolding xml_set_leaf_def None by (simp add: xml_wf_update_child xml_wf_leaf)
next
  case (Some c)
  then show ?thesis unfolding xml_set_leaf_def Some using assms by (simp add: xml_wf_update_child xml_wf_leaf)
qed

lemma xml_wf_store:
  "xml_wf n \<Longrightarrow> xml_wf (tree_store xml_getOrCreateChild xml_update_child xml_set_leaf n ss v)"
proof (induction ss arbitrary: n rule: induct_list012)
  case (3 s t ss)
  show ?case
    unfolding tree_store.simps
    by (intro xml_wf_update_child xml_wf_getOrCreateChild "3.prems" conjI "3.IH"(2) tag_name_store)
qed (simp_all add: xml_wf_set_leaf)

definition xml_config_wf :: "ConfigXML \<Rightarrow> bool" where
  "xml_config_wf c \<longleftrightarrow> (case xml_root c of None \<Rightarrow> \<not> xml_valid c | Some r \<Rightarrow> xml_wf r)"

lemma xml_config_wf_new: "xml_config_wf (new_ConfigXML file)"
  by (auto simp: xml_config_wf_def new_ConfigXML_def parse_xml_def Let_def split: option.splits
      dest: xml_parse_wf(1))

lemma xml_config_wf_set: "xml_config_wf c \<Longrightarrow> xml_config_wf (fst (xml_set c name v))"
  by (auto simp: xml_config_wf_def xml_set_def Let_def xml_set_loop_store xml_wf_store split: option.splits)

section \<open>Properties\<close>

text \<open>
  C4. Every document of the grammar is accepted and held as its tree: prologs, comments,
  attributes and the whitespace around texts are dropped, every element is a child of its
  parent under its tag, in document order, with its last text and that text's number.
\<close>

theorem xml_parse_complete:
  assumes "xml_prolog w" and "xml_elem e s" and "NUL \<notin> set rest"
  shows "new_ConfigXML (Some (w @ s @ rest)) = \<lparr>xml_root = Some (xml_node e), xml_valid = True\<rparr>"
proof -
  have nul: "cstr_of (w @ s @ rest) = w @ s @ rest"
    using assms by (intro cstr_of_id) (simp add: NUL_free_xml_prolog NUL_free_xml_text(1))
  obtain tag items u where "xml_tag tag" and s: "s = CHR ''<'' # tag @ u" using xml_elem_form [OF assms(2)] by blast
  then have "\<not> xml_at ''<?'' (s @ rest)" by (cases tag) (auto simp: xml_tag_def xml_at_def)
  then have "skip_xml_prolog_or_comment (w @ s @ rest) = s @ rest"
    using xml_elem_deref(1-3) [OF assms(2), of rest] by (intro skip_xml_prolog assms(1))
  then show ?thesis
    using xml_text_parse(1) [OF assms(2), of rest]
    using nul by (simp add: new_ConfigXML_def parse_xml_def s)
qed

theorem xml_parse_complete_witness:
  "new_ConfigXML (Some (''<?xml?> '' @ ''<cfg v=1><a> x 1 </a><b/></cfg>'' @ '' '')) =
     \<lparr>xml_root = Some (xml_node (XI_Elem ''cfg'' [XI_Elem ''a'' [XI_Text ''x 1''], XI_Elem ''b'' []])), xml_valid = True\<rparr>"
proof -
  note ev = xml_tag_def xml_tag_char_def xml_ws_def xml_attrs_def xml_space_def xml_chars_def
  have "xml_items [XI_Text ''x 1''] (''x 1'' @ '' '' @ [])"
    by (rule items_text [OF _ _ items_nil]) (simp_all add: ev)
  then have "xml_items [XI_Text ''x 1''] (CHR '' '' # ''x 1 '')"
    using items_space [of "CHR '' ''" _ "''x 1 ''"] by (simp add: ev)
  then have "xml_elem (XI_Elem ''a'' [XI_Text ''x 1'']) (CHR ''<'' # ''a'' @ [] @ CHR ''>'' # '' x 1 '' @ ''</'' @ ''a'' @ [] @ ''>'')"
    by (intro elem_full) (simp_all add: ev)
  moreover have "xml_elem (XI_Elem ''b'' []) (CHR ''<'' # ''b'' @ [] @ ''/>'')"
    by (rule elem_empty) (simp_all add: ev)
  ultimately have "xml_items [XI_Elem ''a'' [XI_Text ''x 1''], XI_Elem ''b'' []]
      ((CHR ''<'' # ''a'' @ [] @ CHR ''>'' # '' x 1 '' @ ''</'' @ ''a'' @ [] @ ''>'') @ (CHR ''<'' # ''b'' @ [] @ ''/>'') @ [])"
    by (intro items_elem items_nil)
  then have "xml_elem (XI_Elem ''cfg'' [XI_Elem ''a'' [XI_Text ''x 1''], XI_Elem ''b'' []])
      (CHR ''<'' # ''cfg'' @ '' v=1'' @ CHR ''>'' # ''<a> x 1 </a><b/>'' @ ''</'' @ ''cfg'' @ [] @ ''>'')"
    by (intro elem_full) (simp_all add: ev)
  moreover have "xml_prolog (''<?'' @ ''xml'' @ ''?>'' @ '' '')"
    by (intro prolog_pi prolog_space prolog_nil) (simp_all add: ev)
  ultimately show ?thesis
    using xml_parse_complete [of "''<?xml?> ''" _ "''<cfg v=1><a> x 1 </a><b/></cfg>''" "'' ''"] by simp
qed

text \<open>
  Every configuration the program can reach, from any file and by any calls of \<open>set\<close>, is a
  well-formed tree: every child is filed under its own tag.
\<close>

lemma xml_wf_invariant: "xml_config_wf (set_all xml_set (new_ConfigXML file) kvs)"
  by (rule set_all_invariant) (rule xml_config_wf_new, rule xml_config_wf_set)

text \<open>
  The closing tag is not compared with the opening one: an element closed by any other
  tag is accepted and read exactly as if it were closed properly.
\<close>

lemma xml_closing_tag_unchecked:
  assumes "xml_tag tag" and "xml_items items t" and "xml_tag other"
  shows "new_ConfigXML (Some (CHR ''<'' # tag @ CHR ''>'' # t @ ''</'' @ other @ ''>'')) =
      new_ConfigXML (Some (CHR ''<'' # tag @ CHR ''>'' # t @ ''</'' @ tag @ ''>'')) \<and>
    xml_Probe (new_ConfigXML (Some (CHR ''<'' # tag @ CHR ''>'' # t @ ''</'' @ other @ ''>'')))"
proof -
  have "new_ConfigXML (Some (CHR ''<'' # tag @ CHR ''>'' # t @ ''</'' @ any @ ''>'')) =
      \<lparr>xml_root = Some (foldl xml_add (new_XMLNode tag) items), xml_valid = True\<rparr>" if any: "xml_tag any" for any
  proof -
    let ?q = "''</'' @ any @ ''>''"
    have gt: "CHR ''>'' \<notin> set any" using any unfolding xml_tag_def xml_tag_char_def by blast
    have close: "xml_close ?q = []" using xml_close_tag [OF gt, of "[]" "[]"] by (simp add: xml_space_def)
    have skip: "skip_xml_whitespace ?q = ?q" by (rule skip_xml_nonspace) (simp add: xml_ws_def)
    have "xml_content m ?q = Some (m, [])" for m
      using skip close by (subst xml_content.simps) (simp add: Let_def xml_at_def)
    then have content: "xml_content (new_XMLNode tag) (t @ ?q) = Some (foldl xml_add (new_XMLNode tag) items, [])"
      using xml_text_parse(2) [OF assms(2), of ?q] by simp
    have "xml_start (CHR ''<'' # tag @ CHR ''>'' # t @ ?q) = Some (tag, False, t @ ?q)"
      using xml_start_text [OF assms(1), of "[]" "CHR ''>'' # t @ ?q"] by (simp add: xml_attrs_def xml_at_def)
    with content have elem: "parse_xml_element (CHR ''<'' # tag @ CHR ''>'' # t @ ?q) =
        Some (foldl xml_add (new_XMLNode tag) items, [])"
      by (simp add: parse_xml_element.simps)
    have tag: "hd tag \<notin> {CHR ''?'', CHR ''!''}" "tag \<noteq> []" using assms(1) by (auto simp: xml_tag_def)
    have "skip_xml_prolog_or_comment ([] @ CHR ''<'' # tag @ CHR ''>'' # t @ ?q) = CHR ''<'' # tag @ CHR ''>'' # t @ ?q"
      using tag by (intro skip_xml_prolog prolog_nil; cases tag) (auto simp: xml_at_def)
    moreover have "cstr_of (CHR ''<'' # tag @ CHR ''>'' # t @ ?q) = CHR ''<'' # tag @ CHR ''>'' # t @ ?q"
      using assms any NUL_free_xml_text(2) [OF assms(2)] by (intro cstr_of_id) (simp add: xml_tag_def)
    ultimately show ?thesis using elem by (simp add: new_ConfigXML_def parse_xml_def)
  qed
  from this [OF assms(3)] this [OF assms(1)] show ?thesis by (simp add: xml_Probe_def)
qed

lemma xml_closing_tag_unchecked_example:
  "new_ConfigXML (Some (CHR ''<'' # ''a'' @ CHR ''>'' # [] @ ''</'' @ ''b'' @ ''>'')) =
      new_ConfigXML (Some (CHR ''<'' # ''a'' @ CHR ''>'' # [] @ ''</'' @ ''a'' @ ''>'')) \<and>
    xml_Probe (new_ConfigXML (Some (CHR ''<'' # ''a'' @ CHR ''>'' # [] @ ''</'' @ ''b'' @ ''>'')))"
  by (rule xml_closing_tag_unchecked [OF _ items_nil]) (simp_all add: xml_tag_def xml_tag_char_def xml_ws_def)

text \<open>
  The last assignment wins: after any sequence of \<open>set\<close> calls, \<open>get\<close> returns the value
  last written to a name and \<open>getNumber\<close> its conversion, if the names written after it neither
  lie above nor below it in the tree. Names with and without the root tag denote the same node.
\<close>

lemma xml_last_write_wins:
  assumes "xml_segs c name \<noteq> []" and "xml_segs c q = xml_segs c name"
    and "\<forall>(n, v) \<in> set later. unrelated (xml_segs c n) (xml_segs c name)"
  shows "let c' = set_all (\<lambda>c n v. xml_set c (Some n) (Some v)) c (earlier @ (name, val) # later) in
    xml_get c' (Some q) = cstr_of val \<and> xml_getNumber c' (Some q) = atoins val"
proof -
  let ?c = "set_all (\<lambda>c n v. xml_set c (Some n) (Some v)) c (earlier @ (name, val) # later)"
  have "xml_segs ?c q = xml_segs ?c name" using assms(2) by (simp only: xml_config.segs_set_all)
  then have "xml_get ?c (Some q) = xml_get ?c (Some name)" "xml_getNumber ?c (Some q) = xml_getNumber ?c (Some name)"
    by (simp_all only: xml_get_lookup xml_getNumber_lookup)
  with xml_config.read_set_all_last [OF assms(1,3)] show ?thesis by (simp add: Let_def)
qed

lemma xml_last_write_wins_example:
  "let c' = set_all (\<lambda>c n v. xml_set c (Some n) (Some v)) (new_ConfigXML None)
      ([(''net'', ''x'')] @ (''root/net/mtu'', ''1500'') # [(''net/dev'', ''eth0'')]) in
    xml_get c' (Some ''net/mtu'') = cstr_of ''1500'' \<and> xml_getNumber c' (Some ''net/mtu'') = atoins ''1500''"
  by (rule xml_last_write_wins)
     (simp_all add: xml_segs_def xml_tree_of_def xml_strip_root_def new_ConfigXML_def parse_xml_def new_XMLNode_def
        skip_xml_prolog_or_comment.simps StrCompare_eq_0
        segments.simps segment_def after_segment_def seg_limit_def xml_sep_def cstr_of_def)

end
