(* ===== verification/Sort.thy ===== *)
theory Sort
  imports Prelude "HOL-Library.Monad_Syntax"
begin

text \<open>
  The sorting algorithms of \<open>src/lib/cpp/sort.cpp\<close>, over the array interface of
  \<open>src/inc/cpp/trait/ArrayTrait.hpp\<close> as \<open>uni::Vector\<close> implements it (\<open>src/inc/cpp/vector\<close>): the
  array is a list, \<open>Locate\<close> of an index outside it (a read past the storage) is \<open>None\<close>, and
  \<open>Exchange\<close> of such an index changes nothing. The comparison function is a parameter.
  Indices are naturals, with the wrap-around of \<open>count - 1\<close> at 0 written out.
\<close>

section \<open>Arrays\<close>

definition Locate :: "'a list \<Rightarrow> nat \<Rightarrow> 'a option" where
  "Locate arr idx = (if idx < length arr then Some (arr ! idx) else None)"

definition Exchange :: "'a list \<Rightarrow> nat \<Rightarrow> nat \<Rightarrow> 'a list" where
  "Exchange arr idx1 idx2 =
     (if idx1 = idx2 then arr
      else if idx1 \<ge> length arr \<or> idx2 \<ge> length arr then arr
      else arr[idx1 := arr ! idx2, idx2 := arr ! idx1])"

text \<open>\<open>stduint\<close> subtraction of one.\<close>

definition usub1 :: "nat \<Rightarrow> nat" where
  "usub1 n = (n + (2 ^ 64 - 1)) mod 2 ^ 64"

type_synonym 'a comparison = "'a \<Rightarrow> 'a \<Rightarrow> int"

section \<open>Bubble sort\<close>

function bubble_pass :: "'a comparison \<Rightarrow> 'a list \<Rightarrow> nat \<Rightarrow> nat \<Rightarrow> bool \<Rightarrow> ('a list \<times> bool) option" where
  "bubble_pass cmp arr j lim swapped =
     (if j < lim then
        do {
          a \<leftarrow> Locate arr j;
          b \<leftarrow> Locate arr (j + 1);
          if cmp a b > 0 then bubble_pass cmp (Exchange arr j (j + 1)) (j + 1) lim True
          else bubble_pass cmp arr (j + 1) lim swapped
        }
      else Some (arr, swapped))"
  by pat_completeness auto
termination
  by (relation "measure (\<lambda>(cmp, arr, j, lim, s). lim - j)") auto

function bubble_loop :: "'a comparison \<Rightarrow> 'a list \<Rightarrow> nat \<Rightarrow> nat \<Rightarrow> 'a list option" where
  "bubble_loop cmp arr cnt i =
     (if i < cnt then
        do {
          (arr', swapped) \<leftarrow> bubble_pass cmp arr 0 (cnt - i - 1) False;
          if \<not> swapped then Some arr' else bubble_loop cmp arr' cnt (i + 1)
        }
      else Some arr)"
  by pat_completeness auto
termination
  by (relation "measure (\<lambda>(cmp, arr, cnt, i). cnt - i)") auto

definition SortBubble :: "'a comparison \<Rightarrow> 'a list \<Rightarrow> 'a list option" where
  "SortBubble cmp arr = bubble_loop cmp arr (length arr) 0"

section \<open>Insertion sort\<close>

function insertion_step :: "'a comparison \<Rightarrow> 'a list \<Rightarrow> int \<Rightarrow> 'a list option" where
  "insertion_step cmp arr j =
     (if j \<ge> 0 then
        do {
          a \<leftarrow> Locate arr (nat j);
          b \<leftarrow> Locate arr (nat (j + 1));
          if cmp a b > 0 then insertion_step cmp (Exchange arr (nat j) (nat (j + 1))) (j - 1)
          else Some arr
        }
      else Some arr)"
  by pat_completeness auto
termination
  by (relation "measure (\<lambda>(cmp, arr, j). nat (j + 1))") auto

function insertion_loop :: "'a comparison \<Rightarrow> 'a list \<Rightarrow> nat \<Rightarrow> nat \<Rightarrow> 'a list option" where
  "insertion_loop cmp arr i lim =
     (if i \<le> lim then
        do {
          arr' \<leftarrow> insertion_step cmp arr (int i - 1);
          insertion_loop cmp arr' (i + 1) lim
        }
      else Some arr)"
  by pat_completeness auto
termination
  by (relation "measure (\<lambda>(cmp, arr, i, lim). lim + 1 - i)") auto

definition SortInsertion :: "'a comparison \<Rightarrow> 'a list \<Rightarrow> 'a list option" where
  "SortInsertion cmp arr = insertion_loop cmp arr 1 (usub1 (length arr))"

section \<open>Selection sort\<close>

function selection_scan :: "'a comparison \<Rightarrow> 'a list \<Rightarrow> nat \<Rightarrow> nat \<Rightarrow> nat \<Rightarrow> nat option" where
  "selection_scan cmp arr clim_one j cnt =
     (if j < cnt then
        do {
          a \<leftarrow> Locate arr clim_one;
          b \<leftarrow> Locate arr j;
          selection_scan cmp arr (if cmp a b > 0 then j else clim_one) (j + 1) cnt
        }
      else Some clim_one)"
  by pat_completeness auto
termination
  by (relation "measure (\<lambda>(cmp, arr, c, j, cnt). cnt - j)") auto

function selection_loop :: "'a comparison \<Rightarrow> 'a list \<Rightarrow> nat \<Rightarrow> nat \<Rightarrow> nat \<Rightarrow> 'a list option" where
  "selection_loop cmp arr i lim cnt =
     (if i < lim then
        do {
          clim_one \<leftarrow> selection_scan cmp arr i (i + 1) cnt;
          selection_loop cmp (Exchange arr i clim_one) (i + 1) lim cnt
        }
      else Some arr)"
  by pat_completeness auto
termination
  by (relation "measure (\<lambda>(cmp, arr, i, lim, cnt). lim - i)") auto

definition SortSelection :: "'a comparison \<Rightarrow> 'a list \<Rightarrow> 'a list option" where
  "SortSelection cmp arr = selection_loop cmp arr 0 (usub1 (length arr)) (length arr)"

section \<open>Heap sort\<close>

function SortBintreeAdapt :: "'a comparison \<Rightarrow> 'a list \<Rightarrow> nat \<Rightarrow> nat \<Rightarrow> 'a list option" where
  "SortBintreeAdapt cmp arr index cnt =
     (if cnt < 2 then Some arr
      else do {
        arr1 \<leftarrow> (if 2 * index + 1 < cnt then do {
                    arr' \<leftarrow> SortBintreeAdapt cmp arr (2 * index + 1) cnt;
                    a \<leftarrow> Locate arr' index;
                    b \<leftarrow> Locate arr' (2 * index + 1);
                    Some (if cmp a b < 0 then Exchange arr' index (2 * index + 1) else arr')
                  } else Some arr);
        if 2 * index + 2 < cnt then do {
          arr' \<leftarrow> SortBintreeAdapt cmp arr1 (2 * index + 2) cnt;
          a \<leftarrow> Locate arr' index;
          b \<leftarrow> Locate arr' (2 * index + 2);
          Some (if cmp a b < 0 then Exchange arr' index (2 * index + 2) else arr')
        } else Some arr1
      })"
  by pat_completeness auto
termination
  by (relation "measure (\<lambda>(cmp, arr, index, cnt). cnt - index)") auto

text \<open>\<open>for1r(i, times)\<close> decrements before the first test, so the loop starts at \<open>times - 1\<close>.\<close>

fun bintree_sweep :: "'a comparison \<Rightarrow> 'a list \<Rightarrow> nat \<Rightarrow> 'a list option" where
  "bintree_sweep cmp arr i =
     (if i = 0 then Some arr
      else do {
        a \<leftarrow> Locate arr ((i - 1) div 2);
        b \<leftarrow> Locate arr i;
        bintree_sweep cmp (if cmp a b < 0 then Exchange arr i ((i - 1) div 2) else arr) (i - 1)
      })"

fun bintree_loop :: "'a comparison \<Rightarrow> 'a list \<Rightarrow> nat \<Rightarrow> 'a list option" where
  "bintree_loop cmp arr cnt =
     (if cnt = 0 then Some arr
      else do {
        arr' \<leftarrow> SortBintreeAdapt cmp (Exchange arr 0 (cnt - 1)) 0 (cnt - 1);
        bintree_loop cmp arr' (cnt - 1)
      })"

definition SortBintree :: "'a comparison \<Rightarrow> 'a list \<Rightarrow> 'a list option" where
  "SortBintree cmp arr =
     (let cnt = length arr in
      if cnt < 2 then Some arr
      else do {
        arr' \<leftarrow> bintree_sweep cmp arr (cnt - 1 - 1);
        bintree_loop cmp arr' cnt
      })"

section \<open>Merge sort\<close>

text \<open>The loop \<open>for0(i, lleft) arr.Exchange(pright, pleft + i)\<close>.\<close>

fun merge_rotate :: "'a list \<Rightarrow> nat \<Rightarrow> nat \<Rightarrow> nat \<Rightarrow> 'a list" where
  "merge_rotate arr pright pleft 0 = arr"
| "merge_rotate arr pright pleft (Suc n) = merge_rotate (Exchange arr pright pleft) pright (pleft + 1) n"

function merge_loop :: "'a comparison \<Rightarrow> 'a list \<Rightarrow> nat \<Rightarrow> nat \<Rightarrow> nat \<Rightarrow> nat \<Rightarrow> 'a list option" where
  "merge_loop cmp arr pleft pright lleft lright =
     (if lleft \<noteq> 0 \<and> lright \<noteq> 0 then
        do {
          a \<leftarrow> Locate arr pleft;
          b \<leftarrow> Locate arr pright;
          if cmp a b \<le> 0 then merge_loop cmp arr (pleft + 1) pright (lleft - 1) lright
          else merge_loop cmp (merge_rotate arr pright pleft lleft) (pleft + 1) (pright + 1) lleft (lright - 1)
        }
      else Some arr)"
  by pat_completeness auto
termination
  by (relation "measure (\<lambda>(cmp, arr, pl, pr, ll, lr). ll + lr)") auto

definition SortMerge_MergeArn :: "'a comparison \<Rightarrow> 'a list \<Rightarrow> nat \<Rightarrow> nat \<Rightarrow> 'a list option" where
  "SortMerge_MergeArn cmp arr left lens =
     (if lens < 2 then Some arr
      else merge_loop cmp arr left (left + lens div 2) (lens div 2) (lens - lens div 2))"

function SortMergeSub :: "'a comparison \<Rightarrow> 'a list \<Rightarrow> nat \<Rightarrow> nat \<Rightarrow> 'a list option" where
  "SortMergeSub cmp arr left lens =
     (if lens < 2 then Some arr
      else do {
        arr1 \<leftarrow> SortMergeSub cmp arr left (lens div 2);
        arr2 \<leftarrow> SortMergeSub cmp arr1 (left + lens div 2) (lens - lens div 2);
        SortMerge_MergeArn cmp arr2 left lens
      })"
  by pat_completeness auto
termination
  by (relation "measure (\<lambda>(cmp, arr, left, lens). lens)") auto

definition SortMerge :: "'a comparison \<Rightarrow> 'a list \<Rightarrow> 'a list option" where
  "SortMerge cmp arr = SortMergeSub cmp arr 0 (length arr)"

section \<open>Quick sort\<close>

fun quick_tail :: "'a comparison \<Rightarrow> 'a list \<Rightarrow> nat \<Rightarrow> nat \<Rightarrow> nat \<Rightarrow> nat option" where
  "quick_tail cmp arr key head tail =
     (if head < tail then
        do {
          a \<leftarrow> Locate arr key;
          b \<leftarrow> Locate arr tail;
          if cmp a b \<le> 0 then quick_tail cmp arr key head (tail - 1) else Some tail
        }
      else Some tail)"

function quick_head :: "'a comparison \<Rightarrow> 'a list \<Rightarrow> nat \<Rightarrow> nat \<Rightarrow> nat \<Rightarrow> nat option" where
  "quick_head cmp arr key head tail =
     (if head < tail then
        do {
          a \<leftarrow> Locate arr head;
          b \<leftarrow> Locate arr key;
          if cmp a b \<le> 0 then quick_head cmp arr key (head + 1) tail else Some head
        }
      else Some head)"
  by pat_completeness auto
termination
  by (relation "measure (\<lambda>(cmp, arr, key, head, tail). tail - head)") auto

text \<open>
  Whether the outer loop ends depends on the comparison function, so it is a partial function:
  \<open>None\<close> is not returning (or a read outside the array).
\<close>

partial_function (option) quick_loop ::
    "'a comparison \<Rightarrow> 'a list \<Rightarrow> nat \<Rightarrow> nat \<Rightarrow> nat \<Rightarrow> ('a list \<times> nat) option" where
  "quick_loop cmp arr head tail key =
     (if head < tail then
        do {
          tail1 \<leftarrow> quick_tail cmp arr key head tail;
          let (arr1, key1) = (if head < tail1 then (Exchange arr key tail1, tail1) else (arr, key));
          head1 \<leftarrow> quick_head cmp arr1 key1 head tail1;
          let (arr2, key2) = (if head1 < tail1 then (Exchange arr1 key1 head1, head1) else (arr1, key1));
          quick_loop cmp arr2 head1 tail1 key2
        }
      else Some (arr, key))"

partial_function (option) SortQuickSub :: "'a comparison \<Rightarrow> 'a list \<Rightarrow> nat \<Rightarrow> nat \<Rightarrow> 'a list option" where
  "SortQuickSub cmp arr left lens =
     (if lens < 2 then Some arr
      else do {
        (arr1, key) \<leftarrow> quick_loop cmp arr left (left + lens - 1) left;
        arr2 \<leftarrow> SortQuickSub cmp arr1 left (key - left);
        SortQuickSub cmp arr2 (key + 1) (nat ((int lens - int key + int left - 1) mod 2 ^ 64))
      })"

definition SortQuick :: "'a comparison \<Rightarrow> 'a list \<Rightarrow> 'a list option" where
  "SortQuick cmp arr = SortQuickSub cmp arr 0 (length arr)"

section \<open>The dispatcher\<close>

text \<open>A mode without an algorithm (\<open>Shell\<close>) leaves the array as it is.\<close>

datatype SortMode = Bubble | Insertion | Selection | Heap | Merge | Quick | Shell

definition Sort :: "'a comparison \<Rightarrow> SortMode \<Rightarrow> 'a list \<Rightarrow> 'a list option" where
  "Sort cmp sm arr =
     (case sm of
        Bubble \<Rightarrow> SortBubble cmp arr
      | Insertion \<Rightarrow> SortInsertion cmp arr
      | Selection \<Rightarrow> SortSelection cmp arr
      | Heap \<Rightarrow> SortBintree cmp arr
      | Merge \<Rightarrow> SortMerge cmp arr
      | Quick \<Rightarrow> SortQuick cmp arr
      | Shell \<Rightarrow> Some arr)"

declare bubble_pass.simps [simp del] bubble_loop.simps [simp del] insertion_step.simps [simp del]
  insertion_loop.simps [simp del] selection_scan.simps [simp del] selection_loop.simps [simp del]
  SortBintreeAdapt.simps [simp del] bintree_sweep.simps [simp del] bintree_loop.simps [simp del]
  merge_loop.simps [simp del] SortMergeSub.simps [simp del] quick_tail.simps [simp del]
  quick_head.simps [simp del]

end
