(* ===== verification/SortCorrect.thy ===== *)
theory SortCorrect
  imports Sort
begin

text \<open>
  The sorting algorithms return, without reading outside the array, a sorted permutation of it
  whenever the comparison function is a total preorder; merge sort is the stable top-down merge
  sort; quick sort terminates. The heap sort of the source misses the last element.
\<close>

section \<open>Comparison functions and sortedness\<close>

definition comparator :: "'a comparison \<Rightarrow> bool" where
  "comparator cmp \<longleftrightarrow> (\<forall>x y. cmp x y \<le> 0 \<or> cmp y x \<le> 0) \<and>
     (\<forall>x y z. cmp x y \<le> 0 \<longrightarrow> cmp y z \<le> 0 \<longrightarrow> cmp x z \<le> 0)"

definition cmp_sorted :: "'a comparison \<Rightarrow> 'a list \<Rightarrow> bool" where
  "cmp_sorted cmp arr \<longleftrightarrow> sorted_wrt (\<lambda>x y. cmp x y \<le> 0) arr"

lemma comparator_total: "comparator cmp \<Longrightarrow> cmp x y > 0 \<Longrightarrow> cmp y x \<le> 0"
  by (auto simp: comparator_def) (meson not_less)

lemma comparator_trans: "comparator cmp \<Longrightarrow> cmp x y \<le> 0 \<Longrightarrow> cmp y z \<le> 0 \<Longrightarrow> cmp x z \<le> 0"
  by (auto simp: comparator_def)

lemma comparator_refl: "comparator cmp \<Longrightarrow> cmp x x \<le> 0"
  by (auto simp: comparator_def)

lemma cmp_sorted_nth: "cmp_sorted cmp arr \<longleftrightarrow> (\<forall>b < length arr. \<forall>a < b. cmp (arr ! a) (arr ! b) \<le> 0)"
  by (auto simp: cmp_sorted_def sorted_wrt_iff_nth_less)

section \<open>Arrays\<close>

lemma length_Exchange [simp]: "length (Exchange arr i j) = length arr"
  by (simp add: Exchange_def)

lemma mset_Exchange [simp]: "mset (Exchange arr i j) = mset arr"
  by (auto simp: Exchange_def mset_swap)

lemma nth_Exchange:
  "i < length arr \<Longrightarrow> j < length arr \<Longrightarrow>
   Exchange arr i j ! k = (if k = i then arr ! j else if k = j then arr ! i else arr ! k)"
  by (cases "k < length arr") (auto simp: Exchange_def nth_list_update)

lemma Locate_in [simp]: "i < length arr \<Longrightarrow> Locate arr i = Some (arr ! i)"
  by (simp add: Locate_def)

lemma set_take_Exchange:
  assumes "i < m" "j < m" "m \<le> length arr"
  shows "set (take m (Exchange arr i j)) = set (take m arr)"
proof -
  have "take m (Exchange arr i j) = Exchange (take m arr) i j"
    using assms by (simp add: Exchange_def take_update_swap)
  then show ?thesis by (metis mset_Exchange set_mset_mset)
qed

lemma usub1_pos: "0 < n \<Longrightarrow> n < 2 ^ 64 \<Longrightarrow> usub1 n = n - 1"
proof -
  assume "0 < n" "n < 2 ^ 64"
  then have "n + (2 ^ 64 - 1) = (n - 1) + 2 ^ 64" by simp
  then show ?thesis using \<open>n < 2 ^ 64\<close> by (simp only: usub1_def mod_add_self2) simp
qed

section \<open>Bubble sort\<close>

text \<open>
  A pass moves a maximum of the first \<open>lim + 1\<close> elements to \<open>lim\<close>, changes nothing behind it,
  and reports no swap only when the elements were already in order.
\<close>

definition bubble_post :: "'a comparison \<Rightarrow> 'a list \<Rightarrow> nat \<Rightarrow> nat \<Rightarrow> bool \<Rightarrow> 'a list \<Rightarrow> bool \<Rightarrow> bool" where
  "bubble_post cmp arr j lim swapped arr' s \<longleftrightarrow> mset arr' = mset arr \<and>
    set (take (lim + 1) arr') = set (take (lim + 1) arr) \<and> (\<forall>k > lim. arr' ! k = arr ! k) \<and>
    (\<forall>k < lim. cmp (arr' ! k) (arr' ! lim) \<le> 0) \<and>
    (\<not> s \<longrightarrow> \<not> swapped \<and> arr' = arr \<and> (\<forall>k. j \<le> k \<longrightarrow> k < lim \<longrightarrow> cmp (arr ! k) (arr ! (k + 1)) \<le> 0))"

lemma bubble_post_swap:
  "bubble_post cmp (Exchange arr j (j + 1)) (j + 1) lim True arr' s \<Longrightarrow> j < lim \<Longrightarrow> lim < length arr \<Longrightarrow>
   bubble_post cmp arr j lim swapped arr' s"
  by (auto simp: bubble_post_def set_take_Exchange nth_Exchange)

lemma bubble_post_keep:
  assumes "bubble_post cmp arr (j + 1) lim swapped arr' s" and "cmp (arr ! j) (arr ! (j + 1)) \<le> 0"
  shows "bubble_post cmp arr j lim swapped arr' s"
proof -
  have "cmp (arr ! k) (arr ! (k + 1)) \<le> 0" if "\<not> s" "j \<le> k" "k < lim" for k
    using assms that by (cases "k = j") (auto simp: bubble_post_def)
  then show ?thesis using assms(1) by (simp add: bubble_post_def)
qed

lemma bubble_pass_spec:
  assumes "comparator cmp" "lim < length arr" "j \<le> lim" "\<forall>k < j. cmp (arr ! k) (arr ! j) \<le> 0"
  shows "\<exists>arr' s. bubble_pass cmp arr j lim swapped = Some (arr', s) \<and> bubble_post cmp arr j lim swapped arr' s"
  using assms
proof (induction cmp arr j lim swapped rule: bubble_pass.induct)
  case (1 cmp arr j lim swapped)
  show ?case
  proof (cases "j < lim")
    case False
    with 1 show ?thesis by (simp add: bubble_pass.simps [of cmp arr] bubble_post_def)
  next
    case True
    then have len: "j < length arr" "j + 1 < length arr" "lim < length arr" "j + 1 \<le> lim" using "1.prems" by auto
    have ex: "Exchange arr j (j + 1) ! k = (if k = j then arr ! (j + 1) else if k = j + 1 then arr ! j else arr ! k)" for k
      using len by (intro nth_Exchange) auto
    show ?thesis
    proof (cases "cmp (arr ! j) (arr ! (j + 1)) > 0")
      case swap: True
      let ?arr = "Exchange arr j (j + 1)"
      have max: "\<forall>k < j + 1. cmp (?arr ! k) (?arr ! (j + 1)) \<le> 0"
        using 1(6) comparator_total [OF 1(3) swap] unfolding ex by auto
      have "\<exists>arr' s. bubble_pass cmp ?arr (j + 1) lim True = Some (arr', s) \<and>
          bubble_post cmp ?arr (j + 1) lim True arr' s"
        using True swap len 1(3) max by (intro "1.IH"(1) [of "arr ! j" "arr ! (j + 1)"]) simp_all
      then show ?thesis
        using True swap len bubble_post_swap [of cmp arr j lim _ _ swapped]
        by (fastforce simp: bubble_pass.simps [of cmp arr j])
    next
      case noswap: False
      have max: "\<forall>k < j + 1. cmp (arr ! k) (arr ! (j + 1)) \<le> 0"
        using noswap 1(6) comparator_trans [OF 1(3)] by (auto simp: less_Suc_eq)
      have "\<exists>arr' s. bubble_pass cmp arr (j + 1) lim swapped = Some (arr', s) \<and>
          bubble_post cmp arr (j + 1) lim swapped arr' s"
        using True noswap len 1(3) max by (intro "1.IH"(2) [of "arr ! j" "arr ! (j + 1)"]) simp_all
      then show ?thesis
        using True noswap len bubble_post_keep [of cmp arr j lim swapped]
        by (fastforce simp: bubble_pass.simps [of cmp arr j])
    qed
  qed
qed

text \<open>Everything from position \<open>m\<close> on is in its final place.\<close>

definition sorted_from :: "'a comparison \<Rightarrow> nat \<Rightarrow> 'a list \<Rightarrow> bool" where
  "sorted_from cmp m arr \<longleftrightarrow> (\<forall>b < length arr. \<forall>a < b. m \<le> b \<longrightarrow> cmp (arr ! a) (arr ! b) \<le> 0)"

lemma sorted_from_0: "sorted_from cmp 0 arr = cmp_sorted cmp arr"
  by (simp add: sorted_from_def cmp_sorted_nth)

lemma sorted_from_step:
  assumes "sorted_from cmp (lim + 1) arr" and "lim < length arr" and "length arr' = length arr"
    and "set (take (lim + 1) arr') = set (take (lim + 1) arr)" and "\<forall>k > lim. arr' ! k = arr ! k"
    and "\<forall>k < lim. cmp (arr' ! k) (arr' ! lim) \<le> 0"
  shows "sorted_from cmp lim arr'"
  unfolding sorted_from_def
proof (intro allI impI)
  fix a b assume b: "b < length arr'" "a < b" "lim \<le> b"
  consider "b = lim" | "b > lim" "a > lim" | "b > lim" "a \<le> lim" using b(3) by linarith
  then show "cmp (arr' ! a) (arr' ! b) \<le> 0"
  proof cases
    case 1
    then show ?thesis using assms(6) b by simp
  next
    case 2
    then show ?thesis using assms b by (simp add: sorted_from_def)
  next
    case 3
    then have "arr' ! a \<in> set (take (lim + 1) arr')"
      using assms(2,3) by (auto simp: in_set_conv_nth intro!: exI [of _ a])
    then obtain c where "c \<le> lim" "arr' ! a = arr ! c"
      using assms(2) unfolding assms(4) in_set_conv_nth by (auto simp: less_Suc_eq_le dest!: sym [of "arr ! _"])
    then show ?thesis using 3 assms(1,3,5) b by (simp add: sorted_from_def)
  qed
qed

lemma adjacent_sorted:
  assumes "comparator cmp" and "\<forall>k < m. cmp (arr ! k) (arr ! (k + 1)) \<le> 0"
  shows "b \<le> m \<Longrightarrow> a < b \<Longrightarrow> cmp (arr ! a) (arr ! b) \<le> 0"
proof (induction b)
  case (Suc b)
  have adj: "cmp (arr ! b) (arr ! Suc b) \<le> 0" using assms(2) Suc.prems by simp
  show ?case
  proof (cases "a = b")
    case False
    with Suc have "cmp (arr ! a) (arr ! b) \<le> 0" by simp
    with adj comparator_trans [OF assms(1)] show ?thesis by blast
  qed (use adj in simp)
qed simp

lemma bubble_loop_spec:
  assumes "comparator cmp" and "cnt = length arr" and "sorted_from cmp (cnt - i) arr"
  shows "\<exists>arr'. bubble_loop cmp arr cnt i = Some arr' \<and> cmp_sorted cmp arr' \<and> mset arr' = mset arr"
  using assms
proof (induction cmp arr cnt i rule: bubble_loop.induct)
  case (1 cmp arr cnt i)
  show ?case
  proof (cases "i < cnt")
    case False
    then show ?thesis using 1 by (simp add: bubble_loop.simps [of cmp arr] sorted_from_0)
  next
    case True
    let ?lim = "cnt - i - 1"
    have lim: "?lim < length arr" "?lim + 1 = cnt - i" using True 1(3) by auto
    obtain arr' s where pass: "bubble_pass cmp arr 0 ?lim False = Some (arr', s)" "mset arr' = mset arr"
        "set (take (?lim + 1) arr') = set (take (?lim + 1) arr)" "\<forall>k > ?lim. arr' ! k = arr ! k"
        "\<forall>k < ?lim. cmp (arr' ! k) (arr' ! ?lim) \<le> 0"
        "\<not> s \<longrightarrow> arr' = arr \<and> (\<forall>k < ?lim. cmp (arr ! k) (arr ! (k + 1)) \<le> 0)"
      using bubble_pass_spec [OF 1(2) lim(1), of 0 False] by (auto simp: bubble_post_def)
    have len: "length arr' = length arr" using pass(2) by (rule mset_eq_length)
    have fr: "sorted_from cmp ?lim arr'"
      by (rule sorted_from_step [where arr = arr]) (use 1(4) lim len pass in simp_all)
    show ?thesis
    proof (cases s)
      case True
      then have "\<exists>ys. bubble_loop cmp arr' cnt (i + 1) = Some ys \<and> cmp_sorted cmp ys \<and> mset ys = mset arr'"
        using \<open>i < cnt\<close> pass 1(2,3) len fr by (intro "1.IH" [OF \<open>i < cnt\<close> pass(1) refl]) auto
      then show ?thesis
        using \<open>i < cnt\<close> pass True by (auto simp: bubble_loop.simps [of cmp arr])
    next
      case False
      have "cmp (arr ! a) (arr ! b) \<le> 0" if "a < b" "b < length arr" for a b
        using adjacent_sorted [OF 1(2), of ?lim arr b a] pass(6) False fr that
        by (cases "b \<le> ?lim") (auto simp: sorted_from_def)
      then show ?thesis
        using False \<open>i < cnt\<close> pass by (simp add: bubble_loop.simps [of cmp arr] cmp_sorted_nth)
    qed
  qed
qed

lemma SortBubble_spec:
  "comparator cmp \<Longrightarrow> \<exists>arr'. SortBubble cmp arr = Some arr' \<and> cmp_sorted cmp arr' \<and> mset arr' = mset arr"
  by (simp add: SortBubble_def bubble_loop_spec sorted_from_def)

section \<open>Insertion sort\<close>

text \<open>The first \<open>i + 1\<close> elements are in order but for the one at \<open>p\<close>, which may be too far right.\<close>

definition sorted_but :: "'a comparison \<Rightarrow> nat \<Rightarrow> nat \<Rightarrow> 'a list \<Rightarrow> bool" where
  "sorted_but cmp i p arr \<longleftrightarrow> (\<forall>b \<le> i. \<forall>a < b. b \<noteq> p \<longrightarrow> cmp (arr ! a) (arr ! b) \<le> 0)"

definition sorted_upto :: "'a comparison \<Rightarrow> nat \<Rightarrow> 'a list \<Rightarrow> bool" where
  "sorted_upto cmp i arr \<longleftrightarrow> (\<forall>b < i. \<forall>a < b. cmp (arr ! a) (arr ! b) \<le> 0)"

lemma sorted_but_done:
  assumes "comparator cmp" "sorted_but cmp i p arr" "p = 0 \<or> cmp (arr ! (p - 1)) (arr ! p) \<le> 0"
  shows "sorted_upto cmp (i + 1) arr"
  unfolding sorted_upto_def
proof (intro allI impI)
  fix a b assume ab: "b < i + 1" "a < b"
  show "cmp (arr ! a) (arr ! b) \<le> 0"
  proof (cases "b = p")
    case False
    then show ?thesis using assms(2) ab by (simp add: sorted_but_def)
  next
    case True
    then have le: "cmp (arr ! (p - 1)) (arr ! p) \<le> 0" using assms(3) ab by auto
    show ?thesis
    proof (cases "a = p - 1")
      case False
      then have "cmp (arr ! a) (arr ! (p - 1)) \<le> 0" using assms(2) ab True by (simp add: sorted_but_def)
      then show ?thesis using le comparator_trans [OF assms(1)] True by blast
    qed (use le True in simp)
  qed
qed

lemma sorted_but_step:
  assumes "comparator cmp" "sorted_but cmp i (p + 1) arr" "cmp (arr ! p) (arr ! (p + 1)) > 0" "p + 1 \<le> i" "i < length arr"
  shows "sorted_but cmp i p (Exchange arr p (p + 1))"
  unfolding sorted_but_def
proof (intro allI impI)
  fix a b assume ab: "b \<le> i" "a < b" "b \<noteq> p"
  have ex: "Exchange arr p (p + 1) ! k = (if k = p then arr ! (p + 1) else if k = p + 1 then arr ! p else arr ! k)" for k
    using assms(4,5) by (intro nth_Exchange) auto
  have swap: "cmp (arr ! (p + 1)) (arr ! p) \<le> 0" using assms(3) comparator_total [OF assms(1)] by blast
  have old: "d \<le> i \<Longrightarrow> c < d \<Longrightarrow> d \<noteq> p + 1 \<Longrightarrow> cmp (arr ! c) (arr ! d) \<le> 0" for c d
    using assms(2) by (simp add: sorted_but_def)
  show "cmp (Exchange arr p (p + 1) ! a) (Exchange arr p (p + 1) ! b) \<le> 0"
  proof (cases "b = p + 1")
    case True
    then show ?thesis using ab assms(4,5) swap old [of p a] unfolding ex by auto
  next
    case False
    then show ?thesis
      using ab assms(4,5) old [of b a] old [of b p] old [of b "p + 1"] unfolding ex by auto
  qed
qed

lemma insertion_step_spec:
  assumes "comparator cmp" "sorted_but cmp i (nat (j + 1)) arr" "- 1 \<le> j" "j < int i" "i < length arr"
  shows "\<exists>arr'. insertion_step cmp arr j = Some arr' \<and> sorted_upto cmp (i + 1) arr' \<and> mset arr' = mset arr"
  using assms
proof (induction cmp arr j rule: insertion_step.induct)
  case (1 cmp arr j)
  show ?case
  proof (cases "j \<ge> 0")
    case False
    then have "nat (j + 1) = 0" using 1(4) by simp
    then show ?thesis
      using False sorted_but_done [OF 1(2,3)] by (simp add: insertion_step.simps [of cmp arr])
  next
    case True
    then obtain p where p: "j = int p" using nonneg_int_cases by blast
    have nat: "nat j = p" "nat (j + 1) = p + 1" by (simp_all add: p nat_add_distrib)
    have len: "p < length arr" "p + 1 < length arr" using 1(5,6) p by auto
    show ?thesis
    proof (cases "cmp (arr ! p) (arr ! (p + 1)) > 0")
      case False
      then show ?thesis
        using True len sorted_but_done [OF 1(2,3)] nat by (simp add: insertion_step.simps [of cmp arr j])
    next
      case swap: True
      let ?arr = "Exchange arr p (p + 1)"
      have "sorted_but cmp i p ?arr"
        using 1 swap nat p by (intro sorted_but_step) auto
      then have "\<exists>arr'. insertion_step cmp ?arr (j - 1) = Some arr' \<and> sorted_upto cmp (i + 1) arr' \<and> mset arr' = mset ?arr"
        using "1.IH" [of "arr ! p" "arr ! (p + 1)"] True swap 1 len p by (simp add: nat_add_distrib)
      then show ?thesis
        using True swap len nat by (auto simp: insertion_step.simps [of cmp arr j])
    qed
  qed
qed

lemma insertion_loop_spec:
  assumes "comparator cmp" "sorted_upto cmp i arr" "0 < i" "i \<le> lim + 1" "lim < length arr"
  shows "\<exists>arr'. insertion_loop cmp arr i lim = Some arr' \<and> sorted_upto cmp (lim + 1) arr' \<and> mset arr' = mset arr"
  using assms
proof (induction cmp arr i lim rule: insertion_loop.induct)
  case (1 cmp arr i lim)
  show ?case
  proof (cases "i \<le> lim")
    case False
    then have "i = lim + 1" using 1 by simp
    then show ?thesis using 1 by (simp add: insertion_loop.simps [of cmp arr])
  next
    case True
    have "sorted_but cmp i i arr" using 1(3) by (auto simp: sorted_but_def sorted_upto_def)
    then obtain arr' where step: "insertion_step cmp arr (int i - 1) = Some arr'"
        "sorted_upto cmp (i + 1) arr'" "mset arr' = mset arr"
      using insertion_step_spec [OF 1(2), of i "int i - 1" arr] 1(4,6) True by auto
    then have "\<exists>ys. insertion_loop cmp arr' (i + 1) lim = Some ys \<and> sorted_upto cmp (lim + 1) ys \<and> mset ys = mset arr'"
      using True 1 mset_eq_length [OF step(3)] by (intro "1.IH") auto
    then show ?thesis using True step by (auto simp: insertion_loop.simps [of cmp arr])
  qed
qed

lemma SortInsertion_spec:
  assumes "comparator cmp" "arr \<noteq> []" "length arr < 2 ^ 64"
  shows "\<exists>arr'. SortInsertion cmp arr = Some arr' \<and> cmp_sorted cmp arr' \<and> mset arr' = mset arr"
proof -
  have lim: "usub1 (length arr) = length arr - 1" using assms by (intro usub1_pos) auto
  obtain arr' where "insertion_loop cmp arr 1 (length arr - 1) = Some arr'"
      "sorted_upto cmp (length arr - 1 + 1) arr'" "mset arr' = mset arr"
    using insertion_loop_spec [OF assms(1), of 1 arr "length arr - 1"] assms(2) by (auto simp: sorted_upto_def)
  then show ?thesis
    using assms(2) mset_eq_length [of arr' arr] by (simp add: SortInsertion_def lim sorted_upto_def cmp_sorted_nth)
qed

section \<open>Selection sort\<close>

lemma selection_scan_spec:
  assumes "comparator cmp" "c < j" "j \<le> cnt" "cnt = length arr" "\<forall>k. i \<le> k \<longrightarrow> k < j \<longrightarrow> cmp (arr ! c) (arr ! k) \<le> 0" "i \<le> c"
  shows "\<exists>c'. selection_scan cmp arr c j cnt = Some c' \<and> i \<le> c' \<and> c' < cnt \<and>
    (\<forall>k. i \<le> k \<longrightarrow> k < cnt \<longrightarrow> cmp (arr ! c') (arr ! k) \<le> 0)"
  using assms
proof (induction cmp arr c j cnt rule: selection_scan.induct)
  case (1 cmp arr c j cnt)
  show ?case
  proof (cases "j < cnt")
    case False
    then show ?thesis using 1 by (auto simp: selection_scan.simps [of cmp arr])
  next
    case True
    let ?c = "if cmp (arr ! c) (arr ! j) > 0 then j else c"
    have "cmp (arr ! ?c) (arr ! k) \<le> 0" if "i \<le> k" "k < j + 1" for k
    proof (cases "cmp (arr ! c) (arr ! j) > 0")
      case gt: True
      then show ?thesis
        using that 1(6) comparator_trans [OF 1(2) comparator_total [OF 1(2) gt], of "arr ! k"]
          comparator_refl [OF 1(2), of "arr ! j"] by (cases "k = j") auto
    next
      case False
      then show ?thesis using that 1(6) by (cases "k = j") auto
    qed
    then have "\<exists>c'. selection_scan cmp arr ?c (j + 1) cnt = Some c' \<and> i \<le> c' \<and> c' < cnt \<and>
        (\<forall>k. i \<le> k \<longrightarrow> k < cnt \<longrightarrow> cmp (arr ! c') (arr ! k) \<le> 0)"
      using True 1 by (intro "1.IH" [of "arr ! c" "arr ! j"]) auto
    then show ?thesis using True 1(3,5) by (simp add: selection_scan.simps [of cmp arr c j])
  qed
qed

text \<open>The first \<open>i\<close> elements are in their final places.\<close>

definition placed :: "'a comparison \<Rightarrow> nat \<Rightarrow> 'a list \<Rightarrow> bool" where
  "placed cmp i arr \<longleftrightarrow> (\<forall>b < length arr. \<forall>a < b. a < i \<longrightarrow> cmp (arr ! a) (arr ! b) \<le> 0)"

lemma placed_step:
  assumes "placed cmp i arr" "i \<le> c" "c < length arr" "\<forall>k. i \<le> k \<longrightarrow> k < length arr \<longrightarrow> cmp (arr ! c) (arr ! k) \<le> 0"
  shows "placed cmp (i + 1) (Exchange arr i c)"
  unfolding placed_def
proof (intro allI impI)
  fix a b assume ab: "b < length (Exchange arr i c)" "a < b" "a < i + 1"
  have ex: "Exchange arr i c ! k = (if k = i then arr ! c else if k = c then arr ! i else arr ! k)" for k
    using assms(2,3) by (intro nth_Exchange) auto
  have old: "d < length arr \<Longrightarrow> e < d \<Longrightarrow> e < i \<Longrightarrow> cmp (arr ! e) (arr ! d) \<le> 0" for d e
    using assms(1) by (simp add: placed_def)
  show "cmp (Exchange arr i c ! a) (Exchange arr i c ! b) \<le> 0"
    using ab assms(2,3,4) old [of b a] old [of c a] old [of i a] unfolding ex by auto
qed

lemma selection_loop_spec:
  assumes "comparator cmp" "cnt = length arr" "lim + 1 = cnt" "placed cmp i arr" "i \<le> lim"
  shows "\<exists>arr'. selection_loop cmp arr i lim cnt = Some arr' \<and> placed cmp lim arr' \<and> mset arr' = mset arr"
  using assms
proof (induction cmp arr i lim cnt rule: selection_loop.induct)
  case (1 cmp arr i lim cnt)
  show ?case
  proof (cases "i < lim")
    case False
    then show ?thesis using 1 by (simp add: selection_loop.simps [of cmp arr])
  next
    case True
    have "\<forall>k. i \<le> k \<longrightarrow> k < i + 1 \<longrightarrow> cmp (arr ! i) (arr ! k) \<le> 0"
      using comparator_refl [OF 1(2)] by (auto simp: le_less_Suc_eq)
    then obtain c where c: "selection_scan cmp arr i (i + 1) cnt = Some c" "i \<le> c" "c < cnt"
        "\<forall>k. i \<le> k \<longrightarrow> k < cnt \<longrightarrow> cmp (arr ! c) (arr ! k) \<le> 0"
      using selection_scan_spec [OF 1(2), of i "i + 1" cnt arr i] True 1(3,4) by auto
    then have "placed cmp (i + 1) (Exchange arr i c)"
      using 1(3,5) by (intro placed_step) auto
    then have "\<exists>ys. selection_loop cmp (Exchange arr i c) (i + 1) lim cnt = Some ys \<and> placed cmp lim ys \<and>
        mset ys = mset (Exchange arr i c)"
      using True 1 c by (intro "1.IH") auto
    then show ?thesis using True c by (simp add: selection_loop.simps [of cmp arr i])
  qed
qed

lemma SortSelection_spec:
  assumes "comparator cmp" "arr \<noteq> []" "length arr < 2 ^ 64"
  shows "\<exists>arr'. SortSelection cmp arr = Some arr' \<and> cmp_sorted cmp arr' \<and> mset arr' = mset arr"
proof -
  have lim: "usub1 (length arr) = length arr - 1" using assms by (intro usub1_pos) auto
  obtain arr' where *: "selection_loop cmp arr 0 (length arr - 1) (length arr) = Some arr'"
      "placed cmp (length arr - 1) arr'" "mset arr' = mset arr"
    using selection_loop_spec [OF assms(1), of "length arr" arr "length arr - 1" 0] assms(2) by (auto simp: placed_def)
  then have "cmp_sorted cmp arr'"
    using mset_eq_length [OF *(3)] by (auto simp: placed_def cmp_sorted_nth)
  with * show ?thesis by (simp add: SortSelection_def lim)
qed

section \<open>Merge sort\<close>

text \<open>The reference: a top-down merge sort that prefers the left run on ties.\<close>

fun smerge :: "'a comparison \<Rightarrow> 'a list \<Rightarrow> 'a list \<Rightarrow> 'a list" where
  "smerge cmp [] ys = ys"
| "smerge cmp (x # xs) [] = x # xs"
| "smerge cmp (x # xs) (y # ys) = (if cmp x y \<le> 0 then x # smerge cmp xs (y # ys) else y # smerge cmp (x # xs) ys)"

function msort :: "'a comparison \<Rightarrow> 'a list \<Rightarrow> 'a list" where
  "msort cmp xs =
     (if length xs < 2 then xs
      else smerge cmp (msort cmp (take (length xs div 2) xs)) (msort cmp (drop (length xs div 2) xs)))"
  by pat_completeness auto
termination
  by (relation "measure (\<lambda>(cmp, xs). length xs)") auto

declare msort.simps [simp del]

lemma mset_smerge [simp]: "mset (smerge cmp xs ys) = mset xs + mset ys"
  by (induction cmp xs ys rule: smerge.induct) auto

lemma mset_msort [simp]: "mset (msort cmp xs) = mset xs"
proof (induction cmp xs rule: msort.induct)
  case (1 cmp xs)
  have "mset (take h xs) + mset (drop h xs) = mset xs" for h
    by (metis append_take_drop_id mset_append)
  with 1 show ?case by (simp add: msort.simps [of cmp xs])
qed

lemma length_msort [simp]: "length (msort cmp xs) = length xs"
  by (rule mset_eq_length) simp

lemma Exchange_apart:
  "Exchange (pre @ l # mid @ r # post) (length pre + Suc (length mid)) (length pre) = pre @ r # mid @ l # post"
proof -
  have "(pre @ l # mid @ r # post) ! (length pre + Suc (length mid)) = r" by (simp add: nth_append)
  moreover have "(pre @ l # mid @ r # post)[length pre + Suc (length mid) := l, length pre := r] = pre @ r # mid @ l # post"
    by (simp add: list_update_append)
  ultimately show ?thesis by (simp add: Exchange_def)
qed

lemma merge_rotate_spec:
  "merge_rotate (pre @ L @ r # post) (length pre + length L) (length pre) (length L) = pre @ r # L @ post"
proof (induction L arbitrary: pre r)
  case (Cons l L)
  have "merge_rotate (pre @ (l # L) @ r # post) (length pre + length (l # L)) (length pre) (length (l # L)) =
      merge_rotate ((pre @ [r]) @ L @ l # post) (length (pre @ [r]) + length L) (length (pre @ [r])) (length L)"
    using Exchange_apart [of pre l L r post] by simp
  then show ?case by (simp only: Cons.IH) simp
qed simp

lemma merge_loop_spec:
  "merge_loop cmp (pre @ L @ R @ post) (length pre) (length pre + length L) (length L) (length R) =
   Some (pre @ smerge cmp L R @ post)"
proof (induction cmp L R arbitrary: pre rule: smerge.induct)
  case (3 cmp x xs y ys)
  let ?arr = "pre @ (x # xs) @ (y # ys) @ post"
  have loc: "Locate ?arr (length pre) = Some x" "Locate ?arr (length pre + length (x # xs)) = Some y"
    by (simp_all add: Locate_def nth_append)
  show ?case
  proof (cases "cmp x y \<le> 0")
    case True
    then have "merge_loop cmp ?arr (length pre) (length pre + length (x # xs)) (length (x # xs)) (length (y # ys)) =
        merge_loop cmp ((pre @ [x]) @ xs @ (y # ys) @ post) (length (pre @ [x])) (length (pre @ [x]) + length xs)
          (length xs) (length (y # ys))"
      using loc by (subst merge_loop.simps) simp
    then show ?thesis using 3(1) [OF True, of "pre @ [x]"] True by simp
  next
    case False
    then have "merge_loop cmp ?arr (length pre) (length pre + length (x # xs)) (length (x # xs)) (length (y # ys)) =
        merge_loop cmp ((pre @ [y]) @ (x # xs) @ ys @ post) (length (pre @ [y])) (length (pre @ [y]) + length (x # xs))
          (length (x # xs)) (length ys)"
      using loc merge_rotate_spec [of pre "x # xs" y "ys @ post"] by (subst merge_loop.simps) simp
    then show ?thesis using 3(2) [OF False, of "pre @ [y]"] False by simp
  qed
qed (simp_all add: merge_loop.simps)

lemma SortMergeSub_spec:
  "SortMergeSub cmp (pre @ xs @ post) (length pre) (length xs) = Some (pre @ msort cmp xs @ post)"
proof (induction cmp xs arbitrary: pre post rule: msort.induct)
  case (1 cmp xs)
  show ?case
  proof (cases "length xs < 2")
    case True
    then show ?thesis by (simp add: SortMergeSub.simps [of cmp _ _ "length xs"] msort.simps [of cmp xs])
  next
    case False
    let ?h = "length xs div 2"
    define L R where "L = take ?h xs" and "R = drop ?h xs"
    have xs: "xs = L @ R" and len: "length L = ?h" "length R = length xs - ?h" by (simp_all add: L_def R_def)
    have "SortMergeSub cmp (pre @ L @ (R @ post)) (length pre) (length L) = Some (pre @ msort cmp L @ R @ post)"
      unfolding L_def by (rule 1(1) [OF False])
    then have left: "SortMergeSub cmp (pre @ xs @ post) (length pre) ?h = Some (pre @ msort cmp L @ R @ post)"
      unfolding len xs by simp
    have "SortMergeSub cmp ((pre @ msort cmp L) @ R @ post) (length (pre @ msort cmp L)) (length R) =
        Some ((pre @ msort cmp L) @ msort cmp R @ post)"
      unfolding R_def by (rule 1(2) [OF False])
    then have right: "SortMergeSub cmp (pre @ msort cmp L @ R @ post) (length pre + ?h) (length xs - ?h) =
        Some (pre @ msort cmp L @ msort cmp R @ post)"
      by (simp add: len)
    have merge: "SortMerge_MergeArn cmp (pre @ msort cmp L @ msort cmp R @ post) (length pre) (length xs) =
        Some (pre @ smerge cmp (msort cmp L) (msort cmp R) @ post)"
      using merge_loop_spec [of cmp pre "msort cmp L" "msort cmp R" post] False
      by (simp add: SortMerge_MergeArn_def len)
    have "msort cmp xs = smerge cmp (msort cmp L) (msort cmp R)"
      using False by (simp add: msort.simps [of cmp xs] L_def R_def)
    then show ?thesis
      using False left right merge by (subst SortMergeSub.simps) simp
  qed
qed

lemma SortMerge_msort: "SortMerge cmp arr = Some (msort cmp arr)"
  using SortMergeSub_spec [of cmp "[]" arr "[]"] by (simp add: SortMerge_def)

lemma set_smerge [simp]: "set (smerge cmp xs ys) = set xs \<union> set ys"
  by (metis mset_smerge set_mset_mset set_mset_union)

lemma sorted_smerge:
  assumes "comparator cmp"
  shows "cmp_sorted cmp xs \<Longrightarrow> cmp_sorted cmp ys \<Longrightarrow> cmp_sorted cmp (smerge cmp xs ys)"
  using assms
proof (induction cmp xs ys rule: smerge.induct)
  case (3 cmp x xs y ys)
  show ?case
  proof (cases "cmp x y \<le> 0")
    case True
    with 3 show ?thesis using comparator_trans [OF 3(5) True] by (auto simp: cmp_sorted_def)
  next
    case False
    then have "cmp y x \<le> 0" using comparator_total [OF 3(5)] by simp
    with False 3 show ?thesis using comparator_trans [OF 3(5) \<open>cmp y x \<le> 0\<close>] by (auto simp: cmp_sorted_def)
  qed
qed (simp_all add: cmp_sorted_def)

lemma sorted_msort: "comparator cmp \<Longrightarrow> cmp_sorted cmp (msort cmp xs)"
proof (induction cmp xs rule: msort.induct)
  case (1 cmp xs)
  show ?case
  proof (cases "length xs < 2")
    case True
    then show ?thesis by (cases xs) (auto simp: msort.simps [of cmp] cmp_sorted_def)
  next
    case False
    with 1 show ?thesis by (simp add: msort.simps [of cmp xs] sorted_smerge)
  qed
qed

definition cmp_equiv :: "'a comparison \<Rightarrow> 'a \<Rightarrow> 'a \<Rightarrow> bool" where
  "cmp_equiv cmp k x \<longleftrightarrow> cmp k x \<le> 0 \<and> cmp x k \<le> 0"

lemma stable_smerge:
  assumes "comparator cmp" "cmp_sorted cmp xs"
  shows "filter (cmp_equiv cmp k) (smerge cmp xs ys) = filter (cmp_equiv cmp k) xs @ filter (cmp_equiv cmp k) ys"
  using assms
proof (induction cmp xs ys rule: smerge.induct)
  case (3 cmp x xs y ys)
  show ?case
  proof (cases "cmp x y \<le> 0")
    case True
    with 3 show ?thesis by (simp add: cmp_sorted_def)
  next
    case False
    have "filter (cmp_equiv cmp k) (x # xs) = []" if "cmp_equiv cmp k y"
    proof (rule ccontr)
      assume "filter (cmp_equiv cmp k) (x # xs) \<noteq> []"
      then obtain z where z: "z \<in> set (x # xs)" "cmp_equiv cmp k z" by (auto simp: filter_empty_conv split: if_splits)
      then have "cmp x z \<le> 0" using 3(4) comparator_refl [OF 3(3)] by (auto simp: cmp_sorted_def)
      moreover have "cmp z y \<le> 0"
        using z(2) that comparator_trans [OF 3(3), of z k y] by (simp add: cmp_equiv_def)
      ultimately show False using False comparator_trans [OF 3(3)] by blast
    qed
    with False 3 show ?thesis by auto
  qed
qed simp_all

lemma stable_msort:
  "comparator cmp \<Longrightarrow> filter (cmp_equiv cmp k) (msort cmp xs) = filter (cmp_equiv cmp k) xs"
proof (induction cmp xs rule: msort.induct)
  case (1 cmp xs)
  let ?h = "length xs div 2" and ?P = "cmp_equiv cmp k"
  show ?case
  proof (cases "length xs < 2")
    case True
    then show ?thesis by (simp add: msort.simps [of cmp xs])
  next
    case False
    have "filter ?P (msort cmp xs) = filter ?P (msort cmp (take ?h xs)) @ filter ?P (msort cmp (drop ?h xs))"
      using False 1(3) by (simp add: msort.simps [of cmp xs] stable_smerge sorted_msort)
    also have "\<dots> = filter ?P (take ?h xs @ drop ?h xs)"
      using 1(1,2) [OF False 1(3)] by (simp only: filter_append)
    finally show ?thesis by simp
  qed
qed

section \<open>Quick sort\<close>

lemma quick_tail_spec:
  assumes "head \<le> tail" "tail < length arr" "key < length arr"
  shows "\<exists>t. quick_tail cmp arr key head tail = Some t \<and> head \<le> t \<and> t \<le> tail \<and>
    (\<forall>k. t < k \<longrightarrow> k \<le> tail \<longrightarrow> cmp (arr ! key) (arr ! k) \<le> 0) \<and> (head < t \<longrightarrow> cmp (arr ! key) (arr ! t) > 0)"
  using assms
proof (induction cmp arr key head tail rule: quick_tail.induct)
  case (1 cmp arr key head tail)
  show ?case
  proof (cases "head < tail \<and> cmp (arr ! key) (arr ! tail) \<le> 0")
    case True
    then obtain t where t: "quick_tail cmp arr key head (tail - 1) = Some t" "head \<le> t" "t \<le> tail - 1"
        "\<forall>k. t < k \<longrightarrow> k \<le> tail - 1 \<longrightarrow> cmp (arr ! key) (arr ! k) \<le> 0" "head < t \<longrightarrow> cmp (arr ! key) (arr ! t) > 0"
      using "1.IH" [of "arr ! key" "arr ! tail"] "1.prems" by fastforce
    have "cmp (arr ! key) (arr ! k) \<le> 0" if "t < k" "k \<le> tail" for k
      using t(4) True that by (cases "k = tail") auto
    then show ?thesis
      using True t 1(3,4) by (intro exI [of _ t]) (simp add: quick_tail.simps [of cmp arr key head tail])
  next
    case False
    then show ?thesis
      using 1(2-4) by (intro exI [of _ tail]) (auto simp: quick_tail.simps [of cmp arr key head tail])
  qed
qed

lemma quick_head_spec:
  assumes "head \<le> tail" "tail < length arr" "key < length arr"
  shows "\<exists>h. quick_head cmp arr key head tail = Some h \<and> head \<le> h \<and> h \<le> tail \<and>
    (\<forall>k. head \<le> k \<longrightarrow> k < h \<longrightarrow> cmp (arr ! k) (arr ! key) \<le> 0) \<and> (h < tail \<longrightarrow> cmp (arr ! h) (arr ! key) > 0)"
  using assms
proof (induction cmp arr key head tail rule: quick_head.induct)
  case (1 cmp arr key head tail)
  show ?case
  proof (cases "head < tail \<and> cmp (arr ! head) (arr ! key) \<le> 0")
    case True
    then obtain h where h: "quick_head cmp arr key (head + 1) tail = Some h" "head + 1 \<le> h" "h \<le> tail"
        "\<forall>k. head + 1 \<le> k \<longrightarrow> k < h \<longrightarrow> cmp (arr ! k) (arr ! key) \<le> 0" "h < tail \<longrightarrow> cmp (arr ! h) (arr ! key) > 0"
      using "1.IH" [of "arr ! head" "arr ! key"] "1.prems" by fastforce
    have "cmp (arr ! k) (arr ! key) \<le> 0" if "head \<le> k" "k < h" for k
      using h(4) True that by (cases "k = head") auto
    then show ?thesis
      using True h 1(3,4) by (intro exI [of _ h]) (simp add: quick_head.simps [of cmp arr key head tail])
  next
    case False
    then show ?thesis
      using 1(2-4) by (intro exI [of _ head]) (auto simp: quick_head.simps [of cmp arr key head tail])
  qed
qed

text \<open>The window \<open>[head, tail]\<close> is partitioned around the element at \<open>head\<close>.\<close>

definition partitioned :: "'a comparison \<Rightarrow> 'a list \<Rightarrow> nat \<Rightarrow> nat \<Rightarrow> 'a list \<Rightarrow> nat \<Rightarrow> bool" where
  "partitioned cmp arr head tail arr' key \<longleftrightarrow>
     head \<le> key \<and> key \<le> tail \<and> mset arr' = mset arr \<and> arr' ! key = arr ! head \<and>
     (\<forall>k. k < head \<or> tail < k \<longrightarrow> arr' ! k = arr ! k) \<and>
     (\<forall>k. head \<le> k \<longrightarrow> k < key \<longrightarrow> cmp (arr' ! k) (arr ! head) \<le> 0) \<and>
     (\<forall>k. key < k \<longrightarrow> k \<le> tail \<longrightarrow> cmp (arr ! head) (arr' ! k) \<le> 0)"

lemma partitioned_one: "partitioned cmp arr head head arr head"
  by (simp add: partitioned_def)

lemma partitioned_extend:
  assumes "partitioned cmp arr2 h t arr' key" and "head < h" "h \<le> t" "t \<le> tail" "mset arr2 = mset arr"
    and "arr2 ! h = arr ! head"
    and "\<forall>k. k < head \<or> tail < k \<longrightarrow> arr2 ! k = arr ! k"
    and "\<forall>k. head \<le> k \<longrightarrow> k < h \<longrightarrow> cmp (arr2 ! k) (arr ! head) \<le> 0"
    and "\<forall>k. t < k \<longrightarrow> k \<le> tail \<longrightarrow> cmp (arr ! head) (arr2 ! k) \<le> 0"
  shows "partitioned cmp arr head tail arr' key"
proof -
  have out: "arr' ! k = arr2 ! k" if "k < h \<or> t < k" for k
    using assms(1) that unfolding partitioned_def by blast
  have "cmp (arr' ! k) (arr ! head) \<le> 0" if "head \<le> k" "k < key" for k
    using assms(1,6,8) out that by (cases "k < h") (auto simp: partitioned_def)
  moreover have "cmp (arr ! head) (arr' ! k) \<le> 0" if "key < k" "k \<le> tail" for k
    using assms(1,6,9) out that by (cases "t < k") (auto simp: partitioned_def)
  moreover have "\<forall>k. k < head \<or> tail < k \<longrightarrow> arr' ! k = arr ! k"
    using out assms(2-4,7) by auto
  ultimately show ?thesis
    using assms(1-6) by (auto simp: partitioned_def)
qed

lemma quick_loop_end: "quick_loop cmp arr head head key = Some (arr, key)"
  by (simp add: quick_loop.simps)

lemma quick_loop_spec:
  assumes "comparator cmp" "head \<le> tail" "tail < length arr"
  shows "\<exists>arr' key. quick_loop cmp arr head tail head = Some (arr', key) \<and> partitioned cmp arr head tail arr' key"
  using assms(2,3)
proof (induction "tail - head" arbitrary: arr head tail rule: less_induct)
  case less
  show ?case
  proof (cases "head < tail")
    case False
    then have "tail = head" using less.prems by simp
    then show ?thesis using quick_loop_end [of cmp arr head head] partitioned_one [of cmp arr head] by auto
  next
    case True
    obtain t where t: "quick_tail cmp arr head head tail = Some t" "head \<le> t" "t \<le> tail"
        "\<forall>k. t < k \<longrightarrow> k \<le> tail \<longrightarrow> cmp (arr ! head) (arr ! k) \<le> 0" "head < t \<longrightarrow> cmp (arr ! head) (arr ! t) > 0"
      using quick_tail_spec [of head tail arr head cmp] less.prems by auto
    show ?thesis
    proof (cases "head < t")
      case False
      then have th: "t = head" using t(2) by simp
      have "quick_loop cmp arr head tail head = quick_loop cmp arr head head head"
        using True t(1) by (subst quick_loop.simps) (simp add: th quick_head.simps [of cmp arr head head head])
      then have "quick_loop cmp arr head tail head = Some (arr, head)" by (simp add: quick_loop_end)
      moreover have "partitioned cmp arr head tail arr head" using t(4) less.prems by (simp add: partitioned_def th)
      ultimately show ?thesis by auto
    next
      case ht: True
      let ?arr1 = "Exchange arr head t"
      have ex1: "?arr1 ! k = (if k = head then arr ! t else if k = t then arr ! head else arr ! k)" for k
        using ht t(3) less.prems by (intro nth_Exchange) auto
      have small: "cmp (?arr1 ! head) (?arr1 ! t) \<le> 0" using t(5) ht comparator_total [OF assms(1)] by (simp add: ex1)
      have bound: "head \<le> t" "t < length ?arr1" using ht t(3) less.prems by auto
      obtain h where h: "quick_head cmp ?arr1 t head t = Some h" "head \<le> h" "h \<le> t"
          "\<forall>k. head \<le> k \<longrightarrow> k < h \<longrightarrow> cmp (?arr1 ! k) (?arr1 ! t) \<le> 0" "h < t \<longrightarrow> cmp (?arr1 ! h) (?arr1 ! t) > 0"
        using quick_head_spec [OF bound bound(2), of cmp] by blast
      have hh: "head < h" using h(2,5) small ht by (cases "h = head") auto
      define arr2 where "arr2 = (if h < t then Exchange ?arr1 t h else ?arr1)"
      have ex2: "arr2 ! k = (if k = t then ?arr1 ! h else if k = h then ?arr1 ! t else ?arr1 ! k)" for k
        using h(3) bound by (cases "h < t") (simp_all add: arr2_def nth_Exchange del: Exchange_def)
      have len2: "length arr2 = length arr" by (simp add: arr2_def)
      have "quick_loop cmp arr head tail head = quick_loop cmp arr2 h t h"
        using True t(1) ht h(1,3) by (subst quick_loop.simps) (auto simp: arr2_def Let_def)
      moreover obtain arr' key where "quick_loop cmp arr2 h t h = Some (arr', key)" and
          part: "partitioned cmp arr2 h t arr' key"
        using less.hyps [of t h arr2] hh h(3) t(3) True less.prems len2 by fastforce
      moreover have "partitioned cmp arr head tail arr' key"
      proof (rule partitioned_extend [OF part hh h(3) t(3)])
        show "mset arr2 = mset arr" by (simp add: arr2_def)
        show "arr2 ! h = arr ! head" using hh h(3) by (simp add: ex2 ex1)
        show "\<forall>k. k < head \<or> tail < k \<longrightarrow> arr2 ! k = arr ! k" using hh h(3) t(3) ht by (auto simp: ex2 ex1)
        show "\<forall>k. head \<le> k \<longrightarrow> k < h \<longrightarrow> cmp (arr2 ! k) (arr ! head) \<le> 0"
          using h(3,4) ht by (auto simp: ex2 ex1 split: if_splits)
        show "\<forall>k. t < k \<longrightarrow> k \<le> tail \<longrightarrow> cmp (arr ! head) (arr2 ! k) \<le> 0"
          using t(4) h(3) ht hh by (auto simp: ex2 ex1)
      qed
      ultimately show ?thesis by auto
    qed
  qed
qed

text \<open>A permutation that moves nothing outside a window permutes the window.\<close>

lemma window_member:
  assumes "mset xs = mset ys" and "\<forall>k. k < l \<or> r \<le> k \<longrightarrow> xs ! k = ys ! k" and "l \<le> k" "k < r" "r \<le> length xs"
  shows "\<exists>m. l \<le> m \<and> m < r \<and> xs ! k = ys ! m"
proof -
  have len: "length ys = length xs" using mset_eq_length [OF assms(1)] by simp
  let ?mid = "\<lambda>zs. take (r - l) (drop l zs)"
  have split: "mset (take l zs) + (mset (?mid zs) + mset (drop r zs)) = mset zs" for zs :: "'a list"
  proof -
    have "drop r zs = drop (r - l) (drop l zs)" using assms(3,4) by simp
    then show ?thesis by (metis append_take_drop_id mset_append)
  qed
  have "take l xs = take l ys" "drop r xs = drop r ys"
    using assms(2) len by (auto intro!: nth_equalityI)
  then have "mset (?mid xs) = mset (?mid ys)" using split [of xs] split [of ys] assms(1)
    by (metis add_left_imp_eq add_right_imp_eq)
  then have "set (?mid xs) = set (?mid ys)" by (metis set_mset_mset)
  moreover have "xs ! k \<in> set (?mid xs)"
    using assms(3-5) by (auto simp: in_set_conv_nth intro!: exI [of _ "k - l"])
  ultimately obtain i where "i < length (?mid ys)" "?mid ys ! i = xs ! k" by (auto simp: in_set_conv_nth)
  then show ?thesis
    using assms(3-5) by (intro exI [of _ "l + i"]) (auto simp: len)
qed

definition sorts_window :: "'a comparison \<Rightarrow> 'a list \<Rightarrow> nat \<Rightarrow> nat \<Rightarrow> 'a list \<Rightarrow> bool" where
  "sorts_window cmp arr l r arr' \<longleftrightarrow> mset arr' = mset arr \<and> (\<forall>k. k < l \<or> r \<le> k \<longrightarrow> arr' ! k = arr ! k) \<and>
     (\<forall>b < r. \<forall>a < b. l \<le> a \<longrightarrow> cmp (arr' ! a) (arr' ! b) \<le> 0)"

lemma sorts_window_small: "r \<le> l + 1 \<Longrightarrow> sorts_window cmp arr l r arr"
  by (auto simp: sorts_window_def)

lemma sorts_window_join:
  assumes cmp: "comparator cmp" and part: "partitioned cmp arr l (r - 1) arr1 key" and r: "l < r" "r \<le> length arr"
    and lo: "sorts_window cmp arr1 l key arr2" and hi: "sorts_window cmp arr2 (key + 1) r arr3"
  shows "sorts_window cmp arr l r arr3"
proof -
  let ?p = "arr ! l"
  have key: "l \<le> key" "key < r" using part r by (auto simp: partitioned_def)
  have len: "length arr1 = length arr" "length arr2 = length arr" "length arr3 = length arr"
    using part lo hi by (auto simp: partitioned_def sorts_window_def dest: mset_eq_length)
  have out2: "arr2 ! k = arr1 ! k" if "k < l \<or> key \<le> k" for k
    using lo that unfolding sorts_window_def by blast
  have out3: "arr3 ! k = arr2 ! k" if "k < key + 1 \<or> r \<le> k" for k
    using hi that unfolding sorts_window_def by blast
  have low: "cmp (arr3 ! a) ?p \<le> 0" if a: "l \<le> a" "a < key" for a
  proof -
    obtain m where "l \<le> m" "m < key" "arr2 ! a = arr1 ! m"
      using window_member [of arr2 arr1 l key a] lo a key r len by (auto simp: sorts_window_def)
    then show ?thesis using part out3 a by (simp add: partitioned_def)
  qed
  have high: "cmp ?p (arr3 ! b) \<le> 0" if b: "key < b" "b < r" for b
  proof -
    obtain m where "key + 1 \<le> m" "m < r" "arr3 ! b = arr2 ! m"
      using window_member [of arr3 arr2 "key + 1" r b] hi b r len by (auto simp: sorts_window_def)
    then show ?thesis using part out2 r by (simp add: partitioned_def)
  qed
  have mid: "arr3 ! key = ?p" using out3 out2 part by (simp add: partitioned_def)
  have "cmp (arr3 ! a) (arr3 ! b) \<le> 0" if ab: "l \<le> a" "a < b" "b < r" for a b
  proof -
    consider "b < key" | "b = key" | "a = key" | "a < key" "key < b" | "key < a" using ab by linarith
    then show ?thesis
    proof cases
      case 1
      then show ?thesis using lo ab out3 by (simp add: sorts_window_def)
    next
      case 4
      then show ?thesis using low high ab comparator_trans [OF cmp] by blast
    next
      case 5
      then show ?thesis using hi ab unfolding sorts_window_def by auto
    qed (use low high mid ab in auto)
  qed
  moreover have "arr3 ! k = arr ! k" if "k < l \<or> r \<le> k" for k
    using out3 [of k] out2 [of k] part that key unfolding partitioned_def by auto
  moreover have "mset arr3 = mset arr" using part lo hi by (simp add: partitioned_def sorts_window_def)
  ultimately show ?thesis by (simp add: sorts_window_def)
qed

lemma wrapped_rest:
  assumes "l \<le> key" "key < l + n" "n < 2 ^ 64"
  shows "nat ((int n - int key + int l - 1) mod 2 ^ 64) = n - (key - l) - 1"
proof -
  have "int n - int key + int l - 1 = int (n - (key - l) - 1)" using assms by simp
  moreover have "int (n - (key - l) - 1) mod 2 ^ 64 = int (n - (key - l) - 1)" using assms by simp
  ultimately show ?thesis by (simp only: nat_int)
qed

lemma SortQuickSub_spec:
  assumes "comparator cmp" "left + lens \<le> length arr" "length arr < 2 ^ 64"
  shows "\<exists>arr'. SortQuickSub cmp arr left lens = Some arr' \<and> sorts_window cmp arr left (left + lens) arr'"
  using assms(2,3)
proof (induction lens arbitrary: arr left rule: less_induct)
  case (less lens)
  show ?case
  proof (cases "lens < 2")
    case True
    then show ?thesis
      using sorts_window_small [of "left + lens" left cmp arr] by (auto simp: SortQuickSub.simps [of cmp arr left lens])
  next
    case False
    obtain arr1 key where loop: "quick_loop cmp arr left (left + lens - 1) left = Some (arr1, key)"
      and part: "partitioned cmp arr left (left + lens - 1) arr1 key"
    proof -
      have "left \<le> left + lens - 1" "left + lens - 1 < length arr" using less.prems False by auto
      from quick_loop_spec [OF assms(1) this] show ?thesis using that by blast
    qed
    have key: "left \<le> key" "key < left + lens" and len1: "length arr1 = length arr"
      using part False by (auto simp: partitioned_def dest: mset_eq_length)
    obtain arr2 where low: "SortQuickSub cmp arr1 left (key - left) = Some arr2"
      "sorts_window cmp arr1 left key arr2"
    proof -
      have "key - left < lens" "left + (key - left) \<le> length arr1" "length arr1 < 2 ^ 64" "left + (key - left) = key"
        using key len1 less.prems by auto
      from less.IH [OF this(1-3)] this(4) show ?thesis using that by auto
    qed
    have len2: "length arr2 = length arr" using low(2) len1 by (auto simp: sorts_window_def dest: mset_eq_length)
    let ?rest = "lens - (key - left) - 1"
    have rest: "nat ((int lens - int key + int left - 1) mod 2 ^ 64) = ?rest"
      using key less.prems by (intro wrapped_rest) auto
    obtain arr3 where high: "SortQuickSub cmp arr2 (key + 1) ?rest = Some arr3"
      "sorts_window cmp arr2 (key + 1) (left + lens) arr3"
    proof -
      have "?rest < lens" "key + 1 + ?rest \<le> length arr2" "length arr2 < 2 ^ 64" "key + 1 + ?rest = left + lens"
        using key len2 less.prems False by auto
      from less.IH [OF this(1-3)] this(4) show ?thesis using that by auto
    qed
    have "SortQuickSub cmp arr left lens = Some arr3"
      using False loop low(1) high(1)
      unfolding SortQuickSub.simps [of cmp arr left lens] rest [symmetric] by simp
    moreover have "sorts_window cmp arr left (left + lens) arr3"
      using False less.prems by (intro sorts_window_join [OF assms(1) part _ _ low(2) high(2)]) auto
    ultimately show ?thesis by blast
  qed
qed

lemma SortQuick_spec:
  assumes "comparator cmp" "length arr < 2 ^ 64"
  shows "\<exists>arr'. SortQuick cmp arr = Some arr' \<and> cmp_sorted cmp arr' \<and> mset arr' = mset arr"
proof -
  obtain arr' where *: "SortQuickSub cmp arr 0 (length arr) = Some arr'" "sorts_window cmp arr 0 (length arr) arr'"
    using SortQuickSub_spec [OF assms(1), of 0 "length arr" arr] assms(2) by auto
  then have "length arr' = length arr" by (auto simp: sorts_window_def dest: mset_eq_length)
  with * show ?thesis by (simp add: SortQuick_def sorts_window_def cmp_sorted_nth)
qed

section \<open>Heap sort\<close>

lemma SortBintreeAdapt_perm:
  "cnt \<le> length arr \<Longrightarrow> index < cnt \<or> cnt < 2 \<Longrightarrow> \<exists>arr'. SortBintreeAdapt cmp arr index cnt = Some arr' \<and> mset arr' = mset arr"
proof (induction cmp arr index cnt rule: SortBintreeAdapt.induct)
  case (1 cmp arr index cnt)
  show ?case
  proof (cases "cnt < 2")
    case True
    then show ?thesis by (simp add: SortBintreeAdapt.simps)
  next
    case False
    let ?half = "\<lambda>arr0 c. do {
        arr' \<leftarrow> SortBintreeAdapt cmp arr0 c cnt; a \<leftarrow> Locate arr' index; b \<leftarrow> Locate arr' c;
        Some (if cmp a b < 0 then Exchange arr' index c else arr') }"
    have half: "\<exists>arr'. ?half arr0 c = Some arr' \<and> mset arr' = mset arr"
      if adapt: "\<exists>arr'. SortBintreeAdapt cmp arr0 c cnt = Some arr' \<and> mset arr' = mset arr" and c: "c < cnt" for arr0 c
    proof -
      obtain arr' where *: "SortBintreeAdapt cmp arr0 c cnt = Some arr'" "mset arr' = mset arr" using adapt by blast
      then show ?thesis
        using mset_eq_length [OF *(2)] c 1(3,4) False by auto
    qed
    obtain arr1 where l: "(if 2 * index + 1 < cnt then ?half arr (2 * index + 1) else Some arr) = Some arr1"
        "mset arr1 = mset arr"
      using half [of arr "2 * index + 1"] "1.IH"(1) [OF False] 1(3) by (cases "2 * index + 1 < cnt") auto
    have len: "length arr1 = length arr" using mset_eq_length [OF l(2)] .
    obtain arr2 where "(if 2 * index + 2 < cnt then ?half arr1 (2 * index + 2) else Some arr1) = Some arr2"
        "mset arr2 = mset arr"
      using half [of arr1 "2 * index + 2"] "1.IH"(2) [OF False] 1(3) l len
      by (cases "2 * index + 2 < cnt") (auto simp del: bind_eq_Some_conv)
    with l False show ?thesis by (subst SortBintreeAdapt.simps) (simp del: bind_eq_Some_conv)
  qed
qed

lemma bintree_sweep_perm:
  "i < length arr \<Longrightarrow> \<exists>arr'. bintree_sweep cmp arr i = Some arr' \<and> mset arr' = mset arr"
proof (induction cmp arr i rule: bintree_sweep.induct)
  case (1 cmp arr i)
  show ?case
  proof (cases "i = 0")
    case True
    then show ?thesis by (simp add: bintree_sweep.simps)
  next
    case False
    let ?p = "(i - 1) div 2" and ?arr = "\<lambda>b. if b then Exchange arr i ((i - 1) div 2) else arr"
    let ?b = "cmp (arr ! ?p) (arr ! i) < 0"
    have p: "?p < length arr" using 1(2) by auto
    have "\<exists>arr'. bintree_sweep cmp (?arr ?b) (i - 1) = Some arr' \<and> mset arr' = mset (?arr ?b)"
      using "1.IH" [of "arr ! ?p" "arr ! i"] False 1(2) by (cases ?b) auto
    then show ?thesis
      using False p 1(2) by (subst bintree_sweep.simps) (auto split: if_splits)
  qed
qed

lemma bintree_loop_perm:
  "cnt \<le> length arr \<Longrightarrow> \<exists>arr'. bintree_loop cmp arr cnt = Some arr' \<and> mset arr' = mset arr"
proof (induction cmp arr cnt rule: bintree_loop.induct)
  case (1 cmp arr cnt)
  show ?case
  proof (cases "cnt = 0")
    case True
    then show ?thesis by (simp add: bintree_loop.simps)
  next
    case False
    obtain arr' where *: "SortBintreeAdapt cmp (Exchange arr 0 (cnt - 1)) 0 (cnt - 1) = Some arr'" "mset arr' = mset arr"
    proof -
      have "cnt - 1 \<le> length (Exchange arr 0 (cnt - 1))" "0 < cnt - 1 \<or> cnt - 1 < 2" using 1(2) by auto
      from SortBintreeAdapt_perm [OF this, of cmp] show ?thesis using that by auto
    qed
    with "1.IH" [OF False] 1(2) mset_eq_length [OF *(2)] False show ?thesis
      by (subst bintree_loop.simps) auto
  qed
qed

section \<open>Properties\<close>

lemma int_comparator: "comparator (\<lambda>x y :: int. x - y)"
  by (auto simp: comparator_def)

text \<open>
  C5. Bubble, merge and quick sort return a sorted permutation of every array, the empty one
  included, for every comparison function that is a total preorder; in particular quick sort
  terminates and no algorithm reads outside the array. Insertion and selection sort do so for every
  array with at least one element (their loop bound \<open>count - 1\<close> wraps around on an empty one).
\<close>

theorem sort_correct:
  assumes "comparator cmp" and "length arr < 2 ^ 64"
    and "sm \<in> {Bubble, Merge, Quick} \<or> sm \<in> {Insertion, Selection} \<and> arr \<noteq> []"
  shows "\<exists>arr'. Sort cmp sm arr = Some arr' \<and> cmp_sorted cmp arr' \<and> mset arr' = mset arr"
  using assms(3) SortBubble_spec [OF assms(1)] SortQuick_spec [OF assms(1,2)] sorted_msort [OF assms(1)]
    SortInsertion_spec [OF assms(1) _ assms(2)] SortSelection_spec [OF assms(1) _ assms(2)]
  by (auto simp: Sort_def SortMerge_msort)

theorem sort_correct_witness:
  "(\<exists>arr'. Sort (\<lambda>x y :: int. x - y) Quick [3, 1, 2] = Some arr' \<and> cmp_sorted (\<lambda>x y. x - y) arr' \<and>
     mset arr' = mset [3, 1, 2]) \<and>
   (\<exists>arr'. Sort (\<lambda>x y :: int. x - y) Insertion [3, 1, 2] = Some arr' \<and> cmp_sorted (\<lambda>x y. x - y) arr' \<and>
     mset arr' = mset [3, 1, 2])"
  by (intro conjI sort_correct [OF int_comparator]) simp_all

lemma insertion_reads_outside_empty: "SortInsertion cmp ([] :: 'a list) = None"
proof -
  have "usub1 0 \<ge> 1" by (simp add: usub1_def)
  moreover have "insertion_step cmp ([] :: 'a list) 0 = None" by (simp add: insertion_step.simps Locate_def)
  ultimately show ?thesis by (simp add: SortInsertion_def insertion_loop.simps)
qed

text \<open>
  C6. The in-place merge sort (\<open>SortMerge\<close>, no extra memory) computes the textbook top-down
  merge sort, and it is stable: elements that compare equal keep their order.
\<close>

theorem merge_sort_stable:
  assumes "comparator cmp"
  shows "\<exists>arr'. SortMerge cmp arr = Some arr' \<and> arr' = msort cmp arr \<and>
    (\<forall>k. filter (cmp_equiv cmp k) arr' = filter (cmp_equiv cmp k) arr)"
  by (simp add: SortMerge_msort stable_msort [OF assms])

theorem merge_sort_stable_witness:
  "\<exists>arr'. SortMerge (\<lambda>x y :: int. x - y) [2, 1] = Some arr' \<and> arr' = msort (\<lambda>x y. x - y) [2, 1] \<and>
    (\<forall>k. filter (cmp_equiv (\<lambda>x y. x - y) k) arr' = filter (cmp_equiv (\<lambda>x y. x - y) k) [2, 1])"
  by (rule merge_sort_stable [OF int_comparator])

lemma heap_sort_misses_last:
  "(\<exists>arr'. SortBintree cmp arr = Some arr' \<and> mset arr' = mset arr) \<and> SortBintree cmp [x, y] = Some [y, x]"
proof
  show "\<exists>arr'. SortBintree cmp arr = Some arr' \<and> mset arr' = mset arr"
  proof (cases "length arr < 2")
    case False
    obtain arr1 where *: "bintree_sweep cmp arr (length arr - 1 - 1) = Some arr1" "mset arr1 = mset arr"
      using bintree_sweep_perm [of "length arr - 1 - 1" arr cmp] False by fastforce
    obtain arr2 where "bintree_loop cmp arr1 (length arr) = Some arr2" "mset arr2 = mset arr1"
      using bintree_loop_perm [of "length arr" arr1 cmp] mset_eq_length [OF *(2)] by auto
    with * False show ?thesis by (simp add: SortBintree_def)
  qed (simp add: SortBintree_def)
  show "SortBintree cmp [x, y] = Some [y, x]"
    by (simp add: SortBintree_def bintree_sweep.simps bintree_loop.simps SortBintreeAdapt.simps Exchange_def)
qed

text \<open>
  C7. Where the sorting functions fail. Insertion sort reads outside an empty array, whatever the
  comparison function. Heap sort permutes the array within its bounds for every comparison function,
  but it does not sort: \<open>for1r\<close> starts one below the last index, so the last element takes no part in
  building the heap, and an array of two elements is always reversed.
\<close>

theorem sort_failures:
  "SortInsertion cmp ([] :: 'a list) = None \<and>
   (\<exists>arr'. SortBintree cmp arr = Some arr' \<and> mset arr' = mset arr) \<and> SortBintree cmp [x, y] = Some [y, x]"
  by (intro conjI insertion_reads_outside_empty heap_sort_misses_last [THEN conjunct1] heap_sort_misses_last [THEN conjunct2])

end
