(* ===== verification/Block.thy ===== *)
theory Block
  imports Prelude
begin

text \<open>
  Block devices and byte access to them: \<open>BlockTrait\<close> of \<open>src/inc/cpp/trait/BlockTrait.hpp\<close>,
  \<open>MemoryBlockDevice\<close> of \<open>src/inc/cpp/trait/StorageTrait.hpp\<close>, the byte-granular \<open>Read\<close> and
  \<open>Write\<close> of \<open>src/lib/cpp/Device/Storage.cpp\<close> and the \<open>DiscPartition\<close> view of a device.

  A memory area is a list of bytes and a pointer into it an offset.  A copy that leaves its area
  is undefined behaviour of the program; it is the value \<open>None\<close> (in a transfer: \<open>Faulted\<close>), so
  that its absence is something the lemmas prove.  Numbers of type \<open>stduint\<close> are natural numbers
  with the wrap-around modulo \<open>2 ^ 64\<close> written out.  The virtual block operations of a device are
  parameters of the byte operations, as the virtual calls are in the source; the locale
  \<open>block_device\<close> states what the byte operations rely on and is interpreted on the memory device
  and on a partition of one.
\<close>

section \<open>Memory copies\<close>

definition MemCopyN :: "mem \<Rightarrow> nat \<Rightarrow> mem \<Rightarrow> nat \<Rightarrow> nat \<Rightarrow> mem option" where
  "MemCopyN dest d sors s n =
    (if d + n \<le> length dest \<and> s + n \<le> length sors
     then Some (patch dest d (take n (drop s sors))) else None)"

lemma MemCopyN_Some:
  "d + n \<le> length dest \<Longrightarrow> s + n \<le> length sors \<Longrightarrow>
   MemCopyN dest d sors s n = Some (patch dest d (take n (drop s sors)))"
  by (simp add: MemCopyN_def)

section \<open>Block transfers\<close>

text \<open>A block transfer is refused (the operation returns \<open>false\<close>), copies outside a memory area,
  or delivers the memory or the device after it.\<close>

datatype 'a xfer = Refused | Faulted | Moved 'a

definition moved :: "'a option \<Rightarrow> 'a xfer" where
  "moved r = (case r of None \<Rightarrow> Faulted | Some x \<Rightarrow> Moved x)"

lemma moved_simps [simp]: "moved None = Faulted" "moved (Some x) = Moved x"
  by (simp_all add: moved_def)

definition block_size_of :: "nat \<Rightarrow> nat" where
  "block_size_of Block_Size = (if Block_Size \<noteq> 0 then Block_Size else 512)"

section \<open>Byte reads\<close>

text \<open>The three parts of \<open>BlockTrait::Read\<close>.  Each either ends the operation (\<open>Inl\<close>, with the
  number of bytes transferred, the destination and the buffer) or goes on (\<open>Inr\<close>).\<close>

type_synonym reading = "(nat \<times> mem \<times> mem) + (nat \<times> mem \<times> mem)"

definition read_head ::
  "(nat \<Rightarrow> mem \<Rightarrow> nat \<Rightarrow> nat \<Rightarrow> mem xfer) \<Rightarrow> nat \<Rightarrow> nat \<Rightarrow> nat \<Rightarrow> nat \<Rightarrow> mem \<Rightarrow> mem \<Rightarrow> reading option" where
  "read_head rd block_size crt_block block_offset len dest buffer =
    (if block_offset \<noteq> 0 \<and> len > 0
     then (case rd crt_block buffer 0 1 of
        Refused \<Rightarrow> Some (Inl (0, dest, buffer))
      | Faulted \<Rightarrow> None
      | Moved buffer \<Rightarrow>
          (let copy_size = block_size - block_offset;
               copy_size = (if copy_size > len then len else copy_size)
           in map_option (\<lambda>dest. Inr (copy_size, dest, buffer))
                (MemCopyN dest 0 buffer block_offset copy_size)))
     else Some (Inr (0, dest, buffer)))"

definition read_body ::
  "(nat \<Rightarrow> mem \<Rightarrow> nat \<Rightarrow> nat \<Rightarrow> mem xfer) \<Rightarrow> nat \<Rightarrow> nat \<Rightarrow> nat \<Rightarrow> nat \<Rightarrow> mem \<Rightarrow> mem \<Rightarrow> reading option" where
  "read_body rd block_size crt_block len ret dest buffer =
    (let full_blocks = len div block_size in
     if full_blocks > 0
     then (case rd crt_block dest ret full_blocks of
        Refused \<Rightarrow> Some (Inl (ret, dest, buffer))
      | Faulted \<Rightarrow> None
      | Moved dest \<Rightarrow> Some (Inr (ret + full_blocks * block_size, dest, buffer)))
     else Some (Inr (ret, dest, buffer)))"

definition read_tail ::
  "(nat \<Rightarrow> mem \<Rightarrow> nat \<Rightarrow> nat \<Rightarrow> mem xfer) \<Rightarrow> nat \<Rightarrow> nat \<Rightarrow> nat \<Rightarrow> mem \<Rightarrow> mem \<Rightarrow> (nat \<times> mem \<times> mem) option" where
  "read_tail rd crt_block len ret dest buffer =
    (if len > 0
     then (case rd crt_block buffer 0 1 of
        Refused \<Rightarrow> Some (ret, dest, buffer)
      | Faulted \<Rightarrow> None
      | Moved buffer \<Rightarrow> map_option (\<lambda>dest. (ret + len, dest, buffer)) (MemCopyN dest ret buffer 0 len))
     else Some (ret, dest, buffer))"

definition BlockTrait_Read ::
  "(nat \<Rightarrow> mem \<Rightarrow> nat \<Rightarrow> nat \<Rightarrow> mem xfer) \<Rightarrow> nat \<Rightarrow> nat \<Rightarrow> mem \<Rightarrow> nat \<Rightarrow> mem \<Rightarrow> (nat \<times> mem \<times> mem) option" where
  "BlockTrait_Read rd Block_Size linear_offset dest len buffer =
    (let block_size = block_size_of Block_Size;
         crt_block = linear_offset div block_size;
         block_offset = linear_offset mod block_size in
     case read_head rd block_size crt_block block_offset len dest buffer of
       None \<Rightarrow> None
     | Some (Inl r) \<Rightarrow> Some r
     | Some (Inr (ret, dest, buffer)) \<Rightarrow>
        (let crt_block = (if ret > 0 then crt_block + 1 else crt_block);
             len = len - ret in
         case read_body rd block_size crt_block len ret dest buffer of
           None \<Rightarrow> None
         | Some (Inl r) \<Rightarrow> Some r
         | Some (Inr (ret', dest, buffer)) \<Rightarrow>
             read_tail rd (u64 (crt_block + len div block_size)) (len - (ret' - ret)) ret' dest buffer))"

section \<open>Byte writes\<close>

text \<open>\<open>BlockTrait::Write\<close> has the same three parts; a partial block is read, changed in the buffer
  and written back.  The device is threaded through.\<close>

definition write_head ::
  "('d \<Rightarrow> nat \<Rightarrow> mem \<Rightarrow> nat \<Rightarrow> nat \<Rightarrow> mem xfer) \<Rightarrow> ('d \<Rightarrow> nat \<Rightarrow> mem \<Rightarrow> nat \<Rightarrow> nat \<Rightarrow> 'd xfer) \<Rightarrow>
   'd \<Rightarrow> nat \<Rightarrow> nat \<Rightarrow> nat \<Rightarrow> nat \<Rightarrow> mem \<Rightarrow> mem \<Rightarrow> ((nat \<times> 'd \<times> mem) + (nat \<times> 'd \<times> mem)) option" where
  "write_head rd wr dev block_size crt_block block_offset len src buffer =
    (if block_offset \<noteq> 0 \<and> len > 0
     then (case rd dev crt_block buffer 0 1 of
        Refused \<Rightarrow> Some (Inl (0, dev, buffer))
      | Faulted \<Rightarrow> None
      | Moved buffer \<Rightarrow>
          (let copy_size = block_size - block_offset;
               copy_size = (if copy_size > len then len else copy_size)
           in case MemCopyN buffer block_offset src 0 copy_size of
                None \<Rightarrow> None
              | Some buffer \<Rightarrow>
                  (case wr dev crt_block buffer 0 1 of
                     Refused \<Rightarrow> Some (Inl (0, dev, buffer))
                   | Faulted \<Rightarrow> None
                   | Moved dev \<Rightarrow> Some (Inr (copy_size, dev, buffer)))))
     else Some (Inr (0, dev, buffer)))"

definition write_body ::
  "('d \<Rightarrow> nat \<Rightarrow> mem \<Rightarrow> nat \<Rightarrow> nat \<Rightarrow> 'd xfer) \<Rightarrow>
   'd \<Rightarrow> nat \<Rightarrow> nat \<Rightarrow> nat \<Rightarrow> nat \<Rightarrow> mem \<Rightarrow> mem \<Rightarrow> ((nat \<times> 'd \<times> mem) + (nat \<times> 'd \<times> mem)) option" where
  "write_body wr dev block_size crt_block len ret src buffer =
    (let full_blocks = len div block_size in
     if full_blocks > 0
     then (case wr dev crt_block src ret full_blocks of
        Refused \<Rightarrow> Some (Inl (ret, dev, buffer))
      | Faulted \<Rightarrow> None
      | Moved dev \<Rightarrow> Some (Inr (ret + full_blocks * block_size, dev, buffer)))
     else Some (Inr (ret, dev, buffer)))"

definition write_tail ::
  "('d \<Rightarrow> nat \<Rightarrow> mem \<Rightarrow> nat \<Rightarrow> nat \<Rightarrow> mem xfer) \<Rightarrow> ('d \<Rightarrow> nat \<Rightarrow> mem \<Rightarrow> nat \<Rightarrow> nat \<Rightarrow> 'd xfer) \<Rightarrow>
   'd \<Rightarrow> nat \<Rightarrow> nat \<Rightarrow> nat \<Rightarrow> mem \<Rightarrow> mem \<Rightarrow> (nat \<times> 'd \<times> mem) option" where
  "write_tail rd wr dev crt_block len ret src buffer =
    (if len > 0
     then (case rd dev crt_block buffer 0 1 of
        Refused \<Rightarrow> Some (ret, dev, buffer)
      | Faulted \<Rightarrow> None
      | Moved buffer \<Rightarrow>
          (case MemCopyN buffer 0 src ret len of
             None \<Rightarrow> None
           | Some buffer \<Rightarrow>
               (case wr dev crt_block buffer 0 1 of
                  Refused \<Rightarrow> Some (ret, dev, buffer)
                | Faulted \<Rightarrow> None
                | Moved dev \<Rightarrow> Some (ret + len, dev, buffer))))
     else Some (ret, dev, buffer))"

definition BlockTrait_Write ::
  "('d \<Rightarrow> nat \<Rightarrow> mem \<Rightarrow> nat \<Rightarrow> nat \<Rightarrow> mem xfer) \<Rightarrow> ('d \<Rightarrow> nat \<Rightarrow> mem \<Rightarrow> nat \<Rightarrow> nat \<Rightarrow> 'd xfer) \<Rightarrow>
   'd \<Rightarrow> nat \<Rightarrow> nat \<Rightarrow> mem \<Rightarrow> nat \<Rightarrow> mem \<Rightarrow> (nat \<times> 'd \<times> mem) option" where
  "BlockTrait_Write rd wr dev Block_Size linear_offset src len buffer =
    (let block_size = block_size_of Block_Size;
         crt_block = linear_offset div block_size;
         block_offset = linear_offset mod block_size in
     case write_head rd wr dev block_size crt_block block_offset len src buffer of
       None \<Rightarrow> None
     | Some (Inl r) \<Rightarrow> Some r
     | Some (Inr (ret, dev, buffer)) \<Rightarrow>
        (let crt_block = (if ret > 0 then crt_block + 1 else crt_block);
             len = len - ret in
         case write_body wr dev block_size crt_block len ret src buffer of
           None \<Rightarrow> None
         | Some (Inl r) \<Rightarrow> Some r
         | Some (Inr (ret', dev, buffer)) \<Rightarrow>
             write_tail rd wr dev (u64 (crt_block + len div block_size)) (len - (ret' - ret)) ret' src buffer))"

section \<open>Devices\<close>

record MemoryBlockDevice =
  Block_Size :: nat
  address :: mem
  total_units :: nat

definition MemoryBlockDevice_new :: "mem \<Rightarrow> nat \<Rightarrow> MemoryBlockDevice" where
  "MemoryBlockDevice_new src unit =
    \<lparr>Block_Size = unit, address = src, total_units = length src div unit\<rparr>"

definition MemoryBlockDevice_Read ::
  "MemoryBlockDevice \<Rightarrow> nat \<Rightarrow> mem \<Rightarrow> nat \<Rightarrow> nat \<Rightarrow> mem xfer" where
  "MemoryBlockDevice_Read dev BlockIden Dest off Times =
    (if BlockIden \<ge> total_units dev \<or> u64 (BlockIden + Times) > total_units dev then Refused
     else moved (MemCopyN Dest off (address dev)
       (u64 (BlockIden * Block_Size dev)) (u64 (Block_Size dev * Times))))"

definition MemoryBlockDevice_Write ::
  "MemoryBlockDevice \<Rightarrow> nat \<Rightarrow> mem \<Rightarrow> nat \<Rightarrow> nat \<Rightarrow> MemoryBlockDevice xfer" where
  "MemoryBlockDevice_Write dev BlockIden Sors off Times =
    (if BlockIden \<ge> total_units dev \<or> u64 (BlockIden + Times) > total_units dev then Refused
     else moved (map_option (\<lambda>a. dev\<lparr>address := a\<rparr>)
       (MemCopyN (address dev) (u64 (BlockIden * Block_Size dev)) Sors off (u64 (Block_Size dev * Times)))))"

definition MemoryBlockDevice_getUnits :: "MemoryBlockDevice \<Rightarrow> nat" where
  "MemoryBlockDevice_getUnits dev = total_units dev"

text \<open>The byte at a position, \<open>-1\<close> past the last block.\<close>

definition MemoryBlockDevice_at :: "MemoryBlockDevice \<Rightarrow> nat \<Rightarrow> int" where
  "MemoryBlockDevice_at dev bytid =
    (if bytid \<ge> u64 (total_units dev * Block_Size dev) then -1 else uint (address dev ! bytid))"

text \<open>A slice of a device, the slice \<open>StorageTrait::getSlice\<close> gives for a device number, and the
  partition view: it asks its base for the slice on first use and then shifts every block number.\<close>

datatype ClassicFilesysType = FsNone | FAT12 | FAT16_CHS | EXT | FAT16_CHSX | NTFS | FAT32_CHS
  | FAT32_LBA | FAT16_LBA | LINUX_SWAP | LINUX_NATIVE | GPT_PROTECTIVE | EFI_SYS | FsOther byte

record PartitionSlice =
  slice_address :: nat
  slice_length :: nat
  sys_id :: ClassicFilesysType

definition StorageTrait_getSlice :: "nat \<Rightarrow> nat \<Rightarrow> PartitionSlice" where
  "StorageTrait_getSlice units dev =
    \<lparr>slice_address = 0, slice_length = (if dev \<noteq> 0 then 0 else units), sys_id = FsNone\<rparr>"

record 'd DiscPartition =
  base :: 'd
  device :: nat
  slice :: PartitionSlice

definition renew_slice :: "('d \<Rightarrow> nat \<Rightarrow> PartitionSlice) \<Rightarrow> 'd DiscPartition \<Rightarrow> 'd DiscPartition" where
  "renew_slice getSlice p =
    (if slice_address (slice p) = 0 \<and> slice_length (slice p) = 0
     then p\<lparr>slice := getSlice (base p) (device p)\<rparr> else p)"

definition DiscPartition_new :: "'d \<Rightarrow> nat \<Rightarrow> 'd DiscPartition" where
  "DiscPartition_new storage dev =
    \<lparr>base = storage, device = dev, slice = \<lparr>slice_address = 0, slice_length = 0, sys_id = FsNone\<rparr>\<rparr>"

definition DiscPartition_getUnits ::
  "('d \<Rightarrow> nat \<Rightarrow> PartitionSlice) \<Rightarrow> 'd DiscPartition \<Rightarrow> nat \<times> 'd DiscPartition" where
  "DiscPartition_getUnits getSlice p =
    (let p = renew_slice getSlice p in (slice_length (slice p), p))"

definition DiscPartition_getSlice ::
  "('d \<Rightarrow> nat \<Rightarrow> PartitionSlice) \<Rightarrow> 'd DiscPartition \<Rightarrow> PartitionSlice \<times> 'd DiscPartition" where
  "DiscPartition_getSlice getSlice p = (let p = renew_slice getSlice p in (slice p, p))"

definition DiscPartition_Read ::
  "('d \<Rightarrow> nat \<Rightarrow> PartitionSlice) \<Rightarrow> ('d \<Rightarrow> nat \<Rightarrow> mem \<Rightarrow> nat \<Rightarrow> nat \<Rightarrow> mem xfer) \<Rightarrow>
   'd DiscPartition \<Rightarrow> nat \<Rightarrow> mem \<Rightarrow> nat \<Rightarrow> nat \<Rightarrow> mem xfer \<times> 'd DiscPartition" where
  "DiscPartition_Read getSlice rd p BlockIden Dest off Times =
    (let p = renew_slice getSlice p in
     (rd (base p) (u64 (BlockIden + slice_address (slice p))) Dest off Times, p))"

definition DiscPartition_Write ::
  "('d \<Rightarrow> nat \<Rightarrow> PartitionSlice) \<Rightarrow> ('d \<Rightarrow> nat \<Rightarrow> mem \<Rightarrow> nat \<Rightarrow> nat \<Rightarrow> 'd xfer) \<Rightarrow>
   'd DiscPartition \<Rightarrow> nat \<Rightarrow> mem \<Rightarrow> nat \<Rightarrow> nat \<Rightarrow> unit xfer \<times> 'd DiscPartition" where
  "DiscPartition_Write getSlice wr p BlockIden Sors off Times =
    (let p = renew_slice getSlice p in
     case wr (base p) (u64 (BlockIden + slice_address (slice p))) Sors off Times of
       Refused \<Rightarrow> (Refused, p) | Faulted \<Rightarrow> (Faulted, p) | Moved d \<Rightarrow> (Moved (), p\<lparr>base := d\<rparr>))"

text \<open>The partition as a device again: the transfers of its two operations.\<close>

definition partition_rd ::
  "('d \<Rightarrow> nat \<Rightarrow> PartitionSlice) \<Rightarrow> ('d \<Rightarrow> nat \<Rightarrow> mem \<Rightarrow> nat \<Rightarrow> nat \<Rightarrow> mem xfer) \<Rightarrow>
   'd DiscPartition \<Rightarrow> nat \<Rightarrow> mem \<Rightarrow> nat \<Rightarrow> nat \<Rightarrow> mem xfer" where
  "partition_rd getSlice rd p b dest off n = fst (DiscPartition_Read getSlice rd p b dest off n)"

definition partition_wr ::
  "('d \<Rightarrow> nat \<Rightarrow> PartitionSlice) \<Rightarrow> ('d \<Rightarrow> nat \<Rightarrow> mem \<Rightarrow> nat \<Rightarrow> nat \<Rightarrow> 'd xfer) \<Rightarrow>
   'd DiscPartition \<Rightarrow> nat \<Rightarrow> mem \<Rightarrow> nat \<Rightarrow> nat \<Rightarrow> 'd DiscPartition xfer" where
  "partition_wr getSlice wr p b src off n =
    (case DiscPartition_Write getSlice wr p b src off n of
       (Refused, _) \<Rightarrow> Refused | (Faulted, _) \<Rightarrow> Faulted | (Moved _, p) \<Rightarrow> Moved p)"

section \<open>Progress of a byte transfer\<close>

text \<open>After \<open>n\<close> bytes of a read from an offset: the destination holds the bytes from there on.\<close>

definition got :: "mem \<Rightarrow> nat \<Rightarrow> mem \<Rightarrow> nat \<Rightarrow> mem \<Rightarrow> bool" where
  "got con off dest n dest' \<longleftrightarrow> (n = 0 \<or> off + n \<le> length con) \<and> n \<le> length dest \<and>
    dest' = patch dest 0 (take n (drop off con))"

lemma got_0 [simp]: "got con off dest 0 dest"
  by (simp add: got_def)

lemma got_length: "got con off dest n dest' \<Longrightarrow> length dest' = length dest"
  by (auto simp: got_def min_def)

lemma got_step:
  assumes "got con off dest n dest'" "off + n + m \<le> length con" "n + m \<le> length dest"
  shows "got con off dest (n + m) (patch dest' n (take m (drop (off + n) con)))"
proof -
  let ?a = "take n (drop off con)"
  have "length ?a = n" using assms by auto
  then have "patch dest' n (take m (drop (off + n) con)) = patch dest 0 (?a @ take m (drop (off + n) con))"
    using patch_append [of 0 ?a dest] assms by (auto simp: got_def)
  then show ?thesis using assms by (simp add: got_def take_drop_add)
qed

text \<open>After \<open>n\<close> bytes of a write: the content holds the bytes of the source from the offset on.\<close>

definition put :: "mem \<Rightarrow> nat \<Rightarrow> mem \<Rightarrow> nat \<Rightarrow> mem \<Rightarrow> bool" where
  "put con off src n con' \<longleftrightarrow> (n = 0 \<or> off + n \<le> length con) \<and> n \<le> length src \<and>
    con' = patch con off (take n src)"

lemma put_0 [simp]: "put con off src 0 con"
  by (simp add: put_def)

lemma put_length: "put con off src n con' \<Longrightarrow> length con' = length con"
  by (auto simp: put_def)

lemma put_step:
  assumes "put con off src n con'" "off + n + m \<le> length con" "n + m \<le> length src"
  shows "put con off src (n + m) (patch con' (off + n) (take m (drop n src)))"
proof -
  have "patch con' (off + n) (take m (drop n src)) = patch con off (take n src @ take m (drop n src))"
    using patch_append [of off "take n src" con] assms by (auto simp: put_def)
  then show ?thesis using assms take_drop_add [of n 0 src m] by (simp add: put_def)
qed

section \<open>The interface of a block device\<close>

text \<open>
  What the byte operations rely on: a device whose state is \<open>ok\<close> presents its content as a
  whole number of blocks; a transfer inside the content moves exactly the bytes of its blocks,
  one that leaves it is refused.  Block numbers are bounded by \<open>lim\<close>, below which the arithmetic
  of the device does not wrap around.
\<close>

locale block_device =
  fixes rd :: "'d \<Rightarrow> nat \<Rightarrow> mem \<Rightarrow> nat \<Rightarrow> nat \<Rightarrow> mem xfer"
    and wr :: "'d \<Rightarrow> nat \<Rightarrow> mem \<Rightarrow> nat \<Rightarrow> nat \<Rightarrow> 'd xfer"
    and ok :: "'d \<Rightarrow> bool"
    and bs :: "'d \<Rightarrow> nat"
    and content :: "'d \<Rightarrow> mem"
    and lim :: "'d \<Rightarrow> nat"
  assumes bs_pos: "ok d \<Longrightarrow> 0 < bs d"
    and bs_dvd: "ok d \<Longrightarrow> bs d dvd length (content d)"
    and lim_le: "ok d \<Longrightarrow> lim d < 2 ^ 64"
    and content_bound: "ok d \<Longrightarrow> length (content d) < 2 ^ 64"
    and rd_in: "ok d \<Longrightarrow> 0 < t \<Longrightarrow> (b + t) * bs d \<le> length (content d) \<Longrightarrow>
      off + t * bs d \<le> length dest \<Longrightarrow>
      rd d b dest off t = Moved (patch dest off (take (t * bs d) (drop (b * bs d) (content d))))"
    and rd_out: "ok d \<Longrightarrow> 0 < t \<Longrightarrow> b + t \<le> lim d \<Longrightarrow> length (content d) < (b + t) * bs d \<Longrightarrow>
      rd d b dest off t = Refused"
    and wr_in: "ok d \<Longrightarrow> 0 < t \<Longrightarrow> (b + t) * bs d \<le> length (content d) \<Longrightarrow>
      off + t * bs d \<le> length src \<Longrightarrow>
      \<exists>d'. wr d b src off t = Moved d' \<and> ok d' \<and> bs d' = bs d \<and> lim d' = lim d \<and>
        content d' = patch (content d) (b * bs d) (take (t * bs d) (drop off src))"
    and wr_out: "ok d \<Longrightarrow> 0 < t \<Longrightarrow> b + t \<le> lim d \<Longrightarrow> length (content d) < (b + t) * bs d \<Longrightarrow>
      wr d b src off t = Refused"
begin

lemma block_fits:
  assumes "ok d" "x < (b + 1) * bs d" "b * bs d \<le> x" "x < length (content d)"
  shows "(b + 1) * bs d \<le> length (content d)"
proof -
  obtain k where k: "length (content d) = bs d * k" using bs_dvd [OF assms(1)] by auto
  with assms have "b < k" by (metis le_less_trans mult.commute mult_less_cancel2)
  then show ?thesis using k by (metis Suc_eq_plus1 Suc_leI mult.commute mult_le_mono2)
qed

lemma block_rd:
  assumes "ok d" "b + 1 \<le> lim d" "bs d \<le> length buffer"
  shows "if b * bs d < length (content d)
    then (b + 1) * bs d \<le> length (content d) \<and>
      rd d b buffer 0 1 = Moved (patch buffer 0 (take (bs d) (drop (b * bs d) (content d))))
    else rd d b buffer 0 1 = Refused"
proof (cases "b * bs d < length (content d)")
  case True
  then have "(b + 1) * bs d \<le> length (content d)"
    using block_fits [OF assms(1), of "b * bs d" b] bs_pos [OF assms(1)] by simp
  then show ?thesis using True assms rd_in [of d 1 b 0 buffer] by simp
next
  case False
  then show ?thesis using assms rd_out [of d 1 b] bs_pos [of d] by simp
qed

text \<open>What each part of a read does, from a block \<open>b\<close> and an offset in it.\<close>

lemma read_head_progress:
  assumes "ok d" "b + 1 \<le> lim d" "bs d \<le> length buffer" "len \<le> length dest" "q < bs d"
  shows "read_head (rd d) (bs d) b q len dest buffer = Some (Inl (0, dest, buffer)) \<and>
      0 < len \<and> length (content d) < b * bs d + q + len \<or>
    (\<exists>dest' buffer'. read_head (rd d) (bs d) b q len dest buffer =
        Some (Inr (if q \<noteq> 0 then min (bs d - q) len else 0, dest', buffer')) \<and>
      got (content d) (b * bs d + q) dest (if q \<noteq> 0 then min (bs d - q) len else 0) dest' \<and>
      length buffer' = length buffer)"
proof (cases "q \<noteq> 0 \<and> 0 < len")
  case True
  show ?thesis
  proof (cases "b * bs d < length (content d)")
    case F: False
    then show ?thesis using True block_rd [OF assms(1-3), of ] by (auto simp: read_head_def)
  next
    case T: True
    let ?blk = "take (bs d) (drop (b * bs d) (content d))" and ?n = "min (bs d - q) len"
    have fits: "(b + 1) * bs d \<le> length (content d)" and
      r: "rd d b buffer 0 1 = Moved (patch buffer 0 ?blk)"
      using T block_rd [OF assms(1-3)] by simp_all
    from fits have blk: "length ?blk = bs d" by simp
    have "take ?n (drop q (patch buffer 0 ?blk)) = take ?n (drop q ?blk)"
      using blk assms(5) by (simp add: patch_def)
    also have "\<dots> = take ?n (drop (b * bs d + q) (content d))"
      by (simp add: drop_take min_def add.commute)
    finally have "MemCopyN dest 0 (patch buffer 0 ?blk) q ?n =
        Some (patch dest 0 (take ?n (drop (b * bs d + q) (content d))))"
      using assms blk by (simp add: MemCopyN_Some)
    moreover have "(if len < bs d - q then len else bs d - q) = ?n" by (simp add: min_def)
    moreover have "got (content d) (b * bs d + q) dest ?n
        (patch dest 0 (take ?n (drop (b * bs d + q) (content d))))"
      using got_step [OF got_0, of "b * bs d + q" ?n] fits assms by simp
    ultimately show ?thesis using True r blk assms(3) by (simp add: read_head_def Let_def)
  qed
next
  case False
  then show ?thesis by (auto simp: read_head_def)
qed

lemma read_body_progress:
  assumes "ok d" "got (content d) off dest0 ret dest" "len = 0 \<or> off + ret = b * bs d"
    "ret + len \<le> length dest0" "b + len div bs d \<le> lim d"
  shows "read_body (rd d) (bs d) b len ret dest buffer = Some (Inl (ret, dest, buffer)) \<and>
      0 < len \<and> length (content d) < off + ret + len \<or>
    (\<exists>dest'. read_body (rd d) (bs d) b len ret dest buffer =
        Some (Inr (ret + len div bs d * bs d, dest', buffer)) \<and>
      got (content d) off dest0 (ret + len div bs d * bs d) dest')"
proof (cases "0 < len div bs d")
  case True
  let ?t = "len div bs d"
  from True have "len \<noteq> 0" by (metis div_0 less_irrefl)
  with assms have pos: "off + ret = b * bs d" by simp
  have le: "?t * bs d \<le> len" by (simp add: mult.commute)
  show ?thesis
  proof (cases "(b + ?t) * bs d \<le> length (content d)")
    case T: True
    moreover have "got (content d) off dest0 (ret + ?t * bs d)
        (patch dest ret (take (?t * bs d) (drop (b * bs d) (content d))))"
      using got_step [OF assms(2), of "?t * bs d"] T assms(4) le pos by (simp add: add_mult_distrib)
    ultimately show ?thesis
      using True rd_in [OF assms(1) True T, of ret dest] assms le got_length [OF assms(2)]
      by (simp add: read_body_def Let_def)
  next
    case F: False
    then have "length (content d) < off + ret + len"
      using pos le unfolding add_mult_distrib by linarith
    then show ?thesis
      using F True rd_out [OF assms(1) True assms(5)] \<open>len \<noteq> 0\<close> by (simp add: read_body_def Let_def)
  qed
next
  case False
  then show ?thesis using assms by (simp add: read_body_def)
qed

lemma read_tail_progress:
  assumes "ok d" "got (content d) off dest0 ret dest" "len = 0 \<or> off + ret = b * bs d \<and> b + 1 \<le> lim d"
    "ret + len \<le> length dest0" "len < bs d" "bs d \<le> length buffer"
  shows "\<exists>ret' dest' buffer'. read_tail (rd d) b len ret dest buffer = Some (ret', dest', buffer') \<and>
    got (content d) off dest0 ret' dest' \<and> ret' \<le> ret + len \<and>
    (off + ret + len \<le> length (content d) \<or> len = 0 \<longrightarrow> ret' = ret + len)"
proof (cases "len = 0")
  case False
  with assms have pos: "off + ret = b * bs d" and b: "b + 1 \<le> lim d" by simp_all
  show ?thesis
  proof (cases "b * bs d < length (content d)")
    case F: False
    then show ?thesis using False pos assms(2) block_rd [OF assms(1) b assms(6)]
      by (simp add: read_tail_def)
  next
    case T: True
    let ?blk = "take (bs d) (drop (b * bs d) (content d))"
    have fits: "(b + 1) * bs d \<le> length (content d)" and
      r: "rd d b buffer 0 1 = Moved (patch buffer 0 ?blk)"
      using T block_rd [OF assms(1) b assms(6)] by simp_all
    have "take len (patch buffer 0 ?blk) = take len (drop (off + ret) (content d))"
      using fits pos assms(5) by (auto simp: patch_def min_def)
    then have "MemCopyN dest ret (patch buffer 0 ?blk) 0 len =
        Some (patch dest ret (take len (drop (off + ret) (content d))))"
      using fits assms got_length [OF assms(2)] by (simp add: MemCopyN_Some)
    moreover have "got (content d) off dest0 (ret + len)
        (patch dest ret (take len (drop (off + ret) (content d))))"
      using got_step [OF assms(2), of len] fits pos assms(4,5) by simp
    ultimately show ?thesis using False r by (simp add: read_tail_def)
  qed
qed (use assms in \<open>simp add: read_tail_def\<close>)

text \<open>Where a transfer stands after its first part: at the end, or at a block boundary.\<close>

lemma head_boundary:
  assumes "ok d" "(off + len) div bs d + 1 \<le> lim d"
    "n = (if off mod bs d \<noteq> 0 then min (bs d - off mod bs d) len else 0)"
  defines "c \<equiv> if 0 < n then off div bs d + 1 else off div bs d"
    and "t \<equiv> (len - n) div bs d"
  shows "n \<le> len" and "len - n = 0 \<or> off + n = c * bs d" and "c + t \<le> lim d"
    and "len - n - t * bs d = 0 \<or> off + (n + t * bs d) = u64 (c + t) * bs d \<and> u64 (c + t) + 1 \<le> lim d"
    and "n + t * bs d + (len - n - t * bs d) = len" and "len - n - t * bs d < bs d"
proof -
  have pos: "0 < bs d" by (rule bs_pos [OF assms(1)])
  have dm: "off = off div bs d * bs d + off mod bs d" by simp
  have lt: "off mod bs d < bs d" using pos by simp
  show n: "n \<le> len" using assms(3) by simp
  show at: "len - n = 0 \<or> off + n = c * bs d"
  proof (cases "len - n = 0")
    case False
    then have "n = (if off mod bs d \<noteq> 0 then bs d - off mod bs d else 0)" using assms(3) by auto
    moreover have "off + (bs d - off mod bs d) = (off div bs d + 1) * bs d"
      using dm lt unfolding add_mult_distrib mult_1 by linarith
    moreover have "off = off div bs d * bs d" if "off mod bs d = 0" using dm that by simp
    ultimately show ?thesis using lt by (auto simp: c_def)
  qed simp
  have le: "t * bs d \<le> len - n" by (simp add: t_def)
  have eq: "c + t = (off + len) div bs d" if "len - n \<noteq> 0"
  proof -
    have "c * bs d + (len - n) = off + len" using at n that by simp
    then show ?thesis using pos unfolding t_def by (metis add.commute div_mult_self1 less_not_refl)
  qed
  have "off div bs d \<le> (off + len) div bs d" by (simp add: div_le_mono)
  then show "c + t \<le> lim d" using eq assms(2) by (cases "len - n = 0") (auto simp: c_def t_def)
  show "len - n - t * bs d = 0 \<or> off + (n + t * bs d) = u64 (c + t) * bs d \<and> u64 (c + t) + 1 \<le> lim d"
  proof (cases "len - n = 0")
    case False
    then have "c + t + 1 \<le> lim d" using eq assms(2) by simp
    moreover from this have "u64 (c + t) = c + t" using lim_le [OF assms(1)] by simp
    ultimately show ?thesis using at False by (simp add: algebra_simps)
  qed (use le in simp)
  show "n + t * bs d + (len - n - t * bs d) = len" using n le by simp
  show "len - n - t * bs d < bs d"
    using pos mod_less_divisor [of "bs d" "len - n"] by (simp add: t_def minus_div_mult_eq_mod)
qed

theorem byte_read:
  assumes "ok d" "block_size_of B = bs d" "len \<le> length dest" "bs d \<le> length buffer"
    "(off + len) div bs d + 1 \<le> lim d"
  shows "\<exists>ret dest' buffer'. BlockTrait_Read (rd d) B off dest len buffer = Some (ret, dest', buffer') \<and>
    ret \<le> len \<and> got (content d) off dest ret dest' \<and>
    (ret = len \<longleftrightarrow> off + len \<le> length (content d) \<or> len = 0)"
proof -
  let ?s = "bs d" and ?b = "off div bs d" and ?q = "off mod bs d"
  define n where "n = (if ?q \<noteq> 0 then min (?s - ?q) len else 0)"
  define c where "c = (if 0 < n then ?b + 1 else ?b)"
  define t where "t = (len - n) div ?s"
  note hb = head_boundary [OF assms(1,5) n_def, folded c_def t_def]
  have q: "?q < ?s" and b: "?b + 1 \<le> lim d"
    using bs_pos [OF assms(1)] assms(5) div_le_mono [of off "off + len" ?s] by auto
  have finish: ?thesis if "BlockTrait_Read (rd d) B off dest len buffer = Some (ret, dest', buf)"
    "got (content d) off dest ret dest'" "ret \<le> len"
    "ret \<noteq> len \<longrightarrow> length (content d) < off + len \<and> 0 < len" for ret dest' buf
    using that by (cases "ret = len") (auto simp: got_def)
  from read_head_progress [OF assms(1) b assms(4,3) q, folded n_def]
  consider (stop) "read_head (rd d) ?s ?b ?q len dest buffer = Some (Inl (0, dest, buffer))"
      "0 < len" "length (content d) < off + len"
    | (go) dest1 buf where "read_head (rd d) ?s ?b ?q len dest buffer = Some (Inr (n, dest1, buf))"
      "got (content d) off dest n dest1" "length buf = length buffer"
    by auto
  then show ?thesis
  proof cases
    case stop
    then show ?thesis using assms(2) by (intro finish) (auto simp: BlockTrait_Read_def Let_def)
  next
    case go
    from hb(1) assms(3) have "n + (len - n) \<le> length dest" by simp
    from read_body_progress [OF assms(1) go(2) hb(2) this hb(3) [unfolded t_def], folded t_def] hb(1)
    consider (stop) "read_body (rd d) ?s c (len - n) n dest1 buf = Some (Inl (n, dest1, buf))"
        "0 < len - n" "length (content d) < off + len"
      | (on) dest2 where "read_body (rd d) ?s c (len - n) n dest1 buf = Some (Inr (n + t * ?s, dest2, buf))"
        "got (content d) off dest (n + t * ?s) dest2"
      by fastforce
    then show ?thesis
    proof cases
      case stop
      then show ?thesis using go assms(2) hb(1)
        by (intro finish) (auto simp: BlockTrait_Read_def Let_def c_def)
    next
      case on
      obtain ret dest3 buf' where
        r: "read_tail (rd d) (u64 (c + t)) (len - n - t * ?s) (n + t * ?s) dest2 buf = Some (ret, dest3, buf')"
          "got (content d) off dest ret dest3" "ret \<le> len"
          "off + len \<le> length (content d) \<or> len - n - t * ?s = 0 \<longrightarrow> ret = len"
        using read_tail_progress [OF assms(1) on(2) hb(4) _ hb(6), of buf] hb(5) assms(3,4) go(3)
        by (auto simp: add.assoc)
      from r(1) have "BlockTrait_Read (rd d) B off dest len buffer = Some (ret, dest3, buf')"
        using go(1) on(1) assms(2) by (simp add: BlockTrait_Read_def Let_def c_def t_def)
      then show ?thesis using r by (intro finish) auto
    qed
  qed
qed

text \<open>The parts of a write, with the device reached so far.\<close>

lemma rewrite_block:
  assumes "ok d" "(b + 1) * bs d \<le> length (content d)" "j + length ys \<le> bs d" "bs d \<le> length buffer"
    "take (bs d) buffer = patch (take (bs d) (drop (b * bs d) (content d))) j ys"
  shows "\<exists>d'. wr d b buffer 0 1 = Moved d' \<and> ok d' \<and> bs d' = bs d \<and> lim d' = lim d \<and>
    content d' = patch (content d) (b * bs d + j) ys"
  using wr_in [OF assms(1), of 1 b 0 buffer] assms patch_patch [of "b * bs d" "bs d" "content d" j ys]
  by (auto simp: add.commute)

lemma patched_buffer:
  assumes "length blk \<le> length buffer" "j + length ys \<le> length blk"
  shows "take (length blk) (patch (patch buffer 0 blk) j ys) = patch blk j ys"
  using assms by (intro nth_equalityI) (auto simp: nth_patch)

lemma rmw:
  assumes "ok d" "put con off src ret (content d)" "off + ret = b * bs d + q" "q + m \<le> bs d"
    "ret + m \<le> length src" "bs d \<le> length buffer" "b + 1 \<le> lim d" "b * bs d < length (content d)"
  obtains buffer' d' where
    "MemCopyN (patch buffer 0 (take (bs d) (drop (b * bs d) (content d)))) q src ret m = Some buffer'"
    "wr d b buffer' 0 1 = Moved d'" "ok d'" "bs d' = bs d" "lim d' = lim d"
    "put con off src (ret + m) (content d')" "length buffer' = length buffer"
    "rd d b buffer 0 1 = Moved (patch buffer 0 (take (bs d) (drop (b * bs d) (content d))))"
proof -
  let ?blk = "take (bs d) (drop (b * bs d) (content d))" and ?ys = "take m (drop ret src)"
  have fits: "(b + 1) * bs d \<le> length (content d)"
    and r: "rd d b buffer 0 1 = Moved (patch buffer 0 ?blk)"
    using assms(8) block_rd [OF assms(1,7,6)] by simp_all
  have len: "length ?blk = bs d" "length ?ys = m" using fits assms(5) by auto
  let ?buf = "patch (patch buffer 0 ?blk) q ?ys"
  have "MemCopyN (patch buffer 0 ?blk) q src ret m = Some ?buf"
    using len assms by (simp add: MemCopyN_Some)
  moreover have buf: "length ?buf = length buffer" using len assms by simp
  moreover obtain d' where d': "wr d b ?buf 0 1 = Moved d'" "ok d'" "bs d' = bs d" "lim d' = lim d"
    "content d' = patch (content d) (off + ret) ?ys"
    using rewrite_block [OF assms(1) fits, of q ?ys ?buf] patched_buffer [of ?blk buffer q ?ys]
      len assms buf by auto
  moreover have "put con off src (ret + m) (content d')"
    using put_step [OF assms(2), of m] d'(5) fits assms put_length [OF assms(2)] by simp
  ultimately show thesis using r that by blast
qed

lemma write_head_progress:
  assumes "ok d" "b + 1 \<le> lim d" "bs d \<le> length buffer" "len \<le> length src" "q < bs d"
  shows "(\<exists>buffer'. write_head rd wr d (bs d) b q len src buffer = Some (Inl (0, d, buffer'))) \<and>
      0 < len \<and> length (content d) < b * bs d + q + len \<or>
    (\<exists>d' buffer'. write_head rd wr d (bs d) b q len src buffer =
        Some (Inr (if q \<noteq> 0 then min (bs d - q) len else 0, d', buffer')) \<and>
      ok d' \<and> bs d' = bs d \<and> lim d' = lim d \<and> length buffer' = length buffer \<and>
      put (content d) (b * bs d + q) src (if q \<noteq> 0 then min (bs d - q) len else 0) (content d'))"
proof (cases "q \<noteq> 0 \<and> 0 < len")
  case True
  show ?thesis
  proof (cases "b * bs d < length (content d)")
    case F: False
    then show ?thesis using True block_rd [OF assms(1-3)] by (auto simp: write_head_def)
  next
    case T: True
    have n: "(if len < bs d - q then len else bs d - q) = min (bs d - q) len" by (simp add: min_def)
    show ?thesis
      by (rule rmw [OF assms(1) put_0, of "b * bs d + q" b q "min (bs d - q) len" src buffer])
        (use T True assms n in \<open>auto simp: write_head_def Let_def\<close>)
  qed
next
  case False
  then show ?thesis using assms by (auto simp: write_head_def)
qed

lemma write_body_progress:
  assumes "ok d" "put con off src ret (content d)" "len = 0 \<or> off + ret = b * bs d"
    "ret + len \<le> length src" "b + len div bs d \<le> lim d"
  shows "write_body wr d (bs d) b len ret src buffer = Some (Inl (ret, d, buffer)) \<and>
      0 < len \<and> length (content d) < off + ret + len \<or>
    (\<exists>d'. write_body wr d (bs d) b len ret src buffer =
        Some (Inr (ret + len div bs d * bs d, d', buffer)) \<and>
      ok d' \<and> bs d' = bs d \<and> lim d' = lim d \<and>
      put con off src (ret + len div bs d * bs d) (content d'))"
proof (cases "0 < len div bs d")
  case True
  let ?t = "len div bs d"
  from True have "len \<noteq> 0" by (metis div_0 less_irrefl)
  with assms have pos: "off + ret = b * bs d" by simp
  have le: "?t * bs d \<le> len" by (simp add: mult.commute)
  show ?thesis
  proof (cases "(b + ?t) * bs d \<le> length (content d)")
    case T: True
    from wr_in [OF assms(1) True T, of ret src] obtain d' where
      "wr d b src ret ?t = Moved d'" "ok d'" "bs d' = bs d" "lim d' = lim d"
      "content d' = patch (content d) (off + ret) (take (?t * bs d) (drop ret src))"
      using assms(4) le pos by auto
    moreover have "put con off src (ret + ?t * bs d)
        (patch (content d) (off + ret) (take (?t * bs d) (drop ret src)))"
      using put_step [OF assms(2), of "?t * bs d"] T assms(4) le pos put_length [OF assms(2)]
      by (simp add: add_mult_distrib)
    ultimately show ?thesis using True by (simp add: write_body_def Let_def)
  next
    case F: False
    then have "length (content d) < off + ret + len"
      using pos le unfolding add_mult_distrib by linarith
    then show ?thesis
      using F True wr_out [OF assms(1) True assms(5)] \<open>len \<noteq> 0\<close> by (simp add: write_body_def Let_def)
  qed
next
  case False
  then show ?thesis using assms by (simp add: write_body_def)
qed

lemma write_tail_progress:
  assumes "ok d" "put con off src ret (content d)"
    "len = 0 \<or> off + ret = b * bs d \<and> b + 1 \<le> lim d"
    "ret + len \<le> length src" "len < bs d" "bs d \<le> length buffer"
  shows "\<exists>ret' d' buffer'. write_tail rd wr d b len ret src buffer = Some (ret', d', buffer') \<and>
    ok d' \<and> bs d' = bs d \<and> lim d' = lim d \<and> put con off src ret' (content d') \<and> ret' \<le> ret + len \<and>
    (off + ret + len \<le> length con \<or> len = 0 \<longrightarrow> ret' = ret + len)"
proof (cases "len = 0")
  case False
  with assms have pos: "off + ret = b * bs d" and b: "b + 1 \<le> lim d" by simp_all
  show ?thesis
  proof (cases "b * bs d < length (content d)")
    case F: False
    then show ?thesis
      using False pos assms(1,2) block_rd [OF assms(1) b assms(6)] put_length [OF assms(2)]
      by (simp add: write_tail_def)
  next
    case T: True
    show ?thesis
      by (rule rmw [OF assms(1,2), of b 0 len buffer])
        (use T False pos b assms in \<open>auto simp: write_tail_def\<close>)
  qed
qed (use assms in \<open>simp add: write_tail_def\<close>)

theorem byte_write:
  assumes "ok d" "block_size_of B = bs d" "len \<le> length src" "bs d \<le> length buffer"
    "(off + len) div bs d + 1 \<le> lim d"
  shows "\<exists>ret d' buffer'. BlockTrait_Write rd wr d B off src len buffer = Some (ret, d', buffer') \<and>
    ok d' \<and> bs d' = bs d \<and> lim d' = lim d \<and> ret \<le> len \<and> put (content d) off src ret (content d') \<and>
    (ret = len \<longleftrightarrow> off + len \<le> length (content d) \<or> len = 0)"
proof -
  let ?s = "bs d" and ?b = "off div bs d" and ?q = "off mod bs d"
  define n where "n = (if ?q \<noteq> 0 then min (?s - ?q) len else 0)"
  define c where "c = (if 0 < n then ?b + 1 else ?b)"
  define t where "t = (len - n) div ?s"
  note hb = head_boundary [OF assms(1,5) n_def, folded c_def t_def]
  have q: "?q < ?s" and b: "?b + 1 \<le> lim d"
    using bs_pos [OF assms(1)] assms(5) div_le_mono [of off "off + len" ?s] by auto
  have finish: ?thesis if "BlockTrait_Write rd wr d B off src len buffer = Some (ret, d', buf)"
    "ok d' \<and> bs d' = bs d \<and> lim d' = lim d" "put (content d) off src ret (content d')" "ret \<le> len"
    "ret \<noteq> len \<longrightarrow> length (content d) < off + len \<and> 0 < len" for ret d' buf
    using that by (cases "ret = len") (auto simp: put_def)
  from write_head_progress [OF assms(1) b assms(4,3) q, folded n_def]
  consider (stop) buf where "write_head rd wr d ?s ?b ?q len src buffer = Some (Inl (0, d, buf))"
      "0 < len" "length (content d) < off + len"
    | (go) d1 buf where "write_head rd wr d ?s ?b ?q len src buffer = Some (Inr (n, d1, buf))"
      "ok d1" "bs d1 = ?s" "lim d1 = lim d" "length buf = length buffer"
      "put (content d) off src n (content d1)"
    by auto
  then show ?thesis
  proof cases
    case stop
    then show ?thesis using assms(1,2) by (intro finish) (auto simp: BlockTrait_Write_def Let_def)
  next
    case go
    from hb(1) assms(3) have "n + (len - n) \<le> length src" by simp
    from write_body_progress [OF go(2,6), unfolded go(3,4), OF hb(2) this hb(3) [unfolded t_def], folded t_def]
      hb(1) put_length [OF go(6)]
    consider (stop) "write_body wr d1 ?s c (len - n) n src buf = Some (Inl (n, d1, buf))"
        "0 < len - n" "length (content d) < off + len"
      | (on) d2 where "write_body wr d1 ?s c (len - n) n src buf = Some (Inr (n + t * ?s, d2, buf))"
        "ok d2" "bs d2 = ?s" "lim d2 = lim d" "put (content d) off src (n + t * ?s) (content d2)"
      by fastforce
    then show ?thesis
    proof cases
      case stop
      then show ?thesis using go assms(2) hb(1)
        by (intro finish) (auto simp: BlockTrait_Write_def Let_def c_def)
    next
      case on
      obtain ret d3 buf' where
        r: "write_tail rd wr d2 (u64 (c + t)) (len - n - t * ?s) (n + t * ?s) src buf = Some (ret, d3, buf')"
          "ok d3 \<and> bs d3 = ?s \<and> lim d3 = lim d" "put (content d) off src ret (content d3)" "ret \<le> len"
          "off + len \<le> length (content d) \<or> len - n - t * ?s = 0 \<longrightarrow> ret = len"
        using write_tail_progress [OF on(2,5), unfolded on(3,4), OF hb(4) _ hb(6), of buf]
          hb(5) assms(3,4) go(5) by (auto simp: add.assoc)
      from r(1) have "BlockTrait_Write rd wr d B off src len buffer = Some (ret, d3, buf')"
        using go(1) on(1) assms(2) by (simp add: BlockTrait_Write_def Let_def c_def t_def)
      then show ?thesis using r by (intro finish) auto
    qed
  qed
qed

text \<open>A write inside the device followed by a read of the same range.\<close>

lemma write_then_read:
  assumes "ok d" "block_size_of B = bs d" "len \<le> length src" "bs d \<le> length buffer"
    "(off + len) div bs d + 1 \<le> lim d" "off + len \<le> length (content d)" "len \<le> length dest"
    "bs d \<le> length buffer2"
  shows "\<exists>d' buffer'. BlockTrait_Write rd wr d B off src len buffer = Some (len, d', buffer') \<and>
    (\<exists>buffer''. BlockTrait_Read (rd d') B off dest len buffer2 =
      Some (len, patch dest 0 (take len src), buffer''))"
proof -
  obtain d' buf where w: "BlockTrait_Write rd wr d B off src len buffer = Some (len, d', buf)"
    "ok d'" "bs d' = bs d" "lim d' = lim d" "put (content d) off src len (content d')"
    using byte_write [OF assms(1-5)] assms(6) by auto
  obtain dest' buf' where r: "BlockTrait_Read (rd d') B off dest len buffer2 = Some (len, dest', buf')"
    "got (content d') off dest len dest'"
    using byte_read [OF w(2), unfolded w(3,4), OF assms(2,7,8,5)] assms(6) put_length [OF w(5)] by auto
  have "take len (drop off (content d')) = take len src"
    using take_drop_patch [of off "take len src" "content d"] w(5) assms(3,6)
    by (simp add: put_def min_absorb2)
  with w(1) r show ?thesis by (auto simp: got_def)
qed

end


section \<open>The memory device and its partitions\<close>

definition device_ok :: "MemoryBlockDevice \<Rightarrow> bool" where
  "device_ok d \<longleftrightarrow> 0 < Block_Size d \<and> total_units d * Block_Size d \<le> length (address d) \<and>
    length (address d) < 2 ^ 64 - 1"

definition device_bytes :: "MemoryBlockDevice \<Rightarrow> mem" where
  "device_bytes d = take (total_units d * Block_Size d) (address d)"

lemma length_device_bytes: "device_ok d \<Longrightarrow> length (device_bytes d) = total_units d * Block_Size d"
  by (simp add: device_ok_def device_bytes_def)

lemma device_ok_new: "0 < unit \<Longrightarrow> length src < 2 ^ 64 - 1 \<Longrightarrow> device_ok (MemoryBlockDevice_new src unit)"
  by (simp add: device_ok_def MemoryBlockDevice_new_def)

lemma device_units_bound: "device_ok d \<Longrightarrow> total_units d < 2 ^ 64"
  using mult_le_mono2 [of 1 "Block_Size d" "total_units d"] unfolding device_ok_def by linarith

lemma device_in_range:
  assumes "device_ok d" "0 < t" "(b + t) * Block_Size d \<le> length (device_bytes d)"
  shows "b < total_units d" "u64 (b + t) \<le> total_units d"
    "u64 (b * Block_Size d) = b * Block_Size d" "u64 (Block_Size d * t) = t * Block_Size d"
    "b * Block_Size d + t * Block_Size d \<le> total_units d * Block_Size d"
proof -
  from assms have *: "b * Block_Size d + t * Block_Size d \<le> total_units d * Block_Size d"
    by (simp add: length_device_bytes add_mult_distrib)
  have le: "b + t \<le> total_units d"
    using * assms(1) by (simp add: device_ok_def flip: add_mult_distrib)
  have bound: "total_units d * Block_Size d < 2 ^ 64" using assms(1) by (simp add: device_ok_def)
  show "b * Block_Size d + t * Block_Size d \<le> total_units d * Block_Size d" by fact
  show "b < total_units d" using le assms(2) by simp
  show "u64 (b + t) \<le> total_units d" using le device_units_bound [OF assms(1)] by simp
  show "u64 (b * Block_Size d) = b * Block_Size d" using * bound by (intro u64_id) linarith
  show "u64 (Block_Size d * t) = t * Block_Size d"
    using * bound by (subst mult.commute, intro u64_id) linarith
qed

lemma device_out_of_range:
  assumes "device_ok d" "b + t \<le> 2 ^ 64 - 1" "length (device_bytes d) < (b + t) * Block_Size d"
  shows "total_units d \<le> b \<or> total_units d < u64 (b + t)"
proof -
  have "b + t < 2 ^ 64" using assms(2) by simp
  then show ?thesis using assms(1,3) by (simp add: length_device_bytes)
qed

interpretation memdev: block_device MemoryBlockDevice_Read MemoryBlockDevice_Write device_ok
  Block_Size device_bytes "\<lambda>_. 2 ^ 64 - 1"
proof (unfold_locales, goal_cases)
  case (5 d t b off dest)
  note r = device_in_range [OF 5(1-3)]
  have "take (t * Block_Size d) (drop (b * Block_Size d) (address d)) =
      take (t * Block_Size d) (drop (b * Block_Size d) (device_bytes d))"
    using r(5) by (simp add: device_bytes_def drop_take)
  then show ?case
    using r 5 by (simp add: MemoryBlockDevice_Read_def MemCopyN_Some device_ok_def)
next
  case (6 d t b dest off)
  then show ?case using device_out_of_range by (auto simp: MemoryBlockDevice_Read_def)
next
  case (7 d t b off src)
  note r = device_in_range [OF 7(1-3)]
  let ?a = "patch (address d) (b * Block_Size d) (take (t * Block_Size d) (drop off src))"
  have "MemoryBlockDevice_Write d b src off t = Moved (d\<lparr>address := ?a\<rparr>)"
    using r 7 by (simp add: MemoryBlockDevice_Write_def MemCopyN_Some device_ok_def)
  then show ?case using r 7 by (simp add: device_ok_def device_bytes_def patch_take)
next
  case (8 d t b src off)
  then show ?case using device_out_of_range by (auto simp: MemoryBlockDevice_Write_def)
qed (auto simp: device_ok_def length_device_bytes)

definition part_ok ::
  "('d \<Rightarrow> nat \<Rightarrow> PartitionSlice) \<Rightarrow> ('d \<Rightarrow> bool) \<Rightarrow> ('d \<Rightarrow> nat) \<Rightarrow> ('d \<Rightarrow> mem) \<Rightarrow> ('d \<Rightarrow> nat) \<Rightarrow>
   'd DiscPartition \<Rightarrow> bool" where
  "part_ok getSlice ok bs content lim p \<longleftrightarrow>
    (let s = slice (renew_slice getSlice p); d = base p in
     (slice_address s \<noteq> 0 \<or> slice_length s \<noteq> 0) \<and> ok d \<and>
     slice_address s * bs d \<le> length (content d) \<and> slice_address s \<le> lim d)"

definition part_bytes ::
  "('d \<Rightarrow> nat \<Rightarrow> PartitionSlice) \<Rightarrow> ('d \<Rightarrow> nat) \<Rightarrow> ('d \<Rightarrow> mem) \<Rightarrow> 'd DiscPartition \<Rightarrow> mem" where
  "part_bytes getSlice bs content p =
    drop (slice_address (slice (renew_slice getSlice p)) * bs (base p)) (content (base p))"

definition part_lim :: "('d \<Rightarrow> nat \<Rightarrow> PartitionSlice) \<Rightarrow> ('d \<Rightarrow> nat) \<Rightarrow> 'd DiscPartition \<Rightarrow> nat" where
  "part_lim getSlice lim p = lim (base p) - slice_address (slice (renew_slice getSlice p))"

lemma base_renew_slice [simp]: "base (renew_slice getSlice p) = base p"
  by (simp add: renew_slice_def)

lemma renew_slice_fixed:
  "slice_address (slice p) \<noteq> 0 \<or> slice_length (slice p) \<noteq> 0 \<Longrightarrow> renew_slice getSlice p = p"
  by (auto simp: renew_slice_def)

text \<open>A partition of any block device whose slice is known and starts inside the device is a
  block device: it shows the content of the base from the start of the slice on.\<close>

locale partition_view = block_device rd wr ok bs content lim
  for rd :: "'d \<Rightarrow> nat \<Rightarrow> mem \<Rightarrow> nat \<Rightarrow> nat \<Rightarrow> mem xfer"
    and wr :: "'d \<Rightarrow> nat \<Rightarrow> mem \<Rightarrow> nat \<Rightarrow> nat \<Rightarrow> 'd xfer"
    and ok bs content lim +
  fixes getSlice :: "'d \<Rightarrow> nat \<Rightarrow> PartitionSlice"
begin

lemma part_shift:
  assumes "part_ok getSlice ok bs content lim p"
    "(b + t) * bs (base p) \<le> length (part_bytes getSlice bs content p)" "0 < t"
  defines "a \<equiv> slice_address (slice (renew_slice getSlice p))"
  shows "ok (base p)" "u64 (b + a) = b + a" "(b + a + t) * bs (base p) \<le> length (content (base p))"
    "b * bs (base p) + t * bs (base p) + a * bs (base p) \<le> length (content (base p))"
proof -
  let ?d = "base p"
  show ok: "ok ?d" using assms(1) by (simp add: part_ok_def Let_def)
  show *: "b * bs ?d + t * bs ?d + a * bs ?d \<le> length (content ?d)"
    using assms(1,2) by (auto simp: part_ok_def Let_def part_bytes_def a_def add_mult_distrib)
  then show le: "(b + a + t) * bs ?d \<le> length (content ?d)" by (simp add: algebra_simps)
  have "b + a \<le> (b + a + t) * bs ?d" using bs_pos [OF ok] by (cases "bs ?d") auto
  then show "u64 (b + a) = b + a" using le content_bound [OF ok] by (intro u64_id) linarith
qed

lemma part_beyond:
  assumes "part_ok getSlice ok bs content lim p" "b + t \<le> part_lim getSlice lim p"
    "length (part_bytes getSlice bs content p) < (b + t) * bs (base p)" "0 < t"
  defines "a \<equiv> slice_address (slice (renew_slice getSlice p))"
  shows "ok (base p)" "u64 (b + a) = b + a" "b + a + t \<le> lim (base p)"
    "length (content (base p)) < (b + a + t) * bs (base p)"
proof -
  let ?d = "base p"
  show ok: "ok ?d" using assms(1) by (simp add: part_ok_def Let_def)
  show le: "b + a + t \<le> lim ?d"
    using assms(1,2) by (auto simp: part_ok_def part_lim_def Let_def a_def)
  then show "u64 (b + a) = b + a" using lim_le [OF ok] by (intro u64_id) linarith
  show "length (content ?d) < (b + a + t) * bs ?d"
    using assms(1,3) by (auto simp: part_ok_def Let_def part_bytes_def a_def algebra_simps)
qed

end

sublocale partition_view < part: block_device "partition_rd getSlice rd" "partition_wr getSlice wr"
  "part_ok getSlice ok bs content lim" "\<lambda>p. bs (base p)" "part_bytes getSlice bs content"
  "part_lim getSlice lim"
proof (unfold_locales, goal_cases)
  case (1 p)
  then show ?case by (simp add: part_ok_def Let_def bs_pos)
next
  case (2 p)
  then show ?case by (simp add: part_ok_def Let_def part_bytes_def bs_dvd)
next
  case (3 p)
  then show ?case using lim_le [of "base p"] by (simp add: part_ok_def Let_def part_lim_def)
next
  case (4 p)
  then show ?case using content_bound [of "base p"] by (simp add: part_ok_def Let_def part_bytes_def)
next
  case (5 p t b off dest)
  note s = part_shift [OF 5(1,3,2)]
  show ?case using rd_in [OF s(1) 5(2) s(3) 5(4)] s(2)
    by (simp add: partition_rd_def DiscPartition_Read_def Let_def part_bytes_def algebra_simps)
next
  case (6 p t b dest off)
  note s = part_beyond [OF 6(1,3,4,2)]
  show ?case using rd_out [OF s(1) 6(2) s(3,4)] s(2)
    by (simp add: partition_rd_def DiscPartition_Read_def Let_def)
next
  case (7 p t b off src)
  let ?p = "renew_slice getSlice p" and ?d = "base p"
  let ?a = "slice_address (slice ?p)"
  note s = part_shift [OF 7(1,3,2)]
  obtain d' where d': "wr ?d (b + ?a) src off t = Moved d'" "ok d'" "bs d' = bs ?d" "lim d' = lim ?d"
    "content d' = patch (content ?d) ((b + ?a) * bs ?d) (take (t * bs ?d) (drop off src))"
    using wr_in [OF s(1) 7(2) s(3) 7(4)] by blast
  have fixed: "renew_slice getSlice (?p\<lparr>base := d'\<rparr>) = ?p\<lparr>base := d'\<rparr>"
    using 7(1) by (intro renew_slice_fixed) (simp add: part_ok_def Let_def)
  have w: "partition_wr getSlice wr p b src off t = Moved (?p\<lparr>base := d'\<rparr>)"
    using d'(1) s(2) by (simp add: partition_wr_def DiscPartition_Write_def Let_def)
  have "part_bytes getSlice bs content (?p\<lparr>base := d'\<rparr>) =
      patch (part_bytes getSlice bs content p) (b * bs ?d) (take (t * bs ?d) (drop off src))"
    using d'(3,5) s(4) 7(4) patch_drop [of "?a * bs ?d" "content ?d" "b * bs ?d" "take (t * bs ?d) (drop off src)"]
    by (simp add: part_bytes_def fixed add_mult_distrib add.commute)
  then show ?case
    using w d' 7(1) 7(4) s(4) fixed by (auto simp: part_ok_def part_lim_def Let_def add_mult_distrib)
next
  case (8 p t b src off)
  note s = part_beyond [OF 8(1,3,4,2)]
  show ?case using wr_out [OF s(1) 8(2) s(3,4)] s(2)
    by (simp add: partition_wr_def DiscPartition_Write_def Let_def)
qed

interpretation mempart: partition_view MemoryBlockDevice_Read MemoryBlockDevice_Write device_ok
  Block_Size device_bytes "\<lambda>_. 2 ^ 64 - 1" getSlice for getSlice
  by unfold_locales

section \<open>Byte access to the memory device and to its partitions\<close>

lemma device_last_block:
  "device_ok d \<Longrightarrow> n \<le> length (device_bytes d) \<Longrightarrow> n div Block_Size d + 1 \<le> 2 ^ 64 - 1"
  using div_le_dividend [of n "Block_Size d"] length_device_bytes [of d]
  unfolding device_ok_def by linarith

text \<open>C8. Bytes written to a memory device are read back: a write of \<open>len\<close> bytes at any byte
  offset, aligned to blocks or not, that stays inside the device succeeds completely, changes
  exactly the bytes of its range, and a read of the range then delivers the bytes written.\<close>

theorem memory_device_write_read:
  assumes "device_ok d" "off + len \<le> length (device_bytes d)"
    "len \<le> length src" "len \<le> length dest"
    "Block_Size d \<le> length buffer" "Block_Size d \<le> length buffer2"
  shows "\<exists>d' buffer'.
    BlockTrait_Write MemoryBlockDevice_Read MemoryBlockDevice_Write d (Block_Size d) off src len buffer
      = Some (len, d', buffer') \<and>
    device_bytes d' = patch (device_bytes d) off (take len src) \<and>
    (\<exists>buffer''. BlockTrait_Read (MemoryBlockDevice_Read d') (Block_Size d) off dest len buffer2
      = Some (len, patch dest 0 (take len src), buffer''))"
proof -
  have B: "block_size_of (Block_Size d) = Block_Size d"
    using assms(1) by (simp add: block_size_of_def device_ok_def)
  note lim = device_last_block [OF assms(1,2)]
  show ?thesis
    using memdev.byte_write [OF assms(1) B assms(3,5) lim] assms(2)
      memdev.write_then_read [OF assms(1) B assms(3,5) lim assms(2,4,6)]
    by (auto simp: put_def)
qed

definition sample_device :: MemoryBlockDevice where
  "sample_device = MemoryBlockDevice_new [1, 2, 3, 4, 5, 6, 7, 8, 9, 10, 11, 12, 13] 4"

lemma sample_device_ok: "device_ok sample_device"
  unfolding sample_device_def by (rule device_ok_new) simp_all

lemma sample_device_bytes: "device_bytes sample_device = [1, 2, 3, 4, 5, 6, 7, 8, 9, 10, 11, 12]"
  by code_simp

lemma sample_device_Block_Size [simp]: "Block_Size sample_device = 4"
  by code_simp

theorem memory_device_write_read_witness:
  "\<exists>d' buffer'.
    BlockTrait_Write MemoryBlockDevice_Read MemoryBlockDevice_Write sample_device 4 3
      [21, 22, 23, 24, 25, 26] 6 (replicate 4 0) = Some (6, d', buffer') \<and>
    device_bytes d' = [1, 2, 3, 21, 22, 23, 24, 25, 26, 10, 11, 12]"
  using memory_device_write_read [OF sample_device_ok, of 3 6 "[21, 22, 23, 24, 25, 26]"
      "replicate 6 0" "replicate 4 0" "replicate 4 0"]
  by (auto simp: sample_device_bytes patch_def)

text \<open>A read of any range of a memory device never copies outside its memory areas.  It
  reports a number of bytes that it has delivered exactly, leaves the rest of the destination
  alone, and is complete if and only if the range lies inside the device (or is empty).\<close>

lemma memory_device_read:
  assumes "device_ok d" "len \<le> length dest" "Block_Size d \<le> length buffer" "off + len < 2 ^ 64 - 1"
  shows "\<exists>ret dest' buffer'.
    BlockTrait_Read (MemoryBlockDevice_Read d) (Block_Size d) off dest len buffer
      = Some (ret, dest', buffer') \<and>
    ret \<le> len \<and> dest' = patch dest 0 (take ret (drop off (device_bytes d))) \<and>
    (ret = len \<longleftrightarrow> off + len \<le> length (device_bytes d) \<or> len = 0)"
proof -
  have "block_size_of (Block_Size d) = Block_Size d"
    using assms(1) by (simp add: block_size_of_def device_ok_def)
  moreover have "(off + len) div Block_Size d + 1 \<le> 2 ^ 64 - 1"
    using assms(4) div_le_dividend [of "off + len" "Block_Size d"] by linarith
  ultimately show ?thesis
    using memdev.byte_read [OF assms(1) _ assms(2,3)] unfolding got_def by blast
qed

lemma memory_device_read_example:
  "\<exists>ret dest' buffer'.
    BlockTrait_Read (MemoryBlockDevice_Read sample_device) 4 6 (replicate 20 0) 20 (replicate 4 0)
      = Some (ret, dest', buffer') \<and>
    ret < 20 \<and> dest' = patch (replicate 20 0) 0 (take ret [7, 8, 9, 10, 11, 12])"
  using memory_device_read [OF sample_device_ok, of 20 "replicate 20 0" "replicate 4 0" 6]
  by (auto simp: sample_device_bytes)

text \<open>C9. A write to a partition that stays inside the slice changes only blocks of the slice:
  every byte of the disk before the slice and behind it keeps its value, and the blocks written
  hold the bytes of the source.\<close>

theorem partition_write_contained:
  assumes "device_ok d" "base p = d" "slice (renew_slice getSlice p) = s"
    "slice_address s + slice_length s \<le> total_units d"
    "0 < n" "b + n \<le> slice_length s" "off + n * Block_Size d \<le> length src"
  shows "\<exists>p'. DiscPartition_Write getSlice MemoryBlockDevice_Write p b src off n = (Moved (), p') \<and>
    slice p' = s \<and>
    device_bytes (base p') = patch (device_bytes d) ((slice_address s + b) * Block_Size d)
      (take (n * Block_Size d) (drop off src)) \<and>
    take (slice_address s * Block_Size d) (device_bytes (base p')) =
      take (slice_address s * Block_Size d) (device_bytes d) \<and>
    drop ((slice_address s + slice_length s) * Block_Size d) (device_bytes (base p')) =
      drop ((slice_address s + slice_length s) * Block_Size d) (device_bytes d)"
proof -
  let ?a = "slice_address s" and ?B = "Block_Size d" and ?ys = "take (n * Block_Size d) (drop off src)"
  have ys: "length ?ys = n * ?B" using assms(7) by simp
  have le: "?a * ?B + b * ?B + n * ?B \<le> (?a + slice_length s) * ?B"
    using mult_le_mono1 [OF assms(6), of ?B] by (simp add: add_mult_distrib)
  also have "\<dots> \<le> length (device_bytes d)"
    using assms(1) mult_le_mono1 [OF assms(4), of ?B] by (simp add: length_device_bytes)
  finally have in_dev: "(?a + b + n) * ?B \<le> length (device_bytes d)"
    by (simp add: add_mult_distrib)
  obtain d' where d': "MemoryBlockDevice_Write d (?a + b) src off n = Moved d'"
    "device_bytes d' = patch (device_bytes d) ((?a + b) * ?B) ?ys"
    using memdev.wr_in [OF assms(1,5) in_dev assms(7)] by blast
  have "u64 (b + ?a) = ?a + b"
    using assms(4,6) device_units_bound [OF assms(1)] by (simp add: add.commute)
  then have "DiscPartition_Write getSlice MemoryBlockDevice_Write p b src off n =
      (Moved (), renew_slice getSlice p\<lparr>base := d'\<rparr>)"
    using d'(1) assms(2,3) by (simp add: DiscPartition_Write_def Let_def)
  moreover have "take (?a * ?B) (patch (device_bytes d) ((?a + b) * ?B) ?ys) =
      take (?a * ?B) (device_bytes d)"
    using in_dev by (simp add: patch_def add_mult_distrib min_def)
  moreover have "drop ((?a + slice_length s) * ?B) (patch (device_bytes d) ((?a + b) * ?B) ?ys) =
      drop ((?a + slice_length s) * ?B) (device_bytes d)"
    using in_dev ys le assms(6) unfolding patch_def by (simp add: add_mult_distrib add.commute)
  ultimately show ?thesis using d'(2) assms(3) by auto
qed

text \<open>A partition of a memory device stores what is written to it: byte writes through the
  partition at any offset inside the part of the disk it shows are complete and are read back
  through the partition.\<close>

lemma partition_write_read:
  assumes "part_ok getSlice device_ok Block_Size device_bytes (\<lambda>_. 2 ^ 64 - 1) p"
    "off + len \<le> length (part_bytes getSlice Block_Size device_bytes p)"
    "len \<le> length src" "len \<le> length dest"
    "Block_Size (base p) \<le> length buffer" "Block_Size (base p) \<le> length buffer2"
    "(off + len) div Block_Size (base p) + 1 \<le> part_lim getSlice (\<lambda>_. 2 ^ 64 - 1) p"
  shows "\<exists>p' buffer'.
    BlockTrait_Write (partition_rd getSlice MemoryBlockDevice_Read)
      (partition_wr getSlice MemoryBlockDevice_Write) p (Block_Size (base p)) off src len buffer
      = Some (len, p', buffer') \<and>
    (\<exists>buffer''. BlockTrait_Read (partition_rd getSlice MemoryBlockDevice_Read p')
        (Block_Size (base p)) off dest len buffer2
      = Some (len, patch dest 0 (take len src), buffer''))"
proof -
  have "block_size_of (Block_Size (base p)) = Block_Size (base p)"
    using assms(1) by (simp add: block_size_of_def device_ok_def part_ok_def Let_def)
  then show ?thesis
    using mempart.part.write_then_read [OF assms(1) _ assms(3,5,7,2,4,6)] by blast
qed

text \<open>The sample device has three blocks; the partition shows the last two of them.\<close>

definition sample_partition :: "MemoryBlockDevice DiscPartition" where
  "sample_partition = (DiscPartition_new sample_device 1)
    \<lparr>slice := \<lparr>slice_address = 1, slice_length = 2, sys_id = FAT32_LBA\<rparr>\<rparr>"

definition sample_getSlice :: "MemoryBlockDevice \<Rightarrow> nat \<Rightarrow> PartitionSlice" where
  "sample_getSlice d dev = StorageTrait_getSlice (MemoryBlockDevice_getUnits d) dev"

lemma sample_partition_simps:
  "renew_slice sample_getSlice sample_partition = sample_partition"
  "slice sample_partition = \<lparr>slice_address = 1, slice_length = 2, sys_id = FAT32_LBA\<rparr>"
  "base sample_partition = sample_device" "total_units sample_device = 3"
  by code_simp+

theorem partition_write_contained_witness:
  "\<exists>p'. DiscPartition_Write sample_getSlice MemoryBlockDevice_Write sample_partition 1
      [21, 22, 23, 24] 0 1 = (Moved (), p') \<and>
    device_bytes (base p') = [1, 2, 3, 4, 5, 6, 7, 8, 21, 22, 23, 24]"
  using partition_write_contained [OF sample_device_ok, of sample_partition sample_getSlice
      "slice sample_partition" 1 1 0 "[21, 22, 23, 24]"]
  by (auto simp: sample_partition_simps sample_device_bytes patch_def)

lemma sample_partition_ok:
  "part_ok sample_getSlice device_ok Block_Size device_bytes (\<lambda>_. 2 ^ 64 - 1) sample_partition"
  by (simp add: part_ok_def sample_partition_simps sample_device_ok sample_device_bytes)

lemma partition_write_read_example:
  "\<exists>p' buffer'.
    BlockTrait_Write (partition_rd sample_getSlice MemoryBlockDevice_Read)
      (partition_wr sample_getSlice MemoryBlockDevice_Write) sample_partition 4 2 [21, 22, 23, 24] 4
      (replicate 4 0) = Some (4, p', buffer') \<and>
    (\<exists>buffer''. BlockTrait_Read (partition_rd sample_getSlice MemoryBlockDevice_Read p') 4 2
      (replicate 5 0) 4 (replicate 4 0) = Some (4, [21, 22, 23, 24, 0], buffer''))"
proof -
  have "patch (replicate 5 0) 0 (take 4 [21, 22, 23, 24]) = [21, 22, 23, 24, 0 :: byte]"
    by code_simp
  then show ?thesis
    using partition_write_read [OF sample_partition_ok, of 2 4 "[21, 22, 23, 24]" "replicate 5 0"
        "replicate 4 0" "replicate 4 0"]
    by (simp add: part_bytes_def part_lim_def sample_partition_simps sample_device_bytes)
qed

text \<open>C10. The bounds check of the memory device adds the number of blocks to the first block
  without regard to overflow: a request for \<open>2 ^ 64 - 1\<close> blocks from block 1 on passes the check
  and copies outside the memory of the device instead of being refused.\<close>

theorem memory_device_bounds_wrap:
  assumes "device_ok d" "1 < total_units d"
  shows "MemoryBlockDevice_Read d 1 dest off (2 ^ 64 - 1) = Faulted \<and>
    MemoryBlockDevice_Write d 1 src off (2 ^ 64 - 1) = Faulted"
proof -
  have B: "0 < Block_Size d" "Block_Size d < 2 ^ 64"
    using assms mult_le_mono1 [of 1 "total_units d" "Block_Size d"] unfolding device_ok_def
    by linarith+
  have "Block_Size d * (2 ^ 64 - 1) = 2 ^ 64 * (Block_Size d - 1) + (2 ^ 64 - Block_Size d)"
    using B by (simp add: algebra_simps diff_mult_distrib2)
  then have "u64 (Block_Size d * (2 ^ 64 - 1)) = 2 ^ 64 - Block_Size d"
    using B unfolding u64_def by (metis diff_less mod_less mod_mult_self4 zero_less_numeral zero_less_power)
  moreover have "u64 (1 + (2 ^ 64 - 1)) = 0" by (simp add: u64_def)
  moreover have "length (address d) < Block_Size d + (2 ^ 64 - Block_Size d)"
    using assms(1) B by (simp add: device_ok_def)
  ultimately show ?thesis
    using assms(2) B
    by (simp add: MemoryBlockDevice_Read_def MemoryBlockDevice_Write_def MemCopyN_def)
qed

theorem memory_device_bounds_wrap_witness:
  "MemoryBlockDevice_Read sample_device 1 [] 0 (2 ^ 64 - 1) = Faulted"
  using memory_device_bounds_wrap [OF sample_device_ok] by (simp add: sample_partition_simps)

text \<open>A partition passes block numbers past its slice on to the device: only the end of the whole
  disk stops it.\<close>

lemma partition_write_unchecked:
  assumes "device_ok d" "base p = d" "slice (renew_slice getSlice p) = s"
    "slice_length s \<le> b" "slice_address s + b < total_units d" "off + Block_Size d \<le> length src"
  shows "\<exists>p'. DiscPartition_Write getSlice MemoryBlockDevice_Write p b src off 1 = (Moved (), p') \<and>
    device_bytes (base p') = patch (device_bytes d) ((slice_address s + b) * Block_Size d)
      (take (Block_Size d) (drop off src))"
proof -
  have "(slice_address s + b + 1) * Block_Size d \<le> length (device_bytes d)"
    using mult_le_mono1 [of "slice_address s + b + 1" "total_units d" "Block_Size d"] assms(1,5)
    by (simp add: length_device_bytes)
  then obtain d' where "MemoryBlockDevice_Write d (slice_address s + b) src off 1 = Moved d'"
    "device_bytes d' = patch (device_bytes d) ((slice_address s + b) * Block_Size d)
      (take (Block_Size d) (drop off src))"
    using memdev.wr_in [OF assms(1), of 1 "slice_address s + b" off src] assms(6) by auto
  moreover have "u64 (b + slice_address s) = slice_address s + b"
    using assms(5) device_units_bound [OF assms(1)] by (simp add: add.commute)
  ultimately show ?thesis using assms(2,3) by (simp add: DiscPartition_Write_def Let_def)
qed

end
