(* ===== verification/PartTable.thy ===== *)
theory PartTable
  imports Block
begin

text \<open>
  Partition tables: \<open>HD_Info\<close> and \<open>PartitionTableX86\<close> of
  \<open>src/inc/cpp/System/Filesys/Partition.hpp\<close>, the GUID partition table of
  \<open>src/lib/cpp/Device/Storage/Storage-GPT.cpp\<close> and \<open>DiscPartition::Partition\<close> of
  \<open>src/lib/cpp/Device/Storage.cpp\<close>.

  The disk is a function from block numbers to the content of the block, \<open>None\<close> where the virtual
  \<open>Read\<close> returns false; the sector buffer of the caller is threaded through, since a failed read
  leaves it as it was.  Fields are read from the bytes at the offsets of the packed structures.
  Unsigned arithmetic wraps around where the source can overflow (\<open>u64\<close>).
\<close>

type_synonym disk = "nat \<Rightarrow> mem option"

section \<open>Fields\<close>

fun le_nat :: "byte list \<Rightarrow> nat" where
  "le_nat [] = 0"
| "le_nat (b # bs) = unat b + 256 * le_nat bs"

definition field :: "mem \<Rightarrow> nat \<Rightarrow> nat \<Rightarrow> nat" where
  "field m off n = le_nat (take n (drop off m))"

lemma le_nat_less: "le_nat bs < 256 ^ length bs"
proof (induction bs)
  case (Cons b bs)
  have "unat b < 256" using unsigned_less [of b] by simp
  with Cons show ?case by simp
qed simp

lemma field_less: "field m off n < 256 ^ n"
proof -
  have "le_nat (take n (drop off m)) < 256 ^ length (take n (drop off m))" by (rule le_nat_less)
  also have "\<dots> \<le> 256 ^ n" by (rule power_increasing) auto
  finally show ?thesis by (simp add: field_def)
qed

definition fs_of_byte :: "byte \<Rightarrow> ClassicFilesysType" where
  "fs_of_byte b =
    (if b = 0 then FsNone else if b = 0x01 then FAT12 else if b = 0x04 then FAT16_CHS
     else if b = 0x05 then EXT else if b = 0x06 then FAT16_CHSX else if b = 0x07 then NTFS
     else if b = 0x0B then FAT32_CHS else if b = 0x0C then FAT32_LBA else if b = 0x0E then FAT16_LBA
     else if b = 0x82 then LINUX_SWAP else if b = 0x83 then LINUX_NATIVE
     else if b = 0xEE then GPT_PROTECTIVE else if b = 0xEF then EFI_SYS else FsOther b)"

section \<open>The list of partitions\<close>

datatype PartitionSchemeKind = SchemeUnknown | MBR | GPT | GPT_Backup

record GptPartitionMeta =
  meta_type_guid :: "byte list"
  meta_uniq_guid :: "byte list"
  meta_attributes :: nat

definition MAX_PARTITIONS :: nat where
  "MAX_PARTITIONS = 128"

record HD_Info =
  whole_disk :: PartitionSlice
  scheme_kind :: PartitionSchemeKind
  part_count :: nat
  part_overflow :: nat
  parts :: "PartitionSlice list"
  gpt_meta :: "GptPartitionMeta list"

definition zero_slice :: PartitionSlice where
  "zero_slice = \<lparr>slice_address = 0, slice_length = 0, sys_id = FsNone\<rparr>"

definition zero_meta :: GptPartitionMeta where
  "zero_meta = \<lparr>meta_type_guid = replicate 16 0, meta_uniq_guid = replicate 16 0, meta_attributes = 0\<rparr>"

definition ResetUnifiedParts :: "HD_Info \<Rightarrow> HD_Info" where
  "ResetUnifiedParts hdi = hdi\<lparr>part_count := 0, part_overflow := 0,
    parts := replicate MAX_PARTITIONS zero_slice, gpt_meta := replicate MAX_PARTITIONS zero_meta\<rparr>"

definition AppendPart :: "HD_Info \<Rightarrow> PartitionSlice \<Rightarrow> bool \<times> HD_Info" where
  "AppendPart hdi sl =
    (if part_count hdi < MAX_PARTITIONS
     then (True, hdi\<lparr>parts := (parts hdi)[part_count hdi := sl], part_count := part_count hdi + 1\<rparr>)
     else (False, hdi\<lparr>part_overflow := (part_overflow hdi + 1) mod 2 ^ 32\<rparr>))"

definition GetPartitionSlice :: "HD_Info \<Rightarrow> nat \<Rightarrow> PartitionSlice" where
  "GetPartitionSlice hdi dev =
    (if dev = 0 then whole_disk hdi
     else if dev \<le> part_count hdi then parts hdi ! (dev - 1)
     else zero_slice)"

text \<open>An entry of the table of a master boot record.\<close>

record PartitionTableX86 =
  boot_status :: byte
  head_start :: byte
  sector_start :: nat
  cylinder_start :: nat
  fs_type :: ClassicFilesysType
  head_end :: byte
  sector_end :: nat
  cylinder_end :: nat
  lba_start :: nat
  lba_count :: nat

definition table_entry :: "mem \<Rightarrow> nat \<Rightarrow> PartitionTableX86" where
  "table_entry m off =
    \<lparr>boot_status = m ! off, head_start = m ! (off + 1),
     sector_start = field m (off + 2) 2 mod 64, cylinder_start = field m (off + 2) 2 div 64,
     fs_type = fs_of_byte (m ! (off + 4)), head_end = m ! (off + 5),
     sector_end = field m (off + 6) 2 mod 64, cylinder_end = field m (off + 6) 2 div 64,
     lba_start = field m (off + 8) 4, lba_count = field m (off + 12) 4\<rparr>"

definition MBR_PARTITION_TABLE_OFFSET :: nat where
  "MBR_PARTITION_TABLE_OFFSET = 0x1BE"

definition part_tbl :: "mem \<Rightarrow> PartitionTableX86 list" where
  "part_tbl m = map (\<lambda>i. table_entry m (MBR_PARTITION_TABLE_OFFSET + 16 * i)) [0..<4]"

section \<open>The GUID partition table\<close>

record GptHeader =
  signature :: "byte list"
  revision :: nat
  header_size :: nat
  header_crc32 :: uint32
  reserved :: nat
  my_lba :: nat
  alternate_lba :: nat
  first_usable_lba :: nat
  last_usable_lba :: nat
  disk_guid :: "byte list"
  partition_entry_lba :: nat
  number_of_partition_entries :: nat
  size_of_partition_entry :: nat
  partition_entry_array_crc32 :: uint32

record GptEntry =
  type_guid :: "byte list"
  uniq_guid :: "byte list"
  first_lba :: nat
  last_lba :: nat
  attributes :: nat
  name_utf16 :: "byte list"

definition header_of :: "mem \<Rightarrow> GptHeader" where
  "header_of m =
    \<lparr>signature = take 8 m, revision = field m 8 4, header_size = field m 12 4,
     header_crc32 = of_nat (field m 16 4), reserved = field m 20 4, my_lba = field m 24 8,
     alternate_lba = field m 32 8, first_usable_lba = field m 40 8, last_usable_lba = field m 48 8,
     disk_guid = take 16 (drop 56 m), partition_entry_lba = field m 72 8,
     number_of_partition_entries = field m 80 4, size_of_partition_entry = field m 84 4,
     partition_entry_array_crc32 = of_nat (field m 88 4)\<rparr>"

definition entry_of :: "mem \<Rightarrow> GptEntry" where
  "entry_of m =
    \<lparr>type_guid = take 16 m, uniq_guid = take 16 (drop 16 m), first_lba = field m 32 8,
     last_lba = field m 40 8, attributes = field m 48 8, name_utf16 = take 72 (drop 56 m)\<rparr>"

definition IsZeroGuid :: "byte list \<Rightarrow> bool" where
  "IsZeroGuid guid \<longleftrightarrow> (\<forall>b \<in> set (take 16 guid). b = 0)"

definition GuidEq :: "byte list \<Rightarrow> byte list \<Rightarrow> bool" where
  "GuidEq lhs rhs \<longleftrightarrow> take 16 lhs = take 16 rhs"

unbundle bit_operations_syntax

definition crc_bit :: "uint32 \<Rightarrow> uint32" where
  "crc_bit crc = (let mask = - (crc AND 1) in drop_bit 1 crc XOR (0xEDB88320 AND mask))"

definition crc_byte :: "uint32 \<Rightarrow> byte \<Rightarrow> uint32" where
  "crc_byte crc b = (crc_bit ^^ 8) (crc XOR ucast b)"

definition Crc32 :: "byte list \<Rightarrow> uint32" where
  "Crc32 data = NOT (foldl crc_byte 0xFFFFFFFF data)"

definition IsPow2 :: "nat \<Rightarrow> bool" where
  "IsPow2 v \<longleftrightarrow> v \<noteq> 0 \<and> v AND (v - 1) = 0"

definition guid_esp :: "byte list" where
  "guid_esp = [0x28, 0x73, 0x2A, 0xC1, 0x1F, 0xF8, 0xD2, 0x11, 0xBA, 0x4B, 0x00, 0xA0, 0xC9, 0x3E, 0xC9, 0x3B]"

definition guid_basic_data :: "byte list" where
  "guid_basic_data = [0xA2, 0xA0, 0xD0, 0xEB, 0xE5, 0xB9, 0x33, 0x44, 0x87, 0xC0, 0x68, 0xB6, 0xB7, 0x26, 0x99, 0xC7]"

definition guid_linux_fs :: "byte list" where
  "guid_linux_fs = [0xAF, 0x3D, 0xC6, 0x0F, 0x83, 0x84, 0x72, 0x47, 0x8E, 0x79, 0x3D, 0x69, 0xD8, 0x47, 0x7D, 0xE4]"

definition MapGptTypeToSysId :: "byte list \<Rightarrow> ClassicFilesysType" where
  "MapGptTypeToSysId guid =
    (if GuidEq guid guid_esp then EFI_SYS
     else if GuidEq guid guid_basic_data then FAT32_LBA
     else if GuidEq guid guid_linux_fs then LINUX_NATIVE
     else FsNone)"

text \<open>The limit the source calls \<open>max_stduint\<close> is the largest 32-bit number: \<open>~0u\<close> is an
  \<open>unsigned int\<close>, and the cast to \<open>stduint\<close> extends it with zeros.\<close>

definition max_stduint :: nat where
  "max_stduint = 0xFFFFFFFF"

definition ReadBlock :: "disk \<Rightarrow> nat \<Rightarrow> mem \<Rightarrow> bool \<times> mem" where
  "ReadBlock rd lba buf =
    (if lba > max_stduint then (False, buf)
     else case rd lba of None \<Rightarrow> (False, buf) | Some blk \<Rightarrow> (True, patch buf 0 blk))"

definition IsProtectiveMbr :: "mem \<Rightarrow> nat \<Rightarrow> bool" where
  "IsProtectiveMbr block block_size =
    (if block_size < 512 then False
     else if block ! 510 \<noteq> 0x55 \<or> block ! 511 \<noteq> 0xAA then False
     else list_ex (\<lambda>e. fs_type e = GPT_PROTECTIVE) (part_tbl block))"

definition ReadGptHeader :: "disk \<Rightarrow> nat \<Rightarrow> mem \<Rightarrow> GptHeader option \<times> mem" where
  "ReadGptHeader rd lba block_buf =
    (case ReadBlock rd lba block_buf of
       (False, buf) \<Rightarrow> (None, buf)
     | (True, buf) \<Rightarrow> (Some (header_of buf), buf))"

definition ValidateGptHeader :: "GptHeader \<Rightarrow> nat \<Rightarrow> nat \<Rightarrow> nat \<Rightarrow> nat \<Rightarrow> mem \<Rightarrow> bool" where
  "ValidateGptHeader hdr expected_lba expected_alt_lba disk_last_lba block_size block_buf =
    (if signature hdr \<noteq> map (\<lambda>c. of_nat (of_char c)) ''EFI PART'' then False
     else if header_size hdr < 92 \<or> header_size hdr > block_size then False
     else if my_lba hdr \<noteq> expected_lba then False
     else if alternate_lba hdr \<noteq> expected_alt_lba then False
     else if first_usable_lba hdr > last_usable_lba hdr then False
     else if size_of_partition_entry hdr < 128 then False
     else if size_of_partition_entry hdr AND 127 \<noteq> 0 then False
     else if \<not> IsPow2 (size_of_partition_entry hdr div 128) then False
     else if number_of_partition_entries hdr = 0 then False
     else
       (let entry_bytes = u64 (number_of_partition_entries hdr * size_of_partition_entry hdr);
            entry_blocks = u64 (entry_bytes + block_size - 1) div block_size in
        if entry_blocks = 0 then False
        else if partition_entry_lba hdr < 2 then False
        else if u64 (partition_entry_lba hdr + entry_blocks + (2 ^ 64 - 1)) > disk_last_lba then False
        else if first_usable_lba hdr < 2 \<or> last_usable_lba hdr > disk_last_lba then False
        else Crc32 (patch (take (header_size hdr) block_buf) 16 [0, 0, 0, 0]) = header_crc32 hdr))"

text \<open>\<open>_LOCAL_LoadGpt\<close>: reading the entry array, then checking and recording its entries one by one.
  A \<open>False\<close> stands for the returns that reject the table.\<close>

fun read_entries :: "disk \<Rightarrow> nat \<Rightarrow> nat \<Rightarrow> nat \<Rightarrow> nat list \<Rightarrow> mem \<Rightarrow> mem \<Rightarrow> mem option \<times> mem" where
  "read_entries rd entry_lba block_size entry_bytes [] entry_buf block_buf = (Some entry_buf, block_buf)"
| "read_entries rd entry_lba block_size entry_bytes (i # is) entry_buf block_buf =
    (case ReadBlock rd (u64 (entry_lba + i)) block_buf of
       (False, block_buf) \<Rightarrow> (None, block_buf)
     | (True, block_buf) \<Rightarrow>
         (let todo = block_size;
              copied = i * block_size;
              todo = (if copied + todo > entry_bytes then entry_bytes - copied else todo) in
          read_entries rd entry_lba block_size entry_bytes is
            (patch entry_buf copied (take todo block_buf)) block_buf))"

definition overlaps_previous :: "HD_Info \<Rightarrow> GptEntry \<Rightarrow> bool" where
  "overlaps_previous hdi ent \<longleftrightarrow>
    (\<exists>j \<in> set [0..<part_count hdi].
      (let prev = parts hdi ! j;
           prev_start = slice_address prev;
           prev_end = u64 (slice_address prev + slice_length prev + (2 ^ 64 - 1)) in
       \<not> (last_lba ent < prev_start \<or> first_lba ent > prev_end)))"

definition probe_type :: "disk \<Rightarrow> GptEntry \<Rightarrow> mem \<Rightarrow> ClassicFilesysType \<times> mem" where
  "probe_type rd ent block_buf =
    (let sys = MapGptTypeToSysId (type_guid ent) in
     if sys = FAT32_LBA
     then (case ReadBlock rd (first_lba ent) block_buf of
             (False, block_buf) \<Rightarrow> (sys, block_buf)
           | (True, block_buf) \<Rightarrow>
               (if take 4 (drop 3 block_buf) = map (\<lambda>c. of_nat (of_char c)) ''NTFS'' then NTFS else sys,
                block_buf))
     else (sys, block_buf))"

definition record_entry :: "HD_Info \<Rightarrow> GptEntry \<Rightarrow> nat \<Rightarrow> ClassicFilesysType \<Rightarrow> HD_Info" where
  "record_entry hdi ent slice_len sys =
    (let meta_index = (if part_count hdi < MAX_PARTITIONS then part_count hdi else MAX_PARTITIONS - 1) in
     case AppendPart hdi \<lparr>slice_address = first_lba ent, slice_length = slice_len, sys_id = sys\<rparr> of
       (True, hdi) \<Rightarrow> hdi\<lparr>gpt_meta := (gpt_meta hdi)[meta_index :=
          \<lparr>meta_type_guid = type_guid ent, meta_uniq_guid = uniq_guid ent, meta_attributes = attributes ent\<rparr>]\<rparr>
     | (False, hdi) \<Rightarrow> hdi)"

fun load_entries :: "disk \<Rightarrow> GptHeader \<Rightarrow> GptEntry list \<Rightarrow> HD_Info \<Rightarrow> mem \<Rightarrow> bool \<times> HD_Info \<times> mem" where
  "load_entries rd hdr [] hdi block_buf = (True, hdi, block_buf)"
| "load_entries rd hdr (ent # ents) hdi block_buf =
    (if IsZeroGuid (type_guid ent) then load_entries rd hdr ents hdi block_buf
     else if first_lba ent > last_lba ent then (False, hdi, block_buf)
     else if first_lba ent < first_usable_lba hdr \<or> last_lba ent > last_usable_lba hdr
     then (False, hdi, block_buf)
     else
       (let slice_len = u64 (last_lba ent - first_lba ent + 1) in
        if first_lba ent > max_stduint \<or> slice_len > max_stduint then (False, hdi, block_buf)
        else if overlaps_previous hdi ent then (False, hdi, block_buf)
        else
          (case probe_type rd ent block_buf of
             (sys, block_buf) \<Rightarrow>
               load_entries rd hdr ents (record_entry hdi ent slice_len sys) block_buf)))"

definition entry_at :: "GptHeader \<Rightarrow> mem \<Rightarrow> nat \<Rightarrow> GptEntry" where
  "entry_at hdr entry_buf i = entry_of (take 128 (drop (i * size_of_partition_entry hdr) entry_buf))"

definition LoadGpt ::
  "disk \<Rightarrow> nat \<Rightarrow> HD_Info \<Rightarrow> mem \<Rightarrow> GptHeader \<Rightarrow> PartitionSchemeKind \<Rightarrow> bool \<times> HD_Info \<times> mem" where
  "LoadGpt rd bsz hdi block_buf hdr kind =
    (let block_size = block_size_of bsz;
         entry_bytes = u64 (number_of_partition_entries hdr * size_of_partition_entry hdr) in
     if entry_bytes > max_stduint then (False, hdi, block_buf)
     else
       (let blocks = u64 (entry_bytes + block_size - 1) div block_size in
        case read_entries rd (partition_entry_lba hdr) block_size entry_bytes [0..<blocks]
               (replicate entry_bytes 0) block_buf of
          (None, block_buf) \<Rightarrow> (False, hdi, block_buf)
        | (Some entry_buf, block_buf) \<Rightarrow>
            if Crc32 entry_buf \<noteq> partition_entry_array_crc32 hdr then (False, hdi, block_buf)
            else load_entries rd hdr (map (entry_at hdr entry_buf) [0..<number_of_partition_entries hdr])
                   (ResetUnifiedParts (hdi\<lparr>scheme_kind := kind\<rparr>)) block_buf))"

definition TryGpt ::
  "disk \<Rightarrow> nat \<Rightarrow> HD_Info \<Rightarrow> mem \<Rightarrow> nat \<Rightarrow> nat \<Rightarrow> nat \<Rightarrow> PartitionSchemeKind \<Rightarrow> bool \<times> HD_Info \<times> mem" where
  "TryGpt rd bsz hdi block_buf header_lba expected_alt_lba disk_last_lba kind =
    (case ReadGptHeader rd header_lba block_buf of
       (None, block_buf) \<Rightarrow> (False, hdi, block_buf)
     | (Some hdr, block_buf) \<Rightarrow>
         if \<not> ValidateGptHeader hdr header_lba expected_alt_lba disk_last_lba (block_size_of bsz) block_buf
         then (False, hdi, block_buf)
         else LoadGpt rd bsz hdi block_buf hdr kind)"

definition LoadGPTPartitions :: "disk \<Rightarrow> nat \<Rightarrow> nat \<Rightarrow> HD_Info \<Rightarrow> mem \<Rightarrow> bool \<times> HD_Info \<times> mem" where
  "LoadGPTPartitions rd bsz units hdi block_buf =
    (if units = 0 then (False, hdi, block_buf)
     else
       (let last_lba = units - 1 in
        case ReadBlock rd 0 block_buf of
          (False, block_buf) \<Rightarrow> (False, hdi, block_buf)
        | (True, block_buf) \<Rightarrow>
            if \<not> IsProtectiveMbr block_buf (block_size_of bsz) then (False, hdi, block_buf)
            else
              (case TryGpt rd bsz hdi block_buf 1 last_lba last_lba GPT of
                 (True, hdi, block_buf) \<Rightarrow> (True, hdi, block_buf)
               | (False, hdi, block_buf) \<Rightarrow>
                   TryGpt rd bsz hdi block_buf last_lba 1 last_lba GPT_Backup)))"

section \<open>The table of the master boot record\<close>

text \<open>The sector number of the extended partition is an \<open>int\<close>: it is kept modulo \<open>2 ^ 32\<close>, and its
  conversion to the block number of the read extends the sign.\<close>

definition sext :: "nat \<Rightarrow> nat" where
  "sext s = (if s < 2 ^ 31 then s else 2 ^ 64 - 2 ^ 32 + s)"

definition read_sector :: "disk \<Rightarrow> nat \<Rightarrow> mem \<Rightarrow> mem" where
  "read_sector rd lba psector = (case rd lba of None \<Rightarrow> psector | Some blk \<Rightarrow> patch psector 0 blk)"

fun logical_loop :: "nat \<Rightarrow> disk \<Rightarrow> nat \<Rightarrow> nat \<Rightarrow> HD_Info \<Rightarrow> mem \<Rightarrow> HD_Info \<times> mem" where
  "logical_loop 0 rd ext_start_sect s hdi psector = (hdi, psector)"
| "logical_loop (Suc n) rd ext_start_sect s hdi psector =
    (let psector = read_sector rd (sext s) psector;
         tbl = part_tbl psector;
         logi = \<lparr>slice_address = (s + lba_start (tbl ! 0)) mod 2 ^ 32,
                 slice_length = lba_count (tbl ! 0), sys_id = fs_type (tbl ! 0)\<rparr>;
         hdi = (if sys_id logi \<noteq> FsNone \<and> slice_length logi \<noteq> 0 then snd (AppendPart hdi logi) else hdi);
         s = (ext_start_sect + lba_start (tbl ! 1)) mod 2 ^ 32 in
     if fs_type (tbl ! 1) = FsNone then (hdi, psector)
     else logical_loop n rd ext_start_sect s hdi psector)"

definition Partition_logical :: "disk \<Rightarrow> nat \<Rightarrow> HD_Info \<Rightarrow> mem \<Rightarrow> HD_Info \<times> mem" where
  "Partition_logical rd start hdi psector =
    logical_loop 16 rd (start mod 2 ^ 32) (start mod 2 ^ 32) hdi psector"

fun primary_loop :: "disk \<Rightarrow> PartitionTableX86 list \<Rightarrow> HD_Info \<Rightarrow> mem \<Rightarrow> HD_Info \<times> mem" where
  "primary_loop rd [] hdi psector = (hdi, psector)"
| "primary_loop rd (e # es) hdi psector =
    (if fs_type e = FsNone then primary_loop rd es hdi psector
     else
       (let prim = \<lparr>slice_address = lba_start e, slice_length = lba_count e, sys_id = fs_type e\<rparr>;
            hdi = (if fs_type e \<noteq> EXT then snd (AppendPart hdi prim) else hdi);
            (hdi, psector) = (if fs_type e = EXT then Partition_logical rd (slice_address prim) hdi psector
                              else (hdi, psector)) in
        primary_loop rd es hdi psector))"

definition Partition :: "disk \<Rightarrow> nat \<Rightarrow> nat \<Rightarrow> HD_Info \<Rightarrow> mem \<Rightarrow> HD_Info \<times> mem" where
  "Partition rd bsz units hdi psector =
    (case LoadGPTPartitions rd bsz units hdi psector of
       (True, hdi, psector) \<Rightarrow> (hdi, psector)
     | (False, hdi, psector) \<Rightarrow>
         (let hdi = ResetUnifiedParts (hdi\<lparr>scheme_kind := MBR\<rparr>);
              psector = read_sector rd 0 psector in
          primary_loop rd (part_tbl psector) hdi psector))"


section \<open>What an accepted table contains\<close>

definition hd_ok :: "HD_Info \<Rightarrow> bool" where
  "hd_ok hdi \<longleftrightarrow> length (parts hdi) = MAX_PARTITIONS \<and> length (gpt_meta hdi) = MAX_PARTITIONS \<and>
    part_count hdi \<le> MAX_PARTITIONS"

lemma hd_ok_Reset [simp]: "hd_ok (ResetUnifiedParts hdi)"
  by (simp add: hd_ok_def ResetUnifiedParts_def)

lemma hd_ok_Append: "hd_ok hdi \<Longrightarrow> hd_ok (snd (AppendPart hdi sl))"
  by (simp add: hd_ok_def AppendPart_def)

lemma hd_ok_record: "hd_ok hdi \<Longrightarrow> hd_ok (record_entry hdi ent n sys)"
  by (simp add: hd_ok_def AppendPart_def record_entry_def Let_def)

text \<open>The recorded partitions lie in a range of blocks and do not share a block.\<close>

definition slice_last :: "PartitionSlice \<Rightarrow> nat" where
  "slice_last sl = slice_address sl + slice_length sl - 1"

definition apart :: "nat \<Rightarrow> nat \<Rightarrow> HD_Info \<Rightarrow> bool" where
  "apart lo hi hdi \<longleftrightarrow> hd_ok hdi \<and>
    (\<forall>j < part_count hdi. lo \<le> slice_address (parts hdi ! j) \<and> 0 < slice_length (parts hdi ! j) \<and>
      slice_last (parts hdi ! j) \<le> hi \<and> slice_address (parts hdi ! j) \<le> max_stduint) \<and>
    (\<forall>i j. i < j \<and> j < part_count hdi \<longrightarrow>
      slice_last (parts hdi ! i) < slice_address (parts hdi ! j) \<or>
      slice_last (parts hdi ! j) < slice_address (parts hdi ! i))"

lemma apart_Reset [simp]: "apart lo hi (ResetUnifiedParts hdi)"
  by (simp add: apart_def) (simp add: ResetUnifiedParts_def)

lemma u64_dec: "0 < n \<Longrightarrow> n \<le> 2 ^ 64 \<Longrightarrow> u64 (n + (2 ^ 64 - 1)) = n - 1"
  by (cases n) (auto simp: u64_def)

lemma apart_record:
  assumes "apart lo hi hdi" "hi < 2 ^ 64" "lo \<le> first_lba ent" "first_lba ent \<le> last_lba ent"
    "last_lba ent \<le> hi" "first_lba ent \<le> max_stduint" "\<not> overlaps_previous hdi ent"
    "n = last_lba ent - first_lba ent + 1"
  shows "apart lo hi (record_entry hdi ent n sys)"
proof (cases "part_count hdi < MAX_PARTITIONS")
  case False
  then have "record_entry hdi ent n sys = hdi\<lparr>part_overflow := (part_overflow hdi + 1) mod 2 ^ 32\<rparr>"
    by (simp add: record_entry_def AppendPart_def)
  then show ?thesis using assms(1) by (simp add: apart_def hd_ok_def)
next
  case True
  let ?sl = "\<lparr>slice_address = first_lba ent, slice_length = n, sys_id = sys\<rparr>" and ?c = "part_count hdi"
  have r: "parts (record_entry hdi ent n sys) = (parts hdi)[?c := ?sl]"
    "part_count (record_entry hdi ent n sys) = Suc ?c"
    using True by (simp_all add: record_entry_def AppendPart_def Let_def)
  have len: "?c < length (parts hdi)" using True assms(1) by (simp add: apart_def hd_ok_def)
  have last: "slice_last ?sl = last_lba ent" using assms(4,8) by (simp add: slice_last_def)
  have free: "last_lba ent < slice_address (parts hdi ! j) \<or> slice_last (parts hdi ! j) < first_lba ent"
    if "j < ?c" for j
  proof -
    have "0 < slice_length (parts hdi ! j)" "slice_last (parts hdi ! j) < 2 ^ 64"
      using assms(1,2) that by (auto simp: apart_def dest: le_less_trans)
    then have "u64 (slice_address (parts hdi ! j) + slice_length (parts hdi ! j) + (2 ^ 64 - 1)) =
        slice_last (parts hdi ! j)"
      by (subst u64_dec) (auto simp: slice_last_def)
    then show ?thesis using assms(7) that by (auto simp: overlaps_previous_def Let_def)
  qed
  have at: "(parts hdi)[?c := ?sl] ! j = (if j = ?c then ?sl else parts hdi ! j)" if "j < Suc ?c" for j
    using len that by simp
  show ?thesis
    unfolding apart_def r
  proof (intro conjI allI impI)
    show "hd_ok (record_entry hdi ent n sys)" using assms(1) by (simp add: apart_def hd_ok_record)
  next
    fix j assume j: "j < Suc ?c"
    show "lo \<le> slice_address ((parts hdi)[?c := ?sl] ! j)"
      "0 < slice_length ((parts hdi)[?c := ?sl] ! j)"
      "slice_last ((parts hdi)[?c := ?sl] ! j) \<le> hi"
      "slice_address ((parts hdi)[?c := ?sl] ! j) \<le> max_stduint"
      using at [OF j] j assms last by (auto simp: apart_def)
  next
    fix i j assume ij: "i < j \<and> j < Suc ?c"
    then show "slice_last ((parts hdi)[?c := ?sl] ! i) < slice_address ((parts hdi)[?c := ?sl] ! j) \<or>
      slice_last ((parts hdi)[?c := ?sl] ! j) < slice_address ((parts hdi)[?c := ?sl] ! i)"
      using at [of i] at [of j] assms(1) free [of i] last by (cases "j = ?c") (auto simp: apart_def)
  qed
qed

lemma load_entries_apart:
  "load_entries rd hdr ents hdi buf = (True, hdi', buf') \<Longrightarrow> apart (first_usable_lba hdr) (last_usable_lba hdr) hdi \<Longrightarrow>
   last_usable_lba hdr < 2 ^ 64 - 1 \<Longrightarrow> apart (first_usable_lba hdr) (last_usable_lba hdr) hdi'"
proof (induction rd hdr ents hdi buf rule: load_entries.induct)
  case (2 rd hdr ent ents hdi buf)
  show ?case
  proof (cases "IsZeroGuid (type_guid ent)")
    case True
    then show ?thesis using 2 by simp
  next
    case False
    define n where "n = u64 (last_lba ent - first_lba ent + 1)"
    obtain sys buf1 where p: "probe_type rd ent buf = (sys, buf1)" by fastforce
    have acc: "first_lba ent \<le> last_lba ent" "first_usable_lba hdr \<le> first_lba ent"
      "last_lba ent \<le> last_usable_lba hdr" "first_lba ent \<le> max_stduint" "n \<le> max_stduint"
      "\<not> overlaps_previous hdi ent"
      using "2.prems"(1) False by (auto simp: Let_def n_def split: if_splits)
    have rest: "load_entries rd hdr ents (record_entry hdi ent n sys) buf1 = (True, hdi', buf')"
      using "2.prems"(1) False acc p by (auto simp: Let_def n_def)
    have "n = last_lba ent - first_lba ent + 1"
      using acc(1,3) "2.prems"(3) by (simp add: n_def u64_def)
    then have "apart (first_usable_lba hdr) (last_usable_lba hdr) (record_entry hdi ent n sys)"
      using acc "2.prems"(2,3) by (intro apart_record) auto
    then show ?thesis
      using "2.IH"(2) [OF False _ _ n_def _ _ p [symmetric]] acc rest "2.prems"(3) by (auto simp: n_def)
  qed
qed simp


lemma TryGpt_accepted:
  assumes "TryGpt rd bsz hdi buf lba alt lst kind = (True, hdi', buf')" "lst < 2 ^ 64 - 1"
  shows "apart 2 lst hdi' \<and> (\<exists>blk. rd lba = Some blk) \<and> lba \<le> max_stduint"
proof -
  obtain hdr buf1 where h: "ReadGptHeader rd lba buf = (Some hdr, buf1)"
    and v: "ValidateGptHeader hdr lba alt lst (block_size_of bsz) buf1"
    and l: "LoadGpt rd bsz hdi buf1 hdr kind = (True, hdi', buf')"
    using assms(1) by (auto simp: TryGpt_def split: prod.splits option.splits if_splits)
  from v have u: "2 \<le> first_usable_lba hdr" "last_usable_lba hdr \<le> lst"
    by (auto simp: ValidateGptHeader_def Let_def split: if_splits)
  from l obtain ents buf2 where
    "load_entries rd hdr ents (ResetUnifiedParts (hdi\<lparr>scheme_kind := kind\<rparr>)) buf2 = (True, hdi', buf')"
    by (auto simp: LoadGpt_def Let_def split: if_splits prod.splits option.splits)
  then have "apart (first_usable_lba hdr) (last_usable_lba hdr) hdi'"
    by (rule load_entries_apart) (use u assms(2) in auto)
  then have "apart 2 lst hdi'" using u by (auto simp: apart_def intro: order_trans)
  moreover have "(\<exists>blk. rd lba = Some blk) \<and> lba \<le> max_stduint"
    using h by (auto simp: ReadGptHeader_def ReadBlock_def split: if_splits option.splits)
  ultimately show ?thesis by blast
qed

lemma LoadGPTPartitions_cases:
  assumes "LoadGPTPartitions rd bsz units hdi buf = (True, hdi', buf')"
  obtains hdi1 buf1 lba alt kind where "units \<noteq> 0"
    "TryGpt rd bsz hdi1 buf1 lba alt (units - 1) kind = (True, hdi', buf')"
    "lba = 1 \<and> alt = units - 1 \<and> kind = GPT \<or> lba = units - 1 \<and> kind = GPT_Backup"
  using assms by (auto simp: LoadGPTPartitions_def Let_def split: if_splits prod.splits bool.splits)

section \<open>The checksum\<close>

lemma xor_cancel: "(a XOR c) = (b XOR c) \<longleftrightarrow> a = b" for a b c :: "'a::len word"
  by (metis xor.assoc xor_self_eq xor.right_neutral)

lemma ucast_inj: "(ucast x :: uint32) = ucast y \<longleftrightarrow> x = y" for x y :: "byte"
proof
  assume "(ucast x :: uint32) = ucast y"
  then have eq: "bit (ucast x :: uint32) n = bit (ucast y :: uint32) n" for n by simp
  have "bit x n = bit y n" if "n < 8" for n using eq [of n] that by (simp add: bit_unsigned_iff)
  then show "x = y" by (intro bit_word_eqI) simp
qed simp

lemma top31: "bit ((drop_bit 1 c) XOR (0xEDB88320 AND m)) 31 \<longleftrightarrow> bit m 31" for c m :: "uint32"
  using bit_imp_le_length [of c 32] by (auto simp: bit_xor_iff bit_drop_bit_eq bit_and_iff)

lemma bit_mask_low: "bit (- (c AND 1) :: uint32) n \<longleftrightarrow> n < 32 \<and> bit c 0"
proof -
  have "c AND 1 = (if bit c 0 then 1 else 0)" by (simp add: and_one_eq odd_iff_mod_2_eq_one bit_0)
  then show ?thesis by auto
qed

text \<open>One step of the checksum can be undone: the top bit of the result is the bit that was shifted
  out, because the polynomial has its top bit set.\<close>

lemma inj_crc_bit: "inj crc_bit"
proof (rule injI)
  fix a b :: uint32 assume eq: "crc_bit a = crc_bit b"
  have top: "bit (crc_bit c) 31 = bit c 0" for c
    unfolding crc_bit_def Let_def top31 by (simp add: bit_mask_low)
  from eq have low: "bit a 0 = bit b 0" using top by metis
  have "(- (a AND 1) :: uint32) = - (b AND 1)" by (rule bit_eqI) (simp add: bit_mask_low low)
  with eq have "drop_bit 1 a = drop_bit 1 b" by (simp add: crc_bit_def Let_def xor_cancel)
  then have up: "bit a (Suc n) = bit b (Suc n)" for n by (metis bit_drop_bit_eq comp_apply plus_1_eq_Suc)
  show "a = b"
  proof (rule bit_eqI)
    fix n show "bit a n = bit b n" using low up by (cases n) auto
  qed
qed

lemma crc_bits_eq: "(crc_bit ^^ n) a = (crc_bit ^^ n) b \<longleftrightarrow> a = b"
  by (induction n arbitrary: a b) (auto simp: inj_eq [OF inj_crc_bit])

lemma crc_byte_eq [simp]:
  "crc_byte a b = crc_byte c b \<longleftrightarrow> a = c" "crc_byte a x = crc_byte a y \<longleftrightarrow> x = y"
proof -
  show "crc_byte a b = crc_byte c b \<longleftrightarrow> a = c"
    by (simp add: crc_byte_def crc_bits_eq xor_cancel)
  show "crc_byte a x = crc_byte a y \<longleftrightarrow> x = y"
    by (simp add: crc_byte_def crc_bits_eq xor.commute [of a] xor_cancel ucast_inj)
qed

lemma foldl_crc_eq: "foldl crc_byte a bs = foldl crc_byte b bs \<longleftrightarrow> a = b"
  by (induction bs arbitrary: a b) auto

lemma Crc32_differ: "Crc32 (xs @ a # ys) = Crc32 (xs @ b # ys) \<longleftrightarrow> a = b"
  by (simp add: Crc32_def foldl_crc_eq)

lemma Crc32_update:
  assumes "i < length data" "v \<noteq> data ! i"
  shows "Crc32 (data[i := v]) \<noteq> Crc32 data"
  using Crc32_differ [of "take i data" v "drop (Suc i) data" "data ! i"] assms
  by (simp add: upd_conv_take_nth_drop flip: id_take_nth_drop)

section \<open>Corrupted headers\<close>

lemma le_nat_inj: "length xs = length ys \<Longrightarrow> le_nat xs = le_nat ys \<longleftrightarrow> xs = ys"
proof (induction xs ys rule: list_induct2)
  case (Cons x xs y ys)
  have b: "unat x < 256" "unat y < 256" using unsigned_less [of x] unsigned_less [of y] by simp_all
  have "unat x = unat y \<and> le_nat xs = le_nat ys"
    if eq: "unat x + 256 * le_nat xs = unat y + 256 * le_nat ys"
  proof -
    have "(unat x + 256 * le_nat xs) mod 256 = (unat y + 256 * le_nat ys) mod 256" using eq by simp
    then have "unat x = unat y" using b by simp
    then show ?thesis using eq by simp
  qed
  with Cons show ?case by (auto intro: unsigned_word_eqI)
qed simp

lemma field_update_other:
  "p < off \<or> off + n \<le> p \<Longrightarrow> field (m[p := v]) off n = field m off n"
  by (cases "off \<le> p") (auto simp: field_def drop_update_swap)

lemma field_update_same:
  assumes "off \<le> p" "p < off + n" "p < length m" "v \<noteq> m ! p"
  shows "field (m[p := v]) off n \<noteq> field m off n"
proof -
  have "take n (drop off (m[p := v])) ! (p - off) \<noteq> take n (drop off m) ! (p - off)"
    using assms by simp
  then show ?thesis by (auto simp: field_def le_nat_inj)
qed

lemma patch_update_inside:
  assumes "i \<le> p" "p < i + length ys" "i + length ys \<le> length xs"
  shows "patch (xs[p := v]) i ys = patch xs i ys"
  using assms by (intro nth_equalityI) (auto simp: nth_patch nth_list_update)

lemma patch_update_outside:
  assumes "p < i \<or> i + length ys \<le> p" "i + length ys \<le> length xs"
  shows "patch (xs[p := v]) i ys = (patch xs i ys)[p := v]"
  using assms
proof (intro nth_equalityI, goal_cases)
  case (2 k)
  then show ?case by (cases "k = p") (auto simp: nth_patch)
qed simp

lemma Validate_crc:
  "ValidateGptHeader hdr lba alt lst bs blk \<Longrightarrow>
    92 \<le> header_size hdr \<and> header_size hdr \<le> bs \<and>
    Crc32 (patch (take (header_size hdr) blk) 16 [0, 0, 0, 0]) = header_crc32 hdr"
  by (auto simp: ValidateGptHeader_def Let_def split: if_splits)

lemma of_nat_field_eq: "(of_nat (field m off 4) :: uint32) = of_nat (field m' off' 4) \<longleftrightarrow> field m off 4 = field m' off' 4"
proof -
  have "unat (of_nat (field m off 4) :: uint32) = field m off 4" for m off
    using field_less [of m off 4] by (simp add: unsigned_of_nat take_bit_nat_eq_self)
  then show ?thesis by metis
qed

text \<open>C14. A GUID partition table header in which one byte was altered is rejected, wherever the
  byte is, the length field of the header apart: either the checksum no longer matches the header
  or the header no longer holds its checksum.\<close>

theorem gpt_header_corruption_detected:
  assumes "ValidateGptHeader (header_of blk) lba alt lst bs blk" "bs \<le> length blk"
    "p < header_size (header_of blk)" "p \<notin> {12..<16}" "v \<noteq> blk ! p"
  shows "\<not> ValidateGptHeader (header_of (blk[p := v])) lba alt lst bs (blk[p := v])"
proof
  let ?b = "blk[p := v]" and ?n = "header_size (header_of blk)"
  assume "ValidateGptHeader (header_of ?b) lba alt lst bs ?b"
  note new = Validate_crc [OF this] and old = Validate_crc [OF assms(1)]
  have n: "header_size (header_of ?b) = ?n"
    using assms(4) by (auto simp: header_of_def intro!: field_update_other)
  have len: "?n \<le> length blk" "92 \<le> ?n" "p < length blk" using old assms(2,3) by auto
  have t: "take ?n ?b = (take ?n blk)[p := v]" by (rule take_update_swap)
  show False
  proof (cases "16 \<le> p \<and> p < 20")
    case True
    then have "patch (take ?n ?b) 16 [0, 0, 0, 0] = patch (take ?n blk) 16 [0, 0, 0, 0]"
      unfolding t using len by (intro patch_update_inside) auto
    then have "header_crc32 (header_of ?b) = header_crc32 (header_of blk)" using new old n by simp
    then show False
      using field_update_same [of 16 p 4 blk v] True len(3) assms(5)
      by (simp add: header_of_def of_nat_field_eq)
  next
    case False
    then have "patch (take ?n ?b) 16 [0, 0, 0, 0] = (patch (take ?n blk) 16 [0, 0, 0, 0])[p := v]"
      unfolding t using len by (intro patch_update_outside) auto
    moreover have "header_crc32 (header_of ?b) = header_crc32 (header_of blk)"
      using False by (auto simp: header_of_def field_update_other)
    moreover have "patch (take ?n blk) 16 [0, 0, 0, 0] ! p = blk ! p"
      using False len assms(3) by (subst nth_patch) auto
    ultimately show False
      using Crc32_update [of p "patch (take ?n blk) 16 [0, 0, 0, 0]" v] new old n len assms(3,5) by simp
  qed
qed


text \<open>C15. The partitions of an accepted GUID partition table, primary or backup, lie between block 2
  and the last block of the disk, have at least one block, and no two of them share a block.\<close>

theorem gpt_partitions_disjoint:
  assumes "LoadGPTPartitions rd bsz units hdi buf = (True, hdi', buf')" "units < 2 ^ 64"
  shows "(\<forall>j < part_count hdi'. 2 \<le> slice_address (parts hdi' ! j) \<and> 0 < slice_length (parts hdi' ! j) \<and>
      slice_address (parts hdi' ! j) + slice_length (parts hdi' ! j) \<le> units) \<and>
    (\<forall>i j. i < j \<and> j < part_count hdi' \<longrightarrow>
      slice_address (parts hdi' ! i) + slice_length (parts hdi' ! i) \<le> slice_address (parts hdi' ! j) \<or>
      slice_address (parts hdi' ! j) + slice_length (parts hdi' ! j) \<le> slice_address (parts hdi' ! i))"
proof -
  obtain hdi1 buf1 lba alt kind where "units \<noteq> 0"
    "TryGpt rd bsz hdi1 buf1 lba alt (units - 1) kind = (True, hdi', buf')"
    using assms(1) by (rule LoadGPTPartitions_cases)
  then have ap: "apart 2 (units - 1) hdi'" using TryGpt_accepted assms(2) by (metis diff_less_mono Suc_leI One_nat_def neq0_conv)
  have bounds: "2 \<le> slice_address (parts hdi' ! j)" "0 < slice_length (parts hdi' ! j)"
    "slice_address (parts hdi' ! j) + slice_length (parts hdi' ! j) \<le> units" if "j < part_count hdi'" for j
    using ap that \<open>units \<noteq> 0\<close> by (auto simp: apart_def slice_last_def dest!: spec [of _ j])
  have "slice_address (parts hdi' ! i) + slice_length (parts hdi' ! i) \<le> slice_address (parts hdi' ! j) \<or>
      slice_address (parts hdi' ! j) + slice_length (parts hdi' ! j) \<le> slice_address (parts hdi' ! i)"
    if "i < j" "j < part_count hdi'" for i j
  proof -
    have "slice_last (parts hdi' ! i) < slice_address (parts hdi' ! j) \<or>
      slice_last (parts hdi' ! j) < slice_address (parts hdi' ! i)"
      using ap that by (simp add: apart_def)
    then show ?thesis using bounds [of i] bounds [of j] that by (auto simp: slice_last_def)
  qed
  with bounds show ?thesis by blast
qed

text \<open>Blocks are only ever read below block number \<open>2 ^ 32\<close>, although the fields of the table
  are 64 bits wide: on a larger disk the backup table, in the last block, is never used, and
  no partition that starts at or above that block is accepted.\<close>

lemma gpt_limited_to_32_bits:
  assumes "LoadGPTPartitions rd bsz units hdi buf = (True, hdi', buf')" "2 ^ 32 < units" "units < 2 ^ 64"
  shows "(\<exists>hdi1 buf1. TryGpt rd bsz hdi1 buf1 1 (units - 1) (units - 1) GPT = (True, hdi', buf')) \<and>
    (\<forall>j < part_count hdi'. slice_address (parts hdi' ! j) < 2 ^ 32)"
proof -
  obtain hdi1 buf1 lba alt kind where t: "units \<noteq> 0"
    "TryGpt rd bsz hdi1 buf1 lba alt (units - 1) kind = (True, hdi', buf')"
    "lba = 1 \<and> alt = units - 1 \<and> kind = GPT \<or> lba = units - 1 \<and> kind = GPT_Backup"
    using assms(1) by (rule LoadGPTPartitions_cases)
  have acc: "apart 2 (units - 1) hdi'" "lba \<le> max_stduint"
    using TryGpt_accepted [OF t(2)] assms(2,3) by auto
  have "lba = 1 \<and> alt = units - 1 \<and> kind = GPT"
    using t(3) acc(2) assms(2) by (auto simp: max_stduint_def)
  moreover have "\<forall>j < part_count hdi'. slice_address (parts hdi' ! j) < 2 ^ 32"
    using acc(1) by (auto simp: apart_def max_stduint_def dest!: spec)
  ultimately show ?thesis using t(2) by blast
qed

section \<open>Boot records\<close>

definition entry_slice :: "PartitionTableX86 \<Rightarrow> PartitionSlice" where
  "entry_slice e = \<lparr>slice_address = lba_start e, slice_length = lba_count e, sys_id = fs_type e\<rparr>"

lemma primary_loop_parts:
  assumes "\<forall>e \<in> set es. fs_type e \<noteq> EXT" "hd_ok hdi" "part_count hdi + length es \<le> MAX_PARTITIONS"
  defines "new \<equiv> map entry_slice (filter (\<lambda>e. fs_type e \<noteq> FsNone) es)"
  shows "\<exists>hdi'. primary_loop rd es hdi psector = (hdi', psector) \<and> hd_ok hdi' \<and>
    part_count hdi' = part_count hdi + length new \<and> scheme_kind hdi' = scheme_kind hdi \<and>
    whole_disk hdi' = whole_disk hdi \<and>
    take (part_count hdi') (parts hdi') = take (part_count hdi) (parts hdi) @ new"
  using assms(1-3) unfolding new_def
proof (induction es arbitrary: hdi)
  case (Cons e es)
  show ?case
  proof (cases "fs_type e = FsNone")
    case True
    then show ?thesis using Cons by simp
  next
    case False
    let ?hdi = "snd (AppendPart hdi (entry_slice e))"
    have room: "part_count hdi < MAX_PARTITIONS" using Cons.prems(3) by simp
    have h: "hd_ok ?hdi" "part_count ?hdi = Suc (part_count hdi)" "scheme_kind ?hdi = scheme_kind hdi"
      "whole_disk ?hdi = whole_disk hdi"
      "take (Suc (part_count hdi)) (parts ?hdi) = take (part_count hdi) (parts hdi) @ [entry_slice e]"
      using Cons.prems(2) room
      by (auto simp: hd_ok_Append) (auto simp: AppendPart_def hd_ok_def take_Suc_conv_app_nth)
    have "primary_loop rd (e # es) hdi psector = primary_loop rd es ?hdi psector"
      using False Cons.prems(1) by (simp add: entry_slice_def Let_def)
    then show ?thesis using Cons.IH [of ?hdi] Cons.prems h False by auto
  qed
qed simp

lemma part_tbl_patch: "512 \<le> length blk \<Longrightarrow> length blk \<le> length m \<Longrightarrow> part_tbl (patch m 0 blk) = part_tbl blk"
  by (simp add: part_tbl_def table_entry_def MBR_PARTITION_TABLE_OFFSET_def field_def patch_def nth_append)

text \<open>Without a GUID partition table and without an extended partition the disk has the
  partitions of the non-empty entries of its boot record, numbered from 1 in the order of the
  table; every other number has the empty slice.\<close>

lemma mbr_primary_partitions:
  assumes "LoadGPTPartitions rd bsz units hdi buf = (False, hdi1, buf1)"
    "rd 0 = Some blk" "512 \<le> length blk" "length blk \<le> length buf1"
    "\<forall>e \<in> set (part_tbl blk). fs_type e \<noteq> EXT"
  shows "\<exists>hdi' buf'. Partition rd bsz units hdi buf = (hdi', buf') \<and> scheme_kind hdi' = MBR \<and>
    (let found = filter (\<lambda>e. fs_type e \<noteq> FsNone) (part_tbl blk) in
     part_count hdi' = length found \<and>
     (\<forall>n. GetPartitionSlice hdi' (Suc n) =
       (if n < length found then entry_slice (found ! n) else zero_slice)))"
proof -
  let ?found = "filter (\<lambda>e. fs_type e \<noteq> FsNone) (part_tbl blk)"
  let ?h = "ResetUnifiedParts (hdi1\<lparr>scheme_kind := MBR\<rparr>)" and ?p = "patch buf1 0 blk"
  have "length (part_tbl blk) = 4" by (simp add: part_tbl_def)
  then obtain hdi' where h: "primary_loop rd (part_tbl blk) ?h ?p = (hdi', ?p)" "hd_ok hdi'"
    "part_count hdi' = length ?found" "scheme_kind hdi' = MBR"
    "take (part_count hdi') (parts hdi') = map entry_slice ?found"
    using primary_loop_parts [OF assms(5), of ?h rd ?p]
    by (auto simp: ResetUnifiedParts_def MAX_PARTITIONS_def hd_ok_def)
  have "Partition rd bsz units hdi buf = (hdi', ?p)"
    using assms(1-4) h(1) by (simp add: Partition_def read_sector_def part_tbl_patch)
  moreover have "parts hdi' ! n = entry_slice (?found ! n)" if "n < length ?found" for n
    using that h(3,5) by (metis length_map nth_map nth_take)
  ultimately show ?thesis using h(3,4) by (auto simp: GetPartitionSlice_def Let_def)
qed


section \<open>A sample disk\<close>

text \<open>A disk of \<open>2 ^ 32 + 40\<close> blocks of 512 bytes with a protective boot record, a header in block 1
  and one Linux partition from block 3 to block 10 in block 2.  The two checksums are the ones
  the source computes.\<close>

fun le_bytes :: "nat \<Rightarrow> nat \<Rightarrow> byte list" where
  "le_bytes 0 v = []"
| "le_bytes (Suc n) v = of_nat v # le_bytes n (v div 256)"

lemma length_le_bytes [simp]: "length (le_bytes n v) = n"
  by (induction n arbitrary: v) auto

lemma le_nat_le_bytes: "le_nat (le_bytes n v) = v mod 256 ^ n"
proof (induction n arbitrary: v)
  case (Suc n)
  have "unat (of_nat v :: byte) = v mod 256" by (simp add: unsigned_of_nat take_bit_eq_mod)
  then show ?case using Suc by (simp add: mod_mult2_eq)
qed simp

lemma of_nat_crc_bytes: "(of_nat (le_nat (le_bytes 4 (unat (c :: uint32)))) :: uint32) = c"
proof -
  have "unat c < 256 ^ 4" using unsigned_less [of c] by simp
  then show ?thesis by (simp add: le_nat_le_bytes)
qed

definition sample_mbr :: mem where
  "sample_mbr = replicate 450 0 @ [0xEE] @ replicate 59 0 @ [0x55, 0xAA]"

definition sample_entry :: mem where
  "sample_entry = guid_linux_fs @ replicate 16 7 @ [3, 0, 0, 0, 0, 0, 0, 0, 10, 0, 0, 0, 0, 0, 0, 0] @ replicate 80 0"

definition sample_header :: "byte list \<Rightarrow> byte list \<Rightarrow> mem" where
  "sample_header entries_crc crc =
    [0x45, 0x46, 0x49, 0x20, 0x50, 0x41, 0x52, 0x54, 0, 0, 1, 0, 92, 0, 0, 0] @ crc @
    [0, 0, 0, 0, 1, 0, 0, 0, 0, 0, 0, 0, 39, 0, 0, 0, 1, 0, 0, 0,
     3, 0, 0, 0, 0, 0, 0, 0, 38, 0, 0, 0, 1, 0, 0, 0, 0, 0, 0, 0, 0, 0, 0, 0, 0, 0, 0, 0, 0, 0, 0, 0,
     2, 0, 0, 0, 0, 0, 0, 0, 1, 0, 0, 0, 128, 0, 0, 0] @ entries_crc"

definition sample_entries_crc :: "byte list" where
  "sample_entries_crc = le_bytes 4 (unat (Crc32 sample_entry))"

definition sample_header_crc :: "byte list" where
  "sample_header_crc = le_bytes 4 (unat (Crc32 (sample_header sample_entries_crc [0, 0, 0, 0])))"

definition sample_header_block :: mem where
  "sample_header_block = sample_header sample_entries_crc sample_header_crc @ replicate 420 0"

definition sample_disk :: disk where
  "sample_disk = [0 \<mapsto> sample_mbr, 1 \<mapsto> sample_header_block, 2 \<mapsto> sample_entry @ replicate 384 0]"

lemma len4_cases: assumes "length xs = 4" obtains a b c d where "xs = [a, b, c, d]"
  using assms by (auto simp: numeral_eq_Suc length_Suc_conv)

lemma sample_header_fields:
  assumes "length e = 4" "length c = 4"
  shows "header_of (sample_header e c @ rest) =
    \<lparr>signature = map (\<lambda>c. of_nat (of_char c)) ''EFI PART'', revision = 65536, header_size = 92,
     header_crc32 = of_nat (le_nat c), reserved = 0, my_lba = 1, alternate_lba = 2 ^ 32 + 39,
     first_usable_lba = 3, last_usable_lba = 2 ^ 32 + 38, disk_guid = [0, 0, 0, 0, 0, 0, 0, 0, 0, 0, 0, 0, 0, 0, 0, 0],
     partition_entry_lba = 2, number_of_partition_entries = 1, size_of_partition_entry = 128,
     partition_entry_array_crc32 = of_nat (le_nat e)\<rparr>"
proof -
  obtain e0 e1 e2 e3 c0 c1 c2 c3 where "e = [e0, e1, e2, e3]" "c = [c0, c1, c2, c3]"
    using assms len4_cases by metis
  then show ?thesis
    by (simp add: header_of_def sample_header_def field_def)
qed

lemma sample_header_patch:
  assumes "length e = 4" "length c = 4"
  shows "patch (take 92 (sample_header e c @ rest)) 16 [0, 0, 0, 0] = sample_header e [0, 0, 0, 0]"
proof -
  obtain e0 e1 e2 e3 c0 c1 c2 c3 where "e = [e0, e1, e2, e3]" "c = [c0, c1, c2, c3]"
    using assms len4_cases by metis
  then show ?thesis by (simp add: sample_header_def patch_def)
qed

lemma sample_header_valid:
  "ValidateGptHeader (header_of (sample_header_block @ rest)) 1 (2 ^ 32 + 39) (2 ^ 32 + 39) 512 (sample_header_block @ rest)"
proof -
  have len: "length sample_entries_crc = 4" "length sample_header_crc = 4"
    by (simp_all add: sample_entries_crc_def sample_header_crc_def)
  have hdr: "sample_header_block @ rest = sample_header sample_entries_crc sample_header_crc @ replicate 420 0 @ rest"
    by (simp add: sample_header_block_def)
  show ?thesis
    unfolding hdr ValidateGptHeader_def sample_header_fields [OF len] GptHeader.select_convs
      sample_header_patch [OF len]
    by (simp add: u64_def IsPow2_def sample_header_crc_def of_nat_crc_bytes)
qed


definition hd_blank :: HD_Info where
  "hd_blank = \<lparr>whole_disk = zero_slice, scheme_kind = SchemeUnknown, part_count = 0, part_overflow = 0,
    parts = replicate MAX_PARTITIONS zero_slice, gpt_meta = replicate MAX_PARTITIONS zero_meta\<rparr>"

lemma sample_lengths [simp]:
  "length sample_header_block = 512" "length sample_mbr = 512" "length sample_entry = 128"
  by (simp_all add: sample_header_block_def sample_header_def sample_entries_crc_def
      sample_header_crc_def sample_mbr_def sample_entry_def guid_linux_fs_def)

lemma sample_read:
  "length m = 512 \<Longrightarrow> ReadBlock sample_disk 0 m = (True, sample_mbr)"
  "length m = 512 \<Longrightarrow> ReadBlock sample_disk (Suc 0) m = (True, sample_header_block)"
  "length m = 512 \<Longrightarrow> ReadBlock sample_disk 2 m = (True, sample_entry @ replicate 384 0)"
  by (simp_all add: ReadBlock_def sample_disk_def max_stduint_def patch_def)

lemma upt_4: "[0..<4] = [0, 1, 2, 3 :: nat]"
  by code_simp

lemma sample_protective: "IsProtectiveMbr sample_mbr 512"
proof -
  have b: "sample_mbr ! 510 = 0x55" "sample_mbr ! 511 = 0xAA" "sample_mbr ! 450 = 0xEE"
    by (simp_all add: sample_mbr_def nth_append)
  have "fs_type (table_entry sample_mbr 446) = GPT_PROTECTIVE"
    unfolding table_entry_def PartitionTableX86.select_convs by (simp add: b fs_of_byte_def)
  then show ?thesis
    by (simp add: IsProtectiveMbr_def part_tbl_def upt_4 MBR_PARTITION_TABLE_OFFSET_def b)
qed

definition sample_slice :: PartitionSlice where
  "sample_slice = \<lparr>slice_address = 3, slice_length = 8, sys_id = LINUX_NATIVE\<rparr>"

lemma sample_entry_fields:
  "type_guid (entry_of sample_entry) = guid_linux_fs"
  "first_lba (entry_of sample_entry) = 3" "last_lba (entry_of sample_entry) = 10"
  by (simp_all add: entry_of_def sample_entry_def guid_linux_fs_def field_def)

lemma sample_types: "\<not> IsZeroGuid guid_linux_fs" "MapGptTypeToSysId guid_linux_fs = LINUX_NATIVE"
  by (simp_all add: IsZeroGuid_def MapGptTypeToSysId_def GuidEq_def guid_linux_fs_def guid_esp_def
      guid_basic_data_def)

lemma sample_load:
  assumes "length m = 512"
  shows "\<exists>hdi' m'. LoadGPTPartitions sample_disk 512 (2 ^ 32 + 40) hdi m = (True, hdi', m') \<and>
    part_count hdi' = 1 \<and> parts hdi' ! 0 = sample_slice"
proof -
  let ?hdr = "header_of sample_header_block"
  have len: "length sample_entries_crc = 4" "length sample_header_crc = 4"
    by (simp_all add: sample_entries_crc_def sample_header_crc_def)
  have hdr: "?hdr = header_of (sample_header sample_entries_crc sample_header_crc @ replicate 420 0)"
    by (simp add: sample_header_block_def)
  note fields = hdr [unfolded sample_header_fields [OF len]]
  have valid: "ValidateGptHeader ?hdr 1 (2 ^ 32 + 39) (2 ^ 32 + 39) 512 sample_header_block"
    using sample_header_valid [of "[]"] by simp
  have entries: "read_entries sample_disk 2 512 128 [0] (replicate 128 0) sample_header_block =
      (Some sample_entry, sample_entry @ replicate 384 0)"
    by (simp add: sample_read patch_def)
  have e: "entry_at ?hdr sample_entry 0 = entry_of sample_entry" by (simp add: entry_at_def)
  have "\<exists>hdi' m'. LoadGpt sample_disk 512 hdi sample_header_block ?hdr GPT = (True, hdi', m') \<and>
      part_count hdi' = 1 \<and> parts hdi' ! 0 = sample_slice"
    by (simp add: LoadGpt_def Let_def fields block_size_of_def u64_def max_stduint_def entries
        sample_entries_crc_def of_nat_crc_bytes entry_at_def sample_entry_fields sample_types
        overlaps_previous_def probe_type_def record_entry_def AppendPart_def ResetUnifiedParts_def
        MAX_PARTITIONS_def sample_slice_def del: read_entries.simps)
  then show ?thesis
    using assms valid
    by (auto simp: LoadGPTPartitions_def TryGpt_def ReadGptHeader_def sample_read sample_protective block_size_of_def)
qed


theorem gpt_partitions_disjoint_witness:
  "\<exists>hdi' m'. LoadGPTPartitions sample_disk 512 (2 ^ 32 + 40) hd_blank (replicate 512 0) = (True, hdi', m') \<and>
    part_count hdi' = 1 \<and> slice_address (parts hdi' ! 0) + slice_length (parts hdi' ! 0) \<le> 2 ^ 32 + 40"
proof -
  obtain hdi' m' where l: "LoadGPTPartitions sample_disk 512 (2 ^ 32 + 40) hd_blank (replicate 512 0) = (True, hdi', m')"
    "part_count hdi' = 1"
    using sample_load [of "replicate 512 0" hd_blank] by auto
  with gpt_partitions_disjoint [OF l(1)] show ?thesis by auto
qed

lemma gpt_limited_to_32_bits_example:
  "\<exists>hdi' m'. LoadGPTPartitions sample_disk 512 (2 ^ 32 + 40) hd_blank (replicate 512 0) = (True, hdi', m') \<and>
    part_count hdi' = 1 \<and> slice_address (parts hdi' ! 0) < 2 ^ 32"
proof -
  obtain hdi' m' where l: "LoadGPTPartitions sample_disk 512 (2 ^ 32 + 40) hd_blank (replicate 512 0) = (True, hdi', m')"
    "part_count hdi' = 1"
    using sample_load [of "replicate 512 0" hd_blank] by auto
  with gpt_limited_to_32_bits [OF l(1)] show ?thesis by auto
qed

theorem gpt_header_corruption_detected_witness:
  "ValidateGptHeader (header_of sample_header_block) 1 (2 ^ 32 + 39) (2 ^ 32 + 39) 512 sample_header_block \<and>
   \<not> ValidateGptHeader (header_of (sample_header_block[40 := 2])) 1 (2 ^ 32 + 39) (2 ^ 32 + 39) 512
      (sample_header_block[40 := 2])"
proof -
  have len: "length sample_entries_crc = 4" "length sample_header_crc = 4"
    by (simp_all add: sample_entries_crc_def sample_header_crc_def)
  have size: "header_size (header_of sample_header_block) = 92"
    unfolding sample_header_block_def by (simp add: sample_header_fields [OF len])
  have "sample_header_block ! 40 = 3"
    by (simp add: sample_header_block_def sample_header_def nth_append len)
  then show ?thesis
    using sample_header_valid [of "[]"] size
      gpt_header_corruption_detected [of sample_header_block 1 "2 ^ 32 + 39" "2 ^ 32 + 39" 512 40 2]
    by simp
qed

text \<open>A disk with a plain boot record: one FAT32 partition in the second entry.\<close>

definition plain_mbr :: mem where
  "plain_mbr = replicate 466 0 @ [0x0C, 0, 0, 0, 5, 0, 0, 0, 7, 0, 0, 0] @ replicate 34 0"

definition plain_disk :: disk where
  "plain_disk = [0 \<mapsto> plain_mbr]"

lemma plain_table:
  "\<exists>a b c d. part_tbl plain_mbr = [a, b, c, d] \<and> fs_type a = FsNone \<and> fs_type c = FsNone \<and>
    fs_type d = FsNone \<and> entry_slice b = \<lparr>slice_address = 5, slice_length = 7, sys_id = FAT32_LBA\<rparr>"
  by (simp add: part_tbl_def upt_4 plain_mbr_def table_entry_def MBR_PARTITION_TABLE_OFFSET_def
      nth_append fs_of_byte_def entry_slice_def field_def)

lemma plain_not_gpt:
  "LoadGPTPartitions plain_disk 512 100 hd_blank (replicate 512 0) = (False, hd_blank, plain_mbr)"
proof -
  have "length plain_mbr = 512" "plain_mbr ! 510 = 0" by (simp_all add: plain_mbr_def nth_append)
  then show ?thesis
    by (simp add: LoadGPTPartitions_def ReadBlock_def plain_disk_def max_stduint_def patch_def
        IsProtectiveMbr_def block_size_of_def)
qed

lemma mbr_primary_partitions_example:
  "\<exists>hdi' buf'. Partition plain_disk 512 100 hd_blank (replicate 512 0) = (hdi', buf') \<and>
    scheme_kind hdi' = MBR \<and> part_count hdi' = 1 \<and>
    GetPartitionSlice hdi' 1 = \<lparr>slice_address = 5, slice_length = 7, sys_id = FAT32_LBA\<rparr> \<and>
    GetPartitionSlice hdi' 2 = zero_slice"
proof -
  obtain a b c d where t: "part_tbl plain_mbr = [a, b, c, d]" "fs_type a = FsNone" "fs_type c = FsNone"
    "fs_type d = FsNone" "entry_slice b = \<lparr>slice_address = 5, slice_length = 7, sys_id = FAT32_LBA\<rparr>"
    using plain_table by blast
  moreover from t(5) have "fs_type b = FAT32_LBA" by (simp add: entry_slice_def)
  moreover have "length plain_mbr = 512" "plain_disk 0 = Some plain_mbr"
    by (simp_all add: plain_mbr_def plain_disk_def)
  ultimately obtain hdi' buf' where "Partition plain_disk 512 100 hd_blank (replicate 512 0) = (hdi', buf')"
    "scheme_kind hdi' = MBR" "part_count hdi' = 1"
    "\<forall>n. GetPartitionSlice hdi' (Suc n) = (if n < 1 then entry_slice b else zero_slice)"
    using mbr_primary_partitions [OF plain_not_gpt, of plain_mbr] by (auto simp: Let_def)
  then show ?thesis using t(5) spec [of _ 0] spec [of _ 1] by (fastforce simp: numeral_2_eq_2)
qed

end
