(* ===== verification/Request.thy ===== *)
theory Request
  imports Prelude
begin

text \<open>
  The asynchronous storage requests of \<open>src/inc/cpp/trait/StorageTrait.hpp\<close> and
  \<open>src/lib/cpp/Device/Storage.cpp\<close>.  Requests are shared between their issuer and a queue, so
  they live in a store from handles to requests; a queue is the vector of handles it holds, and
  the owner of a request is the queue it was published in.  The notifications of the completion
  callback are kept as a log.  Times are 32-bit counters that wrap around.

  The operations are functions on the whole state; the host interleaves them, which is the step
  relation \<open>host_step\<close>, and the invariant is proved for every state it reaches.
\<close>

section \<open>Requests\<close>

datatype StorageRequestState = Created | Queued | Active | Completed
datatype StorageRequestStatus = Success | Failed | TimedOut

record StorageRequestResult =
  status :: StorageRequestStatus
  transferred :: nat

type_synonym handle = nat
type_synonym queue_id = nat

record StorageRequest =
  state :: StorageRequestState
  completion :: StorageRequestResult
  owner :: "queue_id option"
  started :: uint32
  timeout_ms :: uint32
  origin :: nat
  pinned :: bool
  completion_context :: nat
  completed :: bool

definition StorageRequest_new :: StorageRequest where
  "StorageRequest_new = \<lparr>state = Created, completion = \<lparr>status = Failed, transferred = 0\<rparr>, owner = None,
    started = 0, timeout_ms = 0, origin = 0, pinned = False, completion_context = 0, completed = False\<rparr>"

definition IsDone :: "StorageRequest \<Rightarrow> bool" where
  "IsDone r \<longleftrightarrow> state r = Completed"

definition IsQueued :: "StorageRequest \<Rightarrow> bool" where
  "IsQueued r \<longleftrightarrow> state r = Queued"

definition IsActive :: "StorageRequest \<Rightarrow> bool" where
  "IsActive r \<longleftrightarrow> state r = Active"

lemmas request_states = IsDone_def IsQueued_def IsActive_def

definition StorageRequest_HasExpired :: "StorageRequest \<Rightarrow> uint32 \<Rightarrow> bool" where
  "StorageRequest_HasExpired r now \<longleftrightarrow> (IsQueued r \<or> IsActive r) \<and> now - started r \<ge> timeout_ms r"

definition Remaining :: "StorageRequest \<Rightarrow> uint32 \<Rightarrow> uint32" where
  "Remaining r now =
    (if \<not> IsQueued r \<and> \<not> IsActive r then 0xFFFFFFFF
     else (let elapsed = now - started r in
       if elapsed \<ge> timeout_ms r then 1 else timeout_ms r - elapsed))"

section \<open>The queue\<close>

text \<open>The state of the host: the requests, the queues and the callbacks made so far, each with
  the request, its ctx and its origin.\<close>

record host =
  store :: "handle \<Rightarrow> StorageRequest"
  queues :: "queue_id \<Rightarrow> handle list"
  calls :: "(handle \<times> nat \<times> nat) list"

definition upd :: "handle \<Rightarrow> (StorageRequest \<Rightarrow> StorageRequest) \<Rightarrow> host \<Rightarrow> host" where
  "upd h f w = w\<lparr>store := (store w)(h := f (store w h))\<rparr>"

text \<open>\<open>grown\<close> tells whether the vector of the queue could grow; the callback is made at most once
  and must not change the queue, so only the fact that it is made matters here.\<close>

definition Enqueue ::
  "queue_id \<Rightarrow> handle option \<Rightarrow> uint32 \<Rightarrow> uint32 \<Rightarrow> nat \<Rightarrow> nat \<Rightarrow> bool \<Rightarrow> bool \<Rightarrow> host \<Rightarrow> bool \<times> host" where
  "Enqueue q request now timeout orig ctx callback grown w =
    (case request of
       None \<Rightarrow> (False, w)
     | Some h \<Rightarrow>
         if owner (store w h) \<noteq> None \<or> state (store w h) \<noteq> Created \<or> timeout = 0 \<or> timeout > 0x7FFFFFFF
         then (False, w)
         else if \<not> grown then (False, w)
         else (True, upd h (\<lambda>r. r\<lparr>owner := Some q, started := now, timeout_ms := timeout, origin := orig,
                completion_context := ctx, completed := callback, state := Queued\<rparr>)
              (w\<lparr>queues := (queues w)(q := queues w q @ [h])\<rparr>)))"

definition Complete :: "queue_id \<Rightarrow> handle \<Rightarrow> StorageRequestResult \<Rightarrow> bool \<Rightarrow> host \<Rightarrow> bool \<times> host" where
  "Complete q h result quiesced w =
    (let request = store w h in
     if owner request \<noteq> Some q \<or> IsDone request then (False, w)
     else
       (let w = upd h (\<lambda>r. r\<lparr>pinned := IsActive r \<and> \<not> quiesced, completion := result,
                            state := Completed\<rparr>) w
        in (True, if completed request
                  then w\<lparr>calls := calls w @ [(h, completion_context request, origin request)]\<rparr> else w)))"

definition Start :: "handle \<Rightarrow> uint32 \<Rightarrow> host \<Rightarrow> bool \<times> host" where
  "Start h now w =
    (let request = store w h in
     case owner request of
       None \<Rightarrow> (False, w)
     | Some q \<Rightarrow>
         if \<not> IsQueued request then (False, w)
         else if StorageRequest_HasExpired request now
         then (False, snd (Complete q h \<lparr>status = TimedOut, transferred = 0\<rparr> True w))
         else (True, upd h (\<lambda>r. r\<lparr>state := Active\<rparr>) w))"

fun expire_loop :: "queue_id \<Rightarrow> uint32 \<Rightarrow> handle list \<Rightarrow> host \<Rightarrow> host" where
  "expire_loop q now [] w = w"
| "expire_loop q now (h # hs) w =
    expire_loop q now hs
      (if IsQueued (store w h) \<and> StorageRequest_HasExpired (store w h) now
       then snd (Complete q h \<lparr>status = TimedOut, transferred = 0\<rparr> True w) else w)"

definition ExpireQueued :: "queue_id \<Rightarrow> uint32 \<Rightarrow> host \<Rightarrow> host" where
  "ExpireQueued q now w = expire_loop q now (queues w q) w"

fun timeout_loop :: "StorageRequest list \<Rightarrow> uint32 \<Rightarrow> uint32 \<Rightarrow> uint32" where
  "timeout_loop [] now remaining = remaining"
| "timeout_loop (r # rs) now remaining =
    timeout_loop rs now (let wait = Remaining r now in if wait < remaining then wait else remaining)"

definition NextTimeout :: "queue_id \<Rightarrow> uint32 \<Rightarrow> host \<Rightarrow> uint32" where
  "NextTimeout q now w = timeout_loop (map (store w) (queues w q)) now 0xFFFFFFFF"

fun expired_loop :: "StorageRequest list \<Rightarrow> uint32 \<Rightarrow> bool \<Rightarrow> bool" where
  "expired_loop [] now active = False"
| "expired_loop (r # rs) now active =
    (if (if active then IsActive r else IsQueued r) \<and> StorageRequest_HasExpired r now then True
     else expired_loop rs now active)"

definition HasExpired :: "queue_id \<Rightarrow> uint32 \<Rightarrow> bool \<Rightarrow> host \<Rightarrow> bool" where
  "HasExpired q now active w = expired_loop (map (store w) (queues w q)) now active"

fun origin_loop :: "StorageRequest list \<Rightarrow> nat" where
  "origin_loop [] = 2 ^ 64 - 1"
| "origin_loop (r # rs) = (if \<not> IsDone r then origin r else origin_loop rs)"

definition NextOrigin :: "queue_id \<Rightarrow> host \<Rightarrow> nat" where
  "NextOrigin q w = origin_loop (map (store w) (queues w q))"

text \<open>\<open>Prune\<close> goes through the vector from its end; the entry removed is the one at the index.\<close>

fun prune_loop :: "queue_id \<Rightarrow> nat \<Rightarrow> host \<Rightarrow> host" where
  "prune_loop q 0 w = w"
| "prune_loop q (Suc i) w =
    (let h = queues w q ! i in
     if \<not> IsDone (store w h) \<or> pinned (store w h) then prune_loop q i w
     else prune_loop q i (upd h (\<lambda>r. r\<lparr>owner := None\<rparr>)
            (w\<lparr>queues := (queues w)(q := take i (queues w q) @ drop (Suc i) (queues w q))\<rparr>)))"

definition Prune :: "queue_id \<Rightarrow> host \<Rightarrow> host" where
  "Prune q w = prune_loop q (length (queues w q)) w"

fun fail_loop :: "queue_id \<Rightarrow> bool \<Rightarrow> handle list \<Rightarrow> host \<Rightarrow> host" where
  "fail_loop q quiesced [] w = w"
| "fail_loop q quiesced (h # hs) w =
    (let w = (if quiesced then upd h (\<lambda>r. r\<lparr>pinned := False\<rparr>) w else w) in
     fail_loop q quiesced hs
      (if \<not> IsDone (store w h)
       then snd (Complete q h \<lparr>status = Failed, transferred = 0\<rparr> quiesced w) else w))"

definition FailAll :: "queue_id \<Rightarrow> bool \<Rightarrow> host \<Rightarrow> host" where
  "FailAll q quiesced w = Prune q (fail_loop q quiesced (queues w q) w)"

definition Count :: "queue_id \<Rightarrow> host \<Rightarrow> nat" where
  "Count q w = length (queues w q)"

definition getRequest :: "queue_id \<Rightarrow> nat \<Rightarrow> host \<Rightarrow> handle option" where
  "getRequest q index w = (if index < Count q w then Some (queues w q ! index) else None)"

section \<open>The host\<close>

text \<open>Any operation on any queue, in any order, at any time.\<close>

inductive host_step :: "host \<Rightarrow> host \<Rightarrow> bool" where
  step_Enqueue: "Enqueue q request now timeout orig ctx callback grown w = (ok, w') \<Longrightarrow> host_step w w'"
| step_Start: "Start h now w = (ok, w') \<Longrightarrow> host_step w w'"
| step_Complete: "Complete q h result quiesced w = (ok, w') \<Longrightarrow> host_step w w'"
| step_ExpireQueued: "host_step w (ExpireQueued q now w)"
| step_Prune: "host_step w (Prune q w)"
| step_FailAll: "host_step w (FailAll q quiesced w)"

inductive host_reach :: "host \<Rightarrow> bool" where
  host_init: "host_reach \<lparr>store = \<lambda>_. StorageRequest_new, queues = \<lambda>_. [], calls = []\<rparr>"
| host_next: "host_reach w \<Longrightarrow> host_step w w' \<Longrightarrow> host_reach w'"

definition request_ok :: "StorageRequest \<Rightarrow> bool" where
  "request_ok r \<longleftrightarrow>
    (state r = Created \<longrightarrow> owner r = None) \<and>
    (state r \<in> {Queued, Active} \<longrightarrow> owner r \<noteq> None \<and> 0 < timeout_ms r \<and> timeout_ms r \<le> 0x7FFFFFFF) \<and>
    (pinned r \<longrightarrow> state r = Completed \<and> owner r \<noteq> None)"

definition called :: "handle \<Rightarrow> host \<Rightarrow> nat" where
  "called h w = length (filter (\<lambda>c. fst c = h) (calls w))"

definition host_ok :: "host \<Rightarrow> bool" where
  "host_ok w \<longleftrightarrow>
    (\<forall>q. distinct (queues w q)) \<and>
    (\<forall>q h. h \<in> set (queues w q) \<longleftrightarrow> owner (store w h) = Some q) \<and>
    (\<forall>h. request_ok (store w h)) \<and>
    (\<forall>h. called h w = (if IsDone (store w h) \<and> completed (store w h) then 1 else 0))"

lemma upd_simps [simp]:
  "queues (upd h f w) = queues w" "calls (upd h f w) = calls w"
  "store (upd h f w) k = (if k = h then f (store w h) else store w k)"
  "called k (upd h f w) = called k w"
  by (simp_all add: upd_def called_def)

lemma host_okD:
  assumes "host_ok w"
  shows "distinct (queues w q)" "h \<in> set (queues w q) \<longleftrightarrow> owner (store w h) = Some q"
    "request_ok (store w h)" "called h w = (if IsDone (store w h) \<and> completed (store w h) then 1 else 0)"
  using assms by (simp_all add: host_ok_def)

lemma Enqueue_ok: "host_ok w \<Longrightarrow> host_ok (snd (Enqueue q request now timeout orig ctx callback grown w))"
proof (cases request)
  case (Some h)
  assume ok: "host_ok w"
  note D = host_okD [OF ok]
  show ?thesis
  proof (cases "owner (store w h) = None \<and> state (store w h) = Created \<and> timeout \<noteq> 0 \<and>
      timeout \<le> 0x7FFFFFFF \<and> grown")
    case True
    then have "h \<notin> set (queues w q')" for q' using D(2) by simp
    moreover have "called h w = 0" using True D(4) by (simp add: request_states)
    moreover have "\<not> pinned (store w h)" using True D(3) [of h] by (auto simp: request_ok_def)
    ultimately show ?thesis
      using True Some ok by (auto simp: Enqueue_def host_ok_def request_ok_def called_def
          request_states word_neq_0_conv not_less)
  next
    case False
    then show ?thesis using Some ok by (auto simp: Enqueue_def not_less)
  qed
qed (simp add: Enqueue_def)

lemma Complete_ok: "host_ok w \<Longrightarrow> host_ok (snd (Complete q h result quiesced w))"
  by (auto simp: Complete_def Let_def host_ok_def request_ok_def called_def request_states)

text \<open>A change of one request that neither moves nor completes it.\<close>

lemma host_ok_upd:
  assumes "host_ok w" "owner (f (store w h)) = owner (store w h)" "request_ok (f (store w h))"
    "IsDone (f (store w h)) \<and> completed (f (store w h)) \<longleftrightarrow> IsDone (store w h) \<and> completed (store w h)"
  shows "host_ok (upd h f w)"
  using assms unfolding host_ok_def by (auto split: if_split)

lemma Start_ok: "host_ok w \<Longrightarrow> host_ok (snd (Start h now w))"
proof -
  assume ok: "host_ok w"
  show ?thesis
  proof (cases "owner (store w h) = None \<or> \<not> IsQueued (store w h) \<or> StorageRequest_HasExpired (store w h) now")
    case True
    then show ?thesis using ok by (auto simp: Start_def Let_def Complete_ok split: option.split)
  next
    case False
    then obtain q where "owner (store w h) = Some q" by auto
    moreover have "host_ok (upd h (\<lambda>r. r\<lparr>state := Active\<rparr>) w)"
      using False host_okD(3) [OF ok, of h]
      by (intro host_ok_upd [OF ok]) (auto simp: request_ok_def request_states)
    ultimately show ?thesis using False by (simp add: Start_def Let_def)
  qed
qed

lemma unpin_ok: "host_ok w \<Longrightarrow> host_ok (upd h (\<lambda>r. r\<lparr>pinned := False\<rparr>) w)"
  using host_okD(3) [of w h] by (intro host_ok_upd) (auto simp: request_ok_def request_states)

lemma expire_loop_ok: "host_ok w \<Longrightarrow> host_ok (expire_loop q now hs w)"
  by (induction q now hs w rule: expire_loop.induct) (auto simp: Complete_ok)

lemma fail_loop_ok: "host_ok w \<Longrightarrow> host_ok (fail_loop q quiesced hs w)"
  by (induction q quiesced hs w rule: fail_loop.induct) (simp add: Let_def Complete_ok unpin_ok)+

lemma distinct_remove_nth:
  assumes "distinct xs" "i < length xs"
  shows "distinct (take i xs @ drop (Suc i) xs)"
    and "set (take i xs @ drop (Suc i) xs) = set xs - {xs ! i}"
proof -
  from assms(1) id_take_nth_drop [OF assms(2)]
  have "distinct (take i xs @ xs ! i # drop (Suc i) xs)" by metis
  moreover from id_take_nth_drop [OF assms(2)]
  have "set xs = set (take i xs @ xs ! i # drop (Suc i) xs)" by metis
  ultimately show "distinct (take i xs @ drop (Suc i) xs)"
    "set (take i xs @ drop (Suc i) xs) = set xs - {xs ! i}" by auto
qed

lemma prune_step_ok:
  assumes "host_ok w" "i < length (queues w q)" "IsDone (store w (queues w q ! i))"
    "\<not> pinned (store w (queues w q ! i))"
  shows "host_ok (upd (queues w q ! i) (\<lambda>r. r\<lparr>owner := None\<rparr>)
    (w\<lparr>queues := (queues w)(q := take i (queues w q) @ drop (Suc i) (queues w q))\<rparr>))"
    (is "host_ok ?w'")
proof -
  let ?hs = "queues w q" and ?h = "queues w q ! i"
  note D = host_okD [OF assms(1)]
  note r = distinct_remove_nth [OF D(1) assms(2)]
  have own: "owner (store w ?h) = Some q" using D(2) assms(2) by (metis nth_mem)
  have "distinct (queues ?w' q')" for q' using r(1) D(1) by simp
  moreover have "h \<in> set (queues ?w' q') \<longleftrightarrow> owner (store ?w' h) = Some q'" for q' h
  proof (cases "q' = q")
    case True
    then show ?thesis using r(2) D(2) [of h q] by simp
  next
    case False
    then show ?thesis using D(2) [of h q'] own by simp
  qed
  moreover have "request_ok (store ?w' h)" for h
    using D(3) [of h] assms(3,4) by (simp add: request_ok_def request_states)
  moreover have "called h ?w' = (if IsDone (store ?w' h) \<and> completed (store ?w' h) then 1 else 0)" for h
    using D(4) [of h] by (simp add: called_def request_states)
  ultimately show ?thesis unfolding host_ok_def by blast
qed

lemma prune_loop_ok: "host_ok w \<Longrightarrow> i \<le> length (queues w q) \<Longrightarrow> host_ok (prune_loop q i w)"
proof (induction q i w rule: prune_loop.induct)
  case (2 q i w)
  then show ?case using prune_step_ok [of w i q] by (auto simp: Let_def min_def)
qed simp

lemma Prune_ok: "host_ok w \<Longrightarrow> host_ok (Prune q w)"
  by (simp add: Prune_def prune_loop_ok)


lemma host_step_ok: "host_step w w' \<Longrightarrow> host_ok w \<Longrightarrow> host_ok w'"
proof (induction rule: host_step.induct)
  case (step_Enqueue q request now timeout orig ctx callback grown w ok w')
  then show ?case using Enqueue_ok [of w q request now timeout orig ctx callback grown] by simp
next
  case (step_Start h now w ok w')
  then show ?case using Start_ok [of w h now] by simp
next
  case (step_Complete q h result quiesced w ok w')
  then show ?case using Complete_ok [of w q h result quiesced] by simp
qed (auto simp: ExpireQueued_def FailAll_def expire_loop_ok fail_loop_ok Prune_ok)

text \<open>Progress of the requests between two states: no request goes back, and one that is done keeps
  its result.\<close>

primrec stage :: "StorageRequestState \<Rightarrow> nat" where
  "stage Created = 0"
| "stage Queued = 1"
| "stage Active = 2"
| "stage Completed = 3"

definition progress :: "host \<Rightarrow> host \<Rightarrow> bool" where
  "progress w w' \<longleftrightarrow> (\<forall>h. stage (state (store w h)) \<le> stage (state (store w' h)) \<and>
    (IsDone (store w h) \<longrightarrow> completion (store w' h) = completion (store w h)))"

lemma stage_le_3: "stage s \<le> 3"
  by (cases s) auto

lemma stage_3: "3 \<le> stage s \<longleftrightarrow> s = Completed"
  by (cases s) auto

lemma progress_refl [simp]: "progress w w"
  by (simp add: progress_def)

lemma progress_trans [trans]:
  assumes "progress w w'" "progress w' w''"
  shows "progress w w''"
  unfolding progress_def
proof
  fix h
  from assms have "stage (state (store w h)) \<le> stage (state (store w' h))"
    "stage (state (store w' h)) \<le> stage (state (store w'' h))"
    "IsDone (store w h) \<longrightarrow> completion (store w' h) = completion (store w h)"
    "IsDone (store w' h) \<longrightarrow> completion (store w'' h) = completion (store w' h)"
    by (simp_all add: progress_def)
  then show "stage (state (store w h)) \<le> stage (state (store w'' h)) \<and>
    (IsDone (store w h) \<longrightarrow> completion (store w'' h) = completion (store w h))"
    using stage_3 [of "state (store w' h)"] by (auto simp: IsDone_def)
qed

lemma progress_upd:
  "stage (state (store w h)) \<le> stage (state (f (store w h))) \<Longrightarrow>
   (IsDone (store w h) \<Longrightarrow> completion (f (store w h)) = completion (store w h)) \<Longrightarrow>
   store w' = store w \<Longrightarrow> progress w (upd h f w')"
  by (simp add: progress_def)

lemma Complete_progress: "progress w (snd (Complete q h result quiesced w))"
  by (auto simp: Complete_def Let_def progress_def stage_le_3 IsDone_def)

lemma expire_loop_progress: "progress w (expire_loop q now hs w)"
proof (induction q now hs w rule: expire_loop.induct)
  case (2 q now h hs w)
  then show ?case by (auto intro: progress_trans [OF Complete_progress])
qed simp

lemma fail_loop_progress: "progress w (fail_loop q quiesced hs w)"
proof (induction q quiesced hs w rule: fail_loop.induct)
  case (2 q quiesced h hs w)
  let ?w1 = "if quiesced then upd h (\<lambda>r. r\<lparr>pinned := False\<rparr>) w else w"
  let ?w2 = "if \<not> IsDone (store ?w1 h)
    then snd (Complete q h \<lparr>status = Failed, transferred = 0\<rparr> quiesced ?w1) else ?w1"
  have "progress w ?w1" by (simp add: progress_upd)
  also have "progress ?w1 ?w2" using Complete_progress by simp
  also have "progress ?w2 (fail_loop q quiesced hs ?w2)" by (rule "2.IH" [OF refl])
  finally show ?case by (simp add: Let_def)
qed simp

lemma prune_loop_progress: "progress w (prune_loop q i w)"
proof (induction q i w rule: prune_loop.induct)
  case (2 q i w)
  show ?case
  proof (cases "\<not> IsDone (store w (queues w q ! i)) \<or> pinned (store w (queues w q ! i))")
    case True
    then show ?thesis using 2(1) [OF refl True] by (simp add: Let_def)
  next
    case False
    show ?thesis
      using progress_trans [OF progress_upd 2(2) [OF refl False]] False by (simp add: Let_def)
  qed
qed simp

lemma host_step_progress: "host_step w w' \<Longrightarrow> progress w w'"
proof (induction rule: host_step.induct)
  case (step_Enqueue q request now timeout orig ctx callback grown w ok w')
  then show ?case
    by (auto simp: Enqueue_def progress_def IsDone_def split: option.splits if_splits)
next
  case (step_Start h now w ok w')
  have "progress w (snd (Start h now w))"
    by (auto simp: Start_def Let_def Complete_progress request_states intro!: progress_upd split: option.split)
  then show ?case using step_Start by simp
next
  case (step_Complete q h result quiesced w ok w')
  then show ?case using Complete_progress [of w q h result quiesced] by simp
qed (auto simp: ExpireQueued_def FailAll_def Prune_def expire_loop_progress
      intro: prune_loop_progress progress_trans [OF fail_loop_progress])

section \<open>What pruning, failing and waiting do\<close>

abbreviation kept :: "host \<Rightarrow> handle \<Rightarrow> bool" where
  "kept w h \<equiv> \<not> IsDone (store w h) \<or> pinned (store w h)"

lemma prune_loop_spec:
  "i \<le> length (queues w q) \<Longrightarrow> prune_loop q i w =
    w\<lparr>queues := (queues w)(q := filter (kept w) (take i (queues w q)) @ drop i (queues w q)),
      store := (\<lambda>h. if h \<in> set (take i (queues w q)) \<and> \<not> kept w h then store w h\<lparr>owner := None\<rparr> else store w h)\<rparr>"
proof (induction i arbitrary: w)
  case (Suc i)
  let ?hs = "queues w q" and ?h = "queues w q ! i"
  have t: "take (Suc i) ?hs = take i ?hs @ [?h]" and dr: "drop i ?hs = ?h # drop (Suc i) ?hs"
    using Suc.prems by (simp_all add: take_Suc_conv_app_nth Cons_nth_drop_Suc)
  show ?case
  proof (cases "kept w ?h")
    case True
    then show ?thesis using Suc by (auto simp: t dr Let_def intro!: arg_cong2 [where f = "\<lambda>a b. w\<lparr>queues := a, store := b\<rparr>"])
  next
    case False
    let ?w1 = "upd ?h (\<lambda>r. r\<lparr>owner := None\<rparr>) (w\<lparr>queues := (queues w)(q := take i ?hs @ drop (Suc i) ?hs)\<rparr>)"
    have k: "kept ?w1 = kept w" by (auto simp: IsDone_def)
    have "prune_loop q (Suc i) w = prune_loop q i ?w1" using False by (simp add: Let_def)
    also have "\<dots> = ?w1\<lparr>queues := (queues ?w1)(q := filter (kept ?w1) (take i (queues ?w1 q)) @ drop i (queues ?w1 q)),
      store := (\<lambda>h. if h \<in> set (take i (queues ?w1 q)) \<and> \<not> kept ?w1 h then store ?w1 h\<lparr>owner := None\<rparr> else store ?w1 h)\<rparr>"
      using Suc.prems by (intro Suc.IH) simp
    also have "\<dots> = w\<lparr>queues := (queues w)(q := filter (kept w) (take (Suc i) ?hs) @ drop (Suc i) ?hs),
      store := (\<lambda>h. if h \<in> set (take (Suc i) ?hs) \<and> \<not> kept w h then store w h\<lparr>owner := None\<rparr> else store w h)\<rparr>"
      unfolding k using False Suc.prems
      by (auto simp: t upd_def min_def fun_eq_iff intro!: host.equality)
    finally show ?thesis .
  qed
qed (auto simp: fun_upd_idem)


lemma Prune_spec:
  "Prune q w = w\<lparr>queues := (queues w)(q := filter (kept w) (queues w q)),
    store := (\<lambda>h. if h \<in> set (queues w q) \<and> \<not> kept w h then store w h\<lparr>owner := None\<rparr> else store w h)\<rparr>"
  using prune_loop_spec [of "length (queues w q)" w q] by (simp add: Prune_def)

definition fail_request :: "bool \<Rightarrow> StorageRequest \<Rightarrow> StorageRequest" where
  "fail_request quiesced r =
    (let r = (if quiesced then r\<lparr>pinned := False\<rparr> else r) in
     if IsDone r then r
     else r\<lparr>pinned := IsActive r \<and> \<not> quiesced, completion := \<lparr>status = Failed, transferred = 0\<rparr>,
            state := Completed\<rparr>)"

lemma fail_loop_spec:
  "distinct hs \<Longrightarrow> \<forall>h \<in> set hs. owner (store w h) = Some q \<Longrightarrow>
   queues (fail_loop q quiesced hs w) = queues w \<and>
   store (fail_loop q quiesced hs w) = (\<lambda>h. if h \<in> set hs then fail_request quiesced (store w h) else store w h)"
proof (induction hs arbitrary: w)
  case (Cons h hs)
  let ?w1 = "if quiesced then upd h (\<lambda>r. r\<lparr>pinned := False\<rparr>) w else w"
  let ?w2 = "if \<not> IsDone (store ?w1 h)
    then snd (Complete q h \<lparr>status = Failed, transferred = 0\<rparr> quiesced ?w1) else ?w1"
  have one: "store ?w2 = (store w)(h := fail_request quiesced (store w h))" "queues ?w2 = queues w"
    using Cons.prems by (auto simp: fail_request_def Complete_def Let_def fun_eq_iff request_states)
  have "\<forall>k \<in> set hs. owner (store ?w2 k) = Some q" using Cons.prems unfolding one(1) by auto
  with Cons have "queues (fail_loop q quiesced hs ?w2) = queues ?w2 \<and> store (fail_loop q quiesced hs ?w2) =
      (\<lambda>k. if k \<in> set hs then fail_request quiesced (store ?w2 k) else store ?w2 k)"
    by simp
  moreover have "fail_loop q quiesced (h # hs) w = fail_loop q quiesced hs ?w2" by (simp add: Let_def)
  ultimately show ?case using Cons.prems unfolding one by (auto simp: fun_eq_iff)
qed simp

lemma fail_request_simps:
  "IsDone (fail_request quiesced r)"
  "completion (fail_request quiesced r) =
    (if IsDone r then completion r else \<lparr>status = Failed, transferred = 0\<rparr>)"
  "pinned (fail_request quiesced r) \<longleftrightarrow> \<not> quiesced \<and> (if IsDone r then pinned r else IsActive r)"
  by (auto simp: fail_request_def Let_def request_states)

text \<open>The wait of one request against its expiry, on counters that wrap around.\<close>

lemma expiry_word:
  fixes now started timeout k :: uint32
  assumes "now - started < timeout" "timeout \<le> 0x7FFFFFFF" "k \<le> 0x7FFFFFFF"
  shows "timeout \<le> now + k - started \<longleftrightarrow> timeout - (now - started) \<le> k"
proof -
  define e where "e = now - started"
  have "now + k - started = e + k" by (simp add: e_def)
  moreover have "timeout \<le> e + k \<longleftrightarrow> timeout - e \<le> k"
  proof -
    have b: "unat e < unat timeout" "unat timeout \<le> 0x7FFFFFFF" "unat k \<le> 0x7FFFFFFF"
      using assms by (simp_all add: e_def word_less_nat_alt word_le_nat_alt)
    then have "unat (e + k) = unat e + unat k" by (simp add: unat_word_ariths)
    moreover have "unat (timeout - e) = unat timeout - unat e"
      using b by (simp add: unat_sub word_le_nat_alt)
    ultimately show ?thesis using b by (auto simp: word_le_nat_alt)
  qed
  ultimately show ?thesis unfolding e_def by (simp only:)
qed

lemma Remaining_pos: "request_ok r \<Longrightarrow> 0 < Remaining r now"
  by (auto simp: Remaining_def Let_def word_neq_0_conv [symmetric])

lemma Remaining_live:
  assumes "request_ok r" "IsQueued r \<or> IsActive r" "\<not> StorageRequest_HasExpired r now"
  shows "Remaining r now \<le> 0x7FFFFFFF" and
    "k \<le> Remaining r now \<Longrightarrow> StorageRequest_HasExpired r (now + k) \<longleftrightarrow> k = Remaining r now"
proof -
  have T: "0 < timeout_ms r" "timeout_ms r \<le> 0x7FFFFFFF"
    using assms(1,2) by (auto simp: request_ok_def request_states)
  have e: "now - started r < timeout_ms r"
    using assms(2,3) by (simp add: StorageRequest_HasExpired_def not_le)
  then have R: "Remaining r now = timeout_ms r - (now - started r)"
    using assms(2) by (auto simp: Remaining_def Let_def not_le)
  have "timeout_ms r - (now - started r) \<le> timeout_ms r"
    using unat_sub [OF less_imp_le [OF e]] by (simp add: word_le_nat_alt)
  then show le: "Remaining r now \<le> 0x7FFFFFFF" using T R by simp
  assume k: "k \<le> Remaining r now"
  with le have "k \<le> 0x7FFFFFFF" by simp
  from expiry_word [OF e T(2) this] k R assms(2)
  show "StorageRequest_HasExpired r (now + k) \<longleftrightarrow> k = Remaining r now"
    by (auto simp: StorageRequest_HasExpired_def)
qed

lemma timeout_loop_Min: "timeout_loop rs now n = Min (insert n ((\<lambda>r. Remaining r now) ` set rs))"
proof (induction rs arbitrary: n)
  case (Cons r rs)
  have "(let wait = Remaining r now in if wait < n then wait else n) = min (Remaining r now) n"
    by (auto simp: Let_def min_def)
  then show ?case using Cons by (cases "rs = []") (auto simp: min.assoc min.commute min.left_commute)
qed simp

lemma NextTimeout_Min:
  "NextTimeout q now w = Min (insert 0xFFFFFFFF ((\<lambda>h. Remaining (store w h) now) ` set (queues w q)))"
  by (simp add: NextTimeout_def timeout_loop_Min image_image)


section \<open>Properties\<close>

lemma host_reach_ok: "host_reach w \<Longrightarrow> host_ok w"
proof (induction rule: host_reach.induct)
  case host_init
  show ?case
    by (simp add: host_ok_def request_ok_def StorageRequest_new_def called_def request_states)
next
  case (host_next w w')
  then show ?case using host_step_ok by blast
qed

definition sample_host :: host where
  "sample_host = \<lparr>store = \<lambda>_. StorageRequest_new, queues = \<lambda>_. [], calls = []\<rparr>"

definition sample_queued :: host where
  "sample_queued = snd (Enqueue 0 (Some 7) 0xFFFFFFF0 100 5 11 True True sample_host)"

definition sample_active :: host where
  "sample_active = snd (Start 7 4 sample_queued)"

lemma sample_reach: "host_reach sample_queued" "host_reach sample_active"
proof -
  have "host_reach sample_host" unfolding sample_host_def by (rule host_init)
  then show q: "host_reach sample_queued"
    by (rule host_next) (auto simp: sample_queued_def intro: step_Enqueue [OF surjective_pairing])
  then show "host_reach sample_active"
    by (rule host_next) (auto simp: sample_active_def intro: step_Start [OF surjective_pairing])
qed

lemma sample_active_simps:
  "state (store sample_active 7) = Active" "queues sample_active 0 = [7]"
  "pinned (store sample_active 7) = False" "started (store sample_active 7) = 0xFFFFFFF0"
  "timeout_ms (store sample_active 7) = 100"
  by code_simp+

text \<open>C11. In every state the host can reach by any interleaving of the operations on any number of
  queues, a request is in a queue if and only if that queue owns it, and in no queue twice; a
  queued or active request is owned and has a timeout between 1 and \<open>0x7FFFFFFF\<close>; only completed
  requests that are still owned are pinned; and the completion callback of a request has been made
  exactly once if the request is completed and has a callback, and never otherwise.  From there on
  requests only move forward through Created, Queued, Active and Completed, whatever operation
  runs, and once a request is completed its result never changes again.\<close>

theorem request_invariant:
  assumes "host_reach w"
  shows "host_ok w \<and> (\<forall>w' h. host_step w w' \<longrightarrow> stage (state (store w h)) \<le> stage (state (store w' h)) \<and>
    (IsDone (store w h) \<longrightarrow> IsDone (store w' h) \<and> completion (store w' h) = completion (store w h)))"
proof (intro conjI allI impI)
  show "host_ok w" by (rule host_reach_ok [OF assms])
  fix w' h assume step: "host_step w w'"
  show "stage (state (store w h)) \<le> stage (state (store w' h))"
    using host_step_progress [OF step] by (auto simp: progress_def dest: spec [of _ h])
  assume "IsDone (store w h)"
  then show "IsDone (store w' h)" "completion (store w' h) = completion (store w h)"
    using host_step_progress [OF step] stage_3 [of "state (store w' h)"]
    by (auto simp: progress_def IsDone_def dest: spec [of _ h])
qed

theorem request_invariant_witness:
  "host_ok sample_active \<and> state (store sample_active 7) = Active \<and>
   stage (state (store sample_active 7)) \<le> stage (state (store (FailAll 0 False sample_active) 7))"
  using request_invariant [OF sample_reach(2)] step_FailAll [of sample_active 0 False] sample_active_simps(1) by blast

text \<open>C12. \<open>Prune\<close> removes from the queue exactly the requests that are done and not pinned, keeps
  the others in their order, and releases the ownership of those removed; it touches nothing else.
  \<open>FailAll\<close> completes every request of the queue: those that were not done get the result
  \<open>Failed\<close>, the others keep theirs.  After a confirmed stop of the hardware the queue is empty and
  nothing is owned any more; without one exactly the requests that were active or already pinned
  stay in the queue, pinned.\<close>

theorem fail_all_completes:
  assumes "host_ok w"
  shows "queues (FailAll q quiesced w) q = (if quiesced then []
      else filter (\<lambda>h. IsActive (store w h) \<or> pinned (store w h)) (queues w q)) \<and>
    (\<forall>h \<in> set (queues w q). IsDone (store (FailAll q quiesced w) h) \<and>
      completion (store (FailAll q quiesced w) h) = (if IsDone (store w h) then completion (store w h)
        else \<lparr>status = Failed, transferred = 0\<rparr>) \<and>
      (owner (store (FailAll q quiesced w) h) = None \<longleftrightarrow> quiesced \<or> \<not> IsActive (store w h) \<and> \<not> pinned (store w h))) \<and>
    queues (Prune q w) = (queues w)(q := filter (\<lambda>h. \<not> IsDone (store w h) \<or> pinned (store w h)) (queues w q)) \<and>
    (\<forall>h. store (Prune q w) h =
      (if h \<in> set (queues w q) \<and> IsDone (store w h) \<and> \<not> pinned (store w h)
       then store w h\<lparr>owner := None\<rparr> else store w h)) \<and>
    calls (Prune q w) = calls w"
proof -
  note D = host_okD [OF assms(1)]
  let ?f = "fail_loop q quiesced (queues w q) w"
  have f: "queues ?f = queues w"
    "store ?f = (\<lambda>h. if h \<in> set (queues w q) then fail_request quiesced (store w h) else store w h)"
    using fail_loop_spec [of "queues w q" w q quiesced] D(1,2) by auto
  have pin: "pinned (fail_request quiesced (store w h)) \<longleftrightarrow>
      \<not> quiesced \<and> (IsActive (store w h) \<or> pinned (store w h))" for h
    using D(3) [of h] by (auto simp: fail_request_simps request_ok_def request_states)
  have own: "owner (fail_request quiesced (store w h)) = Some q" if "h \<in> set (queues w q)" for h
    using D(2) that by (simp add: fail_request_def Let_def)
  have "queues (FailAll q quiesced w) q = filter (kept ?f) (queues w q)" by (simp add: FailAll_def Prune_spec f(1))
  also have "\<dots> = filter (\<lambda>h. \<not> quiesced \<and> (IsActive (store w h) \<or> pinned (store w h))) (queues w q)"
    by (rule filter_cong) (simp_all add: f(2) fail_request_simps(1) pin)
  finally have "queues (FailAll q quiesced w) q =
      (if quiesced then [] else filter (\<lambda>h. IsActive (store w h) \<or> pinned (store w h)) (queues w q))"
    by simp
  moreover have "store (FailAll q quiesced w) h = (let r = fail_request quiesced (store w h) in
      if pinned r then r else r\<lparr>owner := None\<rparr>)" if "h \<in> set (queues w q)" for h
    using that by (simp add: FailAll_def Prune_spec f fail_request_simps(1) Let_def)
  moreover have "IsDone (r\<lparr>owner := None\<rparr>) = IsDone r" for r by (simp add: IsDone_def)
  ultimately have "queues (FailAll q quiesced w) q = (if quiesced then []
      else filter (\<lambda>h. IsActive (store w h) \<or> pinned (store w h)) (queues w q)) \<and>
    (\<forall>h \<in> set (queues w q). IsDone (store (FailAll q quiesced w) h) \<and>
      completion (store (FailAll q quiesced w) h) = (if IsDone (store w h) then completion (store w h)
        else \<lparr>status = Failed, transferred = 0\<rparr>) \<and>
      (owner (store (FailAll q quiesced w) h) = None \<longleftrightarrow> quiesced \<or> \<not> IsActive (store w h) \<and> \<not> pinned (store w h)))"
    using own by (auto simp: Let_def fail_request_simps(1,2) pin)
  moreover have "queues (Prune q w) = (queues w)(q := filter (\<lambda>h. \<not> IsDone (store w h) \<or> pinned (store w h)) (queues w q))"
    by (simp add: Prune_spec fun_eq_iff)
  moreover have "\<forall>h. store (Prune q w) h =
      (if h \<in> set (queues w q) \<and> IsDone (store w h) \<and> \<not> pinned (store w h)
       then store w h\<lparr>owner := None\<rparr> else store w h)" "calls (Prune q w) = calls w" by (simp_all add: Prune_spec)
  ultimately show ?thesis by blast
qed

theorem fail_all_completes_witness:
  "queues (FailAll 0 True sample_active) 0 = [] \<and> queues (FailAll 0 False sample_active) 0 = [7] \<and>
   completion (store (FailAll 0 False sample_active) 7) = \<lparr>status = Failed, transferred = 0\<rparr>"
  using fail_all_completes [OF host_reach_ok [OF sample_reach(2)], of 0 True]
    fail_all_completes [OF host_reach_ok [OF sample_reach(2)], of 0 False]
  by (simp add: sample_active_simps request_states)


text \<open>C13. \<open>NextTimeout\<close> tells how long the host may sleep, across the wrap-around of the clock: it is
  \<open>0xFFFFFFFF\<close> exactly if no request of the queue is queued or active; it is 1 if one has expired
  already; and otherwise no request of the queue expires before that many milliseconds have
  passed, and one has expired when they have.\<close>

theorem next_timeout_exact:
  assumes "host_ok w" "NextTimeout q now w = n"
  shows "(n = 0xFFFFFFFF \<longleftrightarrow> (\<forall>h \<in> set (queues w q). \<not> IsQueued (store w h) \<and> \<not> IsActive (store w h))) \<and>
    ((\<exists>h \<in> set (queues w q). StorageRequest_HasExpired (store w h) now) \<longrightarrow> n = 1) \<and>
    ((\<forall>h \<in> set (queues w q). \<not> StorageRequest_HasExpired (store w h) now) \<and> n \<noteq> 0xFFFFFFFF \<longrightarrow>
      (\<forall>k < n. \<forall>h \<in> set (queues w q). \<not> StorageRequest_HasExpired (store w h) (now + k)) \<and>
      (\<exists>h \<in> set (queues w q). StorageRequest_HasExpired (store w h) (now + n)))"
proof -
  note ok = host_okD(3) [OF assms(1)]
  let ?Q = "set (queues w q)" and ?R = "\<lambda>h. Remaining (store w h) now"
  let ?live = "\<lambda>h. IsQueued (store w h) \<or> IsActive (store w h)"
  have n: "n = Min (insert 0xFFFFFFFF (?R ` ?Q))" using assms(2) by (simp add: NextTimeout_Min)
  have lower: "n \<le> ?R h" if "h \<in> ?Q" for h unfolding n using that by (intro Min_le) auto
  have attained: "n = 0xFFFFFFFF \<or> (\<exists>h \<in> ?Q. n = ?R h)"
    using Min_in [of "insert 0xFFFFFFFF (?R ` ?Q)"] n by auto
  have dead: "?R h = 0xFFFFFFFF" if "\<not> ?live h" for h using that by (simp add: Remaining_def)
  have expired: "?R h = 1" if "StorageRequest_HasExpired (store w h) now" for h
    using that by (auto simp: Remaining_def StorageRequest_HasExpired_def Let_def)
  have live: "?R h \<le> 0x7FFFFFFF" if "?live h" for h
    using Remaining_live(1) [OF ok, of h now] expired [of h] that by (cases "StorageRequest_HasExpired (store w h) now") auto
  have "n = 0xFFFFFFFF \<longleftrightarrow> (\<forall>h \<in> ?Q. \<not> ?live h)"
  proof
    assume big: "n = 0xFFFFFFFF"
    show "\<forall>h \<in> ?Q. \<not> ?live h"
    proof (intro ballI notI)
      fix h assume "h \<in> ?Q" "?live h"
      then have "n \<le> 0x7FFFFFFF" using lower live order_trans by blast
      then show False using big by simp
    qed
  next
    assume "\<forall>h \<in> ?Q. \<not> ?live h"
    then show "n = 0xFFFFFFFF" using attained dead by auto
  qed
  moreover have "n = 1" if "h \<in> ?Q" "StorageRequest_HasExpired (store w h) now" for h
  proof -
    have "n \<le> 1" using lower [OF that(1)] expired [OF that(2)] by simp
    moreover have "n \<noteq> 0"
      using attained
    proof
      assume "\<exists>h \<in> ?Q. n = ?R h"
      then obtain h where "n = ?R h" by blast
      then show ?thesis using Remaining_pos [OF ok, of h now] by (simp add: word_neq_0_conv)
    qed simp
    ultimately show ?thesis by (metis antisym word_le_less_eq word_less_1 )
  qed
  moreover have "(\<forall>k < n. \<forall>h \<in> ?Q. \<not> StorageRequest_HasExpired (store w h) (now + k)) \<and>
      (\<exists>h \<in> ?Q. StorageRequest_HasExpired (store w h) (now + n))"
    if none: "\<forall>h \<in> ?Q. \<not> StorageRequest_HasExpired (store w h) now" and "n \<noteq> 0xFFFFFFFF"
  proof
    show "\<forall>k < n. \<forall>h \<in> ?Q. \<not> StorageRequest_HasExpired (store w h) (now + k)"
    proof (intro allI impI ballI notI)
      fix k h assume k: "k < n" and h: "h \<in> ?Q" and "StorageRequest_HasExpired (store w h) (now + k)"
      moreover from this have "?live h" by (simp add: StorageRequest_HasExpired_def)
      moreover have "k < ?R h" using k lower [OF h] by simp
      ultimately show False using Remaining_live(2) [OF ok] none by fastforce
    qed
    from attained that(2) obtain h where h: "h \<in> ?Q" "n = ?R h" by auto
    with that(2) dead have "?live h" by metis
    then have "StorageRequest_HasExpired (store w h) (now + n)"
      using Remaining_live(2) [OF ok _ bspec [OF none h(1)], of n] h by simp
    with h(1) show "\<exists>h \<in> ?Q. StorageRequest_HasExpired (store w h) (now + n)" by blast
  qed
  ultimately show ?thesis by blast
qed

theorem next_timeout_exact_witness:
  "NextTimeout 0 4 sample_active = 80 \<and>
   \<not> StorageRequest_HasExpired (store sample_active 7) (4 + 79) \<and>
   StorageRequest_HasExpired (store sample_active 7) (4 + 80)"
proof -
  have "NextTimeout 0 4 sample_active = 80" by code_simp
  moreover have "\<not> StorageRequest_HasExpired (store sample_active 7) 4" by code_simp
  ultimately show ?thesis
    using next_timeout_exact [OF host_reach_ok [OF sample_reach(2)], of 0 4 80]
    by (auto simp: sample_active_simps dest: spec [of _ 79])
qed


end
