(* ===== verification/NetIP.thy ===== *)
theory NetIP
  imports Prelude
begin

text \<open>
  The link and network layers of \<open>src/inc/cpp/System/Network\<close>: addresses, Ethernet frames, ARP,
  IPv4 with its checksum and the echo service of ICMP.

  A packet is a list of bytes.  A pointer that may be null is an option, the bytes from a pointer
  on are a list, and the number of bytes that count is kept beside it as in the source.  The
  structures that a parser returns hold the values it reads; \<open>None\<close> is the return value \<open>false\<close>.
  A builder writes into a buffer whose other bytes stay as they were.  Quantities of 16 bits are
  natural numbers reduced modulo \<open>2 ^ 16\<close> where the source converts to \<open>uint16\<close>.
\<close>

section \<open>Addresses\<close>

type_synonym ip4 = "byte list"
type_synonym mac = "byte list"

definition IPv4AddressLength :: nat where "IPv4AddressLength = 4"
definition IPv6AddressLength :: nat where "IPv6AddressLength = 16"
definition EthernetAddressLength :: nat where "EthernetAddressLength = 6"

definition all_zero :: "nat \<Rightarrow> byte list \<Rightarrow> bool" where
  "all_zero n octet \<longleftrightarrow> list_all (\<lambda>b. b = 0) (take n octet)"

definition IPv4Address_eq :: "ip4 \<Rightarrow> ip4 \<Rightarrow> bool" where
  "IPv4Address_eq a b \<longleftrightarrow> take IPv4AddressLength a = take IPv4AddressLength b"

definition IPv4Address_isZero :: "ip4 \<Rightarrow> bool" where
  "IPv4Address_isZero a \<longleftrightarrow> all_zero IPv4AddressLength a"

definition IPv6Address_eq :: "byte list \<Rightarrow> byte list \<Rightarrow> bool" where
  "IPv6Address_eq a b \<longleftrightarrow> take IPv6AddressLength a = take IPv6AddressLength b"

definition IPv6Address_isZero :: "byte list \<Rightarrow> bool" where
  "IPv6Address_isZero a \<longleftrightarrow> all_zero IPv6AddressLength a"

definition IPv6Address_isMulticast :: "byte list \<Rightarrow> bool" where
  "IPv6Address_isMulticast a \<longleftrightarrow> a ! 0 = 0xFF"

definition IPv6Address_getGroup :: "byte list \<Rightarrow> nat \<Rightarrow> nat" where
  "IPv6Address_getGroup a index =
    (if index \<ge> 8 then 0 else 256 * unat (a ! (index * 2)) + unat (a ! (index * 2 + 1)))"

definition IPv4CopyAddress :: "byte list \<Rightarrow> ip4" where
  "IPv4CopyAddress source = take IPv4AddressLength source"

definition MacAddress_isZero :: "mac \<Rightarrow> bool" where
  "MacAddress_isZero m \<longleftrightarrow> all_zero EthernetAddressLength m"

definition MacAddress_isBroadcast :: "mac \<Rightarrow> bool" where
  "MacAddress_isBroadcast m \<longleftrightarrow> list_all (\<lambda>b. b = 0xFF) (take EthernetAddressLength m)"

datatype NetworkAddressFamily = Unspec | IPv4 | IPv6

record NetworkAddress =
  family :: NetworkAddressFamily
  alen :: nat
  aoctet :: "byte list"

definition NetworkAddress_isZero :: "NetworkAddress \<Rightarrow> bool" where
  "NetworkAddress_isZero a \<longleftrightarrow> all_zero (alen a) (aoctet a)"

definition NetworkAddressIPv4 :: "ip4 \<Rightarrow> NetworkAddress" where
  "NetworkAddressIPv4 address = \<lparr>family = IPv4, alen = IPv4AddressLength,
    aoctet = patch (replicate IPv6AddressLength 0) 0 (take IPv4AddressLength address)\<rparr>"

definition NetworkAddressIPv6 :: "byte list \<Rightarrow> NetworkAddress" where
  "NetworkAddressIPv6 address = \<lparr>family = IPv6, alen = IPv6AddressLength,
    aoctet = patch (replicate IPv6AddressLength 0) 0 (take IPv6AddressLength address)\<rparr>"

definition NetworkReadIPv4Address :: "NetworkAddress \<Rightarrow> ip4 option" where
  "NetworkReadIPv4Address input =
    (if family input \<noteq> IPv4 \<or> alen input \<noteq> IPv4AddressLength then None
     else Some (take IPv4AddressLength (aoctet input)))"

record NetworkPacketContext =
  npc_source :: NetworkAddress
  npc_destination :: NetworkAddress
  npc_protocol :: byte
  npc_payload :: mem
  npc_payload_length :: nat
  npc_identification :: nat
  npc_ttl :: byte

section \<open>Numbers on the wire\<close>

definition EthernetRead16 :: "byte list \<Rightarrow> nat" where
  "EthernetRead16 d = 256 * unat (d ! 0) + unat (d ! 1)"

definition EthernetWrite16 :: "nat \<Rightarrow> byte list" where
  "EthernetWrite16 v = [of_nat (v div 256), of_nat v]"

lemma length_Write16 [simp]: "length (EthernetWrite16 v) = 2"
  by (simp add: EthernetWrite16_def)

lemma unat_byte: "unat (of_nat v :: byte) = v mod 256"
  by (simp add: unsigned_of_nat take_bit_eq_mod)

lemma byte_less: "unat (b :: byte) < 256"
  using unsigned_less [of b] by simp

lemma Read16_Write16 [net_simps]: "v < 65536 \<Longrightarrow> EthernetRead16 (EthernetWrite16 v @ rest) = v"
  by (simp add: EthernetRead16_def EthernetWrite16_def unat_byte)

section \<open>Ethernet\<close>

definition EthernetHeaderLength :: nat where "EthernetHeaderLength = 14"

definition EthernetType_IPv4 :: nat where "EthernetType_IPv4 = 0x0800"
definition EthernetType_ARP :: nat where "EthernetType_ARP = 0x0806"

record LinkFrameView =
  frame_data :: "mem option"
  frame_length :: nat

record EthernetFrameView =
  eth_destination :: mac
  eth_source :: mac
  eth_type :: nat
  eth_payload :: "mem option"
  eth_payload_length :: nat

definition ParseEthernetFrame :: "LinkFrameView \<Rightarrow> EthernetFrameView option" where
  "ParseEthernetFrame raw =
    (case frame_data raw of
       None \<Rightarrow> None
     | Some d \<Rightarrow>
         if frame_length raw < EthernetHeaderLength then None
         else Some \<lparr>eth_destination = take 6 d, eth_source = take 6 (drop 6 d),
           eth_type = EthernetRead16 (drop 12 d), eth_payload = Some (drop EthernetHeaderLength d),
           eth_payload_length = frame_length raw - EthernetHeaderLength\<rparr>)"

text \<open>The fourteen bytes every builder writes first.\<close>

definition ethernet_header :: "mac \<Rightarrow> mac \<Rightarrow> nat \<Rightarrow> byte list" where
  "ethernet_header destination source type =
    take EthernetAddressLength destination @ take EthernetAddressLength source @ EthernetWrite16 type"

section \<open>ARP\<close>

definition ArpEthernetIPv4Length :: nat where "ArpEthernetIPv4Length = 28"

datatype ArpOperation = ArpRequest | ArpReply

fun arp_code :: "ArpOperation \<Rightarrow> nat" where
  "arp_code ArpRequest = 1"
| "arp_code ArpReply = 2"

record ArpEthernetIPv4View =
  hardware_type :: nat
  protocol_type :: nat
  hardware_length :: byte
  protocol_length :: byte
  operation :: nat
  sender_hardware :: mac
  sender_protocol :: ip4
  target_hardware :: mac
  target_protocol :: ip4

definition arp_view :: "mem \<Rightarrow> ArpEthernetIPv4View" where
  "arp_view p =
    \<lparr>hardware_type = EthernetRead16 p, protocol_type = EthernetRead16 (drop 2 p),
     hardware_length = p ! 4, protocol_length = p ! 5, operation = EthernetRead16 (drop 6 p),
     sender_hardware = take 6 (drop 8 p), sender_protocol = IPv4CopyAddress (drop 14 p),
     target_hardware = take 6 (drop 18 p), target_protocol = IPv4CopyAddress (drop 24 p)\<rparr>"

text \<open>The source fills the view also when it returns false; callers use it only on success.\<close>

definition ParseArpEthernetIPv4 :: "EthernetFrameView \<Rightarrow> ArpEthernetIPv4View option" where
  "ParseArpEthernetIPv4 ethernet =
    (if eth_type ethernet \<noteq> EthernetType_ARP then None
     else case eth_payload ethernet of
       None \<Rightarrow> None
     | Some p \<Rightarrow>
         if eth_payload_length ethernet < ArpEthernetIPv4Length then None
         else (let arp = arp_view p in
           if hardware_type arp = 1 \<and> protocol_type arp = EthernetType_IPv4 \<and>
              hardware_length arp = 6 \<and> protocol_length arp = 4
           then Some arp else None))"

definition arp_packet :: "ArpOperation \<Rightarrow> mac \<Rightarrow> ip4 \<Rightarrow> mac \<Rightarrow> ip4 \<Rightarrow> byte list" where
  "arp_packet op local_mac local_ip target_mac target_ip =
    EthernetWrite16 1 @ EthernetWrite16 EthernetType_IPv4 @ [6, 4] @ EthernetWrite16 (arp_code op) @
    take 6 local_mac @ take 4 local_ip @ take 6 target_mac @ take 4 target_ip"

definition BuildArpEthernetIPv4Reply ::
  "mem option \<Rightarrow> nat \<Rightarrow> mac \<Rightarrow> ip4 \<Rightarrow> mac \<Rightarrow> ip4 \<Rightarrow> nat \<times> mem option" where
  "BuildArpEthernetIPv4Reply buffer capacity local_mac local_ip target_mac target_ip =
    (let frame_len = EthernetHeaderLength + ArpEthernetIPv4Length in
     case buffer of
       None \<Rightarrow> (0, None)
     | Some buf \<Rightarrow>
         if capacity < frame_len then (0, Some buf)
         else (frame_len, Some (patch buf 0
           (ethernet_header target_mac local_mac EthernetType_ARP @
            arp_packet ArpReply local_mac local_ip target_mac target_ip))))"

definition BuildArpEthernetIPv4Request ::
  "mem option \<Rightarrow> nat \<Rightarrow> mac \<Rightarrow> ip4 \<Rightarrow> ip4 \<Rightarrow> nat \<times> mem option" where
  "BuildArpEthernetIPv4Request buffer capacity local_mac local_ip target_ip =
    (let frame_len = EthernetHeaderLength + ArpEthernetIPv4Length;
         broadcast = replicate 6 0xFF; empty = replicate 6 0 in
     case buffer of
       None \<Rightarrow> (0, None)
     | Some buf \<Rightarrow>
         if capacity < frame_len then (0, Some buf)
         else (frame_len, Some (patch buf 0
           (ethernet_header broadcast local_mac EthernetType_ARP @
            arp_packet ArpRequest local_mac local_ip empty target_ip))))"

section \<open>The internet checksum\<close>

text \<open>The sum of the big-endian 16-bit words, the last byte padded, in a 32-bit accumulator; the
  carries are folded back until none is left.\<close>

fun checksum_add :: "nat \<Rightarrow> byte list \<Rightarrow> nat" where
  "checksum_add acc (a # b # bytes) = checksum_add ((acc + (256 * unat a + unat b)) mod 2 ^ 32) bytes"
| "checksum_add acc [a] = (acc + 256 * unat a) mod 2 ^ 32"
| "checksum_add acc [] = acc"

lemma fold_decreases [termination_simp]:
  "0 < s div 65536 \<Longrightarrow> s mod 65536 + s div 65536 < s" for s :: nat
  using div_mult_mod_eq [of s 65536] by linarith

fun checksum_fold :: "nat \<Rightarrow> nat" where
  "checksum_fold acc =
    (if acc div 65536 \<noteq> 0 then checksum_fold (acc mod 65536 + acc div 65536) else acc)"

declare checksum_fold.simps [simp del]

definition not16 :: "nat \<Rightarrow> nat" where
  "not16 acc = (2 ^ 32 - 1 - acc) mod 2 ^ 16"

definition NetworkChecksum :: "mem \<Rightarrow> nat \<Rightarrow> nat" where
  "NetworkChecksum d len = not16 (checksum_fold (checksum_add 0 (take len d)))"

section \<open>IPv4\<close>

definition IPv4MinHeaderLength :: nat where "IPv4MinHeaderLength = 20"

definition IPv4Protocol_ICMP :: byte where "IPv4Protocol_ICMP = 1"
definition IPv4Protocol_TCP :: byte where "IPv4Protocol_TCP = 6"
definition IPv4Protocol_UDP :: byte where "IPv4Protocol_UDP = 17"

record IPv4PacketView =
  ip_header :: mem
  ip_header_length :: nat
  ip_total_length :: nat
  ip_protocol :: byte
  ip_source :: ip4
  ip_destination :: ip4
  ip_payload :: "mem option"
  ip_payload_length :: nat

definition ParseIPv4Packet :: "EthernetFrameView \<Rightarrow> IPv4PacketView option" where
  "ParseIPv4Packet ethernet =
    (if eth_type ethernet \<noteq> EthernetType_IPv4 then None
     else case eth_payload ethernet of
       None \<Rightarrow> None
     | Some header \<Rightarrow>
         if eth_payload_length ethernet < IPv4MinHeaderLength then None
         else
           (let version = unat (header ! 0) div 16;
                ihl = unat (header ! 0) mod 16;
                header_len = ihl * 4 in
            if version \<noteq> 4 \<or> header_len < IPv4MinHeaderLength \<or> eth_payload_length ethernet < header_len
            then None
            else
              (let total_len = EthernetRead16 (drop 2 header) in
               if total_len < header_len \<or> eth_payload_length ethernet < total_len then None
               else if NetworkChecksum header header_len \<noteq> 0 then None
               else Some \<lparr>ip_header = header, ip_header_length = header_len, ip_total_length = total_len,
                 ip_protocol = header ! 9, ip_source = IPv4CopyAddress (drop 12 header),
                 ip_destination = IPv4CopyAddress (drop 16 header),
                 ip_payload = Some (drop header_len header), ip_payload_length = total_len - header_len\<rparr>)))"

text \<open>The twenty bytes of a header: first with checksum zero, then with the checksum of that.\<close>

definition BuildIPv4Header :: "ip4 \<Rightarrow> ip4 \<Rightarrow> byte \<Rightarrow> nat \<Rightarrow> nat \<Rightarrow> byte \<Rightarrow> byte list" where
  "BuildIPv4Header source destination protocol total_len identification ttl =
    (let header = [0x45, 0] @ EthernetWrite16 total_len @ EthernetWrite16 identification @
           EthernetWrite16 0 @ [ttl, protocol] @ EthernetWrite16 0 @
           take IPv4AddressLength source @ take IPv4AddressLength destination
     in patch header 10 (EthernetWrite16 (NetworkChecksum header IPv4MinHeaderLength)))"

section \<open>ICMP echo\<close>

definition ICMPv4HeaderLength :: nat where "ICMPv4HeaderLength = 8"

definition ICMPv4Type_EchoReply :: byte where "ICMPv4Type_EchoReply = 0"
definition ICMPv4Type_EchoRequest :: byte where "ICMPv4Type_EchoRequest = 8"

record ICMPv4EchoView =
  echo_header :: mem
  echo_payload :: mem
  echo_payload_length :: nat

definition ParseICMPv4EchoRequest :: "IPv4PacketView \<Rightarrow> ICMPv4EchoView option" where
  "ParseICMPv4EchoRequest ipv4 =
    (if ip_protocol ipv4 \<noteq> IPv4Protocol_ICMP then None
     else case ip_payload ipv4 of
       None \<Rightarrow> None
     | Some p \<Rightarrow>
         if ip_payload_length ipv4 < ICMPv4HeaderLength then None
         else if p ! 0 \<noteq> ICMPv4Type_EchoRequest \<or> p ! 1 \<noteq> 0 then None
         else if NetworkChecksum p (ip_payload_length ipv4) \<noteq> 0 then None
         else Some \<lparr>echo_header = p, echo_payload = drop ICMPv4HeaderLength p,
           echo_payload_length = ip_payload_length ipv4 - ICMPv4HeaderLength\<rparr>)"

text \<open>The reply repeats the message with another type and a new checksum.  The request is a packet
  that was accepted before, so its payload pointer is not null.\<close>

definition echo_reply :: "mem \<Rightarrow> nat \<Rightarrow> byte list" where
  "echo_reply request icmp_length =
    (let icmp = patch (take icmp_length request) 0 [ICMPv4Type_EchoReply, 0, 0, 0]
     in patch icmp 2 (EthernetWrite16 (NetworkChecksum icmp icmp_length)))"

definition BuildICMPv4EchoReply ::
  "mem option \<Rightarrow> nat \<Rightarrow> mac \<Rightarrow> mac \<Rightarrow> ip4 \<Rightarrow> IPv4PacketView \<Rightarrow> nat \<times> mem option" where
  "BuildICMPv4EchoReply buffer capacity local_mac target_mac local_ip request =
    (let icmp_length = ip_payload_length request;
         ipv4_length = u64 (IPv4MinHeaderLength + icmp_length);
         frame_len = u64 (EthernetHeaderLength + ipv4_length) in
     case (buffer, ip_payload request) of
       (Some buf, Some icmp) \<Rightarrow>
         if capacity < frame_len \<or> icmp_length < ICMPv4HeaderLength then (0, Some buf)
         else (frame_len, Some (patch buf 0
           (ethernet_header target_mac local_mac EthernetType_IPv4 @
            BuildIPv4Header local_ip (ip_source request) IPv4Protocol_ICMP (ipv4_length mod 2 ^ 16)
              (EthernetRead16 (drop 4 (ip_header request))) 64 @
            echo_reply icmp icmp_length)))
     | _ \<Rightarrow> (0, buffer))"

section \<open>Properties of the checksum\<close>

fun sum16 :: "byte list \<Rightarrow> nat" where
  "sum16 (a # b # bytes) = 256 * unat a + unat b + sum16 bytes"
| "sum16 [a] = 256 * unat a"
| "sum16 [] = 0"

lemma checksum_add_sum16: "s < 2 ^ 32 \<Longrightarrow> checksum_add s bytes = (s + sum16 bytes) mod 2 ^ 32"
  by (induction s bytes rule: checksum_add.induct) (simp_all add: mod_simps add.assoc)

lemma sum16_append: "even (length a) \<Longrightarrow> sum16 (a @ b) = sum16 a + sum16 b"
  by (induction a rule: sum16.induct) auto

lemma sum16_bound: "2 * sum16 bytes \<le> 65535 * (length bytes + 1)"
proof (induction bytes rule: sum16.induct)
  case (1 a b bytes)
  then show ?case using byte_less [of a] byte_less [of b] by simp
next
  case (2 a)
  then show ?case using byte_less [of a] by simp
qed simp

lemma sum16_Write16: "v < 65536 \<Longrightarrow> sum16 (EthernetWrite16 v @ rest) = v + sum16 rest"
  by (simp add: EthernetWrite16_def unat_byte)

lemma checksum_add_short: "length bytes \<le> 131000 \<Longrightarrow> checksum_add 0 bytes = sum16 bytes"
  using sum16_bound [of bytes] by (simp add: checksum_add_sum16)

lemma checksum_fold_props:
  "checksum_fold s \<le> 65535 \<and> checksum_fold s mod 65535 = s mod 65535 \<and> (checksum_fold s = 0 \<longleftrightarrow> s = 0)"
proof (induction s rule: checksum_fold.induct)
  case (1 s)
  show ?case
  proof (cases "s div 65536 = 0")
    case True
    then show ?thesis by (auto simp: checksum_fold.simps [of s])
  next
    case False
    have "s = 65535 * (s div 65536) + (s mod 65536 + s div 65536)"
      using div_mult_mod_eq [of s 65536] by simp
    then have "(s mod 65536 + s div 65536) mod 65535 = s mod 65535" by (metis mod_mult_self4)
    moreover have "s mod 65536 + s div 65536 \<noteq> 0" "s \<noteq> 0" using False by auto
    ultimately show ?thesis using 1 [OF False] by (simp add: checksum_fold.simps [of s] False)
  qed
qed

lemmas checksum_fold_le = checksum_fold_props [THEN conjunct1]
lemmas checksum_fold_mod = checksum_fold_props [THEN conjunct2, THEN conjunct1]
lemmas checksum_fold_0 = checksum_fold_props [THEN conjunct2, THEN conjunct2]

lemma not16_le: "n \<le> 65535 \<Longrightarrow> not16 n = 65535 - n"
proof -
  assume "n \<le> 65535"
  then have eq: "2 ^ 32 - 1 - n = (65535 - n) + 2 ^ 16 * 65535" by simp
  have "((65535 - n) + 2 ^ 16 * 65535) mod 2 ^ 16 = (65535 - n) mod 2 ^ 16" by (rule mod_mult_self2)
  then show ?thesis unfolding not16_def eq by simp
qed

lemma not16_fold: "not16 (checksum_fold s) = 65535 - checksum_fold s"
  by (rule not16_le [OF checksum_fold_le])

text \<open>Adding the complement of a sum to the sum makes it fold to \<open>0xFFFF\<close>.\<close>

lemma checksum_fold_complement: "checksum_fold (s + not16 (checksum_fold s)) = 65535"
proof -
  let ?t = "s + not16 (checksum_fold s)"
  have "?t mod 65535 = (checksum_fold s + (65535 - checksum_fold s)) mod 65535"
    unfolding not16_fold by (rule mod_add_cong) (simp_all only: checksum_fold_mod)
  also have "\<dots> = 0" using checksum_fold_le [of s] by simp
  finally have "checksum_fold ?t mod 65535 = 0" using checksum_fold_mod [of ?t] by simp
  moreover have "checksum_fold ?t \<noteq> 0"
    using checksum_fold_0 [of ?t] checksum_fold_0 [of s] by (auto simp: not16_fold)
  ultimately show ?thesis using checksum_fold_le [of ?t] by (cases "checksum_fold ?t = 65535") auto
qed


lemma NetworkChecksum_less: "NetworkChecksum d n < 65536"
  by (simp add: NetworkChecksum_def not16_def)

lemma sum16_patch:
  assumes "even i" "i + 2 \<le> length xs" "v < 65536"
  shows "sum16 (patch xs i (EthernetWrite16 v)) = sum16 (patch xs i (EthernetWrite16 0)) + v"
  using assms sum16_Write16 [of _ "[]"] by (simp add: patch_def sum16_append sum16_Write16)

text \<open>A message that carries the checksum of itself with an empty checksum field sums up to zero.\<close>

lemma checksum_valid:
  assumes "even i" "i + 2 \<le> length xs" "length xs \<le> 131000" "patch xs i (EthernetWrite16 0) = xs"
  shows "NetworkChecksum (patch xs i (EthernetWrite16 (NetworkChecksum xs (length xs))) @ rest) (length xs) = 0"
proof -
  let ?c = "NetworkChecksum xs (length xs)"
  have len: "length (patch xs i (EthernetWrite16 ?c)) = length xs" using assms(2) by simp
  have c: "?c = not16 (checksum_fold (sum16 xs))"
    using assms(3) by (simp add: NetworkChecksum_def checksum_add_short)
  have "sum16 (patch xs i (EthernetWrite16 ?c)) = sum16 xs + ?c"
    using sum16_patch [OF assms(1,2) NetworkChecksum_less] assms(4) by simp
  then show ?thesis
    using len assms(3) c checksum_fold_complement [of "sum16 xs"]
    by (simp add: NetworkChecksum_def checksum_add_short not16_le)
qed

lemma Write16_0 [simp]: "EthernetWrite16 0 = [0, 0]"
  by (simp add: EthernetWrite16_def)

lemma length_BuildIPv4Header [simp]:
  "length source = 4 \<Longrightarrow> length destination = 4 \<Longrightarrow>
   length (BuildIPv4Header source destination protocol n ident ttl) = 20"
  by (simp add: BuildIPv4Header_def Let_def IPv4AddressLength_def)

lemma BuildIPv4Header_bytes:
  assumes "length source = 4" "length destination = 4"
  shows "\<exists>c. BuildIPv4Header source destination protocol n ident ttl =
    [0x45, 0] @ EthernetWrite16 n @ EthernetWrite16 ident @ [0, 0, ttl, protocol] @ EthernetWrite16 c @
    source @ destination"
  using assms by (auto simp: BuildIPv4Header_def Let_def IPv4AddressLength_def patch_def EthernetWrite16_def)

lemma BuildIPv4Header_checksum:
  assumes "length source = 4" "length destination = 4"
  shows "NetworkChecksum (BuildIPv4Header source destination protocol n ident ttl @ rest) 20 = 0"
proof -
  let ?h = "[0x45, 0] @ EthernetWrite16 n @ EthernetWrite16 ident @ EthernetWrite16 0 @ [ttl, protocol] @
    EthernetWrite16 0 @ source @ destination"
  have len: "length ?h = 20" using assms by simp
  have "patch ?h 10 (EthernetWrite16 0) = ?h" by (simp add: patch_def EthernetWrite16_def)
  with checksum_valid [of 10 ?h rest] len assms show ?thesis
    by (simp add: BuildIPv4Header_def Let_def IPv4AddressLength_def IPv4MinHeaderLength_def)
qed

lemma ParseEthernet_built:
  assumes "length destination = 6" "length source = 6" "type < 65536"
  shows "ParseEthernetFrame \<lparr>frame_data = Some (ethernet_header destination source type @ body),
      frame_length = 14 + n\<rparr> =
    Some \<lparr>eth_destination = destination, eth_source = source, eth_type = type, eth_payload = Some body,
      eth_payload_length = n\<rparr>"
  using assms
  by (simp add: ParseEthernetFrame_def EthernetHeaderLength_def ethernet_header_def
      EthernetAddressLength_def Read16_Write16)

lemma ParseIPv4_built:
  assumes "length source = 4" "length destination = 4" "20 \<le> n" "n < 65536" "n \<le> m"
  shows "ParseIPv4Packet \<lparr>eth_destination = dm, eth_source = sm, eth_type = EthernetType_IPv4,
      eth_payload = Some (BuildIPv4Header source destination protocol n ident ttl @ body),
      eth_payload_length = m\<rparr> =
    Some \<lparr>ip_header = BuildIPv4Header source destination protocol n ident ttl @ body,
      ip_header_length = 20, ip_total_length = n, ip_protocol = protocol, ip_source = source,
      ip_destination = destination, ip_payload = Some body, ip_payload_length = n - 20\<rparr>"
proof -
  obtain c where h: "BuildIPv4Header source destination protocol n ident ttl =
      [0x45, 0] @ EthernetWrite16 n @ EthernetWrite16 ident @ [0, 0, ttl, protocol] @ EthernetWrite16 c @
      source @ destination"
    using BuildIPv4Header_bytes [OF assms(1,2)] by blast
  note ck = BuildIPv4Header_checksum [OF assms(1,2), of protocol n ident ttl body]
  show ?thesis
    using assms ck unfolding h
    by (simp add: ParseIPv4Packet_def IPv4MinHeaderLength_def IPv4CopyAddress_def IPv4AddressLength_def
        Read16_Write16 Let_def) (simp add: EthernetWrite16_def)
qed


section \<open>Building and parsing packets\<close>

text \<open>C23. A packet is parsed as it was built: the frame made of the Ethernet header, the IPv4 header
  with the checksum of \<open>BuildIPv4Header\<close>, the payload and any padding is accepted by the two
  parsers, which deliver its addresses, protocol and exactly its payload.\<close>

theorem ipv4_frame_roundtrip:
  assumes "length destination_mac = 6" "length source_mac = 6" "length source = 4" "length destination = 4"
    "20 + length payload < 65536"
  shows "\<exists>header. Option.bind (ParseEthernetFrame
      \<lparr>frame_data = Some (ethernet_header destination_mac source_mac EthernetType_IPv4 @
         BuildIPv4Header source destination protocol (20 + length payload) ident ttl @ payload @ padding),
       frame_length = 34 + length payload + length padding\<rparr>) ParseIPv4Packet =
    Some \<lparr>ip_header = header, ip_header_length = 20, ip_total_length = 20 + length payload,
      ip_protocol = protocol, ip_source = source, ip_destination = destination,
      ip_payload = Some (payload @ padding), ip_payload_length = length payload\<rparr>"
proof -
  have "EthernetType_IPv4 < 65536" by (simp add: EthernetType_IPv4_def)
  note eth = ParseEthernet_built [OF assms(1,2) this, where n = "20 + length payload + length padding"]
  note ip = ParseIPv4_built [OF assms(3,4), of "20 + length payload"]
  have "34 + length payload + length padding = 14 + (20 + length payload + length padding)" by simp
  then show ?thesis using assms(5) ip eth by (simp only:) simp
qed

definition sample_ip :: ip4 where "sample_ip = [10, 0, 2, 15]"
definition sample_peer :: ip4 where "sample_peer = [10, 0, 2, 2]"
definition sample_mac :: mac where "sample_mac = [2, 0, 0, 0, 0, 1]"

theorem ipv4_frame_roundtrip_witness:
  "\<exists>header. Option.bind (ParseEthernetFrame
      \<lparr>frame_data = Some (ethernet_header sample_mac sample_mac EthernetType_IPv4 @
         BuildIPv4Header sample_ip sample_peer 17 23 9 64 @ [1, 2, 3] @ [0, 0]),
       frame_length = 39\<rparr>) ParseIPv4Packet =
    Some \<lparr>ip_header = header, ip_header_length = 20, ip_total_length = 23, ip_protocol = 17,
      ip_source = sample_ip, ip_destination = sample_peer, ip_payload = Some [1, 2, 3, 0, 0],
      ip_payload_length = 3\<rparr>"
  using ipv4_frame_roundtrip [of sample_mac sample_mac sample_ip sample_peer "[1, 2, 3]" 17 9 64 "[0, 0]"]
  by (simp add: sample_mac_def sample_ip_def sample_peer_def numeral_3_eq_3)

text \<open>The reply to an ARP request is parsed as that reply.\<close>

lemma arp_reply_roundtrip:
  assumes "length local_mac = 6" "length target_mac = 6" "length local_ip = 4" "length target_ip = 4"
    "42 \<le> length buf" "42 \<le> capacity"
  shows "\<exists>buf'. BuildArpEthernetIPv4Reply (Some buf) capacity local_mac local_ip target_mac target_ip =
      (42, Some buf') \<and>
    Option.bind (ParseEthernetFrame \<lparr>frame_data = Some buf', frame_length = 42\<rparr>) ParseArpEthernetIPv4 =
    Some \<lparr>hardware_type = 1, protocol_type = EthernetType_IPv4, hardware_length = 6, protocol_length = 4,
      operation = arp_code ArpReply, sender_hardware = local_mac, sender_protocol = local_ip,
      target_hardware = target_mac, target_protocol = target_ip\<rparr>"
proof -
  let ?body = "arp_packet ArpReply local_mac local_ip target_mac target_ip"
  have "EthernetType_ARP < 65536" by (simp add: EthernetType_ARP_def)
  note eth = ParseEthernet_built [OF assms(2,1) this, where n = 28 and body = "?body @ drop 42 buf"]
  have len: "length (ethernet_header target_mac local_mac EthernetType_ARP @ ?body) = 42"
    using assms by (simp add: ethernet_header_def arp_packet_def EthernetAddressLength_def)
  then have buf: "patch buf 0 (ethernet_header target_mac local_mac EthernetType_ARP @ ?body) =
      ethernet_header target_mac local_mac EthernetType_ARP @ ?body @ drop 42 buf"
    by (simp add: patch_def)
  have "arp_view (?body @ drop 42 buf) =
    \<lparr>hardware_type = 1, protocol_type = EthernetType_IPv4, hardware_length = 6, protocol_length = 4,
      operation = arp_code ArpReply, sender_hardware = local_mac, sender_protocol = local_ip,
      target_hardware = target_mac, target_protocol = target_ip\<rparr>"
    using assms by (simp add: arp_view_def arp_packet_def EthernetType_IPv4_def Read16_Write16
        IPv4CopyAddress_def IPv4AddressLength_def nth_append)
  then show ?thesis
    using assms eth by (simp add: BuildArpEthernetIPv4Reply_def EthernetHeaderLength_def
        ArpEthernetIPv4Length_def buf ParseArpEthernetIPv4_def)
qed

lemma echo_reply_props:
  assumes "8 \<le> n" "n \<le> length request" "n \<le> 131000"
  shows "length (echo_reply request n) = n" "NetworkChecksum (echo_reply request n @ rest) n = 0"
    "echo_reply request n ! 0 = ICMPv4Type_EchoReply" "echo_reply request n ! 1 = 0"
    "drop 4 (echo_reply request n) = take (n - 4) (drop 4 request)"
proof -
  let ?m = "patch (take n request) 0 [ICMPv4Type_EchoReply, 0, 0, 0]"
  have len: "length ?m = n" using assms by simp
  have zero: "patch ?m 2 (EthernetWrite16 0) = ?m"
    using assms by (intro nth_equalityI) (auto simp: nth_patch nth_Cons')
  have e: "echo_reply request n = patch ?m 2 (EthernetWrite16 (NetworkChecksum ?m n))"
    by (simp add: echo_reply_def Let_def)
  show "length (echo_reply request n) = n" unfolding e using assms len by simp
  show "NetworkChecksum (echo_reply request n @ rest) n = 0"
    using checksum_valid [of 2 ?m rest] zero len assms by (simp add: e)
  show "echo_reply request n ! 0 = ICMPv4Type_EchoReply" "echo_reply request n ! 1 = 0"
    unfolding e using assms len by (simp_all add: nth_patch)
  show "drop 4 (echo_reply request n) = take (n - 4) (drop 4 request)"
    unfolding e using assms(1,2) len by (simp add: patch_def drop_take numeral_eq_Suc)
qed

text \<open>C24. The reply to an accepted echo request is a well-formed echo reply: the frame is complete,
  parses as an IPv4 packet from this host to the sender of the request, its ICMP checksum is
  correct, its type is echo reply, and identifier, sequence number and data are those of the
  request.\<close>

theorem icmp_echo_reply_correct:
  assumes "ParseICMPv4EchoRequest request = Some echo" "ip_payload request = Some p"
    "ip_payload_length request \<le> length p" "ip_payload_length request < 65516"
    "length local_mac = 6" "length target_mac = 6" "length local_ip = 4" "length (ip_source request) = 4"
    "34 + ip_payload_length request \<le> capacity" "capacity \<le> length buf"
  shows "\<exists>n buf' packet reply. BuildICMPv4EchoReply (Some buf) capacity local_mac target_mac local_ip request =
      (n, Some buf') \<and>
    Option.bind (ParseEthernetFrame \<lparr>frame_data = Some buf', frame_length = n\<rparr>) ParseIPv4Packet = Some packet \<and>
    ip_protocol packet = IPv4Protocol_ICMP \<and> ip_source packet = local_ip \<and>
    ip_destination packet = ip_source request \<and> ip_payload packet = Some reply \<and>
    ip_payload_length packet = ip_payload_length request \<and>
    NetworkChecksum reply (ip_payload_length packet) = 0 \<and>
    reply ! 0 = ICMPv4Type_EchoReply \<and> reply ! 1 = 0 \<and>
    take (ip_payload_length request - 4) (drop 4 reply) = take (ip_payload_length request - 4) (drop 4 p)"
proof -
  let ?n = "ip_payload_length request"
  let ?eth = "ethernet_header target_mac local_mac EthernetType_IPv4"
  let ?ip = "BuildIPv4Header local_ip (ip_source request) IPv4Protocol_ICMP (20 + ?n)
    (EthernetRead16 (drop 4 (ip_header request))) 64"
  let ?rest = "drop (34 + ?n) buf"
  let ?reply = "echo_reply p ?n @ ?rest"
  have n: "8 \<le> ?n"
    using assms(1,2) by (auto simp: ParseICMPv4EchoRequest_def ICMPv4HeaderLength_def split: if_splits)
  note e = echo_reply_props [OF n assms(3)]
  have len: "length (?eth @ ?ip @ echo_reply p ?n) = 34 + ?n"
    using assms e(1) by (simp add: ethernet_header_def EthernetAddressLength_def)
  have buf: "patch buf 0 (?eth @ ?ip @ echo_reply p ?n) = ?eth @ ?ip @ ?reply"
    unfolding patch_def len by simp
  have built: "BuildICMPv4EchoReply (Some buf) capacity local_mac target_mac local_ip request =
      (34 + ?n, Some (?eth @ ?ip @ ?reply))"
    using assms n buf by (simp add: BuildICMPv4EchoReply_def Let_def IPv4MinHeaderLength_def
        EthernetHeaderLength_def ICMPv4HeaderLength_def)
  have "EthernetType_IPv4 < 65536" by (simp add: EthernetType_IPv4_def)
  note eth = ParseEthernet_built [OF assms(6,5) this, where n = "20 + ?n" and body = "?ip @ ?reply"]
  note ip = ParseIPv4_built [OF assms(7,8), of "20 + ?n" "20 + ?n"]
  have "?reply ! 0 = ICMPv4Type_EchoReply" "?reply ! 1 = 0"
    "take (?n - 4) (drop 4 ?reply) = take (?n - 4) (drop 4 p)"
    using e assms(3,4) n by (simp_all add: nth_append)
  moreover have "NetworkChecksum ?reply ?n = 0" using e(2) assms(4) by simp
  ultimately show ?thesis
    using built eth ip [simplified] assms(4) by (auto simp: add.assoc)
qed


definition sample_echo :: IPv4PacketView where
  "sample_echo = \<lparr>ip_header = BuildIPv4Header sample_peer sample_ip 1 30 7 64,
    ip_header_length = 20, ip_total_length = 30, ip_protocol = 1, ip_source = sample_peer,
    ip_destination = sample_ip, ip_payload = Some [8, 0, 0xF6, 0xFB, 0, 1, 0, 1, 1, 2], ip_payload_length = 10\<rparr>"

lemma sample_echo_accepted:
  "ParseICMPv4EchoRequest sample_echo = Some \<lparr>echo_header = [8, 0, 0xF6, 0xFB, 0, 1, 0, 1, 1, 2],
    echo_payload = [1, 2], echo_payload_length = 2\<rparr>"
proof -
  have "NetworkChecksum [8, 0, 0xF6, 0xFB, 0, 1, 0, 1, 1, 2] 10 = 0"
    by (simp add: NetworkChecksum_def checksum_fold.simps not16_def)
  then show ?thesis
    by (simp add: sample_echo_def ParseICMPv4EchoRequest_def IPv4Protocol_ICMP_def ICMPv4HeaderLength_def
        ICMPv4Type_EchoRequest_def)
qed

theorem icmp_echo_reply_correct_witness:
  "\<exists>n buf' packet reply. BuildICMPv4EchoReply (Some (replicate 64 0)) 64 sample_mac sample_mac sample_ip sample_echo =
      (n, Some buf') \<and>
    Option.bind (ParseEthernetFrame \<lparr>frame_data = Some buf', frame_length = n\<rparr>) ParseIPv4Packet = Some packet \<and>
    ip_destination packet = sample_peer \<and> ip_payload packet = Some reply \<and>
    take 6 (drop 4 reply) = [0, 1, 0, 1, 1, 2]"
proof -
  have s: "ip_payload sample_echo = Some [8, 0, 0xF6, 0xFB, 0, 1, 0, 1, 1, 2]"
    "ip_payload_length sample_echo = 10" "ip_source sample_echo = sample_peer"
    by (simp_all add: sample_echo_def)
  have "length sample_mac = 6" "length sample_ip = 4" "length sample_peer = 4"
    by (simp_all add: sample_mac_def sample_ip_def sample_peer_def)
  then show ?thesis
    using icmp_echo_reply_correct [OF sample_echo_accepted s(1), of sample_mac sample_mac sample_ip 64 "replicate 64 0"] s
    by auto
qed


end
