(* ===== verification/UDP.thy ===== *)
theory UDP
  imports NetIP
begin

text \<open>
  The transport interface of \<open>src/inc/cpp/System/Network/Layer/Transport.hpp\<close> and UDP:
  \<open>Transport/UDP.hpp\<close> and \<open>src/lib/cpp/System/Network/Layer/Transport/UDP.cpp\<close>.

  The network below a socket is the abstract class \<open>NetworkInterface\<close>; its virtual operations are
  the fields of a record, so that a socket works over any network.
\<close>

section \<open>The transport interface\<close>

record NetworkInterface =
  net_getAddress :: NetworkAddress
  net_getPayloadMtu :: nat
  net_SendPacket :: "NetworkPacketContext \<Rightarrow> int"

record TransportEndpoint =
  ep_address :: NetworkAddress
  ep_port :: nat

record TransportConnectionContext =
  conn_local :: TransportEndpoint
  conn_remote :: TransportEndpoint

record TransportPayloadContext =
  tp_connection :: TransportConnectionContext
  tp_payload :: "mem option"
  tp_payload_length :: nat

definition no_address :: NetworkAddress where
  "no_address = \<lparr>family = Unspec, alen = 0, aoctet = replicate 16 0\<rparr>"

definition no_endpoint :: TransportEndpoint where
  "no_endpoint = \<lparr>ep_address = no_address, ep_port = 0\<rparr>"

section \<open>Datagrams\<close>

definition UDPHeaderLength :: nat where "UDPHeaderLength = 8"

record UDPDatagramView =
  udp_header :: mem
  udp_source_port :: nat
  udp_destination_port :: nat
  udp_length :: nat
  udp_checksum :: nat
  udp_payload :: mem
  udp_payload_length :: nat

definition ParseUDPDatagram :: "IPv4PacketView \<Rightarrow> UDPDatagramView option" where
  "ParseUDPDatagram ipv4 =
    (if ip_protocol ipv4 \<noteq> IPv4Protocol_UDP then None
     else case ip_payload ipv4 of
       None \<Rightarrow> None
     | Some header \<Rightarrow>
         if ip_payload_length ipv4 < UDPHeaderLength then None
         else
           (let len = EthernetRead16 (drop 4 header) in
            if len < UDPHeaderLength \<or> ip_payload_length ipv4 < len then None
            else Some \<lparr>udp_header = header, udp_source_port = EthernetRead16 header,
              udp_destination_port = EthernetRead16 (drop 2 header), udp_length = len,
              udp_checksum = EthernetRead16 (drop 6 header), udp_payload = drop UDPHeaderLength header,
              udp_payload_length = len - UDPHeaderLength\<rparr>))"

definition BuildUDPHeader :: "nat \<Rightarrow> nat \<Rightarrow> nat \<Rightarrow> nat \<Rightarrow> byte list" where
  "BuildUDPHeader source_port destination_port len checksum =
    EthernetWrite16 source_port @ EthernetWrite16 destination_port @ EthernetWrite16 len @
    EthernetWrite16 checksum"

definition UDPChecksumAddBytes :: "nat \<Rightarrow> byte list \<Rightarrow> nat \<Rightarrow> nat" where
  "UDPChecksumAddBytes acc bytes len = checksum_add acc (take len bytes)"

definition UDPChecksumFold :: "nat \<Rightarrow> nat" where
  "UDPChecksumFold acc =
    (let checksum = not16 (checksum_fold acc) in if checksum \<noteq> 0 then checksum else 0xFFFF)"

definition UDPIPv4Checksum :: "ip4 \<Rightarrow> ip4 \<Rightarrow> mem \<Rightarrow> nat \<Rightarrow> nat" where
  "UDPIPv4Checksum source destination udp_packet len =
    (let acc = UDPChecksumAddBytes 0 source IPv4AddressLength;
         acc = UDPChecksumAddBytes acc destination IPv4AddressLength;
         acc = (acc + 17) mod 2 ^ 32;
         acc = (acc + len mod 2 ^ 16) mod 2 ^ 32;
         acc = UDPChecksumAddBytes acc udp_packet len in
     UDPChecksumFold acc)"

definition ValidateUDPIPv4Checksum :: "IPv4PacketView \<Rightarrow> UDPDatagramView \<Rightarrow> bool" where
  "ValidateUDPIPv4Checksum ipv4 datagram =
    (if udp_checksum datagram = 0 then True
     else UDPIPv4Checksum (ip_source ipv4) (ip_destination ipv4) (udp_header datagram) (udp_length datagram)
       = 0xFFFF)"

section \<open>The socket\<close>

record UDPObject =
  u_network :: "NetworkInterface option"
  u_packet_buffer :: "mem option"
  u_packet_capacity :: nat
  u_local :: TransportEndpoint
  u_remote :: TransportEndpoint
  u_identification :: nat
  u_bound :: bool
  u_connected :: bool

definition UDPObject_new :: "NetworkInterface option \<Rightarrow> mem option \<Rightarrow> nat \<Rightarrow> UDPObject" where
  "UDPObject_new network packet_buffer packet_capacity =
    \<lparr>u_network = network, u_packet_buffer = packet_buffer, u_packet_capacity = packet_capacity,
     u_local = no_endpoint, u_remote = no_endpoint, u_identification = 1, u_bound = False,
     u_connected = False\<rparr>"

definition UDPObject_setNetwork :: "NetworkInterface option \<Rightarrow> UDPObject \<Rightarrow> UDPObject" where
  "UDPObject_setNetwork network u = u\<lparr>u_network := network\<rparr>"

definition UDPObject_setPacketBuffer :: "mem option \<Rightarrow> nat \<Rightarrow> UDPObject \<Rightarrow> UDPObject" where
  "UDPObject_setPacketBuffer packet_buffer packet_capacity u =
    u\<lparr>u_packet_buffer := packet_buffer, u_packet_capacity := packet_capacity\<rparr>"

definition UDPObject_setIdentification :: "nat \<Rightarrow> UDPObject \<Rightarrow> UDPObject" where
  "UDPObject_setIdentification identification u = u\<lparr>u_identification := identification\<rparr>"

definition UDPObject_Bind :: "TransportEndpoint \<Rightarrow> UDPObject \<Rightarrow> int \<times> UDPObject" where
  "UDPObject_Bind loc u =
    (if ep_port loc = 0 \<or> NetworkAddress_isZero (ep_address loc) then (-1, u)
     else (0, u\<lparr>u_local := loc, u_bound := True\<rparr>))"

definition UDPObject_Connect :: "TransportEndpoint \<Rightarrow> UDPObject \<Rightarrow> int \<times> UDPObject" where
  "UDPObject_Connect remote u =
    (if ep_port remote = 0 \<or> NetworkAddress_isZero (ep_address remote) then (-1, u)
     else (0, u\<lparr>u_remote := remote, u_connected := True\<rparr>))"

text \<open>The datagram in the packet buffer: the header with checksum zero, the payload, then the checksum
  over both.\<close>

definition udp_packet :: "ip4 \<Rightarrow> ip4 \<Rightarrow> nat \<Rightarrow> nat \<Rightarrow> mem \<Rightarrow> nat \<Rightarrow> byte list" where
  "udp_packet source destination source_port destination_port payload len =
    (let udp_length = u64 (UDPHeaderLength + len);
         udp = BuildUDPHeader source_port destination_port (udp_length mod 2 ^ 16) 0 @ take len payload
     in patch udp 6 (EthernetWrite16 (UDPIPv4Checksum source destination udp udp_length)))"

definition UDPObject_BuildPacket ::
  "TransportPayloadContext \<Rightarrow> UDPObject \<Rightarrow> int \<times> NetworkPacketContext option \<times> UDPObject" where
  "UDPObject_BuildPacket payload u =
    (case (u_network u, u_packet_buffer u) of
       (Some network, Some packet_buffer) \<Rightarrow>
         if tp_payload payload = None \<and> tp_payload_length payload \<noteq> 0 then (-1, None, u)
         else
           (let conn = tp_connection payload;
                loc = (if ep_port (conn_local conn) \<noteq> 0 then conn_local conn else u_local u);
                remote = (if ep_port (conn_remote conn) \<noteq> 0 then conn_remote conn else u_remote u) in
            if ep_port loc = 0 \<or> ep_port remote = 0 \<or> NetworkAddress_isZero (ep_address remote)
            then (-1, None, u)
            else
              (let loc = (if NetworkAddress_isZero (ep_address loc)
                          then loc\<lparr>ep_address := net_getAddress network\<rparr> else loc) in
               case (NetworkReadIPv4Address (ep_address loc), NetworkReadIPv4Address (ep_address remote)) of
                 (Some source, Some destination) \<Rightarrow>
                   (let udp_length = u64 (UDPHeaderLength + tp_payload_length payload) in
                    if udp_length > u_packet_capacity u \<or> udp_length > net_getPayloadMtu network
                    then (-1, None, u)
                    else
                      (let data = (case tp_payload payload of None \<Rightarrow> [] | Some d \<Rightarrow> d);
                           buffer = patch packet_buffer 0 (udp_packet source destination (ep_port loc)
                             (ep_port remote) data (tp_payload_length payload)) in
                       (int (tp_payload_length payload),
                        Some \<lparr>npc_source = ep_address loc, npc_destination = ep_address remote,
                          npc_protocol = IPv4Protocol_UDP, npc_payload = buffer,
                          npc_payload_length = udp_length, npc_identification = u_identification u,
                          npc_ttl = 64\<rparr>,
                        u\<lparr>u_packet_buffer := Some buffer,
                          u_identification := (u_identification u + 1) mod 2 ^ 16\<rparr>)))
               | _ \<Rightarrow> (-1, None, u)))
     | _ \<Rightarrow> (-1, None, u))"

definition UDPObject_Send :: "TransportPayloadContext \<Rightarrow> UDPObject \<Rightarrow> int \<times> UDPObject" where
  "UDPObject_Send payload u =
    (case UDPObject_BuildPacket payload u of
       (built, None, u) \<Rightarrow> (built, u)
     | (built, Some packet, u) \<Rightarrow>
         (case u_network u of
            None \<Rightarrow> (built, u)
          | Some network \<Rightarrow>
              (let sent = net_SendPacket network packet in
               (if sent > 0 then int (tp_payload_length payload) else sent, u))))"

text \<open>A datagram socket does not listen, accept, receive or take controls: each of these operations
  fails and changes nothing.\<close>

definition UDPObject_Listen :: "nat \<Rightarrow> UDPObject \<Rightarrow> int \<times> UDPObject" where
  "UDPObject_Listen n u = (-1, u)"

definition UDPObject_Accept :: "TransportConnectionContext \<Rightarrow> UDPObject \<Rightarrow> int \<times> TransportConnectionContext \<times> UDPObject" where
  "UDPObject_Accept connection u = (-1, connection, u)"

definition UDPObject_Receive :: "UDPObject \<Rightarrow> int \<times> UDPObject" where
  "UDPObject_Receive u = (-1, u)"

definition UDPObject_Control :: "nat \<Rightarrow> UDPObject \<Rightarrow> int \<times> UDPObject" where
  "UDPObject_Control command u = (-1, u)"

section \<open>What is sent is what arrives\<close>

lemma UDPIPv4Checksum_sum16:
  assumes "len \<le> 65535"
  shows "UDPIPv4Checksum source destination pkt len = UDPChecksumFold
    (sum16 (take 4 source) + sum16 (take 4 destination) + 17 + len + sum16 (take len pkt))"
proof -
  let ?s = "sum16 (take 4 source) + sum16 (take 4 destination) + 17 + len + sum16 (take len pkt)"
  have b: "2 * sum16 (take 4 source) \<le> 65535 * 5" "2 * sum16 (take 4 destination) \<le> 65535 * 5"
    "2 * sum16 (take len pkt) \<le> 65535 * 65536"
    using sum16_bound [of "take 4 source"] sum16_bound [of "take 4 destination"]
      sum16_bound [of "take len pkt"] assms by (auto simp: min_def split: if_splits)
  then have "?s < 2 ^ 32" using assms by simp
  then show ?thesis
    using b assms
    by (simp add: UDPIPv4Checksum_def UDPChecksumAddBytes_def checksum_add_sum16 IPv4AddressLength_def)
qed

lemma UDPChecksumFold_range: "0 < UDPChecksumFold s" "UDPChecksumFold s < 65536"
  by (auto simp: UDPChecksumFold_def Let_def not16_def)

lemma UDPChecksumFold_valid: "UDPChecksumFold (s + UDPChecksumFold s) = 0xFFFF"
proof -
  have "checksum_fold (s + UDPChecksumFold s) = 65535"
  proof (cases "not16 (checksum_fold s) = 0")
    case True
    then have "checksum_fold s = 65535" using checksum_fold_le [of s] by (simp add: not16_fold)
    then have "s mod 65535 = 0" using checksum_fold_mod [of s] by simp
    then have "checksum_fold (s + 65535) mod 65535 = 0" using checksum_fold_mod [of "s + 65535"] by simp
    moreover have "checksum_fold (s + 65535) \<noteq> 0" using checksum_fold_0 by simp
    ultimately show ?thesis
      using True checksum_fold_le [of "s + 65535"] by (auto simp: UDPChecksumFold_def)
  next
    case False
    then show ?thesis using checksum_fold_complement [of s] by (simp add: UDPChecksumFold_def)
  qed
  then show ?thesis by (simp add: UDPChecksumFold_def not16_le)
qed

lemma length_udp_packet [simp]:
  "len \<le> length payload \<Longrightarrow> length (udp_packet s d sp dp payload len) = 8 + len"
  by (simp add: udp_packet_def Let_def BuildUDPHeader_def UDPHeaderLength_def)

lemma udp_packet_bytes:
  assumes "len \<le> length payload" "8 + len < 65536"
  shows "\<exists>c. 0 < c \<and> c < 65536 \<and> udp_packet s d sp dp payload len =
    EthernetWrite16 sp @ EthernetWrite16 dp @ EthernetWrite16 (8 + len) @ EthernetWrite16 c @ take len payload"
  using assms UDPChecksumFold_range
  by (auto simp: udp_packet_def Let_def BuildUDPHeader_def UDPHeaderLength_def patch_def
      UDPIPv4Checksum_sum16 EthernetWrite16_def)

lemma udp_packet_checksum:
  assumes "len \<le> length payload" "8 + len < 65536"
  shows "UDPIPv4Checksum s d (udp_packet s d sp dp payload len @ rest) (8 + len) = 0xFFFF"
proof -
  let ?udp = "BuildUDPHeader sp dp ((8 + len) mod 2 ^ 16) 0 @ take len payload"
  let ?base = "sum16 (take 4 s) + sum16 (take 4 d) + 17 + (8 + len)"
  let ?c = "UDPIPv4Checksum s d ?udp (8 + len)"
  have len: "length ?udp = 8 + len" using assms(1) by (simp add: BuildUDPHeader_def)
  have c: "?c = UDPChecksumFold (?base + sum16 ?udp)"
    using assms len by (simp only: UDPIPv4Checksum_sum16) simp
  have "patch ?udp 6 (EthernetWrite16 0) = ?udp"
    by (simp add: BuildUDPHeader_def patch_def EthernetWrite16_def)
  then have "sum16 (patch ?udp 6 (EthernetWrite16 ?c)) = sum16 ?udp + ?c"
    using sum16_patch [of 6 ?udp ?c] len UDPChecksumFold_range(2) c by simp
  moreover have "udp_packet s d sp dp payload len = patch ?udp 6 (EthernetWrite16 ?c)"
    using assms(2) by (simp add: udp_packet_def Let_def UDPHeaderLength_def)
  ultimately have "sum16 (udp_packet s d sp dp payload len) = sum16 ?udp + ?c" by simp
  then show ?thesis
    using assms c UDPChecksumFold_valid [of "?base + sum16 ?udp"]
    by (simp add: UDPIPv4Checksum_sum16 add.assoc)
qed

text \<open>C25. A datagram that the socket builds is received as it was sent: parsed from an IPv4 packet
  with the addresses of the packet context it has the ports of the two endpoints, exactly the
  payload, and a checksum that the receiver accepts. The payload lies in memory, so that the length
  of the datagram does not wrap around.\<close>

theorem udp_datagram_roundtrip:
  assumes "UDPObject_BuildPacket payload u = (result, Some packet, u')"
    "tp_payload payload = Some data" "tp_payload_length payload \<le> length data" "length data < 2 ^ 64 - 8"
    "u_packet_buffer u = Some buf" "u_packet_capacity u \<le> length buf" "u_packet_capacity u < 65536"
    "conn_local (tp_connection payload) = loc" "conn_remote (tp_connection payload) = remote"
    "0 < ep_port loc" "ep_port loc < 65536" "0 < ep_port remote" "ep_port remote < 65536"
    "NetworkReadIPv4Address (npc_source packet) = Some (ip_source view)"
    "NetworkReadIPv4Address (npc_destination packet) = Some (ip_destination view)"
    "ip_protocol view = npc_protocol packet" "ip_payload view = Some (npc_payload packet)"
    "ip_payload_length view = npc_payload_length packet"
  shows "\<exists>datagram. ParseUDPDatagram view = Some datagram \<and> ValidateUDPIPv4Checksum view datagram \<and>
    udp_source_port datagram = ep_port loc \<and> udp_destination_port datagram = ep_port remote \<and>
    udp_payload_length datagram = tp_payload_length payload \<and>
    take (tp_payload_length payload) (udp_payload datagram) = take (tp_payload_length payload) data \<and>
    result = int (tp_payload_length payload)"
proof -
  let ?n = "tp_payload_length payload" and ?s = "ip_source view" and ?d = "ip_destination view"
  let ?p = "udp_packet ?s ?d (ep_port loc) (ep_port remote) data ?n"
  have wrap: "u64 (8 + ?n) = 8 + ?n" using assms(3,4) by simp
  have built: "npc_payload packet = patch buf 0 ?p" "npc_payload_length packet = 8 + ?n"
    "npc_protocol packet = IPv4Protocol_UDP" "8 + ?n \<le> u_packet_capacity u" "result = int ?n"
    using assms(1-3,5,8-10,12,14,15) wrap
    by (auto simp: UDPObject_BuildPacket_def Let_def UDPHeaderLength_def
        split: option.splits if_splits prod.splits)
  have len: "8 + ?n < 65536" "8 + ?n \<le> length buf" using built(4) assms(6,7) by auto
  define m where "m = ?p @ drop (8 + ?n) buf"
  have payload: "npc_payload packet = m" using built(1) assms(3) by (simp add: m_def patch_def)
  obtain c where c: "0 < c" "c < 65536" and bytes: "?p = EthernetWrite16 (ep_port loc) @
      EthernetWrite16 (ep_port remote) @ EthernetWrite16 (8 + ?n) @ EthernetWrite16 c @ take ?n data"
    using udp_packet_bytes [OF assms(3) len(1)] by blast
  have fields: "EthernetRead16 m = ep_port loc" "EthernetRead16 (drop 2 m) = ep_port remote"
    "EthernetRead16 (drop 4 m) = 8 + ?n" "EthernetRead16 (drop 6 m) = c"
    "take ?n (drop 8 m) = take ?n data"
    unfolding m_def bytes using assms(3,11,13) len(1) c(2) by (simp_all add: Read16_Write16)
  let ?g = "\<lparr>udp_header = m, udp_source_port = ep_port loc, udp_destination_port = ep_port remote,
    udp_length = 8 + ?n, udp_checksum = c, udp_payload = drop 8 m, udp_payload_length = ?n\<rparr>"
  have "ParseUDPDatagram view = Some ?g"
    using fields built assms(16-18) payload by (simp add: ParseUDPDatagram_def UDPHeaderLength_def)
  moreover have "ValidateUDPIPv4Checksum view ?g"
    using udp_packet_checksum [OF assms(3) len(1)] by (simp add: ValidateUDPIPv4Checksum_def m_def)
  ultimately show ?thesis using fields(5) built(5) by auto
qed


text \<open>A socket over a network that takes every packet, bound to port 4000 and sending to port 53.\<close>

definition sample_net :: NetworkInterface where
  "sample_net = \<lparr>net_getAddress = NetworkAddressIPv4 sample_ip, net_getPayloadMtu = 1480,
    net_SendPacket = (\<lambda>p. int (npc_payload_length p))\<rparr>"

definition sample_socket :: UDPObject where
  "sample_socket = UDPObject_new (Some sample_net) (Some (replicate 64 0)) 64"

definition sample_local :: TransportEndpoint where
  "sample_local = \<lparr>ep_address = NetworkAddressIPv4 sample_ip, ep_port = 4000\<rparr>"

definition sample_remote :: TransportEndpoint where
  "sample_remote = \<lparr>ep_address = NetworkAddressIPv4 sample_peer, ep_port = 53\<rparr>"

definition sample_payload :: TransportPayloadContext where
  "sample_payload = \<lparr>tp_connection = \<lparr>conn_local = sample_local, conn_remote = sample_remote\<rparr>,
    tp_payload = Some [1, 2, 3], tp_payload_length = 3\<rparr>"

lemma sample_addresses:
  "NetworkReadIPv4Address (NetworkAddressIPv4 sample_ip) = Some sample_ip"
  "NetworkReadIPv4Address (NetworkAddressIPv4 sample_peer) = Some sample_peer"
  "\<not> NetworkAddress_isZero (NetworkAddressIPv4 sample_ip)"
  "\<not> NetworkAddress_isZero (NetworkAddressIPv4 sample_peer)"
  by (simp_all add: NetworkReadIPv4Address_def NetworkAddressIPv4_def NetworkAddress_isZero_def all_zero_def
      IPv4AddressLength_def IPv6AddressLength_def patch_def sample_ip_def sample_peer_def)

lemma sample_build:
  "\<exists>packet u'. UDPObject_BuildPacket sample_payload sample_socket = (3, Some packet, u') \<and>
    npc_source packet = NetworkAddressIPv4 sample_ip \<and> npc_destination packet = NetworkAddressIPv4 sample_peer"
  by (simp add: UDPObject_BuildPacket_def sample_socket_def UDPObject_new_def sample_payload_def
      sample_local_def sample_remote_def sample_addresses sample_net_def UDPHeaderLength_def Let_def)

theorem udp_datagram_roundtrip_witness:
  "\<exists>packet u' datagram. UDPObject_BuildPacket sample_payload sample_socket = (3, Some packet, u') \<and>
    (let view = \<lparr>ip_header = [], ip_header_length = 20, ip_total_length = 31, ip_protocol = npc_protocol packet,
       ip_source = sample_ip, ip_destination = sample_peer, ip_payload = Some (npc_payload packet),
       ip_payload_length = npc_payload_length packet\<rparr> in
     ParseUDPDatagram view = Some datagram \<and> ValidateUDPIPv4Checksum view datagram \<and>
     udp_destination_port datagram = 53 \<and> take 3 (udp_payload datagram) = [1, 2, 3])"
proof -
  obtain packet u' where b: "UDPObject_BuildPacket sample_payload sample_socket = (3, Some packet, u')"
    "npc_source packet = NetworkAddressIPv4 sample_ip" "npc_destination packet = NetworkAddressIPv4 sample_peer"
    using sample_build by blast
  have "length (replicate 64 (0 :: byte)) = 64" by simp
  then show ?thesis
    using b udp_datagram_roundtrip [OF b(1), of "[1, 2, 3]" "replicate 64 0" sample_local sample_remote
        "\<lparr>ip_header = [], ip_header_length = 20, ip_total_length = 31, ip_protocol = npc_protocol packet,
       ip_source = sample_ip, ip_destination = sample_peer, ip_payload = Some (npc_payload packet),
       ip_payload_length = npc_payload_length packet\<rparr>"]
    by (auto simp: sample_payload_def sample_socket_def UDPObject_new_def sample_addresses sample_local_def
        sample_remote_def Let_def)
qed


end
