(* ===== verification/TCP.thy ===== *)
theory TCP
  imports UDP
begin

text \<open>
  TCP: the segments of \<open>src/inc/cpp/System/Network/Layer/Transport/TCP.hpp\<close> and the connection
  object of \<open>src/lib/cpp/System/Network/Layer/Transport/TCP.cpp\<close>.  Sequence numbers are 32-bit
  words, so their arithmetic wraps around as in the source.
\<close>

unbundle bit_operations_syntax

section \<open>Segments\<close>

definition TCPMinHeaderLength :: nat where "TCPMinHeaderLength = 20"

definition TCPFlagFIN :: byte where "TCPFlagFIN = 0x01"
definition TCPFlagSYN :: byte where "TCPFlagSYN = 0x02"
definition TCPFlagRST :: byte where "TCPFlagRST = 0x04"
definition TCPFlagPSH :: byte where "TCPFlagPSH = 0x08"
definition TCPFlagACK :: byte where "TCPFlagACK = 0x10"

definition has_flag :: "byte \<Rightarrow> byte \<Rightarrow> bool" where
  "has_flag flags f \<longleftrightarrow> flags AND f \<noteq> 0"

record TCPSegmentView =
  tcp_header :: mem
  tcp_source_port :: nat
  tcp_destination_port :: nat
  sequence :: uint32
  acknowledgment :: uint32
  tcp_header_length :: nat
  flags :: byte
  window :: nat
  tcp_checksum :: nat
  urgent_pointer :: nat
  tcp_payload :: mem
  tcp_payload_length :: nat

definition TCPRead32 :: "byte list \<Rightarrow> uint32" where
  "TCPRead32 d = of_nat (((256 * unat (d ! 0) + unat (d ! 1)) * 256 + unat (d ! 2)) * 256 + unat (d ! 3))"

definition TCPWrite32 :: "uint32 \<Rightarrow> byte list" where
  "TCPWrite32 v = [of_nat (unat v div 2 ^ 24), of_nat (unat v div 2 ^ 16), of_nat (unat v div 2 ^ 8), of_nat (unat v)]"

definition ParseTCPSegment :: "IPv4PacketView \<Rightarrow> TCPSegmentView option" where
  "ParseTCPSegment ipv4 =
    (if ip_protocol ipv4 \<noteq> IPv4Protocol_TCP then None
     else case ip_payload ipv4 of
       None \<Rightarrow> None
     | Some header \<Rightarrow>
         if ip_payload_length ipv4 < TCPMinHeaderLength then None
         else
           (let header_len = unat (header ! 12) div 16 * 4 in
            if header_len < TCPMinHeaderLength \<or> ip_payload_length ipv4 < header_len then None
            else Some \<lparr>tcp_header = header, tcp_source_port = EthernetRead16 header,
              tcp_destination_port = EthernetRead16 (drop 2 header), sequence = TCPRead32 (drop 4 header),
              acknowledgment = TCPRead32 (drop 8 header), tcp_header_length = header_len,
              flags = header ! 13, window = EthernetRead16 (drop 14 header),
              tcp_checksum = EthernetRead16 (drop 16 header), urgent_pointer = EthernetRead16 (drop 18 header),
              tcp_payload = drop header_len header,
              tcp_payload_length = ip_payload_length ipv4 - header_len\<rparr>))"

text \<open>Every call of the source leaves the urgent pointer, the checksum and the header length at their
  defaults.\<close>

definition BuildTCPHeader ::
  "nat \<Rightarrow> nat \<Rightarrow> uint32 \<Rightarrow> uint32 \<Rightarrow> byte \<Rightarrow> nat \<Rightarrow> nat \<Rightarrow> nat \<Rightarrow> nat \<Rightarrow> byte list" where
  "BuildTCPHeader source_port destination_port seqno ack fl win urgent checksum header_len =
    EthernetWrite16 source_port @ EthernetWrite16 destination_port @ TCPWrite32 seqno @ TCPWrite32 ack @
    [of_nat (header_len div 4 * 16), fl] @ EthernetWrite16 win @ EthernetWrite16 checksum @
    EthernetWrite16 urgent"

definition TCPChecksumAddBytes :: "nat \<Rightarrow> byte list \<Rightarrow> nat \<Rightarrow> nat" where
  "TCPChecksumAddBytes acc bytes len = checksum_add acc (take len bytes)"

definition TCPChecksumFold :: "nat \<Rightarrow> nat" where
  "TCPChecksumFold acc = not16 (checksum_fold acc)"

definition TCPIPv4Checksum :: "ip4 \<Rightarrow> ip4 \<Rightarrow> mem \<Rightarrow> nat \<Rightarrow> nat" where
  "TCPIPv4Checksum source destination pkt len =
    (let acc = TCPChecksumAddBytes 0 source IPv4AddressLength;
         acc = TCPChecksumAddBytes acc destination IPv4AddressLength;
         acc = (acc + 6) mod 2 ^ 32;
         acc = (acc + len mod 2 ^ 16) mod 2 ^ 32;
         acc = TCPChecksumAddBytes acc pkt len in
     TCPChecksumFold acc)"

definition ValidateTCPIPv4Checksum :: "IPv4PacketView \<Rightarrow> TCPSegmentView \<Rightarrow> bool" where
  "ValidateTCPIPv4Checksum ipv4 segment \<longleftrightarrow>
    TCPIPv4Checksum (ip_source ipv4) (ip_destination ipv4) (tcp_header segment) (ip_payload_length ipv4) = 0"

text \<open>A segment with its checksum in place.\<close>

definition tcp_packet ::
  "ip4 \<Rightarrow> ip4 \<Rightarrow> nat \<Rightarrow> nat \<Rightarrow> uint32 \<Rightarrow> uint32 \<Rightarrow> byte \<Rightarrow> nat \<Rightarrow> mem \<Rightarrow> nat \<Rightarrow> byte list" where
  "tcp_packet source destination source_port destination_port seqno ack fl win payload len =
    (let tcp = BuildTCPHeader source_port destination_port seqno ack fl win 0 0 TCPMinHeaderLength @ take len payload
     in patch tcp 16 (EthernetWrite16 (TCPIPv4Checksum source destination tcp (u64 (TCPMinHeaderLength + len)))))"

text \<open>The frames of the stack itself: reset, handshake answer and acknowledgment.\<close>

definition tcp_frame ::
  "mem option \<Rightarrow> nat \<Rightarrow> mac \<Rightarrow> mac \<Rightarrow> ip4 \<Rightarrow> IPv4PacketView \<Rightarrow> TCPSegmentView \<Rightarrow> nat \<Rightarrow>
   uint32 \<Rightarrow> uint32 \<Rightarrow> byte \<Rightarrow> nat \<Rightarrow> nat \<times> mem option" where
  "tcp_frame buffer capacity local_mac target_mac local_ip request segment identification seqno ack fl win =
    (let ipv4_length = IPv4MinHeaderLength + TCPMinHeaderLength;
         frame_len = EthernetHeaderLength + ipv4_length in
     case buffer of
       None \<Rightarrow> (0, None)
     | Some buf \<Rightarrow>
         if capacity < frame_len then (0, Some buf)
         else (frame_len, Some (patch buf 0
           (ethernet_header target_mac local_mac EthernetType_IPv4 @
            BuildIPv4Header local_ip (ip_source request) IPv4Protocol_TCP ipv4_length identification 64 @
            tcp_packet local_ip (ip_source request) (tcp_destination_port segment) (tcp_source_port segment)
              seqno ack fl win [] 0))))"

definition BuildTCPIPv4Reset ::
  "mem option \<Rightarrow> nat \<Rightarrow> mac \<Rightarrow> mac \<Rightarrow> ip4 \<Rightarrow> IPv4PacketView \<Rightarrow> TCPSegmentView \<Rightarrow> nat \<Rightarrow> nat \<times> mem option" where
  "BuildTCPIPv4Reset buffer capacity local_mac target_mac local_ip request segment identification =
    (let (seqno, ack, fl) =
       (if has_flag (flags segment) TCPFlagACK then (acknowledgment segment, 0, TCPFlagRST)
        else
          (let ack = sequence segment + of_nat (tcp_payload_length segment);
               ack = (if has_flag (flags segment) TCPFlagSYN then ack + 1 else ack);
               ack = (if has_flag (flags segment) TCPFlagFIN then ack + 1 else ack) in
           (0, ack, TCPFlagRST OR TCPFlagACK))) in
     tcp_frame buffer capacity local_mac target_mac local_ip request segment identification seqno ack fl 0)"

definition BuildTCPIPv4SynAck ::
  "mem option \<Rightarrow> nat \<Rightarrow> mac \<Rightarrow> mac \<Rightarrow> ip4 \<Rightarrow> IPv4PacketView \<Rightarrow> TCPSegmentView \<Rightarrow> uint32 \<Rightarrow> nat \<Rightarrow> nat \<Rightarrow> nat \<times> mem option" where
  "BuildTCPIPv4SynAck buffer capacity local_mac target_mac local_ip request segment seqno win identification =
    tcp_frame buffer capacity local_mac target_mac local_ip request segment identification
      seqno (sequence segment + 1) (TCPFlagSYN OR TCPFlagACK) win"

definition BuildTCPIPv4Ack ::
  "mem option \<Rightarrow> nat \<Rightarrow> mac \<Rightarrow> mac \<Rightarrow> ip4 \<Rightarrow> IPv4PacketView \<Rightarrow> TCPSegmentView \<Rightarrow> uint32 \<Rightarrow> uint32 \<Rightarrow> nat \<Rightarrow> nat \<Rightarrow> nat \<times> mem option" where
  "BuildTCPIPv4Ack buffer capacity local_mac target_mac local_ip request segment seqno ack win identification =
    tcp_frame buffer capacity local_mac target_mac local_ip request segment identification
      seqno ack TCPFlagACK win"

section \<open>Connections\<close>

record TCPEndpoint =
  t_address :: ip4
  t_port :: nat

record TCPConnectionContext =
  tc_local :: TCPEndpoint
  tc_remote :: TCPEndpoint

datatype TCPConnectionState = SynReceived | Established | CloseWait | LastAck

record TCPConnectionControlBlock =
  cb_context :: TCPConnectionContext
  local_next_sequence :: uint32
  remote_next_sequence :: uint32
  cb_state :: TCPConnectionState

definition zero_tcp_context :: TCPConnectionContext where
  "zero_tcp_context = \<lparr>tc_local = \<lparr>t_address = [0, 0, 0, 0], t_port = 0\<rparr>,
    tc_remote = \<lparr>t_address = [0, 0, 0, 0], t_port = 0\<rparr>\<rparr>"

definition zero_control :: TCPConnectionControlBlock where
  "zero_control = \<lparr>cb_context = zero_tcp_context, local_next_sequence = 0, remote_next_sequence = 0,
    cb_state = SynReceived\<rparr>"

definition TCPSequenceLength :: "TCPSegmentView \<Rightarrow> uint32" where
  "TCPSequenceLength segment =
    (let len = of_nat (tcp_payload_length segment);
         len = (if has_flag (flags segment) TCPFlagSYN then len + 1 else len);
         len = (if has_flag (flags segment) TCPFlagFIN then len + 1 else len) in len)"

definition TCPBeginPassiveConnection ::
  "ip4 \<Rightarrow> nat \<Rightarrow> ip4 \<Rightarrow> nat \<Rightarrow> TCPSegmentView \<Rightarrow> uint32 \<Rightarrow> TCPConnectionControlBlock" where
  "TCPBeginPassiveConnection local_ip local_port remote_ip remote_port segment initial_sequence =
    \<lparr>cb_context = \<lparr>tc_local = \<lparr>t_address = local_ip, t_port = local_port\<rparr>,
       tc_remote = \<lparr>t_address = remote_ip, t_port = remote_port\<rparr>\<rparr>,
     local_next_sequence = initial_sequence + 1, remote_next_sequence = sequence segment + 1,
     cb_state = SynReceived\<rparr>"

definition TCPAcceptHandshakeAck ::
  "TCPConnectionControlBlock \<Rightarrow> TCPSegmentView \<Rightarrow> bool \<times> TCPConnectionControlBlock" where
  "TCPAcceptHandshakeAck connection segment =
    (if cb_state connection \<noteq> SynReceived then (False, connection)
     else if \<not> has_flag (flags segment) TCPFlagACK then (False, connection)
     else if acknowledgment segment \<noteq> local_next_sequence connection then (False, connection)
     else (True, connection\<lparr>cb_state := Established\<rparr>))"

definition TCPIsExpectedSegment :: "TCPConnectionControlBlock \<Rightarrow> TCPSegmentView \<Rightarrow> bool" where
  "TCPIsExpectedSegment connection segment \<longleftrightarrow> sequence segment = remote_next_sequence connection"

definition TCPExpectedAcknowledge :: "TCPConnectionControlBlock \<Rightarrow> TCPSegmentView \<Rightarrow> uint32" where
  "TCPExpectedAcknowledge connection segment =
    (if TCPIsExpectedSegment connection segment
     then remote_next_sequence connection + TCPSequenceLength segment else remote_next_sequence connection)"

definition TCPConsumeExpectedSegment ::
  "TCPConnectionControlBlock \<Rightarrow> TCPSegmentView \<Rightarrow> bool \<times> TCPConnectionControlBlock" where
  "TCPConsumeExpectedSegment connection segment =
    (if \<not> TCPIsExpectedSegment connection segment then (False, connection)
     else
       (let connection = connection\<lparr>remote_next_sequence :=
              remote_next_sequence connection + TCPSequenceLength segment\<rparr> in
        (True, if has_flag (flags segment) TCPFlagFIN \<and> cb_state connection \<noteq> LastAck
               then connection\<lparr>cb_state := CloseWait\<rparr> else connection)))"

section \<open>The connection object\<close>

record TCPObject =
  t_network :: "NetworkInterface option"
  t_packet_buffer :: "mem option"
  t_packet_capacity :: nat
  accept_pending :: "TCPConnectionContext list option"
  accept_capacity :: nat
  accept_head :: nat
  accept_tail :: nat
  accept_count :: nat
  control :: TCPConnectionControlBlock
  backlog :: nat
  t_identification :: nat
  t_window :: nat
  t_bound :: bool
  t_connected :: bool
  t_listening :: bool

definition TCPObject_new :: "NetworkInterface option \<Rightarrow> mem option \<Rightarrow> nat \<Rightarrow> TCPObject" where
  "TCPObject_new network packet_buffer packet_capacity =
    \<lparr>t_network = network, t_packet_buffer = packet_buffer, t_packet_capacity = packet_capacity,
     accept_pending = None, accept_capacity = 0, accept_head = 0, accept_tail = 0, accept_count = 0,
     control = zero_control, backlog = 0, t_identification = 1, t_window = 0, t_bound = False,
     t_connected = False, t_listening = False\<rparr>"

definition TCPObject_Reset :: "NetworkInterface option \<Rightarrow> mem option \<Rightarrow> nat \<Rightarrow> TCPObject \<Rightarrow> TCPObject" where
  "TCPObject_Reset network packet_buffer packet_capacity t =
    \<lparr>t_network = network, t_packet_buffer = packet_buffer, t_packet_capacity = packet_capacity,
     accept_pending = accept_pending t, accept_capacity = accept_capacity t, accept_head = 0,
     accept_tail = 0, accept_count = 0, control = zero_control, backlog = 0, t_identification = 1,
     t_window = 0, t_bound = False, t_connected = False, t_listening = False\<rparr>"

definition TCPObject_setNetwork :: "NetworkInterface option \<Rightarrow> TCPObject \<Rightarrow> TCPObject" where
  "TCPObject_setNetwork network t = t\<lparr>t_network := network\<rparr>"

definition TCPObject_setPacketBuffer :: "mem option \<Rightarrow> nat \<Rightarrow> TCPObject \<Rightarrow> TCPObject" where
  "TCPObject_setPacketBuffer packet_buffer packet_capacity t =
    t\<lparr>t_packet_buffer := packet_buffer, t_packet_capacity := packet_capacity\<rparr>"

definition TCPObject_setAcceptQueue :: "TCPConnectionContext list option \<Rightarrow> nat \<Rightarrow> TCPObject \<Rightarrow> TCPObject" where
  "TCPObject_setAcceptQueue pending capacity t =
    t\<lparr>accept_pending := pending, accept_capacity := capacity, accept_head := 0, accept_tail := 0,
      accept_count := 0\<rparr>"

definition TCPObject_setIdentification :: "nat \<Rightarrow> TCPObject \<Rightarrow> TCPObject" where
  "TCPObject_setIdentification identification t = t\<lparr>t_identification := identification\<rparr>"

definition TCPObject_setWindow :: "nat \<Rightarrow> TCPObject \<Rightarrow> TCPObject" where
  "TCPObject_setWindow win t = t\<lparr>t_window := win\<rparr>"

definition TCPObject_Bind :: "TransportEndpoint \<Rightarrow> TCPObject \<Rightarrow> int \<times> TCPObject" where
  "TCPObject_Bind loc t =
    (if ep_port loc = 0 \<or> NetworkAddress_isZero (ep_address loc) then (-1, t)
     else case NetworkReadIPv4Address (ep_address loc) of
       None \<Rightarrow> (-1, t)
     | Some address \<Rightarrow>
         (0, t\<lparr>control := (control t)\<lparr>cb_context := (cb_context (control t))
               \<lparr>tc_local := \<lparr>t_address = address, t_port = ep_port loc\<rparr>\<rparr>\<rparr>, t_bound := True\<rparr>))"

definition TCPObject_Connect :: "TransportEndpoint \<Rightarrow> TCPObject \<Rightarrow> int \<times> TCPObject" where
  "TCPObject_Connect remote t =
    (if ep_port remote = 0 \<or> NetworkAddress_isZero (ep_address remote) then (-1, t)
     else case NetworkReadIPv4Address (ep_address remote) of
       None \<Rightarrow> (-1, t)
     | Some address \<Rightarrow>
         (0, t\<lparr>control := (control t)\<lparr>cb_context := (cb_context (control t))
               \<lparr>tc_remote := \<lparr>t_address = address, t_port = ep_port remote\<rparr>\<rparr>\<rparr>, t_connected := True\<rparr>))"

definition TCPObject_Listen :: "nat \<Rightarrow> TCPObject \<Rightarrow> int \<times> TCPObject" where
  "TCPObject_Listen n t = (0, t\<lparr>backlog := n, t_listening := True\<rparr>)"

text \<open>The queue of connections that wait to be accepted is a ring over the array the host provides.\<close>

definition EnqueueAccept :: "TCPConnectionContext \<Rightarrow> TCPObject \<Rightarrow> bool \<times> TCPObject" where
  "EnqueueAccept connection t =
    (case accept_pending t of
       None \<Rightarrow> (False, t)
     | Some pending \<Rightarrow>
         if accept_capacity t = 0 then (False, t)
         else
           (let limit = (if backlog t \<noteq> 0 then backlog t else 1) in
            if accept_count t \<ge> limit \<or> accept_count t \<ge> accept_capacity t then (False, t)
            else (True, t\<lparr>accept_pending := Some (pending[accept_tail t := connection]),
              accept_tail := (accept_tail t + 1) mod accept_capacity t,
              accept_count := accept_count t + 1\<rparr>)))"

definition Accept :: "TCPObject \<Rightarrow> TCPConnectionContext option \<times> TCPObject" where
  "Accept t =
    (if accept_count t = 0 then (None, t)
     else case accept_pending t of
       None \<Rightarrow> (None, t)
     | Some pending \<Rightarrow>
         (Some (pending ! accept_head t),
          t\<lparr>accept_pending := Some (pending[accept_head t := zero_tcp_context]),
            accept_head := (accept_head t + 1) mod accept_capacity t,
            accept_count := accept_count t - 1\<rparr>))"

definition TCPObject_Accept :: "TCPObject \<Rightarrow> int \<times> TransportConnectionContext option \<times> TCPObject" where
  "TCPObject_Accept t =
    (case Accept t of
       (None, t) \<Rightarrow> (0, None, t)
     | (Some c, t) \<Rightarrow>
         (1, Some \<lparr>conn_local = \<lparr>ep_address = NetworkAddressIPv4 (t_address (tc_local c)), ep_port = t_port (tc_local c)\<rparr>,
                  conn_remote = \<lparr>ep_address = NetworkAddressIPv4 (t_address (tc_remote c)), ep_port = t_port (tc_remote c)\<rparr>\<rparr>,
          t))"

text \<open>An endpoint given with the payload replaces the one of the connection.\<close>

definition chosen_endpoint :: "TransportEndpoint \<Rightarrow> TCPEndpoint \<Rightarrow> TCPEndpoint option" where
  "chosen_endpoint given dflt =
    (if ep_port given \<noteq> 0
     then map_option (\<lambda>a. \<lparr>t_address = a, t_port = ep_port given\<rparr>) (NetworkReadIPv4Address (ep_address given))
     else Some dflt)"

definition tcp_endpoints_ok :: "TCPEndpoint \<Rightarrow> TCPEndpoint \<Rightarrow> bool" where
  "tcp_endpoints_ok loc remote \<longleftrightarrow> t_port loc \<noteq> 0 \<and> t_port remote \<noteq> 0 \<and>
    \<not> IPv4Address_isZero (t_address loc) \<and> \<not> IPv4Address_isZero (t_address remote)"

definition tcp_context :: "TCPEndpoint \<Rightarrow> TCPEndpoint \<Rightarrow> mem \<Rightarrow> nat \<Rightarrow> nat \<Rightarrow> NetworkPacketContext" where
  "tcp_context loc remote buffer len identification =
    \<lparr>npc_source = NetworkAddressIPv4 (t_address loc), npc_destination = NetworkAddressIPv4 (t_address remote),
     npc_protocol = IPv4Protocol_TCP, npc_payload = buffer, npc_payload_length = len,
     npc_identification = identification, npc_ttl = 64\<rparr>"

definition TCPObject_Send :: "TransportPayloadContext \<Rightarrow> TCPObject \<Rightarrow> int \<times> TCPObject" where
  "TCPObject_Send payload t =
    (case (t_network t, t_packet_buffer t) of
       (Some network, Some packet_buffer) \<Rightarrow>
         if \<not> t_connected t then (-1, t)
         else if tp_payload payload = None \<and> tp_payload_length payload \<noteq> 0 then (-1, t)
         else
           (case (chosen_endpoint (conn_local (tp_connection payload)) (tc_local (cb_context (control t))),
                  chosen_endpoint (conn_remote (tp_connection payload)) (tc_remote (cb_context (control t)))) of
              (Some loc, Some remote) \<Rightarrow>
                if \<not> tcp_endpoints_ok loc remote then (-1, t)
                else
                  (let tcp_length = u64 (TCPMinHeaderLength + tp_payload_length payload) in
                   if tcp_length > t_packet_capacity t \<or> tcp_length > net_getPayloadMtu network then (-1, t)
                   else
                     (let data = (case tp_payload payload of None \<Rightarrow> [] | Some d \<Rightarrow> d);
                          fl = TCPFlagACK OR (if tp_payload_length payload \<noteq> 0 then TCPFlagPSH else 0);
                          buffer = patch packet_buffer 0 (tcp_packet (t_address loc) (t_address remote)
                            (t_port loc) (t_port remote) (local_next_sequence (control t))
                            (remote_next_sequence (control t)) fl (t_window t) data (tp_payload_length payload));
                          sent = net_SendPacket network (tcp_context loc remote buffer tcp_length (t_identification t));
                          t = t\<lparr>t_packet_buffer := Some buffer,
                                t_identification := (t_identification t + 1) mod 2 ^ 16\<rparr> in
                      if sent \<le> 0 then (sent, t)
                      else (int (tp_payload_length payload),
                        t\<lparr>control := (control t)\<lparr>local_next_sequence :=
                           local_next_sequence (control t) + of_nat (tp_payload_length payload)\<rparr>\<rparr>)))
            | _ \<Rightarrow> (-1, t))
     | _ \<Rightarrow> (-1, t))"

definition TCPObject_Close :: "TCPObject \<Rightarrow> int \<times> TCPObject" where
  "TCPObject_Close t =
    (case (t_network t, t_packet_buffer t) of
       (Some network, Some packet_buffer) \<Rightarrow>
         if \<not> t_connected t then (-1, t)
         else
           (let loc = tc_local (cb_context (control t)); remote = tc_remote (cb_context (control t)) in
            if \<not> tcp_endpoints_ok loc remote then (-1, t)
            else if TCPMinHeaderLength > t_packet_capacity t \<or> TCPMinHeaderLength > net_getPayloadMtu network
            then (-1, t)
            else
              (let buffer = patch packet_buffer 0 (tcp_packet (t_address loc) (t_address remote)
                     (t_port loc) (t_port remote) (local_next_sequence (control t))
                     (remote_next_sequence (control t)) (TCPFlagFIN OR TCPFlagACK) (t_window t) [] 0);
                   sent = net_SendPacket network
                     (tcp_context loc remote buffer TCPMinHeaderLength (t_identification t));
                   t = t\<lparr>t_packet_buffer := Some buffer,
                         t_identification := (t_identification t + 1) mod 2 ^ 16\<rparr> in
               if sent \<le> 0 then (sent, t)
               else (1, t\<lparr>control := (control t)\<lparr>local_next_sequence := local_next_sequence (control t) + 1,
                           cb_state := LastAck\<rparr>, t_connected := False\<rparr>)))
     | _ \<Rightarrow> (-1, t))"

definition TCPObject_Receive :: "TCPObject \<Rightarrow> int \<times> TCPObject" where
  "TCPObject_Receive t = (-1, t)"

definition TCPObject_Control :: "nat \<Rightarrow> TCPObject \<Rightarrow> int \<times> TCPObject" where
  "TCPObject_Control command t = (-1, t)"

definition BeginPassiveConnection ::
  "ip4 \<Rightarrow> nat \<Rightarrow> ip4 \<Rightarrow> nat \<Rightarrow> TCPSegmentView \<Rightarrow> uint32 \<Rightarrow> TCPObject \<Rightarrow> TCPObject" where
  "BeginPassiveConnection local_ip local_port remote_ip remote_port segment initial_sequence t =
    t\<lparr>control := TCPBeginPassiveConnection local_ip local_port remote_ip remote_port segment initial_sequence,
      t_bound := True, t_connected := False\<rparr>"

definition AcceptHandshakeAck :: "TCPSegmentView \<Rightarrow> TCPObject \<Rightarrow> bool \<times> TCPObject" where
  "AcceptHandshakeAck segment t =
    (case TCPAcceptHandshakeAck (control t) segment of
       (accepted, c) \<Rightarrow>
         (accepted, t\<lparr>control := c, t_connected := (if accepted then True else t_connected t)\<rparr>))"

definition AcceptCloseAck :: "TCPSegmentView \<Rightarrow> TCPObject \<Rightarrow> bool" where
  "AcceptCloseAck segment t =
    (if cb_state (control t) \<noteq> LastAck then False
     else if \<not> has_flag (flags segment) TCPFlagACK then False
     else acknowledgment segment = local_next_sequence (control t))"

definition isExpectedSegment :: "TCPSegmentView \<Rightarrow> TCPObject \<Rightarrow> bool" where
  "isExpectedSegment segment t \<longleftrightarrow> TCPIsExpectedSegment (control t) segment"

definition ConsumeExpectedSegment :: "TCPSegmentView \<Rightarrow> TCPObject \<Rightarrow> bool \<times> TCPObject" where
  "ConsumeExpectedSegment segment t =
    (case TCPConsumeExpectedSegment (control t) segment of (ok, c) \<Rightarrow> (ok, t\<lparr>control := c\<rparr>))"


section \<open>A connection over time\<close>

text \<open>What can happen to a connection after the answer to its first segment, with the segments taken
  from the peer and the number of bytes sent so far.\<close>

inductive tcp_run :: "TCPObject \<Rightarrow> TCPSegmentView list \<Rightarrow> nat \<Rightarrow> TCPObject \<Rightarrow> bool" for t0 where
  run_begin: "tcp_run t0 [] 0 t0"
| run_handshake: "tcp_run t0 segs n t \<Longrightarrow> AcceptHandshakeAck s t = (ok, t') \<Longrightarrow> tcp_run t0 segs n t'"
| run_consume: "tcp_run t0 segs n t \<Longrightarrow> ConsumeExpectedSegment s t = (True, t') \<Longrightarrow> tcp_run t0 (segs @ [s]) n t'"
| run_ignore: "tcp_run t0 segs n t \<Longrightarrow> ConsumeExpectedSegment s t = (False, t') \<Longrightarrow> tcp_run t0 segs n t'"
| run_send: "tcp_run t0 segs n t \<Longrightarrow> TCPObject_Send p t = (r, t') \<Longrightarrow> tcp_run t0 segs (n + nat r) t'"
| run_close: "tcp_run t0 segs n t \<Longrightarrow> TCPObject_Close t = (r, t') \<Longrightarrow> tcp_run t0 segs n t'"

definition received :: "TCPSegmentView list \<Rightarrow> uint32" where
  "received segs = sum_list (map TCPSequenceLength segs)"

definition tcp_inv :: "uint32 \<Rightarrow> uint32 \<Rightarrow> TCPSegmentView list \<Rightarrow> nat \<Rightarrow> TCPObject \<Rightarrow> bool" where
  "tcp_inv irs iss segs n t \<longleftrightarrow>
    remote_next_sequence (control t) = irs + 1 + received segs \<and>
    (\<forall>k < length segs. sequence (segs ! k) = irs + 1 + received (take k segs)) \<and>
    local_next_sequence (control t) = iss + 1 + of_nat n + (if cb_state (control t) = LastAck then 1 else 0) \<and>
    (t_connected t \<longrightarrow> cb_state (control t) \<in> {Established, CloseWait})"

lemma received_snoc: "received (segs @ [s]) = received segs + TCPSequenceLength s"
  by (simp add: received_def)

lemma tcp_inv_handshake:
  "tcp_inv irs iss segs n t \<Longrightarrow> AcceptHandshakeAck s t = (ok, t') \<Longrightarrow> tcp_inv irs iss segs n t'"
  by (auto simp: tcp_inv_def AcceptHandshakeAck_def TCPAcceptHandshakeAck_def split: prod.splits if_splits)

lemma tcp_inv_consume:
  assumes "tcp_inv irs iss segs n t" "ConsumeExpectedSegment s t = (True, t')"
  shows "tcp_inv irs iss (segs @ [s]) n t'"
proof -
  have c: "sequence s = remote_next_sequence (control t)"
    "remote_next_sequence (control t') = remote_next_sequence (control t) + TCPSequenceLength s"
    "local_next_sequence (control t') = local_next_sequence (control t)" "t_connected t' = t_connected t"
    "cb_state (control t') = (if has_flag (flags s) TCPFlagFIN \<and> cb_state (control t) \<noteq> LastAck
      then CloseWait else cb_state (control t))"
    using assms(2) by (auto simp: ConsumeExpectedSegment_def TCPConsumeExpectedSegment_def
        TCPIsExpectedSegment_def Let_def split: if_splits)
  have "sequence ((segs @ [s]) ! k) = irs + 1 + received (take k (segs @ [s]))" if "k < length (segs @ [s])" for k
    using that assms(1) c(1) by (cases "k = length segs") (auto simp: tcp_inv_def nth_append)
  with assms(1) c show ?thesis by (auto simp: tcp_inv_def received_snoc add.assoc)
qed

lemma tcp_inv_ignore:
  "tcp_inv irs iss segs n t \<Longrightarrow> ConsumeExpectedSegment s t = (False, t') \<Longrightarrow> tcp_inv irs iss segs n t'"
  by (auto simp: tcp_inv_def ConsumeExpectedSegment_def TCPConsumeExpectedSegment_def Let_def split: if_splits)

lemma tcp_inv_send:
  assumes "tcp_inv irs iss segs n t" "TCPObject_Send p t = (r, t')"
  shows "tcp_inv irs iss segs (n + nat r) t'"
proof -
  have "r \<le> 0 \<and> control t' = control t \<and> t_connected t' = t_connected t \<or>
    r = int (tp_payload_length p) \<and> t_connected t \<and> t_connected t' \<and>
    control t' = (control t)\<lparr>local_next_sequence := local_next_sequence (control t) + of_nat (tp_payload_length p)\<rparr>"
    using assms(2) by (auto simp: TCPObject_Send_def Let_def split: option.splits prod.splits if_splits)
  then show ?thesis using assms(1) by (auto simp: tcp_inv_def)
qed

lemma tcp_inv_close:
  assumes "tcp_inv irs iss segs n t" "TCPObject_Close t = (r, t')"
  shows "tcp_inv irs iss segs n t'"
proof -
  have "control t' = control t \<and> t_connected t' = t_connected t \<or>
    t_connected t \<and> \<not> t_connected t' \<and> control t' = (control t)\<lparr>local_next_sequence := local_next_sequence (control t) + 1,
      cb_state := LastAck\<rparr>"
    using assms(2) by (auto simp: TCPObject_Close_def Let_def split: option.splits prod.splits if_splits)
  then show ?thesis using assms(1) by (auto simp: tcp_inv_def)
qed

text \<open>C26. However segments, acknowledgments, sends and a close follow each other on a passive
  connection, the segments it takes are the stream of the peer in order, without a gap or a
  repetition: each starts where the one before ended.  The next number it sends counts exactly the
  bytes sent, and one for the close; and it is connected only between handshake and close.\<close>

theorem tcp_in_order:
  assumes "tcp_run (BeginPassiveConnection lip lport rip rport syn iss t0) segs n t"
  shows "remote_next_sequence (control t) = sequence syn + 1 + received segs \<and>
    (\<forall>k < length segs. sequence (segs ! k) = sequence syn + 1 + received (take k segs)) \<and>
    local_next_sequence (control t) = iss + 1 + of_nat n + (if cb_state (control t) = LastAck then 1 else 0) \<and>
    (t_connected t \<longrightarrow> cb_state (control t) \<in> {Established, CloseWait})"
proof -
  have "tcp_inv (sequence syn) iss segs n t"
    using assms
  proof (induction rule: tcp_run.induct)
    case run_begin
    then show ?case
      by (simp add: tcp_inv_def BeginPassiveConnection_def TCPBeginPassiveConnection_def received_def)
  next
    case (run_handshake segs n t s ok t')
    then show ?case using tcp_inv_handshake by blast
  next
    case (run_consume segs n t s t')
    then show ?case using tcp_inv_consume by blast
  next
    case (run_ignore segs n t s t')
    then show ?case using tcp_inv_ignore by blast
  next
    case (run_send segs n t p r t')
    then show ?case using tcp_inv_send by blast
  next
    case (run_close segs n t r t')
    then show ?case using tcp_inv_close by blast
  qed
  then show ?thesis by (simp add: tcp_inv_def)
qed

definition sample_segment :: "uint32 \<Rightarrow> byte \<Rightarrow> nat \<Rightarrow> TCPSegmentView" where
  "sample_segment seqno fl len = \<lparr>tcp_header = [], tcp_source_port = 53, tcp_destination_port = 80,
    sequence = seqno, acknowledgment = 0, tcp_header_length = 20, flags = fl, window = 100,
    tcp_checksum = 0, urgent_pointer = 0, tcp_payload = [], tcp_payload_length = len\<rparr>"

definition sample_passive :: TCPObject where
  "sample_passive = BeginPassiveConnection sample_ip 80 sample_peer 53
    (sample_segment 0xFFFFFFFF TCPFlagSYN 0) 99 (TCPObject_new None None 0)"

theorem tcp_in_order_witness:
  "\<exists>t. tcp_run sample_passive [sample_segment 0 TCPFlagACK 5] 0 t \<and>
    remote_next_sequence (control t) = 5 \<and> local_next_sequence (control t) = 100"
proof -
  obtain ok t where c: "ConsumeExpectedSegment (sample_segment 0 TCPFlagACK 5) sample_passive = (ok, t)"
    by fastforce
  then have "ok" "cb_state (control t) = SynReceived"
    by (auto simp: ConsumeExpectedSegment_def TCPConsumeExpectedSegment_def TCPIsExpectedSegment_def Let_def
        sample_passive_def BeginPassiveConnection_def TCPBeginPassiveConnection_def sample_segment_def
        has_flag_def TCPFlagACK_def TCPFlagFIN_def split: if_splits)
  then have r: "tcp_run sample_passive ([] @ [sample_segment 0 TCPFlagACK 5]) 0 t"
    using run_consume [OF run_begin, of "sample_segment 0 TCPFlagACK 5" sample_passive t] c by simp
  moreover have "received ([] @ [sample_segment 0 TCPFlagACK 5]) = 5"
    by (simp add: received_def TCPSequenceLength_def sample_segment_def has_flag_def TCPFlagACK_def
        TCPFlagSYN_def TCPFlagFIN_def)
  ultimately show ?thesis
    using tcp_in_order [OF r [unfolded sample_passive_def]] \<open>cb_state (control t) = SynReceived\<close>
    by (auto simp: sample_segment_def)
qed


section \<open>The accept queue\<close>

text \<open>A bounded queue as a client sees it, for any implementation: the operations answer as those of a
  list of at most \<open>bound\<close> entries, whatever their order.\<close>

datatype 'a queue_op = Put 'a | Get

datatype 'a queue_answer = Taken bool | Got "'a option"

fun queue_run ::
  "('a \<Rightarrow> 's \<Rightarrow> bool \<times> 's) \<Rightarrow> ('s \<Rightarrow> 'a option \<times> 's) \<Rightarrow> 'a queue_op list \<Rightarrow> 's \<Rightarrow> 'a queue_answer list \<times> 's" where
  "queue_run enq deq [] s = ([], s)"
| "queue_run enq deq (Put x # ops) s =
    (let (ok, s) = enq x s; (answers, s) = queue_run enq deq ops s in (Taken ok # answers, s))"
| "queue_run enq deq (Get # ops) s =
    (let (x, s) = deq s; (answers, s) = queue_run enq deq ops s in (Got x # answers, s))"

definition list_enq :: "nat \<Rightarrow> 'a \<Rightarrow> 'a list \<Rightarrow> bool \<times> 'a list" where
  "list_enq n x xs = (if length xs < n then (True, xs @ [x]) else (False, xs))"

definition list_deq :: "'a list \<Rightarrow> 'a option \<times> 'a list" where
  "list_deq xs = (case xs of [] \<Rightarrow> (None, []) | x # xs \<Rightarrow> (Some x, xs))"

locale bounded_queue =
  fixes enq :: "'a \<Rightarrow> 's \<Rightarrow> bool \<times> 's"
    and deq :: "'s \<Rightarrow> 'a option \<times> 's"
    and ok :: "'s \<Rightarrow> bool"
    and entries :: "'s \<Rightarrow> 'a list"
    and bound :: "'s \<Rightarrow> nat"
  assumes enq_law: "ok s \<Longrightarrow> enq x s = (b, s') \<Longrightarrow>
      ok s' \<and> bound s' = bound s \<and> list_enq (bound s) x (entries s) = (b, entries s')"
    and deq_law: "ok s \<Longrightarrow> deq s = (r, s') \<Longrightarrow>
      ok s' \<and> bound s' = bound s \<and> list_deq (entries s) = (r, entries s')"
begin

lemma run_refines:
  "ok s \<Longrightarrow> queue_run enq deq ops s = (answers, s') \<Longrightarrow>
   ok s' \<and> bound s' = bound s \<and> queue_run (list_enq (bound s)) list_deq ops (entries s) = (answers, entries s')"
proof (induction ops arbitrary: s answers)
  case (Cons p ops)
  show ?case
  proof (cases p)
    case (Put x)
    obtain b s1 where e: "enq x s = (b, s1)" by fastforce
    obtain as s2 where r: "queue_run enq deq ops s1 = (as, s2)" by fastforce
    from enq_law [OF Cons.prems(1) e] Cons.IH [of s1 as] r Cons.prems(2) Put e show ?thesis by auto
  next
    case Get
    obtain x s1 where e: "deq s = (x, s1)" by fastforce
    obtain as s2 where r: "queue_run enq deq ops s1 = (as, s2)" by fastforce
    from deq_law [OF Cons.prems(1) e] Cons.IH [of s1 as] r Cons.prems(2) Get e show ?thesis by auto
  qed
qed simp

end

definition ring_ok :: "TCPObject \<Rightarrow> bool" where
  "ring_ok t \<longleftrightarrow> (\<exists>pending. accept_pending t = Some pending \<and> length pending = accept_capacity t) \<and>
    0 < accept_capacity t \<and> accept_head t < accept_capacity t \<and> accept_count t \<le> accept_capacity t \<and>
    accept_tail t = (accept_head t + accept_count t) mod accept_capacity t"

definition waiting :: "TCPObject \<Rightarrow> TCPConnectionContext list" where
  "waiting t = map (\<lambda>i. the (accept_pending t) ! ((accept_head t + i) mod accept_capacity t)) [0..<accept_count t]"

definition accept_bound :: "TCPObject \<Rightarrow> nat" where
  "accept_bound t = min (if backlog t \<noteq> 0 then backlog t else 1) (accept_capacity t)"

lemma mod_add_eq_iff:
  fixes c :: nat
  assumes "i < c" "j < c"
  shows "(h + i) mod c = (h + j) mod c \<longleftrightarrow> i = j"
proof -
  have less: "i = j" if "(h + i) mod c = (h + j) mod c" "i \<le> j" "j < c" for i j
  proof -
    have "c dvd (h + j) - (h + i)" using that(1,2) by (metis add_le_cancel_left mod_eq_dvd_iff_nat)
    then show ?thesis using that(2,3) by (auto dest!: dvd_imp_le)
  qed
  show ?thesis using less [of i j] less [of j i] assms by (cases "i \<le> j") auto
qed

lemma waiting_enqueue:
  assumes "ring_ok t" "EnqueueAccept c t = (b, t')"
  shows "ring_ok t' \<and> accept_bound t' = accept_bound t \<and>
    list_enq (accept_bound t) c (waiting t) = (b, waiting t')"
proof -
  obtain pending where p: "accept_pending t = Some pending" "length pending = accept_capacity t"
    using assms(1) by (auto simp: ring_ok_def)
  let ?cap = "accept_capacity t" and ?n = "accept_count t"
  have r: "0 < ?cap" "accept_head t < ?cap" "?n \<le> ?cap" "accept_tail t = (accept_head t + ?n) mod ?cap"
    using assms(1) by (auto simp: ring_ok_def)
  show ?thesis
  proof (cases "?n < accept_bound t")
    case True
    then have t': "b" "t' = t\<lparr>accept_pending := Some (pending[accept_tail t := c]),
        accept_tail := (accept_tail t + 1) mod ?cap, accept_count := ?n + 1\<rparr>"
      using assms(2) p r(1) by (auto simp: EnqueueAccept_def Let_def accept_bound_def split: if_splits)
    have n: "?n < ?cap" using True by (simp add: accept_bound_def)
    have "(pending[accept_tail t := c]) ! ((accept_head t + i) mod ?cap) =
        pending ! ((accept_head t + i) mod ?cap)" if "i < ?n" for i
      using that n mod_add_eq_iff [of i ?cap ?n "accept_head t"] r(4) by simp
    moreover have "(pending[accept_tail t := c]) ! ((accept_head t + ?n) mod ?cap) = c"
      using r(1,4) p(2) by simp
    ultimately have "waiting t' = waiting t @ [c]"
      using t'(2) p by (auto simp: waiting_def)
    moreover have "ring_ok t'"
      using t'(2) p r n by (simp add: ring_ok_def mod_simps add.assoc)
    ultimately show ?thesis using t' True by (simp add: list_enq_def accept_bound_def waiting_def)
  next
    case False
    then have "\<not> b \<and> t' = t"
      using assms(2) p r(1) by (auto simp: EnqueueAccept_def Let_def accept_bound_def split: if_splits)
    then show ?thesis using False assms(1) by (simp add: list_enq_def waiting_def)
  qed
qed

lemma waiting_accept:
  assumes "ring_ok t" "Accept t = (r, t')"
  shows "ring_ok t' \<and> accept_bound t' = accept_bound t \<and> list_deq (waiting t) = (r, waiting t')"
proof -
  obtain pending where p: "accept_pending t = Some pending" "length pending = accept_capacity t"
    using assms(1) by (auto simp: ring_ok_def)
  let ?cap = "accept_capacity t" and ?h = "accept_head t"
  have ok: "0 < ?cap" "?h < ?cap" "accept_count t \<le> ?cap" "accept_tail t = (?h + accept_count t) mod ?cap"
    using assms(1) by (auto simp: ring_ok_def)
  show ?thesis
  proof (cases "accept_count t")
    case 0
    then show ?thesis using assms by (simp add: Accept_def list_deq_def waiting_def)
  next
    case (Suc n)
    have t': "r = Some (pending ! ?h)" "t' = t\<lparr>accept_pending := Some (pending[?h := zero_tcp_context]),
        accept_head := (?h + 1) mod ?cap, accept_count := n\<rparr>"
      using assms(2) Suc p by (auto simp: Accept_def)
    have "(pending[?h := zero_tcp_context]) ! (((?h + 1) mod ?cap + i) mod ?cap) = pending ! ((?h + Suc i) mod ?cap)"
      if "i < n" for i
    proof -
      have "(?h + Suc i) mod ?cap \<noteq> ?h"
        using mod_add_eq_iff [of "Suc i" ?cap 0 ?h] that Suc ok by simp
      then show ?thesis by (simp add: mod_simps)
    qed
    then have "waiting t' = map (\<lambda>i. pending ! ((?h + Suc i) mod ?cap)) [0..<n]"
      using t'(2) p by (simp add: waiting_def)
    moreover have "waiting t = pending ! ?h # map (\<lambda>i. pending ! ((?h + Suc i) mod ?cap)) [0..<n]"
      using Suc p ok(2) by (simp add: waiting_def upt_conv_Cons map_Suc_upt [symmetric] comp_def del: upt_Suc)
    moreover have "ring_ok t'" using t'(2) p ok Suc by (simp add: ring_ok_def mod_simps)
    ultimately show ?thesis using t' by (simp add: list_deq_def accept_bound_def)
  qed
qed

interpretation accept_queue: bounded_queue EnqueueAccept Accept ring_ok waiting accept_bound
  using waiting_enqueue waiting_accept by unfold_locales blast+

text \<open>C27. The ring of pending connections is a bounded first-in first-out queue: every sequence of
  arrivals and accepts gets the answers that a list would give which holds at most as many
  connections as the backlog (one, if it is zero) and the array allow.\<close>

theorem accept_queue_fifo:
  assumes "ring_ok t" "queue_run EnqueueAccept Accept ops t = (answers, t')"
  shows "ring_ok t' \<and>
    queue_run (list_enq (accept_bound t)) list_deq ops (waiting t) = (answers, waiting t')"
  using accept_queue.run_refines [OF assms] by blast

definition sample_listener :: TCPObject where
  "sample_listener = snd (TCPObject_Listen 2 (TCPObject_setAcceptQueue
    (Some (replicate 2 zero_tcp_context)) 2 (TCPObject_new None None 0)))"

definition sample_conn :: "nat \<Rightarrow> TCPConnectionContext" where
  "sample_conn n = \<lparr>tc_local = \<lparr>t_address = sample_ip, t_port = 80\<rparr>,
    tc_remote = \<lparr>t_address = sample_peer, t_port = n\<rparr>\<rparr>"

lemma sample_listener_ok: "ring_ok sample_listener" "waiting sample_listener = []" "accept_bound sample_listener = 2"
  by (simp_all add: sample_listener_def TCPObject_Listen_def TCPObject_setAcceptQueue_def TCPObject_new_def
      ring_ok_def waiting_def accept_bound_def)

theorem accept_queue_fifo_witness:
  "fst (queue_run EnqueueAccept Accept [Put (sample_conn 1), Put (sample_conn 2), Put (sample_conn 3), Get, Get, Get]
      sample_listener) =
    [Taken True, Taken True, Taken False, Got (Some (sample_conn 1)), Got (Some (sample_conn 2)), Got None]"
proof -
  let ?ops = "[Put (sample_conn 1), Put (sample_conn 2), Put (sample_conn 3), Get, Get, Get]"
  obtain answers t' where r: "queue_run EnqueueAccept Accept ?ops sample_listener = (answers, t')" by fastforce
  from accept_queue_fifo [OF sample_listener_ok(1) r] sample_listener_ok r show ?thesis
    by (simp add: list_enq_def list_deq_def)
qed


end
