(* ===== verification/Pool.thy ===== *)
theory Pool
  imports Prelude
begin

text \<open>
  The free list of the memory allocator: \<open>SinglePool\<close> of \<open>src/inc/c/mempool.h\<close> and
  \<open>src/lib/cpp/Datype/mempool.cpp\<close>, a chain of pages with an array of slices each.

  The chain is the list of its pools, the root first; \<open>nextpool\<close> and \<open>leftpool\<close> are the neighbours
  in the list. A pointer to a slice is the number of its pool and the index in it. An access
  outside an array or through a null pointer is \<open>None\<close>. Addresses and lengths are natural numbers
  below \<open>2 ^ 64\<close>, sums are reduced with \<open>u64\<close>. Pools of a chain with \<open>owner_id\<close> 1 are placed in
  pages of the free memory itself; for the others the address comes from the default allocator, an
  argument: its answer when the chain has a given number of pools.
\<close>

section \<open>Slices and pools\<close>

record Slice =
  sl_address :: nat
  sl_length :: nat

definition getEndoaddr :: "Slice \<Rightarrow> nat" where
  "getEndoaddr s = u64 (sl_address s + sl_length s)"

definition floorAlign :: "nat \<Rightarrow> nat \<Rightarrow> nat" where
  "floorAlign align val = val div align * align"

definition ceilAlign :: "nat \<Rightarrow> nat \<Rightarrow> nat" where
  "ceilAlign align val = floorAlign align (u64 (val + (align - 1)))"

definition CNT_SLICES_PER_POOL :: nat where
  "CNT_SLICES_PER_POOL = 0x1000 div 16 - 3"

definition pool_size :: nat where
  "pool_size = 0x1000"

record SinglePool =
  slicecnt :: nat
  slices :: "Slice list"
  pool_address :: nat

record PoolChain =
  owner_id :: nat
  chain :: "SinglePool list"

definition new_SinglePool :: "nat \<Rightarrow> SinglePool" where
  "new_SinglePool addr = \<lparr>slicecnt = 0,
     slices = replicate CNT_SLICES_PER_POOL \<lparr>sl_address = 0, sl_length = 0\<rparr>, pool_address = addr\<rparr>"

section \<open>Access by index\<close>

text \<open>The walk along \<open>nextpool\<close>: the number of the pool reached and the levels that are left.\<close>

fun walk :: "SinglePool list \<Rightarrow> nat \<Rightarrow> nat \<times> nat" where
  "walk (p # q # ps) (Suc level) = (let (k, l) = walk (q # ps) level in (Suc k, l))"
| "walk ps level = (0, level)"

definition SinglePool_Locate :: "SinglePool list \<Rightarrow> nat \<Rightarrow> (nat \<times> nat) option" where
  "SinglePool_Locate ch idx =
    (let index = idx mod CNT_SLICES_PER_POOL;
         (k, level) = walk ch (idx div CNT_SLICES_PER_POOL) in
     if level \<noteq> 0 \<or> slicecnt (ch ! k) \<le> index then None else Some (k, index))"

definition load :: "SinglePool list \<Rightarrow> nat \<times> nat \<Rightarrow> Slice option" where
  "load ch p = (case p of (k, j) \<Rightarrow>
    if k < length ch \<and> j < length (slices (ch ! k)) then Some (slices (ch ! k) ! j) else None)"

definition store_slice :: "SinglePool list \<Rightarrow> nat \<times> nat \<Rightarrow> Slice \<Rightarrow> SinglePool list option" where
  "store_slice ch p v = (case p of (k, j) \<Rightarrow>
    if k < length ch \<and> j < length (slices (ch ! k))
    then Some (ch[k := (ch ! k)\<lparr>slices := (slices (ch ! k))[j := v]\<rparr>]) else None)"

fun SinglePool_Length :: "SinglePool list \<Rightarrow> nat" where
  "SinglePool_Length (p # q # ps) =
    (if slicecnt p = 0 then 0 else slicecnt p + SinglePool_Length (q # ps))"
| "SinglePool_Length [p] = slicecnt p"
| "SinglePool_Length [] = 0"

section \<open>Searching a range\<close>

text \<open>The loop over the slices of one pool: \<open>None\<close> goes on with the next pool, \<open>Some None\<close>
  is \<open>-1\<close>.\<close>

fun scan_all :: "Slice list \<Rightarrow> nat \<Rightarrow> Slice \<Rightarrow> nat option option" where
  "scan_all [] i sl = None"
| "scan_all (p # ps) i sl =
    (if sl_address p > sl_address sl then Some None
     else if getEndoaddr p \<ge> getEndoaddr sl then Some (Some i)
     else scan_all ps (i + 1) sl)"

fun scan_non :: "Slice list \<Rightarrow> nat \<Rightarrow> Slice \<Rightarrow> nat option option" where
  "scan_non [] i sl = None"
| "scan_non (p # ps) i sl =
    (if sl_address p \<ge> getEndoaddr sl then Some (Some i)
     else if getEndoaddr p > sl_address sl then Some None
     else scan_non ps (i + 1) sl)"

fun contain_all_loop :: "SinglePool list \<Rightarrow> nat \<Rightarrow> Slice \<Rightarrow> nat option" where
  "contain_all_loop [] lev sl = None"
| "contain_all_loop (p # ps) lev sl =
    (if slicecnt p = 0 then None
     else case scan_all (take (slicecnt p) (slices p)) 0 sl of
       Some r \<Rightarrow> map_option (\<lambda>i. lev * CNT_SLICES_PER_POOL + i) r
     | None \<Rightarrow> contain_all_loop ps (lev + 1) sl)"

definition ifContainAll :: "SinglePool list \<Rightarrow> Slice \<Rightarrow> nat option" where
  "ifContainAll ch sl = contain_all_loop ch 0 sl"

fun contain_non_loop :: "SinglePool list \<Rightarrow> nat \<Rightarrow> Slice \<Rightarrow> nat option option" where
  "contain_non_loop [] lev sl = None"
| "contain_non_loop (p # ps) lev sl =
    (if slicecnt p = 0 then None
     else case scan_non (take (slicecnt p) (slices p)) 0 sl of
       Some r \<Rightarrow> Some (map_option (\<lambda>i. lev * CNT_SLICES_PER_POOL + i) r)
     | None \<Rightarrow> contain_non_loop ps (lev + 1) sl)"

definition ifContainNon :: "SinglePool list \<Rightarrow> Slice \<Rightarrow> nat option" where
  "ifContainNon ch sl =
    (case contain_non_loop ch 0 sl of Some r \<Rightarrow> r | None \<Rightarrow> Some (SinglePool_Length ch))"

section \<open>Removing entries\<close>

text \<open>The destination and the source of a move are each a pool and an index in it.\<close>

definition advance :: "nat \<times> nat \<Rightarrow> nat \<times> nat" where
  "advance p = (case p of (pool, cnt) \<Rightarrow>
    if cnt + 1 \<ge> CNT_SLICES_PER_POOL then (pool + 1, 0) else (pool, cnt + 1))"

fun move_down :: "nat \<Rightarrow> SinglePool list \<Rightarrow> nat \<times> nat \<Rightarrow> nat \<times> nat \<Rightarrow> (SinglePool list \<times> nat \<times> nat) option" where
  "move_down 0 ch dst src = Some (ch, dst)"
| "move_down (Suc n) ch dst src =
    (case load ch src of None \<Rightarrow> None
     | Some v \<Rightarrow> (case store_slice ch dst v of None \<Rightarrow> None
        | Some ch \<Rightarrow> move_down n ch (advance dst) (advance src)))"

fun clear_pools :: "SinglePool list \<Rightarrow> SinglePool list" where
  "clear_pools [] = []"
| "clear_pools (p # ps) = (if slicecnt p = 0 then p # ps else p\<lparr>slicecnt := 0\<rparr> # clear_pools ps)"

definition SinglePool_RemoveAt :: "SinglePool list \<Rightarrow> nat \<Rightarrow> nat \<Rightarrow> (bool \<times> SinglePool list) option" where
  "SinglePool_RemoveAt ch idx cnt_times =
    (if cnt_times = 0 then Some (True, ch)
     else
       (let cnt = SinglePool_Length ch in
        if cnt = 0 \<or> idx + cnt_times > cnt then Some (False, ch)
        else case SinglePool_Locate ch (floorAlign CNT_SLICES_PER_POOL idx) of
          None \<Rightarrow> None
        | Some (dst_pool, _) \<Rightarrow>
            (let src_pool = (case SinglePool_Locate ch (floorAlign CNT_SLICES_PER_POOL (idx + cnt_times)) of
                   Some (k, _) \<Rightarrow> k | None \<Rightarrow> length ch) in
             case move_down (cnt - idx - cnt_times) ch (dst_pool, idx mod CNT_SLICES_PER_POOL)
                    (src_pool, (idx + cnt_times) mod CNT_SLICES_PER_POOL) of
               None \<Rightarrow> None
             | Some (ch, dst_pool, cnt_dst) \<Rightarrow>
                 if dst_pool < length ch
                 then Some (True, take dst_pool ch @ (ch ! dst_pool)\<lparr>slicecnt := cnt_dst\<rparr> #
                                  clear_pools (drop (dst_pool + 1) ch))
                 else None)))"

section \<open>Inserting an entry\<close>

fun last_pool_from :: "SinglePool list \<Rightarrow> nat" where
  "last_pool_from (p # q # ps) = (if slicecnt p \<ge> CNT_SLICES_PER_POOL then Suc (last_pool_from (q # ps)) else 0)"
| "last_pool_from ps = 0"

definition leftpool :: "nat \<Rightarrow> nat option" where
  "leftpool k = (if k = 0 then None else Some (k - 1))"

fun move_up :: "nat \<Rightarrow> SinglePool list \<Rightarrow> nat \<Rightarrow> nat \<Rightarrow> nat option \<Rightarrow> nat \<Rightarrow>
    (SinglePool list \<times> nat \<times> nat) option" where
  "move_up 0 ch last_pool cnt_dst ento_pool cnt_src = Some (ch, last_pool, cnt_dst)"
| "move_up (Suc n) ch last_pool cnt_dst ento_pool cnt_src =
    (case ento_pool of None \<Rightarrow> None
     | Some ento \<Rightarrow>
         (case load ch (ento, cnt_src) of None \<Rightarrow> None
          | Some v \<Rightarrow> (case store_slice ch (last_pool, cnt_dst) v of None \<Rightarrow> None
             | Some ch \<Rightarrow>
                 if cnt_src = 0
                 then move_up n ch ento cnt_src (leftpool ento) (CNT_SLICES_PER_POOL - 1)
                 else move_up n ch ento cnt_src (Some ento) (cnt_src - 1))))"

text \<open>The end of \<open>Insert\<close>: the slices from \<open>idx\<close> on move up by one.\<close>

definition place_slice :: "SinglePool list \<Rightarrow> nat \<Rightarrow> Slice \<Rightarrow> (bool \<times> SinglePool list) option" where
  "place_slice ch idx src =
    (let total_len = SinglePool_Length ch;
         last_pool = last_pool_from ch;
         bump = (\<lambda>ch. ch[last_pool := (ch ! last_pool)\<lparr>slicecnt := slicecnt (ch ! last_pool) + 1\<rparr>]);
         cnt_dst = total_len mod CNT_SLICES_PER_POOL in
     if slicecnt (ch ! last_pool) = 0 \<and> leftpool last_pool = None
     then (if cnt_dst \<noteq> 0 then Some (False, ch)
           else map_option (\<lambda>ch. (True, bump ch)) (store_slice ch (last_pool, cnt_dst) src))
     else
       (let cnt_src = u64 (total_len + (2 ^ 64 - 1)) mod CNT_SLICES_PER_POOL;
            ento_pool = (if slicecnt (ch ! last_pool) = 0 then leftpool last_pool else Some last_pool) in
        case move_up (total_len - idx) ch last_pool cnt_dst ento_pool cnt_src of
          None \<Rightarrow> None
        | Some (ch, k, j) \<Rightarrow> map_option (\<lambda>ch. (True, bump ch)) (store_slice ch (k, j) src)))"

text \<open>
  The tests at the start of \<open>Insert\<close>: a slice that continues its left or its right neighbour is
  merged with it. \<open>Some None\<close> is no merge.
\<close>

definition merge_gap ::
  "SinglePool list \<Rightarrow> nat \<times> nat \<Rightarrow> nat \<Rightarrow> Slice \<Rightarrow> (bool \<times> SinglePool list) option option" where
  "merge_gap ch lp idx left =
    (case SinglePool_Locate ch idx of
       None \<Rightarrow> Some (Some (True, ch))
     | Some rp \<Rightarrow>
         (case load ch rp of None \<Rightarrow> None
          | Some p \<Rightarrow>
              if getEndoaddr left = sl_address p
              then (case store_slice ch lp (left\<lparr>sl_length := u64 (sl_length left + sl_length p)\<rparr>) of
                      None \<Rightarrow> None
                    | Some ch \<Rightarrow> map_option Some (SinglePool_RemoveAt ch idx 1))
              else Some (Some (True, ch))))"

definition merge_left :: "SinglePool list \<Rightarrow> nat \<Rightarrow> Slice \<Rightarrow> (bool \<times> SinglePool list) option option" where
  "merge_left ch idx src =
    (if idx = 0 then Some None
     else case SinglePool_Locate ch (idx - 1) of None \<Rightarrow> None
     | Some lp \<Rightarrow>
         (case load ch lp of None \<Rightarrow> None
          | Some left \<Rightarrow>
              if getEndoaddr left \<noteq> sl_address src then Some None
              else
                (let left = left\<lparr>sl_length := u64 (sl_length left + sl_length src)\<rparr> in
                 case store_slice ch lp left of None \<Rightarrow> None
                 | Some ch \<Rightarrow> merge_gap ch lp idx left)))"

definition merge_right :: "SinglePool list \<Rightarrow> nat \<Rightarrow> Slice \<Rightarrow> (bool \<times> SinglePool list) option option" where
  "merge_right ch idx src =
    (case SinglePool_Locate ch idx of
       None \<Rightarrow> Some None
     | Some rp \<Rightarrow>
         (case load ch rp of None \<Rightarrow> None
          | Some p \<Rightarrow>
              if getEndoaddr src = sl_address p
              then map_option (\<lambda>ch. Some (True, ch))
                     (store_slice ch rp \<lparr>sl_address = sl_address src, sl_length = u64 (sl_length p + sl_length src)\<rparr>)
              else Some None))"

section \<open>Growing the chain\<close>

text \<open>A page for the next pool inside a free slice, apart from a range that is about to be
  removed.\<close>

definition pool_page :: "Slice option \<Rightarrow> Slice \<Rightarrow> nat option" where
  "pool_page excluded p =
    (if sl_length p < pool_size then None
     else
       (let addr = ceilAlign pool_size (sl_address p);
            addr = (case excluded of None \<Rightarrow> addr
              | Some e \<Rightarrow> if addr < getEndoaddr e \<and> u64 (addr + pool_size) > sl_address e
                          then ceilAlign pool_size (getEndoaddr e) else addr);
            end = getEndoaddr p in
        if addr \<ge> sl_address p \<and> addr \<le> end \<and> pool_size \<le> end - addr then Some addr else None))"

fun first_page :: "Slice option \<Rightarrow> Slice list \<Rightarrow> nat option" where
  "first_page excluded [] = None"
| "first_page excluded (p # ps) =
    (case pool_page excluded p of Some a \<Rightarrow> Some a | None \<Rightarrow> first_page excluded ps)"

text \<open>A page at address 0 is a null pointer: the search goes on with the next pool.\<close>

fun find_page :: "Slice option \<Rightarrow> SinglePool list \<Rightarrow> nat option" where
  "find_page excluded [] = None"
| "find_page excluded (p # ps) =
    (if slicecnt p = 0 then None
     else case first_page excluded (take (slicecnt p) (slices p)) of
       Some a \<Rightarrow> if a \<noteq> 0 then Some a else find_page excluded ps
     | None \<Rightarrow> find_page excluded ps)"

text \<open>
  \<open>PrepareNextPool\<close>, \<open>Insert\<close> and \<open>Remove\<close> of a range call each other; their bodies take the
  functions they call as arguments.
\<close>

definition PrepareNextPool_body ::
  "(PoolChain \<Rightarrow> Slice \<Rightarrow> (bool \<times> PoolChain) option) \<Rightarrow> (nat \<Rightarrow> nat option) \<Rightarrow>
   PoolChain \<Rightarrow> Slice option \<Rightarrow> (bool \<times> PoolChain) option" where
  "PrepareNextPool_body rem al root excluded =
    (case (if owner_id root = 1 then find_page excluded (chain root) else al (length (chain root))) of
       None \<Rightarrow> Some (False, root)
     | Some a \<Rightarrow>
         (let cnt = length (chain root);
              root = root\<lparr>chain := chain root @ [new_SinglePool a]\<rparr> in
          if owner_id root = 1
          then (case rem root \<lparr>sl_address = a, sl_length = pool_size\<rparr> of
                  None \<Rightarrow> None
                | Some (removed, root) \<Rightarrow>
                    if \<not> removed then Some (False, root\<lparr>chain := take cnt (chain root)\<rparr>)
                    else Some (True, root))
          else Some (True, root)))"

definition Insert_body ::
  "(PoolChain \<Rightarrow> Slice option \<Rightarrow> (bool \<times> PoolChain) option) \<Rightarrow>
   (PoolChain \<Rightarrow> nat \<Rightarrow> Slice \<Rightarrow> (bool \<times> PoolChain) option) \<Rightarrow>
   PoolChain \<Rightarrow> nat \<Rightarrow> Slice \<Rightarrow> (bool \<times> PoolChain) option" where
  "Insert_body prep ins root idx src =
    (if idx > SinglePool_Length (chain root) then Some (False, root)
     else case merge_left (chain root) idx src of
       None \<Rightarrow> None
     | Some (Some (ok, ch)) \<Rightarrow> Some (ok, root\<lparr>chain := ch\<rparr>)
     | Some None \<Rightarrow>
         (case merge_right (chain root) idx src of
            None \<Rightarrow> None
          | Some (Some (ok, ch)) \<Rightarrow> Some (ok, root\<lparr>chain := ch\<rparr>)
          | Some None \<Rightarrow>
              if slicecnt (last (chain root)) \<ge> CNT_SLICES_PER_POOL - 2
              then (case prep root None of
                      None \<Rightarrow> None
                    | Some (grown, root) \<Rightarrow>
                        if \<not> grown then Some (False, root)
                        else (case ifContainNon (chain root) src of
                                None \<Rightarrow> Some (False, root)
                              | Some idx \<Rightarrow> ins root idx src))
              else map_option (\<lambda>(ok, ch). (ok, root\<lparr>chain := ch\<rparr>)) (place_slice (chain root) idx src)))"

definition split_parent ::
  "(PoolChain \<Rightarrow> nat \<Rightarrow> Slice \<Rightarrow> (bool \<times> PoolChain) option) \<Rightarrow>
   PoolChain \<Rightarrow> nat \<times> nat \<Rightarrow> nat \<Rightarrow> Slice \<Rightarrow> nat \<Rightarrow> Slice \<Rightarrow> (bool \<times> PoolChain) option" where
  "split_parent ins root pp idx parent left_len new_right_part =
    (case store_slice (chain root) pp (parent\<lparr>sl_length := left_len\<rparr>) of
       None \<Rightarrow> None
     | Some ch \<Rightarrow>
         (case ins (root\<lparr>chain := ch\<rparr>) (idx + 1) new_right_part of
            None \<Rightarrow> None
          | Some (True, root) \<Rightarrow> Some (True, root)
          | Some (False, root) \<Rightarrow>
              map_option (\<lambda>ch. (False, root\<lparr>chain := ch\<rparr>))
                (case load (chain root) pp of None \<Rightarrow> None
                 | Some parent' \<Rightarrow>
                     store_slice (chain root) pp (parent'\<lparr>sl_length := sl_length parent\<rparr>))))"

definition Remove_body ::
  "(PoolChain \<Rightarrow> Slice option \<Rightarrow> (bool \<times> PoolChain) option) \<Rightarrow>
   (PoolChain \<Rightarrow> nat \<Rightarrow> Slice \<Rightarrow> (bool \<times> PoolChain) option) \<Rightarrow>
   (PoolChain \<Rightarrow> Slice \<Rightarrow> (bool \<times> PoolChain) option) \<Rightarrow>
   PoolChain \<Rightarrow> Slice \<Rightarrow> (bool \<times> PoolChain) option" where
  "Remove_body prep ins rem root sl =
    (case ifContainAll (chain root) sl of
       None \<Rightarrow> Some (False, root)
     | Some idx \<Rightarrow>
         (let (k, _) = walk (chain root) (idx div CNT_SLICES_PER_POOL);
              pp = (k, idx mod CNT_SLICES_PER_POOL) in
          case load (chain root) pp of
            None \<Rightarrow> None
          | Some parent \<Rightarrow>
              (let parent_end = getEndoaddr parent;
                   slice_end = getEndoaddr sl;
                   left_len = u64 (sl_address sl + (2 ^ 64 - sl_address parent));
                   right_len = u64 (parent_end + (2 ^ 64 - slice_end)) in
               if left_len = 0 \<and> right_len = 0
               then map_option (\<lambda>(ok, ch). (ok, root\<lparr>chain := ch\<rparr>)) (SinglePool_RemoveAt (chain root) idx 1)
               else if left_len > 0 \<and> right_len = 0
               then map_option (\<lambda>ch. (True, root\<lparr>chain := ch\<rparr>))
                      (store_slice (chain root) pp (parent\<lparr>sl_length := left_len\<rparr>))
               else if left_len = 0 \<and> right_len > 0
               then map_option (\<lambda>ch. (True, root\<lparr>chain := ch\<rparr>))
                      (store_slice (chain root) pp \<lparr>sl_address = slice_end, sl_length = right_len\<rparr>)
               else if slicecnt (last (chain root)) \<ge> CNT_SLICES_PER_POOL - 2
               then (case prep root (Some sl) of
                       None \<Rightarrow> None
                     | Some (grown, root) \<Rightarrow>
                         if \<not> grown then Some (False, root) else rem root sl)
               else
                 split_parent ins root pp idx parent left_len
                   \<lparr>sl_address = slice_end, sl_length = right_len\<rparr>)))"

text \<open>
  The first argument bounds the depth of the calls and the repetitions of their loops; \<open>None\<close> is
  also a bound that is too small.
\<close>

fun PrepareNextPool_f :: "nat \<Rightarrow> (nat \<Rightarrow> nat option) \<Rightarrow> PoolChain \<Rightarrow> Slice option \<Rightarrow> (bool \<times> PoolChain) option"
and Insert_f :: "nat \<Rightarrow> (nat \<Rightarrow> nat option) \<Rightarrow> PoolChain \<Rightarrow> nat \<Rightarrow> Slice \<Rightarrow> (bool \<times> PoolChain) option"
and Remove_f :: "nat \<Rightarrow> (nat \<Rightarrow> nat option) \<Rightarrow> PoolChain \<Rightarrow> Slice \<Rightarrow> (bool \<times> PoolChain) option"
where
  "PrepareNextPool_f 0 al root excluded = None"
| "PrepareNextPool_f (Suc n) al root excluded = PrepareNextPool_body (Remove_f n al) al root excluded"
| "Insert_f 0 al root idx src = None"
| "Insert_f (Suc n) al root idx src = Insert_body (PrepareNextPool_f n al) (Insert_f n al) root idx src"
| "Remove_f 0 al root sl = None"
| "Remove_f (Suc n) al root sl =
    Remove_body (PrepareNextPool_f n al) (Insert_f n al) (Remove_f n al) root sl"

text \<open>Four calls deep is enough, as shown below: a chain that has just grown does not grow again.\<close>

definition pool_depth :: nat where
  "pool_depth = 4"

definition SinglePool_Insert ::
  "(nat \<Rightarrow> nat option) \<Rightarrow> PoolChain \<Rightarrow> nat \<Rightarrow> Slice option \<Rightarrow> (bool \<times> PoolChain) option" where
  "SinglePool_Insert al root idx dat =
    (case dat of None \<Rightarrow> Some (False, root) | Some src \<Rightarrow> Insert_f pool_depth al root idx src)"

definition SinglePool_Append :: "(nat \<Rightarrow> nat option) \<Rightarrow> PoolChain \<Rightarrow> Slice \<Rightarrow> (bool \<times> PoolChain) option" where
  "SinglePool_Append al root sl =
    (case ifContainNon (chain root) sl of
       None \<Rightarrow> Some (False, root)
     | Some idx \<Rightarrow> SinglePool_Insert al root idx (Some sl))"

definition SinglePool_Remove :: "(nat \<Rightarrow> nat option) \<Rightarrow> PoolChain \<Rightarrow> Slice \<Rightarrow> (bool \<times> PoolChain) option" where
  "SinglePool_Remove al root sl = Remove_f pool_depth al root sl"

end
