(* ===== verification/PoolArray.thy ===== *)
theory PoolArray
  imports Pool
begin

text \<open>
  The chain of pools of \<open>src/lib/cpp/Datype/mempool.cpp\<close> represents one array of slices: all pools
  before the last used one are full, and looking up, searching, removing and inserting act on the
  chain as on a list (\<open>rep\<close>).
\<close>

section \<open>The chain as one array\<close>

abbreviation N :: nat where "N \<equiv> CNT_SLICES_PER_POOL"

lemma N_bound: "4 < N" "N < 2 ^ 64"
  by (simp_all add: CNT_SLICES_PER_POOL_def)

lemma N_pos [simp]: "0 < N" "N \<noteq> 0"
  using N_bound by simp_all

definition cells :: "SinglePool list \<Rightarrow> Slice list" where
  "cells ch = concat (map slices ch)"

definition shaped :: "SinglePool list \<Rightarrow> bool" where
  "shaped ch \<longleftrightarrow> (\<forall>p \<in> set ch. length (slices p) = N)"

definition counts :: "nat \<Rightarrow> SinglePool list \<Rightarrow> bool" where
  "counts n ch \<longleftrightarrow> map slicecnt ch = map (\<lambda>k. min N (n - k * N)) [0..<length ch]"

definition rep :: "SinglePool list \<Rightarrow> Slice list \<Rightarrow> bool" where
  "rep ch L \<longleftrightarrow> ch \<noteq> [] \<and> shaped ch \<and> counts (length L) ch \<and> length L \<le> N * length ch \<and>
     L = take (length L) (cells ch)"

definition pos :: "nat \<Rightarrow> nat \<times> nat" where
  "pos i = (i div N, i mod N)"

lemma cells_Cons [simp]: "cells (p # ps) = slices p @ cells ps" "cells [] = []"
  by (simp_all add: cells_def)

lemma shaped_Cons [simp]: "shaped (p # ps) \<longleftrightarrow> length (slices p) = N \<and> shaped ps" "shaped []"
  by (auto simp: shaped_def)

lemma length_cells: "shaped ch \<Longrightarrow> length (cells ch) = N * length ch"
  by (induction ch) auto

lemma cells_nth: "shaped ch \<Longrightarrow> i < N * length ch \<Longrightarrow> cells ch ! i = slices (ch ! (i div N)) ! (i mod N)"
proof (induction ch arbitrary: i)
  case (Cons p ps)
  show ?case
  proof (cases "i < N")
    case True then show ?thesis using Cons.prems by (simp add: nth_append)
  next
    case False
    then have "i div N = Suc ((i - N) div N)" "i mod N = (i - N) mod N"
      by (simp_all add: le_div_geq le_mod_geq)
    with False Cons show ?thesis by (simp add: nth_append)
  qed
qed simp

lemma counts_Cons [simp]:
  "counts n (p # ps) \<longleftrightarrow> slicecnt p = min N n \<and> counts (n - N) ps"
proof -
  have "map (\<lambda>k. min N (n - k * N)) [0..<Suc (length ps)] = min N n # map (\<lambda>k. min N (n - N - k * N)) [0..<length ps]"
    by (simp add: upt_conv_Cons map_Suc_upt [symmetric] del: upt_Suc) 
  then show ?thesis by (auto simp: counts_def)
qed

lemma counts_Nil [simp]: "counts n []"
  by (simp add: counts_def)

lemma counts_nth: "counts n ch \<Longrightarrow> k < length ch \<Longrightarrow> slicecnt (ch ! k) = min N (n - k * N)"
  unfolding counts_def by (metis (no_types, lifting) add_0 diff_zero length_map length_upt nth_map nth_upt)

lemma pos_less: "i < N * length ch \<Longrightarrow> fst (pos i) < length ch"
  by (simp add: pos_def less_mult_imp_div_less mult.commute)

lemma load_pos: "shaped ch \<Longrightarrow> i < N * length ch \<Longrightarrow> load ch (pos i) = Some (cells ch ! i)"
  using pos_less [of i ch] by (simp add: load_def pos_def shaped_def cells_nth)

lemma cells_update:
  "shaped ch \<Longrightarrow> k < length ch \<Longrightarrow> j < N \<Longrightarrow>
   cells (ch[k := (ch ! k)\<lparr>slices := (slices (ch ! k))[j := v]\<rparr>]) = (cells ch)[k * N + j := v]"
proof (induction ch arbitrary: k)
  case (Cons p ps)
  then show ?case by (cases k) (auto simp: list_update_append)
qed simp

definition same_counts :: "SinglePool list \<Rightarrow> SinglePool list \<Rightarrow> bool" where
  "same_counts ch ch' \<longleftrightarrow> map slicecnt ch' = map slicecnt ch \<and> map pool_address ch' = map pool_address ch \<and>
     (shaped ch \<longrightarrow> shaped ch')"

lemma same_counts_refl [simp]: "same_counts ch ch"
  by (simp add: same_counts_def)

lemma same_counts_trans: "same_counts a b \<Longrightarrow> same_counts b c \<Longrightarrow> same_counts a c"
  by (auto simp: same_counts_def)

lemma same_counts_length: "same_counts ch ch' \<Longrightarrow> length ch' = length ch"
  unfolding same_counts_def by (metis length_map)

lemma store_pos:
  assumes "shaped ch" "i < N * length ch"
  shows "\<exists>ch'. store_slice ch (pos i) v = Some ch' \<and> cells ch' = (cells ch)[i := v] \<and> same_counts ch ch'"
proof -
  have k: "i div N < length ch" using pos_less [OF assms(2)] by (simp add: pos_def)
  then have "length (slices (ch ! (i div N))) = N" using assms(1) by (simp add: shaped_def)
  moreover have "map slicecnt (ch[i div N := (ch ! (i div N))\<lparr>slices := x\<rparr>]) = map slicecnt ch" 
    "map pool_address (ch[i div N := (ch ! (i div N))\<lparr>slices := x\<rparr>]) = map pool_address ch" for x
    by (simp_all add: map_update list_update_same_conv k)
  moreover have "shaped (ch[i div N := (ch ! (i div N))\<lparr>slices := (slices (ch ! (i div N)))[i mod N := v]\<rparr>])"
    using assms(1) k unfolding shaped_def by (auto dest!: subsetD [OF set_update_subset_insert])
  ultimately show ?thesis
    using cells_update [OF assms(1) k, of "i mod N" v] k
    by (simp add: store_slice_def pos_def same_counts_def)
qed

lemma same_counts_counts: "same_counts ch ch' \<Longrightarrow> counts n ch \<Longrightarrow> counts n ch'"
  using same_counts_length [of ch ch'] by (simp add: counts_def same_counts_def)

lemma same_counts_rep:
  assumes "rep ch L" "same_counts ch ch'" "take (length L) (cells ch') = L'" "length L' = length L"
  shows "rep ch' L'"
proof -
  have "shaped ch'" using assms(1,2) by (simp add: rep_def same_counts_def)
  moreover have "length ch' = length ch" by (rule same_counts_length [OF assms(2)])
  moreover have "counts (length L) ch'" using same_counts_counts [OF assms(2)] assms(1) by (simp add: rep_def)
  ultimately show ?thesis
    using assms(1,3,4) unfolding rep_def by (metis length_0_conv)
qed

section \<open>Length, lookup and search\<close>

lemma Length_counts: "counts n ch \<Longrightarrow> n \<le> N * length ch \<Longrightarrow> SinglePool_Length ch = n"
proof (induction ch arbitrary: n rule: SinglePool_Length.induct)
  case (1 p q ps)
  have sp: "slicecnt p = min N n" and rest: "counts (n - N) (q # ps)" "n - N \<le> N * length (q # ps)"
    using "1.prems" by auto
  show ?case
  proof (cases "n = 0")
    case True then show ?thesis using sp by simp
  next
    case False
    then have "slicecnt p \<noteq> 0" using sp by simp
    with "1.IH" [OF this rest] sp show ?thesis by simp
  qed
qed auto

lemma rep_Length: "rep ch L \<Longrightarrow> SinglePool_Length ch = length L"
  by (simp add: rep_def Length_counts)

lemma walk_reaches: "level < length ch \<Longrightarrow> walk ch level = (level, 0)"
  by (induction ch level rule: walk.induct) auto

lemma walk_stops: "ch \<noteq> [] \<Longrightarrow> length ch \<le> level \<Longrightarrow> walk ch level = (length ch - 1, level + 1 - length ch)"
  by (induction ch level rule: walk.induct) auto

lemma rep_nth: "rep ch L \<Longrightarrow> i < length L \<Longrightarrow> cells ch ! i = L ! i"
  by (metis nth_take rep_def)

lemma rep_less: "rep ch L \<Longrightarrow> i < length L \<Longrightarrow> i < N * length ch"
  by (auto simp: rep_def)

lemma rep_Locate:
  assumes "rep ch L"
  shows "SinglePool_Locate ch i = (if i < length L then Some (pos i) else None)"
proof (cases "i div N < length ch")
  case True
  have c: "counts (length L) ch" using assms by (simp add: rep_def)
  have i: "i div N * N + i mod N = i" "i mod N < N" by simp_all
  have "slicecnt (ch ! (i div N)) \<le> i mod N \<longleftrightarrow> \<not> i < length L"
    unfolding counts_nth [OF c True] using i by linarith
  then show ?thesis
    by (simp add: SinglePool_Locate_def walk_reaches True pos_def)
next
  case False
  then have "\<not> i < length L" using rep_less [OF assms, of i] pos_less [of i ch] by (auto simp: pos_def)
  then show ?thesis using False assms by (simp add: SinglePool_Locate_def walk_stops rep_def)
qed

lemma rep_load: "rep ch L \<Longrightarrow> i < length L \<Longrightarrow> load ch (pos i) = Some (L ! i)"
  using load_pos [of ch i] rep_nth [of ch L i] rep_less [of ch L i] by (simp add: rep_def)

lemma rep_store:
  assumes "rep ch L" "i < length L"
  shows "\<exists>ch'. store_slice ch (pos i) v = Some ch' \<and> rep ch' (L[i := v]) \<and> same_counts ch ch'"
proof -
  obtain ch' where ch': "store_slice ch (pos i) v = Some ch'" "cells ch' = (cells ch)[i := v]" "same_counts ch ch'"
    using store_pos [of ch i v] rep_less [OF assms] assms(1) by (auto simp: rep_def)
  have "take (length L) ((cells ch)[i := v]) = L[i := v]"
    using assms(1) by (metis rep_def take_update_swap)
  with ch' same_counts_rep [OF assms(1) ch'(3)] show ?thesis by simp
qed

lemma scan_all_append:
  "scan_all (xs @ ys) i sl = (case scan_all xs i sl of None \<Rightarrow> scan_all ys (i + length xs) sl | Some r \<Rightarrow> Some r)"
  by (induction xs arbitrary: i) (auto split: option.splits)

lemma scan_non_append:
  "scan_non (xs @ ys) i sl = (case scan_non xs i sl of None \<Rightarrow> scan_non ys (i + length xs) sl | Some r \<Rightarrow> Some r)"
  by (induction xs arbitrary: i) (auto split: option.splits)

lemma scan_all_shift: "scan_all xs (d + i) sl = map_option (map_option (\<lambda>i. d + i)) (scan_all xs i sl)"
  by (induction xs arbitrary: i) (auto simp: add.assoc simp flip: add_Suc_right)

lemma scan_non_shift: "scan_non xs (d + i) sl = map_option (map_option (\<lambda>i. d + i)) (scan_non xs i sl)"
  by (induction xs arbitrary: i) (auto simp: add.assoc simp flip: add_Suc_right)

lemma take_cells_Cons:
  "shaped (p # ps) \<Longrightarrow> counts n (p # ps) \<Longrightarrow> take n (cells (p # ps)) = take (slicecnt p) (slices p) @ take (n - N) (cells ps)"
  by (simp add: min_def)

lemma contain_all_loop_flat:
  "shaped ch \<Longrightarrow> counts n ch \<Longrightarrow>
   contain_all_loop ch lev sl = Option.bind (scan_all (take n (cells ch)) (lev * N) sl) (\<lambda>r. r)"
proof (induction ch arbitrary: n lev)
  case (Cons p ps)
  note tc = take_cells_Cons [OF Cons.prems]
  note sh = scan_all_shift [of "take (slicecnt p) (slices p)" "lev * N" 0 sl, simplified]
  have IH: "contain_all_loop ps (lev + 1) sl = Option.bind (scan_all (take (n - N) (cells ps)) (lev * N + N) sl) (\<lambda>r. r)"
    using Cons.IH [of "n - N" "lev + 1"] Cons.prems by (simp add: add.commute)
  show ?case
  proof (cases "slicecnt p = 0")
    case True
    then have "n = 0" using Cons.prems by (auto simp: min_def split: if_splits)
    then show ?thesis using True by simp
  next
    case False
    have len: "n > N \<Longrightarrow> length (take (slicecnt p) (slices p)) = N" and "n \<le> N \<Longrightarrow> take (n - N) (cells ps) = []"
      using Cons.prems by auto
    then have "scan_all (take (n - N) (cells ps)) (lev * N + length (take (slicecnt p) (slices p))) sl =
        scan_all (take (n - N) (cells ps)) (lev * N + N) sl"
      by (cases "n > N") auto
    then show ?thesis using False IH
      by (auto simp only: contain_all_loop.simps tc scan_all_append sh split: option.splits) 
         (auto simp: map_option_case id_def split: option.splits)
  qed
qed simp

lemma contain_non_loop_flat:
  "shaped ch \<Longrightarrow> counts n ch \<Longrightarrow>
   contain_non_loop ch lev sl = scan_non (take n (cells ch)) (lev * N) sl"
proof (induction ch arbitrary: n lev)
  case (Cons p ps)
  note tc = take_cells_Cons [OF Cons.prems]
  note sh = scan_non_shift [of "take (slicecnt p) (slices p)" "lev * N" 0 sl, simplified]
  have IH: "contain_non_loop ps (lev + 1) sl = scan_non (take (n - N) (cells ps)) (lev * N + N) sl"
    using Cons.IH [of "n - N" "lev + 1"] Cons.prems by (simp add: add.commute)
  show ?case
  proof (cases "slicecnt p = 0")
    case True
    then have "n = 0" using Cons.prems by (auto simp: min_def split: if_splits)
    then show ?thesis using True by simp
  next
    case False
    have len: "n > N \<Longrightarrow> length (take (slicecnt p) (slices p)) = N" and "n \<le> N \<Longrightarrow> take (n - N) (cells ps) = []"
      using Cons.prems by auto
    then have "scan_non (take (n - N) (cells ps)) (lev * N + length (take (slicecnt p) (slices p))) sl =
        scan_non (take (n - N) (cells ps)) (lev * N + N) sl"
      by (cases "n > N") auto
    then show ?thesis using False IH
      by (auto simp only: contain_non_loop.simps tc scan_non_append sh split: option.splits)
         (auto simp: map_option_case split: option.splits)
  qed
qed simp

lemma rep_ifContainAll: "rep ch L \<Longrightarrow> ifContainAll ch sl = Option.bind (scan_all L 0 sl) (\<lambda>r. r)"
  using contain_all_loop_flat [of ch "length L" 0 sl] by (auto simp: rep_def ifContainAll_def)

lemma rep_ifContainNon:
  "rep ch L \<Longrightarrow> ifContainNon ch sl = (case scan_non L 0 sl of None \<Rightarrow> Some (length L) | Some r \<Rightarrow> r)"
  using contain_non_loop_flat [of ch "length L" 0 sl] rep_Length [of ch L]
  by (auto simp: rep_def ifContainNon_def split: option.splits)

section \<open>Removing and inserting entries\<close>

lemma advance_pos: "advance (pos i) = pos (i + 1)"
  by (simp add: advance_def pos_def mod_Suc div_Suc) (metis N_pos(1) Suc_leI mod_less_divisor le_antisym)

lemma patch_Cons:
  assumes "d + length (x # xs) \<le> length c"
  shows "patch (c[d := x]) (d + 1) xs = patch c d (x # xs)"
proof (rule nth_equalityI)
  fix i assume "i < length (patch (c[d := x]) (d + 1) xs)"
  then show "patch (c[d := x]) (d + 1) xs ! i = patch c d (x # xs) ! i"
    using assms by (auto simp: nth_patch nth_Cons' nth_list_update)
qed (use assms in simp)

lemma move_down_spec:
  assumes "shaped ch" "d < s" "s + n \<le> N * length ch"
  shows "\<exists>ch'. move_down n ch (pos d) (pos s) = Some (ch', pos (d + n)) \<and>
    cells ch' = patch (cells ch) d (take n (drop s (cells ch))) \<and> same_counts ch ch'"
  using assms
proof (induction n arbitrary: ch d s)
  case (Suc n)
  let ?v = "cells ch ! s"
  obtain ch1 where ch1: "store_slice ch (pos d) ?v = Some ch1" "cells ch1 = (cells ch)[d := ?v]" "same_counts ch ch1"
    using store_pos [of ch d ?v] Suc.prems by auto
  have sh1: "shaped ch1" "length ch1 = length ch"
    using ch1(3) Suc.prems(1) by (simp_all add: same_counts_def same_counts_length [OF ch1(3)])
  obtain ch2 where ch2: "move_down n ch1 (pos (d + 1)) (pos (s + 1)) = Some (ch2, pos (d + 1 + n))"
    "cells ch2 = patch (cells ch1) (d + 1) (take n (drop (s + 1) (cells ch1)))" "same_counts ch1 ch2"
    using Suc.IH [of ch1 "d + 1" "s + 1"] sh1 Suc.prems by auto
  have len: "length (cells ch) = N * length ch" by (rule length_cells [OF Suc.prems(1)])
  then have "take (Suc n) (drop s (cells ch)) = ?v # take n (drop (s + 1) (cells ch1))"
    using Suc.prems ch1(2) by (simp add: Cons_nth_drop_Suc [symmetric])
  moreover have "patch ((cells ch)[d := ?v]) (d + 1) (take n (drop (s + 1) (cells ch1))) =
      patch (cells ch) d (?v # take n (drop (s + 1) (cells ch1)))"
    using Suc.prems len ch1(2) by (intro patch_Cons) simp
  ultimately have "cells ch2 = patch (cells ch) d (take (Suc n) (drop s (cells ch)))"
    using ch2(2) ch1(2) by simp
  moreover have "load ch (pos s) = Some ?v" using Suc.prems by (intro load_pos) auto
  ultimately show ?case
    using ch1 ch2 same_counts_trans [OF ch1(3) ch2(3)] by (simp add: advance_pos)
qed simp

lemma clear_pools_counts: "counts n ch \<Longrightarrow> counts 0 (clear_pools ch)"
proof (induction ch arbitrary: n)
  case (Cons p ps)
  show ?case
  proof (cases "slicecnt p = 0")
    case True
    then have "n = 0" using Cons.prems by (auto simp: min_def split: if_splits)
    with True Cons.prems show ?thesis by simp
  next
    case False
    with Cons.prems Cons.IH [of "n - N"] show ?thesis by (simp add: min_def split: if_splits)
  qed
qed simp

lemma clear_pools_frame [simp]:
  "map slices (clear_pools ch) = map slices ch" "map pool_address (clear_pools ch) = map pool_address ch"
  "length (clear_pools ch) = length ch"
  by (induction ch) auto

lemma cells_map: "map slices ch' = map slices ch \<Longrightarrow> cells ch' = cells ch"
  by (simp add: cells_def)

lemma shaped_map: "map slices ch' = map slices ch \<Longrightarrow> shaped ch' = shaped ch"
proof -
  have "shaped c = (\<forall>x \<in> set (map slices c). length x = N)" for c by (simp add: shaped_def)
  then show "map slices ch' = map slices ch \<Longrightarrow> shaped ch' = shaped ch" by presburger
qed

lemma counts_append:
  "counts n (xs @ ys) \<longleftrightarrow> counts n xs \<and> counts (n - N * length xs) ys"
  by (induction xs arbitrary: n) (auto simp: algebra_simps)

lemma counts_full: "counts n xs \<Longrightarrow> N * length xs \<le> n \<Longrightarrow> N * length xs \<le> m \<Longrightarrow> counts m xs"
  by (induction xs arbitrary: n m) (auto simp: min_def)

lemma counts_truncate:
  assumes "counts n ch" "m \<le> n" "m div N < length ch"
  shows "counts m (take (m div N) ch @ (ch ! (m div N))\<lparr>slicecnt := m mod N\<rparr> # clear_pools (drop (m div N + 1) ch))"
proof -
  let ?k = "m div N"
  have split: "ch = take ?k ch @ ch ! ?k # drop (?k + 1) ch" using assms(3) by (simp add: id_take_nth_drop)
  have "counts n (take ?k ch)" "counts (n - N * ?k - N) (drop (?k + 1) ch)"
    using assms(1,3) by (subst (asm) split, simp add: counts_append)+
  moreover have "N * ?k \<le> m" "N * ?k \<le> n" "\<not> N \<le> m mod N" using assms(2) by (simp_all add: not_le order_trans [of "N * ?k" m])
  moreover have "m - N * ?k = m mod N" by (simp add: minus_mult_div_eq_mod)
  moreover have "m mod N - N = 0" by simp
  ultimately show ?thesis
    using assms clear_pools_counts [of "n - N * ?k - N" "drop (?k + 1) ch"] counts_full [of n "take ?k ch" m]
    by (simp add: counts_append min_def)
qed

lemma pos_floor: "fst (pos (floorAlign N i)) = fst (pos i)"
  by (simp add: pos_def floorAlign_def)

definition same_pools :: "SinglePool list \<Rightarrow> SinglePool list \<Rightarrow> bool" where
  "same_pools ch ch' \<longleftrightarrow> map pool_address ch' = map pool_address ch"

lemma same_counts_pools: "same_counts ch ch' \<Longrightarrow> same_pools ch ch'"
  by (simp add: same_counts_def same_pools_def)

lemma map_replace:
  assumes "k < length xs" "f y = f (xs ! k)" "map f zs = map f (drop (k + 1) xs)"
  shows "map f (take k xs @ y # zs) = map f xs"
  using assms id_take_nth_drop [OF assms(1)] by (metis Suc_eq_plus1 list.simps(9) map_append)

lemma rep_RemoveAt:
  assumes "rep ch L" "0 < t" "idx + t \<le> length L"
  shows "\<exists>ch'. SinglePool_RemoveAt ch idx t = Some (True, ch') \<and> rep ch' (take idx L @ drop (idx + t) L) \<and> same_pools ch ch'"
proof -
  let ?n = "length L" and ?m = "length L - t"
  have r: "shaped ch" "counts ?n ch" "?n \<le> N * length ch" "take ?n (cells ch) = L" 
    using assms(1) unfolding rep_def by metis+
  have floor: "floorAlign N i \<le> i" for i by (simp add: floorAlign_def)
  have dst: "SinglePool_Locate ch (floorAlign N idx) = Some (pos (floorAlign N idx))"
    using floor [of idx] assms(2,3) by (simp add: rep_Locate [OF assms(1)])
  define sp where "sp = (case SinglePool_Locate ch (floorAlign N (idx + t)) of Some (k, _) \<Rightarrow> k | None \<Rightarrow> length ch)"
  have mv: "\<exists>ch'. move_down (?n - idx - t) ch (pos idx) (sp, (idx + t) mod N) = Some (ch', pos ?m) \<and>
      cells ch' = patch (cells ch) idx (take (?n - idx - t) (drop (idx + t) (cells ch))) \<and> same_counts ch ch'"
  proof (cases "idx + t = ?n")
    case True then show ?thesis by (simp add: True [symmetric])
  next
    case False
    then have "floorAlign N (idx + t) < ?n" using floor [of "idx + t"] assms(3) by linarith
    then have "sp = fst (pos (idx + t))"
      using pos_floor [of "idx + t"] by (simp add: sp_def rep_Locate [OF assms(1)] case_prod_beta)
    then have "(sp, (idx + t) mod N) = pos (idx + t)" by (simp add: pos_def)
    moreover have "idx + (?n - idx - t) = ?m" using assms(2,3) by simp
    ultimately show ?thesis
      using move_down_spec [of ch idx "idx + t" "?n - idx - t"] r assms(2,3) by simp
  qed
  then obtain ch1 where ch1: "move_down (?n - idx - t) ch (pos idx) (sp, (idx + t) mod N) = Some (ch1, pos ?m)"
    "cells ch1 = patch (cells ch) idx (take (?n - idx - t) (drop (idx + t) (cells ch)))" "same_counts ch ch1" by blast
  have sc: "shaped ch1" "length ch1 = length ch" "counts ?n ch1"
    using ch1(3) r same_counts_length [OF ch1(3)] same_counts_counts [OF ch1(3) r(2)] by (simp_all add: same_counts_def)
  let ?k = "?m div N"
  define ch2 where "ch2 = take ?k ch1 @ (ch1 ! ?k)\<lparr>slicecnt := ?m mod N\<rparr> # clear_pools (drop (?k + 1) ch1)"
  have "?m < N * length ch" using assms(2,3) r(3) by linarith
  then have k: "?k < length ch1" using sc(2) by (simp add: less_mult_imp_div_less mult.commute)
  have fr: "map slices ch2 = map slices ch1" "map pool_address ch2 = map pool_address ch1" "length ch2 = length ch1"
    unfolding ch2_def using k map_replace [OF k, of slices] map_replace [OF k, of pool_address] by simp_all
  have L': "take ?m (cells ch1) = take idx L @ drop (idx + t) L"
  proof -
    have L: "L = take ?n (cells ch)" using r(4) by simp
    have "take ?m (cells ch1) = take idx (cells ch) @ take (?n - idx - t) (drop (idx + t) (cells ch))"
      using assms(2,3) r(3) length_cells [OF r(1)] by (simp add: ch1(2) patch_def add.commute)
    moreover have "take idx L = take idx (cells ch)" using assms(3) by (subst L) simp
    moreover have "drop (idx + t) L = take (?n - idx - t) (drop (idx + t) (cells ch))"
      by (subst L) (simp add: drop_take)
    ultimately show ?thesis by simp
  qed
  have len: "length (take idx L @ drop (idx + t) L) = ?m" using assms(3) by simp
  have "rep ch2 (take idx L @ drop (idx + t) L)"
    unfolding rep_def len using fr sc L' cells_map [OF fr(1)] shaped_map [OF fr(1)] k r(3)
      counts_truncate [OF sc(3), of ?m] by (auto simp: ch2_def)
  moreover have "SinglePool_RemoveAt ch idx t = Some (True, ch2)"
    using ch1(1) dst pos_floor [of idx] assms(2,3) k
    by (cases "L = []") (simp_all add: SinglePool_RemoveAt_def rep_Length [OF assms(1)] Let_def ch2_def pos_def sp_def [symmetric] split: prod.split)
  moreover have "same_pools ch ch2" using fr(2) ch1(3) by (simp add: same_pools_def same_counts_def)
  ultimately show ?thesis by blast
qed

lemma last_pool_from_counts:
  "counts n ch \<Longrightarrow> n < N * length ch \<Longrightarrow> last_pool_from ch = n div N"
proof (induction ch arbitrary: n rule: last_pool_from.induct)
  case (1 p q ps)
  show ?case
  proof (cases "n < N")
    case True then show ?thesis using "1.prems" by simp
  next
    case False
    then have "n div N = Suc ((n - N) div N)" by (simp add: le_div_geq)
    with False "1.prems" "1.IH" [of "n - N"] show ?thesis by simp
  qed
qed auto

lemma pos_pred: "0 < i \<Longrightarrow> pos (i - 1) = (if i mod N = 0 then (i div N - 1, N - 1) else (i div N, i mod N - 1))"
proof -
  assume "0 < i"
  then obtain j where i: "i = Suc j" by (cases i) auto
  have "j mod N < N" by simp
  then show ?thesis unfolding i pos_def
    by (cases "Suc (j mod N) = N") (simp_all add: mod_Suc div_Suc)
qed

lemma move_up_spec:
  assumes "shaped ch" "n \<le> i" "i < N * length ch"
    and "n > 0 \<Longrightarrow> ento = Some (fst (pos (i - 1))) \<and> cnt_src = snd (pos (i - 1))"
  shows "\<exists>ch'. move_up n ch (fst (pos i)) (snd (pos i)) ento cnt_src = Some (ch', pos (i - n)) \<and>
    cells ch' = patch (cells ch) (i - n + 1) (take n (drop (i - n) (cells ch))) \<and> same_counts ch ch'"
  using assms
proof (induction n arbitrary: ch i ento cnt_src)
  case (Suc n)
  let ?v = "cells ch ! (i - 1)"
  have len: "length (cells ch) = N * length ch" by (rule length_cells [OF Suc.prems(1)])
  obtain ch1 where ch1: "store_slice ch (pos i) ?v = Some ch1" "cells ch1 = (cells ch)[i := ?v]" "same_counts ch ch1"
    using store_pos [of ch i ?v] Suc.prems by auto
  have sh1: "shaped ch1" "length ch1 = length ch"
    using ch1(3) Suc.prems(1) by (simp_all add: same_counts_def same_counts_length [OF ch1(3)])
  define e where "e = (if snd (pos (i - 1)) = 0 then leftpool (fst (pos (i - 1))) else Some (fst (pos (i - 1))))"
  define c where "c = (if snd (pos (i - 1)) = 0 then N - 1 else snd (pos (i - 1)) - 1)"
  have ec: "n > 0 \<Longrightarrow> e = Some (fst (pos (i - 1 - 1))) \<and> c = snd (pos (i - 1 - 1))"
  proof -
    assume "n > 0"
    then have "0 < i - 1" using Suc.prems(2) by simp
    moreover from this have "(i - 1) mod N \<noteq> 0 \<or> (i - 1) div N \<noteq> 0"
      by (metis add.right_neutral div_mult_mod_eq less_numeral_extra(3) mult_0)
    moreover have pp: "pos (i - 1 - 1) = (if (i - 1) mod N = 0 then ((i - 1) div N - 1, N - 1)
        else ((i - 1) div N, (i - 1) mod N - 1))"
      by (rule pos_pred) (rule calculation)
    ultimately show ?thesis unfolding e_def c_def pp
      by (auto simp: pos_def leftpool_def)
  qed
  obtain ch2 where ch2: "move_up n ch1 (fst (pos (i - 1))) (snd (pos (i - 1))) e c = Some (ch2, pos (i - 1 - n))"
    "cells ch2 = patch (cells ch1) (i - 1 - n + 1) (take n (drop (i - 1 - n) (cells ch1)))" "same_counts ch1 ch2"
  proof -
    have "n \<le> i - 1" "i - 1 < N * length ch1" using Suc.prems(2,3) sh1(2) by simp_all
    from Suc.IH [OF sh1(1) this ec] that show ?thesis by blast
  qed
  have step: "move_up (Suc n) ch (fst (pos i)) (snd (pos i)) ento cnt_src = move_up n ch1 (fst (pos (i - 1))) (snd (pos (i - 1))) e c"
    using Suc.prems ch1(1) load_pos [OF Suc.prems(1), of "i - 1"] by (simp add: e_def c_def)
  have "cells ch2 = patch (cells ch) (i - Suc n + 1) (take (Suc n) (drop (i - Suc n) (cells ch)))"
  proof (rule nth_equalityI)
    show "length (cells ch2) = length (patch (cells ch) (i - Suc n + 1) (take (Suc n) (drop (i - Suc n) (cells ch))))"
      using Suc.prems len by (simp add: ch2(2) ch1(2))
    fix k assume "k < length (cells ch2)"
    then have k: "k < N * length ch" using Suc.prems len by (simp add: ch2(2) ch1(2))
    show "cells ch2 ! k = patch (cells ch) (i - Suc n + 1) (take (Suc n) (drop (i - Suc n) (cells ch))) ! k"
      unfolding ch2(2) using Suc.prems len k
      by (auto simp: nth_patch ch1(2) nth_list_update)
  qed
  with step ch2 same_counts_trans [OF ch1(3) ch2(3)] show ?case by simp
qed simp

lemma counts_bump:
  assumes "counts n ch" "n < N * length ch"
  shows "counts (n + 1) (ch[n div N := (ch ! (n div N))\<lparr>slicecnt := slicecnt (ch ! (n div N)) + 1\<rparr>])"
  using assms
proof (induction ch arbitrary: n)
  case (Cons p ps)
  show ?case
  proof (cases "n < N")
    case True
    then show ?thesis using Cons.prems by (simp add: Suc_diff_le)
  next
    case False
    then have "n div N = Suc ((n - N) div N)" "n + 1 - N = n - N + 1" by (simp_all add: le_div_geq)
    with False Cons show ?thesis by simp
  qed
qed simp

lemma rep_place_slice:
  assumes "rep ch L" "length L < N * length ch" "idx \<le> length L"
    and bound: "length L < 2 ^ 64"
  shows "\<exists>ch'. place_slice ch idx src = Some (True, ch') \<and> rep ch' (take idx L @ src # drop idx L) \<and> same_pools ch ch'"
proof -
  let ?n = "length L"
  have r: "shaped ch" "counts ?n ch" "take ?n (cells ch) = L"
    using assms(1) unfolding rep_def by metis+
  have lp: "last_pool_from ch = fst (pos ?n)" using last_pool_from_counts [OF r(2) assms(2)] by (simp add: pos_def)
  have k: "?n div N < length ch" using pos_less [OF assms(2)] by (simp add: pos_def)
  have sc: "slicecnt (ch ! (?n div N)) = ?n mod N"
  proof -
    have "?n - ?n div N * N = ?n mod N" by (simp add: minus_div_mult_eq_mod)
    moreover have "?n mod N < N" by simp
    ultimately show ?thesis unfolding counts_nth [OF r(2) k] by linarith
  qed
  define bump where "bump = (\<lambda>ch :: SinglePool list. ch[?n div N := (ch ! (?n div N))\<lparr>slicecnt := slicecnt (ch ! (?n div N)) + 1\<rparr>])"
  have fin: "\<exists>ch3. store_slice ch2 (pos idx) src = Some ch3 \<and> rep (bump ch3) (take idx L @ src # drop idx L) \<and> same_pools ch (bump ch3)"
    if ch2: "cells ch2 = patch (cells ch) (idx + 1) (take (?n - idx) (drop idx (cells ch)))" "same_counts ch ch2" for ch2
  proof -
    have sh: "shaped ch2" "length ch2 = length ch"
      using ch2(2) r(1) same_counts_length [OF ch2(2)] by (simp_all add: same_counts_def)
    then obtain ch3 where ch3: "store_slice ch2 (pos idx) src = Some ch3" "cells ch3 = (cells ch2)[idx := src]" "same_counts ch2 ch3"
      using store_pos [of ch2 idx src] assms(2,3) by auto
    have sc3: "same_counts ch ch3" using same_counts_trans [OF ch2(2) ch3(3)] .
    have sh3: "shaped ch3" "length ch3 = length ch"
      using sc3 r(1) same_counts_length [OF sc3] by (simp_all add: same_counts_def)
    have "map slices (bump ch3) = map slices ch3" "map pool_address (bump ch3) = map pool_address ch3"
      using k sh3(2) by (simp_all add: bump_def map_update list_update_same_conv)
    note fr = this
    have len: "length (cells ch) = N * length ch" by (rule length_cells [OF r(1)])
    have "take (?n + 1) (cells ch3) = take idx L @ src # drop idx L"
    proof (rule nth_equalityI)
      show "length (take (?n + 1) (cells ch3)) = length (take idx L @ src # drop idx L)"
        using assms(2,3) len by (simp add: ch3(2) ch2(1))
      fix i assume "i < length (take (?n + 1) (cells ch3))"
      then have i: "i \<le> ?n" by simp
      have nth: "m < ?n \<Longrightarrow> cells ch ! m = L ! m" for m by (rule rep_nth [OF assms(1)])
      show "take (?n + 1) (cells ch3) ! i = (take idx L @ src # drop idx L) ! i"
        using i assms(2,3) len nth [of i] nth [of "i - 1"]
        by (auto simp: ch3(2) ch2(1) nth_patch nth_list_update nth_append nth_Cons')
    qed
    moreover have "counts (?n + 1) (bump ch3)"
      using counts_bump [of ?n ch3] same_counts_counts [OF sc3 r(2)] sh3(2) assms(2) by (simp add: bump_def)
    moreover have "length (take idx L @ src # drop idx L) = ?n + 1" using assms(3) by simp
    ultimately have "rep (bump ch3) (take idx L @ src # drop idx L)"
      using assms(1,2) sh3 cells_map [OF fr(1)] shaped_map [OF fr(1)] k by (auto simp: rep_def bump_def)
    then show ?thesis using ch3(1) fr(2) sc3 by (auto simp: same_pools_def same_counts_def)
  qed
  show ?thesis
  proof (cases "?n = 0")
    case True
    then have "idx = 0" using assms(3) by simp
    moreover have "cells ch = patch (cells ch) (idx + 1) (take (?n - idx) (drop idx (cells ch)))" using True by simp
    ultimately obtain ch3 where "store_slice ch (pos 0) src = Some ch3" "rep (bump ch3) (take idx L @ src # drop idx L)"
      "same_pools ch (bump ch3)" using fin [of ch] True by auto
    then show ?thesis using True sc lp rep_Length [OF assms(1)]
      by (simp add: place_slice_def bump_def pos_def leftpool_def)
  next
    case False
    have src: "u64 (?n + (2 ^ 64 - 1)) mod N = snd (pos (?n - 1))"
    proof -
      have "?n + (2 ^ 64 - 1) = ?n - 1 + 2 ^ 64" using False by simp
      then have "u64 (?n + (2 ^ 64 - 1)) = ?n - 1"
        unfolding u64_def using bound by (simp only: mod_add_self2) simp
      then show ?thesis by (simp add: pos_def)
    qed
    define e where "e = (if slicecnt (ch ! (?n div N)) = 0 then leftpool (?n div N) else Some (?n div N))"
    have dv: "?n mod N \<noteq> 0 \<or> ?n div N \<noteq> 0" using False by (metis add.right_neutral div_mult_mod_eq mult_0)
    have e: "e = Some (fst (pos (?n - 1)))"
      using pos_pred [of ?n] False dv by (auto simp: e_def sc leftpool_def)
    have root: "\<not> (slicecnt (ch ! (?n div N)) = 0 \<and> leftpool (?n div N) = None)"
      using sc dv by (auto simp: leftpool_def)
    obtain ch2 where ch2: "move_up (?n - idx) ch (fst (pos ?n)) (snd (pos ?n)) e (snd (pos (?n - 1))) = Some (ch2, pos idx)"
      "cells ch2 = patch (cells ch) (idx + 1) (take (?n - idx) (drop idx (cells ch)))" "same_counts ch ch2"
      using move_up_spec [OF r(1) _ assms(2), of "?n - idx" e "snd (pos (?n - 1))"] e assms(3) by auto
    from fin [OF ch2(2,3)] obtain ch3 where "store_slice ch2 (pos idx) src = Some ch3"
      "rep (bump ch3) (take idx L @ src # drop idx L)" "same_pools ch (bump ch3)" by blast
    moreover have "place_slice ch idx src =
        (case move_up (?n - idx) ch (?n div N) (?n mod N) e (snd (pos (?n - 1))) of None \<Rightarrow> None
         | Some (ch, k, j) \<Rightarrow> map_option (\<lambda>ch. (True, bump ch)) (store_slice ch (k, j) src))"
      unfolding place_slice_def Let_def rep_Length [OF assms(1)] last_pool_from_counts [OF r(2) assms(2)] src
        if_not_P [OF root] e_def bump_def by (rule refl)
    ultimately show ?thesis using ch2(1) by (simp add: pos_def)
  qed
qed

end
