(* ===== verification/PoolCorrect.thy ===== *)
theory PoolCorrect
  imports PoolArray
begin

text \<open>
  The chain as a sorted list of free slices with gaps between them: \<open>Insert\<close>, \<open>Append\<close> and \<open>Remove\<close>
  of \<open>src/lib/cpp/Datype/mempool.cpp\<close> add and take exactly the bytes of their range, the chain
  grows by a page of free memory or of the default allocator, and the calls of the operations to
  each other end. The locale \<open>free_list\<close> is what the allocator relies on.
\<close>

section \<open>The free list\<close>

definition sl_end :: "Slice \<Rightarrow> nat" where
  "sl_end s = sl_address s + sl_length s"

definition sl_ok :: "Slice \<Rightarrow> bool" where
  "sl_ok s \<longleftrightarrow> 0 < sl_length s \<and> sl_end s < 2 ^ 64"

definition extent :: "Slice \<Rightarrow> nat set" where
  "extent s = {sl_address s..<sl_end s}"

definition bytes_of :: "Slice list \<Rightarrow> nat set" where
  "bytes_of L = (\<Union>s \<in> set L. extent s)"

definition before :: "Slice \<Rightarrow> Slice \<Rightarrow> bool" where
  "before s t \<longleftrightarrow> sl_end s < sl_address t"

definition free_ok :: "Slice list \<Rightarrow> bool" where
  "free_ok L \<longleftrightarrow> (\<forall>s \<in> set L. sl_ok s) \<and> sorted_wrt before L"

lemma getEndoaddr_ok [simp]: "sl_ok s \<Longrightarrow> getEndoaddr s = sl_end s"
  by (simp add: getEndoaddr_def sl_ok_def sl_end_def)

lemma bytes_of_simps [simp]:
  "bytes_of [] = {}" "bytes_of (s # L) = extent s \<union> bytes_of L" "bytes_of (K @ L) = bytes_of K \<union> bytes_of L"
  by (auto simp: bytes_of_def)

lemma free_ok_append:
  "free_ok (K @ L) \<longleftrightarrow> free_ok K \<and> free_ok L \<and> (\<forall>s \<in> set K. \<forall>t \<in> set L. before s t)"
  by (auto simp: free_ok_def sorted_wrt_append)

lemma free_ok_Cons: "free_ok (s # L) \<longleftrightarrow> sl_ok s \<and> free_ok L \<and> (\<forall>t \<in> set L. before s t)"
  by (auto simp: free_ok_def)

lemma free_ok_Nil [simp]: "free_ok []"
  by (simp add: free_ok_def)

lemma free_ok_nth: "free_ok L \<Longrightarrow> i < length L \<Longrightarrow> i \<le> sl_address (L ! i)"
proof (induction i)
  case (Suc i)
  then have "before (L ! i) (L ! Suc i)" by (simp add: free_ok_def sorted_wrt_nth_less)
  with Suc show ?case by (simp add: before_def sl_end_def)
qed simp

lemma free_ok_short: assumes "free_ok L" shows "length L < 2 ^ 64"
proof (cases L)
  case (Cons s K)
  then have i: "length L - 1 < length L" by simp
  then have "sl_ok (L ! (length L - 1))" using assms by (simp add: free_ok_def)
  then have "length L - 1 < 2 ^ 64 - 1" using free_ok_nth [OF assms i] by (simp add: sl_ok_def sl_end_def)
  then show ?thesis by simp
qed simp

text \<open>Where a slice belongs.\<close>

definition fits :: "Slice list \<Rightarrow> nat \<Rightarrow> Slice \<Rightarrow> bool" where
  "fits L i sl \<longleftrightarrow> i \<le> length L \<and> (\<forall>p \<in> set (take i L). sl_end p \<le> sl_address sl) \<and>
     (\<forall>p \<in> set (drop i L). sl_end sl \<le> sl_address p)"

lemma scan_non_spec:
  assumes "free_ok L" "sl_ok sl"
  shows "case scan_non L 0 sl of
     None \<Rightarrow> fits L (length L) sl
   | Some None \<Rightarrow> extent sl \<inter> bytes_of L \<noteq> {}
   | Some (Some i) \<Rightarrow> fits L i sl"
  using assms(1)
proof (induction L)
  case (Cons p L)
  have p: "sl_ok p" "free_ok L" "\<forall>t \<in> set L. sl_end p < sl_address t"
    using Cons.prems by (auto simp: free_ok_Cons before_def)
  consider "sl_end sl \<le> sl_address p" | "sl_address p < sl_end sl" "sl_address sl < sl_end p"
    | "sl_address p < sl_end sl" "sl_end p \<le> sl_address sl" by linarith
  then show ?case
  proof cases
    case 1
    then have "\<forall>t \<in> set L. sl_end sl \<le> sl_address t" using p by (auto simp: sl_end_def)
    with 1 show ?thesis using assms(2) by (simp add: fits_def)
  next
    case 2
    then have "max (sl_address p) (sl_address sl) \<in> extent sl \<inter> extent p"
      using p(1) assms(2) by (auto simp: extent_def sl_ok_def sl_end_def)
    with 2 show ?thesis using p(1) assms(2) by auto
  next
    case 3
    have "scan_non (p # L) 0 sl = map_option (map_option Suc) (scan_non L 0 sl)"
      using 3 p(1) assms(2) scan_non_shift [of L 1 0 sl] by simp
    with Cons.IH [OF p(2)] 3 show ?thesis
      by (auto simp: fits_def split: option.splits)
  qed
qed (simp add: fits_def)

lemma scan_all_spec:
  assumes "free_ok L" "sl_ok sl"
  shows "case scan_all L 0 sl of
     Some (Some i) \<Rightarrow> i < length L \<and> sl_address (L ! i) \<le> sl_address sl \<and> sl_end sl \<le> sl_end (L ! i)
   | _ \<Rightarrow> \<not> extent sl \<subseteq> bytes_of L"
  using assms(1)
proof (induction L)
  case Nil
  show ?case using assms(2) by (simp add: extent_def sl_ok_def sl_end_def)
next
  case (Cons p L)
  have p: "sl_ok p" "free_ok L" "\<forall>t \<in> set L. sl_end p < sl_address t"
    using Cons.prems by (auto simp: free_ok_Cons before_def)
  have own: "sl_address sl \<in> extent sl" "sl_end sl - 1 \<in> extent sl"
    using assms(2) by (auto simp: extent_def sl_ok_def sl_end_def)
  consider "sl_address p > sl_address sl" | "sl_address p \<le> sl_address sl" "sl_end sl \<le> sl_end p"
    | "sl_address p \<le> sl_address sl" "sl_end p < sl_end sl" by linarith
  then show ?case
  proof cases
    case 1
    then have "sl_address sl \<notin> bytes_of (p # L)"
      using p by (auto simp: bytes_of_def extent_def sl_end_def)
    with 1 own show ?thesis by auto
  next
    case 2 then show ?thesis using p assms(2) by simp
  next
    case 3
    have eq: "scan_all (p # L) 0 sl = map_option (map_option Suc) (scan_all L 0 sl)"
      using 3 p(1) assms(2) scan_all_shift [of L 1 0 sl] by simp
    have "\<not> extent sl \<subseteq> bytes_of (p # L)" if not: "\<not> extent sl \<subseteq> bytes_of L"
    proof
      assume sub: "extent sl \<subseteq> bytes_of (p # L)"
      show False
      proof (cases "sl_address sl < sl_end p")
        case True
        then have "sl_end p \<in> extent sl" using 3 by (simp add: extent_def)
        moreover have "sl_end p \<notin> bytes_of (p # L)" using p by (auto simp: bytes_of_def extent_def)
        ultimately show False using sub by blast
      next
        case False
        then have "extent sl \<inter> extent p = {}" by (auto simp: extent_def)
        with sub not show False by auto
      qed
    qed
    with Cons.IH [OF p(2)] show ?thesis unfolding eq
      by (auto split: option.splits)
  qed
qed

text \<open>Inserting a slice that fits, merged with the neighbours it touches.\<close>

definition joins_left :: "Slice list \<Rightarrow> nat \<Rightarrow> Slice \<Rightarrow> bool" where
  "joins_left L i sl \<longleftrightarrow> 0 < i \<and> sl_end (L ! (i - 1)) = sl_address sl"

definition joins_right :: "Slice list \<Rightarrow> nat \<Rightarrow> Slice \<Rightarrow> bool" where
  "joins_right L i sl \<longleftrightarrow> i < length L \<and> sl_end sl = sl_address (L ! i)"

definition free_insert :: "Slice list \<Rightarrow> nat \<Rightarrow> Slice \<Rightarrow> Slice list" where
  "free_insert L i sl =
    (if joins_left L i sl then
       (let l = L ! (i - 1) in
        if joins_right L i sl
        then take i (L[i - 1 := \<lparr>sl_address = sl_address l, sl_length = sl_length l + sl_length sl + sl_length (L ! i)\<rparr>])
               @ drop (i + 1) L
        else L[i - 1 := \<lparr>sl_address = sl_address l, sl_length = sl_length l + sl_length sl\<rparr>])
     else if joins_right L i sl
     then L[i := \<lparr>sl_address = sl_address sl, sl_length = sl_length (L ! i) + sl_length sl\<rparr>]
     else take i L @ sl # drop i L)"

lemma free_insert_ok:
  assumes "free_ok L" "sl_ok sl" "fits L i sl"
  shows "free_ok (free_insert L i sl) \<and> bytes_of (free_insert L i sl) = bytes_of L \<union> extent sl"
proof -
  obtain xs ys where L: "L = xs @ ys" "length xs = i"
    using assms(3) by (metis append_take_drop_id fits_def length_take min.absorb2)
  have xs: "free_ok xs" "\<forall>p \<in> set xs. sl_end p \<le> sl_address sl"
    and ys: "free_ok ys" "\<forall>p \<in> set ys. sl_end sl \<le> sl_address p"
    and xy: "\<forall>s \<in> set xs. \<forall>t \<in> set ys. before s t"
    using assms L by (auto simp: free_ok_append fits_def)
  have left: "joins_left L i sl \<longleftrightarrow> (\<exists>xs' l. xs = xs' @ [l] \<and> sl_end l = sl_address sl)"
    using L by (cases xs rule: rev_cases) (auto simp: joins_left_def nth_append)
  have right: "joins_right L i sl \<longleftrightarrow> (\<exists>r ys'. ys = r # ys' \<and> sl_end sl = sl_address r)"
    using L by (cases ys) (auto simp: joins_right_def nth_append)
  have gapl: "\<not> joins_left L i sl \<Longrightarrow> \<forall>s \<in> set xs. before s sl"
  proof (cases xs rule: rev_cases)
    case (snoc xs' l)
    assume "\<not> joins_left L i sl"
    then have "sl_end l < sl_address sl" using left xs(2) snoc by force
    moreover have "\<forall>s \<in> set xs'. sl_end s < sl_address l" using xs(1) snoc by (simp add: free_ok_append before_def)
    ultimately show ?thesis using snoc by (auto simp: before_def sl_end_def)
  qed simp
  have gapr: "\<not> joins_right L i sl \<Longrightarrow> \<forall>t \<in> set ys. before sl t"
  proof (cases ys)
    case (Cons r ys')
    assume "\<not> joins_right L i sl"
    then have "sl_end sl < sl_address r" using right ys(2) Cons by force
    moreover have "\<forall>t \<in> set ys'. sl_end r < sl_address t" using ys(1) Cons by (simp add: free_ok_Cons before_def)
    ultimately show ?thesis using Cons by (auto simp: before_def sl_end_def)
  qed simp
  show ?thesis
  proof (cases "joins_left L i sl")
    case True
    then obtain xs' l where l: "xs = xs' @ [l]" "sl_end l = sl_address sl" using left by blast
    show ?thesis
    proof (cases "joins_right L i sl")
      case jr: True
      then obtain r ys' where r: "ys = r # ys'" "sl_end sl = sl_address r" using right by blast
      have "free_insert L i sl = xs' @ \<lparr>sl_address = sl_address l, sl_length = sl_length l + sl_length sl + sl_length r\<rparr> # ys'"
        using True jr L l r by (auto simp: free_insert_def Let_def nth_append list_update_append)
      then show ?thesis
        using xs ys xy assms(2) l r L
        by (auto simp: free_ok_append free_ok_Cons sl_ok_def sl_end_def before_def extent_def)
    next
      case jr: False
      have "free_insert L i sl = xs' @ \<lparr>sl_address = sl_address l, sl_length = sl_length l + sl_length sl\<rparr> # ys"
        using True jr L l by (auto simp: free_insert_def Let_def nth_append list_update_append)
      then show ?thesis
        using xs ys xy assms(2) l L gapr [OF jr]
        by (auto simp: free_ok_append free_ok_Cons sl_ok_def sl_end_def before_def extent_def)
    qed
  next
    case jl: False
    show ?thesis
    proof (cases "joins_right L i sl")
      case True
      then obtain r ys' where r: "ys = r # ys'" "sl_end sl = sl_address r" using right by blast
      have "free_insert L i sl = xs @ \<lparr>sl_address = sl_address sl, sl_length = sl_length r + sl_length sl\<rparr> # ys'"
        using jl True L r by (auto simp: free_insert_def nth_append list_update_append)
      then show ?thesis
        using xs ys xy assms(2) r L gapl [OF jl]
        by (auto simp: free_ok_append free_ok_Cons sl_ok_def sl_end_def before_def extent_def)
    next
      case False
      have "free_insert L i sl = xs @ sl # ys" using jl False L by (simp add: free_insert_def)
      then show ?thesis
        using xs ys xy assms(2) L gapl [OF jl] gapr [OF False] by (auto simp: free_ok_append free_ok_Cons)
    qed
  qed
qed

section \<open>Insert without growth\<close>

lemma fits_sum:
  assumes "free_ok L" "sl_ok sl" "fits L i sl"
  shows "0 < i \<Longrightarrow> sl_ok (L ! (i - 1)) \<and> sl_end (L ! (i - 1)) \<le> sl_address sl"
    and "i < length L \<Longrightarrow> sl_ok (L ! i) \<and> sl_end sl \<le> sl_address (L ! i)"
proof -
  show "sl_ok (L ! (i - 1)) \<and> sl_end (L ! (i - 1)) \<le> sl_address sl" if "0 < i"
  proof -
    have i: "i \<le> length L" using assms(3) by (simp add: fits_def)
    with that have "take i L ! (i - 1) \<in> set (take i L)" by (intro nth_mem) simp
    then have "L ! (i - 1) \<in> set (take i L)" using that by simp
    then show ?thesis using assms by (auto simp: fits_def free_ok_def dest: in_set_takeD)
  qed
  show "i < length L \<Longrightarrow> sl_ok (L ! i) \<and> sl_end sl \<le> sl_address (L ! i)"
    using assms by (auto simp: fits_def free_ok_def Cons_nth_drop_Suc [symmetric])
qed

lemma sl_update: "(s :: Slice)\<lparr>sl_length := n\<rparr> = \<lparr>sl_address = sl_address s, sl_length = n\<rparr>"
  by (cases s) simp

lemma same_pools_trans: "same_pools a b \<Longrightarrow> same_pools b c \<Longrightarrow> same_pools a c"
  by (simp add: same_pools_def)

lemma merge_left_spec:
  assumes "rep ch L" "free_ok L" "sl_ok sl" "fits L i sl"
  shows "if joins_left L i sl
    then \<exists>ch'. merge_left ch i sl = Some (Some (True, ch')) \<and> rep ch' (free_insert L i sl) \<and> same_pools ch ch'
    else merge_left ch i sl = Some None"
proof (cases "i = 0")
  case True then show ?thesis by (simp add: joins_left_def merge_left_def)
next
  case False
  then have i: "i - 1 < length L" "0 < i" "i \<le> length L" using assms(4) by (auto simp: fits_def)
  let ?l = "L ! (i - 1)"
  have l: "sl_ok ?l" "sl_end ?l \<le> sl_address sl" using fits_sum(1) [OF assms(2-4) i(2)] by auto
  have loc: "SinglePool_Locate ch (i - 1) = Some (pos (i - 1))" "load ch (pos (i - 1)) = Some ?l"
    using rep_Locate [OF assms(1)] rep_load [OF assms(1)] i by simp_all
  show ?thesis
  proof (cases "sl_end ?l = sl_address sl")
    case False
    then show ?thesis using i loc l by (simp add: joins_left_def merge_left_def)
  next
    case True
    define l' where "l' = \<lparr>sl_address = sl_address ?l, sl_length = sl_length ?l + sl_length sl\<rparr>"
    have l': "sl_ok l'" "sl_end l' = sl_end sl" "u64 (sl_length ?l + sl_length sl) = sl_length l'"
      using l assms(3) True by (auto simp: l'_def sl_ok_def sl_end_def)
    obtain ch1 where ch1: "store_slice ch (pos (i - 1)) l' = Some ch1" "rep ch1 (L[i - 1 := l'])" "same_counts ch ch1"
      using rep_store [OF assms(1) i(1), of l'] by blast
    have right: "SinglePool_Locate ch1 i = (if i < length L then Some (pos i) else None)"
      "i < length L \<Longrightarrow> load ch1 (pos i) = Some (L ! i)"
      using rep_Locate [OF ch1(2), of i] rep_load [OF ch1(2), of i] i(2) by simp_all
    have upd: "?l\<lparr>sl_length := u64 (sl_length ?l + sl_length sl)\<rparr> = l'"
      using l'(3) by (simp add: sl_update l'_def)
    have ml: "merge_left ch i sl = merge_gap ch1 (pos (i - 1)) i l'"
      unfolding merge_left_def Let_def using i loc True l ch1(1) upd by simp
    show ?thesis
    proof (cases "joins_right L i sl")
      case jr: False
      have "merge_left ch i sl = Some (Some (True, ch1))"
        using jr l' right unfolding ml by (auto simp: joins_right_def merge_gap_def)
      then show ?thesis
        using True i jr ch1 same_counts_pools [OF ch1(3)] by (simp add: joins_left_def free_insert_def l'_def Let_def)
    next
      case jr: True
      then have r: "i < length L" "sl_end sl = sl_address (L ! i)" by (auto simp: joins_right_def)
      have "sl_ok (L ! i)" using fits_sum(2) [OF assms(2-4) r(1)] by simp
      then have u: "u64 (sl_length l' + sl_length (L ! i)) = sl_length l' + sl_length (L ! i)"
        using r(2) l' by (simp add: sl_ok_def sl_end_def)
      define l2 where "l2 = \<lparr>sl_address = sl_address ?l, sl_length = sl_length ?l + sl_length sl + sl_length (L ! i)\<rparr>"
      obtain ch2 where ch2: "store_slice ch1 (pos (i - 1)) l2 = Some ch2" "rep ch2 ((L[i - 1 := l'])[i - 1 := l2])" "same_counts ch1 ch2"
        using rep_store [OF ch1(2), of "i - 1" l2] i(1) by auto
      obtain ch3 where ch3: "SinglePool_RemoveAt ch2 i 1 = Some (True, ch3)"
        "rep ch3 (take i (L[i - 1 := l2]) @ drop (i + 1) (L[i - 1 := l2]))" "same_pools ch2 ch3"
        using rep_RemoveAt [OF ch2(2), of 1 i] r(1) by auto
      have "l'\<lparr>sl_length := u64 (sl_length l' + sl_length (L ! i))\<rparr> = l2"
        unfolding sl_update u by (simp add: l2_def l'_def)
      then have "merge_left ch i sl = Some (Some (True, ch3))"
        using r l' right ch2(1) ch3(1) unfolding ml by (simp add: merge_gap_def)
      moreover have "free_insert L i sl = take i (L[i - 1 := l2]) @ drop (i + 1) (L[i - 1 := l2])"
        using True i jr by (simp add: free_insert_def joins_left_def l2_def Let_def)
      moreover have "same_pools ch ch3"
        using ch1(3) ch2(3) ch3(3) by (simp add: same_pools_def same_counts_def)
      ultimately show ?thesis using True i ch3 by (simp add: joins_left_def)
    qed
  qed
qed

lemma merge_right_spec:
  assumes "rep ch L" "free_ok L" "sl_ok sl" "fits L i sl" "\<not> joins_left L i sl"
  shows "if joins_right L i sl
    then \<exists>ch'. merge_right ch i sl = Some (Some (True, ch')) \<and> rep ch' (free_insert L i sl) \<and> same_pools ch ch'
    else merge_right ch i sl = Some None"
proof (cases "i < length L")
  case False then show ?thesis by (simp add: joins_right_def merge_right_def rep_Locate [OF assms(1)])
next
  case True
  let ?r = "L ! i"
  have r: "sl_ok ?r" "sl_end sl \<le> sl_address ?r" using fits_sum(2) [OF assms(2-4) True] by auto
  have loc: "SinglePool_Locate ch i = Some (pos i)" "load ch (pos i) = Some ?r"
    using rep_Locate [OF assms(1)] rep_load [OF assms(1)] True by simp_all
  show ?thesis
  proof (cases "sl_end sl = sl_address ?r")
    case False
    then show ?thesis using loc assms(3) by (simp add: joins_right_def merge_right_def)
  next
    case jr: True
    have u: "u64 (sl_length ?r + sl_length sl) = sl_length ?r + sl_length sl"
      using r assms(3) jr by (simp add: sl_ok_def sl_end_def)
    obtain ch1 where ch1: "store_slice ch (pos i) \<lparr>sl_address = sl_address sl, sl_length = sl_length ?r + sl_length sl\<rparr> = Some ch1"
      "rep ch1 (L[i := \<lparr>sl_address = sl_address sl, sl_length = sl_length ?r + sl_length sl\<rparr>])" "same_counts ch ch1"
      using rep_store [OF assms(1) True] by blast
    then show ?thesis
      using loc jr True assms(3,5) same_counts_pools [OF ch1(3)]
      by (simp add: merge_right_def joins_right_def free_insert_def u)
  qed
qed

text \<open>Inserting where there is room, in a chain whose last pool is not nearly full.\<close>

definition roomy :: "SinglePool list \<Rightarrow> bool" where
  "roomy ch \<longleftrightarrow> slicecnt (last ch) < N - 2"

lemma roomy_room:
  assumes "rep ch L" "roomy ch"
  shows "length L < N * length ch"
proof -
  have ch: "ch \<noteq> []" "counts (length L) ch" using assms(1) by (auto simp: rep_def)
  then have "slicecnt (last ch) = min N (length L - (length ch - 1) * N)"
    by (simp add: counts_nth last_conv_nth)
  moreover have "(length ch - 1) * N + N = N * length ch" using ch(1) by (cases ch) (auto simp: algebra_simps)
  ultimately show ?thesis using assms(2) unfolding roomy_def by linarith
qed

lemma Insert_room:
  assumes "rep (chain root) L" "free_ok L" "sl_ok sl" "fits L i sl"
    and "joins_left L i sl \<or> joins_right L i sl \<or> roomy (chain root)"
  shows "\<exists>ch'. Insert_f (Suc n) al root i sl = Some (True, root\<lparr>chain := ch'\<rparr>) \<and>
    rep ch' (free_insert L i sl) \<and> same_pools (chain root) ch'"
proof -
  have idx: "\<not> i > SinglePool_Length (chain root)"
    using assms(4) by (simp add: rep_Length [OF assms(1)] fits_def)
  note mls = merge_left_spec [OF assms(1-4)]
  show ?thesis
  proof (cases "joins_left L i sl")
    case True
    then show ?thesis using mls idx by (auto simp: Insert_body_def)
  next
    case jl: False
    note mrs = merge_right_spec [OF assms(1-4) jl]
    show ?thesis
    proof (cases "joins_right L i sl")
      case True
      then show ?thesis using mls mrs idx jl by (auto simp: Insert_body_def)
    next
      case jr: False
      then have roomy: "roomy (chain root)" using assms(5) jl by blast
      have i: "i \<le> length L" using assms(4) by (simp add: fits_def)
      from rep_place_slice [OF assms(1) roomy_room [OF assms(1) roomy] i free_ok_short [OF assms(2)], of sl]
      obtain ch' where ch': "place_slice (chain root) i sl = Some (True, ch')"
        "rep ch' (take i L @ sl # drop i L)" "same_pools (chain root) ch'" by blast
      have "Insert_f (Suc n) al root i sl = Some (True, root\<lparr>chain := ch'\<rparr>)"
        using mls mrs idx jl jr roomy ch'(1) by (simp add: Insert_body_def roomy_def)
      moreover have "free_insert L i sl = take i L @ sl # drop i L" using jl jr by (simp add: free_insert_def)
      ultimately show ?thesis using ch' by auto
    qed
  qed
qed

section \<open>Removing a range without growth\<close>

definition left_part :: "Slice \<Rightarrow> Slice \<Rightarrow> Slice" where
  "left_part p sl = \<lparr>sl_address = sl_address p, sl_length = sl_address sl - sl_address p\<rparr>"

definition right_part :: "Slice \<Rightarrow> Slice \<Rightarrow> Slice" where
  "right_part p sl = \<lparr>sl_address = sl_end sl, sl_length = sl_end p - sl_end sl\<rparr>"

definition free_remove :: "Slice list \<Rightarrow> nat \<Rightarrow> Slice \<Rightarrow> Slice list" where
  "free_remove L i sl = take i L @ (if sl_address (L ! i) < sl_address sl then [left_part (L ! i) sl] else []) @
     (if sl_end sl < sl_end (L ! i) then [right_part (L ! i) sl] else []) @ drop (i + 1) L"

definition inside :: "Slice list \<Rightarrow> nat \<Rightarrow> Slice \<Rightarrow> bool" where
  "inside L i sl \<longleftrightarrow> i < length L \<and> sl_address (L ! i) \<le> sl_address sl \<and> sl_end sl \<le> sl_end (L ! i)"

lemma free_remove_ok:
  assumes "free_ok L" "sl_ok sl" "inside L i sl"
  shows "free_ok (free_remove L i sl) \<and> bytes_of (free_remove L i sl) = bytes_of L - extent sl"
proof -
  obtain xs p ys where L: "L = xs @ p # ys" "length xs = i"
    using assms(3) by (metis id_take_nth_drop inside_def length_take less_imp_le_nat min.absorb2)
  have fo: "free_ok xs" "sl_ok p" "free_ok ys" "\<forall>s \<in> set xs. before s p" "\<forall>t \<in> set ys. before p t"
    "\<forall>s \<in> set xs. \<forall>t \<in> set ys. before s t"
    using assms(1) L by (auto simp: free_ok_append free_ok_Cons)
  have p: "sl_address p \<le> sl_address sl" "sl_end sl \<le> sl_end p" using assms(3) L by (auto simp: inside_def)
  have eq: "free_remove L i sl = xs @ (if sl_address p < sl_address sl then [left_part p sl] else []) @
     (if sl_end sl < sl_end p then [right_part p sl] else []) @ ys"
    unfolding L(1) using L(2) by (auto simp: free_remove_def nth_append)
  have out: "bytes_of xs \<inter> extent sl = {}" "bytes_of ys \<inter> extent sl = {}"
    using fo(4,5) p by (fastforce simp: bytes_of_def extent_def before_def)+
  have parts: "extent p - extent sl = (if sl_address p < sl_address sl then extent (left_part p sl) else {}) \<union>
     (if sl_end sl < sl_end p then extent (right_part p sl) else {})"
    using p assms(2) by (auto simp: extent_def sl_end_def left_part_def right_part_def sl_ok_def)
  have "bytes_of (free_remove L i sl) = bytes_of xs \<union> (extent p - extent sl) \<union> bytes_of ys"
    unfolding eq parts by auto
  then have "bytes_of (free_remove L i sl) = bytes_of L - extent sl" using out by (auto simp: L(1))
  moreover have "free_ok (free_remove L i sl)"
    unfolding eq using fo p assms(2)
    by (auto simp: free_ok_append free_ok_Cons sl_ok_def sl_end_def left_part_def right_part_def before_def)
  ultimately show ?thesis by blast
qed

lemma u64_sub: "b \<le> a \<Longrightarrow> a < 2 ^ 64 \<Longrightarrow> u64 (a + (2 ^ 64 - b)) = a - b"
proof -
  assume "b \<le> a" "a < 2 ^ 64"
  then have "a + (2 ^ 64 - b) = a - b + 2 ^ 64" by linarith
  then show ?thesis unfolding u64_def using \<open>a < 2 ^ 64\<close> by (simp only: mod_add_self2) simp
qed

lemma free_ok_inside_nth:
  assumes "free_ok L" "i < length L"
  shows "sl_ok (L ! i)" "\<forall>s \<in> set (take i L). before s (L ! i)" "\<forall>t \<in> set (drop (i + 1) L). before (L ! i) t"
  using assms id_take_nth_drop [OF assms(2)]
  by (metis Suc_eq_plus1 free_ok_Cons free_ok_append list.set_intros(1))+

lemma split_insert:
  assumes "free_ok L" "sl_ok sl" "inside L i sl"
    and gap: "sl_address (L ! i) < sl_address sl" "sl_end sl < sl_end (L ! i)"
  defines "L1 \<equiv> L[i := left_part (L ! i) sl]" and "r \<equiv> right_part (L ! i) sl"
  shows "free_ok L1" "sl_ok r" "fits L1 (i + 1) r" "\<not> joins_left L1 (i + 1) r" "\<not> joins_right L1 (i + 1) r"
    "free_insert L1 (i + 1) r = free_remove L i sl"
proof -
  have i: "i < length L" using assms(3) by (simp add: inside_def)
  have L1: "L1 = take i L @ left_part (L ! i) sl # drop (i + 1) L"
    using i by (simp add: L1_def upd_conv_take_nth_drop)
  note nb = free_ok_inside_nth [OF assms(1) i]
  have parts: "free_ok (take i L)" "free_ok (drop (i + 1) L)" "\<forall>s \<in> set (take i L). \<forall>t \<in> set (drop (i + 1) L). before s t"
    using assms(1) id_take_nth_drop [OF i] by (metis Suc_eq_plus1 free_ok_Cons free_ok_append list.set_intros(2))+
  show "free_ok L1"
    unfolding L1 using parts nb gap assms(2)
    by (auto simp: free_ok_append free_ok_Cons left_part_def sl_ok_def sl_end_def before_def)
  show "sl_ok r" using nb(1) gap by (auto simp: r_def right_part_def sl_ok_def sl_end_def)
  have len: "length (take i L) = i" using i by simp
  show "fits L1 (i + 1) r"
    unfolding fits_def L1 using nb gap assms(2) i
    by (auto simp: r_def right_part_def left_part_def sl_end_def before_def sl_ok_def)
  show jl: "\<not> joins_left L1 (i + 1) r"
    using gap assms(2) i by (auto simp: joins_left_def L1_def left_part_def r_def right_part_def sl_end_def sl_ok_def)
  show jr: "\<not> joins_right L1 (i + 1) r"
  proof
    assume "joins_right L1 (i + 1) r"
    then have "i + 1 < length L" "sl_end r = sl_address (L ! (i + 1))" by (auto simp: joins_right_def L1_def)
    moreover from this(1) have "before (L ! i) (L ! (i + 1))" using assms(1) by (simp add: free_ok_def sorted_wrt_nth_less)
    ultimately show False using gap by (auto simp: r_def right_part_def before_def sl_end_def)
  qed
  show "free_insert L1 (i + 1) r = free_remove L i sl"
    using jl jr gap i unfolding free_insert_def L1 by (simp add: free_remove_def r_def)
qed

lemma roomy_same: "same_counts ch ch' \<Longrightarrow> ch \<noteq> [] \<Longrightarrow> roomy ch' = roomy ch"
  using same_counts_length [of ch ch'] unfolding same_counts_def roomy_def
  by (metis last_map length_0_conv)

text \<open>\<open>Remove\<close> once the slice that holds the range is found.\<close>

lemma Remove_found:
  assumes "rep (chain root) L" "free_ok L" "sl_ok sl" "scan_all L 0 sl = Some (Some i)"
  shows "Remove_f (Suc n) al root sl =
    (if sl_address (L ! i) = sl_address sl \<and> sl_end sl = sl_end (L ! i)
     then map_option (\<lambda>(ok, ch). (ok, root\<lparr>chain := ch\<rparr>)) (SinglePool_RemoveAt (chain root) i 1)
     else if sl_end sl = sl_end (L ! i)
     then map_option (\<lambda>ch. (True, root\<lparr>chain := ch\<rparr>)) (store_slice (chain root) (pos i) (left_part (L ! i) sl))
     else if sl_address (L ! i) = sl_address sl
     then map_option (\<lambda>ch. (True, root\<lparr>chain := ch\<rparr>)) (store_slice (chain root) (pos i) (right_part (L ! i) sl))
     else if \<not> roomy (chain root)
     then (case PrepareNextPool_f n al root (Some sl) of None \<Rightarrow> None
           | Some (grown, root) \<Rightarrow> if \<not> grown then Some (False, root) else Remove_f n al root sl)
     else split_parent (Insert_f n al) root (pos i) i (L ! i) (sl_address sl - sl_address (L ! i)) (right_part (L ! i) sl))"
proof -
  let ?p = "L ! i" and ?ch = "chain root"
  have i: "i < length L" and le: "sl_address ?p \<le> sl_address sl" "sl_end sl \<le> sl_end ?p"
    using scan_all_spec [OF assms(2,3)] assms(4) by simp_all
  note p = free_ok_inside_nth(1) [OF assms(2) i]
  have idx: "ifContainAll ?ch sl = Some i" using rep_ifContainAll [OF assms(1)] assms(4) by simp
  have w: "walk ?ch (i div N) = (i div N, 0)"
    using pos_less [OF rep_less [OF assms(1) i]] by (intro walk_reaches) (simp add: pos_def)
  have ld: "load ?ch (pos i) = Some ?p" by (rule rep_load [OF assms(1) i])
  have ll: "u64 (sl_address sl + (2 ^ 64 - sl_address ?p)) = sl_address sl - sl_address ?p"
    using le assms(3) by (intro u64_sub) (auto simp: sl_ok_def sl_end_def)
  have rl: "u64 (sl_end ?p + (2 ^ 64 - sl_end sl)) = sl_end ?p - sl_end sl"
    using le p by (intro u64_sub) (auto simp: sl_ok_def)
  have lp: "?p\<lparr>sl_length := sl_address sl - sl_address ?p\<rparr> = left_part ?p sl"
    by (simp add: sl_update left_part_def)
  have pos: "(i div N, i mod N) = pos i" by (simp add: pos_def)
  show ?thesis
    unfolding Remove_f.simps Remove_body_def idx w option.case prod.case Let_def
    unfolding pos ld option.case getEndoaddr_ok [OF p] getEndoaddr_ok [OF assms(3)] ll rl
    unfolding lp right_part_def [symmetric]
    using le by (auto simp: roomy_def)
qed

lemma Remove_room:
  assumes "rep (chain root) L" "free_ok L" "sl_ok sl" "scan_all L 0 sl = Some (Some i)"
    and "sl_address (L ! i) = sl_address sl \<or> sl_end sl = sl_end (L ! i) \<or> roomy (chain root)"
  shows "\<exists>ch'. Remove_f (Suc (Suc n)) al root sl = Some (True, root\<lparr>chain := ch'\<rparr>) \<and>
    rep ch' (free_remove L i sl) \<and> same_pools (chain root) ch'"
proof -
  let ?p = "L ! i" and ?ch = "chain root"
  have ins: "inside L i sl" using scan_all_spec [OF assms(2,3)] assms(4) by (simp add: inside_def)
  then have i: "i < length L" and le: "sl_address ?p \<le> sl_address sl" "sl_end sl \<le> sl_end ?p" by (auto simp: inside_def)
  note body = Remove_found [OF assms(1-4)]
  have stored: ?thesis if "Remove_f (Suc (Suc n)) al root sl =
      map_option (\<lambda>ch. (True, root\<lparr>chain := ch\<rparr>)) (store_slice ?ch (pos i) q)" "L[i := q] = free_remove L i sl" for q
    using that rep_store [OF assms(1) i, of q] same_counts_pools [of ?ch] by auto
  consider (whole) "sl_address ?p = sl_address sl" "sl_end sl = sl_end ?p"
    | (left) "sl_address ?p < sl_address sl" "sl_end sl = sl_end ?p"
    | (right) "sl_address ?p = sl_address sl" "sl_end sl < sl_end ?p"
    | (split) "sl_address ?p < sl_address sl" "sl_end sl < sl_end ?p" "roomy ?ch"
    using le assms(5) by linarith
  then show ?thesis
  proof cases
    case whole
    then show ?thesis using rep_RemoveAt [OF assms(1), of 1 i] i unfolding body by (auto simp: free_remove_def)
  next
    case left
    then show ?thesis using i by (intro stored [of "left_part ?p sl"]) (unfold body, simp_all add: free_remove_def upd_conv_take_nth_drop)
  next
    case right
    then show ?thesis using i by (intro stored [of "right_part ?p sl"]) (unfold body, simp_all add: free_remove_def upd_conv_take_nth_drop)
  next
    case split
    note sp = split_insert [OF assms(2,3) ins split(1,2)]
    obtain ch1 where ch1: "store_slice ?ch (pos i) (left_part ?p sl) = Some ch1" "rep ch1 (L[i := left_part ?p sl])" "same_counts ?ch ch1"
      using rep_store [OF assms(1) i] by blast
    have "roomy ch1" using roomy_same [OF ch1(3)] split(3) assms(1) by (simp add: rep_def)
    then obtain ch2 where ch2: "Insert_f (Suc n) al (root\<lparr>chain := ch1\<rparr>) (i + 1) (right_part ?p sl) = Some (True, root\<lparr>chain := ch2\<rparr>)"
      "rep ch2 (free_remove L i sl)" "same_pools ch1 ch2"
      using Insert_room [of "root\<lparr>chain := ch1\<rparr>" "L[i := left_part ?p sl]" "right_part ?p sl" "i + 1" n al] ch1(2) sp by auto
    have "Remove_f (Suc (Suc n)) al root sl = Some (True, root\<lparr>chain := ch2\<rparr>)"
      unfolding body using split ch1(1) ch2(1) by (simp add: split_parent_def left_part_def sl_update del: Insert_f.simps)
    then show ?thesis using ch2 same_pools_trans [OF same_counts_pools [OF ch1(3)] ch2(3)] by blast
  qed
qed

section \<open>Growth\<close>

definition page :: "nat \<Rightarrow> Slice" where
  "page a = \<lparr>sl_address = a, sl_length = pool_size\<rparr>"

lemma pool_page_spec:
  assumes "sl_ok p" "pool_page ex p = Some a" "a \<noteq> 0" "\<forall>e. ex = Some e \<longrightarrow> sl_ok e"
  shows "sl_ok (page a)" "extent (page a) \<subseteq> extent p" "\<forall>e. ex = Some e \<longrightarrow> extent (page a) \<inter> extent e = {}"
proof -
  have ceil: "b = 0 \<or> v \<le> b" if "b = ceilAlign pool_size v" "v < 2 ^ 64" for b v
  proof (cases "v + (pool_size - 1) < 2 ^ 64")
    case True
    have "(v + 4095) div 4096 * 4096 + (v + 4095) mod 4096 = v + 4095" by (rule div_mult_mod_eq)
    moreover have "(v + 4095) mod 4096 < 4096" by simp
    ultimately have "v \<le> (v + 4095) div 4096 * 4096" by linarith
    then show ?thesis using that True by (simp add: ceilAlign_def floorAlign_def pool_size_def)
  next
    case False
    then have "u64 (v + (pool_size - 1)) = v + (pool_size - 1) - 2 ^ 64"
      using that(2) by (simp add: u64_def pool_size_def le_mod_geq)
    then show ?thesis using that by (simp add: ceilAlign_def floorAlign_def pool_size_def)
  qed
  have a: "sl_address p \<le> a" "a + pool_size \<le> sl_end p"
    using assms(1,2) by (auto simp: pool_page_def Let_def split: if_splits)
  then show "sl_ok (page a)" "extent (page a) \<subseteq> extent p"
    using assms(1) by (auto simp: sl_ok_def sl_end_def page_def extent_def pool_size_def)
  show "\<forall>e. ex = Some e \<longrightarrow> extent (page a) \<inter> extent e = {}"
  proof (intro allI impI)
    fix e assume e: "ex = Some e"
    then have ok: "sl_ok e" using assms(4) by blast
    let ?b = "ceilAlign pool_size (sl_address p)"
    have "a = (if ?b < sl_end e \<and> u64 (?b + pool_size) > sl_address e then ceilAlign pool_size (sl_end e) else ?b)"
      using assms(2) e ok by (auto simp: pool_page_def Let_def split: if_splits)
    then consider "a = ceilAlign pool_size (sl_end e)" | "a = ?b" "\<not> (?b < sl_end e \<and> u64 (?b + pool_size) > sl_address e)"
      by (auto split: if_splits)
    then show "extent (page a) \<inter> extent e = {}"
    proof cases
      case 1
      then have "sl_end e \<le> a" using ceil [OF 1] ok assms(3) by (simp add: sl_ok_def)
      then show ?thesis by (auto simp: extent_def page_def)
    next
      case 2
      have "u64 (?b + pool_size) = a + pool_size" using 2(1) a(2) assms(1) by (simp add: sl_ok_def)
      then show ?thesis using 2 by (auto simp: extent_def page_def sl_end_def)
    qed
  qed
qed

lemma first_page_Some: "first_page ex xs = Some a \<Longrightarrow> \<exists>p \<in> set xs. pool_page ex p = Some a"
  by (induction xs) (auto split: option.splits)

lemma find_page_Some:
  "shaped ch \<Longrightarrow> counts n ch \<Longrightarrow> find_page ex ch = Some a \<Longrightarrow>
   a \<noteq> 0 \<and> (\<exists>p \<in> set (take n (cells ch)). pool_page ex p = Some a)"
proof (induction ch arbitrary: n)
  case (Cons p ps)
  note tc = take_cells_Cons [OF Cons.prems(1,2)]
  from Cons.prems(3) consider "first_page ex (take (slicecnt p) (slices p)) = Some a" "a \<noteq> 0" | "find_page ex ps = Some a"
    by (auto split: if_splits option.splits)
  then show ?case
  proof cases
    case 1 then show ?thesis unfolding tc using first_page_Some by fastforce
  next
    case 2 then show ?thesis unfolding tc using Cons.IH [of "n - N"] Cons.prems(1,2) by auto
  qed
qed simp

lemma rep_new_pool: "rep ch L \<Longrightarrow> rep (ch @ [new_SinglePool a]) L"
proof -
  assume r: "rep ch L"
  then have "take (length L) (cells (ch @ [new_SinglePool a])) = L"
    using length_cells [of ch] unfolding rep_def by (simp add: cells_def)
  then show ?thesis using r unfolding rep_def
    by (auto simp: counts_append new_SinglePool_def shaped_def)
qed

lemma rep_roomy:
  assumes "rep ch L" "length L \<le> N * (length ch - 1) + 1"
  shows "roomy ch"
proof -
  have ch: "ch \<noteq> []" "counts (length L) ch" using assms(1) by (auto simp: rep_def)
  then have "slicecnt (last ch) = min N (length L - (length ch - 1) * N)"
    by (simp add: counts_nth last_conv_nth)
  then show ?thesis using assms(2) N_bound unfolding roomy_def by (simp add: mult.commute)
qed

lemma length_free_remove: "i < length L \<Longrightarrow> length (free_remove L i sl) \<le> length L + 1"
  by (auto simp: free_remove_def)

section \<open>The state of a chain\<close>

definition entries :: "SinglePool list \<Rightarrow> Slice list" where
  "entries ch = take (SinglePool_Length ch) (cells ch)"

definition free_bytes :: "PoolChain \<Rightarrow> nat set" where
  "free_bytes root = bytes_of (entries (chain root))"

definition pool_pages :: "PoolChain \<Rightarrow> nat set" where
  "pool_pages root = (if owner_id root = 1 then (\<Union>a \<in> set (map pool_address (tl (chain root))). extent (page a)) else {})"

definition pool_inv :: "PoolChain \<Rightarrow> bool" where
  "pool_inv root \<longleftrightarrow> rep (chain root) (entries (chain root)) \<and> free_ok (entries (chain root)) \<and>
     free_bytes root \<inter> pool_pages root = {}"

lemma rep_entries: "rep ch L \<Longrightarrow> entries ch = L"
  unfolding entries_def by (simp add: rep_Length) (metis rep_def)

lemma pool_pages_same:
  assumes "same_pools (chain root) ch" shows "pool_pages (root\<lparr>chain := ch\<rparr>) = pool_pages root"
proof -
  have "map pool_address (tl ch) = map pool_address (tl (chain root))"
    using assms by (simp add: same_pools_def map_tl)
  then show ?thesis by (simp add: pool_pages_def)
qed

text \<open>What every operation keeps: no byte is lost, a page at most moves from the free list to the
  pools.\<close>

definition keeps :: "PoolChain \<Rightarrow> PoolChain \<Rightarrow> bool" where
  "keeps root root' \<longleftrightarrow> pool_inv root' \<and> owner_id root' = owner_id root \<and> pool_pages root \<subseteq> pool_pages root'"

lemma Prepare_spec:
  assumes "pool_inv root" "\<forall>e. ex = Some e \<longrightarrow> sl_ok e"
  obtains g root' where "PrepareNextPool_f (Suc (Suc (Suc n))) al root ex = Some (g, root')"
    and "\<not> g \<Longrightarrow> root' = root"
    and "owner_id root \<noteq> 1 \<Longrightarrow> al (length (chain root)) \<noteq> None \<Longrightarrow> g"
    and "g \<Longrightarrow> keeps root root' \<and> roomy (chain root') \<and> free_bytes root' \<subseteq> free_bytes root \<and>
       free_bytes root' \<union> pool_pages root' = free_bytes root \<union> pool_pages root \<and>
       (\<forall>e. ex = Some e \<longrightarrow> extent e \<subseteq> free_bytes root \<longrightarrow> extent e \<subseteq> free_bytes root')"
proof -
  let ?ch = "chain root" and ?L = "entries (chain root)"
  have r: "rep ?ch ?L" "free_ok ?L" "free_bytes root \<inter> pool_pages root = {}" using assms(1) by (auto simp: pool_inv_def)
  define addr where "addr = (if owner_id root = 1 then find_page ex ?ch else al (length ?ch))"
  show ?thesis
  proof (cases addr)
    case None
    then have "PrepareNextPool_f (Suc (Suc (Suc n))) al root ex = Some (False, root)"
      by (simp add: PrepareNextPool_body_def addr_def)
    then show ?thesis by (rule that) (use None in \<open>auto simp: addr_def split: if_splits\<close>)
  next
    case (Some a)
    let ?root1 = "root\<lparr>chain := ?ch @ [new_SinglePool a]\<rparr>"
    have r1: "rep (chain ?root1) ?L" using rep_new_pool [OF r(1)] by simp
    have ne: "?ch \<noteq> []" and len: "length ?L \<le> N * length ?ch" using r(1) by (auto simp: rep_def)
    show ?thesis
    proof (cases "owner_id root = 1")
      case False
      have res: "PrepareNextPool_f (Suc (Suc (Suc n))) al root ex = Some (True, ?root1)"
        using False Some by (simp add: PrepareNextPool_body_def addr_def)
      have "pool_pages ?root1 = {}" "pool_pages root = {}" using False by (simp_all add: pool_pages_def)
      moreover have "roomy (chain ?root1)" by (rule rep_roomy [OF r1]) (use len in simp)
      moreover have "free_bytes ?root1 = free_bytes root" using rep_entries [OF r1] by (simp add: free_bytes_def)
      ultimately show ?thesis
        using r r1 rep_entries [OF r1] by (intro that [OF res]) (auto simp: keeps_def pool_inv_def)
    next
      case True
      then have "find_page ex ?ch = Some a" using Some by (simp add: addr_def)
      then obtain p where p: "a \<noteq> 0" "p \<in> set ?L" "pool_page ex p = Some a"
        using find_page_Some [of ?ch "length ?L" ex a] r(1) unfolding rep_def by metis
      have "sl_ok p" using r(2) p(2) by (simp add: free_ok_def)
      note pg = pool_page_spec [OF this p(3,1) assms(2)]
      have sub: "extent (page a) \<subseteq> bytes_of ?L" using pg(2) p(2) by (auto simp: bytes_of_def)
      then obtain i where i: "scan_all ?L 0 (page a) = Some (Some i)"
        using scan_all_spec [OF r(2) pg(1)] by (auto split: option.splits)
      then have il: "i < length ?L" and ins: "inside ?L i (page a)"
        using scan_all_spec [OF r(2) pg(1)] by (auto simp: inside_def)
      have rm: "roomy (chain ?root1)" by (rule rep_roomy [OF r1]) (use len in simp)
      obtain ch2 where ch2: "Remove_f (Suc (Suc n)) al ?root1 (page a) = Some (True, ?root1\<lparr>chain := ch2\<rparr>)"
        "rep ch2 (free_remove ?L i (page a))" "same_pools (chain ?root1) ch2"
        using Remove_room [OF r1 r(2) pg(1) i] rm by blast
      define root2 where "root2 = root\<lparr>chain := ch2\<rparr>"
      have res: "PrepareNextPool_f (Suc (Suc (Suc n))) al root ex = Some (True, root2)"
        using ch2(1) True Some
        by (simp add: PrepareNextPool_body_def addr_def page_def root2_def del: Remove_f.simps)
      note fr = free_remove_ok [OF r(2) pg(1) ins]
      have lens: "length ch2 = length ?ch + 1"
        using ch2(3) unfolding same_pools_def by (metis (no_types, lifting) PoolChain.select_convs(2) PoolChain.surjective PoolChain.update_convs(2) length_append_singleton length_map Suc_eq_plus1)
      have rm2: "roomy ch2" using rep_roomy [OF ch2(2)] length_free_remove [OF il, of "page a"] len lens by simp
      have fb: "free_bytes root2 = free_bytes root - extent (page a)"
        using fr rep_entries [OF ch2(2)] by (simp add: free_bytes_def root2_def)
      have "map pool_address (tl ch2) = map pool_address (tl ?ch) @ [a]"
        using ch2(3) ne by (simp add: same_pools_def map_tl new_SinglePool_def)
      then have pp: "pool_pages root2 = pool_pages root \<union> extent (page a)"
        using True by (auto simp: pool_pages_def root2_def)
      have inv: "pool_inv root2"
        using fr ch2(2) rep_entries [OF ch2(2)] r(3) fb pp unfolding pool_inv_def by (auto simp: root2_def)
      have "owner_id root2 = owner_id root" by (simp add: root2_def)
      then show ?thesis
        using res inv fb pp rm2 sub pg(3)
        by (intro that [OF res]) (auto simp: keeps_def free_bytes_def root2_def)
    qed
  qed
qed

section \<open>Inserting and removing, with growth\<close>

lemma fits_disjoint: "fits L i sl \<Longrightarrow> extent sl \<inter> bytes_of L = {}"
proof -
  assume f: "fits L i sl"
  have "set L = set (take i L) \<union> set (drop i L)" by (metis append_take_drop_id set_append)
  then show ?thesis using f by (auto simp: fits_def bytes_of_def extent_def)
qed

lemma Insert_room_state:
  assumes "pool_inv root" "sl_ok sl" "fits (entries (chain root)) i sl" "extent sl \<inter> pool_pages root = {}"
    and "joins_left (entries (chain root)) i sl \<or> joins_right (entries (chain root)) i sl \<or> roomy (chain root)"
  obtains root' where "Insert_f (Suc n) al root i sl = Some (True, root')" "keeps root root'"
    "pool_pages root' = pool_pages root" "free_bytes root' = free_bytes root \<union> extent sl"
proof -
  let ?L = "entries (chain root)"
  have r: "rep (chain root) ?L" "free_ok ?L" "free_bytes root \<inter> pool_pages root = {}" using assms(1) by (auto simp: pool_inv_def)
  obtain ch' where ch': "Insert_f (Suc n) al root i sl = Some (True, root\<lparr>chain := ch'\<rparr>)"
    "rep ch' (free_insert ?L i sl)" "same_pools (chain root) ch'"
    using Insert_room [OF r(1,2) assms(2,3,5)] by blast
  note fi = free_insert_ok [OF r(2) assms(2,3)] and en = rep_entries [OF ch'(2)] and pp = pool_pages_same [OF ch'(3)]
  have fb: "free_bytes (root\<lparr>chain := ch'\<rparr>) = free_bytes root \<union> extent sl"
    using fi en by (simp add: free_bytes_def)
  then have "pool_inv (root\<lparr>chain := ch'\<rparr>)"
    using fi en ch'(2) pp r(3) assms(4) unfolding pool_inv_def by auto
  then show ?thesis using that [OF ch'(1)] pp fb by (simp add: keeps_def)
qed

lemma Remove_room_state:
  assumes "pool_inv root" "sl_ok sl" "extent sl \<subseteq> free_bytes root" "scan_all (entries (chain root)) 0 sl = Some (Some i)"
    and "sl_address (entries (chain root) ! i) = sl_address sl \<or> sl_end sl = sl_end (entries (chain root) ! i) \<or>
      roomy (chain root)"
  obtains root' where "Remove_f (Suc (Suc n)) al root sl = Some (True, root')" "keeps root root'"
    "pool_pages root' = pool_pages root" "free_bytes root' = free_bytes root - extent sl"
proof -
  let ?L = "entries (chain root)"
  have r: "rep (chain root) ?L" "free_ok ?L" "free_bytes root \<inter> pool_pages root = {}" using assms(1) by (auto simp: pool_inv_def)
  have ins: "inside ?L i sl" using scan_all_spec [OF r(2) assms(2)] assms(4) by (simp add: inside_def)
  obtain ch' where ch': "Remove_f (Suc (Suc n)) al root sl = Some (True, root\<lparr>chain := ch'\<rparr>)"
    "rep ch' (free_remove ?L i sl)" "same_pools (chain root) ch'"
    using Remove_room [OF r(1,2) assms(2,4,5)] by blast
  note fi = free_remove_ok [OF r(2) assms(2) ins] and en = rep_entries [OF ch'(2)] and pp = pool_pages_same [OF ch'(3)]
  have fb: "free_bytes (root\<lparr>chain := ch'\<rparr>) = free_bytes root - extent sl"
    using fi en by (simp add: free_bytes_def)
  then have "pool_inv (root\<lparr>chain := ch'\<rparr>)"
    using fi en ch'(2) pp r(3) unfolding pool_inv_def by auto
  then show ?thesis using that [OF ch'(1)] pp fb by (simp add: keeps_def)
qed

lemma keeps_trans: "keeps a b \<Longrightarrow> keeps b c \<Longrightarrow> keeps a c"
  by (auto simp: keeps_def)

lemma keeps_refl: "pool_inv a \<Longrightarrow> keeps a a"
  by (simp add: keeps_def)

lemma ifContainNon_inv:
  assumes "pool_inv root" "sl_ok sl"
  shows "case ifContainNon (chain root) sl of
     Some i \<Rightarrow> fits (entries (chain root)) i sl | None \<Rightarrow> extent sl \<inter> free_bytes root \<noteq> {}"
  using assms rep_ifContainNon [of "chain root" "entries (chain root)" sl] scan_non_spec [of "entries (chain root)" sl]
  by (auto simp: pool_inv_def free_bytes_def split: option.splits)

lemma Insert_spec:
  assumes "pool_inv root" "sl_ok sl" "fits (entries (chain root)) i sl" "extent sl \<inter> pool_pages root = {}"
  obtains b root' where "Insert_f (Suc (Suc (Suc (Suc n)))) al root i sl = Some (b, root')"
    and "\<not> b \<Longrightarrow> root' = root" and "keeps root root'"
    and "roomy (chain root) \<or> owner_id root \<noteq> 1 \<and> al (length (chain root)) \<noteq> None \<Longrightarrow> b"
    and "b \<Longrightarrow> extent sl \<subseteq> free_bytes root' \<and> free_bytes root' \<subseteq> free_bytes root \<union> extent sl \<and>
      free_bytes root' \<union> pool_pages root' = free_bytes root \<union> pool_pages root \<union> extent sl"
proof (cases "joins_left (entries (chain root)) i sl \<or> joins_right (entries (chain root)) i sl \<or> roomy (chain root)")
  case True
  obtain root' where "Insert_f (Suc (Suc (Suc (Suc n)))) al root i sl = Some (True, root')" "keeps root root'"
    "pool_pages root' = pool_pages root" "free_bytes root' = free_bytes root \<union> extent sl"
    using Insert_room_state [OF assms True] by blast
  then show ?thesis by (intro that) auto
next
  case False
  let ?L = "entries (chain root)"
  have r: "rep (chain root) ?L" "free_ok ?L" using assms(1) by (auto simp: pool_inv_def)
  have idx: "\<not> i > SinglePool_Length (chain root)" using assms(3) by (simp add: rep_Length [OF r(1)] fits_def)
  have ml: "merge_left (chain root) i sl = Some None" using merge_left_spec [OF r assms(2,3)] False by simp
  have mr: "merge_right (chain root) i sl = Some None" using merge_right_spec [OF r assms(2,3)] False by simp
  obtain g root1 where p: "PrepareNextPool_f (Suc (Suc (Suc n))) al root None = Some (g, root1)" "\<not> g \<Longrightarrow> root1 = root"
    "owner_id root \<noteq> 1 \<Longrightarrow> al (length (chain root)) \<noteq> None \<Longrightarrow> g"
    "g \<Longrightarrow> keeps root root1 \<and> roomy (chain root1) \<and> free_bytes root1 \<subseteq> free_bytes root \<and>
       free_bytes root1 \<union> pool_pages root1 = free_bytes root \<union> pool_pages root"
    using Prepare_spec [OF assms(1), of None n al] by (metis option.distinct(1))
  have step: "Insert_f (Suc (Suc (Suc (Suc n)))) al root i sl =
      (if \<not> g then Some (False, root1) else case ifContainNon (chain root1) sl of None \<Rightarrow> Some (False, root1)
       | Some idx \<Rightarrow> Insert_f (Suc (Suc (Suc n))) al root1 idx sl)"
    using idx ml mr p(1) False
    by (simp add: Insert_body_def roomy_def del: PrepareNextPool_f.simps Insert_f.simps(2) add: Insert_f.simps(2) [of "Suc (Suc (Suc n))"])
  show ?thesis
  proof (cases g)
    case no: False
    then have "Insert_f (Suc (Suc (Suc (Suc n)))) al root i sl = Some (False, root)" using step p(2) by simp
    then show ?thesis by (rule that) (use no p(3) False assms(1) keeps_refl in auto)
  next
    case True
    note g = p(4) [OF True]
    have dis: "extent sl \<inter> free_bytes root = {}" using fits_disjoint [OF assms(3)] by (simp add: free_bytes_def)
    then have dis1: "extent sl \<inter> free_bytes root1 = {}" "extent sl \<inter> pool_pages root1 = {}" using g assms(4) by blast+
    have inv1: "pool_inv root1" using g by (simp add: keeps_def)
    then obtain j where j: "ifContainNon (chain root1) sl = Some j" "fits (entries (chain root1)) j sl"
      using ifContainNon_inv [OF inv1 assms(2)] dis1(1) by (auto split: option.splits)
    obtain root' where root': "Insert_f (Suc (Suc (Suc n))) al root1 j sl = Some (True, root')" "keeps root1 root'"
      "pool_pages root' = pool_pages root1" "free_bytes root' = free_bytes root1 \<union> extent sl"
      using Insert_room_state [OF inv1 assms(2) j(2) dis1(2)] g by blast
    have "Insert_f (Suc (Suc (Suc (Suc n)))) al root i sl = Some (True, root')" using step True j(1) root'(1) by simp
    then show ?thesis by (rule that) (use g root' keeps_trans in auto)
  qed
qed

lemma Remove_spec:
  assumes "pool_inv root" "sl_ok sl"
  obtains b root' where "Remove_f (Suc (Suc (Suc (Suc n)))) al root sl = Some (b, root')"
    and "\<not> b \<Longrightarrow> root' = root" and "keeps root root'"
    and "roomy (chain root) \<or> owner_id root \<noteq> 1 \<and> al (length (chain root)) \<noteq> None \<Longrightarrow>
      extent sl \<subseteq> free_bytes root \<Longrightarrow> b"
    and "b \<Longrightarrow> extent sl \<subseteq> free_bytes root \<and> free_bytes root' \<subseteq> free_bytes root - extent sl \<and>
      free_bytes root' \<union> pool_pages root' = (free_bytes root - extent sl) \<union> pool_pages root"
proof -
  let ?L = "entries (chain root)" and ?n = "Suc (Suc (Suc (Suc n)))"
  have r: "rep (chain root) ?L" "free_ok ?L" "free_bytes root \<inter> pool_pages root = {}" using assms(1) by (auto simp: pool_inv_def)
  note sc = scan_all_spec [OF r(2) assms(2)]
  show ?thesis
  proof (cases "scan_all ?L 0 sl")
    case None
    then have "Remove_f ?n al root sl = Some (False, root)"
      using rep_ifContainAll [OF r(1)] by (simp add: Remove_body_def)
    then show ?thesis by (rule that) (use None sc assms(1) keeps_refl in \<open>auto simp: free_bytes_def\<close>)
  next
    case (Some q)
    show ?thesis
    proof (cases q)
      case no: None
      then have "Remove_f ?n al root sl = Some (False, root)"
        using Some rep_ifContainAll [OF r(1)] by (simp add: Remove_body_def)
      then show ?thesis by (rule that) (use Some no sc assms(1) keeps_refl in \<open>auto simp: free_bytes_def\<close>)
    next
      case yes: (Some i)
      then have scan: "scan_all ?L 0 sl = Some (Some i)" using Some by simp
      then have ins: "inside ?L i sl" using sc by (simp add: inside_def)
      then have i: "i < length ?L" and le: "sl_address (?L ! i) \<le> sl_address sl" "sl_end sl \<le> sl_end (?L ! i)" by (auto simp: inside_def)
      have sub: "extent sl \<subseteq> free_bytes root"
      proof -
        have "extent sl \<subseteq> extent (?L ! i)" using le by (auto simp: extent_def)
        then show ?thesis using nth_mem [OF i] by (auto simp: free_bytes_def bytes_of_def)
      qed
      show ?thesis
      proof (cases "sl_address (?L ! i) = sl_address sl \<or> sl_end sl = sl_end (?L ! i) \<or> roomy (chain root)")
        case True
        obtain root' where "Remove_f ?n al root sl = Some (True, root')" "keeps root root'"
          "pool_pages root' = pool_pages root" "free_bytes root' = free_bytes root - extent sl"
          using Remove_room_state [OF assms sub scan True] by blast
        then show ?thesis using sub by (intro that) auto
      next
        case False
        obtain g root1 where pr: "PrepareNextPool_f (Suc (Suc (Suc n))) al root (Some sl) = Some (g, root1)" "\<not> g \<Longrightarrow> root1 = root"
          "owner_id root \<noteq> 1 \<Longrightarrow> al (length (chain root)) \<noteq> None \<Longrightarrow> g"
          "g \<Longrightarrow> keeps root root1 \<and> roomy (chain root1) \<and> free_bytes root1 \<subseteq> free_bytes root \<and>
             free_bytes root1 \<union> pool_pages root1 = free_bytes root \<union> pool_pages root \<and>
             (extent sl \<subseteq> free_bytes root \<longrightarrow> extent sl \<subseteq> free_bytes root1)"
          using Prepare_spec [OF assms(1), of "Some sl" n al] assms(2) by (metis option.inject)
        have step: "Remove_f ?n al root sl = (if \<not> g then Some (False, root1) else Remove_f (Suc (Suc (Suc n))) al root1 sl)"
          unfolding Remove_found [OF r(1,2) assms(2) scan] using False pr(1) by simp
        show ?thesis
        proof (cases g)
          case no: False
          then have "Remove_f ?n al root sl = Some (False, root)" using step pr(2) by simp
          then show ?thesis by (rule that) (use no pr(3) False assms(1) keeps_refl in auto)
        next
          case True
          note g = pr(4) [OF True]
          have inv1: "pool_inv root1" using g by (simp add: keeps_def)
          have sub1: "extent sl \<subseteq> free_bytes root1" using g sub by blast
          then obtain j where j: "scan_all (entries (chain root1)) 0 sl = Some (Some j)"
            using scan_all_spec [of "entries (chain root1)" sl] inv1 assms(2)
            by (auto simp: pool_inv_def free_bytes_def split: option.splits)
          obtain root' where root': "Remove_f (Suc (Suc (Suc n))) al root1 sl = Some (True, root')" "keeps root1 root'"
            "pool_pages root' = pool_pages root1" "free_bytes root' = free_bytes root1 - extent sl"
            using Remove_room_state [OF inv1 assms(2) sub1 j] g by blast
          have dp: "extent sl \<inter> pool_pages root1 = {}" using sub1 inv1 by (auto simp: pool_inv_def)
          have "Remove_f ?n al root sl = Some (True, root')" using step True root'(1) by simp
          then show ?thesis by (rule that) (use g root' keeps_trans sub sub1 r(3) dp in auto)
        qed
      qed
    qed
  qed
qed

lemma pool_depth_Suc: "pool_depth = Suc (Suc (Suc (Suc 0)))"
  by (simp add: pool_depth_def)

lemma SinglePool_Remove_spec:
  assumes "pool_inv root" "sl_ok sl"
  shows "\<exists>b root'. SinglePool_Remove al root sl = Some (b, root') \<and> keeps root root' \<and> (\<not> b \<longrightarrow> root' = root) \<and>
    (b \<longrightarrow> extent sl \<subseteq> free_bytes root \<and> free_bytes root' \<subseteq> free_bytes root - extent sl \<and>
      free_bytes root' \<union> pool_pages root' = (free_bytes root - extent sl) \<union> pool_pages root) \<and>
    (extent sl \<subseteq> free_bytes root \<and> (roomy (chain root) \<or> owner_id root \<noteq> 1 \<and> al (length (chain root)) \<noteq> None) \<longrightarrow> b)"
  unfolding SinglePool_Remove_def pool_depth_Suc
  by (rule Remove_spec [OF assms, of 0 al]) blast

lemma SinglePool_Append_spec:
  assumes "pool_inv root" "sl_ok sl" "extent sl \<inter> pool_pages root = {}"
  shows "\<exists>b root'. SinglePool_Append al root sl = Some (b, root') \<and> keeps root root' \<and> (\<not> b \<longrightarrow> root' = root) \<and>
    (b \<longrightarrow> extent sl \<inter> free_bytes root = {} \<and> extent sl \<subseteq> free_bytes root' \<and>
      free_bytes root' \<subseteq> free_bytes root \<union> extent sl \<and>
      free_bytes root' \<union> pool_pages root' = free_bytes root \<union> pool_pages root \<union> extent sl) \<and>
    (extent sl \<inter> free_bytes root = {} \<and> (roomy (chain root) \<or> owner_id root \<noteq> 1 \<and> al (length (chain root)) \<noteq> None) \<longrightarrow> b)"
proof (cases "ifContainNon (chain root) sl")
  case None
  then show ?thesis using ifContainNon_inv [OF assms(1,2)] keeps_refl [OF assms(1)]
    by (auto simp: SinglePool_Append_def)
next
  case (Some i)
  then have fits: "fits (entries (chain root)) i sl" using ifContainNon_inv [OF assms(1,2)] by simp
  then have dis: "extent sl \<inter> free_bytes root = {}" using fits_disjoint by (simp add: free_bytes_def)
  have eq: "SinglePool_Append al root sl = Insert_f (Suc (Suc (Suc (Suc 0)))) al root i sl"
    using Some by (simp add: SinglePool_Append_def SinglePool_Insert_def pool_depth_Suc del: Insert_f.simps)
  show ?thesis
    unfolding eq by (rule Insert_spec [OF assms(1,2) fits assms(3), of 0 al]) (use dis in blast)
qed

section \<open>The interface of a free list\<close>

text \<open>
  What the allocator relies on: a set of free bytes, a set of bytes the list needs for itself, and
  two operations that move a range out of the free bytes and back.
\<close>

locale free_list =
  fixes inv :: "'s \<Rightarrow> bool" and free held :: "'s \<Rightarrow> nat set"
    and append remove :: "'s \<Rightarrow> Slice \<Rightarrow> (bool \<times> 's) option"
  assumes apart: "inv s \<Longrightarrow> free s \<inter> held s = {}"
    and append_law: "\<lbrakk>inv s; sl_ok sl; extent sl \<inter> held s = {}\<rbrakk> \<Longrightarrow>
      \<exists>b s'. append s sl = Some (b, s') \<and> inv s' \<and> (\<not> b \<longrightarrow> s' = s) \<and>
        (b \<longrightarrow> extent sl \<inter> free s = {} \<and> free s' \<union> held s' = free s \<union> held s \<union> extent sl)"
    and remove_law: "\<lbrakk>inv s; sl_ok sl\<rbrakk> \<Longrightarrow>
      \<exists>b s'. remove s sl = Some (b, s') \<and> inv s' \<and> (\<not> b \<longrightarrow> s' = s) \<and>
        (b \<longrightarrow> extent sl \<subseteq> free s \<and> free s' \<union> held s' = (free s - extent sl) \<union> held s)"

text \<open>A user takes ranges out of the list and gives ranges back of what it holds.\<close>

inductive trades :: "('s \<Rightarrow> Slice \<Rightarrow> (bool \<times> 's) option) \<Rightarrow> ('s \<Rightarrow> Slice \<Rightarrow> (bool \<times> 's) option) \<Rightarrow>
    's \<Rightarrow> nat set \<Rightarrow> 's \<Rightarrow> nat set \<Rightarrow> bool"
  for append remove s0 out0
where
  trade_start: "trades append remove s0 out0 s0 out0"
| trade_take: "\<lbrakk>trades append remove s0 out0 s out; sl_ok sl; remove s sl = Some (b, s')\<rbrakk> \<Longrightarrow>
    trades append remove s0 out0 s' (if b then out \<union> extent sl else out)"
| trade_give: "\<lbrakk>trades append remove s0 out0 s out; sl_ok sl; extent sl \<subseteq> out; append s sl = Some (b, s')\<rbrakk> \<Longrightarrow>
    trades append remove s0 out0 s' (if b then out - extent sl else out)"

context free_list
begin

lemma remove_apart:
  assumes "inv s" "sl_ok sl" "remove s sl = Some (True, s')"
  shows "extent sl \<subseteq> free s" "free s' \<union> held s' = (free s \<union> held s) - extent sl"
  using remove_law [OF assms(1,2)] apart [OF assms(1)] assms(3) by auto

lemma trades_conserve:
  assumes "trades append remove s0 out0 s out" "inv s0" "out0 \<inter> (free s0 \<union> held s0) = {}"
  shows "inv s \<and> out \<inter> (free s \<union> held s) = {} \<and> free s \<union> held s \<union> out = free s0 \<union> held s0 \<union> out0"
  using assms(1)
proof induction
  case trade_start then show ?case using assms(2,3) by blast
next
  case (trade_take s out sl b s')
  then have inv: "inv s" by blast
  from remove_law [OF inv trade_take(2)] trade_take(3) have law: "inv s'" "\<not> b \<longrightarrow> s' = s" by auto
  show ?case
  proof (cases b)
    case True
    then have "extent sl \<subseteq> free s" "free s' \<union> held s' = (free s \<union> held s) - extent sl"
      using remove_apart [OF inv trade_take(2)] trade_take(3) by simp_all
    then show ?thesis using True law(1) trade_take.IH by auto
  qed (use law trade_take.IH in auto)
next
  case (trade_give s out sl b s')
  then have inv: "inv s" and dis: "extent sl \<inter> held s = {}" by blast+
  from append_law [OF inv trade_give(2) dis] trade_give(4)
  have law: "inv s'" "\<not> b \<longrightarrow> s' = s" "b \<longrightarrow> free s' \<union> held s' = free s \<union> held s \<union> extent sl" by auto
  then show ?case using trade_give.IH trade_give(3) by (cases b) auto
qed

end

interpretation pool: free_list pool_inv free_bytes pool_pages "SinglePool_Append al" "SinglePool_Remove al" for al
proof
  show "free_bytes s \<inter> pool_pages s = {}" if "pool_inv s" for s using that by (simp add: pool_inv_def)
  show "\<exists>b s'. SinglePool_Append al s sl = Some (b, s') \<and> pool_inv s' \<and> (\<not> b \<longrightarrow> s' = s) \<and>
      (b \<longrightarrow> extent sl \<inter> free_bytes s = {} \<and> free_bytes s' \<union> pool_pages s' = free_bytes s \<union> pool_pages s \<union> extent sl)"
    if "pool_inv s" "sl_ok sl" "extent sl \<inter> pool_pages s = {}" for s sl
    using SinglePool_Append_spec [OF that, of al] by (auto simp: keeps_def)
  show "\<exists>b s'. SinglePool_Remove al s sl = Some (b, s') \<and> pool_inv s' \<and> (\<not> b \<longrightarrow> s' = s) \<and>
      (b \<longrightarrow> extent sl \<subseteq> free_bytes s \<and> free_bytes s' \<union> pool_pages s' = (free_bytes s - extent sl) \<union> pool_pages s)"
    if "pool_inv s" "sl_ok sl" for s sl
    using SinglePool_Remove_spec [OF that, of al] by (auto simp: keeps_def)
qed

section \<open>Properties\<close>

text \<open>A chain of one pool with one free slice.\<close>

definition sample_pool :: "nat \<Rightarrow> Slice \<Rightarrow> PoolChain" where
  "sample_pool owner s = \<lparr>owner_id = owner, chain = [\<lparr>slicecnt = 1,
     slices = s # replicate (N - 1) \<lparr>sl_address = 0, sl_length = 0\<rparr>, pool_address = 0\<rparr>]\<rparr>"

lemma sample_pool_inv:
  assumes "sl_ok s"
  shows "pool_inv (sample_pool owner s)" "entries (chain (sample_pool owner s)) = [s]" "roomy (chain (sample_pool owner s))"
    "pool_pages (sample_pool owner s) = {}" "free_bytes (sample_pool owner s) = extent s"
proof -
  have r: "rep (chain (sample_pool owner s)) [s]" using N_bound(1) by (simp add: sample_pool_def rep_def)
  show e: "entries (chain (sample_pool owner s)) = [s]" by (rule rep_entries [OF r])
  show pg: "pool_pages (sample_pool owner s) = {}" by (simp add: pool_pages_def sample_pool_def)
  show "pool_inv (sample_pool owner s)" unfolding pool_inv_def e pg using r assms by (simp add: free_ok_Cons)
  show "roomy (chain (sample_pool owner s))" using N_bound(1) by (simp add: sample_pool_def roomy_def)
  show "free_bytes (sample_pool owner s) = extent s" by (simp add: free_bytes_def e)
qed

definition sample_slice4 :: Slice where
  "sample_slice4 = \<lparr>sl_address = 0x1000, sl_length = 0x4000\<rparr>"

lemma sample_slice4_ok: "sl_ok sample_slice4"
  by (simp add: sample_slice4_def sl_ok_def sl_end_def)

text \<open>
  C16. Whatever ranges a user takes out of a free list and gives back, in any order and while the
  chain grows, no byte is lost and none is in two places: the free bytes, the pages of the pools and
  the bytes of the user stay apart and together are always the same memory.
\<close>

theorem pool_conserves:
  assumes "pool_inv root" "out0 \<inter> (free_bytes root \<union> pool_pages root) = {}"
    and "trades (SinglePool_Append al) (SinglePool_Remove al) root out0 root' out"
  shows "pool_inv root' \<and> free_bytes root' \<inter> pool_pages root' = {} \<and> out \<inter> (free_bytes root' \<union> pool_pages root') = {} \<and>
    free_bytes root' \<union> pool_pages root' \<union> out = free_bytes root \<union> pool_pages root \<union> out0"
  using pool.trades_conserve [OF assms(3,1,2)] pool.apart by blast

theorem pool_conserves_witness:
  "\<exists>root'. trades (SinglePool_Append (\<lambda>_. None)) (SinglePool_Remove (\<lambda>_. None)) (sample_pool 1 sample_slice4) {}
      root' {0x2000..<0x2100} \<and>
    free_bytes root' \<union> pool_pages root' \<union> {0x2000..<0x2100} = extent sample_slice4"
proof -
  let ?root = "sample_pool 1 sample_slice4" and ?sl = "\<lparr>sl_address = 0x2000, sl_length = 0x100\<rparr>"
  note inv = sample_pool_inv [OF sample_slice4_ok, of 1]
  have sl: "sl_ok ?sl" "extent ?sl = {0x2000..<0x2100}" "extent ?sl \<subseteq> free_bytes ?root"
    unfolding inv(5) by (auto simp: sl_ok_def sl_end_def extent_def sample_slice4_def)
  obtain root' where r: "SinglePool_Remove (\<lambda>_. None) ?root ?sl = Some (True, root')"
    using SinglePool_Remove_spec [OF inv(1) sl(1), of "\<lambda>_. None"] inv(3) sl(3) by auto
  have "trades (SinglePool_Append (\<lambda>_. None)) (SinglePool_Remove (\<lambda>_. None)) ?root {} root' (if True then {} \<union> extent ?sl else {})"
    by (rule trade_take, rule trade_start, rule sl(1), rule r)
  then have t: "trades (SinglePool_Append (\<lambda>_. None)) (SinglePool_Remove (\<lambda>_. None)) ?root {} root' {0x2000..<0x2100}"
    by (simp add: sl(2))
  then show ?thesis using pool_conserves [OF inv(1) _ t] inv(4,5) by auto
qed

text \<open>
  C17. Where no growth is needed the operations are exact: \<open>Append\<close> succeeds iff no byte of the range
  is free already and then frees exactly its bytes, \<open>Remove\<close> succeeds iff every byte of the range is
  free and then takes exactly its bytes.
\<close>

theorem pool_exact:
  assumes "pool_inv root" "sl_ok sl" "extent sl \<inter> pool_pages root = {}" "roomy (chain root)"
  shows "(\<exists>root'. SinglePool_Append al root sl = Some (extent sl \<inter> free_bytes root = {}, root') \<and> pool_inv root' \<and>
      free_bytes root' = (if extent sl \<inter> free_bytes root = {} then free_bytes root \<union> extent sl else free_bytes root)) \<and>
    (\<exists>root'. SinglePool_Remove al root sl = Some (extent sl \<subseteq> free_bytes root, root') \<and> pool_inv root' \<and>
      free_bytes root' = (if extent sl \<subseteq> free_bytes root then free_bytes root - extent sl else free_bytes root))"
proof
  note cn = ifContainNon_inv [OF assms(1,2)]
  show "\<exists>root'. SinglePool_Append al root sl = Some (extent sl \<inter> free_bytes root = {}, root') \<and> pool_inv root' \<and>
      free_bytes root' = (if extent sl \<inter> free_bytes root = {} then free_bytes root \<union> extent sl else free_bytes root)"
  proof (cases "ifContainNon (chain root) sl")
    case None
    then show ?thesis using cn assms(1) by (auto simp: SinglePool_Append_def)
  next
    case (Some i)
    then have fits: "fits (entries (chain root)) i sl" using cn by simp
    obtain root' where r: "Insert_f (Suc (Suc (Suc (Suc 0)))) al root i sl = Some (True, root')" "keeps root root'"
      "free_bytes root' = free_bytes root \<union> extent sl"
      using Insert_room_state [OF assms(1,2) fits assms(3)] assms(4) by metis
    have "SinglePool_Append al root sl = Some (True, root')"
      using Some r(1) by (simp add: SinglePool_Append_def SinglePool_Insert_def pool_depth_Suc del: Insert_f.simps)
    moreover have "extent sl \<inter> free_bytes root = {}" using fits_disjoint [OF fits] by (simp add: free_bytes_def)
    ultimately show ?thesis using r by (simp add: keeps_def)
  qed
  show "\<exists>root'. SinglePool_Remove al root sl = Some (extent sl \<subseteq> free_bytes root, root') \<and> pool_inv root' \<and>
      free_bytes root' = (if extent sl \<subseteq> free_bytes root then free_bytes root - extent sl else free_bytes root)"
  proof (cases "extent sl \<subseteq> free_bytes root")
    case True
    then obtain i where "scan_all (entries (chain root)) 0 sl = Some (Some i)"
      using scan_all_spec [of "entries (chain root)" sl] assms(1,2)
      by (auto simp: pool_inv_def free_bytes_def split: option.splits)
    then obtain root' where "Remove_f (Suc (Suc (Suc (Suc 0)))) al root sl = Some (True, root')" "keeps root root'"
      "free_bytes root' = free_bytes root - extent sl"
      using Remove_room_state [OF assms(1,2) True] assms(4) by metis
    then show ?thesis using True by (simp add: SinglePool_Remove_def pool_depth_Suc keeps_def del: Remove_f.simps)
  next
    case False
    then show ?thesis using SinglePool_Remove_spec [OF assms(1,2), of al] by (auto simp: keeps_def)
  qed
qed

theorem pool_exact_witness:
  "\<exists>root'. SinglePool_Remove (\<lambda>_. None) (sample_pool 0 sample_slice4) \<lparr>sl_address = 0x2000, sl_length = 0x100\<rparr> =
      Some (True, root') \<and> free_bytes root' = {0x1000..<0x2000} \<union> {0x2100..<0x5000}"
proof -
  let ?sl = "\<lparr>sl_address = 0x2000, sl_length = 0x100\<rparr>"
  note inv = sample_pool_inv [OF sample_slice4_ok, of 0]
  have sl: "sl_ok ?sl" "extent ?sl \<inter> pool_pages (sample_pool 0 sample_slice4) = {}"
    unfolding inv(4) by (auto simp: sl_ok_def sl_end_def)
  have sub: "extent ?sl \<subseteq> extent sample_slice4"
    "extent sample_slice4 - extent ?sl = {0x1000..<0x2000} \<union> {0x2100..<0x5000}"
    by (auto simp: extent_def sl_end_def sample_slice4_def)
  show ?thesis
    using pool_exact [OF inv(1) sl inv(3), of "\<lambda>_. None", THEN conjunct2] sub unfolding inv(5) by auto
qed

text \<open>
  C18. The calls of \<open>Insert\<close>, \<open>Remove\<close> and \<open>PrepareNextPool\<close> to each other end: a depth of four is
  always enough, also when the chain has to grow into its own free memory.
\<close>

theorem pool_calls_end:
  assumes "pool_inv root" "sl_ok sl" "4 \<le> d"
  shows "Remove_f d al root sl \<noteq> None \<and>
    (\<forall>i. extent sl \<inter> pool_pages root = {} \<longrightarrow> ifContainNon (chain root) sl = Some i \<longrightarrow> Insert_f d al root i sl \<noteq> None)"
proof -
  obtain n where d: "d = Suc (Suc (Suc (Suc n)))"
    using assms(3) by (metis add_Suc add_0 le_iff_add numeral_Bit0 numeral_One Suc_1 add_2_eq_Suc)
  have "Remove_f d al root sl \<noteq> None"
    unfolding d by (rule Remove_spec [OF assms(1,2), of n al]) simp
  moreover have "Insert_f d al root i sl \<noteq> None"
    if "extent sl \<inter> pool_pages root = {}" "ifContainNon (chain root) sl = Some i" for i
  proof -
    have fits: "fits (entries (chain root)) i sl" using ifContainNon_inv [OF assms(1,2)] that(2) by simp
    show ?thesis unfolding d by (rule Insert_spec [OF assms(1,2) fits that(1), of n al]) simp
  qed
  ultimately show ?thesis by blast
qed

theorem pool_calls_end_witness:
  "Remove_f 4 (\<lambda>_. None) (sample_pool 1 sample_slice4) \<lparr>sl_address = 0x2000, sl_length = 0x100\<rparr> \<noteq> None"
  using pool_calls_end [OF sample_pool_inv(1) [OF sample_slice4_ok, of 1], of "\<lparr>sl_address = 0x2000, sl_length = 0x100\<rparr>" 4 "\<lambda>_. None"]
  by (simp add: sl_ok_def sl_end_def)

end
