(* ===== verification/Mempool.thy ===== *)
theory Mempool
  imports PoolCorrect
begin

text \<open>
  The memory allocator \<open>Mempool\<close> of \<open>src/inc/c/mempool.h\<close> and \<open>src/lib/cpp/Datype/mempool.cpp\<close> on
  top of two chains of free slices: blocks with a header, pages recorded in a page table, growth
  from the default allocator.

  Memory is a function from addresses to bytes; headers and the nodes of the page table are read
  and written in it. The null pointer is address 0. Results are \<open>None\<close> where the source divides by
  zero or accesses a pool outside its array. The build is the one without \<open>SET_POISON\<close>.
\<close>

section \<open>Memory\<close>

type_synonym memory = "nat \<Rightarrow> byte"

fun load_le :: "nat \<Rightarrow> memory \<Rightarrow> nat \<Rightarrow> nat" where
  "load_le 0 m a = 0"
| "load_le (Suc n) m a = unat (m a) + 256 * load_le n m (a + 1)"

fun store_le :: "nat \<Rightarrow> memory \<Rightarrow> nat \<Rightarrow> nat \<Rightarrow> memory" where
  "store_le 0 m a x = m"
| "store_le (Suc n) m a x = store_le n (m(a := of_nat (x mod 256))) (a + 1) (x div 256)"

abbreviation load64 :: "memory \<Rightarrow> nat \<Rightarrow> nat" where "load64 \<equiv> load_le 8"
abbreviation store64 :: "memory \<Rightarrow> nat \<Rightarrow> nat \<Rightarrow> memory" where "store64 \<equiv> store_le 8"

definition MemSet0 :: "memory \<Rightarrow> nat \<Rightarrow> nat \<Rightarrow> memory" where
  "MemSet0 m a n = (\<lambda>x. if a \<le> x \<and> x < a + n then 0 else m x)"

section \<open>The allocator\<close>

definition MEMPOOL_PAGE_SHIFT :: nat where "MEMPOOL_PAGE_SHIFT = 12"
definition MEMPOOL_PAGE_SIZE :: nat where "MEMPOOL_PAGE_SIZE = 2 ^ MEMPOOL_PAGE_SHIFT"
definition PAGE_META_ENTRY_COUNT :: nat where "PAGE_META_ENTRY_COUNT = 0x1000 div 8"
definition PAGE_META_LEVEL_BITS :: nat where "PAGE_META_LEVEL_BITS = 9"
definition MEMPOOL_ADDR_BITS :: nat where "MEMPOOL_ADDR_BITS = 48"
definition PAGE_META_LEVELS :: nat where
  "PAGE_META_LEVELS = (MEMPOOL_ADDR_BITS - MEMPOOL_PAGE_SHIFT + PAGE_META_LEVEL_BITS - 1) div PAGE_META_LEVEL_BITS"
definition PAGE_META_FREE :: nat where "PAGE_META_FREE = 0"
definition PAGE_META_CONT :: nat where "PAGE_META_CONT = 2 ^ 64 - 1"
definition header_size :: nat where "header_size = 16"
definition header_prop :: nat where "header_prop = 0xFEDC5AA5"

record Mempool =
  pool_registerd :: PoolChain
  pool_available :: PoolChain
  page_root :: nat
  enable_auto_expand :: bool
  auto_expand_step :: nat
  expand_only_from_self :: bool
  memory_of :: memory
  host_calls :: nat

text \<open>
  The default allocator is an object behind a pointer (\<open>None\<close> when it is null), with a state of its own
  that other parts of the program change as well. Its answer to a request is therefore a function of
  the number of the request, its size and its alignment, without any relation between the answers:
  every call may be answered differently. \<open>host_calls\<close> is the number of the next request; each operation
  that may ask takes a new number. \<open>host_malloc\<close> is the C library, asked for a pool when there is no
  default allocator. The answer 0 is the null pointer.
\<close>

record Host =
  default_allocator :: "(nat \<Rightarrow> nat \<Rightarrow> nat \<Rightarrow> nat) option"
  host_malloc :: "nat \<Rightarrow> nat \<Rightarrow> nat"

definition next_call :: "Mempool \<Rightarrow> Mempool" where
  "next_call mp = mp\<lparr>host_calls := host_calls mp + 1\<rparr>"

text \<open>The size of a pool: the table pointer and the comparison of \<open>Array\<close>, four words and the slices.\<close>

definition sizeof_SinglePool :: nat where
  "sizeof_SinglePool = 8 + 8 + 4 * 8 + 16 * CNT_SLICES_PER_POOL"

definition host_pool :: "Host \<Rightarrow> nat \<Rightarrow> nat option" where
  "host_pool host k =
    (let new_pool = (case default_allocator host of
           None \<Rightarrow> host_malloc host k sizeof_SinglePool
         | Some allocate \<Rightarrow> allocate k sizeof_SinglePool 12)
     in if new_pool = 0 then None else Some new_pool)"

definition new_PoolChain :: "nat \<Rightarrow> nat \<Rightarrow> PoolChain" where
  "new_PoolChain owner addr = \<lparr>owner_id = owner, chain = [new_SinglePool addr]\<rparr>"

definition available_Remove :: "Host \<Rightarrow> Mempool \<Rightarrow> Slice \<Rightarrow> (bool \<times> Mempool) option" where
  "available_Remove host mp sl =
    map_option (\<lambda>(ok, pool). (ok, next_call mp\<lparr>pool_available := pool\<rparr>))
      (SinglePool_Remove (\<lambda>_. host_pool host (host_calls mp)) (pool_available mp) sl)"

definition available_Append :: "Host \<Rightarrow> Mempool \<Rightarrow> Slice \<Rightarrow> (bool \<times> Mempool) option" where
  "available_Append host mp sl =
    map_option (\<lambda>(ok, pool). (ok, next_call mp\<lparr>pool_available := pool\<rparr>))
      (SinglePool_Append (\<lambda>_. host_pool host (host_calls mp)) (pool_available mp) sl)"

text \<open>\<open>Reset\<close> constructs both pools again; their own pages are not part of any chain.\<close>

definition Mempool_Reset :: "Mempool \<Rightarrow> Mempool" where
  "Mempool_Reset mp =
    (let owner = (if expand_only_from_self mp then 1 else 0) in
     mp\<lparr>pool_registerd := new_PoolChain owner 0, pool_available := new_PoolChain owner 0, page_root := 0\<rparr>)"

definition both_Append :: "Host \<Rightarrow> Mempool \<Rightarrow> Slice \<Rightarrow> Mempool option" where
  "both_Append host mp sl =
    (case SinglePool_Append (\<lambda>_. host_pool host (host_calls mp)) (pool_registerd mp) sl of
       None \<Rightarrow> None
     | Some (_, registerd) \<Rightarrow>
         map_option snd (available_Append host (next_call mp\<lparr>pool_registerd := registerd\<rparr>) sl))"

definition Mempool_Reset_slice :: "Host \<Rightarrow> Mempool \<Rightarrow> Slice \<Rightarrow> Mempool option" where
  "Mempool_Reset_slice host mp sl = both_Append host (Mempool_Reset mp) sl"

definition Mempool_Append :: "Host \<Rightarrow> Mempool \<Rightarrow> Slice \<Rightarrow> Mempool option" where
  "Mempool_Append host mp sl =
    (let mp = (if expand_only_from_self mp
               then mp\<lparr>pool_registerd := (pool_registerd mp)\<lparr>owner_id := 1\<rparr>,
                       pool_available := (pool_available mp)\<lparr>owner_id := 1\<rparr>\<rparr>
               else mp)
     in both_Append host mp sl)"

definition Mempool_Reserve :: "Host \<Rightarrow> Mempool \<Rightarrow> Slice \<Rightarrow> (bool \<times> Mempool) option" where
  "Mempool_Reserve host mp sl =
    (if sl_length sl = 0 \<or> sl_length sl > 2 ^ 64 - 1 - sl_address sl then Some (False, mp)
     else available_Remove host mp sl)"

text \<open>The memory \<open>Expand\<close> gets from the default allocator: in the large step, else in pages.\<close>

definition default_allocate :: "(nat \<Rightarrow> nat \<Rightarrow> nat \<Rightarrow> nat) \<Rightarrow> Mempool \<Rightarrow> nat \<Rightarrow> nat \<times> Mempool" where
  "default_allocate allocate mp siz = (allocate (host_calls mp) siz 0, next_call mp)"

definition expand_memory :: "Host \<Rightarrow> Mempool \<Rightarrow> nat \<Rightarrow> (Slice option \<times> Mempool) option" where
  "expand_memory host mp min_size =
    (if expand_only_from_self mp then Some (None, mp)
     else case default_allocator host of
       None \<Rightarrow> Some (None, mp)
     | Some allocate \<Rightarrow>
         if auto_expand_step mp = 0 then None
         else
           (let req_size = ceilAlign (auto_expand_step mp) (max min_size (auto_expand_step mp));
                (raw_mem, mp) = default_allocate allocate mp req_size in
            if raw_mem \<noteq> 0 then Some (Some \<lparr>sl_address = raw_mem, sl_length = req_size\<rparr>, mp)
            else
              (let req_size = ceilAlign 0x1000 (max min_size (auto_expand_step mp));
                   (raw_mem, mp) = default_allocate allocate mp req_size in
               if raw_mem \<noteq> 0 then Some (Some \<lparr>sl_address = raw_mem, sl_length = req_size\<rparr>, mp)
               else Some (None, mp))))"

definition Mempool_Expand :: "Host \<Rightarrow> Mempool \<Rightarrow> nat \<Rightarrow> (bool \<times> Mempool) option" where
  "Mempool_Expand host mp min_size =
    (case expand_memory host mp min_size of
       None \<Rightarrow> None
     | Some (None, mp) \<Rightarrow> Some (False, mp)
     | Some (Some new_slice, mp) \<Rightarrow> map_option (Pair True) (Mempool_Append host mp new_slice))"

section \<open>The page table\<close>

text \<open>
  A failed \<open>Remove\<close> leaves the pool as it was, so the loop of \<open>allocate_meta_page\<close> goes on over the
  slices it started with.
\<close>

fun meta_scan :: "Host \<Rightarrow> Mempool \<Rightarrow> Slice list \<Rightarrow> (nat \<times> Mempool) option" where
  "meta_scan host mp [] = Some (0, mp)"
| "meta_scan host mp (p # ps) =
    (let addr = ceilAlign MEMPOOL_PAGE_SIZE (sl_address p) in
     if sl_length p < MEMPOOL_PAGE_SIZE \<or> u64 (addr + MEMPOOL_PAGE_SIZE) > getEndoaddr p then meta_scan host mp ps
     else case available_Remove host mp \<lparr>sl_address = addr, sl_length = MEMPOOL_PAGE_SIZE\<rparr> of
       None \<Rightarrow> None
     | Some (removed, mp) \<Rightarrow>
         if \<not> removed then meta_scan host mp ps
         else Some (addr, mp\<lparr>memory_of := MemSet0 (memory_of mp) addr MEMPOOL_PAGE_SIZE\<rparr>))"

definition allocate_meta_page :: "Host \<Rightarrow> Mempool \<Rightarrow> (nat \<times> Mempool) option" where
  "allocate_meta_page host mp =
    meta_scan host mp (concat (map (\<lambda>p. take (slicecnt p) (slices p)) (chain (pool_available mp))))"

definition deallocate_meta_page :: "Host \<Rightarrow> Mempool \<Rightarrow> nat \<Rightarrow> (bool \<times> Mempool) option" where
  "deallocate_meta_page host mp node =
    (if node = 0 then Some (False, mp)
     else available_Append host mp \<lparr>sl_address = node, sl_length = MEMPOOL_PAGE_SIZE\<rparr>)"

definition ensure_page_root :: "Host \<Rightarrow> Mempool \<Rightarrow> (bool \<times> Mempool) option" where
  "ensure_page_root host mp =
    (if page_root mp \<noteq> 0 then Some (True, mp)
     else map_option (\<lambda>(node, mp). (node \<noteq> 0, mp\<lparr>page_root := node\<rparr>)) (allocate_meta_page host mp))"

definition entry_index :: "nat \<Rightarrow> nat \<Rightarrow> nat" where
  "entry_index page_no level = page_no div 2 ^ (level * PAGE_META_LEVEL_BITS) mod PAGE_META_ENTRY_COUNT"

text \<open>The walk down the table: \<open>level\<close> counts down to 1; 0 is the null pointer.\<close>

fun leaf_walk :: "nat \<Rightarrow> Host \<Rightarrow> Mempool \<Rightarrow> nat \<Rightarrow> nat \<Rightarrow> bool \<Rightarrow> (nat \<times> Mempool) option" where
  "leaf_walk 0 host mp node page_no create =
     Some (u64 (node + 8 * (page_no mod PAGE_META_ENTRY_COUNT)), mp)"
| "leaf_walk (Suc l) host mp node page_no create =
    (let cell = u64 (node + 8 * entry_index page_no (Suc l));
         child = load64 (memory_of mp) cell in
     if child \<noteq> 0 then leaf_walk l host mp child page_no create
     else if \<not> create then Some (0, mp)
     else case allocate_meta_page host mp of
       None \<Rightarrow> None
     | Some (child, mp) \<Rightarrow>
         if child = 0 then Some (0, mp)
         else leaf_walk l host (mp\<lparr>memory_of := store64 (memory_of mp) cell child\<rparr>) child page_no create)"

definition get_leaf_entry :: "Host \<Rightarrow> Mempool \<Rightarrow> nat \<Rightarrow> bool \<Rightarrow> (nat \<times> Mempool) option" where
  "get_leaf_entry host mp page_no create =
    (if page_root mp = 0 then Some (0, mp)
     else leaf_walk (PAGE_META_LEVELS - 1) host mp (page_root mp) page_no create)"

text \<open>\<open>get_leaf_entry(page_no, false)\<close> does not change the pool; 0 where there is no entry.\<close>

definition leaf_entry :: "Host \<Rightarrow> Mempool \<Rightarrow> nat \<Rightarrow> nat" where
  "leaf_entry host mp page_no = (case get_leaf_entry host mp page_no False of Some (e, _) \<Rightarrow> e | None \<Rightarrow> 0)"

text \<open>\<open>free_page_table\<close> is reserved for a later phase of the source; the children are freed first.\<close>

fun free_children :: "(Mempool \<Rightarrow> nat \<Rightarrow> Mempool option) \<Rightarrow> Mempool \<Rightarrow> nat \<Rightarrow> nat list \<Rightarrow> Mempool option" where
  "free_children free mp node [] = Some mp"
| "free_children free mp node (i # is) =
    (let child = load64 (memory_of mp) (u64 (node + 8 * i)) in
     if child = 0 then free_children free mp node is
     else case free mp child of None \<Rightarrow> None | Some mp \<Rightarrow> free_children free mp node is)"

primrec free_page_table :: "nat \<Rightarrow> Host \<Rightarrow> Mempool \<Rightarrow> nat \<Rightarrow> Mempool option" where
  "free_page_table 0 host mp node =
    (if node = 0 then Some mp else map_option snd (deallocate_meta_page host mp node))"
| "free_page_table (Suc level) host mp node =
    (if node = 0 then Some mp
     else case free_children (\<lambda>mp child. free_page_table level host mp child) mp node [0..<PAGE_META_ENTRY_COUNT] of
       None \<Rightarrow> None
     | Some mp \<Rightarrow> map_option snd (deallocate_meta_page host mp node))"

section \<open>Pages\<close>

fun page_slices :: "nat \<Rightarrow> nat \<Rightarrow> Slice list \<Rightarrow> nat" where
  "page_slices align siz [] = 0"
| "page_slices align siz (p # ps) =
    (let aligned = ceilAlign align (sl_address p) in
     if u64 (aligned + siz) \<le> getEndoaddr p then aligned else page_slices align siz ps)"

fun page_pools :: "nat \<Rightarrow> nat \<Rightarrow> SinglePool list \<Rightarrow> nat" where
  "page_pools align siz [] = 0"
| "page_pools align siz (p # ps) =
    (let addr = page_slices align siz (take (slicecnt p) (slices p)) in
     if addr \<noteq> 0 then addr else page_pools align siz ps)"

text \<open>Building the paths: the first argument counts the pages that are left, \<open>p\<close> the page.\<close>

fun build_paths :: "nat \<Rightarrow> Host \<Rightarrow> Mempool \<Rightarrow> nat \<Rightarrow> nat \<Rightarrow> (bool \<times> Mempool) option" where
  "build_paths 0 host mp first_pg p = Some (True, mp)"
| "build_paths (Suc n) host mp first_pg p =
    (case get_leaf_entry host mp (first_pg + p) True of
       None \<Rightarrow> None
     | Some (entry, mp) \<Rightarrow>
         if entry = 0 \<or> load64 (memory_of mp) entry \<noteq> PAGE_META_FREE then Some (False, mp)
         else build_paths n host mp first_pg (p + 1))"

fun commit_pages :: "nat \<Rightarrow> Host \<Rightarrow> Mempool \<Rightarrow> nat \<Rightarrow> nat \<Rightarrow> nat \<Rightarrow> Mempool" where
  "commit_pages 0 host mp first_pg page_count p = mp"
| "commit_pages (Suc n) host mp first_pg page_count p =
    commit_pages n host (mp\<lparr>memory_of := store64 (memory_of mp) (leaf_entry host mp (first_pg + p))
       (if p \<noteq> 0 then PAGE_META_CONT else page_count)\<rparr>) first_pg page_count (p + 1)"

definition attempt_alloc :: "Host \<Rightarrow> Mempool \<Rightarrow> nat \<Rightarrow> nat \<Rightarrow> nat \<Rightarrow> (nat \<times> Mempool) option" where
  "attempt_alloc host mp page_count align siz =
    (case ensure_page_root host mp of
       None \<Rightarrow> None
     | Some (ready, mp) \<Rightarrow>
         if \<not> ready then Some (0, mp)
         else
           (let addr = page_pools align siz (chain (pool_available mp)) in
            if addr = 0 then Some (0, mp)
            else case available_Remove host mp \<lparr>sl_address = addr, sl_length = siz\<rparr> of
              None \<Rightarrow> None
            | Some (removed, mp) \<Rightarrow>
                if \<not> removed then Some (0, mp)
                else
                  (let first_pg = addr div 2 ^ MEMPOOL_PAGE_SHIFT in
                   case build_paths page_count host mp first_pg 0 of
                     None \<Rightarrow> None
                   | Some (built, mp) \<Rightarrow>
                       if \<not> built
                       then map_option (\<lambda>(_, mp). (0, mp)) (available_Append host mp \<lparr>sl_address = addr, sl_length = siz\<rparr>)
                       else Some (addr, commit_pages page_count host mp first_pg page_count 0))))"

definition allocate_pages :: "Host \<Rightarrow> Mempool \<Rightarrow> nat \<Rightarrow> nat \<Rightarrow> (nat \<times> Mempool) option" where
  "allocate_pages host mp page_count alignment =
    (if page_count = 0 \<or> page_count = PAGE_META_CONT then Some (0, mp)
     else if page_count > (2 ^ 64 - 1) div MEMPOOL_PAGE_SIZE then Some (0, mp)
     else
       (let alignment = (if alignment < MEMPOOL_PAGE_SHIFT then MEMPOOL_PAGE_SHIFT else alignment);
            align = u64 (2 ^ alignment);
            siz = page_count * MEMPOOL_PAGE_SIZE in
        case attempt_alloc host mp page_count align siz of
          None \<Rightarrow> None
        | Some (result, mp) \<Rightarrow>
            if result \<noteq> 0 \<or> \<not> enable_auto_expand mp then Some (result, mp)
            else (case Mempool_Expand host mp (u64 (siz + align)) of
                    None \<Rightarrow> None
                  | Some (expanded, mp) \<Rightarrow>
                      if expanded then attempt_alloc host mp page_count align siz else Some (0, mp))))"

fun run_intact :: "nat \<Rightarrow> Host \<Rightarrow> Mempool \<Rightarrow> nat \<Rightarrow> bool" where
  "run_intact 0 host mp pg = True"
| "run_intact (Suc n) host mp pg =
    (let entry = leaf_entry host mp pg in
     entry \<noteq> 0 \<and> load64 (memory_of mp) entry = PAGE_META_CONT \<and> run_intact n host mp (pg + 1))"

fun clear_run :: "nat \<Rightarrow> Host \<Rightarrow> Mempool \<Rightarrow> nat \<Rightarrow> Mempool" where
  "clear_run 0 host mp pg = mp"
| "clear_run (Suc n) host mp pg =
    clear_run n host (mp\<lparr>memory_of := store64 (memory_of mp) (leaf_entry host mp pg) PAGE_META_FREE\<rparr>) (pg + 1)"

definition deallocate_pages :: "Host \<Rightarrow> Mempool \<Rightarrow> nat \<Rightarrow> (bool \<times> Mempool) option" where
  "deallocate_pages host mp ptr =
    (if ptr = 0 \<or> ptr mod MEMPOOL_PAGE_SIZE \<noteq> 0 \<or> page_root mp = 0 then Some (False, mp)
     else
       (let first_pg = ptr div 2 ^ MEMPOOL_PAGE_SHIFT;
            first_entry = leaf_entry host mp first_pg;
            page_count = load64 (memory_of mp) first_entry in
        if first_entry = 0 \<or> page_count = PAGE_META_FREE \<or> page_count = PAGE_META_CONT then Some (False, mp)
        else if page_count > (2 ^ 64 - 1) div MEMPOOL_PAGE_SIZE then Some (False, mp)
        else if \<not> run_intact (page_count - 1) host mp (first_pg + 1) then Some (False, mp)
        else case available_Append host mp \<lparr>sl_address = ptr, sl_length = page_count * MEMPOOL_PAGE_SIZE\<rparr> of
          None \<Rightarrow> None
        | Some (appended, mp) \<Rightarrow>
            if \<not> appended then Some (False, mp)
            else Some (True, clear_run page_count host mp first_pg)))"

section \<open>Blocks\<close>

text \<open>
  Where a block of \<open>size\<close> bytes would lie in a free slice: the address of its data. \<open>bound\<close> is a
  power of two or 0, so \<open>x & ~(bound - 1)\<close> is \<open>floorAlign bound x\<close>.
\<close>

definition block_in :: "nat \<Rightarrow> nat \<Rightarrow> nat \<Rightarrow> Slice \<Rightarrow> nat option" where
  "block_in siz align bound p =
    (let total_size = u64 (header_size + siz) in
     if sl_length p < total_size then None
     else
       (let next_align = ceilAlign align (u64 (sl_address p + header_size));
            next_align = (if bound > 1 \<and> floorAlign bound next_align \<noteq> floorAlign bound (u64 (next_align + siz + (2 ^ 64 - 1)))
              then u64 (floorAlign bound next_align + bound) else next_align) in
        if align \<le> 1 \<and> next_align = u64 (sl_address p + header_size) then Some (u64 (sl_address p + header_size))
        else if u64 (next_align + siz) \<le> getEndoaddr p then Some next_align
        else None))"

fun block_slices :: "nat \<Rightarrow> nat \<Rightarrow> nat \<Rightarrow> Slice list \<Rightarrow> nat option" where
  "block_slices siz align bound [] = None"
| "block_slices siz align bound (p # ps) =
    (case block_in siz align bound p of Some a \<Rightarrow> Some a | None \<Rightarrow> block_slices siz align bound ps)"

fun block_pools :: "nat \<Rightarrow> nat \<Rightarrow> nat \<Rightarrow> SinglePool list \<Rightarrow> nat option" where
  "block_pools siz align bound [] = None"
| "block_pools siz align bound (p # ps) =
    (if slicecnt p = 0 then None
     else case block_slices siz align bound (take (slicecnt p) (slices p)) of
       Some a \<Rightarrow> Some a
     | None \<Rightarrow> block_pools siz align bound ps)"

definition write_header :: "memory \<Rightarrow> nat \<Rightarrow> nat \<Rightarrow> memory" where
  "write_header m header siz = store64 (store64 m header siz) (u64 (header + 8)) header_prop"

text \<open>One pass of \<open>_RETRY_ALLOC\<close>: \<open>None\<close> as the inner result is a pass that found no slice.\<close>

definition allocate_pass :: "Host \<Rightarrow> Mempool \<Rightarrow> nat \<Rightarrow> nat \<Rightarrow> nat \<Rightarrow> (nat option \<times> Mempool) option" where
  "allocate_pass host mp siz align bound =
    (case block_pools siz align bound (chain (pool_available mp)) of
       None \<Rightarrow> Some (None, mp)
     | Some ret \<Rightarrow>
         (let header = u64 (ret + (2 ^ 64 - header_size)) in
          case available_Remove host mp \<lparr>sl_address = header, sl_length = u64 (header_size + siz)\<rparr> of
            None \<Rightarrow> None
          | Some (succ, mp) \<Rightarrow>
              if \<not> succ then Some (Some 0, mp)
              else Some (Some ret, mp\<lparr>memory_of := write_header (memory_of mp) header siz\<rparr>)))"

definition Mempool_allocate :: "Host \<Rightarrow> Mempool \<Rightarrow> nat \<Rightarrow> nat \<Rightarrow> nat \<Rightarrow> (nat \<times> Mempool) option" where
  "Mempool_allocate host mp siz alignment boundary =
    (let align = u64 (2 ^ alignment);
         boundary = (if boundary \<le> alignment then 0 else boundary);
         bound = (if boundary \<noteq> 0 then u64 (2 ^ boundary) else 0);
         siz = (if siz = 0 then 1 else siz) in
     if alignment \<ge> MEMPOOL_PAGE_SHIFT \<and> bound = 0 \<and> siz mod MEMPOOL_PAGE_SIZE = 0
     then allocate_pages host mp (siz div 2 ^ MEMPOOL_PAGE_SHIFT) alignment
     else if bound > 0 \<and> siz > bound then Some (0, mp)
     else case allocate_pass host mp siz align bound of
       None \<Rightarrow> None
     | Some (Some ret, mp) \<Rightarrow> Some (ret, mp)
     | Some (None, mp) \<Rightarrow>
         if \<not> enable_auto_expand mp then Some (0, mp)
         else (case Mempool_Expand host mp (u64 (u64 (header_size + siz) + (if bound > align then bound else align))) of
                 None \<Rightarrow> None
               | Some (expanded, mp) \<Rightarrow>
                   if \<not> expanded then Some (0, mp)
                   else (case allocate_pass host mp siz align bound of
                           None \<Rightarrow> None
                         | Some (Some ret, mp) \<Rightarrow> Some (ret, mp)
                         | Some (None, mp) \<Rightarrow> Some (0, mp))))"

definition Mempool_deallocate :: "Host \<Rightarrow> Mempool \<Rightarrow> nat \<Rightarrow> nat \<Rightarrow> (bool \<times> Mempool) option" where
  "Mempool_deallocate host mp ptr siz =
    (let entry = leaf_entry host mp (ptr div 2 ^ MEMPOOL_PAGE_SHIFT) in
     if ptr \<noteq> 0 \<and> ptr mod MEMPOOL_PAGE_SIZE = 0 \<and> entry \<noteq> 0 \<and> load64 (memory_of mp) entry \<noteq> PAGE_META_FREE
     then deallocate_pages host mp ptr
     else if ptr < header_size then Some (False, mp)
     else
       (let header = ptr - header_size;
            hsize = load64 (memory_of mp) header in
        if load64 (memory_of mp) (header + 8) \<noteq> header_prop \<or> hsize = 0 then Some (False, mp)
        else
          (let siz = (if siz = 0 then hsize else siz) in
           if siz = hsize
           then available_Append host mp \<lparr>sl_address = header, sl_length = u64 (header_size + siz)\<rparr>
           else
             (let dealloc_size = min hsize siz;
                  new_header = u64 (u64 (ptr + dealloc_size) + (2 ^ 64 - header_size)) in
              available_Append host
                (mp\<lparr>memory_of := write_header (memory_of mp) new_header (hsize - dealloc_size)\<rparr>)
                \<lparr>sl_address = header, sl_length = dealloc_size\<rparr>))))"

text \<open>The general \<open>reallocate\<close> of the interface \<open>trait::Malloc\<close>, which the allocator inherits.\<close>

definition Malloc_reallocate :: "Host \<Rightarrow> Mempool \<Rightarrow> nat \<Rightarrow> nat \<Rightarrow> nat \<Rightarrow> (nat \<times> Mempool) option" where
  "Malloc_reallocate host mp ptr old_size siz =
    (case Mempool_allocate host mp siz 0 0 of
       None \<Rightarrow> None
     | Some (newptr, mp) \<Rightarrow>
         if newptr = 0 then Some (0, mp)
         else
           (let m = memory_of mp;
                mp = mp\<lparr>memory_of := (\<lambda>x. if newptr \<le> x \<and> x < newptr + old_size then m (ptr + (x - newptr)) else m x)\<rparr> in
            map_option (\<lambda>(_, mp). (newptr, mp)) (Mempool_deallocate host mp ptr 0)))"

end
