(* ===== verification/MempoolCorrect.thy ===== *)
theory MempoolCorrect
  imports Mempool
begin

text \<open>
  The allocator hands out each byte at most once: blocks are taken from free memory or from memory
  that the default allocator gives during the call, aligned, and given back by \<open>deallocate\<close>. Nothing is
  assumed about the answers of the default allocator but that the memory it gives in a call is not in
  use at that time; a request that the allocator can serve is served.
\<close>

section \<open>Memory\<close>

lemma store_le_other: "y < a \<or> a + n \<le> y \<Longrightarrow> store_le n m a x y = m y"
  by (induction n arbitrary: m a x) auto

lemma load_le_cong: "(\<And>y. a \<le> y \<Longrightarrow> y < a + n \<Longrightarrow> m' y = m y) \<Longrightarrow> load_le n m' a = load_le n m a"
  by (induction n arbitrary: a) auto

lemma load_store_le: "x < 256 ^ n \<Longrightarrow> load_le n (store_le n m a x) a = x"
proof (induction n arbitrary: m a x)
  case (Suc n)
  define m1 where "m1 = m(a := word_of_nat (x mod 256))"
  have "store_le n m1 (a + 1) (x div 256) a = word_of_nat (x mod 256)"
    by (simp add: store_le_other m1_def)
  moreover have "x div 256 < 256 ^ n" using Suc.prems by (simp add: less_mult_imp_div_less mult.commute)
  then have "load_le n (store_le n m1 (a + 1) (x div 256)) (a + 1) = x div 256" by (rule Suc.IH)
  ultimately show ?case by (simp add: unat_of_nat m1_def [symmetric])
qed simp

lemma load_store64: "x < 2 ^ 64 \<Longrightarrow> load64 (store64 m a x) a = x"
  by (rule load_store_le) simp

lemma load_store64_other: "b + 8 \<le> a \<or> a + 8 \<le> b \<Longrightarrow> load64 (store64 m a x) b = load64 m b"
  by (intro load_le_cong store_le_other) auto

lemma write_header_load:
  assumes "h + 16 \<le> 2 ^ 64" "n < 2 ^ 64"
  shows "load64 (write_header m h n) h = n" "load64 (write_header m h n) (h + 8) = header_prop"
proof -
  have "u64 (h + 8) = h + 8" using assms(1) by simp
  then show "load64 (write_header m h n) h = n" "load64 (write_header m h n) (h + 8) = header_prop"
    unfolding write_header_def using assms(2)
    by (simp_all only: load_store64_other [of h "h + 8"] load_store64 le_refl simp_thms)
       (simp_all add: load_store64 header_prop_def)
qed

lemma write_header_other:
  assumes "h + 16 \<le> 2 ^ 64" "y < h \<or> h + 16 \<le> y"
  shows "write_header m h n y = m y"
proof -
  have "u64 (h + 8) = h + 8" using assms(1) by simp
  then show ?thesis using assms(2) by (auto simp: write_header_def store_le_other)
qed

section \<open>Where a block fits\<close>

lemma floor_mult: "floorAlign a v mod a = 0"
  by (simp add: floorAlign_def)

lemma ceil_spec:
  assumes "0 < a" "v + a \<le> 2 ^ 64"
  shows "v \<le> ceilAlign a v" "ceilAlign a v < v + a" "ceilAlign a v mod a = 0"
proof -
  have u: "u64 (v + (a - 1)) = v + (a - 1)" using assms by simp
  have "(v + (a - 1)) div a * a + (v + (a - 1)) mod a = v + (a - 1)" by (rule div_mult_mod_eq)
  moreover have "(v + (a - 1)) mod a < a" using assms(1) by simp
  ultimately show "v \<le> ceilAlign a v" "ceilAlign a v < v + a"
    unfolding ceilAlign_def floorAlign_def u using assms(1) by linarith+
  show "ceilAlign a v mod a = 0" by (simp add: ceilAlign_def floor_mult)
qed

lemma floor_spec: "0 < b \<Longrightarrow> floorAlign b v \<le> v" "0 < b \<Longrightarrow> v < floorAlign b v + b"
proof -
  have "v div b * b + v mod b = v" by (rule div_mult_mod_eq)
  moreover have "0 < b \<Longrightarrow> v mod b < b" by simp
  ultimately show "0 < b \<Longrightarrow> floorAlign b v \<le> v" "0 < b \<Longrightarrow> v < floorAlign b v + b"
    unfolding floorAlign_def by linarith+
qed

text \<open>No block crosses a multiple of \<open>bound\<close>.\<close>

definition in_window :: "nat \<Rightarrow> nat \<Rightarrow> nat \<Rightarrow> bool" where
  "in_window bound a n \<longleftrightarrow> bound = 0 \<or> a div bound = (a + n - 1) div bound"

lemma block_in_spec:
  assumes "block_in n align bound p = Some a" "sl_ok p" "0 < n" "header_size + n < 2 ^ 64"
    and "0 < align" "bound = 0 \<or> align dvd bound \<and> n \<le> bound \<and> 1 < bound"
    and room: "sl_end p + align + bound \<le> 2 ^ 64"
  shows "sl_address p + header_size \<le> a" "a + n \<le> sl_end p" "a mod align = 0" "in_window bound a n"
proof -
  have t: "u64 (header_size + n) = header_size + n" using assms(4) by simp
  have len: "header_size + n \<le> sl_length p"
    using assms(1) t by (auto simp: block_in_def Let_def split: if_splits)
  define v where "v = sl_address p + header_size"
  have v: "u64 (sl_address p + header_size) = v" "v + n \<le> sl_end p" "v + align \<le> 2 ^ 64"
    using len room assms(3) by (auto simp: v_def sl_end_def)
  define c where "c = ceilAlign align v"
  note c = ceil_spec [OF assms(5) v(3), folded c_def]
  have wrap: "u64 (c + n + (2 ^ 64 - 1)) = c + n - 1"
  proof -
    have "c + n + (2 ^ 64 - 1) = c + n - 1 + 2 ^ 64" using assms(3) by simp
    moreover have "c + n - 1 < 2 ^ 64" using c(2) v(2) room by linarith
    ultimately show ?thesis unfolding u64_def by (simp only: mod_add_self2) simp
  qed
  define moved where "moved \<longleftrightarrow> bound > 1 \<and> floorAlign bound c \<noteq> floorAlign bound (c + n - 1)"
  define d where "d = (if moved then floorAlign bound c + bound else c)"
  have dle: "moved \<Longrightarrow> d \<le> c + bound" using floor_spec(1) [of bound c] by (auto simp: d_def moved_def)
  have dge: "c \<le> d" using floor_spec(2) [of bound c] by (auto simp: d_def moved_def)
  have dn: "d + n < 2 ^ 64" using dle c(2) v(2) room by (cases moved) (auto simp: d_def)
  have ud: "(if moved then u64 (floorAlign bound c + bound) else c) = d" "u64 (d + n) = d + n"
    using dn by (auto simp: d_def)
  have "\<not> sl_length p < header_size + n" using len by simp
  then have res: "block_in n align bound p = (if align \<le> 1 \<and> d = v then Some v else if d + n \<le> sl_end p then Some d else None)"
    unfolding block_in_def Let_def t v(1) c_def [symmetric] wrap moved_def [symmetric] ud getEndoaddr_ok [OF assms(2)]
    by simp
  then have a: "a = d" "d + n \<le> sl_end p" using assms(1) v(2) by (auto split: if_splits)
  show "sl_address p + header_size \<le> a" "a + n \<le> sl_end p" using a c(1) dge by (auto simp: v_def)
  show "a mod align = 0"
    using a c(3) assms(6) floor_mult [of bound c] by (auto simp: d_def moved_def mod_eq_0_iff_dvd intro: dvd_trans)
  show "in_window bound a n"
  proof (cases moved)
    case True
    then have b: "bound > 1" "n \<le> bound" using assms(6) by (auto simp: moved_def)
    then have "a = (c div bound + 1) * bound" using a True by (simp add: d_def floorAlign_def)
    moreover from this have "a + n - 1 = (n - 1) + (c div bound + 1) * bound" using assms(3) by simp
    moreover have "(n - 1) div bound = 0" using b assms(3) by simp
    ultimately show ?thesis using b by (simp only: in_window_def div_mult_self1) simp
  next
    case False
    then show ?thesis using a assms(6) by (auto simp: d_def moved_def in_window_def floorAlign_def)
  qed
qed

section \<open>The state of the allocator\<close>

definition mp_ok :: "Mempool \<Rightarrow> bool" where
  "mp_ok mp \<longleftrightarrow> pool_inv (pool_available mp) \<and> pool_inv (pool_registerd mp) \<and>
     (expand_only_from_self mp \<longrightarrow> owner_id (pool_available mp) = 1 \<and> owner_id (pool_registerd mp) = 1)"

text \<open>The settings, the owners of the chains and the root of the page table.\<close>

definition frame :: "Mempool \<Rightarrow> Mempool \<Rightarrow> bool" where
  "frame mp mp' \<longleftrightarrow> page_root mp' = page_root mp \<and> enable_auto_expand mp' = enable_auto_expand mp \<and>
     auto_expand_step mp' = auto_expand_step mp \<and> expand_only_from_self mp' = expand_only_from_self mp \<and>
     owner_id (pool_available mp') = owner_id (pool_available mp) \<and>
     owner_id (pool_registerd mp') = owner_id (pool_registerd mp)"

lemma frame_trans: "frame a b \<Longrightarrow> frame b c \<Longrightarrow> frame a c"
  by (simp add: frame_def)

lemma frame_refl [simp]: "frame a a"
  by (simp add: frame_def)

text \<open>
  The free list has room for one more slice, or for two: in its last pool, or because the default
  allocator has memory for further pools.
\<close>

definition spare :: "SinglePool list \<Rightarrow> bool" where
  "spare ch \<longleftrightarrow> slicecnt (last ch) + 1 < N - 2"

definition room_one :: "Host \<Rightarrow> Mempool \<Rightarrow> bool" where
  "room_one host mp \<longleftrightarrow> roomy (chain (pool_available mp)) \<or>
     owner_id (pool_available mp) \<noteq> 1 \<and> (\<forall>c. host_pool host c \<noteq> None)"

definition room_two :: "Host \<Rightarrow> Mempool \<Rightarrow> bool" where
  "room_two host mp \<longleftrightarrow> spare (chain (pool_available mp)) \<or>
     owner_id (pool_available mp) \<noteq> 1 \<and> (\<forall>c. host_pool host c \<noteq> None)"

lemma room_two_one: "room_two host mp \<Longrightarrow> room_one host mp"
  by (auto simp: room_one_def room_two_def spare_def roomy_def)

definition mp_free :: "Mempool \<Rightarrow> nat set" where
  "mp_free mp = free_bytes (pool_available mp)"

text \<open>The memory the allocator keeps: free, or used for its own pools.\<close>

definition mp_kept :: "Mempool \<Rightarrow> nat set" where
  "mp_kept mp = free_bytes (pool_available mp) \<union> pool_pages (pool_available mp)"

definition mp_pages :: "Mempool \<Rightarrow> nat set" where
  "mp_pages mp = pool_pages (pool_available mp) \<union> pool_pages (pool_registerd mp)"

text \<open>An operation that fails leaves everything as it was; the default allocator may have been asked.\<close>

definition unchanged :: "Mempool \<Rightarrow> Mempool \<Rightarrow> bool" where
  "unchanged mp mp' \<longleftrightarrow> mp' = mp\<lparr>host_calls := host_calls mp'\<rparr>"

lemma host_calls_irrelevant [simp]:
  "mp_ok (mp\<lparr>host_calls := k\<rparr>) = mp_ok mp" "mp_free (mp\<lparr>host_calls := k\<rparr>) = mp_free mp"
  "mp_kept (mp\<lparr>host_calls := k\<rparr>) = mp_kept mp" "mp_pages (mp\<lparr>host_calls := k\<rparr>) = mp_pages mp"
  "frame mp (mp\<lparr>host_calls := k\<rparr>)" "room_one host (mp\<lparr>host_calls := k\<rparr>) = room_one host mp"
  "room_two host (mp\<lparr>host_calls := k\<rparr>) = room_two host mp"
  by (simp_all add: mp_ok_def mp_free_def mp_kept_def mp_pages_def frame_def room_one_def room_two_def)

lemma unchangedD:
  assumes "unchanged mp mp'"
  shows "mp_ok mp' = mp_ok mp" "mp_free mp' = mp_free mp" "mp_kept mp' = mp_kept mp" "mp_pages mp' = mp_pages mp"
    "frame mp mp'" "memory_of mp' = memory_of mp" "pool_available mp' = pool_available mp" "pool_registerd mp' = pool_registerd mp"
    "page_root mp' = page_root mp" "auto_expand_step mp' = auto_expand_step mp" "room_one host mp' = room_one host mp"
proof -
  obtain k where "mp' = mp\<lparr>host_calls := k\<rparr>" using assms by (auto simp: unchanged_def)
  then show "mp_ok mp' = mp_ok mp" "mp_free mp' = mp_free mp" "mp_kept mp' = mp_kept mp" "mp_pages mp' = mp_pages mp"
    "frame mp mp'" "memory_of mp' = memory_of mp" "pool_available mp' = pool_available mp" "pool_registerd mp' = pool_registerd mp"
    "page_root mp' = page_root mp" "auto_expand_step mp' = auto_expand_step mp" "room_one host mp' = room_one host mp" by simp_all
qed

lemma unchanged_refl [simp]: "unchanged mp mp"
  by (simp add: unchanged_def)

lemma unchanged_next [simp]: "unchanged mp (next_call mp)" "unchanged mp (next_call mp\<lparr>pool_available := pool_available mp\<rparr>)"
  "unchanged mp (next_call (next_call mp))"
  by (simp_all add: unchanged_def next_call_def)

lemma available_Remove_spec:
  assumes "mp_ok mp" "sl_ok sl"
  obtains b mp' where "available_Remove host mp sl = Some (b, mp')" and "\<not> b \<Longrightarrow> unchanged mp mp'" and "mp_ok mp'"
    and "memory_of mp' = memory_of mp" "pool_registerd mp' = pool_registerd mp" "frame mp mp'"
    and "b \<Longrightarrow> extent sl \<subseteq> mp_free mp \<and> mp_free mp' \<subseteq> mp_free mp - extent sl \<and> mp_kept mp' = mp_kept mp - extent sl"
    and "extent sl \<subseteq> mp_free mp \<Longrightarrow> room_one host mp \<Longrightarrow> b"
proof -
  let ?pool = "pool_available mp" and ?al = "\<lambda>_ :: nat. host_pool host (host_calls mp)"
  have inv: "pool_inv ?pool" using assms(1) by (simp add: mp_ok_def)
  obtain b pool where r: "SinglePool_Remove ?al ?pool sl = Some (b, pool)" "\<not> b \<longrightarrow> pool = ?pool" "keeps ?pool pool"
    "b \<longrightarrow> extent sl \<subseteq> free_bytes ?pool \<and> free_bytes pool \<subseteq> free_bytes ?pool - extent sl"
    "extent sl \<subseteq> free_bytes ?pool \<and> room_one host mp \<longrightarrow> b"
    using SinglePool_Remove_spec [OF inv assms(2), of ?al] unfolding room_one_def by blast
  let ?mp = "next_call mp\<lparr>pool_available := pool\<rparr>"
  have "b \<Longrightarrow> mp_kept ?mp = mp_kept mp - extent sl"
    using pool.remove_apart(2) [OF inv assms(2)] r(1) by (simp add: mp_kept_def)
  moreover have "mp_ok ?mp" using r(3) assms(1) by (simp add: mp_ok_def keeps_def next_call_def)
  ultimately show ?thesis
    using r by (intro that [of b ?mp]) (auto simp: available_Remove_def mp_free_def frame_def next_call_def unchanged_def keeps_def)
qed

lemma available_Append_spec:
  assumes "mp_ok mp" "sl_ok sl" "extent sl \<inter> pool_pages (pool_available mp) = {}"
  obtains b mp' where "available_Append host mp sl = Some (b, mp')" and "\<not> b \<Longrightarrow> unchanged mp mp'" and "mp_ok mp'"
    and "memory_of mp' = memory_of mp" "pool_registerd mp' = pool_registerd mp" "frame mp mp'"
    and "b \<Longrightarrow> extent sl \<inter> mp_free mp = {} \<and> extent sl \<subseteq> mp_free mp' \<and> mp_free mp' \<subseteq> mp_free mp \<union> extent sl \<and>
      mp_kept mp' = mp_kept mp \<union> extent sl"
    and "extent sl \<inter> mp_free mp = {} \<Longrightarrow> room_one host mp \<Longrightarrow> b"
proof -
  let ?pool = "pool_available mp" and ?al = "\<lambda>_ :: nat. host_pool host (host_calls mp)"
  have inv: "pool_inv ?pool" using assms(1) by (simp add: mp_ok_def)
  obtain b pool where r: "SinglePool_Append ?al ?pool sl = Some (b, pool)" "\<not> b \<longrightarrow> pool = ?pool" "keeps ?pool pool"
    "b \<longrightarrow> extent sl \<inter> free_bytes ?pool = {} \<and> extent sl \<subseteq> free_bytes pool \<and> free_bytes pool \<subseteq> free_bytes ?pool \<union> extent sl \<and>
        free_bytes pool \<union> pool_pages pool = free_bytes ?pool \<union> pool_pages ?pool \<union> extent sl"
    "extent sl \<inter> free_bytes ?pool = {} \<and> room_one host mp \<longrightarrow> b"
    using SinglePool_Append_spec [OF inv assms(2,3), of ?al] unfolding room_one_def by blast
  let ?mp = "next_call mp\<lparr>pool_available := pool\<rparr>"
  have "mp_ok ?mp" using r(3) assms(1) by (simp add: mp_ok_def keeps_def next_call_def)
  with r show ?thesis
    by (intro that [of b ?mp])
       (auto simp: available_Append_def mp_free_def mp_kept_def frame_def next_call_def unchanged_def keeps_def)
qed

lemma block_slices_append:
  "block_slices n align bound (xs @ ys) =
    (case block_slices n align bound xs of Some a \<Rightarrow> Some a | None \<Rightarrow> block_slices n align bound ys)"
  by (induction xs) (auto split: option.splits)

lemma block_slices_Some: "block_slices n align bound xs = Some a \<Longrightarrow> \<exists>p \<in> set xs. block_in n align bound p = Some a"
  by (induction xs) (auto split: option.splits)

lemma block_pools_flat:
  "shaped ch \<Longrightarrow> counts k ch \<Longrightarrow> block_pools n align bound ch = block_slices n align bound (take k (cells ch))"
proof (induction ch arbitrary: k)
  case (Cons p ps)
  show ?case
  proof (cases "slicecnt p = 0")
    case True
    then have "k = 0" using Cons.prems by (auto simp: min_def split: if_splits)
    then show ?thesis using True by simp
  next
    case False
    then show ?thesis unfolding take_cells_Cons [OF Cons.prems] block_slices_append
      using Cons.IH [of "k - N"] Cons.prems False by (simp add: min_def split: option.splits)
  qed
qed simp

lemma block_pools_entries:
  assumes "pool_inv root"
  shows "block_pools n align bound (chain root) = block_slices n align bound (entries (chain root))"
proof -
  have r: "rep (chain root) (entries (chain root))" using assms by (simp add: pool_inv_def)
  then have "take (length (entries (chain root))) (cells (chain root)) = entries (chain root)" unfolding rep_def by metis
  then show ?thesis using block_pools_flat [of "chain root" "length (entries (chain root))"] r by (simp add: rep_def)
qed

text \<open>The bytes of a block, header included.\<close>

definition block :: "nat \<Rightarrow> nat \<Rightarrow> nat set" where
  "block a n = {a - header_size..<a + n}"

definition request_ok :: "nat \<Rightarrow> nat \<Rightarrow> nat \<Rightarrow> bool" where
  "request_ok n align bound \<longleftrightarrow> 0 < n \<and> header_size + n < 2 ^ 64 \<and> 0 < align \<and>
     (bound = 0 \<or> align dvd bound \<and> n \<le> bound \<and> 1 < bound)"

lemma allocate_pass_spec:
  assumes "mp_ok mp" "request_ok n align bound" "\<forall>x \<in> mp_free mp. x + align + bound < 2 ^ 64"
  obtains r mp' where "allocate_pass host mp n align bound = Some (r, mp')" and "mp_ok mp'"
    and "pool_registerd mp' = pool_registerd mp" "frame mp mp'"
    and "r = None \<Longrightarrow> mp' = mp" and "r = Some 0 \<Longrightarrow> unchanged mp mp'"
    and "r = None \<longleftrightarrow> block_slices n align bound (entries (chain (pool_available mp))) = None"
    and "room_one host mp \<Longrightarrow> r \<noteq> Some 0"
    and "\<And>a. r = Some a \<Longrightarrow> a \<noteq> 0 \<Longrightarrow> header_size \<le> a \<and> a + n < 2 ^ 64 \<and> a mod align = 0 \<and> in_window bound a n \<and>
      block a n \<subseteq> mp_free mp \<and> mp_free mp' \<subseteq> mp_free mp - block a n \<and> mp_kept mp' = mp_kept mp - block a n \<and>
      memory_of mp' = write_header (memory_of mp) (a - header_size) n"
proof (cases "block_pools n align bound (chain (pool_available mp))")
  case None
  then have "allocate_pass host mp n align bound = Some (None, mp)" by (simp add: allocate_pass_def)
  then show ?thesis using assms(1) None block_pools_entries [of "pool_available mp" n align bound]
    by (intro that [of None mp]) (auto simp: mp_ok_def)
next
  case (Some a)
  let ?L = "entries (chain (pool_available mp))"
  have found: "block_slices n align bound ?L = Some a"
    using Some assms(1) block_pools_entries [of "pool_available mp" n align bound] by (simp add: mp_ok_def)
  have inv: "rep (chain (pool_available mp)) ?L" "free_ok ?L" using assms(1) by (auto simp: mp_ok_def pool_inv_def)
  obtain p where p: "p \<in> set ?L" "block_in n align bound p = Some a"
    using block_slices_Some [OF found] by blast
  have ok: "sl_ok p" using p(1) inv(2) by (simp add: free_ok_def)
  have sub: "extent p \<subseteq> mp_free mp" using p(1) by (auto simp: mp_free_def free_bytes_def bytes_of_def)
  then have "sl_end p - 1 \<in> mp_free mp" using ok by (auto simp: extent_def sl_ok_def sl_end_def)
  then have room: "sl_end p + align + bound \<le> 2 ^ 64" using assms(3) ok by (fastforce simp: sl_ok_def sl_end_def)
  have req: "0 < n" "header_size + n < 2 ^ 64" "0 < align" "bound = 0 \<or> align dvd bound \<and> n \<le> bound \<and> 1 < bound"
    using assms(2) by (auto simp: request_ok_def)
  note bi = block_in_spec [OF p(2) ok req room]
  define h where "h = a - header_size"
  define sl where "sl = \<lparr>sl_address = h, sl_length = header_size + n\<rparr>"
  have a: "header_size \<le> a" "a < 2 ^ 64" using bi(1,2) ok by (auto simp: sl_ok_def)
  have uh: "u64 (a + (2 ^ 64 - header_size)) = h" using u64_sub [OF a] by (simp add: h_def)
  have ext: "extent sl = block a n" using a(1) by (auto simp: sl_def extent_def block_def sl_end_def h_def)
  have slok: "sl_ok sl" using bi(2) ok a(1) req(1) by (auto simp: sl_def sl_ok_def sl_end_def h_def)
  have "extent sl \<subseteq> extent p" using bi(1,2) a(1) unfolding ext by (auto simp: block_def extent_def)
  then have free: "extent sl \<subseteq> mp_free mp" using sub by blast
  obtain b mp1 where r: "available_Remove host mp sl = Some (b, mp1)" "\<not> b \<Longrightarrow> unchanged mp mp1" "mp_ok mp1"
    "memory_of mp1 = memory_of mp" "pool_registerd mp1 = pool_registerd mp" "frame mp mp1"
    "b \<Longrightarrow> extent sl \<subseteq> mp_free mp \<and> mp_free mp1 \<subseteq> mp_free mp - extent sl \<and> mp_kept mp1 = mp_kept mp - extent sl"
    "extent sl \<subseteq> mp_free mp \<Longrightarrow> room_one host mp \<Longrightarrow> b"
    using available_Remove_spec [OF assms(1) slok, of host] by metis
  have pass: "allocate_pass host mp n align bound =
      (if \<not> b then Some (Some 0, mp1) else Some (Some a, mp1\<lparr>memory_of := write_header (memory_of mp1) h n\<rparr>))"
    using Some r(1) uh req(2) by (simp add: allocate_pass_def Let_def sl_def)
  have an: "a + n < 2 ^ 64" using bi(2) ok by (simp add: sl_ok_def)
  show ?thesis
  proof (cases b)
    case False
    then show ?thesis using pass r(2,3,5,6) r(8) [OF free] found by (intro that [of "Some 0" mp1]) auto
  next
    case True
    let ?mp' = "mp1\<lparr>memory_of := write_header (memory_of mp1) h n\<rparr>"
    have "mp_ok ?mp'" "mp_free ?mp' = mp_free mp1" "mp_kept ?mp' = mp_kept mp1"
      using r(3) by (simp_all add: mp_ok_def mp_free_def mp_kept_def)
    then show ?thesis using pass True r bi a an ext header_size_def found
      by (intro that [of "Some a" ?mp']) (auto simp: h_def frame_def)
  qed
qed

section \<open>Growth from the default allocator\<close>

text \<open>
  What the code relies on: memory the default allocator gives is not in use, and lies far enough below
  the end of the addresses for an aligned block at its end.
\<close>

definition fresh_slice :: "nat set \<Rightarrow> nat \<Rightarrow> Slice \<Rightarrow> bool" where
  "fresh_slice used room sl \<longleftrightarrow> sl_ok sl \<and> sl_end sl + room \<le> 2 ^ 64 \<and> extent sl \<inter> used = {}"

definition given :: "Slice option \<Rightarrow> nat set" where
  "given s = (case s of None \<Rightarrow> {} | Some sl \<Rightarrow> extent sl)"

lemma given_simps [simp]: "given None = {}" "given (Some sl) = extent sl"
  by (simp_all add: given_def)

lemma rep_last: "rep ch L \<Longrightarrow> slicecnt (last ch) = min N (length L - (length ch - 1) * N)"
  by (auto simp: rep_def counts_nth last_conv_nth)

lemma length_free_insert: "fits L i sl \<Longrightarrow> length (free_insert L i sl) \<le> length L + 1"
  by (auto simp: free_insert_def Let_def fits_def)

text \<open>\<open>Append\<close> where the chain need not grow, on the list of slices.\<close>

lemma Append_room:
  assumes "pool_inv root" "sl_ok sl" "extent sl \<inter> free_bytes root = {}" "roomy (chain root)"
  shows "\<exists>i ch. SinglePool_Append al root sl = Some (True, root\<lparr>chain := ch\<rparr>) \<and> fits (entries (chain root)) i sl \<and>
    entries ch = free_insert (entries (chain root)) i sl \<and> rep ch (entries ch) \<and> (spare (chain root) \<longrightarrow> roomy ch)"
proof -
  let ?L = "entries (chain root)"
  have r: "rep (chain root) ?L" "free_ok ?L" using assms(1) by (auto simp: pool_inv_def)
  obtain i where i: "ifContainNon (chain root) sl = Some i" "fits ?L i sl"
    using ifContainNon_inv [OF assms(1,2)] assms(3) by (auto split: option.splits)
  have "joins_left ?L i sl \<or> joins_right ?L i sl \<or> roomy (chain root)" using assms(4) by blast
  from Insert_room [OF r assms(2) i(2) this, of "Suc (Suc (Suc 0))" al]
  obtain ch where ch: "Insert_f (Suc (Suc (Suc (Suc 0)))) al root i sl = Some (True, root\<lparr>chain := ch\<rparr>)"
    "rep ch (free_insert ?L i sl)" "same_pools (chain root) ch" by blast
  have "length ch = length (chain root)" using ch(3) by (metis same_pools_def length_map)
  then have "slicecnt (last ch) = min N (length (free_insert ?L i sl) - (length (chain root) - 1) * N)"
    using rep_last [OF ch(2)] by simp
  also have "\<dots> \<le> min N (length ?L - (length (chain root) - 1) * N) + 1"
    using length_free_insert [OF i(2)] by linarith
  finally have "spare (chain root) \<longrightarrow> roomy ch"
    unfolding rep_last [OF r(1), symmetric] by (simp add: spare_def roomy_def)
  moreover have "SinglePool_Append al root sl = Some (True, root\<lparr>chain := ch\<rparr>)"
    using i(1) ch(1) by (simp add: SinglePool_Append_def SinglePool_Insert_def pool_depth_Suc del: Insert_f.simps)
  ultimately show ?thesis using i(2) ch(2) rep_entries [OF ch(2)]
    by (intro exI [of _ i] exI [of _ ch]) simp
qed

lemma both_Append_spec:
  assumes "mp_ok mp" "sl_ok sl" "extent sl \<inter> mp_pages mp = {}"
  obtains b mp' where "both_Append host mp sl = Some mp'" and "mp_ok mp'" and "memory_of mp' = memory_of mp" and "frame mp mp'"
    and "\<not> b \<Longrightarrow> pool_available mp' = pool_available mp"
    and "b \<Longrightarrow> extent sl \<subseteq> mp_free mp' \<and> mp_free mp' \<subseteq> mp_free mp \<union> extent sl \<and> mp_kept mp' = mp_kept mp \<union> extent sl"
    and "extent sl \<inter> mp_free mp = {} \<Longrightarrow> room_one host mp \<Longrightarrow> b"
    and "extent sl \<inter> mp_free mp = {} \<Longrightarrow> room_two host mp \<Longrightarrow> room_one host mp'"
    and "host_calls mp' = host_calls mp + 2"
proof -
  have pages: "extent sl \<inter> pool_pages (pool_available mp) = {}" "extent sl \<inter> pool_pages (pool_registerd mp) = {}"
    using assms(3) by (auto simp: mp_pages_def)
  let ?al = "\<lambda>_ :: nat. host_pool host (host_calls mp)"
  have inv: "pool_inv (pool_available mp)" "pool_inv (pool_registerd mp)" using assms(1) by (simp_all add: mp_ok_def)
  obtain c registerd where c: "SinglePool_Append ?al (pool_registerd mp) sl = Some (c, registerd)" "keeps (pool_registerd mp) registerd"
    using SinglePool_Append_spec [OF inv(2) assms(2) pages(2), of ?al] by blast
  let ?mp1 = "next_call mp\<lparr>pool_registerd := registerd\<rparr>"
  have ok1: "mp_ok ?mp1" using assms(1) c(2) by (simp add: mp_ok_def keeps_def next_call_def)
  have same: "pool_available ?mp1 = pool_available mp" "mp_free ?mp1 = mp_free mp" "mp_kept ?mp1 = mp_kept mp"
    "room_one host ?mp1 = room_one host mp" "memory_of ?mp1 = memory_of mp"
    by (simp_all add: mp_free_def mp_kept_def next_call_def room_one_def)
  have fr1: "frame mp ?mp1" using c(2) by (simp add: frame_def next_call_def keeps_def)
  obtain b mp' where r: "available_Append host ?mp1 sl = Some (b, mp')" "\<not> b \<Longrightarrow> unchanged ?mp1 mp'" "mp_ok mp'"
    "memory_of mp' = memory_of mp" "frame ?mp1 mp'"
    "b \<Longrightarrow> extent sl \<subseteq> mp_free mp' \<and> mp_free mp' \<subseteq> mp_free mp \<union> extent sl \<and> mp_kept mp' = mp_kept mp \<union> extent sl"
    "extent sl \<inter> mp_free mp = {} \<Longrightarrow> room_one host mp \<Longrightarrow> b"
    using available_Append_spec [OF ok1 assms(2), of host] pages(1) unfolding same by metis
  have calls: "host_calls mp' = host_calls mp + 2"
    using r(1) by (auto simp: available_Append_def next_call_def)
  have fr: "frame mp mp'" by (rule frame_trans [OF fr1 r(5)])
  have room: "room_one host mp'" if dis: "extent sl \<inter> mp_free mp = {}" and two: "room_two host mp"
  proof (cases "spare (chain (pool_available mp))")
    case True
    then have "roomy (chain (pool_available mp))" by (simp add: spare_def roomy_def)
    from Append_room [OF inv(1) assms(2) _ this, of "\<lambda>_. host_pool host (host_calls ?mp1)"] True dis r(1)
    show ?thesis by (auto simp: available_Append_def mp_free_def same room_one_def)
  next
    case False
    then show ?thesis using two fr by (auto simp: room_one_def room_two_def frame_def)
  qed
  have "both_Append host mp sl = Some mp'" using c(1) r(1) by (simp add: both_Append_def)
  moreover have "\<not> b \<Longrightarrow> pool_available mp' = pool_available mp" using r(2) unchangedD(7) [of ?mp1 mp'] same(1) by simp
  ultimately show ?thesis using r(3,4,6,7) fr room calls by (intro that [of mp' b]) blast+
qed

text \<open>\<open>Expand\<close> keeps the memory it gets; where the chain has no room for it, it is lost.\<close>

lemma expand_memory_total:
  assumes "auto_expand_step mp \<noteq> 0"
  shows "\<exists>s mp0. expand_memory host mp n = Some (s, mp0) \<and> unchanged mp mp0 \<and> host_calls mp \<le> host_calls mp0 \<and>
    (s \<noteq> None \<longrightarrow> \<not> expand_only_from_self mp)"
  using assms by (auto simp: expand_memory_def default_allocate_def Let_def unchanged_def next_call_def split: option.splits)

lemma Expand_spec:
  assumes "mp_ok mp" "expand_memory host mp n = Some (s, mp0)" "auto_expand_step mp \<noteq> 0"
    and "\<forall>sl. s = Some sl \<longrightarrow> fresh_slice used room sl" "mp_pages mp \<union> mp_kept mp \<subseteq> used"
  obtains mp' G where "Mempool_Expand host mp n = Some (s \<noteq> None, mp')" and "mp_ok mp'" and "memory_of mp' = memory_of mp"
    and "frame mp mp'" and "G = {} \<or> G = given s" and "room_one host mp \<Longrightarrow> G = given s"
    and "\<forall>x \<in> G. x + room < 2 ^ 64" and "mp_free mp' \<subseteq> mp_free mp \<union> G" and "mp_kept mp' = mp_kept mp \<union> G"
    and "room_two host mp \<Longrightarrow> room_one host mp'"
    and "room_one host mp \<Longrightarrow> given s \<subseteq> mp_free mp'"
proof -
  have u: "unchanged mp mp0" "s \<noteq> None \<longrightarrow> \<not> expand_only_from_self mp"
    using expand_memory_total [OF assms(3), of host n] assms(2) by auto
  note D = unchangedD [OF u(1)]
  show ?thesis
  proof (cases s)
    case None
    then have "Mempool_Expand host mp n = Some (s \<noteq> None, mp0)" using assms(2) by (simp add: Mempool_Expand_def)
    then show ?thesis using None D assms(1) room_two_one by (intro that [of mp0 "{}"]) auto
  next
    case (Some sl)
    have fr: "sl_ok sl" "sl_end sl + room \<le> 2 ^ 64" "extent sl \<inter> mp_pages mp = {}" "extent sl \<inter> mp_free mp = {}"
      using assms(4,5) Some by (auto simp: fresh_slice_def mp_kept_def mp_free_def)
    have ok0: "mp_ok mp0" "extent sl \<inter> mp_pages mp0 = {}" using D assms(1) fr(3) by simp_all
    have self: "\<not> expand_only_from_self mp0" using u Some D(5) by (simp add: frame_def)
    have dis0: "extent sl \<inter> mp_free mp0 = {}" using fr(4) D(2) by simp
    obtain b mp' where b0: "both_Append host mp0 sl = Some mp'" "mp_ok mp'" "memory_of mp' = memory_of mp0" "frame mp0 mp'"
      "\<not> b \<Longrightarrow> pool_available mp' = pool_available mp0"
      "b \<Longrightarrow> extent sl \<subseteq> mp_free mp' \<and> mp_free mp' \<subseteq> mp_free mp0 \<union> extent sl \<and> mp_kept mp' = mp_kept mp0 \<union> extent sl"
      "extent sl \<inter> mp_free mp0 = {} \<Longrightarrow> room_one host mp0 \<Longrightarrow> b"
      "extent sl \<inter> mp_free mp0 = {} \<Longrightarrow> room_two host mp0 \<Longrightarrow> room_one host mp'"
      by (rule both_Append_spec [OF ok0(1) fr(1) ok0(2), of host]) blast
    have room: "room_one host mp0 = room_one host mp" "room_two host mp0 = room_two host mp"
      using D(5,7) by (simp_all add: room_one_def room_two_def)
    note b = b0(1-6) b0(7,8) [OF dis0]
    note b = b [unfolded D(2,3,7) room]
    have res: "Mempool_Expand host mp n = Some (s \<noteq> None, mp')"
      using assms(2) Some b(1) self by (simp add: Mempool_Expand_def Mempool_Append_def)
    have fr0: "frame mp mp'" "memory_of mp' = memory_of mp" using frame_trans [OF D(5) b(4)] b(3) D(6) by simp_all
    have far: "\<forall>x \<in> extent sl. x + room < 2 ^ 64" using fr(2) by (auto simp: extent_def)
    show ?thesis
    proof (cases b)
      case True
      then show ?thesis using b(2,6,8) Some far by (intro that [OF res _ fr0(2,1), of "extent sl"]) auto
    next
      case False
      then have "mp_free mp' = mp_free mp" "mp_kept mp' = mp_kept mp" using b(5) D(7) by (simp_all add: mp_free_def mp_kept_def)
      then show ?thesis using b(2,7,8) False by (intro that [OF res _ fr0(2,1), of "{}"]) auto
    qed
  qed
qed

text \<open>A slice with room for the padding has room for the block.\<close>

lemma block_in_fits:
  assumes "sl_ok p" "0 < n" "header_size + n < 2 ^ 64" "0 < align"
    and "bound = 0 \<or> align dvd bound \<and> n \<le> bound \<and> 1 < bound"
    and room: "sl_end p + align + bound \<le> 2 ^ 64" and len: "header_size + n + max align bound \<le> sl_length p"
  shows "block_in n align bound p \<noteq> None"
proof -
  define v where "v = sl_address p + header_size"
  have v: "u64 v = v" "v + n + max align bound \<le> sl_end p" "v + align \<le> 2 ^ 64"
    using len room assms(2) by (auto simp: v_def sl_end_def)
  define c where "c = ceilAlign align v"
  note c = ceil_spec [OF assms(4) v(3), folded c_def]
  have wrap: "u64 (c + n + (2 ^ 64 - 1)) = c + n - 1"
  proof -
    have "c + n + (2 ^ 64 - 1) = c + n - 1 + 2 ^ 64" using assms(2) by simp
    moreover have "c + n - 1 < 2 ^ 64" using c(2) v(2) room by linarith
    ultimately show ?thesis unfolding u64_def by (simp only: mod_add_self2) simp
  qed
  define moved where "moved \<longleftrightarrow> bound > 1 \<and> floorAlign bound c \<noteq> floorAlign bound (c + n - 1)"
  have low: "floorAlign bound c \<le> v" if moved
  proof (rule ccontr)
    let ?f = "floorAlign bound c"
    assume "\<not> ?f \<le> v"
    have b: "align dvd bound" "n \<le> bound" "0 < bound" using that assms(5) by (auto simp: moved_def)
    have f: "align dvd ?f" "?f \<le> c" using b floor_spec(1) [of bound c] by (auto simp: floorAlign_def)
    moreover have "align dvd c" using c(3) by (simp add: mod_eq_0_iff_dvd)
    ultimately have "align dvd c - ?f" by simp
    moreover have "c - ?f < align" using c(2) assms(4) \<open>\<not> ?f \<le> v\<close> by linarith
    ultimately have "c = ?f" using f(2) by (auto dest: dvd_imp_le)
    then have cm: "c = c div bound * bound" by (simp add: floorAlign_def)
    have "c + n - 1 = (n - 1) + c div bound * bound" using cm assms(2) by simp
    moreover have "(n - 1) div bound = 0" using b assms(2) by simp
    ultimately have "(c + n - 1) div bound = c div bound" using b(3) by (simp only: div_mult_self1)
    then show False using that by (simp add: moved_def floorAlign_def)
  qed
  define d where "d = (if moved then floorAlign bound c + bound else c)"
  have "d + n \<le> sl_end p" using low c(2) v(2) by (auto simp: d_def)
  moreover have "sl_end p < 2 ^ 64" using assms(1) by (simp add: sl_ok_def)
  ultimately have d: "d + n < 2 ^ 64" "d + n \<le> sl_end p" by linarith+
  then have ud: "(if moved then u64 (floorAlign bound c + bound) else c) = d" "u64 (d + n) = d + n"
    by (auto simp: d_def)
  have "\<not> sl_length p < header_size + n" using len by simp
  then show ?thesis
    unfolding block_in_def Let_def v_def [symmetric] v(1) c_def [symmetric] wrap moved_def [symmetric] ud
      getEndoaddr_ok [OF assms(1)] using d(2) assms(3) by simp
qed

lemma block_slices_fit: "p \<in> set xs \<Longrightarrow> block_in n align bound p \<noteq> None \<Longrightarrow> block_slices n align bound xs \<noteq> None"
  by (induction xs) (auto split: option.splits)

text \<open>The free bytes of a slice lie in one entry, for entries do not touch.\<close>

lemma free_extent_entry:
  assumes "pool_inv root" "sl_ok sl" "extent sl \<subseteq> free_bytes root"
  obtains p where "p \<in> set (entries (chain root))" "sl_ok p" "sl_length sl \<le> sl_length p" "extent p \<subseteq> free_bytes root"
proof -
  let ?L = "entries (chain root)"
  have fo: "free_ok ?L" using assms(1) by (simp add: pool_inv_def)
  obtain i where i: "i < length ?L" "sl_address (?L ! i) \<le> sl_address sl" "sl_end sl \<le> sl_end (?L ! i)"
    using scan_all_spec [OF fo assms(2)] assms(3) by (auto simp: free_bytes_def split: option.splits)
  have "extent (?L ! i) \<subseteq> free_bytes root" using nth_mem [OF i(1)] by (auto simp: free_bytes_def bytes_of_def)
  then show ?thesis using i fo by (intro that [of "?L ! i"]) (auto simp: free_ok_def sl_end_def)
qed

lemma expand_memory_length:
  assumes "expand_memory host mp m = Some (Some sl, mp0)" "auto_expand_step mp \<noteq> 0"
    and "max m (auto_expand_step mp) + max (auto_expand_step mp) 0x1000 \<le> 2 ^ 64"
  shows "m \<le> sl_length sl"
proof -
  define q where "q = max m (auto_expand_step mp)"
  have room: "q + auto_expand_step mp \<le> 2 ^ 64" "q + 0x1000 \<le> 2 ^ 64"
    using assms(3) unfolding q_def [symmetric] by linarith+
  have "q \<le> ceilAlign (auto_expand_step mp) q" "q \<le> ceilAlign 0x1000 q"
    using assms(2) by (auto intro: ceil_spec(1) room)
  moreover have "m \<le> q" by (simp add: q_def)
  moreover have "sl_length sl = ceilAlign (auto_expand_step mp) q \<or> sl_length sl = ceilAlign 0x1000 q"
    using assms(1) by (auto simp: expand_memory_def default_allocate_def next_call_def Let_def q_def split: if_splits option.splits)
  ultimately show ?thesis by auto
qed

section \<open>Allocating a block\<close>

definition bound_of :: "nat \<Rightarrow> nat \<Rightarrow> nat" where
  "bound_of k j = (if j \<le> k then 0 else 2 ^ j)"

text \<open>A request for a block with a header: its size does not wrap around, alignment and boundary are
  exponents of the machine word, and it is not a request for whole pages.\<close>

definition block_request :: "nat \<Rightarrow> nat \<Rightarrow> nat \<Rightarrow> bool" where
  "block_request n k j \<longleftrightarrow> k < 64 \<and> j < 64 \<and> header_size + max n 1 < 2 ^ 64 \<and>
     \<not> (MEMPOOL_PAGE_SHIFT \<le> k \<and> j \<le> k \<and> max n 1 mod MEMPOOL_PAGE_SIZE = 0)"

definition head_room :: "Mempool \<Rightarrow> nat \<Rightarrow> nat \<Rightarrow> bool" where
  "head_room mp k j \<longleftrightarrow> (\<forall>x \<in> mp_free mp. x + 2 ^ k + bound_of k j < 2 ^ 64)"

definition safe_request :: "nat \<Rightarrow> nat \<Rightarrow> nat \<Rightarrow> nat" where
  "safe_request n k j = u64 (u64 (header_size + max n 1) + (if bound_of k j > 2 ^ k then bound_of k j else 2 ^ k))"

text \<open>
  Whether the block fits a free slice; the memory that the call gets from the default allocator, which it asks
  only when the block fits none; and when a request cannot fail.
\<close>

definition fits_free :: "Mempool \<Rightarrow> nat \<Rightarrow> nat \<Rightarrow> nat \<Rightarrow> bool" where
  "fits_free mp n k j \<longleftrightarrow> block_slices (max n 1) (2 ^ k) (bound_of k j) (entries (chain (pool_available mp))) \<noteq> None"

definition growth :: "Host \<Rightarrow> Mempool \<Rightarrow> nat \<Rightarrow> nat \<Rightarrow> nat \<Rightarrow> Slice option" where
  "growth host mp n k j =
    (if (bound_of k j = 0 \<or> max n 1 \<le> bound_of k j) \<and> \<not> fits_free mp n k j \<and> enable_auto_expand mp
     then (case expand_memory host mp (safe_request n k j) of Some (s, _) \<Rightarrow> s | None \<Rightarrow> None)
     else None)"

definition fresh_growth :: "Host \<Rightarrow> Mempool \<Rightarrow> nat \<Rightarrow> nat \<Rightarrow> nat \<Rightarrow> nat set \<Rightarrow> bool" where
  "fresh_growth host mp n k j used \<longleftrightarrow> (\<forall>sl. growth host mp n k j = Some sl \<longrightarrow> fresh_slice used (2 ^ k + bound_of k j) sl)"

definition served :: "Host \<Rightarrow> Mempool \<Rightarrow> nat \<Rightarrow> nat \<Rightarrow> nat \<Rightarrow> bool" where
  "served host mp n k j \<longleftrightarrow> room_two host mp \<and> (bound_of k j = 0 \<or> max n 1 \<le> bound_of k j) \<and>
    (fits_free mp n k j \<or> growth host mp n k j \<noteq> None \<and>
      max (header_size + max n 1 + max (2 ^ k) (bound_of k j)) (auto_expand_step mp) + max (auto_expand_step mp) 0x1000 \<le> 2 ^ 64)"

definition allocated :: "Mempool \<Rightarrow> nat set \<Rightarrow> nat \<Rightarrow> nat \<Rightarrow> nat \<Rightarrow> nat \<Rightarrow> Mempool \<Rightarrow> bool" where
  "allocated mp G r n k j mp' \<longleftrightarrow> header_size \<le> r \<and> r + n < 2 ^ 64 \<and> r mod 2 ^ k = 0 \<and> in_window (bound_of k j) r n \<and>
     block r n \<subseteq> mp_free mp \<union> G \<and> mp_kept mp' = (mp_kept mp \<union> G) - block r n \<and>
     memory_of mp' = write_header (memory_of mp) (r - header_size) n"

lemma u64_pow: "k < 64 \<Longrightarrow> u64 (2 ^ k) = 2 ^ k"
  by (intro u64_id power_strict_increasing) auto

lemma allocate_unfold:
  assumes "block_request n k j" "bound_of k j = 0 \<or> max n 1 \<le> bound_of k j"
  shows "Mempool_allocate host mp n k j =
    (case allocate_pass host mp (max n 1) (2 ^ k) (bound_of k j) of
       None \<Rightarrow> None
     | Some (Some ret, mp) \<Rightarrow> Some (ret, mp)
     | Some (None, mp) \<Rightarrow>
         if \<not> enable_auto_expand mp then Some (0, mp)
         else (case Mempool_Expand host mp (safe_request n k j) of
                 None \<Rightarrow> None
               | Some (expanded, mp) \<Rightarrow>
                   if \<not> expanded then Some (0, mp)
                   else (case allocate_pass host mp (max n 1) (2 ^ k) (bound_of k j) of
                           None \<Rightarrow> None
                         | Some (Some ret, mp) \<Rightarrow> Some (ret, mp)
                         | Some (None, mp) \<Rightarrow> Some (0, mp))))"
proof -
  have p: "u64 (2 ^ k) = 2 ^ k" "u64 (2 ^ j) = 2 ^ j" using assms(1) by (simp_all add: block_request_def u64_pow)
  have n: "(if n = 0 then 1 else n) = max n 1" by simp
  have b: "(if (if j \<le> k then 0 else j) \<noteq> 0 then u64 (2 ^ (if j \<le> k then 0 else j)) else 0) = bound_of k j"
    using p by (auto simp: bound_of_def)
  have 1: "\<not> (MEMPOOL_PAGE_SHIFT \<le> k \<and> bound_of k j = 0 \<and> max n 1 mod MEMPOOL_PAGE_SIZE = 0)"
    using assms(1) by (auto simp: block_request_def bound_of_def)
  have 2: "\<not> (bound_of k j > 0 \<and> max n 1 > bound_of k j)" using assms(2) by auto
  show ?thesis unfolding Mempool_allocate_def Let_def n b p(1) if_not_P [OF 1] if_not_P [OF 2] safe_request_def by (rule refl)
qed

lemma allocate_pass_allocated:
  assumes "mp_ok mp" "request_ok (max n 1) (2 ^ k) (bound_of k j)" "head_room mp k j"
  shows "\<exists>r mp'. allocate_pass host mp (max n 1) (2 ^ k) (bound_of k j) = Some (r, mp') \<and> mp_ok mp' \<and> frame mp mp' \<and>
    (r = None \<longrightarrow> mp' = mp) \<and> (r = Some 0 \<longrightarrow> unchanged mp mp') \<and> (r = None \<longleftrightarrow> \<not> fits_free mp n k j) \<and>
    (room_one host mp \<longrightarrow> r \<noteq> Some 0) \<and>
    (\<forall>a. r = Some a \<and> a \<noteq> 0 \<longrightarrow> allocated mp {} a (max n 1) k j mp')"
proof -
  have hr: "\<forall>x \<in> mp_free mp. x + 2 ^ k + bound_of k j < 2 ^ 64" using assms(3) by (simp add: head_room_def)
  show ?thesis
    by (rule allocate_pass_spec [OF assms(1,2) hr, of host], rule exI, rule exI) (auto simp: allocated_def fits_free_def)
qed

text \<open>A slice of the size that \<open>Expand\<close> asks for holds the block.\<close>

lemma growth_fits:
  assumes "mp_ok mp" "request_ok (max n 1) (2 ^ k) (bound_of k j)" "head_room mp k j"
    and "sl_ok sl" "extent sl \<subseteq> mp_free mp" "header_size + max n 1 + max (2 ^ k) (bound_of k j) \<le> sl_length sl"
  shows "fits_free mp n k j"
proof -
  have inv: "pool_inv (pool_available mp)" using assms(1) by (simp add: mp_ok_def)
  obtain p where p: "p \<in> set (entries (chain (pool_available mp)))" "sl_ok p" "sl_length sl \<le> sl_length p" "extent p \<subseteq> mp_free mp"
    using free_extent_entry [OF inv assms(4)] assms(5) unfolding mp_free_def by blast
  have "sl_end p - 1 \<in> mp_free mp" using p(2,4) by (auto simp: extent_def sl_ok_def sl_end_def)
  then have "sl_end p - 1 + 2 ^ k + bound_of k j < 2 ^ 64" using assms(3) by (simp add: head_room_def)
  then have "sl_end p + 2 ^ k + bound_of k j \<le> 2 ^ 64" using p(2) by (simp add: sl_ok_def sl_end_def)
  then have "block_in (max n 1) (2 ^ k) (bound_of k j) p \<noteq> None"
    using assms(2,6) p(2,3) by (intro block_in_fits) (auto simp: request_ok_def)
  then show ?thesis unfolding fits_free_def by (rule block_slices_fit [OF p(1)])
qed

lemma allocate_spec:
  assumes "mp_ok mp" "block_request n k j" "head_room mp k j" "auto_expand_step mp \<noteq> 0"
    and "fresh_growth host mp n k j used" "mp_pages mp \<union> mp_kept mp \<subseteq> used"
  obtains r mp' G where "Mempool_allocate host mp n k j = Some (r, mp')" and "mp_ok mp'" and "frame mp mp'"
    and "G = {} \<or> G = given (growth host mp n k j)"
    and "room_one host mp \<Longrightarrow> G = given (growth host mp n k j)"
    and "r = 0 \<Longrightarrow> memory_of mp' = memory_of mp \<and> mp_kept mp' = mp_kept mp \<union> G"
    and "r \<noteq> 0 \<Longrightarrow> allocated mp G r (max n 1) k j mp'"
    and "served host mp n k j \<Longrightarrow> r \<noteq> 0"
proof (cases "bound_of k j = 0 \<or> max n 1 \<le> bound_of k j")
  case False
  then have "Mempool_allocate host mp n k j = Some (0, mp)" "growth host mp n k j = None" "\<not> served host mp n k j"
    using assms(2) by (auto simp: Mempool_allocate_def Let_def bound_of_def block_request_def growth_def served_def)
  then show ?thesis using assms(1) by (intro that [of 0 mp "{}"]) auto
next
  case True
  note eq = allocate_unfold [OF assms(2) True, of host mp]
  have req: "request_ok (max n 1) (2 ^ k) (bound_of k j)"
    using assms(2) True one_less_power [of "2 :: nat" j]
    by (auto simp: request_ok_def block_request_def bound_of_def le_imp_power_dvd)
  let ?room = "2 ^ k + bound_of k j"
  obtain r mp1 where r: "allocate_pass host mp (max n 1) (2 ^ k) (bound_of k j) = Some (r, mp1)" "mp_ok mp1" "frame mp mp1"
    "r = None \<longrightarrow> mp1 = mp" "r = Some 0 \<longrightarrow> unchanged mp mp1" "r = None \<longleftrightarrow> \<not> fits_free mp n k j"
    "room_one host mp \<longrightarrow> r \<noteq> Some 0" "\<forall>a. r = Some a \<and> a \<noteq> 0 \<longrightarrow> allocated mp {} a (max n 1) k j mp1"
    using allocate_pass_allocated [OF assms(1) req assms(3), of host] by metis
  show ?thesis
  proof (cases r)
    case (Some a)
    then have "Mempool_allocate host mp n k j = Some (a, mp1)" "growth host mp n k j = None"
      using eq r(1,6) by (simp_all add: growth_def)
    then show ?thesis using r(2,3,5,7,8) Some unchangedD(3,6) [of mp mp1] room_two_one
      by (intro that [of a mp1 "{}"]) (auto simp: served_def)
  next
    case None
    then have mp1: "mp1 = mp" and nofit: "\<not> fits_free mp n k j" using r(4,6) by simp_all
    show ?thesis
    proof (cases "enable_auto_expand mp")
      case False
      then have "Mempool_allocate host mp n k j = Some (0, mp)" "growth host mp n k j = None"
        using eq r(1) None mp1 by (simp_all add: growth_def)
      then show ?thesis using assms(1) nofit by (intro that [of 0 mp "{}"]) (auto simp: served_def)
    next
      case auto: True
      obtain s mp0 where s: "expand_memory host mp (safe_request n k j) = Some (s, mp0)"
        using expand_memory_total [OF assms(4)] by blast
      have gr: "growth host mp n k j = s" using True nofit auto s by (simp add: growth_def)
      have fr: "\<forall>sl. s = Some sl \<longrightarrow> fresh_slice used ?room sl" using assms(5) gr by (simp add: fresh_growth_def)
      obtain mp2 G where x: "Mempool_Expand host mp (safe_request n k j) = Some (s \<noteq> None, mp2)" "mp_ok mp2"
        "memory_of mp2 = memory_of mp" "frame mp mp2" "G = {} \<or> G = given s" "room_one host mp \<Longrightarrow> G = given s"
        "\<forall>x \<in> G. x + ?room < 2 ^ 64" "mp_free mp2 \<subseteq> mp_free mp \<union> G" "mp_kept mp2 = mp_kept mp \<union> G"
        "room_two host mp \<Longrightarrow> room_one host mp2"
        "room_one host mp \<Longrightarrow> given s \<subseteq> mp_free mp2"
        by (rule Expand_spec [OF assms(1) s assms(4) fr assms(6)]) blast
      show ?thesis
      proof (cases s)
        case none: None
        then have "Mempool_allocate host mp n k j = Some (0, mp2)" using eq r(1) None mp1 auto x(1) by simp
        then show ?thesis using x(2-6,9) gr none nofit by (intro that [of 0 mp2 G]) (auto simp: served_def)
      next
        case (Some sl)
        have hr2: "head_room mp2 k j" using assms(3) x(7,8) by (auto simp: head_room_def add.assoc)
        obtain r2 mp3 where r2: "allocate_pass host mp2 (max n 1) (2 ^ k) (bound_of k j) = Some (r2, mp3)" "mp_ok mp3" "frame mp2 mp3"
          "r2 = None \<longrightarrow> mp3 = mp2" "r2 = Some 0 \<longrightarrow> unchanged mp2 mp3" "r2 = None \<longleftrightarrow> \<not> fits_free mp2 n k j"
          "room_one host mp2 \<longrightarrow> r2 \<noteq> Some 0" "\<forall>a. r2 = Some a \<and> a \<noteq> 0 \<longrightarrow> allocated mp2 {} a (max n 1) k j mp3"
          using allocate_pass_allocated [OF x(2) req hr2, of host] by metis
        have res: "Mempool_allocate host mp n k j = Some (case r2 of None \<Rightarrow> 0 | Some a \<Rightarrow> a, mp3)"
          using eq r(1) None mp1 auto x(1) Some r2(1) by (simp split: option.splits)
        have fr3: "frame mp mp3" by (rule frame_trans [OF x(4) r2(3)])
        have ok: "r2 \<noteq> None \<and> r2 \<noteq> Some 0" if sv: "served host mp n k j"
        proof -
          have sp: "room_two host mp" using sv by (simp add: served_def)
          let ?m = "header_size + max n 1 + max (2 ^ k) (bound_of k j)"
          have m: "max ?m (auto_expand_step mp) + max (auto_expand_step mp) 0x1000 \<le> 2 ^ 64"
            using sv nofit by (simp add: served_def)
          then have "?m < 2 ^ 64" by (simp add: max_def split: if_splits)
          then have "safe_request n k j = ?m" by (auto simp: safe_request_def max_def)
          then have "?m \<le> sl_length sl" using expand_memory_length [where m = ?m] s Some assms(4) m by simp
          moreover have "sl_ok sl" "extent sl \<subseteq> mp_free mp2"
            using fr Some x(11) room_two_one [OF sp] by (auto simp: fresh_slice_def)
          ultimately have "fits_free mp2 n k j" using growth_fits [OF x(2) req hr2] by blast
          then show ?thesis using r2(6,7) x(10) [OF sp] by blast
        qed
        show ?thesis
        proof (cases "r2 = None \<or> r2 = Some 0")
          case True
          then have "memory_of mp3 = memory_of mp2" "mp_kept mp3 = mp_kept mp2"
            using r2(4,5) unchangedD(3,6) [of mp2 mp3] by auto
          then show ?thesis using True res r2(2) x(3,5,6,9) fr3 gr ok by (intro that [OF res, of G]) auto
        next
          case False
          then obtain a where a: "r2 = Some a" "a \<noteq> 0" by auto
          have "allocated mp G a (max n 1) k j mp3"
            using r2(8) a x(3,8,9) by (auto simp: allocated_def)
          then show ?thesis using a r2(2) x(5,6) fr3 gr by (intro that [OF res, of G]) auto
        qed
      qed
    qed
  qed
qed

section \<open>Giving a block back\<close>

definition header_at :: "memory \<Rightarrow> nat \<Rightarrow> nat \<Rightarrow> bool" where
  "header_at m a n \<longleftrightarrow> 0 < n \<and> header_size \<le> a \<and> a + n < 2 ^ 64 \<and>
     load64 m (a - header_size) = n \<and> load64 m (a - header_size + 8) = header_prop"

lemma leaf_entry_no_table: "page_root mp = 0 \<Longrightarrow> leaf_entry host mp p = 0"
  by (simp add: leaf_entry_def get_leaf_entry_def)

lemma deallocate_spec:
  assumes "mp_ok mp" "page_root mp = 0" "header_at (memory_of mp) a n" "block a n \<inter> mp_kept mp = {}"
  obtains b mp' where "Mempool_deallocate host mp a 0 = Some (b, mp')" and "mp_ok mp'" and "frame mp mp'"
    and "memory_of mp' = memory_of mp" and "\<not> b \<Longrightarrow> unchanged mp mp'" and "b \<Longrightarrow> mp_kept mp' = mp_kept mp \<union> block a n"
    and "room_one host mp \<Longrightarrow> b"
proof -
  let ?sl = "\<lparr>sl_address = a - header_size, sl_length = header_size + n\<rparr>"
  have h: "0 < n" "header_size \<le> a" "a + n < 2 ^ 64" using assms(3) by (auto simp: header_at_def)
  then have u: "u64 (header_size + n) = header_size + n" by simp
  have ext: "extent ?sl = block a n" using h by (auto simp: extent_def sl_end_def block_def)
  have ok: "sl_ok ?sl" using h by (auto simp: sl_ok_def sl_end_def)
  have dis: "extent ?sl \<inter> pool_pages (pool_available mp) = {}" "extent ?sl \<inter> mp_free mp = {}"
    using assms(4) unfolding ext by (auto simp: mp_kept_def mp_free_def)
  have eq: "Mempool_deallocate host mp a 0 = available_Append host mp ?sl"
    using assms(2,3) h u by (simp add: Mempool_deallocate_def Let_def leaf_entry_no_table header_at_def not_less [symmetric])
  obtain b mp' where r: "available_Append host mp ?sl = Some (b, mp')" "\<not> b \<Longrightarrow> unchanged mp mp'" "mp_ok mp'"
    "memory_of mp' = memory_of mp" "frame mp mp'" "b \<Longrightarrow> mp_kept mp' = mp_kept mp \<union> extent ?sl"
    "room_one host mp \<Longrightarrow> b"
    using available_Append_spec [OF assms(1) ok dis(1), of host] dis(2) by metis
  show ?thesis by (rule that [of b mp']) (use eq r ext in auto)
qed

section \<open>Clients of the allocator\<close>

definition blocks :: "(nat \<times> nat) set \<Rightarrow> nat set" where
  "blocks live = (\<Union>(a, n) \<in> live. block a n)"

text \<open>
  The states of an allocator and its live blocks, with the size of each: clients allocate blocks with a
  header, write into them and give them back whole; what the default allocator gives in a step is
  memory that nobody uses at that time.
\<close>

inductive heap_run :: "Host \<Rightarrow> Mempool \<Rightarrow> Mempool \<Rightarrow> (nat \<times> nat) set \<Rightarrow> bool" for host mp0 where
  run_start: "heap_run host mp0 mp0 {}"
| run_allocate: "\<lbrakk>heap_run host mp0 mp live; block_request n k j; head_room mp k j;
    fresh_growth host mp n k j (mp_pages mp \<union> mp_kept mp \<union> blocks live);
    Mempool_allocate host mp n k j = Some (a, mp')\<rbrakk> \<Longrightarrow>
    heap_run host mp0 mp' (if a = 0 then live else insert (a, max n 1) live)"
| run_write: "\<lbrakk>heap_run host mp0 mp live; (a, n) \<in> live; a \<le> x; x < a + n\<rbrakk> \<Longrightarrow>
    heap_run host mp0 (mp\<lparr>memory_of := (memory_of mp)(x := v)\<rparr>) live"
| run_deallocate: "\<lbrakk>heap_run host mp0 mp live; (a, n) \<in> live; Mempool_deallocate host mp a 0 = Some (b, mp')\<rbrakk> \<Longrightarrow>
    heap_run host mp0 mp' (if b then live - {(a, n)} else live)"

definition heap_inv :: "Mempool \<Rightarrow> (nat \<times> nat) set \<Rightarrow> bool" where
  "heap_inv mp live \<longleftrightarrow> mp_ok mp \<and> page_root mp = 0 \<and> auto_expand_step mp \<noteq> 0 \<and>
     (\<forall>a n. (a, n) \<in> live \<longrightarrow> header_at (memory_of mp) a n \<and> block a n \<inter> mp_kept mp = {}) \<and>
     (\<forall>a n b m. (a, n) \<in> live \<longrightarrow> (b, m) \<in> live \<longrightarrow> (a, n) \<noteq> (b, m) \<longrightarrow> block a n \<inter> block b m = {})"

lemma heap_invI:
  assumes "mp_ok mp" "page_root mp = 0" "auto_expand_step mp \<noteq> 0"
    and "\<And>a n. (a, n) \<in> live \<Longrightarrow> header_at (memory_of mp) a n"
    and "\<And>a n. (a, n) \<in> live \<Longrightarrow> block a n \<inter> mp_kept mp = {}"
    and "\<And>a n b m. (a, n) \<in> live \<Longrightarrow> (b, m) \<in> live \<Longrightarrow> (a, n) \<noteq> (b, m) \<Longrightarrow> block a n \<inter> block b m = {}"
  shows "heap_inv mp live"
  using assms unfolding heap_inv_def by blast

lemma heap_invD:
  assumes "heap_inv mp live"
  shows "mp_ok mp" "page_root mp = 0" "auto_expand_step mp \<noteq> 0"
    and "(a, n) \<in> live \<Longrightarrow> header_at (memory_of mp) a n"
    and "(a, n) \<in> live \<Longrightarrow> block a n \<inter> mp_kept mp = {}"
    and "(a, n) \<in> live \<Longrightarrow> (b, m) \<in> live \<Longrightarrow> (a, n) \<noteq> (b, m) \<Longrightarrow> block a n \<inter> block b m = {}"
  using assms unfolding heap_inv_def by blast+

lemma header_at_cong:
  assumes "header_at m a n" "\<And>y. a - header_size \<le> y \<Longrightarrow> y < a \<Longrightarrow> m' y = m y"
  shows "header_at m' a n"
proof -
  have h: "header_size \<le> a" using assms(1) by (simp add: header_at_def)
  have eqs: "load64 m' (a - header_size) = load64 m (a - header_size)" "load64 m' (a - header_size + 8) = load64 m (a - header_size + 8)"
    using h by (auto intro!: load_le_cong assms(2) simp: header_size_def)
  show ?thesis using assms(1) unfolding header_at_def eqs .
qed

lemma header_at_new:
  assumes "header_size \<le> a" "a + n < 2 ^ 64" "0 < n"
  shows "header_at (write_header m (a - header_size) n) a n"
  using assms write_header_load [of "a - header_size" n m] by (auto simp: header_at_def header_size_def)

lemma heap_inv_allocated:
  assumes inv: "heap_inv mp live" and ok: "mp_ok mp'" and fr: "frame mp mp'" and G: "G \<inter> (mp_kept mp \<union> blocks live) = {}"
    and al: "allocated mp G a n k j mp'" "0 < n"
  shows "heap_inv mp' (insert (a, n) live)"
proof -
  have a: "header_size \<le> a" "a + n < 2 ^ 64" "block a n \<subseteq> mp_free mp \<union> G" "mp_kept mp' = (mp_kept mp \<union> G) - block a n"
    "memory_of mp' = write_header (memory_of mp) (a - header_size) n" using al by (auto simp: allocated_def)
  have live: "header_at (memory_of mp) b m" "block b m \<inter> mp_kept mp = {}" "block b m \<inter> G = {}" if "(b, m) \<in> live" for b m
    using inv that G by (auto simp: heap_inv_def blocks_def)
  have new: "block b m \<inter> block a n = {}" if "(b, m) \<in> live" for b m
    using live(2,3) [OF that] a(3) by (auto simp: mp_kept_def mp_free_def)
  have "header_at (memory_of mp') b m" if m: "(b, m) \<in> live" for b m
  proof (rule header_at_cong [OF live(1) [OF m]])
    fix y assume "b - header_size \<le> y" "y < b"
    then have "y \<in> block b m" by (simp add: block_def)
    then have "y \<notin> block a n" using new [OF m] by blast
    then show "memory_of mp' y = memory_of mp y"
      unfolding a(5) using a(1,2) by (intro write_header_other) (auto simp: block_def header_size_def)
  qed
  moreover have "header_at (memory_of mp') a n" unfolding a(5) by (rule header_at_new [OF a(1,2) al(2)])
  ultimately have headers: "header_at (memory_of mp') b m" if "(b, m) \<in> insert (a, n) live" for b m using that by auto
  show ?thesis
  proof (rule heap_invI [OF ok])
    show "page_root mp' = 0" "auto_expand_step mp' \<noteq> 0" using fr heap_invD(2,3) [OF inv] by (simp_all add: frame_def)
    fix b m assume m: "(b, m) \<in> insert (a, n) live"
    then show "header_at (memory_of mp') b m" by (rule headers)
    show "block b m \<inter> mp_kept mp' = {}"
    proof (cases "(b, m) = (a, n)")
      case False
      then show ?thesis using m live(2,3) [of b m] a(4) by blast
    qed (use a(4) in auto)
    fix c l assume "(c, l) \<in> insert (a, n) live" "(b, m) \<noteq> (c, l)"
    then show "block b m \<inter> block c l = {}"
      using m new [of b m] new [of c l] heap_invD(6) [OF inv, of b m c l] by (auto simp: Int_commute)
  qed
qed

lemma given_fresh: "fresh_growth host mp n k j used \<Longrightarrow> given (growth host mp n k j) \<inter> used = {}"
  by (cases "growth host mp n k j") (auto simp: fresh_growth_def fresh_slice_def)

lemma heap_run_inv:
  assumes "heap_run host mp0 mp live" "mp_ok mp0" "page_root mp0 = 0" "auto_expand_step mp0 \<noteq> 0"
  shows "heap_inv mp live"
  using assms(1)
proof induction
  case run_start
  show ?case using assms by (simp add: heap_inv_def)
next
  case (run_allocate mp live n k j a mp')
  then have inv: "heap_inv mp live" and ok: "mp_ok mp" "auto_expand_step mp \<noteq> 0" by (auto simp: heap_inv_def)
  obtain r mp1 G where r: "Mempool_allocate host mp n k j = Some (r, mp1)" "mp_ok mp1" "frame mp mp1"
    "G = {} \<or> G = given (growth host mp n k j)" "r = 0 \<Longrightarrow> memory_of mp1 = memory_of mp \<and> mp_kept mp1 = mp_kept mp \<union> G"
    "r \<noteq> 0 \<Longrightarrow> allocated mp G r (max n 1) k j mp1"
    by (rule allocate_spec [OF ok(1) run_allocate.hyps(2,3) ok(2) run_allocate.hyps(4)]) blast+
  have eq: "r = a" "mp1 = mp'" using r(1) run_allocate.hyps(5) by simp_all
  have G: "G \<inter> (mp_kept mp \<union> blocks live) = {}"
    using given_fresh [OF run_allocate.hyps(4)] r(4) by blast
  show ?case
  proof (cases "a = 0")
    case True
    then have "memory_of mp' = memory_of mp" "mp_kept mp' = mp_kept mp \<union> G" using r(5) eq by simp_all
    moreover have "block b m \<inter> G = {}" if "(b, m) \<in> live" for b m using G that by (auto simp: blocks_def)
    ultimately have "heap_inv mp' live"
      using r(2,3) eq heap_invD(2-4,6) [OF inv] heap_invD(5) [OF inv]
      by (intro heap_invI) (simp_all add: frame_def Int_Un_distrib)
    then show ?thesis using True by simp
  next
    case False
    then show ?thesis using heap_inv_allocated [OF inv r(2,3) G] r(6) eq by simp
  qed
next
  case (run_write mp live a n x v)
  then have inv: "heap_inv mp live" by blast
  have "header_at ((memory_of mp)(x := v)) b m" if m: "(b, m) \<in> live" for b m
  proof (rule header_at_cong)
    show "header_at (memory_of mp) b m" using inv m by (auto simp: heap_inv_def)
    fix y assume y: "b - header_size \<le> y" "y < b"
    have "x \<noteq> y"
    proof (cases "(b, m) = (a, n)")
      case False
      then have "block b m \<inter> block a n = {}" using inv m run_write.hyps(2) unfolding heap_inv_def by blast
      moreover have "y \<in> block b m" "x \<in> block a n" using y run_write.hyps(3,4) by (auto simp: block_def)
      ultimately show ?thesis by blast
    qed (use y run_write.hyps(3) in auto)
    then show "((memory_of mp)(x := v)) y = memory_of mp y" by simp
  qed
  then show ?case using inv unfolding heap_inv_def
    by (auto simp: mp_ok_def mp_kept_def)
next
  case (run_deallocate mp live a n b mp')
  then have inv: "heap_inv mp live" by blast
  then have a: "mp_ok mp" "page_root mp = 0" "header_at (memory_of mp) a n" "block a n \<inter> mp_kept mp = {}"
    using run_deallocate.hyps(2) by (auto simp: heap_inv_def)
  obtain b1 mp1 where r: "Mempool_deallocate host mp a 0 = Some (b1, mp1)" "mp_ok mp1" "frame mp mp1" "memory_of mp1 = memory_of mp"
    "\<not> b1 \<Longrightarrow> unchanged mp mp1" "b1 \<Longrightarrow> mp_kept mp1 = mp_kept mp \<union> block a n"
    by (rule deallocate_spec [OF a, of host]) blast
  have eq: "b1 = b" "mp1 = mp'" using r(1) run_deallocate.hyps(3) by simp_all
  show ?case
  proof (cases b)
    case True
    have "block c m \<inter> block a n = {}" if "(c, m) \<in> live" "(c, m) \<noteq> (a, n)" for c m
      using inv run_deallocate.hyps(2) that unfolding heap_inv_def by blast
    then have "heap_inv mp' (live - {(a, n)})"
      using r(2,3,4,6) eq True heap_invD(2-4,6) [OF inv] heap_invD(5) [OF inv]
      by (intro heap_invI) (simp_all add: frame_def Int_Un_distrib)
    then show ?thesis using True by simp
  next
    case False
    then show ?thesis using inv unchangedD(1,3,6,9,10) [of mp mp'] r(5) eq by (simp add: heap_inv_def)
  qed
qed

section \<open>A block at the start of a slice\<close>

lemma allocate_pass_first:
  assumes "mp_ok mp" "entries (chain (pool_available mp)) = p # L"
    and "block_in n align bound p = Some (sl_address p + 16)"
    and "u64 (header_size + n) = t" "0 < t" "t < sl_length p" "16 \<le> sl_length p"
  shows "\<exists>mp'. allocate_pass host mp n align bound = Some (Some (sl_address p + 16), mp') \<and>
    mp_free mp' = mp_free mp - {sl_address p..<sl_address p + t} \<and>
    roomy (chain (pool_available mp')) = roomy (chain (pool_available mp))"
proof -
  let ?root = "pool_available mp"
  have inv: "pool_inv ?root" using assms(1) by (simp add: mp_ok_def)
  then have fo: "free_ok (p # L)" and r: "rep (chain ?root) (p # L)" using assms(2) by (auto simp: pool_inv_def)
  then have p: "sl_ok p" by (simp add: free_ok_Cons)
  have fit: "block_pools n align bound (chain ?root) = Some (sl_address p + 16)"
    using block_pools_entries [OF inv] assms(2,3) by simp
  have h: "u64 (sl_address p + 16 + (2 ^ 64 - header_size)) = sl_address p"
    using u64_sub [of header_size "sl_address p + 16"] p assms(7) by (simp add: sl_ok_def sl_end_def header_size_def)
  define sl where "sl = \<lparr>sl_address = sl_address p, sl_length = t\<rparr>"
  have sl: "sl_ok sl" "sl_address sl = sl_address p" "sl_end sl < sl_end p"
    using assms(5,6) p by (auto simp: sl_def sl_ok_def sl_end_def)
  then have scan: "scan_all (p # L) 0 sl = Some (Some 0)" using p by simp
  have ins: "inside (p # L) 0 sl" using sl by (simp add: inside_def)
  obtain ch where ch: "store_slice (chain ?root) (pos 0) (right_part p sl) = Some ch" "rep ch (right_part p sl # L)" "same_counts (chain ?root) ch"
    using rep_store [OF r, of 0 "right_part p sl"] by auto
  define mp1 where "mp1 = next_call mp\<lparr>pool_available := ?root\<lparr>chain := ch\<rparr>\<rparr>"
  have rem: "available_Remove host mp sl = Some (True, mp1)"
    unfolding available_Remove_def SinglePool_Remove_def pool_depth_Suc Remove_found [OF r fo sl(1) scan]
    using sl(2,3) ch(1) by (simp add: mp1_def)
  have "free_remove (p # L) 0 sl = right_part p sl # L" using sl by (simp add: free_remove_def)
  then have "mp_free mp1 = mp_free mp - extent sl"
    using free_remove_ok [OF fo sl(1) ins] rep_entries [OF ch(2)] assms(2) by (simp add: mp1_def mp_free_def free_bytes_def)
  moreover have "extent sl = {sl_address p..<sl_address p + t}" by (simp add: sl_def extent_def sl_end_def)
  moreover have "roomy ch = roomy (chain ?root)" using roomy_same [OF ch(3)] r by (simp add: rep_def)
  ultimately show ?thesis
    using fit h assms(4) rem by (simp add: allocate_pass_def Let_def sl_def mp_free_def mp1_def)
qed

lemma block_in_wraps:
  assumes "u64 (header_size + n) < sl_length p" "sl_ok p" "16 \<le> sl_length p"
  shows "block_in n 1 0 p = Some (sl_address p + 16)"
proof -
  have "u64 (sl_address p + header_size) = sl_address p + 16" "u64 (sl_address p + 16) = sl_address p + 16"
    using assms(2,3) by (simp_all add: sl_ok_def sl_end_def header_size_def)
  then show ?thesis using assms(1) by (simp add: block_in_def Let_def ceilAlign_def floorAlign_def)
qed

section \<open>Sample allocators\<close>

text \<open>
  A host without default allocator; a host whose default allocator answers request number \<open>c\<close> with memory at
  \<open>0x100000 * (c + 1)\<close>; an allocator with one free range, and one that has no memory yet.
\<close>

definition no_host :: Host where
  "no_host = \<lparr>default_allocator = None, host_malloc = (\<lambda>_ _. 0)\<rparr>"

definition grow_host :: Host where
  "grow_host = \<lparr>default_allocator = Some (\<lambda>c _ _. 0x100000 * (c + 1)), host_malloc = (\<lambda>_ _. 0)\<rparr>"

definition sample_mempool :: "Slice \<Rightarrow> Mempool" where
  "sample_mempool s = \<lparr>pool_registerd = sample_pool 0 s, pool_available = sample_pool 0 s, page_root = 0,
     enable_auto_expand = True, auto_expand_step = 0x40000, expand_only_from_self = False, memory_of = (\<lambda>_. 0), host_calls = 0\<rparr>"

definition empty_mempool :: Mempool where
  "empty_mempool = \<lparr>pool_registerd = new_PoolChain 0 0, pool_available = new_PoolChain 0 0, page_root = 0,
     enable_auto_expand = True, auto_expand_step = 0x40000, expand_only_from_self = False, memory_of = (\<lambda>_. 0), host_calls = 0\<rparr>"

lemma sample_mempool_ok:
  assumes "sl_ok s"
  shows "mp_ok (sample_mempool s)" "mp_free (sample_mempool s) = extent s" "mp_kept (sample_mempool s) = extent s"
    "mp_pages (sample_mempool s) = {}" "page_root (sample_mempool s) = 0" "auto_expand_step (sample_mempool s) \<noteq> 0"
    "entries (chain (pool_available (sample_mempool s))) = [s]" "room_one host (sample_mempool s)"
  using sample_pool_inv [OF assms, of 0]
  by (simp_all add: sample_mempool_def mp_ok_def mp_free_def mp_kept_def mp_pages_def room_one_def)

lemma empty_mempool_ok:
  "entries (chain (pool_available empty_mempool)) = []" "mp_ok empty_mempool" "mp_free empty_mempool = {}"
  "mp_kept empty_mempool = {}" "mp_pages empty_mempool = {}" "page_root empty_mempool = 0" "auto_expand_step empty_mempool \<noteq> 0"
proof -
  have "rep (chain (new_PoolChain 0 0)) []" by (simp add: new_PoolChain_def rep_def new_SinglePool_def)
  from this rep_entries [OF this]
  show "entries (chain (pool_available empty_mempool)) = []" "mp_ok empty_mempool" "mp_free empty_mempool = {}"
    "mp_kept empty_mempool = {}" "mp_pages empty_mempool = {}" "page_root empty_mempool = 0" "auto_expand_step empty_mempool \<noteq> 0"
    by (simp_all add: empty_mempool_def mp_ok_def mp_free_def mp_kept_def mp_pages_def pool_inv_def free_bytes_def pool_pages_def
        new_PoolChain_def)
qed

lemma no_host_growth: "growth no_host mp n k j = None" "fresh_growth no_host mp n k j used"
proof -
  show "growth no_host mp n k j = None"
    by (auto simp: growth_def expand_memory_def no_host_def split: option.splits)
  then show "fresh_growth no_host mp n k j used" by (simp add: fresh_growth_def)
qed

lemma sample_request:
  "block_request 24 4 6" "head_room (sample_mempool sample_slice4) 4 6" "block_request 24 0 0" "head_room (sample_mempool sample_slice4) 0 0"
  unfolding head_room_def sample_mempool_ok(2) [OF sample_slice4_ok]
  by (simp_all add: block_request_def header_size_def MEMPOOL_PAGE_SHIFT_def extent_def sl_end_def sample_slice4_def bound_of_def)

text \<open>The first block of the sample: 24 bytes at a multiple of 16 that do not cross a multiple of 64.\<close>

lemma sample_allocate:
  assumes "block_in 24 (2 ^ k) (bound_of k j) sample_slice4 = Some 0x1010" "block_request 24 k j" "bound_of k j = 0 \<or> 24 \<le> bound_of k j"
  shows "\<exists>mp'. Mempool_allocate host (sample_mempool sample_slice4) 24 k j = Some (0x1010, mp') \<and> room_one host mp'"
proof -
  note ok = sample_mempool_ok [OF sample_slice4_ok]
  have "u64 (header_size + 24) = 40" by (simp add: header_size_def)
  moreover have "(0 :: nat) < 40" "40 < sl_length sample_slice4" "16 \<le> sl_length sample_slice4" "sl_address sample_slice4 + 16 = 0x1010"
    by (simp_all add: sample_slice4_def)
  moreover have "roomy (chain (pool_available (sample_mempool sample_slice4)))"
    using sample_pool_inv(3) [OF sample_slice4_ok, of 0] by (simp add: sample_mempool_def)
  ultimately obtain mp' where "allocate_pass host (sample_mempool sample_slice4) 24 (2 ^ k) (bound_of k j) = Some (Some 0x1010, mp')"
    "roomy (chain (pool_available mp'))"
    using allocate_pass_first [OF ok(1,7), of 24 "2 ^ k" "bound_of k j" 40 host] assms(1) by metis
  moreover have "max 24 1 = (24 :: nat)" by simp
  ultimately show ?thesis using allocate_unfold [OF assms(2), of host] assms(3) by (simp add: room_one_def)
qed

lemma sample_block_in: "block_in 24 (2 ^ 4) (bound_of 4 6) sample_slice4 = Some 0x1010" "block_in 24 (2 ^ 0) (bound_of 0 0) sample_slice4 = Some 0x1010"
  by (simp_all add: block_in_def Let_def bound_of_def sample_slice4_def header_size_def ceilAlign_def floorAlign_def getEndoaddr_def u64_def)

text \<open>What a growth of the second host is, and how far the number of requests goes.\<close>

lemma allocate_pass_calls:
  "allocate_pass host mp n align bound = Some (Some a, mp') \<Longrightarrow> host_calls mp' = host_calls mp + 1"
  by (auto simp: allocate_pass_def available_Remove_def next_call_def Let_def split: option.splits if_splits)

lemma Mempool_Append_calls:
  "Mempool_Append host mp sl = Some mp' \<Longrightarrow> host_calls mp' = host_calls mp + 2"
  by (auto simp: Mempool_Append_def both_Append_def available_Append_def next_call_def Let_def split: option.splits if_splits)

lemma allocate_growth_calls:
  assumes "block_request n k j" "growth host mp n k j = Some sl" "Mempool_allocate host mp n k j = Some (a, mp')" "a \<noteq> 0"
    and "expand_memory host mp (safe_request n k j) = Some (Some sl, mp0)" "mp_ok mp"
  shows "host_calls mp' = host_calls mp0 + 3"
proof -
  have g: "bound_of k j = 0 \<or> max n 1 \<le> bound_of k j" "\<not> fits_free mp n k j" "enable_auto_expand mp"
    using assms(2) by (auto simp: growth_def split: if_splits)
  then have pass: "allocate_pass host mp (max n 1) (2 ^ k) (bound_of k j) = Some (None, mp)"
    using block_pools_entries [of "pool_available mp"] assms(6) by (simp add: fits_free_def allocate_pass_def mp_ok_def)
  show ?thesis
    using assms(3,4,5) g(3) unfolding allocate_unfold [OF assms(1) g(1)] pass
    by (auto simp: Mempool_Expand_def split: option.splits dest!: allocate_pass_calls Mempool_Append_calls)
qed

lemma grow_host_room: "owner_id (pool_available mp) = 0 \<Longrightarrow> room_two grow_host mp"
  by (simp add: room_two_def host_pool_def grow_host_def Let_def)

lemma grow_host_memory:
  assumes "auto_expand_step mp = 0x40000" "\<not> expand_only_from_self mp"
  shows "expand_memory grow_host mp m =
    Some (Some \<lparr>sl_address = 0x100000 * (host_calls mp + 1), sl_length = ceilAlign 0x40000 (max m 0x40000)\<rparr>, next_call mp)"
  using assms by (simp add: expand_memory_def grow_host_def default_allocate_def Let_def)

lemma small_entries:
  assumes "mp_ok mp" "mp_free mp \<subseteq> {a..<a + t}" "t < header_size + n" "header_size + n < 2 ^ 64" "0 < n"
  shows "block_slices n align bound (entries (chain (pool_available mp))) = None"
proof (rule ccontr)
  assume "block_slices n align bound (entries (chain (pool_available mp))) \<noteq> None"
  then obtain p b where p: "p \<in> set (entries (chain (pool_available mp)))" "block_in n align bound p = Some b"
    using block_slices_Some by blast
  then have ok: "sl_ok p" and sub: "extent p \<subseteq> {a..<a + t}"
    using assms(1,2) by (auto simp: mp_ok_def pool_inv_def free_ok_def mp_free_def free_bytes_def bytes_of_def)
  have "u64 (header_size + n) = header_size + n" using assms(4) by simp
  then have len: "header_size + n \<le> sl_length p" using p(2) by (auto simp: block_in_def Let_def split: if_splits)
  have "sl_address p \<in> extent p" "sl_end p - 1 \<in> extent p" using ok by (auto simp: extent_def sl_ok_def sl_end_def)
  then have "a \<le> sl_address p" "sl_end p - 1 < a + t" using sub by auto
  then show False using len assms(3) ok by (simp add: sl_end_def sl_ok_def)
qed

text \<open>From the empty allocator: a small block, then a large one, each of which makes the allocator grow.\<close>

lemma first_growth:
  "growth grow_host empty_mempool 24 0 0 = Some \<lparr>sl_address = 0x100000, sl_length = 0x40000\<rparr>"
  "expand_memory grow_host empty_mempool (safe_request 24 0 0) = Some (Some \<lparr>sl_address = 0x100000, sl_length = 0x40000\<rparr>, next_call empty_mempool)"
proof -
  have "safe_request 24 0 0 = 41" by (simp add: safe_request_def bound_of_def header_size_def)
  moreover have "auto_expand_step empty_mempool = 0x40000" "\<not> expand_only_from_self empty_mempool" "host_calls empty_mempool = 0"
    "enable_auto_expand empty_mempool" by (simp_all add: empty_mempool_def)
  moreover have "\<not> fits_free empty_mempool 24 0 0" by (simp add: fits_free_def empty_mempool_ok(1))
  ultimately show e: "expand_memory grow_host empty_mempool (safe_request 24 0 0) =
      Some (Some \<lparr>sl_address = 0x100000, sl_length = 0x40000\<rparr>, next_call empty_mempool)"
    "growth grow_host empty_mempool 24 0 0 = Some \<lparr>sl_address = 0x100000, sl_length = 0x40000\<rparr>"
    by (simp_all add: growth_def grow_host_memory bound_of_def ceilAlign_def floorAlign_def)
qed

lemma fresh_growthI:
  "growth host mp n k j = Some sl \<Longrightarrow> fresh_slice used (2 ^ k + bound_of k j) sl \<Longrightarrow> fresh_growth host mp n k j used"
  by (simp add: fresh_growth_def)

lemma first_fresh:
  "used \<inter> {0x100000..<0x140000} = {} \<Longrightarrow> fresh_growth grow_host empty_mempool 24 0 0 used"
  by (rule fresh_growthI [OF first_growth(1)])
     (auto simp: fresh_slice_def extent_def sl_ok_def sl_end_def bound_of_def Int_commute)

lemma first_allocate:
  obtains a mp1 where "Mempool_allocate grow_host empty_mempool 24 0 0 = Some (a, mp1)" "a \<noteq> 0" "mp_ok mp1" "frame empty_mempool mp1"
    "mp_kept mp1 \<subseteq> {0x100000..<0x140000}" "block a 24 \<subseteq> {0x100000..<0x140000}" "host_calls mp1 = 4"
    "block_request 24 0 0" "head_room empty_mempool 0 0"
proof -
  note ok = empty_mempool_ok
  have req: "block_request 24 0 0" "head_room empty_mempool 0 0"
    using sample_request(3) ok(3) by (simp_all add: head_room_def)
  have sv: "served grow_host empty_mempool 24 0 0"
    using grow_host_room [of empty_mempool] first_growth(1)
    by (simp add: served_def bound_of_def header_size_def empty_mempool_def new_PoolChain_def)
  have used: "mp_pages empty_mempool \<union> mp_kept empty_mempool \<subseteq> {}" using ok(4,5) by simp
  obtain a mp1 G where a: "Mempool_allocate grow_host empty_mempool 24 0 0 = Some (a, mp1)" "mp_ok mp1" "frame empty_mempool mp1"
    "G = {} \<or> G = given (growth grow_host empty_mempool 24 0 0)" "a \<noteq> 0 \<Longrightarrow> allocated empty_mempool G a (max 24 1) 0 0 mp1"
    "served grow_host empty_mempool 24 0 0 \<Longrightarrow> a \<noteq> 0"
    by (rule allocate_spec [OF ok(2) req ok(7) first_fresh [of "{}"] used]) simp_all
  note ne = a(6) [OF sv] and al = a(5) [OF a(6) [OF sv]]
  have "G \<subseteq> {0x100000..<0x140000}" using a(4) unfolding first_growth(1) by (auto simp: extent_def sl_end_def)
  moreover have "mp_kept mp1 \<subseteq> G" "block a 24 \<subseteq> G" using al ok(3,4) by (auto simp: allocated_def)
  moreover have "host_calls mp1 = 4"
    using allocate_growth_calls [OF req(1) first_growth(1) a(1) ne first_growth(2) ok(2)]
    by (simp add: empty_mempool_def next_call_def)
  ultimately show ?thesis by (intro that [OF a(1) ne a(2,3) _ _ _ req]) (blast, blast, assumption)
qed

lemma second_growth:
  assumes "mp_ok mp1" "frame empty_mempool mp1" "mp_kept mp1 \<subseteq> {0x100000..<0x140000}" "host_calls mp1 = 4"
  shows "block_request 0x50000 0 0" "head_room mp1 0 0" "served grow_host mp1 0x50000 0 0" "mp_pages mp1 = {}"
    "growth grow_host mp1 0x50000 0 0 = Some \<lparr>sl_address = 0x500000, sl_length = 0x80000\<rparr>"
proof -
  have fr: "auto_expand_step mp1 = 0x40000" "\<not> expand_only_from_self mp1" "enable_auto_expand mp1"
    "owner_id (pool_available mp1) = 0" "owner_id (pool_registerd mp1) = 0"
    using assms(2) by (simp_all add: frame_def empty_mempool_def new_PoolChain_def)
  show "mp_pages mp1 = {}" using fr(4,5) by (simp add: mp_pages_def pool_pages_def)
  show req: "block_request 0x50000 0 0" by (simp add: block_request_def header_size_def MEMPOOL_PAGE_SHIFT_def)
  have free: "mp_free mp1 \<subseteq> {0x100000..<0x100000 + 0x40000}" using assms(3) by (auto simp: mp_kept_def mp_free_def)
  then show "head_room mp1 0 0" by (auto simp: head_room_def bound_of_def)
  have "block_slices 0x50000 1 0 (entries (chain (pool_available mp1))) = None"
    by (rule small_entries [OF assms(1) free]) (simp_all add: header_size_def)
  then have nofit: "\<not> fits_free mp1 0x50000 0 0" by (simp add: fits_free_def bound_of_def)
  have "safe_request 0x50000 0 0 = 0x50011" by (simp add: safe_request_def bound_of_def header_size_def)
  then show g: "growth grow_host mp1 0x50000 0 0 = Some \<lparr>sl_address = 0x500000, sl_length = 0x80000\<rparr>"
    using nofit fr(1-3) assms(4) by (simp add: growth_def grow_host_memory bound_of_def ceilAlign_def floorAlign_def)
  show "served grow_host mp1 0x50000 0 0"
    using grow_host_room [OF fr(4)] g fr(1) by (simp add: served_def bound_of_def header_size_def)
qed

lemma second_fresh:
  assumes "growth grow_host mp1 0x50000 0 0 = Some \<lparr>sl_address = 0x500000, sl_length = 0x80000\<rparr>" "used \<subseteq> {0x100000..<0x140000}"
  shows "fresh_growth grow_host mp1 0x50000 0 0 used"
  by (rule fresh_growthI [OF assms(1)]) (use assms(2) in \<open>auto simp: fresh_slice_def extent_def sl_ok_def sl_end_def bound_of_def\<close>)

lemma second_allocate:
  assumes "mp_ok mp1" "frame empty_mempool mp1" "mp_kept mp1 \<subseteq> {0x100000..<0x140000}" "host_calls mp1 = 4"
  obtains b mp2 where "Mempool_allocate grow_host mp1 0x50000 0 0 = Some (b, mp2)" "b \<noteq> 0"
proof -
  note g = second_growth [OF assms]
  have st: "auto_expand_step mp1 \<noteq> 0" using assms(2) by (simp add: frame_def empty_mempool_def)
  have used: "mp_pages mp1 \<union> mp_kept mp1 \<subseteq> {0x100000..<0x140000}" using g(4) assms(3) by simp
  obtain b mp2 where "Mempool_allocate grow_host mp1 0x50000 0 0 = Some (b, mp2)" "served grow_host mp1 0x50000 0 0 \<Longrightarrow> b \<noteq> 0"
    by (rule allocate_spec [OF assms(1) g(1,2) st second_fresh [OF g(5) subset_refl] used]) blast
  then show ?thesis using g(3) that by blast
qed

section \<open>Properties\<close>

text \<open>
  C19. A request for a block with a header (every request but those for whole pages at a page
  boundary, whose size plus header does not wrap around), in a state where aligning does not wrap
  around and with an expansion step that is not zero. Let the growth be the memory that this very call gets from the default allocator, which it
  asks only when the block fits no free slice (\<open>growth\<close>; without default allocator there is none), and
  suppose it is not in use. The call returns; the block lies in memory that was free or is
  that growth, at a multiple of its alignment and without crossing a multiple of its boundary, carries its header, and is
  the only memory that leaves the allocator; no other byte is written. With a null pointer the memory is as it was, up to the growth. The
  growth is kept, or lost where the chain of free slices has no room for it. And the request
  succeeds whenever the block fits a free slice or the default allocator gives memory, if the
  chain has room for two more slices and the rounding of the size to the step does not wrap around.
\<close>

theorem mempool_allocate_correct:
  assumes "mp_ok mp" "block_request n k j" "head_room mp k j" "auto_expand_step mp \<noteq> 0"
    and "fresh_growth host mp n k j (mp_pages mp \<union> mp_kept mp)"
  shows "\<exists>r mp' G. Mempool_allocate host mp n k j = Some (r, mp') \<and> mp_ok mp' \<and>
    (G = {} \<or> G = given (growth host mp n k j)) \<and> (room_one host mp \<longrightarrow> G = given (growth host mp n k j)) \<and>
    (served host mp n k j \<longrightarrow> r \<noteq> 0) \<and>
    (if r = 0 then memory_of mp' = memory_of mp \<and> mp_kept mp' = mp_kept mp \<union> G
     else r mod 2 ^ k = 0 \<and> in_window (bound_of k j) r (max n 1) \<and> block r (max n 1) \<subseteq> mp_free mp \<union> G \<and>
       mp_kept mp' = (mp_kept mp \<union> G) - block r (max n 1) \<and> header_at (memory_of mp') r (max n 1) \<and>
       (\<forall>x. x < r - header_size \<or> r \<le> x \<longrightarrow> memory_of mp' x = memory_of mp x))"
proof -
  obtain r mp' G where r: "Mempool_allocate host mp n k j = Some (r, mp')" "mp_ok mp'"
    "G = {} \<or> G = given (growth host mp n k j)" "room_one host mp \<Longrightarrow> G = given (growth host mp n k j)"
    "r = 0 \<Longrightarrow> memory_of mp' = memory_of mp \<and> mp_kept mp' = mp_kept mp \<union> G"
    "r \<noteq> 0 \<Longrightarrow> allocated mp G r (max n 1) k j mp'" "served host mp n k j \<Longrightarrow> r \<noteq> 0"
    by (rule allocate_spec [OF assms subset_refl]) blast
  have "header_at (memory_of mp') r (max n 1) \<and> (\<forall>x. x < r - header_size \<or> r \<le> x \<longrightarrow> memory_of mp' x = memory_of mp x)"
    if "allocated mp G r (max n 1) k j mp'"
    using that header_at_new [of r "max n 1" "memory_of mp"] write_header_other [of "r - header_size" _ "memory_of mp" "max n 1"]
    by (auto simp: allocated_def header_size_def)
  then show ?thesis using r by (intro exI [of _ r] exI [of _ mp'] exI [of _ G]) (auto simp: allocated_def)
qed

text \<open>Without growth the block is the one at 0x1010; with growth it lies in the new memory.\<close>

theorem mempool_allocate_correct_witness:
  "(\<exists>mp'. Mempool_allocate no_host (sample_mempool sample_slice4) 24 4 6 = Some (0x1010, mp') \<and>
      mp_kept mp' = {0x1000..<0x5000} - {0x1000..<0x1028} \<and> header_at (memory_of mp') 0x1010 24) \<and>
   (\<exists>r mp'. Mempool_allocate grow_host empty_mempool 24 0 0 = Some (r, mp') \<and> r \<noteq> 0 \<and>
      block r 24 \<subseteq> {0x100000..<0x140000} \<and> mp_kept mp' = {0x100000..<0x140000} - block r 24)"
proof (rule conjI)
  note ok = sample_mempool_ok [OF sample_slice4_ok]
  have "block 0x1010 24 = {0x1000..<0x1028}" "extent sample_slice4 = {0x1000..<0x5000}"
    by (simp_all add: block_def header_size_def extent_def sl_end_def sample_slice4_def)
  moreover obtain mp1 where "Mempool_allocate no_host (sample_mempool sample_slice4) 24 4 6 = Some (0x1010, mp1)"
    using sample_allocate [OF sample_block_in(1) sample_request(1), of no_host] by (auto simp: bound_of_def)
  moreover note mempool_allocate_correct [OF ok(1) sample_request(1,2) ok(6) no_host_growth(2)]
  ultimately show "\<exists>mp'. Mempool_allocate no_host (sample_mempool sample_slice4) 24 4 6 = Some (0x1010, mp') \<and>
      mp_kept mp' = {0x1000..<0x5000} - {0x1000..<0x1028} \<and> header_at (memory_of mp') 0x1010 24"
    using ok(3) by (auto simp: no_host_growth(1))
  note e = empty_mempool_ok
  have req: "block_request 24 0 0" "head_room empty_mempool 0 0" using sample_request(3) e(3) by (simp_all add: head_room_def)
  have sv: "served grow_host empty_mempool 24 0 0" and room: "room_one grow_host empty_mempool"
    using grow_host_room [of empty_mempool] first_growth(1) room_two_one
    by (simp_all add: served_def bound_of_def header_size_def empty_mempool_def new_PoolChain_def)
  have g: "given (growth grow_host empty_mempool 24 0 0) = {0x100000..<0x140000}"
    by (simp add: first_growth(1) extent_def sl_end_def)
  have "fresh_growth grow_host empty_mempool 24 0 0 (mp_pages empty_mempool \<union> mp_kept empty_mempool)"
    by (rule first_fresh) (simp add: e(4,5))
  from mempool_allocate_correct [OF e(2) req e(7) this] sv room e(3,4)
  show "\<exists>r mp'. Mempool_allocate grow_host empty_mempool 24 0 0 = Some (r, mp') \<and> r \<noteq> 0 \<and>
      block r 24 \<subseteq> {0x100000..<0x140000} \<and> mp_kept mp' = {0x100000..<0x140000} - block r 24"
    unfolding g by auto
qed

text \<open>
  C20. Clients allocate blocks with a header (requests as above, whole pages excluded), write into them and give
  them back whole, in any order, over an allocator without page allocations, with an expansion step that is not zero,
  that grows any number of times; what the default allocator gives in a step is only assumed to be unused at that time. In every
  state they reach, no two live blocks share a byte, no live block shares a byte with free memory or
  with pages that the free list took for its own pools, and the header of each is intact.
\<close>

theorem mempool_blocks_apart:
  assumes "heap_run host mp0 mp live" "mp_ok mp0" "page_root mp0 = 0" "auto_expand_step mp0 \<noteq> 0"
  shows "(\<forall>a n. (a, n) \<in> live \<longrightarrow> header_at (memory_of mp) a n \<and>
      block a n \<inter> (free_bytes (pool_available mp) \<union> pool_pages (pool_available mp)) = {}) \<and>
    (\<forall>a n b m. (a, n) \<in> live \<longrightarrow> (b, m) \<in> live \<longrightarrow> (a, n) \<noteq> (b, m) \<longrightarrow> block a n \<inter> block b m = {})"
  using heap_run_inv [OF assms] by (simp add: heap_inv_def mp_kept_def)

text \<open>A run in which the allocator grows twice.\<close>

theorem mempool_blocks_apart_witness:
  "\<exists>mp a b. heap_run grow_host empty_mempool mp {(a, 24), (b, 0x50000)} \<and> a \<noteq> 0 \<and> b \<noteq> 0 \<and>
     header_at (memory_of mp) a 24 \<and> header_at (memory_of mp) b 0x50000 \<and> block a 24 \<inter> block b 0x50000 = {} \<and>
     block a 24 \<inter> free_bytes (pool_available mp) = {}"
proof -
  note e = empty_mempool_ok
  obtain a mp1 where a: "Mempool_allocate grow_host empty_mempool 24 0 0 = Some (a, mp1)" "a \<noteq> 0" "mp_ok mp1" "frame empty_mempool mp1"
    "mp_kept mp1 \<subseteq> {0x100000..<0x140000}" "block a 24 \<subseteq> {0x100000..<0x140000}" "host_calls mp1 = 4"
    "block_request 24 0 0" "head_room empty_mempool 0 0" by (rule first_allocate)
  have "fresh_growth grow_host empty_mempool 24 0 0 (mp_pages empty_mempool \<union> mp_kept empty_mempool \<union> blocks {})"
    by (rule first_fresh) (simp add: e(4,5) blocks_def)
  from run_allocate [OF run_start a(8,9) this a(1)] a(2)
  have one: "heap_run grow_host empty_mempool mp1 {(a, 24)}" by simp
  note g = second_growth [OF a(3-5,7)]
  obtain b mp2 where b: "Mempool_allocate grow_host mp1 0x50000 0 0 = Some (b, mp2)" "b \<noteq> 0"
    by (rule second_allocate [OF a(3-5,7)])
  have "fresh_growth grow_host mp1 0x50000 0 0 (mp_pages mp1 \<union> mp_kept mp1 \<union> blocks {(a, 24)})"
    by (rule second_fresh [OF g(5)]) (use g(4) a(5,6) in \<open>simp add: blocks_def\<close>)
  from run_allocate [OF one g(1,2) this b(1)] b(2)
  have two: "heap_run grow_host empty_mempool mp2 {(a, 24), (b, 0x50000)}" by (simp add: insert_commute)
  from mempool_blocks_apart [OF two e(2,6,7)] two a(2) b(2) show ?thesis
    by (intro exI [of _ mp2] exI [of _ a] exI [of _ b]) (simp add: Int_Un_distrib)
qed

text \<open>
  C21. Giving back, whole, a block that was just allocated with a header restores the memory of the allocator: it
  keeps exactly what it had before, and the memory this allocation got from the default allocator, if
  it had to grow (which is lost where the chain had no room for it). This is so for the requests and states of the property
  of allocation above, where no page has been allocated (there is no page table), and where the chain of free slices has room for the block that comes back.
\<close>

theorem mempool_allocate_deallocate:
  assumes "mp_ok mp" "block_request n k j" "head_room mp k j" "auto_expand_step mp \<noteq> 0" "page_root mp = 0"
    and "fresh_growth host mp n k j (mp_pages mp \<union> mp_kept mp)"
    and "Mempool_allocate host mp n k j = Some (a, mp1)" "a \<noteq> 0" "room_one host mp1"
  shows "\<exists>mp2 G. Mempool_deallocate host mp1 a 0 = Some (True, mp2) \<and> mp_ok mp2 \<and> mp_kept mp2 = mp_kept mp \<union> G \<and>
    (G = {} \<or> G = given (growth host mp n k j)) \<and> (room_one host mp \<longrightarrow> G = given (growth host mp n k j))"
proof -
  obtain r mp' G where r: "Mempool_allocate host mp n k j = Some (r, mp')" "mp_ok mp'" "frame mp mp'"
    "G = {} \<or> G = given (growth host mp n k j)" "room_one host mp \<Longrightarrow> G = given (growth host mp n k j)"
    "r \<noteq> 0 \<Longrightarrow> allocated mp G r (max n 1) k j mp'"
    by (rule allocate_spec [OF assms(1-4,6) subset_refl]) blast
  then have al: "allocated mp G a (max n 1) k j mp1" and ok: "mp_ok mp1" "page_root mp1 = 0"
    using assms(5,7,8) by (auto simp: frame_def)
  have hd: "header_at (memory_of mp1) a (max n 1)"
    using al header_at_new [of a "max n 1" "memory_of mp"] by (simp add: allocated_def)
  have kept: "block a (max n 1) \<inter> mp_kept mp1 = {}" "mp_kept mp1 \<union> block a (max n 1) = mp_kept mp \<union> G"
    using al by (auto simp: allocated_def mp_kept_def mp_free_def)
  obtain b mp2 where d: "Mempool_deallocate host mp1 a 0 = Some (b, mp2)" "mp_ok mp2"
    "b \<Longrightarrow> mp_kept mp2 = mp_kept mp1 \<union> block a (max n 1)" "room_one host mp1 \<Longrightarrow> b"
    by (rule deallocate_spec [OF ok hd kept(1), of host]) blast
  then show ?thesis using r(4,5) assms(9) kept(2) by (intro exI [of _ mp2] exI [of _ G]) auto
qed

theorem mempool_allocate_deallocate_witness:
  "(\<exists>mp1 mp2. Mempool_allocate no_host (sample_mempool sample_slice4) 24 4 6 = Some (0x1010, mp1) \<and>
     Mempool_deallocate no_host mp1 0x1010 0 = Some (True, mp2) \<and> mp_kept mp2 = {0x1000..<0x5000}) \<and>
   (\<exists>a mp1 mp2. Mempool_allocate grow_host empty_mempool 24 0 0 = Some (a, mp1) \<and> a \<noteq> 0 \<and>
     Mempool_deallocate grow_host mp1 a 0 = Some (True, mp2) \<and> mp_kept mp2 = {0x100000..<0x140000})"
proof (rule conjI)
  note ok = sample_mempool_ok [OF sample_slice4_ok]
  obtain mp1 where a: "Mempool_allocate no_host (sample_mempool sample_slice4) 24 4 6 = Some (0x1010, mp1)" "room_one no_host mp1"
    using sample_allocate [OF sample_block_in(1) sample_request(1), of no_host] by (auto simp: bound_of_def)
  have "extent sample_slice4 = {0x1000..<0x5000}" by (simp add: extent_def sl_end_def sample_slice4_def)
  with mempool_allocate_deallocate [OF ok(1) sample_request(1,2) ok(6,5) no_host_growth(2) a(1) _ a(2)] a(1) ok(3)
  show "\<exists>mp1 mp2. Mempool_allocate no_host (sample_mempool sample_slice4) 24 4 6 = Some (0x1010, mp1) \<and>
     Mempool_deallocate no_host mp1 0x1010 0 = Some (True, mp2) \<and> mp_kept mp2 = {0x1000..<0x5000}"
    by (auto simp: no_host_growth(1))
  note e = empty_mempool_ok
  obtain b mp1 where b: "Mempool_allocate grow_host empty_mempool 24 0 0 = Some (b, mp1)" "b \<noteq> 0" "frame empty_mempool mp1"
    "block_request 24 0 0" "head_room empty_mempool 0 0" by (rule first_allocate)
  have "owner_id (pool_available mp1) = 0" "owner_id (pool_available empty_mempool) = 0"
    using b(3) by (simp_all add: frame_def empty_mempool_def new_PoolChain_def)
  then have room: "room_one grow_host mp1" "room_one grow_host empty_mempool" using grow_host_room room_two_one by blast+
  have g: "given (growth grow_host empty_mempool 24 0 0) = {0x100000..<0x140000}"
    by (simp add: first_growth(1) extent_def sl_end_def)
  have "fresh_growth grow_host empty_mempool 24 0 0 (mp_pages empty_mempool \<union> mp_kept empty_mempool)"
    by (rule first_fresh) (simp add: e(4,5))
  from mempool_allocate_deallocate [OF e(2) b(4,5) e(7,6) this b(1,2) room(1)] b(1,2) room(2) e(4)
  show "\<exists>a mp1 mp2. Mempool_allocate grow_host empty_mempool 24 0 0 = Some (a, mp1) \<and> a \<noteq> 0 \<and>
     Mempool_deallocate grow_host mp1 a 0 = Some (True, mp2) \<and> mp_kept mp2 = {0x100000..<0x140000}"
    unfolding g by auto
qed

text \<open>
  The size of a block is not checked against its header: for a size close to \<open>2 ^ 64\<close> the sum wraps
  around and \<open>allocate\<close> returns a pointer although only the few bytes of the wrapped sum were taken
  from the free memory.
\<close>

lemma mempool_size_wraps:
  assumes "mp_ok mp" "entries (chain (pool_available mp)) = p # L" "16 \<le> sl_length p" "2 ^ 64 - 16 < n" "n < 2 ^ 64"
  shows "\<exists>mp'. Mempool_allocate host mp n 0 0 = Some (sl_address p + 16, mp') \<and>
    mp_free mp' = mp_free mp - {sl_address p..<sl_address p + (n + 16 - 2 ^ 64)}"
proof -
  have n: "(if n = 0 then 1 else n) = n" using assms(4) by simp
  have "header_size + n = n + 16 - 2 ^ 64 + 2 ^ 64" using assms(4) by (simp add: header_size_def)
  then have t: "u64 (header_size + n) = n + 16 - 2 ^ 64"
    unfolding u64_def using assms(5) by (simp only: mod_add_self2) simp
  have lens: "0 < n + 16 - 2 ^ 64" "n + 16 - 2 ^ 64 < sl_length p" using assms(3-5) by linarith+
  have "sl_ok p" using assms(1,2) by (auto simp: mp_ok_def pool_inv_def free_ok_Cons)
  then have "block_in n 1 0 p = Some (sl_address p + 16)" using t lens(2) assms(3) by (intro block_in_wraps) simp_all
  from allocate_pass_first [OF assms(1,2) this t lens assms(3), of host]
  obtain mp' where "allocate_pass host mp n 1 0 = Some (Some (sl_address p + 16), mp')"
    "mp_free mp' = mp_free mp - {sl_address p..<sl_address p + (n + 16 - 2 ^ 64)}" by blast
  then show ?thesis using n by (simp add: Mempool_allocate_def Let_def MEMPOOL_PAGE_SHIFT_def)
qed

lemma mempool_size_wraps_example:
  "\<exists>mp'. Mempool_allocate no_host (sample_mempool sample_slice4) (2 ^ 64 - 1) 0 0 = Some (0x1010, mp') \<and>
    mp_free mp' = {0x100F..<0x5000}"
proof -
  note ok = sample_mempool_ok [OF sample_slice4_ok]
  obtain mp' where "Mempool_allocate no_host (sample_mempool sample_slice4) (2 ^ 64 - 1) 0 0 = Some (sl_address sample_slice4 + 16, mp')"
    "mp_free mp' = extent sample_slice4 - {sl_address sample_slice4..<sl_address sample_slice4 + (2 ^ 64 - 1 + 16 - 2 ^ 64)}"
    using mempool_size_wraps [OF ok(1,7), of "2 ^ 64 - 1" no_host] unfolding ok(2) by (auto simp: sample_slice4_def)
  moreover have "extent sample_slice4 - {sl_address sample_slice4..<sl_address sample_slice4 + (2 ^ 64 - 1 + 16 - 2 ^ 64)} = {0x100F..<0x5000}"
    by (auto simp: sample_slice4_def extent_def sl_end_def)
  ultimately show ?thesis by (simp add: sample_slice4_def)
qed

end
