(* ===== verification/Bitmap.thy ===== *)
theory Bitmap
  imports Prelude
begin

unbundle bit_operations_syntax

text \<open>
  The bitmap of memory pages: \<open>Bitmap\<close> and \<open>BmMemoman\<close> of \<open>src/inc/c/bitmap.h\<close> and
  \<open>src/lib/cpp/Datype/bmmemoman.cpp\<close>. An access outside the bytes of the map is \<open>None\<close>. It is shown
  that ranges are set and cleared exactly, that the available memory is counted exactly, and that
  the pointer to the available pages is a lower bound of them.
\<close>

section \<open>The map\<close>

record BmMemoman =
  offs :: "byte list"
  bm_size :: nat
  avail_pointer :: nat

definition new_BmMemoman :: "byte list \<Rightarrow> nat \<Rightarrow> BmMemoman" where
  "new_BmMemoman mem siz = \<lparr>offs = mem, bm_size = siz, avail_pointer = 2 ^ 64 - 1\<rparr>"

definition bitof :: "BmMemoman \<Rightarrow> nat \<Rightarrow> bool option" where
  "bitof bm idx =
    (if idx div 8 < length (offs bm) then Some (drop_bit (idx mod 8) (offs bm ! (idx div 8)) AND 1 = 1) else None)"

definition setof :: "BmMemoman \<Rightarrow> nat \<Rightarrow> bool \<Rightarrow> (bool \<times> BmMemoman) option" where
  "setof bm idx src =
    (case bitof bm idx of None \<Rightarrow> None
     | Some val \<Rightarrow>
         Some (val, if val \<noteq> src
           then bm\<lparr>offs := (offs bm)[idx div 8 := offs bm ! (idx div 8) XOR push_bit (idx mod 8) 1]\<rparr> else bm))"

definition page_cnt :: nat where
  "page_cnt = 0x100000"

section \<open>Adding and removing ranges\<close>

text \<open>The loop over the pages before the first whole byte, and over those after the last one.\<close>

fun set_bits :: "BmMemoman \<Rightarrow> nat \<Rightarrow> nat \<Rightarrow> bool \<Rightarrow> BmMemoman option" where
  "set_bits bm curr_pos 0 what = Some bm"
| "set_bits bm curr_pos (Suc n) what =
    (case setof bm curr_pos what of None \<Rightarrow> None | Some (_, bm) \<Rightarrow> set_bits bm (curr_pos + 1) n what)"

fun align_bits :: "BmMemoman \<Rightarrow> nat \<Rightarrow> nat \<Rightarrow> bool \<Rightarrow> (BmMemoman \<times> nat \<times> nat) option" where
  "align_bits bm curr_pos 0 what = Some (bm, curr_pos, 0)"
| "align_bits bm curr_pos (Suc n) what =
    (if curr_pos mod 8 \<noteq> 0
     then (case setof bm curr_pos what of None \<Rightarrow> None | Some (_, bm) \<Rightarrow> align_bits bm (curr_pos + 1) n what)
     else Some (bm, curr_pos, Suc n))"

fun fill_bytes :: "BmMemoman \<Rightarrow> nat \<Rightarrow> nat \<Rightarrow> bool \<Rightarrow> (BmMemoman \<times> nat \<times> nat) option" where
  "fill_bytes bm curr_pos n what =
    (if n < 8 then Some (bm, curr_pos, n)
     else if curr_pos div 8 < length (offs bm)
     then fill_bytes (bm\<lparr>offs := (offs bm)[curr_pos div 8 := (if what then 0xFF else 0)]\<rparr>) (curr_pos + 8) (n - 8) what
     else None)"

declare fill_bytes.simps [simp del]

text \<open>The search for the next available page, up to the end of the map.\<close>

function next_avail :: "BmMemoman \<Rightarrow> nat \<Rightarrow> nat option" where
  "next_avail bm p =
    (case bitof bm p of None \<Rightarrow> None
     | Some True \<Rightarrow> Some p
     | Some False \<Rightarrow> if p + 1 \<ge> bm_size bm * 8 then Some (p + 1) else next_avail bm (p + 1))"
  by pat_completeness auto
termination
  by (relation "measure (\<lambda>(bm, p). bm_size bm * 8 - p)") auto

declare next_avail.simps [simp del]

definition update_avail_pointer :: "BmMemoman \<Rightarrow> nat \<Rightarrow> nat \<Rightarrow> bool \<Rightarrow> BmMemoman option" where
  "update_avail_pointer bm head_pos last_pos what =
    (if what then Some (bm\<lparr>avail_pointer := min (avail_pointer bm) head_pos\<rparr>)
     else if avail_pointer bm = head_pos
     then map_option (\<lambda>p. bm\<lparr>avail_pointer := p\<rparr>) (next_avail bm last_pos)
     else Some bm)"

definition add_range :: "BmMemoman \<Rightarrow> nat \<Rightarrow> nat \<Rightarrow> bool \<Rightarrow> BmMemoman option" where
  "add_range bm head_pos last_pos what =
    (if head_pos \<ge> last_pos \<or> head_pos \<ge> page_cnt \<or> last_pos \<ge> page_cnt then Some bm
     else case align_bits bm head_pos (last_pos - head_pos) what of
       None \<Rightarrow> None
     | Some (bm, curr_pos, n) \<Rightarrow>
         (case fill_bytes bm curr_pos n what of
            None \<Rightarrow> None
          | Some (bm, curr_pos, n) \<Rightarrow>
              (case set_bits bm curr_pos n what of
                 None \<Rightarrow> None
               | Some bm \<Rightarrow> update_avail_pointer bm head_pos last_pos what)))"

section \<open>Counting and listing\<close>

text \<open>The loop of \<open>Count\<close>: the first argument counts the pages that are left.\<close>

fun count_loop :: "nat \<Rightarrow> BmMemoman \<Rightarrow> nat \<Rightarrow> bool \<Rightarrow> nat \<Rightarrow> nat \<Rightarrow> (bool \<times> nat \<times> nat) option" where
  "count_loop 0 bm i last_stat last_index ret = Some (last_stat, last_index, ret)"
| "count_loop (Suc n) bm i last_stat last_index ret =
    (case bitof bm i of None \<Rightarrow> None
     | Some b \<Rightarrow>
         if b \<noteq> last_stat
         then (if \<not> last_stat then count_loop n bm (i + 1) True i ret
               else count_loop n bm (i + 1) False last_index (ret + (i - last_index)))
         else count_loop n bm (i + 1) last_stat last_index ret)"

definition BmMemoman_Count :: "BmMemoman \<Rightarrow> nat option" where
  "BmMemoman_Count bm =
    (case count_loop page_cnt bm 0 False 0 0 of None \<Rightarrow> None
     | Some (last_stat, last_index, ret) \<Rightarrow>
         (let ret = (if last_stat then ret + (0x100000 - last_index) else ret) in Some (u64 (ret * 2 ^ 12))))"

text \<open>The ranges \<open>dump_avail_memory\<close> prints, as byte addresses.\<close>

fun dump_loop :: "nat \<Rightarrow> BmMemoman \<Rightarrow> nat \<Rightarrow> bool \<Rightarrow> nat \<Rightarrow> (nat \<times> nat) list \<Rightarrow> (bool \<times> nat \<times> (nat \<times> nat) list) option" where
  "dump_loop 0 bm i last_stat last_index out = Some (last_stat, last_index, out)"
| "dump_loop (Suc n) bm i last_stat last_index out =
    (case bitof bm i of None \<Rightarrow> None
     | Some b \<Rightarrow>
         if b \<noteq> last_stat
         then (if \<not> last_stat then dump_loop n bm (i + 1) True i out
               else dump_loop n bm (i + 1) False last_index (out @ [(last_index * 0x1000, i * 0x1000)]))
         else dump_loop n bm (i + 1) last_stat last_index out)"

definition dump_avail_memory :: "BmMemoman \<Rightarrow> (nat \<times> nat) list option" where
  "dump_avail_memory bm =
    (case dump_loop page_cnt bm 0 False 0 [] of None \<Rightarrow> None
     | Some (last_stat, last_index, out) \<Rightarrow>
         Some (if last_stat then out @ [(last_index * 0x1000, 0x100000000)] else out))"

section \<open>Bits\<close>

definition avail :: "BmMemoman \<Rightarrow> nat \<Rightarrow> bool" where
  "avail bm i \<longleftrightarrow> i < 8 * length (offs bm) \<and> bit (offs bm ! (i div 8)) (i mod 8)"

lemma bitof_avail: "bitof bm i = (if i < 8 * length (offs bm) then Some (avail bm i) else None)"
  by (auto simp: bitof_def avail_def bit_iff_odd_drop_bit and_one_eq odd_iff_mod_2_eq_one
      less_mult_imp_div_less mult.commute div_less_iff_less_mult)

lemma bit_flip: "j < 8 \<Longrightarrow> bit ((b :: byte) XOR push_bit k 1) j = (bit b j \<noteq> (j = k))"
  unfolding bit_xor_iff bit_push_bit_iff bit_1_iff by auto

lemma setof_spec:
  assumes "i < 8 * length (offs bm)"
  shows "\<exists>bm'. setof bm i src = Some (avail bm i, bm') \<and> length (offs bm') = length (offs bm) \<and>
    bm_size bm' = bm_size bm \<and> avail_pointer bm' = avail_pointer bm \<and>
    (\<forall>k. avail bm' k = (if k = i then src else avail bm k))"
proof (cases "avail bm i = src")
  case True
  then show ?thesis using assms by (auto simp: setof_def bitof_avail)
next
  case False
  let ?d = "i div 8" and ?m = "i mod 8"
  define bm' where "bm' = bm\<lparr>offs := (offs bm)[?d := offs bm ! ?d XOR push_bit ?m 1]\<rparr>"
  have d: "?d < length (offs bm)" using assms by (simp add: div_less_iff_less_mult mult.commute)
  have "avail bm' k = (if k = i then src else avail bm k)" for k
  proof (cases "k div 8 = ?d")
    case True
    then have "k mod 8 = ?m \<longleftrightarrow> k = i" by (metis div_mult_mod_eq)
    moreover have "k < 8 * length (offs bm)" using True d by (metis div_less_iff_less_mult mult.commute zero_less_numeral)
    ultimately show ?thesis
      using False True d assms bit_flip [of "k mod 8" "offs bm ! ?d" ?m] by (auto simp: avail_def bm'_def)
  next
    case False
    then show ?thesis by (auto simp: avail_def bm'_def)
  qed
  moreover have "setof bm i src = Some (avail bm i, bm')" using False assms by (simp add: setof_def bitof_avail bm'_def)
  ultimately show ?thesis by (simp add: bm'_def)
qed

lemma set_bits_spec:
  "p + n \<le> 8 * length (offs bm) \<Longrightarrow> \<exists>bm'. set_bits bm p n what = Some bm' \<and> length (offs bm') = length (offs bm) \<and>
    bm_size bm' = bm_size bm \<and> avail_pointer bm' = avail_pointer bm \<and>
    (\<forall>k. avail bm' k = (if p \<le> k \<and> k < p + n then what else avail bm k))"
proof (induction n arbitrary: bm p)
  case (Suc n)
  obtain bm1 where b: "setof bm p what = Some (avail bm p, bm1)" "length (offs bm1) = length (offs bm)"
    "bm_size bm1 = bm_size bm" "avail_pointer bm1 = avail_pointer bm" "\<forall>k. avail bm1 k = (if k = p then what else avail bm k)"
    using setof_spec [of p bm what] Suc.prems by auto
  obtain bm2 where "set_bits bm1 (p + 1) n what = Some bm2" "length (offs bm2) = length (offs bm1)"
    "bm_size bm2 = bm_size bm1" "avail_pointer bm2 = avail_pointer bm1"
    "\<forall>k. avail bm2 k = (if p + 1 \<le> k \<and> k < p + 1 + n then what else avail bm1 k)"
    using Suc.IH [of "p + 1" bm1] Suc.prems b(2) by auto
  with b show ?case by auto
qed auto

text \<open>What a change of the pages \<open>[p, p + n)\<close> leaves of a map.\<close>

definition changed :: "BmMemoman \<Rightarrow> nat \<Rightarrow> nat \<Rightarrow> bool \<Rightarrow> BmMemoman \<Rightarrow> bool" where
  "changed bm p n what bm' \<longleftrightarrow> length (offs bm') = length (offs bm) \<and> bm_size bm' = bm_size bm \<and>
     avail_pointer bm' = avail_pointer bm \<and> (\<forall>k. avail bm' k = (if p \<le> k \<and> k < p + n then what else avail bm k))"

lemma changed_none: "changed bm p 0 what bm"
  by (auto simp: changed_def)

lemma changed_append: "changed bm p n what bm1 \<Longrightarrow> changed bm1 (p + n) m what bm2 \<Longrightarrow> changed bm p (n + m) what bm2"
  by (auto simp: changed_def)

lemma set_bits_changed:
  "p + n \<le> 8 * length (offs bm) \<Longrightarrow> \<exists>bm'. set_bits bm p n what = Some bm' \<and> changed bm p n what bm'"
  using set_bits_spec [of p n bm what] by (auto simp: changed_def)

lemma align_bits_changed:
  "p + n \<le> 8 * length (offs bm) \<Longrightarrow> \<exists>bm' m. align_bits bm p n what = Some (bm', p + m, n - m) \<and> m \<le> n \<and>
    changed bm p m what bm' \<and> (m < n \<longrightarrow> (p + m) mod 8 = 0)"
proof (induction n arbitrary: bm p)
  case 0 then show ?case by (auto simp: changed_none)
next
  case (Suc n)
  show ?case
  proof (cases "p mod 8 = 0")
    case True then show ?thesis by (auto simp: changed_none intro: exI [of _ 0])
  next
    case False
    obtain bm1 where b: "setof bm p what = Some (avail bm p, bm1)" "changed bm p 1 what bm1"
      using setof_spec [of p bm what] Suc.prems by (force simp: changed_def)
    obtain bm2 m where m: "align_bits bm1 (p + 1) n what = Some (bm2, p + 1 + m, n - m)" "m \<le> n"
      "changed bm1 (p + 1) m what bm2" "m < n \<longrightarrow> (p + 1 + m) mod 8 = 0"
      using Suc.IH [of "p + 1" bm1] Suc.prems b(2) by (auto simp: changed_def)
    show ?thesis
      using False b(1) m changed_append [OF b(2) m(3)] by (intro exI [of _ bm2] exI [of _ "Suc m"]) auto
  qed
qed

lemma byte_full: "(0xFF :: byte) = mask 8"
  by (simp add: mask_eq_exp_minus_1)

lemma bit_full: "j < 8 \<Longrightarrow> bit (if what then 0xFF else 0 :: byte) j = what"
  unfolding byte_full by (cases what) (simp_all only: if_True if_False bit_mask_iff possible_bit_word bit_0_eq bot_apply, simp_all)

lemma fill_byte_changed:
  assumes "p mod 8 = 0" "p + 8 \<le> 8 * length (offs bm)"
  shows "changed bm p 8 what (bm\<lparr>offs := (offs bm)[p div 8 := (if what then 0xFF else 0)]\<rparr>)" (is "changed _ _ _ _ ?bm")
proof -
  have d: "p div 8 < length (offs bm)" using assms(2) by linarith
  obtain r where r: "p = 8 * r" using assms(1) by auto
  have in_byte: "8 * r \<le> k \<and> k < 8 * r + 8 \<longleftrightarrow> k div 8 = r" for k by linarith
  have "avail ?bm k = (if p \<le> k \<and> k < p + 8 then what else avail bm k)" for k
  proof (cases "k div 8 = p div 8")
    case True
    have "p \<le> k \<and> k < p + 8" using in_byte [of k] True r by simp
    moreover have "k < 8 * length (offs bm)" using True d by linarith
    moreover have "bit (if what then 0xFF else 0 :: byte) (k mod 8) = what" by (rule bit_full) simp
    ultimately show ?thesis using True d by (simp only: avail_def) simp
  next
    case False
    have "\<not> (p \<le> k \<and> k < p + 8)" using in_byte [of k] False r by simp
    then show ?thesis using False by (simp only: avail_def) simp
  qed
  then show ?thesis by (simp only: changed_def) simp
qed

lemma fill_bytes_changed:
  "p + n \<le> 8 * length (offs bm) \<Longrightarrow> (8 \<le> n \<longrightarrow> p mod 8 = 0) \<Longrightarrow>
   \<exists>bm' m. fill_bytes bm p n what = Some (bm', p + m, n - m) \<and> m \<le> n \<and> changed bm p m what bm'"
proof (induction n arbitrary: bm p rule: less_induct)
  case (less n)
  show ?case
  proof (cases "n < 8")
    case True
    then show ?thesis by (subst fill_bytes.simps) (auto simp: changed_none intro: exI [of _ 0])
  next
    case False
    let ?bm1 = "bm\<lparr>offs := (offs bm)[p div 8 := (if what then 0xFF else 0)]\<rparr>"
    have c: "changed bm p 8 what ?bm1" using False less.prems by (intro fill_byte_changed) auto
    have len: "length (offs ?bm1) = length (offs bm)" by simp
    obtain bm2 m where m: "fill_bytes ?bm1 (p + 8) (n - 8) what = Some (bm2, p + 8 + m, n - 8 - m)" "m \<le> n - 8"
      "changed ?bm1 (p + 8) m what bm2"
      using less.IH [of "n - 8" "p + 8" ?bm1] False less.prems unfolding len by (auto simp: mod_add_eq)
    have "p div 8 < length (offs bm)" using False less.prems(1) by linarith
    then have "fill_bytes bm p n what = Some (bm2, p + (8 + m), n - (8 + m))"
      using False m(1) by (subst fill_bytes.simps) (simp add: add.assoc)
    then show ?thesis using changed_append [OF c m(3)] m(2) False by (intro exI [of _ bm2] exI [of _ "8 + m"]) auto
  qed
qed

lemma next_avail_spec:
  assumes "bm_size bm = length (offs bm)" "p < 8 * length (offs bm)"
  shows "\<exists>q. next_avail bm p = Some q \<and> p \<le> q \<and> (\<forall>i. p \<le> i \<and> i < q \<longrightarrow> \<not> avail bm i) \<and>
    (avail bm q \<or> q = 8 * length (offs bm))"
  using assms
proof (induction bm p rule: next_avail.induct)
  case (1 bm p)
  show ?case
  proof (cases "avail bm p")
    case True
    then show ?thesis using "1.prems" by (subst next_avail.simps) (auto simp: bitof_avail)
  next
    case False
    show ?thesis
    proof (cases "p + 1 \<ge> bm_size bm * 8")
      case True
      then show ?thesis using False "1.prems" by (subst next_avail.simps) (auto simp: bitof_avail less_Suc_eq)
    next
      case no: False
      have b: "bitof bm p = Some False" using False "1.prems" by (simp add: bitof_avail)
      obtain q where q: "next_avail bm (p + 1) = Some q" "p + 1 \<le> q" "\<forall>i. p + 1 \<le> i \<and> i < q \<longrightarrow> \<not> avail bm i"
        "avail bm q \<or> q = 8 * length (offs bm)"
        using "1.IH" [OF b _ no] no "1.prems" by auto
      have "next_avail bm p = Some q" using b no q(1) by (subst next_avail.simps) simp
      moreover have "\<forall>i. p \<le> i \<and> i < q \<longrightarrow> \<not> avail bm i" using q(3) False by (metis Suc_eq_plus1 Suc_leI le_neq_implies_less)
      ultimately show ?thesis using q by auto
    qed
  qed
qed

lemma avail_pointer_irrelevant [simp]: "avail (bm\<lparr>avail_pointer := q\<rparr>) = avail bm"
  by (simp add: avail_def fun_eq_iff)

lemma add_range_spec:
  assumes "bm_size bm = length (offs bm)" "head_pos < last_pos" "last_pos < page_cnt" "last_pos < 8 * length (offs bm)"
  shows "\<exists>bm1 q. add_range bm head_pos last_pos what = Some (bm1\<lparr>avail_pointer := q\<rparr>) \<and>
    changed bm head_pos (last_pos - head_pos) what bm1 \<and>
    (if what then q = min (avail_pointer bm) head_pos
     else if avail_pointer bm = head_pos then last_pos \<le> q \<and> (\<forall>i. last_pos \<le> i \<and> i < q \<longrightarrow> \<not> avail bm1 i) \<and>
       (avail bm1 q \<or> q = 8 * length (offs bm))
     else q = avail_pointer bm)"
proof -
  let ?n = "last_pos - head_pos"
  have ln: "head_pos + ?n = last_pos" using assms(2) by simp
  have "head_pos + ?n \<le> 8 * length (offs bm)" using assms(4) ln by simp
  from align_bits_changed [OF this, of what]
  obtain bmA m where A: "align_bits bm head_pos ?n what = Some (bmA, head_pos + m, ?n - m)" "m \<le> ?n"
    "changed bm head_pos m what bmA" "m < ?n \<longrightarrow> (head_pos + m) mod 8 = 0" by (elim exE conjE) (rule that)
  have lenA: "length (offs bmA) = length (offs bm)" using A(3) by (simp add: changed_def)
  have "head_pos + m + (?n - m) \<le> 8 * length (offs bmA)" "8 \<le> ?n - m \<longrightarrow> (head_pos + m) mod 8 = 0"
    using A(2,4) assms(4) ln lenA by auto
  from fill_bytes_changed [OF this, of what]
  obtain bmB l where B: "fill_bytes bmA (head_pos + m) (?n - m) what = Some (bmB, head_pos + m + l, ?n - m - l)" "l \<le> ?n - m"
    "changed bmA (head_pos + m) l what bmB" by (elim exE conjE) (rule that)
  have lenB: "length (offs bmB) = length (offs bm)" using B(3) lenA by (simp add: changed_def)
  have "head_pos + m + l + (?n - m - l) \<le> 8 * length (offs bmB)" using A(2) B(2) assms(4) ln lenB by linarith
  from set_bits_changed [OF this, of what]
  obtain bmC where C: "set_bits bmB (head_pos + m + l) (?n - m - l) what = Some bmC"
    "changed bmB (head_pos + m + l) (?n - m - l) what bmC" by (elim exE conjE) (rule that)
  have "changed bm head_pos (m + l) what bmB" by (rule changed_append [OF A(3) B(3)])
  then have "changed bm head_pos (m + l + (?n - m - l)) what bmC"
    by (rule changed_append) (use C(2) in \<open>simp add: add.assoc\<close>)
  moreover have "m + l + (?n - m - l) = ?n" using A(2) B(2) by linarith
  ultimately have ch: "changed bm head_pos ?n what bmC" by simp
  have eq: "add_range bm head_pos last_pos what = update_avail_pointer bmC head_pos last_pos what"
    using assms(2,3) A(1) B(1) C(1) by (simp add: add_range_def)
  have f: "bm_size bmC = length (offs bmC)" "last_pos < 8 * length (offs bmC)" "length (offs bmC) = length (offs bm)"
    "avail_pointer bmC = avail_pointer bm" using ch assms(1,4) by (simp_all add: changed_def)
  have keep: "bmC = bmC\<lparr>avail_pointer := avail_pointer bm\<rparr>" using f(4) by simp
  show ?thesis
  proof (cases what)
    case True
    then show ?thesis unfolding eq using ch f(4) by (auto simp: update_avail_pointer_def)
  next
    case w: False
    show ?thesis
    proof (cases "avail_pointer bm = head_pos")
      case True
      then show ?thesis unfolding eq using next_avail_spec [OF f(1,2)] ch w f(3,4)
        by (fastforce simp: update_avail_pointer_def)
    next
      case False
      then have "add_range bm head_pos last_pos what = Some (bmC\<lparr>avail_pointer := avail_pointer bm\<rparr>)"
        unfolding eq using w f(4) keep by (simp add: update_avail_pointer_def)
      then show ?thesis using ch w False by auto
    qed
  qed
qed

section \<open>Sequences of calls\<close>

definition bm_ok :: "BmMemoman \<Rightarrow> bool" where
  "bm_ok bm \<longleftrightarrow> bm_size bm = length (offs bm) \<and> page_cnt \<le> 8 * length (offs bm)"

definition bm_lower :: "BmMemoman \<Rightarrow> bool" where
  "bm_lower bm \<longleftrightarrow> (\<forall>i. avail bm i \<longrightarrow> avail_pointer bm \<le> i)"

text \<open>What one call asks of page \<open>i\<close>; a call that fails the check of the range asks nothing.\<close>

definition page_after :: "nat \<Rightarrow> nat \<times> nat \<times> bool \<Rightarrow> bool \<Rightarrow> bool" where
  "page_after i call b = (case call of (head_pos, last_pos, what) \<Rightarrow>
     if head_pos \<le> i \<and> i < last_pos \<and> last_pos < page_cnt then what else b)"

fun add_ranges :: "(nat \<times> nat \<times> bool) list \<Rightarrow> BmMemoman \<Rightarrow> BmMemoman option" where
  "add_ranges [] bm = Some bm"
| "add_ranges ((head_pos, last_pos, what) # calls) bm =
    (case add_range bm head_pos last_pos what of None \<Rightarrow> None | Some bm \<Rightarrow> add_ranges calls bm)"

lemma add_range_ok:
  assumes "bm_ok bm"
  shows "\<exists>bm'. add_range bm h l w = Some bm' \<and> bm_ok bm' \<and> (\<forall>i. avail bm' i = page_after i (h, l, w) (avail bm i)) \<and>
    (bm_lower bm \<longrightarrow> bm_lower bm')"
proof (cases "h < l \<and> l < page_cnt")
  case False
  then have "add_range bm h l w = Some bm" by (auto simp: add_range_def)
  then show ?thesis using assms False by (auto simp: page_after_def)
next
  case True
  have len: "bm_size bm = length (offs bm)" "l < 8 * length (offs bm)" using assms True by (auto simp: bm_ok_def)
  obtain bm1 q where q: "add_range bm h l w = Some (bm1\<lparr>avail_pointer := q\<rparr>)" "changed bm h (l - h) w bm1"
    "if w then q = min (avail_pointer bm) h
     else if avail_pointer bm = h then l \<le> q \<and> (\<forall>i. l \<le> i \<and> i < q \<longrightarrow> \<not> avail bm1 i) \<and>
       (avail bm1 q \<or> q = 8 * length (offs bm))
     else q = avail_pointer bm"
    using add_range_spec [OF len(1) _ _ len(2)] True by metis
  have av: "\<forall>i. avail bm1 i = (if h \<le> i \<and> i < l then w else avail bm i)" using q(2) True by (auto simp: changed_def)
  have ok: "bm_ok (bm1\<lparr>avail_pointer := q\<rparr>)" using assms q(2) by (auto simp: bm_ok_def changed_def)
  have "bm_lower (bm1\<lparr>avail_pointer := q\<rparr>)" if "bm_lower bm"
  proof (cases w)
    case True
    then show ?thesis using that q(3) av by (fastforce simp: bm_lower_def)
  next
    case False
    have "q \<le> i" if i: "avail bm1 i" for i
    proof -
      have out: "\<not> (h \<le> i \<and> i < l)" and old: "avail bm i" using i av False by (auto split: if_splits)
      have "avail_pointer bm \<le> i" using \<open>bm_lower bm\<close> old by (simp add: bm_lower_def)
      then show ?thesis using q(3) False out i by (metis not_le_imp_less)
    qed
    then show ?thesis by (simp add: bm_lower_def)
  qed
  then show ?thesis using q(1) ok av True by (auto simp: page_after_def)
qed

lemma add_ranges_ok:
  "bm_ok bm \<Longrightarrow> \<exists>bm'. add_ranges calls bm = Some bm' \<and> bm_ok bm' \<and>
     (\<forall>i. avail bm' i = fold (page_after i) calls (avail bm i)) \<and> (bm_lower bm \<longrightarrow> bm_lower bm')"
proof (induction calls arbitrary: bm)
  case (Cons c calls)
  obtain h l w where c: "c = (h, l, w)" by (cases c) auto
  obtain bm1 where b: "add_range bm h l w = Some bm1" "bm_ok bm1" "\<forall>i. avail bm1 i = page_after i (h, l, w) (avail bm i)"
    "bm_lower bm \<longrightarrow> bm_lower bm1"
    using add_range_ok [OF Cons.prems, of h l w] by (elim exE conjE) (rule that)
  show ?case using Cons.IH [OF b(2)] b(1,3,4) unfolding c by auto
qed simp

section \<open>Counting\<close>

lemma count_loop_spec:
  "i + n \<le> 8 * length (offs bm) \<Longrightarrow> (ls \<longrightarrow> li \<le> i) \<Longrightarrow>
   \<exists>ls' li' r'. count_loop n bm i ls li r = Some (ls', li', r') \<and> (ls' \<longrightarrow> li' \<le> i + n) \<and>
     r' + (if ls' then i + n - li' else 0) =
     r + (if ls then i - li else 0) + length (filter (avail bm) [i..<i + n])"
proof (induction n arbitrary: i ls li r)
  case (Suc n)
  have b: "bitof bm i = Some (avail bm i)" using Suc.prems(1) by (simp add: bitof_avail)
  have up: "[i..<i + Suc n] = i # [i + 1..<i + 1 + n]" by (subst upt_conv_Cons) auto
  define li1 where "li1 = (if avail bm i \<and> \<not> ls then i else li)"
  define r1 where "r1 = (if ls \<and> \<not> avail bm i then r + (i - li) else r)"
  have step: "count_loop (Suc n) bm i ls li r = count_loop n bm (i + 1) (avail bm i) li1 r1"
    using b by (auto simp: li1_def r1_def)
  have li: "avail bm i \<longrightarrow> li1 \<le> i + 1" using Suc.prems(2) by (auto simp: li1_def)
  have n: "i + 1 + n \<le> 8 * length (offs bm)" using Suc.prems(1) by simp
  from Suc.IH [OF n li, of r1] obtain ls' li' r' where r: "count_loop n bm (i + 1) (avail bm i) li1 r1 = Some (ls', li', r')"
    "ls' \<longrightarrow> li' \<le> i + 1 + n"
    "r' + (if ls' then i + 1 + n - li' else 0) =
      r1 + (if avail bm i then i + 1 - li1 else 0) + length (filter (avail bm) [i + 1..<i + 1 + n])"
    by (elim exE conjE) (rule that)
  have "r1 + (if avail bm i then i + 1 - li1 else 0) = r + (if ls then i - li else 0) + (if avail bm i then 1 else 0)"
    using Suc.prems(2) by (auto simp: r1_def li1_def)
  moreover have "length (filter (avail bm) [i..<i + Suc n]) =
      (if avail bm i then 1 else 0) + length (filter (avail bm) [i + 1..<i + 1 + n])"
    unfolding up by simp
  ultimately have "r' + (if ls' then i + Suc n - li' else 0) =
      r + (if ls then i - li else 0) + length (filter (avail bm) [i..<i + Suc n])"
    using r(3) by (simp only: add_Suc_right add_Suc Suc_eq_plus1 add.assoc add.commute [of 1] add.left_commute)
  then show ?case using r(1,2) unfolding step by - (rule exI [of _ ls'], rule exI [of _ li'], rule exI [of _ r'], simp del: upt_Suc)
qed simp

text \<open>The pages of a list of byte ranges.\<close>

definition in_ranges :: "(nat \<times> nat) list \<Rightarrow> nat \<Rightarrow> bool" where
  "in_ranges out a \<longleftrightarrow> (\<exists>(x, y) \<in> set out. x \<le> a \<and> a < y)"

lemma dump_loop_spec:
  "i + n \<le> 8 * length (offs bm) \<Longrightarrow> (ls \<longrightarrow> li \<le> i) \<Longrightarrow>
   \<exists>ls' li' out'. dump_loop n bm i ls li out = Some (ls', li', out') \<and> (ls' \<longrightarrow> li' \<le> i + n) \<and>
     (\<forall>a. in_ranges out' a \<or> (ls' \<and> li' * 0x1000 \<le> a \<and> a < (i + n) * 0x1000) \<longleftrightarrow>
        in_ranges out a \<or> (ls \<and> li * 0x1000 \<le> a \<and> a < i * 0x1000) \<or>
        (i * 0x1000 \<le> a \<and> a < (i + n) * 0x1000 \<and> avail bm (a div 0x1000)))"
proof (induction n arbitrary: i ls li out)
  case (Suc n)
  have b: "bitof bm i = Some (avail bm i)" using Suc.prems(1) by (simp add: bitof_avail)
  define ls1 where "ls1 = avail bm i"
  define li1 where "li1 = (if avail bm i \<and> \<not> ls then i else li)"
  define out1 where "out1 = (if ls \<and> \<not> avail bm i then out @ [(li * 0x1000, i * 0x1000)] else out)"
  have step: "dump_loop (Suc n) bm i ls li out = dump_loop n bm (i + 1) ls1 li1 out1"
    using b by (auto simp: ls1_def li1_def out1_def)
  have "ls1 \<longrightarrow> li1 \<le> i + 1" using Suc.prems(2) by (auto simp: ls1_def li1_def)
  then obtain ls' li' out' where r: "dump_loop n bm (i + 1) ls1 li1 out1 = Some (ls', li', out')" "ls' \<longrightarrow> li' \<le> i + 1 + n"
    and cov: "\<forall>a. in_ranges out' a \<or> (ls' \<and> li' * 0x1000 \<le> a \<and> a < (i + 1 + n) * 0x1000) \<longleftrightarrow>
        in_ranges out1 a \<or> (ls1 \<and> li1 * 0x1000 \<le> a \<and> a < (i + 1) * 0x1000) \<or>
        ((i + 1) * 0x1000 \<le> a \<and> a < (i + 1 + n) * 0x1000 \<and> avail bm (a div 0x1000))"
    using Suc.IH [of "i + 1" ls1 li1 out1] Suc.prems(1) by auto
  have page: "i * 0x1000 \<le> a \<Longrightarrow> a < (i + 1) * 0x1000 \<Longrightarrow> a div 0x1000 = i" for a by (rule div_nat_eqI) auto
  have "in_ranges out1 a \<or> (ls1 \<and> li1 * 0x1000 \<le> a \<and> a < (i + 1) * 0x1000) \<or>
        ((i + 1) * 0x1000 \<le> a \<and> a < (i + 1 + n) * 0x1000 \<and> avail bm (a div 0x1000)) \<longleftrightarrow>
        in_ranges out a \<or> (ls \<and> li * 0x1000 \<le> a \<and> a < i * 0x1000) \<or>
        (i * 0x1000 \<le> a \<and> a < (i + Suc n) * 0x1000 \<and> avail bm (a div 0x1000))" for a
  proof -
    have "li * 0x1000 \<le> i * 0x1000" if "ls" using Suc.prems(2) that by simp
    moreover have "a < (i + 1) * 0x1000 \<or> (i + 1) * 0x1000 \<le> a" "(i + Suc n) * 0x1000 = (i + 1 + n) * 0x1000"
      "(i + 1) * 0x1000 \<le> (i + 1 + n) * 0x1000" "i * 0x1000 < (i + 1) * (0x1000::nat)" by auto
    ultimately show ?thesis using page [of a]
      unfolding ls1_def li1_def out1_def in_ranges_def by (cases "avail bm i"; cases ls) (auto simp del: add_mult_distrib)
  qed
  then show ?case using cov r by (intro exI [of _ ls'] exI [of _ li'] exI [of _ out']) (simp del: dump_loop.simps add: step)
qed (auto simp: in_ranges_def)

section \<open>Properties\<close>

definition bm_zero :: "nat \<Rightarrow> BmMemoman" where
  "bm_zero n = new_BmMemoman (replicate n 0) n"

lemma bm_zero_ok: "page_cnt \<le> 8 * n \<Longrightarrow> bm_ok (bm_zero n)"
  by (simp add: bm_ok_def bm_zero_def new_BmMemoman_def)

lemma bm_zero_empty [simp]: "\<not> avail (bm_zero n) i"
proof -
  have "i < 8 * n \<Longrightarrow> i div 8 < n" by linarith
  then show ?thesis by (auto simp: avail_def bm_zero_def new_BmMemoman_def)
qed

text \<open>
  C22. Every sequence of calls of \<open>add_range\<close> on a map that covers the \<open>0x100000\<close> pages stays inside the
  map's bytes and leaves page \<open>i\<close> with what the last call with a legal range around \<open>i\<close> asked for
  (\<open>page_after\<close>), untouched when there is none: the loop over the bits before the first whole byte,
  the whole bytes, and the bits after them meet exactly at the ends of the range. From the empty map
  on, \<open>avail_pointer\<close> never lies above an available page: adding a range lowers it to the range's head,
  and removing the range it points to moves it only over pages that are not available, so a search
  that starts at it misses none.
\<close>

theorem bitmap_ranges_exact:
  assumes "bm_ok bm"
  shows "\<exists>bm'. add_ranges calls bm = Some bm' \<and> (\<forall>i. avail bm' i = fold (page_after i) calls (avail bm i)) \<and>
    (bm = bm_zero n \<longrightarrow> (\<forall>i. avail bm' i \<longrightarrow> avail_pointer bm' \<le> i))"
proof -
  obtain bm' where b: "add_ranges calls bm = Some bm'" "\<forall>i. avail bm' i = fold (page_after i) calls (avail bm i)"
    "bm_lower bm \<longrightarrow> bm_lower bm'" using add_ranges_ok [OF assms, of calls] by (elim exE conjE) (rule that)
  have "bm_lower (bm_zero n)" by (simp add: bm_lower_def)
  then have "bm = bm_zero n \<longrightarrow> (\<forall>i. avail bm' i \<longrightarrow> avail_pointer bm' \<le> i)" using b(3) by (auto simp: bm_lower_def)
  then show ?thesis using b(1,2) by (intro exI [of _ bm'] conjI)
qed

theorem bitmap_ranges_exact_witness:
  "\<exists>bm'. add_ranges [(3, 21, True), (3, 9, False)] (bm_zero page_cnt) = Some bm' \<and>
     avail bm' 9 \<and> avail bm' 20 \<and> \<not> avail bm' 3 \<and> \<not> avail bm' 8 \<and> \<not> avail bm' 21 \<and> avail_pointer bm' \<le> 9"
  using bitmap_ranges_exact [of "bm_zero page_cnt" "[(3, 21, True), (3, 9, False)]" page_cnt]
  by (auto simp: bm_zero_ok page_after_def page_cnt_def)

text \<open>
  \<open>Count\<close> returns the number of bytes of the available pages, and \<open>dump_avail_memory\<close> lists ranges
  that hold exactly the addresses of those pages: both loops close the run that reaches the last page.
\<close>

lemma bitmap_count_and_dump:
  assumes "bm_ok bm"
  shows "BmMemoman_Count bm = Some (4096 * length (filter (avail bm) [0..<page_cnt])) \<and>
    (\<exists>out. dump_avail_memory bm = Some out \<and>
       (\<forall>a. in_ranges out a \<longleftrightarrow> a < 4096 * page_cnt \<and> avail bm (a div 4096)))"
proof
  have len: "0 + page_cnt \<le> 8 * length (offs bm)" using assms by (simp add: bm_ok_def)
  have pc: "page_cnt = 0x100000" by (simp add: page_cnt_def)
  have start: "False \<longrightarrow> (0 :: nat) \<le> 0" by simp
  from count_loop_spec [OF len start, of 0]
  obtain ls li r where c: "count_loop page_cnt bm 0 False 0 0 = Some (ls, li, r)"
    "r + (if ls then 0 + page_cnt - li else 0) =
      0 + (if False then 0 - 0 else 0) + length (filter (avail bm) [0..<0 + page_cnt])"
    by (elim exE conjE) (rule that)
  have "length (filter (avail bm) [0..<page_cnt]) \<le> length [0..<page_cnt]" by (rule length_filter_le)
  then have "length (filter (avail bm) [0..<page_cnt]) * 2 ^ 12 < 2 ^ 64" by (simp add: pc)
  then have "u64 (length (filter (avail bm) [0..<page_cnt]) * 2 ^ 12) = 4096 * length (filter (avail bm) [0..<page_cnt])"
    by (simp add: u64_def)
  moreover have "(if ls then r + (0x100000 - li) else r) = length (filter (avail bm) [0..<page_cnt])"
    using c(2) by (simp add: pc split: if_splits)
  ultimately show "BmMemoman_Count bm = Some (4096 * length (filter (avail bm) [0..<page_cnt]))"
    by (simp add: BmMemoman_Count_def c(1) Let_def)
  from dump_loop_spec [OF len start, of "[]"]
  obtain ls' li' out' where d: "dump_loop page_cnt bm 0 False 0 [] = Some (ls', li', out')"
    "\<forall>a. in_ranges out' a \<or> (ls' \<and> li' * 0x1000 \<le> a \<and> a < (0 + page_cnt) * 0x1000) \<longleftrightarrow>
        in_ranges [] a \<or> (False \<and> 0 * 0x1000 \<le> a \<and> a < 0 * 0x1000) \<or>
        (0 * 0x1000 \<le> a \<and> a < (0 + page_cnt) * 0x1000 \<and> avail bm (a div 0x1000))"
    by (elim exE conjE) (rule that)
  have "dump_avail_memory bm = Some (if ls' then out' @ [(li' * 0x1000, 0x100000000)] else out')"
    by (simp add: dump_avail_memory_def d(1))
  moreover have "in_ranges (if ls' then out' @ [(li' * 0x1000, 0x100000000)] else out') a \<longleftrightarrow>
      a < 4096 * page_cnt \<and> avail bm (a div 4096)" for a
    using d(2) [rule_format, of a] by (auto simp: in_ranges_def pc)
  ultimately show "\<exists>out. dump_avail_memory bm = Some out \<and>
       (\<forall>a. in_ranges out a \<longleftrightarrow> a < 4096 * page_cnt \<and> avail bm (a div 4096))" by blast
qed

lemma bitmap_count_and_dump_example:
  "BmMemoman_Count (bm_zero page_cnt) = Some 0 \<and> (\<exists>out. dump_avail_memory (bm_zero page_cnt) = Some out \<and> (\<forall>a. \<not> in_ranges out a))"
  using bitmap_count_and_dump [of "bm_zero page_cnt"] by (auto simp: bm_zero_ok)

end
