(* ===== verification/Unicode.thy ===== *)
theory Unicode
  imports Prelude
begin

text \<open>
  The conversion of UTF-8 text: \<open>src/lib/cpp/Datype/Charset/Unicode.cpp\<close>. The text is a byte list; the
  units a conversion writes are a list of natural numbers (16 or 32 bits each), and \<open>None\<close> is the
  return value \<open>NONE\<close>. It is shown that exactly the well-formed texts are converted, each to the
  encoding of its code points, and that the scanners agree with the encoding.
\<close>

section \<open>The decoder\<close>

text \<open>The local variables of \<open>CscFromUTF8\<close>; \<open>des\<close> holds the units written so far.\<close>

record utf_state =
  dlen :: nat
  expected :: nat
  uv :: nat
  vmin :: nat
  des :: "nat list"

definition hand_8to16 :: "utf_state \<Rightarrow> utf_state option" where
  "hand_8to16 s =
    (if uv s < vmin s \<or> uv s > 0x10FFFF \<or> (uv s \<ge> 0xD800 \<and> uv s \<le> 0xDFFF) then None
     else if uv s > 0xFFFF
     then (let w = uv s - 0x10000 in
           Some (s\<lparr>uv := w, des := des s @ [w div 2 ^ 10 + 0xD800, w mod 2 ^ 10 + 0xDC00], dlen := dlen s + 2 * 2\<rparr>))
     else Some (s\<lparr>des := des s @ [uv s], dlen := dlen s + 2\<rparr>))"

definition hand_8to32 :: "utf_state \<Rightarrow> utf_state option" where
  "hand_8to32 s =
    (if uv s < vmin s \<or> (uv s \<ge> 0xD800 \<and> uv s \<le> 0xDFFF) then None
     else Some (s\<lparr>des := des s @ [uv s], dlen := dlen s + 4\<rparr>))"

definition utf_emit :: "nat \<Rightarrow> utf_state \<Rightarrow> utf_state option" where
  "utf_emit to s = (if to = 16 then hand_8to16 s else hand_8to32 s)"

definition utf_unit :: "nat \<Rightarrow> nat" where
  "utf_unit to = (if to = 16 then 2 else 4)"

definition utf8_lead :: "nat \<Rightarrow> nat \<Rightarrow> utf_state \<Rightarrow> utf_state option" where
  "utf8_lead to ch s =
    (if ch < 0x80 then Some (s\<lparr>des := des s @ [ch], dlen := dlen s + utf_unit to\<rparr>)
     else if ch < 0xC0 \<or> ch \<ge> 0xFE then None
     else if ch < 0xE0 then Some (s\<lparr>uv := ch mod 0x20, expected := 1, vmin := 0x80\<rparr>)
     else if ch < 0xF0 then Some (s\<lparr>uv := ch mod 0x10, expected := 2, vmin := 0x800\<rparr>)
     else if ch < 0xF8 then Some (s\<lparr>uv := ch mod 0x08, expected := 3, vmin := 0x10000\<rparr>)
     else if ch < 0xFC then Some (s\<lparr>uv := ch mod 0x04, expected := 4, vmin := 0x200000\<rparr>)
     else Some (s\<lparr>uv := ch mod 0x02, expected := 5, vmin := 0x4000000\<rparr>))"

definition utf8_next :: "nat \<Rightarrow> nat \<Rightarrow> utf_state \<Rightarrow> utf_state option" where
  "utf8_next to ch s =
    (if ch div 0x40 = 2
     then (let s = s\<lparr>uv := (uv s * 2 ^ 6 + ch mod 0x40) mod 2 ^ 32, expected := expected s - 1\<rparr> in
           if expected s = 0 then utf_emit to s else Some s)
     else None)"

fun utf8_loop :: "nat \<Rightarrow> byte list \<Rightarrow> utf_state \<Rightarrow> utf_state option" where
  "utf8_loop to [] s = Some s"
| "utf8_loop to (b # bs) s =
    (case (if expected s \<noteq> 0 then utf8_next to (unat b) s else utf8_lead to (unat b) s) of
       None \<Rightarrow> None
     | Some s \<Rightarrow> utf8_loop to bs s)"

definition utf_start :: utf_state where
  "utf_start = \<lparr>dlen = 0, expected = 0, uv = 0, vmin = 0, des = []\<rparr>"

definition CscFromUTF8 :: "byte list \<Rightarrow> nat \<Rightarrow> (nat \<times> nat list) option" where
  "CscFromUTF8 src to =
    (if to \<noteq> 16 \<and> to \<noteq> 32 then None
     else case utf8_loop to src utf_start of
       None \<Rightarrow> None
     | Some s \<Rightarrow> if expected s \<noteq> 0 then None else Some (dlen s, des s))"

text \<open>
  \<open>CscUTF\<close>: the number it returns and the units in the destination. The text is converted twice, the
  first time only to count when there is no destination yet.
\<close>

definition CscUTF :: "nat \<Rightarrow> nat \<Rightarrow> byte list option \<Rightarrow> (nat \<times> nat list) option" where
  "CscUTF from_set to src =
    (case src of None \<Rightarrow> None
     | Some t \<Rightarrow>
         if from_set = to then Some (length t, [])
         else if from_set = 8 then (case CscFromUTF8 t to of None \<Rightarrow> None | Some _ \<Rightarrow> CscFromUTF8 t to)
         else None)"

section \<open>Scanning\<close>

text \<open>\<open>src\<close> is the memory from the pointer on; a read after its end is \<open>None\<close>.\<close>

definition ScanUTF8 :: "byte list \<Rightarrow> nat option" where
  "ScanUTF8 src =
    (case src of [] \<Rightarrow> None
     | b # _ \<Rightarrow>
         (let ch = unat b in
          if ch < 0x80 then Some 1
          else if ch < 0xC0 \<or> ch \<ge> 0xFE then None
          else if ch < 0xE0 then Some 2
          else if ch < 0xF0 then Some 3
          else if ch < 0xF8 then Some 4
          else if ch < 0xFC then Some 5
          else if ch < 0xFE then Some 6
          else None))"

definition RuneWidth :: "nat \<Rightarrow> nat" where
  "RuneWidth rune =
    (if rune \<ge> 0x1100 \<and> rune \<le> 0x115F then 2
     else if rune \<ge> 0x2E80 \<and> rune \<le> 0x303E then 2
     else if rune \<ge> 0x3041 \<and> rune \<le> 0x33FF then 2
     else if rune \<ge> 0x3400 \<and> rune \<le> 0x4DBF then 2
     else if rune \<ge> 0x4E00 \<and> rune \<le> 0x9FFF then 2
     else if rune \<ge> 0xA000 \<and> rune \<le> 0xA4CF then 2
     else if rune \<ge> 0xAC00 \<and> rune \<le> 0xD7A3 then 2
     else if rune \<ge> 0xF900 \<and> rune \<le> 0xFAFF then 2
     else if rune \<ge> 0xFE30 \<and> rune \<le> 0xFE6F then 2
     else if rune \<ge> 0xFF00 \<and> rune \<le> 0xFF60 then 2
     else if rune \<ge> 0xFFE0 \<and> rune \<le> 0xFFE6 then 2
     else if rune \<ge> 0x1F300 \<and> rune \<le> 0x1F64F then 2
     else if rune \<ge> 0x1F900 \<and> rune \<le> 0x1F9FF then 2
     else if rune \<ge> 0x20000 \<and> rune \<le> 0x3FFFD then 2
     else 1)"

fun scan_rune :: "nat \<Rightarrow> byte list \<Rightarrow> nat \<Rightarrow> nat option" where
  "scan_rune 0 src rune = Some rune"
| "scan_rune (Suc n) [] rune = None"
| "scan_rune (Suc n) (b # bs) rune =
    (if unat b div 0x40 \<noteq> 2 then None
     else scan_rune n bs ((rune * 2 ^ 6 + unat b mod 0x40) mod 2 ^ 32))"

definition ScanUTF8Width :: "byte list \<Rightarrow> nat option" where
  "ScanUTF8Width src =
    (case ScanUTF8 src of
       None \<Rightarrow> None
     | Some len \<Rightarrow>
         if len = 1 then Some (RuneWidth (unat (hd src)))
         else map_option RuneWidth (scan_rune (len - 1) (tl src) (unat (hd src) mod (0xFF div 2 ^ (len + 1) + 1))))"

section \<open>The encoding\<close>

text \<open>
  UTF-8 with up to six bytes: the number of continuation bytes, the mark of the first byte, and the
  \<open>k\<close>-th group of six bits; and the units a code point becomes.
\<close>

definition utf8_tail :: "nat \<Rightarrow> nat" where
  "utf8_tail cp = (if cp < 0x80 then 0 else if cp < 0x800 then 1 else if cp < 0x10000 then 2
     else if cp < 0x200000 then 3 else if cp < 0x4000000 then 4 else 5)"

definition utf8_mark :: "nat \<Rightarrow> nat" where
  "utf8_mark k = [0, 0xC0, 0xE0, 0xF0, 0xF8, 0xFC] ! k"

definition cont :: "nat \<Rightarrow> nat \<Rightarrow> byte" where
  "cont cp k = of_nat (0x80 + cp div 64 ^ k mod 64)"

definition utf8 :: "nat \<Rightarrow> byte list" where
  "utf8 cp = (let k = utf8_tail cp in of_nat (utf8_mark k + cp div 64 ^ k) # map (cont cp) (rev [0..<k]))"

definition utf16 :: "nat \<Rightarrow> nat list" where
  "utf16 cp = (if cp < 0x10000 then [cp] else [0xD800 + (cp - 0x10000) div 0x400, 0xDC00 + (cp - 0x10000) mod 0x400])"

definition utf_units :: "nat \<Rightarrow> nat \<Rightarrow> nat list" where
  "utf_units to cp = (if to = 16 then utf16 cp else [cp])"

definition code_point :: "nat \<Rightarrow> nat \<Rightarrow> bool" where
  "code_point to cp \<longleftrightarrow> \<not> (0xD800 \<le> cp \<and> cp \<le> 0xDFFF) \<and> cp < (if to = 16 then 0x110000 else 2 ^ 31)"

lemma unat_cont [simp]: "unat (cont cp k) = 0x80 + cp div 64 ^ k mod 64"
proof -
  have "cp div 64 ^ k mod 64 < 64" by simp
  then have "0x80 + cp div 64 ^ k mod 64 < 256" by linarith
  then show ?thesis unfolding cont_def unsigned_of_nat take_bit_eq_mod by simp
qed

lemma cont_bits: "unat (cont cp k) div 0x40 = 2" "unat (cont cp k) mod 0x40 = cp div 64 ^ k mod 64"
proof -
  have x: "(0x80 + x) div 0x40 = 2 \<and> (0x80 + x) mod 0x40 = x" if "x < 64" for x :: nat
  proof
    show "(0x80 + x) div 0x40 = 2" using that by (intro div_nat_eqI) auto
    show "(0x80 + x) mod 0x40 = x" using that mod_mult_self3 [of 2 "0x40" x] by simp
  qed
  have "cp div 64 ^ k mod 64 < 64" by simp
  from x [OF this] show "unat (cont cp k) div 0x40 = 2" "unat (cont cp k) mod 0x40 = cp div 64 ^ k mod 64"
    unfolding unat_cont by blast+
qed

lemma div_step: "cp div 64 ^ Suc k * 2 ^ 6 + cp div 64 ^ k mod 64 = (cp :: nat) div 64 ^ k"
proof -
  have "cp div 64 ^ Suc k = cp div 64 ^ k div 64" by (simp only: power_Suc2 div_mult2_eq)
  then show ?thesis by simp
qed

lemma cont_byte: "unat (b :: byte) div 0x40 = 2 \<Longrightarrow> v div 64 ^ k = u * 2 ^ 6 + unat b mod 0x40 \<Longrightarrow> b = cont v k"
proof -
  assume b: "unat b div 0x40 = 2" and v: "v div 64 ^ k = u * 2 ^ 6 + unat b mod 0x40"
  have "unat b = 0x80 + unat b mod 0x40" using b by (metis div_mult_mod_eq mult_2_right numeral_Bit0 add.commute mult.commute mult_numeral_1_right)
  moreover have "v div 64 ^ k mod 64 = unat b mod 0x40" unfolding v by simp
  ultimately have "unat b = unat (cont v k)" by simp
  then show ?thesis by (simp only: word_unat_eq_iff)
qed

section \<open>Conversion\<close>

lemma utf8_next_cont:
  assumes "cp < 2 ^ 31" "expected s = Suc k" "uv s = cp div 64 ^ Suc k"
  shows "utf8_next to (unat (cont cp k)) s =
    (let s = s\<lparr>uv := cp div 64 ^ k, expected := k\<rparr> in if k = 0 then utf_emit to s else Some s)"
proof -
  have "cp div 64 ^ k < 2 ^ 31" using assms(1) by (rule le_less_trans [OF div_le_dividend])
  then have "cp div 64 ^ k < 2 ^ 32" by (rule less_trans) simp
  then have "(uv s * 2 ^ 6 + cp div 64 ^ k mod 64) mod 2 ^ 32 = cp div 64 ^ k"
    unfolding assms(3) div_step by (rule mod_less)
  then show ?thesis unfolding utf8_next_def cont_bits using assms(2) by (simp del: unat_cont)
qed

lemma utf8_loop_conts:
  "cp < 2 ^ 31 \<Longrightarrow> expected s = Suc k \<Longrightarrow> uv s = cp div 64 ^ Suc k \<Longrightarrow>
   utf8_loop to (map (cont cp) (rev [0..<Suc k]) @ rest) s =
     (case utf_emit to (s\<lparr>uv := cp, expected := 0\<rparr>) of None \<Rightarrow> None | Some s1 \<Rightarrow> utf8_loop to rest s1)"
proof (induction k arbitrary: s)
  case 0
  then show ?case using utf8_next_cont [OF 0] by (simp del: unat_cont)
next
  case (Suc k)
  let ?s = "s\<lparr>uv := cp div 64 ^ Suc k, expected := Suc k\<rparr>"
  have "utf8_next to (unat (cont cp (Suc k))) s = Some ?s" using utf8_next_cont [OF Suc.prems] by simp
  then have "utf8_loop to (map (cont cp) (rev [0..<Suc (Suc k)]) @ rest) s =
      utf8_loop to (map (cont cp) (rev [0..<Suc k]) @ rest) ?s"
    using Suc.prems(2) by (simp del: unat_cont)
  then show ?case using Suc.IH [of ?s] Suc.prems(1) by simp
qed

lemma utf8_loop_conts_inv:
  "expected s = Suc k \<Longrightarrow> (uv s + 1) * 64 ^ Suc k \<le> 2 ^ 31 \<Longrightarrow> utf8_loop to bs s = Some s' \<Longrightarrow> expected s' = 0 \<Longrightarrow>
   \<exists>v rest s1. bs = map (cont v) (rev [0..<Suc k]) @ rest \<and> v div 64 ^ Suc k = uv s \<and>
     utf_emit to (s\<lparr>uv := v, expected := 0\<rparr>) = Some s1 \<and> utf8_loop to rest s1 = Some s'"
proof (induction k arbitrary: s bs)
  case (0 s bs)
  obtain b rest where bs: "bs = b # rest" using "0.prems"(1,3,4) by (cases bs) auto
  let ?v = "uv s * 2 ^ 6 + unat b mod 0x40"
  have c: "unat b div 0x40 = 2" using "0.prems"(1,3) unfolding bs by (auto simp: utf8_next_def split: if_splits)
  have "unat b mod 0x40 < 64" by simp
  then have "?v < 2 ^ 32" using "0.prems"(2) by simp
  then have "utf8_loop to bs s = (case utf_emit to (s\<lparr>uv := ?v, expected := 0\<rparr>) of None \<Rightarrow> None | Some s1 \<Rightarrow> utf8_loop to rest s1)"
    using "0.prems"(1) c unfolding bs by (simp add: utf8_next_def)
  moreover have "b = cont ?v 0" by (rule cont_byte [OF c]) simp
  moreover have "?v div 64 ^ Suc 0 = uv s" by simp
  ultimately show ?case using "0.prems"(3) unfolding bs
    by (intro exI [of _ ?v] exI [of _ rest]) (auto split: option.splits)
next
  case (Suc k s bs)
  obtain b rest where bs: "bs = b # rest" using Suc.prems(1,3,4) by (cases bs) auto
  let ?u = "uv s * 2 ^ 6 + unat b mod 0x40"
  let ?s = "s\<lparr>uv := ?u, expected := Suc k\<rparr>"
  have c: "unat b div 0x40 = 2" using Suc.prems(1,3) unfolding bs by (auto simp: utf8_next_def split: if_splits)
  have m: "unat b mod 0x40 < 64" by simp
  have "(?u + 1) * 64 ^ Suc k \<le> (uv s + 1) * 64 * 64 ^ Suc k" using m by (intro mult_right_mono) auto
  also have "\<dots> = (uv s + 1) * 64 ^ Suc (Suc k)" by (simp only: mult.assoc power_Suc)
  also have "\<dots> \<le> 2 ^ 31" by (rule Suc.prems(2))
  finally have small: "(uv ?s + 1) * 64 ^ Suc k \<le> 2 ^ 31" by simp
  have "(?u + 1) * 1 \<le> (?u + 1) * 64 ^ Suc k" by (intro mult_left_mono) auto
  then have "?u < 2 ^ 32" using small by simp
  then have "utf8_next to (unat b) s = Some ?s" using Suc.prems(1) c by (simp add: utf8_next_def)
  then have "utf8_loop to rest ?s = Some s'" using Suc.prems(1,3) unfolding bs by simp
  from Suc.IH [OF _ small this Suc.prems(4)]
  obtain v rest' s1 where r: "rest = map (cont v) (rev [0..<Suc k]) @ rest'" "v div 64 ^ Suc k = ?u"
    "utf_emit to (?s\<lparr>uv := v, expected := 0\<rparr>) = Some s1" "utf8_loop to rest' s1 = Some s'" by auto
  have "b = cont v (Suc k)" by (rule cont_byte [OF c r(2)])
  moreover have "v div 64 ^ Suc (Suc k) = uv s"
  proof -
    have "v div 64 ^ Suc (Suc k) = v div 64 ^ Suc k div 64" by (simp only: power_Suc2 div_mult2_eq)
    also have "\<dots> = uv s" unfolding r(2) by simp
    finally show ?thesis .
  qed
  ultimately show ?case using r unfolding bs by (intro exI [of _ v] exI [of _ rest'] exI [of _ s1]) simp
qed

lemma utf_emit_some:
  assumes "to \<in> {16, 32}" "code_point to (uv s)" "vmin s \<le> uv s"
  shows "\<exists>w. utf_emit to s = Some (s\<lparr>uv := w, des := des s @ utf_units to (uv s),
    dlen := dlen s + utf_unit to * length (utf_units to (uv s))\<rparr>)"
proof (cases "to = 16 \<and> uv s > 0xFFFF")
  case True
  then show ?thesis using assms
    by (intro exI [of _ "uv s - 0x10000"])
       (auto simp: utf_emit_def hand_8to16_def code_point_def utf_units_def utf16_def utf_unit_def Let_def)
next
  case False
  then show ?thesis using assms
    by (intro exI [of _ "uv s"])
       (auto simp: utf_emit_def hand_8to16_def hand_8to32_def code_point_def utf_units_def utf16_def utf_unit_def)
qed

lemma utf_emit_code_point:
  "utf_emit to s = Some s1 \<Longrightarrow> uv s < 2 ^ 31 \<Longrightarrow> code_point to (uv s) \<and> vmin s \<le> uv s"
  by (auto simp: utf_emit_def hand_8to16_def hand_8to32_def code_point_def split: if_splits)

text \<open>The smallest code point with \<open>k\<close> continuation bytes, and the values of its first byte.\<close>

definition utf8_min :: "nat \<Rightarrow> nat" where
  "utf8_min k = [0, 0x80, 0x800, 0x10000, 0x200000, 0x4000000] ! k"

definition utf8_room :: "nat \<Rightarrow> nat" where
  "utf8_room k = [0x80, 0x20, 0x10, 0x08, 0x04, 0x02] ! k"

lemmas utf8_tables = utf8_min_def utf8_room_def utf8_mark_def

lemma tail_cases: "k \<le> 5 \<Longrightarrow> k = 0 \<or> k = 1 \<or> k = 2 \<or> k = 3 \<or> k = 4 \<or> k = (5 :: nat)"
  by arith

lemma utf8_tail_iff:
  assumes "cp < 2 ^ 31" "k \<le> 5"
  shows "utf8_tail cp = k \<longleftrightarrow> utf8_min k \<le> cp \<and> cp div 64 ^ k < utf8_room k"
  using tail_cases [OF assms(2)] assms(1)
  by (elim disjE) (auto simp: utf8_tail_def utf8_tables div_less_iff_less_mult)

lemma utf8_tail_le: "utf8_tail cp \<le> 5"
  by (simp add: utf8_tail_def)

lemma utf8_lead_some:
  assumes "1 \<le> k" "k \<le> 5" "v < utf8_room k"
  shows "utf8_lead to (utf8_mark k + v) s = Some (s\<lparr>uv := v, expected := k, vmin := utf8_min k\<rparr>)"
    and "utf8_mark k + v < 256"
proof -
  consider "k = 1" | "k = 2" | "k = 3" | "k = 4" | "k = 5" using assms(1,2) by linarith
  then have "utf8_lead to (utf8_mark k + v) s = Some (s\<lparr>uv := v, expected := k, vmin := utf8_min k\<rparr>) \<and>
    utf8_mark k + v < 256"
    using assms(3) by cases (simp_all add: utf8_lead_def utf8_tables mod_add_left_eq [symmetric, of "_ :: nat"])
  then show "utf8_lead to (utf8_mark k + v) s = Some (s\<lparr>uv := v, expected := k, vmin := utf8_min k\<rparr>)"
    "utf8_mark k + v < 256" by blast+
qed

lemma utf8_lead_inv:
  assumes "utf8_lead to ch s = Some s1" "0x80 \<le> ch"
  shows "\<exists>k v. 1 \<le> k \<and> k \<le> 5 \<and> v < utf8_room k \<and> ch = utf8_mark k + v \<and>
    s1 = s\<lparr>uv := v, expected := k, vmin := utf8_min k\<rparr>"
proof -
  have r: "\<exists>k. 1 \<le> k \<and> k \<le> 5 \<and> utf8_mark k \<le> ch \<and> ch - utf8_mark k < utf8_room k"
  proof -
    have "0xC0 \<le> ch" "ch < 0xFE" using assms by (auto simp: utf8_lead_def split: if_splits)
    then consider "0xC0 \<le> ch \<and> ch < 0xE0" | "0xE0 \<le> ch \<and> ch < 0xF0" | "0xF0 \<le> ch \<and> ch < 0xF8"
      | "0xF8 \<le> ch \<and> ch < 0xFC" | "0xFC \<le> ch \<and> ch < 0xFE" by linarith
    then show ?thesis
    proof cases
      case 1 then show ?thesis by (intro exI [of _ 1]) (simp add: utf8_tables, arith)
    next
      case 2 then show ?thesis by (intro exI [of _ 2]) (simp add: utf8_tables, arith)
    next
      case 3 then show ?thesis by (intro exI [of _ 3]) (simp add: utf8_tables, arith)
    next
      case 4 then show ?thesis by (intro exI [of _ 4]) (simp add: utf8_tables, arith)
    next
      case 5 then show ?thesis by (intro exI [of _ 5]) (simp add: utf8_tables, arith)
    qed
  qed
  then obtain k where k: "1 \<le> k" "k \<le> 5" "utf8_mark k \<le> ch" "ch - utf8_mark k < utf8_room k" by blast
  then have "ch = utf8_mark k + (ch - utf8_mark k)" by simp
  then show ?thesis using utf8_lead_some(1) [OF k(1,2,4), of to s] assms(1) k by (metis option.inject)
qed

text \<open>What the units of some code points add to the state between two characters.\<close>

definition added :: "nat \<Rightarrow> utf_state \<Rightarrow> nat list \<Rightarrow> utf_state \<Rightarrow> bool" where
  "added to s cps s' \<longleftrightarrow> expected s = 0 \<and> expected s' = 0 \<and> des s' = des s @ concat (map (utf_units to) cps) \<and>
     dlen s' = dlen s + utf_unit to * length (concat (map (utf_units to) cps))"

lemma added_Nil: "expected s = 0 \<Longrightarrow> added to s [] s"
  by (simp add: added_def)

lemma added_Cons: "added to s [cp] s1 \<Longrightarrow> added to s1 cps s2 \<Longrightarrow> added to s (cp # cps) s2"
  by (auto simp: added_def algebra_simps)

lemma ascii: "cp < 0x80 \<Longrightarrow> utf8 cp = [of_nat cp]" "cp < 0x80 \<Longrightarrow> utf_units to cp = [cp]"
  "cp < 0x80 \<Longrightarrow> unat (of_nat cp :: byte) = cp" "cp < 0x80 \<Longrightarrow> code_point to cp"
  by (simp_all add: utf8_def utf8_tail_def utf8_tables utf_units_def utf16_def code_point_def unsigned_of_nat take_bit_eq_mod)

lemma unat_of_byte: "n < 256 \<Longrightarrow> unat (of_nat n :: byte) = n"
  by (simp add: unsigned_of_nat take_bit_eq_mod)

lemma utf8_loop_char:
  assumes "to \<in> {16, 32}" "code_point to cp" "expected s = 0"
  shows "\<exists>s1. utf8_loop to (utf8 cp @ rest) s = utf8_loop to rest s1 \<and> added to s [cp] s1"
proof (cases "cp < 0x80")
  case True
  then show ?thesis using assms(3)
    by (intro exI [of _ "s\<lparr>des := des s @ [cp], dlen := dlen s + utf_unit to\<rparr>"])
       (simp add: ascii utf8_lead_def added_def)
next
  case False
  define k where "k = utf8_tail cp"
  have cp: "cp < 2 ^ 31" using assms(2) by (auto simp: code_point_def split: if_splits)
  have k: "1 \<le> k" "k \<le> 5" using False by (auto simp: k_def utf8_tail_def)
  have room: "utf8_min k \<le> cp" "cp div 64 ^ k < utf8_room k"
    using utf8_tail_iff [OF cp k(2)] by (simp_all add: k_def)
  obtain j where j: "k = Suc j" using k(1) by (cases k) auto
  let ?s = "s\<lparr>uv := cp div 64 ^ k, expected := k, vmin := utf8_min k\<rparr>"
  have lead: "utf8_lead to (unat (of_nat (utf8_mark k + cp div 64 ^ k) :: byte)) s = Some ?s"
    unfolding unat_of_byte [OF utf8_lead_some(2) [OF k room(2)]] by (rule utf8_lead_some(1) [OF k room(2)])
  let ?e = "?s\<lparr>uv := cp, expected := 0\<rparr>"
  have e: "code_point to (uv ?e)" "vmin ?e \<le> uv ?e" using assms(2) room(1) by simp_all
  obtain w where w: "utf_emit to ?e = Some (?e\<lparr>uv := w, des := des ?e @ utf_units to (uv ?e),
      dlen := dlen ?e + utf_unit to * length (utf_units to (uv ?e))\<rparr>)" (is "_ = Some ?s1")
    using utf_emit_some [OF assms(1) e] by blast
  have "utf8_loop to (utf8 cp @ rest) s = utf8_loop to (map (cont cp) (rev [0..<k]) @ rest) ?s"
    using lead assms(3) by (simp add: utf8_def k_def [symmetric])
  also have "\<dots> = utf8_loop to rest ?s1"
  proof -
    have "expected ?s = Suc j" "uv ?s = cp div 64 ^ Suc j" using j by simp_all
    from utf8_loop_conts [OF cp this, of to rest] show ?thesis unfolding j [symmetric] w by simp
  qed
  finally show ?thesis using assms(3) by (intro exI [of _ ?s1]) (simp add: added_def)
qed

lemma utf8_loop_encoded:
  "to \<in> {16, 32} \<Longrightarrow> \<forall>cp \<in> set cps. code_point to cp \<Longrightarrow> expected s = 0 \<Longrightarrow>
   \<exists>s'. utf8_loop to (concat (map utf8 cps)) s = Some s' \<and> added to s cps s'"
proof (induction cps arbitrary: s)
  case (Cons cp cps)
  obtain s1 where s1: "utf8_loop to (utf8 cp @ concat (map utf8 cps)) s = utf8_loop to (concat (map utf8 cps)) s1"
    "added to s [cp] s1"
    using utf8_loop_char [OF Cons.prems(1), of cp s "concat (map utf8 cps)"] Cons.prems(2,3) by auto
  then show ?case using Cons.IH [of s1] Cons.prems added_Cons [OF s1(2)] by (auto simp: added_def)
qed (simp add: added_Nil)

lemma utf8_loop_decoded:
  assumes "to \<in> {16, 32}" "utf8_loop to bs s = Some s'" "expected s = 0" "expected s' = 0"
  shows "\<exists>cps. (\<forall>cp \<in> set cps. code_point to cp) \<and> bs = concat (map utf8 cps)"
  using assms(2,3)
proof (induction bs arbitrary: s rule: length_induct)
  case (1 bs s)
  show ?case
  proof (cases bs)
    case Nil
    then show ?thesis by (intro exI [of _ "[]"]) simp
  next
    case (Cons b r)
    obtain s1 where s1: "utf8_lead to (unat b) s = Some s1" "utf8_loop to r s1 = Some s'"
      using "1.prems" Cons by (auto split: option.splits)
    have "\<exists>cp rest s2. code_point to cp \<and> bs = utf8 cp @ rest \<and> utf8_loop to rest s2 = Some s' \<and> expected s2 = 0"
    proof (cases "unat b < 0x80")
      case True
      have "expected s1 = 0" using s1(1) True "1.prems"(2) by (auto simp: utf8_lead_def)
      then show ?thesis using True s1(2) Cons
        by (intro exI [of _ "unat b"] exI [of _ r] exI [of _ s1]) (simp add: ascii)
    next
      case False
      then obtain k v0 where k: "1 \<le> k" "k \<le> 5" "v0 < utf8_room k" "unat b = utf8_mark k + v0"
        "s1 = s\<lparr>uv := v0, expected := k, vmin := utf8_min k\<rparr>"
        using utf8_lead_inv [OF s1(1)] by auto
      obtain j where j: "k = Suc j" using k(1) by (cases k) auto
      have "utf8_room k * 64 ^ k \<le> 2 ^ 31" using tail_cases [OF k(2)] k(1) by (elim disjE) (simp_all add: utf8_room_def)
      moreover have "(v0 + 1) * 64 ^ k \<le> utf8_room k * 64 ^ k" using k(3) by (intro mult_right_mono) auto
      ultimately have room: "(uv s1 + 1) * 64 ^ Suc j \<le> 2 ^ 31" using k(5) j by simp
      have e: "expected s1 = Suc j" using k(5) j by simp
      from utf8_loop_conts_inv [OF e room s1(2) assms(4)]
      obtain v rest s2 where v: "r = map (cont v) (rev [0..<k]) @ rest" "v div 64 ^ k = v0"
        "utf_emit to (s1\<lparr>uv := v, expected := 0\<rparr>) = Some s2" "utf8_loop to rest s2 = Some s'"
        unfolding j k(5) by auto
      have "v < (v0 + 1) * 64 ^ k"
      proof -
        have "v = v div 64 ^ k * 64 ^ k + v mod 64 ^ k" by (simp only: div_mult_mod_eq)
        also have "\<dots> < v0 * 64 ^ k + 64 ^ k" unfolding v(2) by simp
        finally show ?thesis by simp
      qed
      then have v31: "v < 2 ^ 31" using room k(5) j by simp
      have cp: "code_point to v" "utf8_min k \<le> v" using utf_emit_code_point [OF v(3)] v31 k(5) by auto
      have tail: "utf8_tail v = k" using utf8_tail_iff [OF v31 k(2)] cp(2) v(2) k(3) by simp
      have "of_nat (unat b) = b" by simp
      then have "b = of_nat (utf8_mark k + v div 64 ^ k)" unfolding k(4) v(2) by simp
      then have "bs = utf8 v @ rest" using Cons v(1) by (simp add: utf8_def tail)
      moreover have "expected s2 = 0"
        using v(3) by (auto simp: utf_emit_def hand_8to16_def hand_8to32_def Let_def split: if_splits)
      ultimately show ?thesis using cp(1) v(4) by blast
    qed
    then obtain cp rest s2 where c: "code_point to cp" "bs = utf8 cp @ rest" "utf8_loop to rest s2 = Some s'" "expected s2 = 0"
      by blast
    have "length rest < length bs" unfolding c(2) by (simp add: utf8_def Let_def)
    then obtain cps where "\<forall>cp \<in> set cps. code_point to cp" "rest = concat (map utf8 cps)" using "1.IH" c(3,4) by blast
    then show ?thesis using c(1,2) by (intro exI [of _ "cp # cps"]) simp
  qed
qed


lemma utf8_conversion:
  assumes "to \<in> {16, 32}"
  shows "CscFromUTF8 bs to = Some (n, us) \<longleftrightarrow>
    (\<exists>cps. (\<forall>cp \<in> set cps. code_point to cp) \<and> bs = concat (map utf8 cps) \<and>
       us = concat (map (utf_units to) cps) \<and> n = utf_unit to * length us)"
proof
  have start: "expected utf_start = 0" by (simp add: utf_start_def)
  assume "CscFromUTF8 bs to = Some (n, us)"
  then obtain s' where s': "utf8_loop to bs utf_start = Some s'" "expected s' = 0" "n = dlen s'" "us = des s'"
    by (auto simp: CscFromUTF8_def split: option.splits if_splits)
  obtain cps where cps: "\<forall>cp \<in> set cps. code_point to cp" "bs = concat (map utf8 cps)"
    using utf8_loop_decoded [OF assms s'(1) start s'(2)] by blast
  then have "added to utf_start cps s'" using utf8_loop_encoded [OF assms cps(1) start] s'(1) by auto
  then show "\<exists>cps. (\<forall>cp \<in> set cps. code_point to cp) \<and> bs = concat (map utf8 cps) \<and>
      us = concat (map (utf_units to) cps) \<and> n = utf_unit to * length us"
    using cps s'(3,4) by (intro exI [of _ cps]) (simp add: added_def utf_start_def)
next
  assume "\<exists>cps. (\<forall>cp \<in> set cps. code_point to cp) \<and> bs = concat (map utf8 cps) \<and>
    us = concat (map (utf_units to) cps) \<and> n = utf_unit to * length us"
  then obtain cps where cps: "\<forall>cp \<in> set cps. code_point to cp" "bs = concat (map utf8 cps)"
    "us = concat (map (utf_units to) cps)" "n = utf_unit to * length us" by blast
  obtain s' where "utf8_loop to bs utf_start = Some s'" "added to utf_start cps s'"
    using utf8_loop_encoded [OF assms cps(1), of utf_start] cps(2) by (auto simp: utf_start_def)
  then show "CscFromUTF8 bs to = Some (n, us)"
    using assms cps(3,4) by (simp add: CscFromUTF8_def added_def utf_start_def)
qed

lemma lead_bits:
  assumes "v < utf8_room k" "1 \<le> k" "k \<le> 5"
  shows "(utf8_mark k + v) mod (0xFF div 2 ^ (Suc k + 1) + 1) = v"
proof -
  have "utf8_mark k = utf8_mark k div utf8_room k * utf8_room k \<and> 0xFF div 2 ^ (Suc k + 1) + 1 = utf8_room k"
    using tail_cases [OF assms(3)] assms(2) by (elim disjE) (simp_all add: utf8_tables)
  then have "(utf8_mark k + v) mod (0xFF div 2 ^ (Suc k + 1) + 1) =
      (utf8_mark k div utf8_room k * utf8_room k + v) mod utf8_room k" by simp
  also have "\<dots> = v" unfolding mod_mult_self3 using assms(1) by (rule mod_less)
  finally show ?thesis .
qed

lemma utf8_scan:
  assumes "cp < 2 ^ 31"
  shows "ScanUTF8 (utf8 cp @ rest) = Some (length (utf8 cp)) \<and> ScanUTF8Width (utf8 cp @ rest) = Some (RuneWidth cp)"
proof -
  define k where "k = utf8_tail cp"
  have k: "k \<le> 5" by (simp add: k_def utf8_tail_le)
  have room: "cp div 64 ^ k < utf8_room k" using utf8_tail_iff [OF assms k] by (simp add: k_def)
  have len: "length (utf8 cp) = Suc k" by (simp add: utf8_def k_def Let_def)
  have hd: "hd (utf8 cp) = of_nat (utf8_mark k + cp div 64 ^ k)" by (simp add: utf8_def k_def Let_def)
  have tl: "tl (utf8 cp) = map (cont cp) (rev [0..<k])" by (simp add: utf8_def k_def Let_def)
  have cons: "utf8 cp @ rest = hd (utf8 cp) # (tl (utf8 cp) @ rest)" using len by (cases "utf8 cp") auto
  have ht: "hd (utf8 cp @ rest) = hd (utf8 cp)" "tl (utf8 cp @ rest) = tl (utf8 cp) @ rest"
    using len by (cases "utf8 cp"; simp)+
  have lt: "utf8_mark k + cp div 64 ^ k < 256"
    using tail_cases [OF k] room by (elim disjE) (simp_all add: utf8_tables)
  have u: "unat (hd (utf8 cp)) = utf8_mark k + cp div 64 ^ k" unfolding hd by (rule unat_of_byte [OF lt])
  have scan: "ScanUTF8 (utf8 cp @ rest) = Some (Suc k)"
    unfolding cons ScanUTF8_def using tail_cases [OF k] room u by (elim disjE) (simp_all add: utf8_tables)
  have conts: "scan_rune j (map (cont cp) (rev [0..<j]) @ rest) (cp div 64 ^ j) = Some cp" for j
  proof (induction j)
    case (Suc j)
    have "cp div 64 ^ j < 2 ^ 31" using assms by (rule le_less_trans [OF div_le_dividend])
    then have "cp div 64 ^ j < 2 ^ 32" by (rule less_trans) simp
    then have "(cp div 64 ^ Suc j * 2 ^ 6 + unat (cont cp j) mod 0x40) mod 2 ^ 32 = cp div 64 ^ j"
      unfolding cont_bits div_step by (rule mod_less)
    then show ?case using Suc.IH cont_bits(1) by (simp del: unat_cont power_Suc)
  qed simp
  have "ScanUTF8Width (utf8 cp @ rest) = Some (RuneWidth cp)"
  proof (cases "k = 0")
    case True
    then show ?thesis using scan u ht by (simp add: ScanUTF8Width_def utf8_mark_def)
  next
    case False
    then have "unat (hd (utf8 cp)) mod (0xFF div 2 ^ (Suc k + 1) + 1) = cp div 64 ^ k"
      unfolding u using k by (intro lead_bits room) auto
    then show ?thesis using False scan conts [of k] ht tl by (simp add: ScanUTF8Width_def)
  qed
  then show ?thesis using scan len by simp
qed

section \<open>Properties\<close>

text \<open>
  C32. \<open>CscFromUTF8\<close> accepts exactly the texts that are encodings of some code points, by the scheme of UTF-8
  in its original extent of up to six bytes (no overlong form, no surrogate, no truncated or stray
  byte). The range of the code points depends on the target: for UTF-16 they end at \<open>0x10FFFF\<close>, so that exactly the
  well-formed UTF-8 texts of the standard are accepted; for UTF-32 the code has no such bound, every code point below
  \<open>2 ^ 31\<close> is accepted and with it sequences of five and six bytes, which are not well-formed UTF-8. The conversion
  writes exactly the UTF-16 or UTF-32 units of those code points; the number it returns is the bytes
  of these units. The scanners agree with the encoding: at the first byte of a code point below
  \<open>2 ^ 31\<close>, \<open>ScanUTF8\<close> returns the number of its bytes and \<open>ScanUTF8Width\<close> the terminal columns of that
  code point.
\<close>

theorem utf8_exact:
  assumes "to \<in> {16, 32}"
  shows "(CscFromUTF8 bs to = Some (n, us) \<longleftrightarrow>
    (\<exists>cps. (\<forall>cp \<in> set cps. code_point to cp) \<and> bs = concat (map utf8 cps) \<and>
       us = concat (map (utf_units to) cps) \<and> n = utf_unit to * length us)) \<and>
    (cp < 2 ^ 31 \<longrightarrow> ScanUTF8 (utf8 cp @ rest) = Some (length (utf8 cp)) \<and>
       ScanUTF8Width (utf8 cp @ rest) = Some (RuneWidth cp))"
  using utf8_conversion [OF assms] utf8_scan by blast

theorem utf8_exact_witness:
  "CscFromUTF8 [0xE2, 0x82, 0xAC, 0xF0, 0x9F, 0x98, 0x80] 16 = Some (6, [0x20AC, 0xD83D, 0xDE00]) \<and>
   ScanUTF8 [0xE2, 0x82, 0xAC, 0] = Some 3 \<and> ScanUTF8Width [0xE2, 0x82, 0xAC, 0] = Some 1"
proof -
  have c: "code_point 16 0x20AC" "code_point 16 0x1F600" by (simp_all add: code_point_def)
  have e: "concat (map utf8 [0x20AC, 0x1F600]) = [0xE2, 0x82, 0xAC, 0xF0, 0x9F, 0x98, 0x80]" "utf8 0x20AC @ [0] = [0xE2, 0x82, 0xAC, 0]"
    by (simp_all add: utf8_def utf8_tail_def utf8_mark_def cont_def upt_rec)
  have u: "concat (map (utf_units 16) [0x20AC, 0x1F600]) = [0x20AC, 0xD83D, 0xDE00]"
    by (simp add: utf_units_def utf16_def)
  have "CscFromUTF8 (concat (map utf8 [0x20AC, 0x1F600])) 16 = Some (6, concat (map (utf_units 16) [0x20AC, 0x1F600]))"
    using c by (intro utf8_exact [THEN conjunct1, THEN iffD2] exI [of _ "[0x20AC, 0x1F600]"]) (simp_all add: utf_units_def utf16_def utf_unit_def)
  moreover have "length (utf8 0x20AC) = 3" by (simp add: utf8_def utf8_tail_def)
  moreover have "ScanUTF8 (utf8 0x20AC @ [0]) = Some (length (utf8 0x20AC)) \<and> ScanUTF8Width (utf8 0x20AC @ [0]) = Some (RuneWidth 0x20AC)"
    by (intro utf8_exact [of 16, THEN conjunct2, THEN mp]) simp_all
  ultimately show ?thesis unfolding e u by (simp add: RuneWidth_def)
qed

end
