(* ===== verification/HTTP.thy ===== *)
theory HTTP
  imports CString
begin

text \<open>
  The HTTP client helpers of \<open>src/inc/cpp/System/Network/Layer/Application/HTTP.hpp\<close>: building a
  request, reading the status line, the header fields and the body of a response.

  A response is the list of its \<open>length\<close> bytes (\<open>None\<close> for a null pointer). A pointer into it is an
  offset, and a view is an offset and a length. Offsets are natural numbers.
\<close>

section \<open>Views\<close>

record HTTPStatusLine =
  status_code :: nat
  reason :: nat
  reason_length :: nat

record HTTPHeaderView =
  hv_header :: nat
  hv_header_length :: nat
  hv_body :: nat
  hv_body_length :: nat

record HTTPResponseView =
  rv_status :: HTTPStatusLine
  rv_header :: HTTPHeaderView
  rv_content_length :: nat
  rv_content_type :: nat
  rv_content_type_length :: nat
  has_status :: bool
  has_header :: bool
  has_content_length :: bool
  has_content_type :: bool

section \<open>Texts\<close>

definition HTTPStringLength :: "rostr \<Rightarrow> nat" where
  "HTTPStringLength text = (case text of None \<Rightarrow> 0 | Some t \<Rightarrow> length t)"

definition http_lower :: "char \<Rightarrow> char" where
  "http_lower c = (let n = of_char c :: nat in if n \<ge> 65 \<and> n \<le> 90 then char_of (n - 65 + 97) else c)"

definition HTTPAsciiEqual :: "char \<Rightarrow> char \<Rightarrow> bool" where
  "HTTPAsciiEqual lhs rhs \<longleftrightarrow> http_lower lhs = http_lower rhs"

text \<open>A loop \<open>while (i < n && P(text[i])) i++\<close>.\<close>

function scan :: "(char \<Rightarrow> bool) \<Rightarrow> string \<Rightarrow> nat \<Rightarrow> nat \<Rightarrow> nat" where
  "scan P t n i = (if i < n \<and> P (t ! i) then scan P t n (i + 1) else i)"
  by pat_completeness auto
termination by (relation "measure (\<lambda>(P, t, n, i). n - i)") auto

declare scan.simps [simp del]

fun name_loop :: "string \<Rightarrow> nat \<Rightarrow> nat \<Rightarrow> string \<Rightarrow> nat \<Rightarrow> bool" where
  "name_loop t line line_length [] i = (i < line_length \<and> t ! (line + i) = CHR '':'')"
| "name_loop t line line_length (c # name) i =
    (if i \<ge> line_length \<or> \<not> HTTPAsciiEqual (t ! (line + i)) c then False
     else name_loop t line line_length name (i + 1))"

definition HTTPHeaderNameMatch :: "string \<Rightarrow> nat \<Rightarrow> nat \<Rightarrow> rostr \<Rightarrow> bool" where
  "HTTPHeaderNameMatch t line line_length name =
    name_loop t line line_length (case name of None \<Rightarrow> [] | Some n \<Rightarrow> n) 0"

section \<open>Requests\<close>

text \<open>The result and the output buffer.\<close>

definition HTTPBuildGET :: "string option \<Rightarrow> nat \<Rightarrow> rostr \<Rightarrow> rostr \<Rightarrow> int \<times> string option" where
  "HTTPBuildGET output capacity host path =
    (case output of None \<Rightarrow> (- 1, None)
     | Some buf \<Rightarrow>
         if capacity = 0 \<or> host = None \<or> host = Some [] then (- 1, Some buf)
         else
           (let path = (if path = None \<or> path = Some [] then ''/'' else the path);
                parts = [''GET '', path, '' HTTP/1.0'' @ [CR, LF] @ ''Host: '', the host,
                         [CR, LF] @ ''Connection: close'' @ [CR, LF, CR, LF]];
                len = sum_list (map length parts) in
            if len + 1 > capacity then (- 1, Some buf)
            else (int len, Some (patch buf 0 (concat parts @ [NUL])))))"

section \<open>Responses\<close>

function header_end :: "string \<Rightarrow> nat \<Rightarrow> nat" where
  "header_end t i =
    (if i + 3 < length t
     then (if t ! i = CR \<and> t ! (i + 1) = LF \<and> t ! (i + 2) = CR \<and> t ! (i + 3) = LF then i + 4
           else header_end t (i + 1))
     else 0)"
  by pat_completeness auto
termination by (relation "measure (\<lambda>(t, i). length t - i)") auto

declare header_end.simps [simp del]

definition HTTPHeaderLength :: "string option \<Rightarrow> nat" where
  "HTTPHeaderLength response =
    (case response of None \<Rightarrow> 0 | Some t \<Rightarrow> if length t < 4 then 0 else header_end t 0)"

definition HTTPParseHeader :: "string option \<Rightarrow> HTTPHeaderView option" where
  "HTTPParseHeader response =
    (let header_length = HTTPHeaderLength response in
     if header_length = 0 then None
     else Some \<lparr>hv_header = 0, hv_header_length = header_length, hv_body = header_length,
       hv_body_length = length (the response) - header_length\<rparr>)"

definition digit_at :: "string \<Rightarrow> nat \<Rightarrow> bool" where
  "digit_at t i \<longleftrightarrow> of_char (t ! i) \<ge> (48 :: nat) \<and> of_char (t ! i) \<le> (57 :: nat)"

definition digit_val :: "string \<Rightarrow> nat \<Rightarrow> nat" where
  "digit_val t i = of_char (t ! i) - 48"

definition HTTPParseStatusCode :: "string option \<Rightarrow> nat" where
  "HTTPParseStatusCode response =
    (case response of None \<Rightarrow> 0
     | Some t \<Rightarrow>
         if length t < 12 then 0
         else if t ! 0 \<noteq> CHR ''H'' \<or> t ! 1 \<noteq> CHR ''T'' \<or> t ! 2 \<noteq> CHR ''T'' \<or> t ! 3 \<noteq> CHR ''P'' \<or> t ! 4 \<noteq> CHR ''/'' then 0
         else
           (let cursor = scan (\<lambda>c. c \<noteq> CHR '' '') t (length t) 5 in
            if cursor + 4 > length t \<or> t ! cursor \<noteq> CHR '' '' then 0
            else if \<not> (digit_at t (cursor + 1) \<and> digit_at t (cursor + 2) \<and> digit_at t (cursor + 3)) then 0
            else (digit_val t (cursor + 1) * 10 + digit_val t (cursor + 2)) * 10 + digit_val t (cursor + 3)))"

definition skip_space :: "string \<Rightarrow> nat \<Rightarrow> nat" where
  "skip_space t cursor = (if cursor < length t \<and> t ! cursor = CHR '' '' then cursor + 1 else cursor)"

definition HTTPParseStatusLine :: "string option \<Rightarrow> HTTPStatusLine option" where
  "HTTPParseStatusLine response =
    (let code = HTTPParseStatusCode response; t = the response in
     if code = 0 then None
     else
       (let cursor = scan (\<lambda>c. c \<noteq> CHR '' '' \<and> c \<noteq> CR \<and> c \<noteq> LF) t (length t) 0;
            cursor = skip_space t cursor;
            cursor = scan (\<lambda>c. of_char c \<ge> (48 :: nat) \<and> of_char c \<le> (57 :: nat)) t (length t) cursor;
            cursor = skip_space t cursor;
            reason_end = scan (\<lambda>c. c \<noteq> CR \<and> c \<noteq> LF) t (length t) cursor in
        Some \<lparr>status_code = code mod 2 ^ 16, reason = cursor, reason_length = reason_end - cursor\<rparr>))"

text \<open>The value of a field without the blanks around it: \<open>finish\<close> moves back from the line's end.\<close>

function trim_end :: "string \<Rightarrow> nat \<Rightarrow> nat \<Rightarrow> nat" where
  "trim_end t cursor finish =
    (if finish > cursor \<and> (t ! (finish - 1) = CHR '' '' \<or> t ! (finish - 1) = TAB)
     then trim_end t cursor (finish - 1) else finish)"
  by pat_completeness auto
termination by (relation "measure (\<lambda>(t, cursor, finish). finish)") auto

declare trim_end.simps [simp del]

definition eol :: "char \<Rightarrow> bool" where
  "eol c \<longleftrightarrow> c = CR \<or> c = LF"

definition blank :: "char \<Rightarrow> bool" where
  "blank c \<longleftrightarrow> c = CHR '' '' \<or> c = TAB"

lemma scan_ge: "i \<le> scan P t n i"
  by (induction P t n i rule: scan.induct) (subst scan.simps, auto intro: Suc_leD)

lemma scan_le: "i \<le> n \<Longrightarrow> scan P t n i \<le> n"
  by (induction P t n i rule: scan.induct) (subst scan.simps, simp)

lemma scan_less: "i < n \<Longrightarrow> P (t ! i) \<Longrightarrow> i < scan P t n i"
  using scan_ge [of "i + 1" P t n] by (subst scan.simps) simp

lemma line_advances: "line < n \<Longrightarrow> line < scan eol t n (scan (\<lambda>c. \<not> eol c) t n line)"
proof (cases "eol (t ! line)")
  case True
  assume "line < n"
  then have "scan (\<lambda>c. \<not> eol c) t n line = line" using True by (subst scan.simps) simp
  then show ?thesis using scan_less \<open>line < n\<close> True by simp
next
  case False
  assume "line < n"
  then show ?thesis using False scan_less [of line n "\<lambda>c. \<not> eol c" t] scan_ge less_le_trans by blast
qed

function find_loop :: "string \<Rightarrow> nat \<Rightarrow> string \<Rightarrow> nat \<Rightarrow> (nat \<times> nat) option" where
  "find_loop t header_length name line =
    (if line < header_length
     then
       (let line_end = scan (\<lambda>c. \<not> eol c) t header_length line in
        if HTTPHeaderNameMatch t line (line_end - line) (Some name)
        then
          (let cursor = scan blank t line_end (line + HTTPStringLength (Some name) + 1);
               finish = trim_end t cursor line_end in
           Some (cursor, finish - cursor))
        else find_loop t header_length name (scan eol t header_length line_end))
     else None)"
  by pat_completeness auto
termination
  by (relation "measure (\<lambda>(t, n, name, line). n - line)") (auto simp: line_advances diff_less_mono2)

declare find_loop.simps [simp del]

definition HTTPFindHeader :: "string option \<Rightarrow> rostr \<Rightarrow> (nat \<times> nat) option" where
  "HTTPFindHeader response name =
    (let header_length = HTTPHeaderLength response in
     if header_length = 0 \<or> name = None \<or> name = Some [] then None
     else find_loop (the response) header_length (the name) 0)"

text \<open>\<open>HTTPHeaderValueOf\<close> and \<open>HTTPBody\<close> return views; absent ones are \<open>None\<close>.\<close>

definition HTTPHeaderValueOf :: "string option \<Rightarrow> rostr \<Rightarrow> (nat \<times> nat) option" where
  "HTTPHeaderValueOf response name = HTTPFindHeader response name"

definition HTTPBody :: "string option \<Rightarrow> (nat \<times> nat) option" where
  "HTTPBody response = map_option (\<lambda>h. (hv_body h, hv_body_length h)) (HTTPParseHeader response)"

text \<open>The loop over the digits; \<open>value\<close> is a \<open>stduint\<close>.\<close>

fun length_loop :: "nat \<Rightarrow> string \<Rightarrow> nat \<Rightarrow> nat \<Rightarrow> nat option" where
  "length_loop 0 t i val = Some val"
| "length_loop (Suc n) t i val =
    (if \<not> digit_at t i then None else length_loop n t (i + 1) (u64 (val * 10 + digit_val t i)))"

definition HTTPContentLength :: "string option \<Rightarrow> nat option" where
  "HTTPContentLength response =
    (case HTTPFindHeader response (Some ''content-length'') of
       None \<Rightarrow> None
     | Some (value_text, value_length) \<Rightarrow>
         (case length_loop value_length (the response) value_text 0 of
            None \<Rightarrow> None
          | Some val \<Rightarrow> if value_length = 0 then None else Some val))"

definition no_status :: HTTPStatusLine where
  "no_status = \<lparr>status_code = 0, reason = 0, reason_length = 0\<rparr>"

definition no_header :: HTTPHeaderView where
  "no_header = \<lparr>hv_header = 0, hv_header_length = 0, hv_body = 0, hv_body_length = 0\<rparr>"

definition HTTPParseResponse :: "string option \<Rightarrow> bool \<times> HTTPResponseView" where
  "HTTPParseResponse response =
    (let status = HTTPParseStatusLine response; header = HTTPParseHeader response;
         clen = HTTPContentLength response; ctype = HTTPFindHeader response (Some ''content-type'') in
     (status \<noteq> None \<or> header \<noteq> None,
      \<lparr>rv_status = (case status of None \<Rightarrow> no_status | Some s \<Rightarrow> s),
       rv_header = (case header of None \<Rightarrow> no_header | Some h \<Rightarrow> h),
       rv_content_length = (case clen of None \<Rightarrow> 0 | Some n \<Rightarrow> n),
       rv_content_type = (case ctype of None \<Rightarrow> 0 | Some (p, _) \<Rightarrow> p),
       rv_content_type_length = (case ctype of None \<Rightarrow> 0 | Some (_, n) \<Rightarrow> n),
       has_status = (status \<noteq> None), has_header = (header \<noteq> None),
       has_content_length = (clen \<noteq> None), has_content_type = (ctype \<noteq> None)\<rparr>))"

definition HTTPResponseComplete :: "string option \<Rightarrow> bool" where
  "HTTPResponseComplete response =
    (let (ok, view) = HTTPParseResponse response in
     if \<not> ok \<or> \<not> has_header view then False
     else if \<not> has_content_length view then False
     else hv_body_length (rv_header view) \<ge> rv_content_length view)"

definition HTTPCompleteBody :: "string option \<Rightarrow> (nat \<times> nat) option" where
  "HTTPCompleteBody response = (if \<not> HTTPResponseComplete response then None else HTTPBody response)"

section \<open>Scanning a text\<close>

lemma scan_stop:
  "t = pre @ s @ post \<Longrightarrow> \<forall>x \<in> set s. P x \<Longrightarrow> length pre + length s \<le> n \<Longrightarrow>
   length pre + length s = n \<or> \<not> P (t ! (length pre + length s)) \<Longrightarrow> scan P t n (length pre) = length pre + length s"
proof (induction s arbitrary: pre)
  case Nil
  then show ?case by (subst scan.simps) auto
next
  case (Cons c s)
  have "scan P t n (length (pre @ [c])) = length (pre @ [c]) + length s"
    using Cons.prems by (intro Cons.IH) auto
  moreover have "scan P t n (length pre) = scan P t n (length pre + 1)"
    using Cons.prems by (subst scan.simps) (auto simp: nth_append)
  ultimately show ?case by simp
qed

lemma trim_end_spec:
  "t = pre @ w @ post \<Longrightarrow> trim_end t (length pre) (length pre + length w) = length pre + length (rev (dropWhile blank (rev w)))"
proof (induction w arbitrary: post rule: rev_induct)
  case Nil
  then show ?case by (subst trim_end.simps) simp
next
  case (snoc c w)
  have c: "t ! (length pre + length (w @ [c]) - 1) = c" using snoc.prems by (simp add: nth_append)
  show ?case
  proof (cases "blank c")
    case True
    then have "trim_end t (length pre) (length pre + length (w @ [c])) = trim_end t (length pre) (length pre + length w)"
      using c by (subst trim_end.simps) (simp add: blank_def)
    then show ?thesis using snoc.IH [of "c # post"] snoc.prems True by simp
  next
    case False
    then show ?thesis using c by (subst trim_end.simps) (simp add: blank_def)
  qed
qed

section \<open>Responses as lines\<close>

text \<open>The lines of the head, each ended by CR LF, the empty line and the body.\<close>

definition http_head :: "string list \<Rightarrow> string" where
  "http_head ls = concat (map (\<lambda>l. l @ [CR, LF]) ls) @ [CR, LF]"

definition http_text :: "string list \<Rightarrow> string \<Rightarrow> string" where
  "http_text ls body = http_head ls @ body"

definition http_line :: "string \<Rightarrow> bool" where
  "http_line l \<longleftrightarrow> l \<noteq> [] \<and> (\<forall>c \<in> set l. \<not> eol c)"

definition field_named :: "string \<Rightarrow> string \<Rightarrow> bool" where
  "field_named name l \<longleftrightarrow> length name < length l \<and> list_all2 HTTPAsciiEqual (take (length name) l) name \<and>
     l ! length name = CHR '':''"

definition http_trim :: "string \<Rightarrow> string" where
  "http_trim v = rev (dropWhile blank (rev (dropWhile blank v)))"

definition field_value :: "string \<Rightarrow> string \<Rightarrow> string" where
  "field_value name l = http_trim (drop (length name + 1) l)"

lemma header_end_skip:
  "t = pre @ s @ post \<Longrightarrow> \<forall>c \<in> set s. c \<noteq> CR \<Longrightarrow> 3 < length post \<Longrightarrow> header_end t (length pre) = header_end t (length pre + length s)"
proof (induction s arbitrary: pre)
  case (Cons c s)
  have "header_end t (length (pre @ [c])) = header_end t (length (pre @ [c]) + length s)"
    using Cons.prems by (intro Cons.IH) auto
  moreover have "header_end t (length pre) = header_end t (length pre + 1)"
    using Cons.prems by (subst header_end.simps) (auto simp: nth_append)
  ultimately show ?case by simp
qed simp

lemma header_end_lines:
  "t = pre @ http_head ls @ body \<Longrightarrow> ls \<noteq> [] \<Longrightarrow> \<forall>l \<in> set ls. http_line l \<Longrightarrow>
   header_end t (length pre) = length pre + length (http_head ls)"
proof (induction ls arbitrary: pre)
  case (Cons l ls)
  define rest where "rest = http_head ls"
  have t: "t = pre @ l @ CR # LF # rest @ body" using Cons.prems(1) by (simp add: http_head_def rest_def)
  have r: "2 \<le> length rest" by (simp add: rest_def http_head_def)
  have l: "\<forall>c \<in> set l. c \<noteq> CR" using Cons.prems(3) by (auto simp: http_line_def eol_def)
  have "header_end t (length pre) = header_end t (length pre + length l)"
    using header_end_skip [OF t l] r by simp
  also have "\<dots> = length pre + length (http_head (l # ls))"
  proof (cases ls)
    case Nil
    then have "rest = [CR, LF]" by (simp add: rest_def http_head_def)
    then show ?thesis using t Nil by (subst header_end.simps) (simp add: nth_append http_head_def)
  next
    case (Cons l' ls')
    have h: "rest = hd l' # tl l' @ CR # LF # http_head ls'" "hd l' \<noteq> CR"
      using Cons.prems(3) Cons by (auto simp: rest_def http_head_def http_line_def eol_def neq_Nil_conv)
    have "header_end t (length pre + length l) = header_end t (length pre + length l + 1)"
      using t h by (subst header_end.simps) (simp add: nth_append)
    also have "\<dots> = header_end t (length pre + length l + 2)"
      using t h by (subst header_end.simps) (simp add: nth_append)
    also have "\<dots> = header_end t (length (pre @ l @ [CR, LF]))" by simp
    also have "\<dots> = length (pre @ l @ [CR, LF]) + length (http_head ls)"
      using t Cons.prems(3) Cons by (intro Cons.IH) (auto simp: rest_def)
    finally show ?thesis by (simp add: http_head_def)
  qed
  finally show ?case .
qed simp

lemma header_length_text:
  assumes "ls \<noteq> []" "\<forall>l \<in> set ls. http_line l"
  shows "HTTPHeaderLength (Some (http_text ls body)) = length (http_head ls)"
proof -
  have "header_end (http_text ls body) (length ([] :: string)) = length ([] :: string) + length (http_head ls)"
    by (rule header_end_lines [where body = body]) (use assms in \<open>auto simp: http_text_def\<close>)
  moreover have "4 \<le> length (http_head ls)" using assms by (cases ls) (auto simp: http_head_def)
  ultimately show ?thesis by (simp add: HTTPHeaderLength_def http_text_def)
qed

lemma name_loop_spec:
  "t = pre @ l @ post \<Longrightarrow> i \<le> length l \<Longrightarrow>
   name_loop t (length pre) (length l) name i \<longleftrightarrow>
     i + length name < length l \<and> list_all2 HTTPAsciiEqual (take (length name) (drop i l)) name \<and> l ! (i + length name) = CHR '':''"
proof (induction name arbitrary: i)
  case Nil
  then show ?case by (auto simp: nth_append)
next
  case (Cons c name)
  show ?case
  proof (cases "i < length l")
    case True
    then have "drop i l = l ! i # drop (Suc i) l" by (simp add: Cons_nth_drop_Suc)
    then show ?thesis using True Cons.IH [of "i + 1"] Cons.prems by (auto simp: nth_append)
  qed simp
qed

lemma name_match_spec:
  "t = pre @ l @ post \<Longrightarrow> HTTPHeaderNameMatch t (length pre) (length l) (Some name) \<longleftrightarrow> field_named name l"
  using name_loop_spec [of t pre l post 0 name] by (simp add: HTTPHeaderNameMatch_def field_named_def)

lemma take_drop_mid: "t = a @ b @ c \<Longrightarrow> take (length b) (drop (length a) t) = b"
  by simp

lemma field_found:
  assumes t: "t = pre @ l @ post" and f: "field_named name l"
  shows "(let cursor = scan blank t (length pre + length l) (length pre + HTTPStringLength (Some name) + 1);
              finish = trim_end t cursor (length pre + length l) in
          take (finish - cursor) (drop cursor t)) = field_value name l"
proof -
  define n where "n = length name + 1"
  define v where "v = drop n l"
  have n: "n \<le> length l" using f by (simp add: n_def field_named_def)
  define w where "w = dropWhile blank v"
  have vw: "v = takeWhile blank v @ w" by (simp add: w_def)
  have t1: "t = (pre @ take n l) @ takeWhile blank v @ w @ post" using t vw by (simp add: v_def)
  have len: "length pre + length l = length (pre @ take n l) + length (takeWhile blank v) + length w"
    using n arg_cong [OF vw, of length] by (simp add: v_def)
  have sc: "scan blank t (length pre + length l) (length (pre @ take n l)) = length (pre @ take n l) + length (takeWhile blank v)"
  proof (rule scan_stop [OF t1])
    show "\<forall>x \<in> set (takeWhile blank v). blank x" by (auto dest: set_takeWhileD)
    show "length (pre @ take n l) + length (takeWhile blank v) \<le> length pre + length l" using len by simp
    show "length (pre @ take n l) + length (takeWhile blank v) = length pre + length l \<or>
        \<not> blank (t ! (length (pre @ take n l) + length (takeWhile blank v)))"
    proof (cases w)
      case Nil then show ?thesis using len by simp
    next
      case (Cons c w')
      then have "\<not> blank c" unfolding w_def by (metis dropWhile_eq_Cons_conv)
      moreover have "t ! (length (pre @ take n l) + length (takeWhile blank v)) = c"
      proof -
        have "t = ((pre @ take n l) @ takeWhile blank v) @ c # (w' @ post)" using t1 Cons by simp
        from nth_append_length [of "(pre @ take n l) @ takeWhile blank v" c "w' @ post", folded this] show ?thesis by (simp add: add.assoc)
      qed
      ultimately show ?thesis by simp
    qed
  qed
  have pos: "length pre + HTTPStringLength (Some name) + 1 = length (pre @ take n l)"
    using n by (simp add: n_def HTTPStringLength_def)
  have cursor: "scan blank t (length pre + length l) (length pre + HTTPStringLength (Some name) + 1) =
      length ((pre @ take n l) @ takeWhile blank v)" unfolding pos sc by simp
  have t2: "t = ((pre @ take n l) @ takeWhile blank v) @ w @ post" using t1 by simp
  have fin: "trim_end t (length ((pre @ take n l) @ takeWhile blank v)) (length pre + length l) =
      length ((pre @ take n l) @ takeWhile blank v) + length (rev (dropWhile blank (rev w)))"
  proof -
    have "length pre + length l = length ((pre @ take n l) @ takeWhile blank v) + length w" using len by simp
    then show ?thesis by (simp only: trim_end_spec [OF t2])
  qed
  have "w = rev (dropWhile blank (rev w)) @ rev (takeWhile blank (rev w))"
    by (metis rev_append rev_rev_ident takeWhile_dropWhile_id)
  then have t3: "t = ((pre @ take n l) @ takeWhile blank v) @ rev (dropWhile blank (rev w)) @ rev (takeWhile blank (rev w)) @ post"
    using t2 by simp
  show ?thesis
    unfolding cursor fin Let_def using take_drop_mid [OF t3]
    by (simp add: field_value_def http_trim_def w_def v_def n_def)
qed

lemma eol_skip:
  assumes "t = pre @ l @ CR # LF # rest @ body" "rest = [CR, LF] \<or> (rest \<noteq> [] \<and> \<not> eol (hd rest))"
  shows "scan eol t (length pre + length l + 2 + length rest) (length pre + length l) =
    (if rest = [CR, LF] then length pre + length l + 4 else length pre + length l + 2)"
proof (cases "rest = [CR, LF]")
  case True
  then have "t = (pre @ l) @ [CR, LF, CR, LF] @ body" using assms(1) by simp
  from scan_stop [OF this, of eol] show ?thesis using True by (simp add: eol_def)
next
  case False
  then have r: "rest \<noteq> []" "\<not> eol (hd rest)" using assms(2) by auto
  have t: "t = (pre @ l) @ [CR, LF] @ rest @ body" using assms(1) by simp
  have "t ! (length (pre @ l) + length [CR, LF]) = hd rest" unfolding t using r(1) by (cases rest) (auto simp: nth_append)
  then have "scan eol t (length pre + length l + 2 + length rest) (length (pre @ l)) = length (pre @ l) + length [CR, LF]"
    using r by (intro scan_stop [OF t]) (auto simp: eol_def)
  then show ?thesis using False by simp
qed

lemma find_loop_lines:
  "t = pre @ http_head ls @ body \<Longrightarrow> ls \<noteq> [] \<Longrightarrow> \<forall>l \<in> set ls. http_line l \<Longrightarrow> n = length pre + length (http_head ls) \<Longrightarrow>
   map_option (\<lambda>(p, k). take k (drop p t)) (find_loop t n name (length pre)) =
     map_option (field_value name) (find (field_named name) ls)"
proof (induction ls arbitrary: pre)
  case (Cons l ls)
  define rest where "rest = http_head ls"
  have t: "t = pre @ l @ CR # LF # rest @ body" using Cons.prems(1) by (simp add: http_head_def rest_def)
  have n: "n = length pre + length l + 2 + length rest" using Cons.prems(4) by (simp add: http_head_def rest_def)
  have l: "\<forall>c \<in> set l. \<not> eol c" "l \<noteq> []" using Cons.prems(3) by (auto simp: http_line_def)
  have le: "scan (\<lambda>c. \<not> eol c) t n (length pre) = length pre + length l"
    using l n t by (intro scan_stop [OF t]) (auto simp: nth_append eol_def)
  have lt: "length pre < n" using n by simp
  show ?case
  proof (cases "field_named name l")
    case True
    have "map_option (\<lambda>(p, k). take k (drop p t)) (find_loop t n name (length pre)) = Some (field_value name l)"
      using field_found [OF t True] name_match_spec [OF t, of name] True lt
      by (subst find_loop.simps) (simp add: le Let_def)
    then show ?thesis using True by simp
  next
    case False
    have step: "find_loop t n name (length pre) = find_loop t n name (scan eol t n (length pre + length l))"
      using name_match_spec [OF t, of name] False lt by (subst find_loop.simps) (simp add: le Let_def)
    show ?thesis
    proof (cases ls)
      case Nil
      then have "rest = [CR, LF]" by (simp add: rest_def http_head_def)
      then have "scan eol t n (length pre + length l) = n" using eol_skip [OF t] n by simp
      then show ?thesis using step False Nil by (subst (asm) (2) find_loop.simps) simp
    next
      case (Cons l' ls')
      then have r: "rest \<noteq> []" "\<not> eol (hd rest)" "rest \<noteq> [CR, LF]"
        using Cons.prems(3) by (auto simp: rest_def http_head_def http_line_def neq_Nil_conv eol_def)
      then have "scan eol t n (length pre + length l) = length (pre @ l @ [CR, LF])" using eol_skip [OF t] n by simp
      moreover have "map_option (\<lambda>(p, k). take k (drop p t)) (find_loop t n name (length (pre @ l @ [CR, LF]))) =
          map_option (field_value name) (find (field_named name) ls)"
        using t n Cons.prems(3) Cons by (intro Cons.IH) (auto simp: rest_def)
      ultimately show ?thesis using step False by simp
    qed
  qed
qed simp

section \<open>The length of the body\<close>

definition is_digit :: "char \<Rightarrow> bool" where
  "is_digit c \<longleftrightarrow> of_char c \<ge> (48 :: nat) \<and> of_char c \<le> (57 :: nat)"

definition digit_of :: "char \<Rightarrow> nat" where
  "digit_of c = of_char c - 48"

definition decimal :: "nat \<Rightarrow> string \<Rightarrow> nat" where
  "decimal n v = foldl (\<lambda>n c. n * 10 + digit_of c) n v"

lemma decimal_simps [simp]: "decimal n [] = n" "decimal n (c # v) = decimal (n * 10 + digit_of c) v"
  by (simp_all add: decimal_def)

lemma digit_iff: "digit_at t i \<longleftrightarrow> is_digit (t ! i)" "digit_val t i = digit_of (t ! i)"
  by (simp_all add: digit_at_def digit_val_def is_digit_def digit_of_def)

lemma u64_step: "u64 (u64 n * 10 + d) = u64 (n * 10 + d)"
proof -
  have "(n mod m * 10 + d) mod m = (n * 10 + d) mod m" for m :: nat by (metis mod_add_left_eq mod_mult_left_eq)
  then show ?thesis unfolding u64_def .
qed

lemma length_loop_spec:
  "t = pre @ v @ post \<Longrightarrow> length_loop (length v) t (length pre) (u64 n) =
     (if \<forall>c \<in> set v. is_digit c then Some (u64 (decimal n v)) else None)"
proof (induction v arbitrary: pre n)
  case (Cons c v)
  have "length_loop (length v) t (length (pre @ [c])) (u64 (n * 10 + digit_of c)) =
      (if \<forall>c \<in> set v. is_digit c then Some (u64 (decimal (n * 10 + digit_of c) v)) else None)"
    using Cons.prems by (intro Cons.IH) simp
  moreover have "t ! length pre = c" using Cons.prems by simp
  ultimately show ?case by (simp add: digit_iff u64_step)
qed simp

text \<open>What \<open>HTTPContentLength\<close> makes of a field value.\<close>

definition length_of_value :: "string \<Rightarrow> nat option" where
  "length_of_value v = (if v \<noteq> [] \<and> (\<forall>c \<in> set v. is_digit c) then Some (decimal 0 v mod 2 ^ 64) else None)"

lemma content_length_value:
  assumes "HTTPFindHeader (Some t) (Some ''content-length'') = Some (p, k)" "t = pre @ v @ post" "p = length pre" "k = length v"
  shows "HTTPContentLength (Some t) = length_of_value v"
  using assms(1) length_loop_spec [OF assms(2), of 0]
  by (simp add: HTTPContentLength_def assms(3,4) length_of_value_def u64_def)

text \<open>A view that the search returns lies inside the response.\<close>

lemma trim_end_le: "trim_end t c f \<le> f"
  by (induction t c f rule: trim_end.induct) (subst trim_end.simps, auto intro: le_trans)

lemma find_loop_inside:
  "n \<le> length t \<Longrightarrow> find_loop t n name line = Some (p, k) \<Longrightarrow> k = 0 \<or> p + k \<le> length t"
proof (induction t n name line rule: find_loop.induct)
  case (1 t n name line)
  let ?e = "scan (\<lambda>c. \<not> eol c) t n line"
  have lt: "line < n" using "1.prems"(2) by (subst (asm) find_loop.simps) (auto split: if_splits)
  have e: "?e \<le> n" using lt by (intro scan_le) simp
  show ?case
  proof (cases "HTTPHeaderNameMatch t line (?e - line) (Some name)")
    case True
    then have pk: "p = scan blank t ?e (line + HTTPStringLength (Some name) + 1)" "k = trim_end t p ?e - p"
      using "1.prems"(2) lt by (subst (asm) find_loop.simps, simp add: Let_def)+
    have "trim_end t p ?e \<le> ?e" by (rule trim_end_le)
    then show ?thesis using e "1.prems"(1) pk(2) by linarith
  next
    case False
    then have "find_loop t n name (scan eol t n ?e) = Some (p, k)"
      using "1.prems"(2) lt by (subst (asm) find_loop.simps) (simp add: Let_def)
    then show ?thesis using "1.IH" [OF lt refl False] "1.prems"(1) by blast
  qed
qed

lemma find_header_text:
  assumes "ls \<noteq> []" "\<forall>l \<in> set ls. http_line l" "name \<noteq> []"
  shows "map_option (\<lambda>(p, k). take k (drop p (http_text ls body))) (HTTPFindHeader (Some (http_text ls body)) (Some name)) =
    map_option (field_value name) (find (field_named name) ls)"
proof -
  have "http_text ls body = [] @ http_head ls @ body" "length (http_head ls) = length ([] :: string) + length (http_head ls)"
    by (simp_all add: http_text_def)
  from find_loop_lines [OF this(1) assms(1,2) this(2)] show ?thesis
    using assms(3) header_length_text [OF assms(1,2)] by (simp add: HTTPFindHeader_def http_head_def)
qed

lemma content_length_text:
  assumes "ls \<noteq> []" "\<forall>l \<in> set ls. http_line l"
  shows "HTTPContentLength (Some (http_text ls body)) =
    (case find (field_named ''content-length'') ls of None \<Rightarrow> None | Some l \<Rightarrow> length_of_value (field_value ''content-length'' l))"
proof (cases "HTTPFindHeader (Some (http_text ls body)) (Some ''content-length'')")
  case None
  then show ?thesis using find_header_text [OF assms, of "''content-length''" body]
    by (auto simp: HTTPContentLength_def split: option.splits)
next
  case (Some pk)
  obtain p k where pk: "pk = (p, k)" by (cases pk) auto
  let ?t = "http_text ls body"
  obtain l where l: "find (field_named ''content-length'') ls = Some l" "take k (drop p ?t) = field_value ''content-length'' l"
    using find_header_text [OF assms, of "''content-length''" body] Some pk
    by (cases "find (field_named ''content-length'') ls") auto
  have "HTTPContentLength (Some ?t) = length_of_value (take k (drop p ?t))"
  proof (cases "k = 0")
    case True
    then show ?thesis using Some pk by (simp add: HTTPContentLength_def length_of_value_def)
  next
    case False
    have "find_loop ?t (length (http_head ls)) ''content-length'' 0 = Some (p, k)"
      using Some pk header_length_text [OF assms, of body] by (simp add: HTTPFindHeader_def http_head_def)
    then have "p + k \<le> length ?t" using find_loop_inside [of "length (http_head ls)" ?t] False by (auto simp: http_text_def)
    then show ?thesis using Some pk
      by (intro content_length_value [of _ p k "take p ?t" _ "drop k (drop p ?t)"]) (simp_all add: append_take_drop_id del: drop_drop)
  qed
  then show ?thesis using l by simp
qed

lemma body_text:
  assumes "ls \<noteq> []" "\<forall>l \<in> set ls. http_line l"
  shows "HTTPBody (Some (http_text ls body)) = Some (length (http_head ls), length body)"
  using header_length_text [OF assms, of body] by (simp add: HTTPBody_def HTTPParseHeader_def Let_def http_head_def http_text_def)

lemma response_complete:
  "HTTPResponseComplete response \<longleftrightarrow>
     (\<exists>p n c. HTTPBody response = Some (p, n) \<and> HTTPContentLength response = Some c \<and> c \<le> n)"
  by (auto simp: HTTPResponseComplete_def HTTPParseResponse_def HTTPBody_def Let_def)

section \<open>The status line\<close>

definition status_text :: "string \<Rightarrow> string \<Rightarrow> string \<Rightarrow> string \<Rightarrow> string" where
  "status_text ver code r rest = ''HTTP/'' @ ver @ '' '' @ code @ '' '' @ r @ CR # rest"

lemma five: "length ''HTTP/'' = 5"
  by simp

lemma status_code_text:
  assumes "\<forall>c \<in> set ver. c \<noteq> CHR '' ''" "length code = 3" "\<forall>c \<in> set code. is_digit c" "ver \<noteq> []"
  shows "HTTPParseStatusCode (Some (status_text ver code r rest)) = decimal 0 code"
proof -
  obtain d1 d2 d3 where d: "code = [d1, d2, d3]" using assms(2) by (auto simp: length_Suc_conv numeral_3_eq_3)
  let ?t = "status_text ver code r rest"
  have t: "?t = ''HTTP/'' @ ver @ CHR '' '' # d1 # d2 # d3 # '' '' @ r @ CR # rest" by (simp add: status_text_def d)
  have at: "?t ! (5 + length ver) = CHR '' ''" "?t ! (5 + length ver + 1) = d1" "?t ! (5 + length ver + 2) = d2"
    "?t ! (5 + length ver + 3) = d3" unfolding t by (simp_all add: nth_append nth_Cons')
  have "scan (\<lambda>c. c \<noteq> CHR '' '') ?t (length ?t) (length ''HTTP/'') = length ''HTTP/'' + length ver"
    using assms(1) at(1) by (intro scan_stop [OF t]) (simp_all add: t)
  from this [unfolded five] have sc: "scan (\<lambda>c. c \<noteq> CHR '' '') ?t (length ?t) 5 = 5 + length ver" .
  have "length ?t = length ver + length r + length rest + 11" unfolding t by simp
  moreover have "0 < length ver" using assms(4) by simp
  ultimately have len: "12 \<le> length ?t" "5 + length ver + 4 \<le> length ?t" by linarith+
  have pre: "?t ! 0 = CHR ''H''" "?t ! 1 = CHR ''T''" "?t ! 2 = CHR ''T''" "?t ! 3 = CHR ''P''" "?t ! 4 = CHR ''/''"
    by (simp_all add: t nth_Cons')
  have dig: "is_digit d1" "is_digit d2" "is_digit d3" using assms(3) d by simp_all
  show ?thesis
    unfolding HTTPParseStatusCode_def option.case pre sc Let_def digit_iff at
    using len dig by (simp add: d)
qed

lemma skip_space_at: "t = pre @ CHR '' '' # post \<Longrightarrow> skip_space t (length pre) = length pre + 1"
  by (simp add: skip_space_def)

lemma status_line_text:
  assumes "\<forall>c \<in> set ver. c \<noteq> CHR '' '' \<and> \<not> eol c" "ver \<noteq> []" "length code = 3" "\<forall>c \<in> set code. is_digit c"
    "decimal 0 code \<noteq> 0" "\<forall>c \<in> set r. \<not> eol c"
  shows "HTTPParseStatusLine (Some (status_text ver code r rest)) =
    Some \<lparr>status_code = decimal 0 code mod 2 ^ 16, reason = length ver + 10, reason_length = length r\<rparr>"
proof -
  let ?t = "status_text ver code r rest"
  have c: "HTTPParseStatusCode (Some ?t) = decimal 0 code" using assms by (intro status_code_text) auto
  have t1: "?t = [] @ (''HTTP/'' @ ver) @ '' '' @ code @ '' '' @ r @ CR # rest" by (simp add: status_text_def)
  have "scan (\<lambda>c. c \<noteq> CHR '' '' \<and> c \<noteq> CR \<and> c \<noteq> LF) ?t (length ?t) (length ([] :: string)) = length ([] :: string) + length (''HTTP/'' @ ver)"
    using assms(1) by (intro scan_stop [OF t1]) (auto simp: t1 eol_def nth_append)
  then have s1: "scan (\<lambda>c. c \<noteq> CHR '' '' \<and> c \<noteq> CR \<and> c \<noteq> LF) ?t (length ?t) 0 = length (''HTTP/'' @ ver)" by simp
  have t2: "?t = (''HTTP/'' @ ver) @ CHR '' '' # code @ '' '' @ r @ CR # rest" by (simp add: status_text_def)
  have t3: "?t = (''HTTP/'' @ ver @ '' '') @ code @ '' '' @ r @ CR # rest" by (simp add: status_text_def)
  have sp: "\<not> (of_char (CHR '' '') \<ge> (48 :: nat))" by simp
  have s3: "scan (\<lambda>c. of_char c \<ge> (48 :: nat) \<and> of_char c \<le> (57 :: nat)) ?t (length ?t) (length (''HTTP/'' @ ver @ '' '')) =
      length (''HTTP/'' @ ver @ '' '') + length code"
  proof (rule scan_stop [OF t3])
    have "?t ! (length (''HTTP/'' @ ver @ '' '') + length code) = CHR '' ''" unfolding t3 by (simp add: nth_append)
    then show "length (''HTTP/'' @ ver @ '' '') + length code = length ?t \<or>
        \<not> (of_char (?t ! (length (''HTTP/'' @ ver @ '' '') + length code)) \<ge> (48 :: nat) \<and>
           of_char (?t ! (length (''HTTP/'' @ ver @ '' '') + length code)) \<le> (57 :: nat))" using sp by metis
  qed (use assms(4) in \<open>auto simp: is_digit_def t3\<close>)
  have t4: "?t = (''HTTP/'' @ ver @ '' '' @ code) @ CHR '' '' # r @ CR # rest" by (simp add: status_text_def)
  have t5: "?t = (''HTTP/'' @ ver @ '' '' @ code @ '' '') @ r @ CR # rest" by (simp add: status_text_def)
  have s5: "scan (\<lambda>c. c \<noteq> CR \<and> c \<noteq> LF) ?t (length ?t) (length (''HTTP/'' @ ver @ '' '' @ code @ '' '')) =
      length (''HTTP/'' @ ver @ '' '' @ code @ '' '') + length r"
  proof (rule scan_stop [OF t5])
    have "?t ! (length (''HTTP/'' @ ver @ '' '' @ code @ '' '') + length r) = CR" unfolding t5 by (simp add: nth_append)
    then show "length (''HTTP/'' @ ver @ '' '' @ code @ '' '') + length r = length ?t \<or>
        \<not> (?t ! (length (''HTTP/'' @ ver @ '' '' @ code @ '' '') + length r) \<noteq> CR \<and>
           ?t ! (length (''HTTP/'' @ ver @ '' '' @ code @ '' '') + length r) \<noteq> LF)" by metis
  qed (use assms(6) in \<open>auto simp: eol_def t5\<close>)
  have k1: "skip_space ?t (length (''HTTP/'' @ ver)) = length (''HTTP/'' @ ver @ '' '')" unfolding skip_space_at [OF t2] by simp
  have k2: "skip_space ?t (length (''HTTP/'' @ ver @ '' '') + length code) = length (''HTTP/'' @ ver @ '' '' @ code @ '' '')"
    using skip_space_at [OF t4] by simp
  show ?thesis
    unfolding HTTPParseStatusLine_def Let_def c option.sel s1 k1 s3 k2 s5 using assms(3,5) by simp
qed

section \<open>Properties\<close>

text \<open>
  \<open>HTTPBuildGET\<close> writes the request for a path (the root when none is given) with its terminator
  into a buffer that has room for it and returns its length; otherwise it returns -1 and leaves the
  buffer as it was.
\<close>

lemma http_get_built:
  assumes "host \<noteq> []" and "capacity \<le> length buf"
  shows "let p = (case path of Some (c # cs) \<Rightarrow> c # cs | _ \<Rightarrow> ''/'');
             req = ''GET '' @ p @ '' HTTP/1.0'' @ [CR, LF] @ ''Host: '' @ host @ [CR, LF] @ ''Connection: close'' @ [CR, LF, CR, LF] in
    HTTPBuildGET (Some buf) capacity (Some host) path =
      (if length req < capacity then (int (length req), Some (req @ NUL # drop (length req + 1) buf)) else (- 1, Some buf))"
  using assms by (auto simp: HTTPBuildGET_def Let_def patch_def split: option.splits list.splits)

lemma http_get_built_example:
  "HTTPBuildGET (Some (replicate 64 NUL)) 64 (Some ''h'') None =
     (46, Some (''GET / HTTP/1.0'' @ [CR, LF] @ ''Host: h'' @ [CR, LF] @ ''Connection: close'' @ [CR, LF, CR, LF] @ replicate 18 NUL))"
  using http_get_built [of "''h''" 64 "replicate 64 NUL" None] by (simp add: numeral_eq_Suc)

lemma http_status_read:
  assumes "\<forall>c \<in> set ver. c \<noteq> CHR '' '' \<and> \<not> eol c" and "ver \<noteq> []" and "length code = 3" and "\<forall>c \<in> set code. is_digit c"
    and "\<forall>c \<in> set r. \<not> eol c"
  shows "HTTPParseStatusLine (Some (status_text ver code r rest)) =
    (if decimal 0 code = 0 then None
     else Some \<lparr>status_code = decimal 0 code mod 2 ^ 16, reason = length ver + 10, reason_length = length r\<rparr>)"
proof (cases "decimal 0 code = 0")
  case True
  have "HTTPParseStatusCode (Some (status_text ver code r rest)) = 0"
    using status_code_text [of ver code r rest] assms(1-4) True by metis
  then show ?thesis using True by (simp add: HTTPParseStatusLine_def Let_def)
next
  case False
  then show ?thesis using status_line_text [OF assms(1-4) False assms(5)] by simp
qed

lemma http_fields_read:
  assumes "ls \<noteq> []" and "\<forall>l \<in> set ls. http_line l" and "name \<noteq> []"
  shows "map_option (\<lambda>(p, k). take k (drop p (http_text ls body))) (HTTPFindHeader (Some (http_text ls body)) (Some name)) =
      map_option (field_value name) (find (field_named name) ls) \<and>
    map_option (\<lambda>(p, k). take k (drop p (http_text ls body))) (HTTPCompleteBody (Some (http_text ls body))) =
      (case find (field_named ''content-length'') ls of
         None \<Rightarrow> None
       | Some l \<Rightarrow>
           (let v = field_value ''content-length'' l in
            if v \<noteq> [] \<and> (\<forall>c \<in> set v. is_digit c) \<and> decimal 0 v mod 2 ^ 64 \<le> length body then Some body else None))"
  using find_header_text [OF assms] content_length_text [OF assms(1,2), of body] body_text [OF assms(1,2), of body]
  by (auto simp: HTTPCompleteBody_def response_complete length_of_value_def http_text_def Let_def split: option.splits)

text \<open>
  C31. A response of CR LF lines is read as it is written. The status line \<open>HTTP/version code reason\<close>
  gives its three digit code and the view of its reason (a code of 000 is no status line).
  \<open>HTTPFindHeader\<close> returns the value, without the blanks around it, of the first line whose field name
  is the given one up to the case of letters, and nothing when there is none. \<open>HTTPCompleteBody\<close> returns
  the body exactly when the content length is a decimal number whose remainder modulo \<open>2 ^ 64\<close> is not
  larger than the bytes that have arrived; the number itself is not checked for its size.
\<close>

theorem http_response_read:
  assumes "\<forall>c \<in> set ver. c \<noteq> CHR '' '' \<and> \<not> eol c" and "ver \<noteq> []" and "length code = 3" and "\<forall>c \<in> set code. is_digit c"
    and "\<forall>c \<in> set r. \<not> eol c" and "\<forall>l \<in> set fs. http_line l" and "name \<noteq> []"
    and "ls = (''HTTP/'' @ ver @ '' '' @ code @ '' '' @ r) # fs"
  shows "HTTPParseStatusLine (Some (http_text ls body)) = (if decimal 0 code = 0 then None
      else Some \<lparr>status_code = decimal 0 code mod 2 ^ 16, reason = length ver + 10, reason_length = length r\<rparr>) \<and>
    map_option (\<lambda>(p, k). take k (drop p (http_text ls body))) (HTTPFindHeader (Some (http_text ls body)) (Some name)) =
      map_option (field_value name) (find (field_named name) ls) \<and>
    map_option (\<lambda>(p, k). take k (drop p (http_text ls body))) (HTTPCompleteBody (Some (http_text ls body))) =
      (case find (field_named ''content-length'') ls of
         None \<Rightarrow> None
       | Some l \<Rightarrow>
           (let v = field_value ''content-length'' l in
            if v \<noteq> [] \<and> (\<forall>c \<in> set v. is_digit c) \<and> decimal 0 v mod 2 ^ 64 \<le> length body then Some body else None))"
proof -
  have dig: "is_digit c \<Longrightarrow> \<not> eol c" for c by (auto simp: is_digit_def eol_def)
  have ver: "\<forall>c \<in> set ver. \<not> eol c" "\<forall>c \<in> set code. \<not> eol c" using assms(1,4) dig by blast+
  have "\<forall>c \<in> set ''HTTP/''. \<not> eol c" by (simp add: eol_def)
  then have "http_line (''HTTP/'' @ ver @ '' '' @ code @ '' '' @ r)"
    using ver assms(5) by (simp add: http_line_def eol_def ball_Un)
  then have lines: "ls \<noteq> []" "\<forall>l \<in> set ls. http_line l" using assms(6,8) by simp_all
  have t: "http_text ls body = status_text ver code r (LF # http_head fs @ body)"
    using assms(8) by (simp add: http_text_def http_head_def status_text_def)
  show ?thesis using http_status_read [OF assms(1-5), of "LF # http_head fs @ body", folded t] http_fields_read [OF lines assms(7), of body]
    by blast
qed

theorem http_response_read_witness:
  "HTTPParseStatusLine (Some (http_text [''HTTP/1.0 200 OK'', ''Content-Length:  2''] ''hi'')) =
     Some \<lparr>status_code = 200, reason = 13, reason_length = 2\<rparr> \<and>
   map_option (\<lambda>(p, k). take k (drop p (http_text [''HTTP/1.0 200 OK'', ''Content-Length:  2''] ''hi'')))
     (HTTPCompleteBody (Some (http_text [''HTTP/1.0 200 OK'', ''Content-Length:  2''] ''hi''))) = Some ''hi''"
proof -
  have "field_named ''content-length'' ''Content-Length:  2''" "\<not> field_named ''content-length'' ''HTTP/1.0 200 OK''"
    by (simp_all add: field_named_def HTTPAsciiEqual_def http_lower_def char_of_def bit_Suc_0_iff)
  moreover have "field_value ''content-length'' ''Content-Length:  2'' = ''2''"
    by (simp add: field_value_def http_trim_def blank_def)
  moreover have "\<forall>l \<in> set [''Content-Length:  2'']. http_line l"
    by (simp add: http_line_def eol_def)
  ultimately show ?thesis
    using http_response_read [of "''1.0''" "''200''" "''OK''" "[''Content-Length:  2'']" "''a''" "[''HTTP/1.0 200 OK'', ''Content-Length:  2'']" "''hi''"]
    by (simp add: is_digit_def digit_of_def eol_def Let_def)
qed

end
