(* ===== verification/DHCP.thy ===== *)
theory DHCP
  imports NetIP
begin

text \<open>
  The DHCP client of \<open>src/inc/cpp/System/Network/Layer/Application/DHCP.hpp\<close>: the options of a message,
  the three messages a client sends and the client object.

  A received message is the list of bytes from the payload pointer on and its length, as in \<open>NetIP\<close>.
  Message types and option codes are bytes, because the source converts any received byte to them.
  A builder returns the number of bytes of the message and the buffer afterwards.
\<close>

section \<open>Constants\<close>

definition DHCPOptionsOffset :: nat where "DHCPOptionsOffset = 240"
definition DHCPMagicCookieOffset :: nat where "DHCPMagicCookieOffset = 236"
definition DHCPMinMessageLength :: nat where "DHCPMinMessageLength = 240"
definition DHCPDiscoverMinLength :: nat where "DHCPDiscoverMinLength = 244"
definition DHCPRequestMinLength :: nat where "DHCPRequestMinLength = 256"
definition DHCPReleaseMinLength :: nat where "DHCPReleaseMinLength = 250"
definition DHCPMagicCookie :: nat where "DHCPMagicCookie = 0x63825363"

definition DHCP_Discover :: byte where "DHCP_Discover = 1"
definition DHCP_Offer :: byte where "DHCP_Offer = 2"
definition DHCP_Request :: byte where "DHCP_Request = 3"
definition DHCP_Ack :: byte where "DHCP_Ack = 5"
definition DHCP_Nak :: byte where "DHCP_Nak = 6"
definition DHCP_Release :: byte where "DHCP_Release = 7"

definition Option_Pad :: byte where "Option_Pad = 0"
definition Option_SubnetMask :: byte where "Option_SubnetMask = 1"
definition Option_Router :: byte where "Option_Router = 3"
definition Option_DomainNameServer :: byte where "Option_DomainNameServer = 6"
definition Option_RequestedAddress :: byte where "Option_RequestedAddress = 50"
definition Option_LeaseTime :: byte where "Option_LeaseTime = 51"
definition Option_MessageType :: byte where "Option_MessageType = 53"
definition Option_ServerIdentifier :: byte where "Option_ServerIdentifier = 54"
definition Option_End :: byte where "Option_End = 255"

lemmas option_codes = Option_Pad_def Option_SubnetMask_def Option_Router_def Option_DomainNameServer_def
  Option_RequestedAddress_def Option_LeaseTime_def Option_MessageType_def Option_ServerIdentifier_def Option_End_def

section \<open>Messages\<close>

record DHCPOptionView =
  ov_code :: byte
  ov_data :: mem
  ov_length :: nat

record DHCPMessageView =
  dm_header :: mem
  dm_options :: mem
  options_length :: nat
  dm_xid :: nat
  client_address :: ip4
  your_address :: ip4
  server_address :: ip4
  relay_address :: ip4

definition DHCPWrite32 :: "nat \<Rightarrow> byte list" where
  "DHCPWrite32 v = [of_nat (v div 2 ^ 24), of_nat (v div 2 ^ 16), of_nat (v div 2 ^ 8), of_nat v]"

definition DHCPRead32 :: "byte list \<Rightarrow> nat" where
  "DHCPRead32 d = unat (d ! 0) * 2 ^ 24 + unat (d ! 1) * 2 ^ 16 + unat (d ! 2) * 2 ^ 8 + unat (d ! 3)"

definition DHCPHasMagicCookie :: "byte list \<Rightarrow> bool" where
  "DHCPHasMagicCookie d \<longleftrightarrow> DHCPRead32 d = DHCPMagicCookie"

definition ParseDHCPMessage :: "mem option \<Rightarrow> nat \<Rightarrow> DHCPMessageView option" where
  "ParseDHCPMessage payload len =
    (case payload of None \<Rightarrow> None
     | Some p \<Rightarrow>
         if len < DHCPMinMessageLength then None
         else if \<not> DHCPHasMagicCookie (drop DHCPMagicCookieOffset p) then None
         else Some \<lparr>dm_header = p, dm_options = drop DHCPOptionsOffset p, options_length = len - DHCPOptionsOffset,
           dm_xid = DHCPRead32 (drop 4 p), client_address = IPv4CopyAddress (drop 12 p),
           your_address = IPv4CopyAddress (drop 16 p), server_address = IPv4CopyAddress (drop 20 p),
           relay_address = IPv4CopyAddress (drop 24 p)\<rparr>)"

text \<open>The walk over the options: \<open>i\<close> is \<open>index\<close> at the head of the loop.\<close>

function option_loop :: "mem \<Rightarrow> nat \<Rightarrow> byte \<Rightarrow> nat \<Rightarrow> DHCPOptionView option" where
  "option_loop opts n option i =
    (if i < n
     then
       (let code = opts ! i; i1 = i + 1 in
        if code = Option_Pad then option_loop opts n option i1
        else if code = Option_End then None
        else if i1 \<ge> n then None
        else
          (let len = unat (opts ! i1); i2 = i1 + 1 in
           if i2 + len > n then None
           else if code = option then Some \<lparr>ov_code = code, ov_data = drop i2 opts, ov_length = len\<rparr>
           else option_loop opts n option (i2 + len)))
     else None)"
  by pat_completeness auto
termination by (relation "measure (\<lambda>(opts, n, option, i). n - i)") auto

declare option_loop.simps [simp del]

definition DHCPFindOption :: "DHCPMessageView \<Rightarrow> byte \<Rightarrow> DHCPOptionView option" where
  "DHCPFindOption message option = option_loop (dm_options message) (options_length message) option 0"

definition DHCPReadMessageType :: "DHCPMessageView \<Rightarrow> byte option" where
  "DHCPReadMessageType message =
    (case DHCPFindOption message Option_MessageType of None \<Rightarrow> None
     | Some v \<Rightarrow> if ov_length v \<noteq> 1 then None else Some (ov_data v ! 0))"

definition DHCPReadIPv4Option :: "DHCPMessageView \<Rightarrow> byte \<Rightarrow> ip4 option" where
  "DHCPReadIPv4Option message option =
    (case DHCPFindOption message option of None \<Rightarrow> None
     | Some v \<Rightarrow> if ov_length v < IPv4AddressLength then None else Some (IPv4CopyAddress (ov_data v)))"

definition DHCPReadIPv4ListOption :: "DHCPMessageView \<Rightarrow> byte \<Rightarrow> nat \<Rightarrow> ip4 list" where
  "DHCPReadIPv4ListOption message option capacity =
    (if capacity = 0 then []
     else case DHCPFindOption message option of None \<Rightarrow> []
     | Some v \<Rightarrow>
         if ov_length v < IPv4AddressLength then []
         else (let cnt = min (ov_length v div IPv4AddressLength) capacity in
               map (\<lambda>i. IPv4CopyAddress (drop (i * IPv4AddressLength) (ov_data v))) [0..<cnt]))"

definition DHCPReadU32Option :: "DHCPMessageView \<Rightarrow> byte \<Rightarrow> nat option" where
  "DHCPReadU32Option message option =
    (case DHCPFindOption message option of None \<Rightarrow> None
     | Some v \<Rightarrow> if ov_length v \<noteq> 4 then None else Some (DHCPRead32 (ov_data v)))"

section \<open>The configuration\<close>

record DHCPClientConfig =
  dc_address :: ip4
  dc_netmask :: ip4
  dc_router :: ip4
  dc_server :: ip4
  dc_dns :: ip4
  dns_servers :: "ip4 list"
  dns_count :: nat
  lease_time :: nat
  message_type :: byte
  has_address :: bool
  has_netmask :: bool
  has_router :: bool
  has_server :: bool
  has_dns :: bool
  has_lease_time :: bool

definition DNSServerCapacity :: nat where "DNSServerCapacity = 4"

definition zero_ip :: ip4 where "zero_ip = replicate 4 0"

definition no_config :: DHCPClientConfig where
  "no_config = \<lparr>dc_address = zero_ip, dc_netmask = zero_ip, dc_router = zero_ip, dc_server = zero_ip, dc_dns = zero_ip,
     dns_servers = replicate DNSServerCapacity zero_ip, dns_count = 0, lease_time = 0, message_type = 0,
     has_address = False, has_netmask = False, has_router = False, has_server = False, has_dns = False,
     has_lease_time = False\<rparr>"

definition ip_or_zero :: "ip4 option \<Rightarrow> ip4" where
  "ip_or_zero a = (case a of None \<Rightarrow> zero_ip | Some a \<Rightarrow> a)"

text \<open>The result and the configuration, which is only begun when there is no message type.\<close>

definition DHCPReadClientConfig :: "DHCPMessageView \<Rightarrow> bool \<times> DHCPClientConfig" where
  "DHCPReadClientConfig message =
    (let config = no_config\<lparr>dc_address := your_address message,
           has_address := \<not> IPv4Address_isZero (your_address message)\<rparr> in
     case DHCPReadMessageType message of
       None \<Rightarrow> (False, config)
     | Some type \<Rightarrow>
         (let netmask = DHCPReadIPv4Option message Option_SubnetMask;
              router = DHCPReadIPv4Option message Option_Router;
              server = DHCPReadIPv4Option message Option_ServerIdentifier;
              servers = DHCPReadIPv4ListOption message Option_DomainNameServer DNSServerCapacity;
              lease = DHCPReadU32Option message Option_LeaseTime in
          (True, config\<lparr>message_type := type,
             dc_netmask := ip_or_zero netmask, has_netmask := netmask \<noteq> None,
             dc_router := ip_or_zero router, has_router := router \<noteq> None,
             dc_server := ip_or_zero server, has_server := server \<noteq> None,
             dns_servers := patch (dns_servers config) 0 servers, dns_count := length servers,
             has_dns := length servers \<noteq> 0,
             dc_dns := (if length servers \<noteq> 0 then servers ! 0 else zero_ip),
             lease_time := (case lease of None \<Rightarrow> 0 | Some n \<Rightarrow> n), has_lease_time := lease \<noteq> None\<rparr>)))"

section \<open>Building messages\<close>

text \<open>A buffer and the cursor in it.\<close>

definition DHCPAppendOption :: "mem \<times> nat \<Rightarrow> byte \<Rightarrow> byte list \<Rightarrow> mem \<times> nat" where
  "DHCPAppendOption bc code d =
    (case bc of (b, cursor) \<Rightarrow> (patch b cursor (code # of_nat (length d) # d), cursor + 2 + length d))"

definition DHCPAppendMessageType :: "mem \<times> nat \<Rightarrow> byte \<Rightarrow> mem \<times> nat" where
  "DHCPAppendMessageType bc type = DHCPAppendOption bc Option_MessageType [type]"

definition DHCPAppendIPv4Option :: "mem \<times> nat \<Rightarrow> byte \<Rightarrow> ip4 \<Rightarrow> mem \<times> nat" where
  "DHCPAppendIPv4Option bc option address = DHCPAppendOption bc option (take IPv4AddressLength address)"

definition dhcp_end :: "mem \<times> nat \<Rightarrow> nat \<times> mem" where
  "dhcp_end bc = (case bc of (b, cursor) \<Rightarrow> (cursor + 1, patch b cursor [Option_End]))"

text \<open>The zeroed buffer with the fields every client message starts with.\<close>

definition dhcp_head :: "mem \<Rightarrow> nat \<Rightarrow> nat \<Rightarrow> mem" where
  "dhcp_head buf capacity xid =
    patch (patch (patch buf 0 (replicate capacity 0)) 0 [1, 1, of_nat EthernetAddressLength]) 4 (DHCPWrite32 xid)"

definition dhcp_address_and_cookie :: "mem \<Rightarrow> mac \<Rightarrow> mem" where
  "dhcp_address_and_cookie b m =
    patch (patch b 28 (take EthernetAddressLength m)) DHCPMagicCookieOffset (DHCPWrite32 DHCPMagicCookie)"

definition BuildDHCPDiscover :: "mem option \<Rightarrow> nat \<Rightarrow> mac \<Rightarrow> nat \<Rightarrow> nat \<times> mem option" where
  "BuildDHCPDiscover buffer capacity mac xid =
    (case buffer of None \<Rightarrow> (0, None)
     | Some buf \<Rightarrow>
         if capacity < DHCPDiscoverMinLength \<or> MacAddress_isZero mac then (0, Some buf)
         else
           (let b = patch (dhcp_head buf capacity xid) 10 (EthernetWrite16 0x8000);
                b = dhcp_address_and_cookie b mac;
                option = (b, DHCPOptionsOffset);
                option = DHCPAppendMessageType option DHCP_Discover;
                (n, b) = dhcp_end option in
            (n, Some b)))"

definition BuildDHCPRequest :: "mem option \<Rightarrow> nat \<Rightarrow> mac \<Rightarrow> nat \<Rightarrow> ip4 \<Rightarrow> ip4 \<Rightarrow> nat \<times> mem option" where
  "BuildDHCPRequest buffer capacity mac xid requested_address server_identifier =
    (case buffer of None \<Rightarrow> (0, None)
     | Some buf \<Rightarrow>
         if capacity < DHCPRequestMinLength \<or> MacAddress_isZero mac \<or> IPv4Address_isZero requested_address \<or>
            IPv4Address_isZero server_identifier then (0, Some buf)
         else
           (let b = patch (dhcp_head buf capacity xid) 10 (EthernetWrite16 0x8000);
                b = dhcp_address_and_cookie b mac;
                option = (b, DHCPOptionsOffset);
                option = DHCPAppendMessageType option DHCP_Request;
                option = DHCPAppendIPv4Option option Option_RequestedAddress requested_address;
                option = DHCPAppendIPv4Option option Option_ServerIdentifier server_identifier;
                (n, b) = dhcp_end option in
            (n, Some b)))"

definition BuildDHCPRelease :: "mem option \<Rightarrow> nat \<Rightarrow> mac \<Rightarrow> nat \<Rightarrow> ip4 \<Rightarrow> ip4 \<Rightarrow> nat \<times> mem option" where
  "BuildDHCPRelease buffer capacity mac xid addr server_identifier =
    (case buffer of None \<Rightarrow> (0, None)
     | Some buf \<Rightarrow>
         if capacity < DHCPReleaseMinLength \<or> MacAddress_isZero mac \<or> IPv4Address_isZero addr \<or>
            IPv4Address_isZero server_identifier then (0, Some buf)
         else
           (let b = patch (dhcp_head buf capacity xid) 12 (take IPv4AddressLength addr);
                b = dhcp_address_and_cookie b mac;
                option = (b, DHCPOptionsOffset);
                option = DHCPAppendMessageType option DHCP_Release;
                option = DHCPAppendIPv4Option option Option_ServerIdentifier server_identifier;
                (n, b) = dhcp_end option in
            (n, Some b)))"

section \<open>The client object\<close>

datatype DHCPClientState = Init | Discovering | Offered | Requesting | Bound | Nak

record DHCPClientObject =
  dhcp_xid :: nat
  dhcp_state :: DHCPClientState
  dhcp_offer :: DHCPClientConfig
  dhcp_bound :: DHCPClientConfig

definition dhcp_Reset :: DHCPClientObject where
  "dhcp_Reset = \<lparr>dhcp_xid = 0, dhcp_state = Init, dhcp_offer = no_config, dhcp_bound = no_config\<rparr>"

definition dhcp_Begin :: "nat \<Rightarrow> DHCPClientObject" where
  "dhcp_Begin xid = \<lparr>dhcp_xid = xid, dhcp_state = Discovering, dhcp_offer = no_config, dhcp_bound = no_config\<rparr>"

definition hasOffer :: "DHCPClientObject \<Rightarrow> bool" where
  "hasOffer c \<longleftrightarrow> dhcp_state c = Offered \<or> dhcp_state c = Requesting \<or> dhcp_state c = Bound"

definition isBound :: "DHCPClientObject \<Rightarrow> bool" where
  "isBound c \<longleftrightarrow> dhcp_state c = Bound"

definition BuildDiscover :: "DHCPClientObject \<Rightarrow> mem option \<Rightarrow> nat \<Rightarrow> mac \<Rightarrow> nat \<times> mem option" where
  "BuildDiscover c buffer capacity mac =
    (if dhcp_xid c = 0 then (0, buffer) else BuildDHCPDiscover buffer capacity mac (dhcp_xid c))"

definition BuildRequest :: "DHCPClientObject \<Rightarrow> mem option \<Rightarrow> nat \<Rightarrow> mac \<Rightarrow> nat \<times> mem option \<times> DHCPClientObject" where
  "BuildRequest c buffer capacity mac =
    (if \<not> hasOffer c \<or> \<not> has_address (dhcp_offer c) \<or> \<not> has_server (dhcp_offer c) then (0, buffer, c)
     else
       (let (n, b) = BuildDHCPRequest buffer capacity mac (dhcp_xid c) (dc_address (dhcp_offer c)) (dc_server (dhcp_offer c)) in
        (n, b, if n \<noteq> 0 then c\<lparr>dhcp_state := Requesting\<rparr> else c)))"

definition BuildRelease :: "DHCPClientObject \<Rightarrow> mem option \<Rightarrow> nat \<Rightarrow> mac \<Rightarrow> nat \<times> mem option" where
  "BuildRelease c buffer capacity mac =
    (if \<not> isBound c \<or> \<not> has_address (dhcp_bound c) \<or> \<not> has_server (dhcp_bound c) then (0, buffer)
     else BuildDHCPRelease buffer capacity mac (dhcp_xid c) (dc_address (dhcp_bound c)) (dc_server (dhcp_bound c)))"

text \<open>The result, the configuration that was read and the client.\<close>

definition AcceptMessage :: "DHCPClientObject \<Rightarrow> mem option \<Rightarrow> nat \<Rightarrow> DHCPClientConfig \<Rightarrow> bool \<times> DHCPClientConfig \<times> DHCPClientObject" where
  "AcceptMessage c payload len config0 =
    (case ParseDHCPMessage payload len of
       None \<Rightarrow> (False, config0, c)
     | Some message \<Rightarrow>
         if dhcp_xid c \<noteq> 0 \<and> dm_xid message \<noteq> dhcp_xid c then (False, config0, c)
         else
           (let (ok, config) = DHCPReadClientConfig message in
            if \<not> ok then (False, config, c)
            else if message_type config = DHCP_Offer then (True, config, c\<lparr>dhcp_offer := config, dhcp_state := Offered\<rparr>)
            else if message_type config = DHCP_Ack then (True, config, c\<lparr>dhcp_bound := config, dhcp_state := Bound\<rparr>)
            else if message_type config = DHCP_Nak then (True, config, c\<lparr>dhcp_state := Nak\<rparr>)
            else (True, config, c)))"

section \<open>Options\<close>

definition encode_options :: "(byte \<times> byte list) list \<Rightarrow> byte list" where
  "encode_options os = concat (map (\<lambda>(c, d). c # of_nat (length d) # d) os) @ [Option_End]"

definition option_ok :: "byte \<times> byte list \<Rightarrow> bool" where
  "option_ok o1 \<longleftrightarrow> fst o1 \<noteq> Option_Pad \<and> fst o1 \<noteq> Option_End \<and> length (snd o1) < 256"

lemma option_loop_encoded:
  "opts = pre @ encode_options os @ rest \<Longrightarrow> \<forall>o1 \<in> set os. option_ok o1 \<Longrightarrow> length pre + length (encode_options os) \<le> n \<Longrightarrow>
   (case map_of os option of
      None \<Rightarrow> option_loop opts n option (length pre) = None
    | Some d \<Rightarrow> \<exists>tl. option_loop opts n option (length pre) = Some \<lparr>ov_code = option, ov_data = d @ tl, ov_length = length d\<rparr>)"
proof (induction os arbitrary: pre)
  case Nil
  then show ?case by (subst option_loop.simps) (simp add: encode_options_def option_codes)
next
  case (Cons o1 os)
  obtain c d where o1: "o1 = (c, d)" by (cases o1) auto
  have c: "c \<noteq> Option_Pad" "c \<noteq> Option_End" "length d < 256" using Cons.prems(2) by (auto simp: o1 option_ok_def)
  have opts: "opts = pre @ c # of_nat (length d) # d @ encode_options os @ rest"
    using Cons.prems(1) by (simp add: encode_options_def o1)
  have len: "unat (of_nat (length d) :: byte) = length d" using c(3) by (simp add: unat_byte)
  have n: "length pre + 2 + length d + length (encode_options os) \<le> n"
    using Cons.prems(3) by (simp add: encode_options_def o1)
  have at: "opts ! length pre = c" "opts ! (length pre + 1) = of_nat (length d)" "drop (length pre + 2) opts = d @ encode_options os @ rest"
    unfolding opts by (simp_all add: nth_append)
  have step: "option_loop opts n option (length pre) =
      (if c = option then Some \<lparr>ov_code = c, ov_data = drop (length pre + 2) opts, ov_length = length d\<rparr>
       else option_loop opts n option (length pre + 2 + length d))"
    using n c at(1,2) len by (subst option_loop.simps) (simp add: Let_def)
  show ?case
  proof (cases "c = option")
    case True
    then show ?thesis unfolding step at(3) by (simp add: o1)
  next
    case False
    have "case map_of os option of
      None \<Rightarrow> option_loop opts n option (length (pre @ c # of_nat (length d) # d)) = None
    | Some d' \<Rightarrow> \<exists>tl. option_loop opts n option (length (pre @ c # of_nat (length d) # d)) =
        Some \<lparr>ov_code = option, ov_data = d' @ tl, ov_length = length d'\<rparr>"
      using Cons.prems(2) opts n by (intro Cons.IH) auto
    moreover have "length (pre @ c # of_nat (length d) # d) = length pre + 2 + length d" by simp
    ultimately show ?thesis using False unfolding step by (simp only: o1 map_of.simps fst_conv snd_conv fun_upd_apply if_False) simp
  qed
qed

section \<open>Reading back\<close>

lemma take_drop_patch_other:
  assumes "i + length ys \<le> length xs" "k + n \<le> i \<or> i + length ys \<le> k" "k + n \<le> length xs"
  shows "take n (drop k (patch xs i ys)) = take n (drop k xs)"
  using assms by (intro nth_equalityI) (auto simp: nth_patch)

lemma Read32_take: "DHCPRead32 d = DHCPRead32 (take 4 d)"
  by (simp add: DHCPRead32_def)

lemma Read32_Write32: "v < 2 ^ 32 \<Longrightarrow> DHCPRead32 (DHCPWrite32 v) = v"
proof -
  assume v: "v < 2 ^ 32"
  have a: "v div 2 ^ 24 < 256" using v by (simp add: div_less_iff_less_mult)
  have d: "v div 2 ^ 16 div 2 ^ 8 = v div 2 ^ 24" "v div 2 ^ 8 div 2 ^ 8 = v div 2 ^ 16"
    by (simp_all flip: div_mult2_eq)
  have "v div 2 ^ 16 = v div 2 ^ 24 * 2 ^ 8 + v div 2 ^ 16 mod 2 ^ 8" "v div 2 ^ 8 = v div 2 ^ 16 * 2 ^ 8 + v div 2 ^ 8 mod 2 ^ 8"
    "v = v div 2 ^ 8 * 2 ^ 8 + v mod 2 ^ 8" unfolding d [symmetric] by (simp_all only: div_mult_mod_eq)
  moreover have "DHCPRead32 (DHCPWrite32 v) =
      v div 2 ^ 24 * 2 ^ 24 + v div 2 ^ 16 mod 2 ^ 8 * 2 ^ 16 + v div 2 ^ 8 mod 2 ^ 8 * 2 ^ 8 + v mod 2 ^ 8"
    using a by (simp add: DHCPRead32_def DHCPWrite32_def unat_byte)
  moreover have "b = a * 2 ^ 8 + r1 \<Longrightarrow> c = b * 2 ^ 8 + r2 \<Longrightarrow> w = c * 2 ^ 8 + r3 \<Longrightarrow>
      a * 2 ^ 24 + r1 * 2 ^ 16 + r2 * 2 ^ 8 + r3 = w" for a b c w r1 r2 r3 :: nat by simp
  ultimately show ?thesis by metis
qed

lemma length_Write32 [simp]: "length (DHCPWrite32 v) = 4"
  by (simp add: DHCPWrite32_def)

text \<open>The fields of a message whose head and options were written one after another.\<close>

definition dhcp_message :: "mem \<Rightarrow> nat \<Rightarrow> nat \<Rightarrow> nat \<Rightarrow> byte list \<Rightarrow> mac \<Rightarrow> (byte \<times> byte list) list \<Rightarrow> mem" where
  "dhcp_message buf capacity xid i field m os =
    patch (dhcp_address_and_cookie (patch (dhcp_head buf capacity xid) i field) m) 240 (encode_options os)"

lemma dhcp_message_read:
  assumes "capacity \<le> length buf" "240 + length (encode_options os) \<le> capacity" "xid < 2 ^ 32" "length m = 6"
    "8 \<le> i" "i + length field \<le> 28" "\<forall>o1 \<in> set os. option_ok o1"
  shows "\<exists>msg. ParseDHCPMessage (Some (dhcp_message buf capacity xid i field m os)) (240 + length (encode_options os)) = Some msg \<and>
    dm_xid msg = xid \<and> take 6 (drop 28 (dm_header msg)) = m \<and> (i = 12 \<and> length field = 4 \<longrightarrow> client_address msg = field) \<and>
    (\<forall>option. case map_of os option of None \<Rightarrow> DHCPFindOption msg option = None
       | Some d \<Rightarrow> \<exists>tl. DHCPFindOption msg option = Some \<lparr>ov_code = option, ov_data = d @ tl, ov_length = length d\<rparr>)"
proof -
  let ?b = "dhcp_message buf capacity xid i field m os"
  note defs = dhcp_message_def dhcp_address_and_cookie_def dhcp_head_def DHCPMagicCookieOffset_def EthernetAddressLength_def
  have cookie: "take 4 (drop 236 ?b) = DHCPWrite32 DHCPMagicCookie"
    using assms take_drop_patch [of 236 "DHCPWrite32 DHCPMagicCookie"] by (simp add: defs take_drop_patch_other)
  have x: "take 4 (drop 4 ?b) = DHCPWrite32 xid"
    using assms take_drop_patch [of 4 "DHCPWrite32 xid"] by (simp add: defs take_drop_patch_other)
  have ch: "take 6 (drop 28 ?b) = m"
    using assms take_drop_patch [of 28 m] by (simp add: defs take_drop_patch_other)
  have ci: "take 4 (drop 12 ?b) = field" if "i = 12" "length field = 4"
    using assms that take_drop_patch [of 12 field] by (simp add: defs take_drop_patch_other)
  have len: "length ?b = length buf" using assms by (simp add: defs)
  have opts: "drop 240 ?b = [] @ encode_options os @ drop (240 + length (encode_options os)) ?b"
  proof -
    have "take (length (encode_options os)) (drop 240 ?b) = encode_options os"
      using assms take_drop_patch [of 240 "encode_options os"] by (simp add: defs)
    then show ?thesis by (metis append_Nil append_take_drop_id drop_drop add.commute)
  qed
  have "DHCPHasMagicCookie (drop 236 ?b)"
    unfolding DHCPHasMagicCookie_def Read32_take [of "drop 236 _"] cookie by (rule Read32_Write32) (simp add: DHCPMagicCookie_def)
  moreover have "DHCPRead32 (drop 4 ?b) = xid" unfolding Read32_take [of "drop 4 _"] x by (rule Read32_Write32 [OF assms(3)])
  moreover have "case map_of os option of None \<Rightarrow> option_loop (drop 240 ?b) (length (encode_options os)) option 0 = None
     | Some d \<Rightarrow> \<exists>tl. option_loop (drop 240 ?b) (length (encode_options os)) option 0 =
         Some \<lparr>ov_code = option, ov_data = d @ tl, ov_length = length d\<rparr>" for option
    using option_loop_encoded [OF opts assms(7), of "length (encode_options os)" option, unfolded list.size add_0] by blast
  moreover obtain msg where p: "ParseDHCPMessage (Some ?b) (240 + length (encode_options os)) = Some msg" "dm_header msg = ?b"
    "dm_options msg = drop 240 ?b" "options_length msg = length (encode_options os)" "dm_xid msg = DHCPRead32 (drop 4 ?b)"
    "client_address msg = take 4 (drop 12 ?b)"
    using calculation(1) by (simp add: ParseDHCPMessage_def DHCPMinMessageLength_def DHCPMagicCookieOffset_def
        DHCPOptionsOffset_def IPv4CopyAddress_def IPv4AddressLength_def)
  moreover have find: "DHCPFindOption msg option = option_loop (drop 240 ?b) (length (encode_options os)) option 0" for option
    by (simp add: DHCPFindOption_def p(3,4))
  ultimately show ?thesis using ch ci unfolding find [symmetric] by (intro exI [of _ msg]) (simp add: p)
qed

lemma dhcp_append_end:
  assumes "240 + length (encode_options os) \<le> length b"
  shows "dhcp_end (foldl (\<lambda>bc (c, d). DHCPAppendOption bc c d) (b, 240) os) = (240 + length (encode_options os), patch b 240 (encode_options os))"
proof -
  define enc where "enc = (\<lambda>os :: (byte \<times> byte list) list. concat (map (\<lambda>(c, d). c # of_nat (length d) # d) os) :: byte list)"
  have "240 + length (enc os) \<le> length b \<Longrightarrow>
    foldl (\<lambda>bc (c, d). DHCPAppendOption bc c d) (b, 240) os = (patch b 240 (enc os), 240 + length (enc os))"
  proof (induction os rule: rev_induct)
    case Nil
    then show ?case by (simp add: enc_def)
  next
    case (snoc o1 os)
    obtain c d where o1: "o1 = (c, d)" by (cases o1) auto
    have e: "enc (os @ [o1]) = enc os @ c # of_nat (length d) # d" by (simp add: enc_def o1)
    have "patch (patch b 240 (enc os)) (240 + length (enc os)) (c # of_nat (length d) # d) = patch b 240 (enc (os @ [o1]))"
      using snoc.prems unfolding e by (intro patch_append) simp
    then show ?case using snoc unfolding e by (simp add: o1 DHCPAppendOption_def)
  qed
  moreover have "encode_options os = enc os @ [Option_End]" by (simp add: encode_options_def enc_def)
  ultimately show ?thesis using assms by (simp add: dhcp_end_def patch_append)
qed

lemma dhcp_built:
  assumes "capacity \<le> length buf" "240 + length (encode_options os) \<le> capacity" "8 \<le> i" "i + length field \<le> 28" "length m = 6"
  shows "dhcp_end (foldl (\<lambda>bc (c, d). DHCPAppendOption bc c d)
      (dhcp_address_and_cookie (patch (dhcp_head buf capacity xid) i field) m, DHCPOptionsOffset) os) =
    (240 + length (encode_options os), dhcp_message buf capacity xid i field m os)"
  using assms dhcp_append_end [of os "dhcp_address_and_cookie (patch (dhcp_head buf capacity xid) i field) m"]
  by (simp add: dhcp_message_def DHCPOptionsOffset_def dhcp_address_and_cookie_def dhcp_head_def DHCPMagicCookieOffset_def EthernetAddressLength_def)

section \<open>Properties\<close>

text \<open>
  C28. The messages a client builds are read back by the parser with what was put into them: the
  transaction, the hardware address, the message type, the requested or released address and the
  server, each in the length the builder returns.
\<close>

theorem dhcp_messages_read_back:
  assumes "capacity \<le> length buf" and "256 \<le> capacity" and "xid < 2 ^ 32" and "length m = 6" and "\<not> MacAddress_isZero m"
    and "length a = 4" and "\<not> IPv4Address_isZero a" and "length s = 4" and "\<not> IPv4Address_isZero s"
  shows "(\<exists>b msg. BuildDHCPDiscover (Some buf) capacity m xid = (244, Some b) \<and> ParseDHCPMessage (Some b) 244 = Some msg \<and>
      dm_xid msg = xid \<and> take 6 (drop 28 (dm_header msg)) = m \<and> DHCPReadMessageType msg = Some DHCP_Discover) \<and>
    (\<exists>b msg. BuildDHCPRequest (Some buf) capacity m xid a s = (256, Some b) \<and> ParseDHCPMessage (Some b) 256 = Some msg \<and>
      dm_xid msg = xid \<and> take 6 (drop 28 (dm_header msg)) = m \<and> DHCPReadMessageType msg = Some DHCP_Request \<and>
      DHCPReadIPv4Option msg Option_RequestedAddress = Some a \<and> DHCPReadIPv4Option msg Option_ServerIdentifier = Some s) \<and>
    (\<exists>b msg. BuildDHCPRelease (Some buf) capacity m xid a s = (250, Some b) \<and> ParseDHCPMessage (Some b) 250 = Some msg \<and>
      dm_xid msg = xid \<and> take 6 (drop 28 (dm_header msg)) = m \<and> DHCPReadMessageType msg = Some DHCP_Release \<and>
      client_address msg = a \<and> DHCPReadIPv4Option msg Option_ServerIdentifier = Some s)"
proof (intro conjI)
  note build = DHCPAppendMessageType_def DHCPAppendIPv4Option_def IPv4AddressLength_def
  note read = DHCPReadMessageType_def DHCPReadIPv4Option_def IPv4CopyAddress_def IPv4AddressLength_def
  let ?d = "[(Option_MessageType, [DHCP_Discover])]"
  have ld: "length (encode_options ?d) = 4" by (simp add: encode_options_def)
  have okd: "\<forall>o1 \<in> set ?d. option_ok o1" by (simp add: option_ok_def option_codes)
  have "BuildDHCPDiscover (Some buf) capacity m xid = (244, Some (dhcp_message buf capacity xid 10 (EthernetWrite16 0x8000) m ?d))"
    using dhcp_built [of capacity buf ?d 10 "EthernetWrite16 0x8000" m xid] assms ld
    by (simp add: BuildDHCPDiscover_def DHCPDiscoverMinLength_def build)
  moreover obtain msg where "ParseDHCPMessage (Some (dhcp_message buf capacity xid 10 (EthernetWrite16 0x8000) m ?d)) 244 = Some msg"
    "dm_xid msg = xid" "take 6 (drop 28 (dm_header msg)) = m"
    "\<forall>option. case map_of ?d option of None \<Rightarrow> DHCPFindOption msg option = None
       | Some d \<Rightarrow> \<exists>tl. DHCPFindOption msg option = Some \<lparr>ov_code = option, ov_data = d @ tl, ov_length = length d\<rparr>"
    using dhcp_message_read [OF assms(1) _ assms(3,4) _ _ okd, of 10 "EthernetWrite16 0x8000"] assms(2) ld by auto
  moreover from this(4) [rule_format, of Option_MessageType] have "DHCPReadMessageType msg = Some DHCP_Discover"
    by (auto simp: read)
  ultimately show "\<exists>b msg. BuildDHCPDiscover (Some buf) capacity m xid = (244, Some b) \<and> ParseDHCPMessage (Some b) 244 = Some msg \<and>
      dm_xid msg = xid \<and> take 6 (drop 28 (dm_header msg)) = m \<and> DHCPReadMessageType msg = Some DHCP_Discover" by blast
next
  note build = DHCPAppendMessageType_def DHCPAppendIPv4Option_def IPv4AddressLength_def
  note read = DHCPReadMessageType_def DHCPReadIPv4Option_def IPv4CopyAddress_def IPv4AddressLength_def
  let ?d = "[(Option_MessageType, [DHCP_Request]), (Option_RequestedAddress, a), (Option_ServerIdentifier, s)]"
  have ld: "length (encode_options ?d) = 16" using assms by (simp add: encode_options_def)
  have okd: "\<forall>o1 \<in> set ?d. option_ok o1" using assms by (simp add: option_ok_def option_codes)
  have "BuildDHCPRequest (Some buf) capacity m xid a s = (256, Some (dhcp_message buf capacity xid 10 (EthernetWrite16 0x8000) m ?d))"
    using dhcp_built [of capacity buf ?d 10 "EthernetWrite16 0x8000" m xid] assms ld
    by (simp add: BuildDHCPRequest_def DHCPRequestMinLength_def build)
  moreover obtain msg where "ParseDHCPMessage (Some (dhcp_message buf capacity xid 10 (EthernetWrite16 0x8000) m ?d)) 256 = Some msg"
    "dm_xid msg = xid" "take 6 (drop 28 (dm_header msg)) = m"
    "\<forall>option. case map_of ?d option of None \<Rightarrow> DHCPFindOption msg option = None
       | Some d \<Rightarrow> \<exists>tl. DHCPFindOption msg option = Some \<lparr>ov_code = option, ov_data = d @ tl, ov_length = length d\<rparr>"
    using dhcp_message_read [OF assms(1) _ assms(3,4) _ _ okd, of 10 "EthernetWrite16 0x8000"] assms(2) ld by auto
  moreover from this(4) [rule_format, of Option_MessageType] have "DHCPReadMessageType msg = Some DHCP_Request"
    by (auto simp: read)
  moreover from calculation(5) [rule_format, of Option_RequestedAddress] assms
  have "DHCPReadIPv4Option msg Option_RequestedAddress = Some a" by (auto simp: read option_codes)
  moreover from calculation(5) [rule_format, of Option_ServerIdentifier] assms
  have "DHCPReadIPv4Option msg Option_ServerIdentifier = Some s" by (auto simp: read option_codes)
  ultimately show "\<exists>b msg. BuildDHCPRequest (Some buf) capacity m xid a s = (256, Some b) \<and> ParseDHCPMessage (Some b) 256 = Some msg \<and>
      dm_xid msg = xid \<and> take 6 (drop 28 (dm_header msg)) = m \<and> DHCPReadMessageType msg = Some DHCP_Request \<and>
      DHCPReadIPv4Option msg Option_RequestedAddress = Some a \<and> DHCPReadIPv4Option msg Option_ServerIdentifier = Some s" by blast
next
  note build = DHCPAppendMessageType_def DHCPAppendIPv4Option_def IPv4AddressLength_def
  note read = DHCPReadMessageType_def DHCPReadIPv4Option_def IPv4CopyAddress_def IPv4AddressLength_def
  let ?d = "[(Option_MessageType, [DHCP_Release]), (Option_ServerIdentifier, s)]"
  have ld: "length (encode_options ?d) = 10" using assms by (simp add: encode_options_def)
  have okd: "\<forall>o1 \<in> set ?d. option_ok o1" using assms by (simp add: option_ok_def option_codes)
  have "BuildDHCPRelease (Some buf) capacity m xid a s = (250, Some (dhcp_message buf capacity xid 12 a m ?d))"
    using dhcp_built [of capacity buf ?d 12 a m xid] assms ld
    by (simp add: BuildDHCPRelease_def DHCPReleaseMinLength_def build)
  moreover obtain msg where "ParseDHCPMessage (Some (dhcp_message buf capacity xid 12 a m ?d)) 250 = Some msg"
    "dm_xid msg = xid" "take 6 (drop 28 (dm_header msg)) = m" "client_address msg = a"
    "\<forall>option. case map_of ?d option of None \<Rightarrow> DHCPFindOption msg option = None
       | Some d \<Rightarrow> \<exists>tl. DHCPFindOption msg option = Some \<lparr>ov_code = option, ov_data = d @ tl, ov_length = length d\<rparr>"
    using dhcp_message_read [OF assms(1) _ assms(3,4) _ _ okd, of 12 a] assms(2,6) ld by auto
  moreover from this(5) [rule_format, of Option_MessageType] have "DHCPReadMessageType msg = Some DHCP_Release"
    by (auto simp: read)
  moreover from calculation(6) [rule_format, of Option_ServerIdentifier] assms
  have "DHCPReadIPv4Option msg Option_ServerIdentifier = Some s" by (auto simp: read option_codes)
  ultimately show "\<exists>b msg. BuildDHCPRelease (Some buf) capacity m xid a s = (250, Some b) \<and> ParseDHCPMessage (Some b) 250 = Some msg \<and>
      dm_xid msg = xid \<and> take 6 (drop 28 (dm_header msg)) = m \<and> DHCPReadMessageType msg = Some DHCP_Release \<and>
      client_address msg = a \<and> DHCPReadIPv4Option msg Option_ServerIdentifier = Some s" by blast
qed

theorem dhcp_messages_read_back_witness:
  "\<exists>b msg. BuildDHCPRequest (Some (replicate 300 7)) 300 sample_mac 0xCAFE sample_ip sample_peer = (256, Some b) \<and>
     ParseDHCPMessage (Some b) 256 = Some msg \<and> DHCPReadIPv4Option msg Option_RequestedAddress = Some sample_ip"
proof -
  have "\<not> MacAddress_isZero sample_mac" "\<not> IPv4Address_isZero sample_ip" "\<not> IPv4Address_isZero sample_peer"
    "length sample_mac = 6" "length sample_ip = 4" "length sample_peer = 4"
    by (simp_all add: sample_mac_def sample_ip_def sample_peer_def MacAddress_isZero_def IPv4Address_isZero_def all_zero_def
        EthernetAddressLength_def IPv4AddressLength_def)
  then show ?thesis
    using dhcp_messages_read_back [of 300 "replicate 300 7" "0xCAFE" sample_mac sample_ip sample_peer] by auto
qed

text \<open>The calls of one exchange after \<open>Begin\<close>, and the configurations of the messages it accepts.\<close>

datatype dhcp_call = Received "mem option" nat | Requested "mem option" nat mac

fun dhcp_call_step :: "DHCPClientObject \<Rightarrow> dhcp_call \<Rightarrow> DHCPClientObject" where
  "dhcp_call_step c (Received payload len) = snd (snd (AcceptMessage c payload len no_config))"
| "dhcp_call_step c (Requested buffer capacity m) = snd (snd (BuildRequest c buffer capacity m))"

fun dhcp_config_of :: "nat \<Rightarrow> dhcp_call \<Rightarrow> DHCPClientConfig option" where
  "dhcp_config_of xid (Received payload len) =
    (case ParseDHCPMessage payload len of None \<Rightarrow> None
     | Some msg \<Rightarrow> if dm_xid msg = xid \<and> fst (DHCPReadClientConfig msg) then Some (snd (DHCPReadClientConfig msg)) else None)"
| "dhcp_config_of xid (Requested buffer capacity m) = None"

definition configs :: "byte \<Rightarrow> nat \<Rightarrow> dhcp_call list \<Rightarrow> DHCPClientConfig list" where
  "configs type xid calls = filter (\<lambda>c. message_type c = type) (List.map_filter (dhcp_config_of xid) calls)"

definition latest :: "DHCPClientConfig list \<Rightarrow> DHCPClientConfig" where
  "latest cs = (if cs = [] then no_config else last cs)"

lemma configs_snoc:
  "configs type xid (calls @ [call]) = configs type xid calls @
    (case dhcp_config_of xid call of Some c \<Rightarrow> if message_type c = type then [c] else [] | None \<Rightarrow> [])"
  by (auto simp: configs_def List.map_filter_def split: option.splits)

lemma latest_snoc: "latest (cs @ [c]) = c"
  by (simp add: latest_def)

lemma dhcp_types: "DHCP_Offer \<noteq> DHCP_Ack" "DHCP_Offer \<noteq> DHCP_Nak" "DHCP_Ack \<noteq> DHCP_Nak"
  by (simp_all add: DHCP_Offer_def DHCP_Ack_def DHCP_Nak_def)

lemma dhcp_received:
  assumes "dhcp_xid c \<noteq> 0"
  shows "dhcp_call_step c (Received payload len) =
    (case dhcp_config_of (dhcp_xid c) (Received payload len) of
       None \<Rightarrow> c
     | Some config \<Rightarrow>
         if message_type config = DHCP_Offer then c\<lparr>dhcp_offer := config, dhcp_state := Offered\<rparr>
         else if message_type config = DHCP_Ack then c\<lparr>dhcp_bound := config, dhcp_state := Bound\<rparr>
         else if message_type config = DHCP_Nak then c\<lparr>dhcp_state := Nak\<rparr> else c)"
  using assms by (auto simp: AcceptMessage_def split: option.splits prod.splits)

lemma dhcp_requested:
  "dhcp_call_step c (Requested buffer capacity m) = c \<or>
   dhcp_call_step c (Requested buffer capacity m) = c\<lparr>dhcp_state := Requesting\<rparr> \<and> hasOffer c \<and> has_address (dhcp_offer c)"
  by (auto simp: BuildRequest_def split: prod.splits)

lemma has_address_no_config [simp]: "\<not> has_address no_config"
  by (simp add: no_config_def)

text \<open>
  C29. After \<open>Begin\<close> with a transaction number, whatever messages arrive and whatever requests are
  built: the offer and the lease the client holds are those of the last DHCPOFFER and the last DHCPACK
  of its own transaction, messages of other transactions change nothing, the client is bound only
  after such an acknowledgement, and it asks for an address only after such an offer.
\<close>

theorem dhcp_client_tracks:
  assumes "xid \<noteq> 0" and "c = foldl dhcp_call_step (dhcp_Begin xid) calls"
  shows "dhcp_xid c = xid \<and> dhcp_offer c = latest (configs DHCP_Offer xid calls) \<and>
    dhcp_bound c = latest (configs DHCP_Ack xid calls) \<and>
    (isBound c \<longrightarrow> configs DHCP_Ack xid calls \<noteq> []) \<and>
    (dhcp_state c \<in> {Offered, Requesting} \<longrightarrow> configs DHCP_Offer xid calls \<noteq> [])"
  using assms(2)
proof (induction calls arbitrary: c rule: rev_induct)
  case Nil
  then show ?case by (simp add: dhcp_Begin_def configs_def latest_def isBound_def List.map_filter_def)
next
  case (snoc call calls)
  define c0 where "c0 = foldl dhcp_call_step (dhcp_Begin xid) calls"
  have IH: "dhcp_xid c0 = xid" "dhcp_offer c0 = latest (configs DHCP_Offer xid calls)"
    "dhcp_bound c0 = latest (configs DHCP_Ack xid calls)" "isBound c0 \<Longrightarrow> configs DHCP_Ack xid calls \<noteq> []"
    "dhcp_state c0 \<in> {Offered, Requesting} \<Longrightarrow> configs DHCP_Offer xid calls \<noteq> []"
    using snoc.IH [OF c0_def] by auto
  have c: "c = dhcp_call_step c0 call" using snoc.prems by (simp add: c0_def)
  show ?case
  proof (cases call)
    case (Received payload len)
    have x: "dhcp_xid c0 \<noteq> 0" using IH(1) assms(1) by simp
    show ?thesis
    proof (cases "dhcp_config_of xid (Received payload len)")
      case None
      have "c = c0" using dhcp_received [OF x, of payload len] None c Received IH(1) by simp
      then show ?thesis using IH None by (simp add: configs_snoc Received)
    next
      case (Some config)
      have "c = (if message_type config = DHCP_Offer then c0\<lparr>dhcp_offer := config, dhcp_state := Offered\<rparr>
         else if message_type config = DHCP_Ack then c0\<lparr>dhcp_bound := config, dhcp_state := Bound\<rparr>
         else if message_type config = DHCP_Nak then c0\<lparr>dhcp_state := Nak\<rparr> else c0)"
        using dhcp_received [OF x, of payload len] Some c Received IH(1) by simp
      then show ?thesis using IH Some dhcp_types
        by (auto simp: configs_snoc Received latest_snoc isBound_def split: if_splits)
    qed
  next
    case (Requested buffer capacity m)
    have conf: "configs t xid (calls @ [call]) = configs t xid calls" for t by (simp add: configs_snoc Requested)
    consider "c = c0" | "c = c0\<lparr>dhcp_state := Requesting\<rparr>" "has_address (dhcp_offer c0)"
      using dhcp_requested [of c0 buffer capacity m] c Requested by auto
    then show ?thesis
    proof cases
      case 1 then show ?thesis using IH unfolding conf by simp
    next
      case 2
      have "configs DHCP_Offer xid calls \<noteq> []" using 2(2) IH(2) by (auto simp: latest_def)
      then show ?thesis using IH 2(1) unfolding conf by (simp add: isBound_def)
    qed
  qed
qed

definition sample_ack :: mem where
  "sample_ack = [2, 1, 6, 0] @ DHCPWrite32 7 @ replicate 8 0 @ sample_ip @ replicate 216 0 @ DHCPWrite32 DHCPMagicCookie @
     [Option_MessageType, 1, DHCP_Ack, Option_End]"

lemma sample_ack_config:
  "\<exists>config. dhcp_config_of 7 (Received (Some sample_ack) 244) = Some config \<and> message_type config = DHCP_Ack \<and> dc_address config = sample_ip"
proof -
  have "drop 236 sample_ack = DHCPWrite32 DHCPMagicCookie @ [Option_MessageType, 1, DHCP_Ack, Option_End]"
    "drop 240 sample_ack = [Option_MessageType, 1, DHCP_Ack, Option_End]" "take 4 (drop 16 sample_ack) = sample_ip"
    "drop 4 sample_ack = DHCPWrite32 7 @ replicate 8 0 @ sample_ip @ replicate 216 0 @ DHCPWrite32 DHCPMagicCookie @
      [Option_MessageType, 1, DHCP_Ack, Option_End]"
    by (simp_all add: sample_ack_def sample_ip_def)
  moreover have "DHCPRead32 (DHCPWrite32 v @ rest) = v" if "v < 2 ^ 32" for v rest
    using Read32_take [of "DHCPWrite32 v @ rest"] Read32_Write32 [OF that] by simp
  ultimately obtain msg where p: "ParseDHCPMessage (Some sample_ack) 244 = Some msg" "dm_xid msg = 7" "your_address msg = sample_ip"
    "dm_options msg = [Option_MessageType, 1, DHCP_Ack, Option_End]" "options_length msg = 4"
    by (simp add: ParseDHCPMessage_def DHCPMinMessageLength_def DHCPMagicCookieOffset_def DHCPHasMagicCookie_def
        DHCPOptionsOffset_def IPv4CopyAddress_def IPv4AddressLength_def DHCPMagicCookie_def)
  have "DHCPReadMessageType msg = Some DHCP_Ack"
    by (simp add: DHCPReadMessageType_def DHCPFindOption_def p(4,5) option_loop.simps option_codes)
  then show ?thesis using p by (simp add: DHCPReadClientConfig_def Let_def no_config_def)
qed

theorem dhcp_client_tracks_witness:
  "dc_address (dhcp_bound (foldl dhcp_call_step (dhcp_Begin 7) [Received (Some sample_ack) 244])) = sample_ip"
proof -
  obtain config where c: "dhcp_config_of 7 (Received (Some sample_ack) 244) = Some config" "message_type config = DHCP_Ack"
    "dc_address config = sample_ip" using sample_ack_config by blast
  have "configs DHCP_Ack 7 [Received (Some sample_ack) 244] = [config]"
    using configs_snoc [of DHCP_Ack 7 "[]" "Received (Some sample_ack) 244"] c by (simp add: configs_def List.map_filter_def)
  then show ?thesis using dhcp_client_tracks [of 7 _ "[Received (Some sample_ack) 244]", OF _ refl] c(3) by (simp add: latest_def)
qed

end
