(* ===== verification/DNS.thy ===== *)
theory DNS
  imports NetIP
begin

text \<open>
  The results of name resolution and the socket addresses of
  \<open>src/inc/cpp/System/Network/Layer/Application/DNS.hpp\<close> and \<open>Socket.hpp\<close>. The structures for IPv4 and
  IPv6 differ in the type of the addresses only; both are byte lists here, so that one record serves
  them. The three lists of addresses implement one interface, the locale \<open>address_store\<close>.
\<close>

section \<open>Data\<close>

definition DNSNameCapacity :: nat where "DNSNameCapacity = 64"
definition DNSAddressCapacity :: nat where "DNSAddressCapacity = 4"

definition DNSRecordType_A :: nat where "DNSRecordType_A = 1"
definition DNSRecordType_CNAME :: nat where "DNSRecordType_CNAME = 5"
definition DNSRecordType_AAAA :: nat where "DNSRecordType_AAAA = 28"

datatype DNSResolveStatus = DNS_None | DNS_OK | DNS_Cached | DNS_Numeric | DNS_NoDNSServer | DNS_Timeout | DNS_NXDomain
  | DNS_ServFail | DNS_NoAddress | DNS_BadName | DNS_BadReply | DNS_Unsupported | DNS_Refused | DNS_CnameLoop | DNS_NetworkError

record DNSResult =
  dr_address :: "byte list"
  dr_addresses :: "byte list list"
  cname_target :: "byte list"
  address_count :: nat
  answer_count :: nat
  cname_count :: nat
  non_address_count :: nat
  dr_ttl :: nat
  dr_status :: DNSResolveStatus

type_synonym DNSIPv4Result = DNSResult
type_synonym DNSIPv6Result = DNSResult

record DNSAddressInfo =
  di_type :: nat
  di_port :: nat
  di_address :: "byte list"

record DNSAddressList =
  dl_addresses :: "DNSAddressInfo list"
  dl_count :: nat
  dl_status :: DNSResolveStatus
  dl_ttl :: nat

definition hasAddress :: "DNSResult \<Rightarrow> bool" where
  "hasAddress r \<longleftrightarrow> address_count r \<noteq> 0"

definition list_hasAddress :: "DNSAddressList \<Rightarrow> bool" where
  "list_hasAddress r \<longleftrightarrow> dl_count r \<noteq> 0"

section \<open>Operations\<close>

definition cleared :: "byte list \<Rightarrow> DNSResolveStatus \<Rightarrow> DNSResult" where
  "cleared zero status =
    \<lparr>dr_address = zero, dr_addresses = replicate DNSAddressCapacity zero, cname_target = replicate DNSNameCapacity 0,
     address_count = 0, answer_count = 0, cname_count = 0, non_address_count = 0, dr_ttl = 0, dr_status = status\<rparr>"

definition DNSClearIPv4Result :: "DNSResolveStatus \<Rightarrow> DNSIPv4Result" where
  "DNSClearIPv4Result status = cleared (replicate IPv4AddressLength 0) status"

definition DNSClearIPv6Result :: "DNSResolveStatus \<Rightarrow> DNSIPv6Result" where
  "DNSClearIPv6Result status = cleared (replicate IPv6AddressLength 0) status"

text \<open>Both append functions, over the test for zero and the comparison of their addresses.\<close>

definition append_address ::
  "(byte list \<Rightarrow> bool) \<Rightarrow> (byte list \<Rightarrow> byte list \<Rightarrow> bool) \<Rightarrow> DNSResult \<Rightarrow> byte list \<Rightarrow> bool \<times> DNSResult" where
  "append_address is_zero eq r address =
    (if is_zero address then (False, r)
     else if list_ex (\<lambda>i. eq (dr_addresses r ! i) address) [0..<address_count r] then (False, r)
     else if address_count r \<ge> DNSAddressCapacity then (False, r)
     else
       (let r = r\<lparr>dr_addresses := (dr_addresses r)[address_count r := address], address_count := address_count r + 1\<rparr> in
        (True, if address_count r = 1 then r\<lparr>dr_address := address\<rparr> else r)))"

definition DNSAppendIPv4Address :: "DNSIPv4Result \<Rightarrow> ip4 \<Rightarrow> bool \<times> DNSIPv4Result" where
  "DNSAppendIPv4Address = append_address IPv4Address_isZero IPv4Address_eq"

definition DNSAppendIPv6Address :: "DNSIPv6Result \<Rightarrow> byte list \<Rightarrow> bool \<times> DNSIPv6Result" where
  "DNSAppendIPv6Address = append_address IPv6Address_isZero IPv6Address_eq"

definition no_info :: DNSAddressInfo where
  "no_info = \<lparr>di_type = 0, di_port = 0, di_address = replicate IPv6AddressLength 0\<rparr>"

definition DNSClearAddressList :: "DNSResolveStatus \<Rightarrow> DNSAddressList" where
  "DNSClearAddressList status =
    \<lparr>dl_addresses = replicate DNSAddressCapacity no_info, dl_count = 0, dl_status = status, dl_ttl = 0\<rparr>"

text \<open>The union holds the address that the type names: an item of another type is never compared.\<close>

definition append_info ::
  "(byte list \<Rightarrow> bool) \<Rightarrow> (byte list \<Rightarrow> byte list \<Rightarrow> bool) \<Rightarrow> nat \<Rightarrow> DNSAddressList \<Rightarrow> byte list \<Rightarrow> nat \<Rightarrow> bool \<times> DNSAddressList" where
  "append_info is_zero eq type r address port =
    (if is_zero address then (False, r)
     else if list_ex (\<lambda>i. let item = dl_addresses r ! i in
         di_type item = type \<and> di_port item = port \<and> eq (di_address item) address) [0..<dl_count r] then (False, r)
     else if dl_count r \<ge> DNSAddressCapacity then (False, r)
     else (True, r\<lparr>dl_addresses := (dl_addresses r)[dl_count r := \<lparr>di_type = type, di_port = port, di_address = address\<rparr>],
                   dl_count := dl_count r + 1\<rparr>))"

definition DNSAppendAddress4 :: "DNSAddressList \<Rightarrow> ip4 \<Rightarrow> nat \<Rightarrow> bool \<times> DNSAddressList" where
  "DNSAppendAddress4 = append_info IPv4Address_isZero IPv4Address_eq DNSRecordType_A"

definition DNSAppendAddress6 :: "DNSAddressList \<Rightarrow> byte list \<Rightarrow> nat \<Rightarrow> bool \<times> DNSAddressList" where
  "DNSAppendAddress6 = append_info IPv6Address_isZero IPv6Address_eq DNSRecordType_AAAA"

fun DNSStatusName :: "DNSResolveStatus \<Rightarrow> string" where
  "DNSStatusName DNS_OK = ''ok''"
| "DNSStatusName DNS_Cached = ''cached''"
| "DNSStatusName DNS_Numeric = ''numeric''"
| "DNSStatusName DNS_NoDNSServer = ''no-dns-server''"
| "DNSStatusName DNS_Timeout = ''timeout''"
| "DNSStatusName DNS_NXDomain = ''nxdomain''"
| "DNSStatusName DNS_ServFail = ''servfail''"
| "DNSStatusName DNS_NoAddress = ''no-address''"
| "DNSStatusName DNS_BadName = ''bad-name''"
| "DNSStatusName DNS_BadReply = ''bad-reply''"
| "DNSStatusName DNS_Unsupported = ''unsupported''"
| "DNSStatusName DNS_Refused = ''refused''"
| "DNSStatusName DNS_CnameLoop = ''cname-loop''"
| "DNSStatusName DNS_NetworkError = ''network-error''"
| "DNSStatusName DNS_None = ''none''"

section \<open>Socket addresses\<close>

definition SocketDomain_IPv4 :: nat where "SocketDomain_IPv4 = 2"
definition SocketDomain_IPv6 :: nat where "SocketDomain_IPv6 = 10"

record SocketAddress =
  sa_domain :: nat
  sa_length :: nat
  sa_address :: "byte list"
  sa_port :: nat

definition SocketWriteAddress4 :: "ip4 \<Rightarrow> nat \<Rightarrow> SocketAddress" where
  "SocketWriteAddress4 ip port = \<lparr>sa_domain = SocketDomain_IPv4, sa_length = 10, sa_address = ip, sa_port = port\<rparr>"

definition SocketWriteAddress6 :: "byte list \<Rightarrow> nat \<Rightarrow> SocketAddress" where
  "SocketWriteAddress6 ip port = \<lparr>sa_domain = SocketDomain_IPv6, sa_length = 22, sa_address = ip, sa_port = port\<rparr>"

section \<open>Bounded lists without duplicates\<close>

text \<open>What a list of addresses holds after some addresses were offered to it, with no bound.\<close>

definition offered :: "('a \<Rightarrow> bool) \<Rightarrow> ('a \<Rightarrow> 'a \<Rightarrow> bool) \<Rightarrow> 'a list \<Rightarrow> 'a list \<Rightarrow> 'a list" where
  "offered zero same acc xs = foldl (\<lambda>acc x. if zero x \<or> (\<exists>y \<in> set acc. same y x) then acc else acc @ [x]) acc xs"

lemma offered_simps [simp]:
  "offered zero same acc [] = acc"
  "offered zero same acc (x # xs) = offered zero same (if zero x \<or> (\<exists>y \<in> set acc. same y x) then acc else acc @ [x]) xs"
  by (simp_all add: offered_def)

lemma offered_prefix: "\<exists>zs. offered zero same acc xs = acc @ zs"
proof (induction xs arbitrary: acc)
  case (Cons x xs)
  show ?case using Cons.IH [of acc] Cons.IH [of "acc @ [x]"] by (auto simp del: append_assoc) (metis append_assoc)
qed simp

lemma offered_take: "length acc \<ge> n \<Longrightarrow> take n (offered zero same acc xs) = take n acc"
  using offered_prefix [of zero same acc xs] by auto

locale address_store =
  fixes used :: "'s \<Rightarrow> 'a list"
    and append :: "'s \<Rightarrow> 'a \<Rightarrow> bool \<times> 's"
    and zero :: "'a \<Rightarrow> bool"
    and same :: "'a \<Rightarrow> 'a \<Rightarrow> bool"
    and ok :: "'s \<Rightarrow> bool"
  assumes full: "ok s \<Longrightarrow> length (used s) \<le> DNSAddressCapacity"
    and keeps: "ok s \<Longrightarrow> ok (snd (append s x))"
    and result: "ok s \<Longrightarrow> fst (append s x) \<longleftrightarrow>
      \<not> zero x \<and> \<not> (\<exists>y \<in> set (used s). same y x) \<and> length (used s) < DNSAddressCapacity"
    and effect: "ok s \<Longrightarrow> used (snd (append s x)) = (if fst (append s x) then used s @ [x] else used s)"
begin

lemma offered_all:
  "ok s \<Longrightarrow> ok (foldl (\<lambda>s x. snd (append s x)) s xs) \<and>
     used (foldl (\<lambda>s x. snd (append s x)) s xs) = take DNSAddressCapacity (offered zero same (used s) xs)"
proof (induction xs arbitrary: s)
  case Nil
  then show ?case using full by simp
next
  case (Cons x xs)
  define s1 where "s1 = snd (append s x)"
  have ok1: "ok s1" unfolding s1_def by (rule keeps [OF Cons.prems])
  have u: "used s1 = (if fst (append s x) then used s @ [x] else used s)" unfolding s1_def by (rule effect [OF Cons.prems])
  have "take DNSAddressCapacity (offered zero same (used s1) xs) = take DNSAddressCapacity (offered zero same (used s) (x # xs))"
  proof (cases "length (used s) < DNSAddressCapacity")
    case True
    then show ?thesis using u result [OF Cons.prems, of x] by simp
  next
    case False
    then have "used s1 = used s" using u result [OF Cons.prems, of x] by simp
    then show ?thesis using False by (simp add: offered_take)
  qed
  then show ?case using Cons.IH [OF ok1] by (simp add: s1_def)
qed

end

section \<open>The lists of the source\<close>

definition result_addresses :: "DNSResult \<Rightarrow> byte list list" where
  "result_addresses r = take (address_count r) (dr_addresses r)"

definition result_ok :: "DNSResult \<Rightarrow> bool" where
  "result_ok r \<longleftrightarrow> length (dr_addresses r) = DNSAddressCapacity \<and> address_count r \<le> DNSAddressCapacity \<and>
     (address_count r > 0 \<longrightarrow> dr_address r = dr_addresses r ! 0)"

definition list_items :: "DNSAddressList \<Rightarrow> DNSAddressInfo list" where
  "list_items r = take (dl_count r) (dl_addresses r)"

definition list_ok :: "DNSAddressList \<Rightarrow> bool" where
  "list_ok r \<longleftrightarrow> length (dl_addresses r) = DNSAddressCapacity \<and> dl_count r \<le> DNSAddressCapacity"

lemma list_ex_upt: "n \<le> length xs \<Longrightarrow> list_ex (\<lambda>i. P (xs ! i)) [0..<n] \<longleftrightarrow> (\<exists>y \<in> set (take n xs). P y)"
  by (fastforce simp: list_ex_iff in_set_conv_nth)

lemma take_snoc_update: "n < length xs \<Longrightarrow> take (n + 1) (xs[n := x]) = take n xs @ [x]"
  by (simp add: take_Suc_conv_app_nth)

lemma append_address_store: "address_store result_addresses (append_address zero eq) zero eq result_ok"
proof
  fix s x assume ok: "result_ok s"
  have dup: "list_ex (\<lambda>i. eq (dr_addresses s ! i) x) [0..<address_count s] \<longleftrightarrow> (\<exists>y \<in> set (result_addresses s). eq y x)"
    using ok list_ex_upt [of "address_count s" "dr_addresses s" "\<lambda>y. eq y x"] by (simp add: result_ok_def result_addresses_def)
  show "length (result_addresses s) \<le> DNSAddressCapacity" using ok by (simp add: result_ok_def result_addresses_def)
  show "result_ok (snd (append_address zero eq s x))"
    using ok by (auto simp: append_address_def result_ok_def Let_def nth_list_update)
  show "fst (append_address zero eq s x) \<longleftrightarrow>
      \<not> zero x \<and> \<not> (\<exists>y \<in> set (result_addresses s). eq y x) \<and> length (result_addresses s) < DNSAddressCapacity"
    unfolding append_address_def dup using ok by (auto simp: Let_def result_ok_def result_addresses_def)
  show "result_addresses (snd (append_address zero eq s x)) =
      (if fst (append_address zero eq s x) then result_addresses s @ [x] else result_addresses s)"
    using ok take_snoc_update [of "address_count s" "dr_addresses s" x]
    by (auto simp: append_address_def result_addresses_def result_ok_def Let_def)
qed

interpretation dns4: address_store result_addresses DNSAppendIPv4Address IPv4Address_isZero IPv4Address_eq result_ok
  unfolding DNSAppendIPv4Address_def by (rule append_address_store)

interpretation dns6: address_store result_addresses DNSAppendIPv6Address IPv6Address_isZero IPv6Address_eq result_ok
  unfolding DNSAppendIPv6Address_def by (rule append_address_store)

text \<open>The two overloads of \<open>DNSAppendAddress\<close> on the items they build.\<close>

definition append_item :: "DNSAddressList \<Rightarrow> DNSAddressInfo \<Rightarrow> bool \<times> DNSAddressList" where
  "append_item r item =
    (if di_type item = DNSRecordType_A then DNSAppendAddress4 r (di_address item) (di_port item)
     else append_info IPv6Address_isZero IPv6Address_eq (di_type item) r (di_address item) (di_port item))"

definition item_zero :: "DNSAddressInfo \<Rightarrow> bool" where
  "item_zero item = (if di_type item = DNSRecordType_A then IPv4Address_isZero (di_address item) else IPv6Address_isZero (di_address item))"

definition item_same :: "DNSAddressInfo \<Rightarrow> DNSAddressInfo \<Rightarrow> bool" where
  "item_same a b \<longleftrightarrow> di_type a = di_type b \<and> di_port a = di_port b \<and>
     (if di_type b = DNSRecordType_A then IPv4Address_eq (di_address a) (di_address b) else IPv6Address_eq (di_address a) (di_address b))"

lemma append_item_6: "di_type item = DNSRecordType_AAAA \<Longrightarrow> append_item r item = DNSAppendAddress6 r (di_address item) (di_port item)"
  by (simp add: append_item_def DNSAppendAddress6_def DNSRecordType_A_def DNSRecordType_AAAA_def)

lemma append_info_store:
  assumes "list_ok s"
  shows "fst (append_info zero eq type s a port) \<longleftrightarrow> \<not> zero a \<and>
      \<not> (\<exists>y \<in> set (list_items s). di_type y = type \<and> di_port y = port \<and> eq (di_address y) a) \<and> length (list_items s) < DNSAddressCapacity"
    and "list_ok (snd (append_info zero eq type s a port))"
    and "list_items (snd (append_info zero eq type s a port)) = (if fst (append_info zero eq type s a port)
      then list_items s @ [\<lparr>di_type = type, di_port = port, di_address = a\<rparr>] else list_items s)"
proof -
  let ?P = "\<lambda>y. di_type y = type \<and> di_port y = port \<and> eq (di_address y) a"
  have dup: "list_ex (\<lambda>i. ?P (dl_addresses s ! i)) [0..<dl_count s] \<longleftrightarrow> (\<exists>y \<in> set (list_items s). ?P y)"
    using assms list_ex_upt [of "dl_count s" "dl_addresses s" ?P] by (simp add: list_ok_def list_items_def)
  show "fst (append_info zero eq type s a port) \<longleftrightarrow> \<not> zero a \<and> \<not> (\<exists>y \<in> set (list_items s). ?P y) \<and> length (list_items s) < DNSAddressCapacity"
    unfolding append_info_def Let_def dup using assms by (auto simp: list_ok_def list_items_def)
  show "list_ok (snd (append_info zero eq type s a port))"
    using assms by (auto simp: append_info_def list_ok_def)
  show "list_items (snd (append_info zero eq type s a port)) = (if fst (append_info zero eq type s a port)
      then list_items s @ [\<lparr>di_type = type, di_port = port, di_address = a\<rparr>] else list_items s)"
    using assms take_snoc_update [of "dl_count s" "dl_addresses s" "\<lparr>di_type = type, di_port = port, di_address = a\<rparr>"]
    by (auto simp: append_info_def list_items_def list_ok_def)
qed

interpretation dns: address_store list_items append_item item_zero item_same list_ok
proof
  fix s x assume ok: "list_ok s"
  show "length (list_items s) \<le> DNSAddressCapacity" using ok by (simp add: list_ok_def list_items_def)
  show "list_ok (snd (append_item s x))" using append_info_store(2) [OF ok] by (simp add: append_item_def DNSAppendAddress4_def)
  show "fst (append_item s x) \<longleftrightarrow>
      \<not> item_zero x \<and> \<not> (\<exists>y \<in> set (list_items s). item_same y x) \<and> length (list_items s) < DNSAddressCapacity"
    using append_info_store(1) [OF ok] by (simp add: append_item_def DNSAppendAddress4_def item_zero_def item_same_def)
  show "list_items (snd (append_item s x)) = (if fst (append_item s x) then list_items s @ [x] else list_items s)"
    using append_info_store(3) [OF ok] by (simp add: append_item_def DNSAppendAddress4_def)
qed

lemma cleared_ok: "result_ok (DNSClearIPv4Result st)" "result_ok (DNSClearIPv6Result st)" "list_ok (DNSClearAddressList st)"
  "result_addresses (DNSClearIPv4Result st) = []" "result_addresses (DNSClearIPv6Result st) = []" "list_items (DNSClearAddressList st) = []"
  by (simp_all add: result_ok_def list_ok_def DNSClearIPv4Result_def DNSClearIPv6Result_def DNSClearAddressList_def cleared_def
      result_addresses_def list_items_def)

text \<open>
  C30. After a list is cleared and any addresses are appended, it holds the first four of the nonzero
  addresses offered to it without repetitions, in the order in which they first came; the single
  address of a result is the first of them. The same holds for the list of addresses of both families
  with ports, where an entry is repeated only if type, port and address agree.
\<close>

theorem dns_addresses_exact:
  "(let r = foldl (\<lambda>r a. snd (DNSAppendIPv4Address r a)) (DNSClearIPv4Result st) as in
      result_addresses r = take 4 (offered IPv4Address_isZero IPv4Address_eq [] as) \<and>
      (hasAddress r \<longrightarrow> dr_address r = hd (result_addresses r))) \<and>
   (let r = foldl (\<lambda>r a. snd (DNSAppendIPv6Address r a)) (DNSClearIPv6Result st) as in
      result_addresses r = take 4 (offered IPv6Address_isZero IPv6Address_eq [] as) \<and>
      (hasAddress r \<longrightarrow> dr_address r = hd (result_addresses r))) \<and>
   list_items (foldl (\<lambda>r i. snd (append_item r i)) (DNSClearAddressList st) items) = take 4 (offered item_zero item_same [] items)"
proof -
  have hd: "result_ok r \<Longrightarrow> hasAddress r \<longrightarrow> dr_address r = hd (result_addresses r)" for r
    by (cases "dr_addresses r") (auto simp: result_ok_def hasAddress_def result_addresses_def DNSAddressCapacity_def)
  show ?thesis
    using dns4.offered_all [OF cleared_ok(1), of st as] dns6.offered_all [OF cleared_ok(2), of st as]
      dns.offered_all [OF cleared_ok(3), of st items] hd
    by (simp add: cleared_ok Let_def DNSAddressCapacity_def)
qed

theorem dns_addresses_exact_witness:
  "result_addresses (foldl (\<lambda>r a. snd (DNSAppendIPv4Address r a)) (DNSClearIPv4Result DNS_OK)
     [[10, 0, 0, 1], [0, 0, 0, 0], [10, 0, 0, 2], [10, 0, 0, 1]]) = [[10, 0, 0, 1], [10, 0, 0, 2]]"
  using dns_addresses_exact [of DNS_OK "[[10, 0, 0, 1], [0, 0, 0, 0], [10, 0, 0, 2], [10, 0, 0, 1]]" "[]"]
  by (simp add: Let_def IPv4Address_isZero_def IPv4Address_eq_def all_zero_def IPv4AddressLength_def)

end
