(* ===== verification/Dchain.thy ===== *)
theory Dchain
  imports Prelude "HOL-Library.Monad_Syntax"
begin

text \<open>
  The doubly linked chain: \<open>Dnode\<close> and \<open>Dchain\<close> of \<open>src/inc/c/dnode.h\<close>, with the node routines of
  \<open>src/lib/c/dnode\<close> and the operations of \<open>src/lib/cpp/Datype/dnode.cpp\<close>,
  \<open>dnode/DnodeAppendX.cpp\<close> and \<open>dnode/DnodeRemoveX.cpp\<close>.

  Nodes live in a heap, a map from addresses to nodes; 0 is the null pointer. Reading or writing
  through a null pointer, or through one whose node was given back, is \<open>None\<close>, and so is a walk that
  does not end. The allocator \<open>zalc\<close> is an argument, its answer in a given heap. What
  \<open>func_free\<close> does with a node is to release its content: the contents released are recorded in
  order. \<open>Compare_f\<close> is a function of the contents of the two nodes it is given.
\<close>

section \<open>Nodes in memory\<close>

record Dnode =
  d_next :: nat
  d_offs :: nat
  d_left :: nat
  d_type :: stduint
  d_extn :: "byte list"

type_synonym heap = "nat \<Rightarrow> Dnode option"

record world =
  dcells :: heap
  released :: "nat list"

definition node_at :: "heap \<Rightarrow> nat \<Rightarrow> Dnode option" where
  "node_at h p = (if p = 0 then None else h p)"

definition assign :: "(Dnode \<Rightarrow> Dnode) \<Rightarrow> nat \<Rightarrow> heap \<Rightarrow> heap option" where
  "assign f p h = map_option (\<lambda>n. h(p \<mapsto> f n)) (node_at h p)"

text \<open>\<open>asserv(p)->next = v\<close> and \<open>asserv(p)->left = v\<close>: nothing happens where \<open>p\<close> is null.\<close>

definition asserv_next :: "nat \<Rightarrow> nat \<Rightarrow> heap \<Rightarrow> heap option" where
  "asserv_next p v h = (if p = 0 then Some h else assign (\<lambda>n. n\<lparr>d_next := v\<rparr>) p h)"

definition asserv_left :: "nat \<Rightarrow> nat \<Rightarrow> heap \<Rightarrow> heap option" where
  "asserv_left p v h = (if p = 0 then Some h else assign (\<lambda>n. n\<lparr>d_left := v\<rparr>) p h)"

type_synonym zalc = "heap \<Rightarrow> nat"

definition DnodeInsert ::
  "zalc \<Rightarrow> nat \<Rightarrow> nat \<Rightarrow> stduint \<Rightarrow> nat \<Rightarrow> bool \<Rightarrow> heap \<Rightarrow> (nat \<times> heap) option" where
  "DnodeInsert zalc nod offs typlen extn_field direction_right h =
    (let tmp = zalc h;
         h1 = h(tmp \<mapsto> \<lparr>d_next = 0, d_offs = offs, d_left = 0, d_type = typlen,
                        d_extn = replicate extn_field 0\<rparr>) in
     if tmp = 0 then Some (0, h)
     else if direction_right then
       do {
         h \<leftarrow> assign (\<lambda>n. n\<lparr>d_left := nod\<rparr>) tmp h1;
         if nod = 0 then Some (tmp, h)
         else do {
           n \<leftarrow> node_at h nod;
           h \<leftarrow> asserv_left (d_next n) tmp h;
           n \<leftarrow> node_at h nod;
           h \<leftarrow> assign (\<lambda>t. t\<lparr>d_next := d_next n\<rparr>) tmp h;
           h \<leftarrow> assign (\<lambda>n. n\<lparr>d_next := tmp\<rparr>) nod h;
           Some (tmp, h)
         }
       }
     else
       do {
         h \<leftarrow> assign (\<lambda>n. n\<lparr>d_next := nod\<rparr>) tmp h1;
         if nod = 0 then Some (tmp, h)
         else do {
           n \<leftarrow> node_at h nod;
           h \<leftarrow> asserv_next (d_left n) tmp h;
           n \<leftarrow> node_at h nod;
           h \<leftarrow> assign (\<lambda>t. t\<lparr>d_left := d_left n\<rparr>) tmp h;
           h \<leftarrow> assign (\<lambda>n. n\<lparr>d_left := tmp\<rparr>) nod h;
           Some (tmp, h)
         }
       })"

definition DnodeRemove :: "bool \<Rightarrow> nat \<Rightarrow> world \<Rightarrow> world option" where
  "DnodeRemove freefunc nod w =
    (if nod = 0 then Some w
     else do {
       n \<leftarrow> node_at (dcells w) nod;
       h \<leftarrow> asserv_next (d_left n) (d_next n) (dcells w);
       n \<leftarrow> node_at h nod;
       h \<leftarrow> asserv_left (d_next n) (d_left n) h;
       n \<leftarrow> node_at h nod;
       Some \<lparr>dcells = h(nod := None),
             released = released w @ (if freefunc then [d_offs n] else [])\<rparr>
     })"

section \<open>The chain\<close>

record Dchain =
  root_node :: nat
  last_node :: nat
  midl_node :: nat
  node_count :: stduint
  extn_field :: nat
  been_sorted :: bool
  func_free :: bool
  Compare_f :: "(nat \<Rightarrow> nat \<Rightarrow> int) option"

definition new_Dchain :: "bool \<Rightarrow> Dchain" where
  "new_Dchain fn_free = \<lparr>root_node = 0, last_node = 0, midl_node = 0, node_count = 0,
     extn_field = 0, been_sorted = True, func_free = fn_free, Compare_f = None\<rparr>"

definition Dchain_Length :: "Dchain \<Rightarrow> stduint" where
  "Dchain_Length c = node_count c"

text \<open>The walk along \<open>next\<close> that both ways of locating by index make.\<close>

fun walk_node :: "heap \<Rightarrow> nat \<Rightarrow> nat \<Rightarrow> nat option" where
  "walk_node h crt 0 = Some crt"
| "walk_node h crt (Suc i) =
    do {
      n \<leftarrow> node_at h crt;
      if d_next n = 0 then Some 0 else walk_node h (d_next n) i
    }"

definition Dchain_Locate :: "heap \<Rightarrow> Dchain \<Rightarrow> nat \<Rightarrow> nat option" where
  "Dchain_Locate h c idx = walk_node h (root_node c) idx"

definition Dchain_LocateNode :: "heap \<Rightarrow> Dchain \<Rightarrow> nat \<Rightarrow> nat option" where
  "Dchain_LocateNode h c idx = (if root_node c = 0 then Some 0 else walk_node h (root_node c) idx)"

definition DnodeChainAdapt :: "nat \<Rightarrow> nat \<Rightarrow> stduint \<Rightarrow> heap \<Rightarrow> Dchain \<Rightarrow> Dchain option" where
  "DnodeChainAdapt root lst count_dif h c =
    (let c = c\<lparr>node_count := node_count c + count_dif, root_node := root, last_node := lst\<rparr> in
     if node_count c < 3 then Some (c\<lparr>midl_node := 0\<rparr>)
     else do {
       m \<leftarrow> Dchain_LocateNode h c (unat (drop_bit 1 (node_count c)));
       Some (c\<lparr>midl_node := m\<rparr>)
     })"

text \<open>The content of the first node, from the left or from the right.\<close>

partial_function (option) locate_right ::
  "heap \<Rightarrow> nat \<Rightarrow> nat \<Rightarrow> stduint \<Rightarrow> stduint option" where
  "locate_right h p_val crt index =
    (if crt = 0 then Some (- 1)
     else do {
       n \<leftarrow> node_at h crt;
       if d_offs n = p_val then Some index else locate_right h p_val (d_left n) (index - 1)
     })"

partial_function (option) locate_left ::
  "heap \<Rightarrow> nat \<Rightarrow> nat \<Rightarrow> stduint \<Rightarrow> stduint option" where
  "locate_left h p_val crt index =
    (if crt = 0 then Some (- 1)
     else do {
       n \<leftarrow> node_at h crt;
       if d_offs n = p_val then Some index else locate_left h p_val (d_next n) (index + 1)
     })"

definition Dchain_Locate_content :: "heap \<Rightarrow> Dchain \<Rightarrow> nat \<Rightarrow> bool \<Rightarrow> stduint option" where
  "Dchain_Locate_content h c p_val fromRight =
    (if fromRight then locate_right h p_val (last_node c) (Dchain_Length c - 1)
     else locate_left h p_val (root_node c) 0)"

partial_function (option) locate_node :: "heap \<Rightarrow> (Dnode \<Rightarrow> bool) \<Rightarrow> nat \<Rightarrow> nat option" where
  "locate_node h found crt =
    (if crt = 0 then Some 0
     else do {
       n \<leftarrow> node_at h crt;
       if found n then Some crt else locate_node h found (d_next n)
     })"

definition Dchain_LocateNode_content ::
  "heap \<Rightarrow> Dchain \<Rightarrow> nat \<Rightarrow> (nat \<Rightarrow> nat \<Rightarrow> int) option \<Rightarrow> nat option" where
  "Dchain_LocateNode_content h c content cmp =
    locate_node h (\<lambda>n. case cmp of None \<Rightarrow> d_offs n = content | Some f \<Rightarrow> f (d_offs n) content = 0)
      (root_node c)"

definition Dchain_Match :: "heap \<Rightarrow> Dchain \<Rightarrow> nat \<Rightarrow> stduint \<Rightarrow> bool option" where
  "Dchain_Match h c off typ =
    map_option (\<lambda>p. p \<noteq> 0) (locate_node h (\<lambda>n. d_offs n = off \<and> d_type n = typ) (root_node c))"

text \<open>\<open>Iterate\<close> stores the addresses of the nodes, \<open>Iter\<close> hands them out.\<close>

fun iterate_datas :: "heap \<Rightarrow> nat \<Rightarrow> nat \<Rightarrow> nat list option" where
  "iterate_datas h crt 0 = Some []"
| "iterate_datas h crt (Suc i) =
    do {
      n \<leftarrow> node_at h crt;
      ps \<leftarrow> iterate_datas h (d_next n) i;
      Some (crt # ps)
    }"

definition Dchain_Iterate :: "heap \<Rightarrow> Dchain \<Rightarrow> nat list option" where
  "Dchain_Iterate h c = iterate_datas h (root_node c) (unat (Dchain_Length c))"

section \<open>Adding nodes\<close>

type_synonym chain_state = "world \<times> Dchain"

definition insert_node ::
  "zalc \<Rightarrow> nat \<Rightarrow> nat \<Rightarrow> stduint \<Rightarrow> bool \<Rightarrow> chain_state \<Rightarrow> (nat \<times> chain_state) option" where
  "insert_node zalc nod offs typ right s =
    (case s of (w, c) \<Rightarrow>
     do {
       (p, h) \<leftarrow> DnodeInsert zalc nod offs typ (extn_field c) right (dcells w);
       Some (p, w\<lparr>dcells := h\<rparr>, c)
     })"

definition adapt :: "nat \<Rightarrow> nat \<Rightarrow> stduint \<Rightarrow> chain_state \<Rightarrow> chain_state option" where
  "adapt root lst dif s =
    (case s of (w, c) \<Rightarrow> map_option (Pair w) (DnodeChainAdapt root lst dif (dcells w) c))"

definition Dchain_Push :: "zalc \<Rightarrow> nat \<Rightarrow> bool \<Rightarrow> chain_state \<Rightarrow> (nat \<times> chain_state) option" where
  "Dchain_Push zalc off end_left s =
    (let c = snd s in
     if root_node c = 0 then
       do {
         (new_nod, s) \<leftarrow> insert_node zalc 0 off 0 False s;
         s \<leftarrow> adapt new_nod new_nod 1 s;
         Some (new_nod, s)
       }
     else if end_left then
       do {
         (new_nod, s) \<leftarrow> insert_node zalc (root_node c) off 0 False s;
         s \<leftarrow> adapt new_nod (last_node c) 1 s;
         Some (new_nod, s)
       }
     else
       do {
         (new_nod, s) \<leftarrow> insert_node zalc (last_node c) off 0 True s;
         s \<leftarrow> adapt (root_node c) new_nod 1 s;
         Some (new_nod, s)
       })"

section \<open>Insertion sort\<close>

definition Local_Compare :: "nat \<Rightarrow> nat \<Rightarrow> int" where
  "Local_Compare a b = sint (ucast (of_nat a - of_nat b :: stduint) :: 32 word)"

text \<open>\<open>setcmp\<close> and the comparison of two nodes.\<close>

definition cmp_nodes :: "heap \<Rightarrow> Dchain \<Rightarrow> nat \<Rightarrow> nat \<Rightarrow> int option" where
  "cmp_nodes h c p q =
    (case Compare_f c of
       None \<Rightarrow> Some (Local_Compare p q)
     | Some cmp \<Rightarrow> do { a \<leftarrow> node_at h p; b \<leftarrow> node_at h q; Some (cmp (d_offs a) (d_offs b)) })"

partial_function (option) seek_left :: "heap \<Rightarrow> Dchain \<Rightarrow> nat \<Rightarrow> nat \<Rightarrow> nat option" where
  "seek_left h c crt crtcrt =
    (if crtcrt = 0 then Some 0
     else do {
       r \<leftarrow> cmp_nodes h c crtcrt crt;
       if r > 0 then do { n \<leftarrow> node_at h crtcrt; seek_left h c crt (d_left n) }
       else Some crtcrt
     })"

definition Dchain_Insert :: "zalc \<Rightarrow> nat \<Rightarrow> nat \<Rightarrow> chain_state \<Rightarrow> (bool \<times> chain_state) option" where
  "Dchain_Insert zalc idx dat s =
    (let c = snd s; len = unat (Dchain_Length c);
         count = (\<lambda>(w, c). (w, c\<lparr>node_count := node_count c + 1\<rparr>)) in
     if idx = 0 then
       do {
         (p, w, c) \<leftarrow> insert_node zalc (root_node c) dat 0 False s;
         Some (True, count (w, c\<lparr>root_node := p\<rparr>))
       }
     else if idx > len then Some (False, s)
     else if idx = len then
       do {
         (p, w, c) \<leftarrow> insert_node zalc (last_node c) dat 0 True s;
         Some (True, count (w, c\<lparr>last_node := p\<rparr>))
       }
     else
       do {
         nod \<leftarrow> Dchain_Locate (dcells (fst s)) c (idx - 1);
         (p, s) \<leftarrow> insert_node zalc nod dat 0 True s;
         Some (True, count s)
       })"

text \<open>One node out of order is replaced by a new one further to the left.\<close>

definition sort_place :: "zalc \<Rightarrow> nat \<Rightarrow> nat \<Rightarrow> nat \<Rightarrow> stduint \<Rightarrow> chain_state \<Rightarrow> chain_state option" where
  "sort_place zalc crt crtcrt content typ s =
    (if crtcrt = 0 then
       do {
         (b, w, c) \<leftarrow> Dchain_Insert zalc 0 content s;
         m \<leftarrow> node_at (dcells w) crt;
         h \<leftarrow> assign (\<lambda>r. r\<lparr>d_type := d_type m\<rparr>) (root_node c) (dcells w);
         Some (w\<lparr>dcells := h\<rparr>, c)
       }
     else
       do {
         (p, w, c) \<leftarrow> insert_node zalc crtcrt content typ True s;
         Some (w, c\<lparr>node_count := node_count c + 1\<rparr>)
       })"

definition sort_move :: "zalc \<Rightarrow> nat \<Rightarrow> chain_state \<Rightarrow> chain_state option" where
  "sort_move zalc crt s =
    (case s of (w, c) \<Rightarrow>
     do {
       n \<leftarrow> node_at (dcells w) crt;
       l \<leftarrow> node_at (dcells w) (d_left n);
       crtcrt \<leftarrow> seek_left (dcells w) c crt (d_left l);
       (w, c) \<leftarrow> sort_place zalc crt crtcrt (d_offs n) (d_type n) s;
       w \<leftarrow> DnodeRemove False crt w;
       Some (w, c\<lparr>node_count := node_count c - 1\<rparr>)
     })"

partial_function (option) sort_loop :: "zalc \<Rightarrow> nat \<Rightarrow> chain_state \<Rightarrow> chain_state option" where
  "sort_loop zalc crt s =
    (if crt = 0 then Some s
     else do {
       n \<leftarrow> node_at (dcells (fst s)) crt;
       r \<leftarrow> cmp_nodes (dcells (fst s)) (snd s) (d_left n) crt;
       s \<leftarrow> (if r > 0 then sort_move zalc crt s else Some s);
       sort_loop zalc (d_next n) s
     })"

definition Dchain_SortByInsertion :: "zalc \<Rightarrow> chain_state \<Rightarrow> chain_state option" where
  "Dchain_SortByInsertion zalc s =
    (let crt = root_node (snd s) in
     if crt = 0 then Some s
     else do {
       n \<leftarrow> node_at (dcells (fst s)) crt;
       if d_next n = 0 then Some s else sort_loop zalc (d_next n) s
     })"

definition Dchain_Sorted ::
  "zalc \<Rightarrow> (nat \<Rightarrow> nat \<Rightarrow> int) option \<Rightarrow> chain_state \<Rightarrow> chain_state option" where
  "Dchain_Sorted zalc Cmp_f s =
    (case s of (w, c) \<Rightarrow>
     do {
       (w, c) \<leftarrow> Dchain_SortByInsertion zalc (w, if Cmp_f = None then c else c\<lparr>Compare_f := Cmp_f\<rparr>);
       Some (w, c\<lparr>been_sorted := True\<rparr>)
     })"

section \<open>Append\<close>

partial_function (option) seek_right ::
  "heap \<Rightarrow> (nat \<Rightarrow> nat \<Rightarrow> int) \<Rightarrow> nat \<Rightarrow> nat \<Rightarrow> nat option" where
  "seek_right h cmp addr crt =
    do {
      n \<leftarrow> node_at h crt;
      if cmp addr (d_offs n) > 0
      then if d_next n = 0 then Some 0 else seek_right h cmp addr (d_next n)
      else Some crt
    }"

definition append_at ::
  "zalc \<Rightarrow> nat \<Rightarrow> bool \<Rightarrow> nat \<Rightarrow> chain_state \<Rightarrow> (nat \<times> chain_state) option" where
  "append_at zalc addr onleft nod s =
    do {
      (new_nod, w, c) \<leftarrow> insert_node zalc nod addr 0 (\<not> onleft) s;
      let ro = (if root_node c = 0 \<or> onleft \<and> nod = root_node c then new_nod else root_node c);
      let la = (if last_node c = 0 \<or> \<not> onleft \<and> nod = last_node c then new_nod else last_node c);
      s \<leftarrow> adapt ro la 1 (w, c);
      Some (new_nod, s)
    }"

definition append_sorted ::
  "zalc \<Rightarrow> (nat \<Rightarrow> nat \<Rightarrow> int) \<Rightarrow> nat \<Rightarrow> chain_state \<Rightarrow> (nat \<times> chain_state) option" where
  "append_sorted zalc cmp addr s =
    do {
      (w, c) \<leftarrow> (if been_sorted (snd s) then Some s else Dchain_SortByInsertion zalc s);
      let c = c\<lparr>been_sorted := True\<rparr>;
      r \<leftarrow> node_at (dcells w) (root_node c);
      if cmp addr (d_offs r) \<le> 0 then Dchain_Push zalc addr True (w, c)
      else do {
        crt \<leftarrow> seek_right (dcells w) cmp addr (root_node c);
        if crt = 0 then
          do {
            (new_nod, w, c) \<leftarrow> insert_node zalc (last_node c) addr 0 True (w, c);
            s \<leftarrow> adapt (if root_node c = 0 then new_nod else root_node c) new_nod 1 (w, c);
            Some (new_nod, s)
          }
        else
          do {
            (new_nod, w, c) \<leftarrow> insert_node zalc crt addr 0 False (w, c);
            s \<leftarrow> adapt (if crt = root_node c then new_nod else root_node c) (last_node c) 1 (w, c);
            Some (new_nod, s)
          }
      }
    }"

definition Dchain_Append ::
  "zalc \<Rightarrow> nat \<Rightarrow> bool \<Rightarrow> nat \<Rightarrow> chain_state \<Rightarrow> (nat \<times> chain_state) option" where
  "Dchain_Append zalc addr onleft nod s =
    (if nod \<noteq> 0 then append_at zalc addr onleft nod s
     else if root_node (snd s) = 0 then
       do {
         (new_nod, s) \<leftarrow> insert_node zalc 0 addr 0 True s;
         s \<leftarrow> adapt new_nod new_nod 1 s;
         Some (new_nod, s)
       }
     else case Compare_f (snd s) of
       Some cmp \<Rightarrow> append_sorted zalc cmp addr s
     | None \<Rightarrow> Dchain_Push zalc addr onleft s)"

text \<open>The third argument of \<open>Append\<close> is the side: the type given here is converted to it.\<close>

definition Dchain_Append0Match :: "zalc \<Rightarrow> nat \<Rightarrow> stduint \<Rightarrow> chain_state \<Rightarrow> chain_state option" where
  "Dchain_Append0Match zalc addr typ s =
    do {
      b \<leftarrow> Dchain_Match (dcells (fst s)) (snd s) addr typ;
      if b then Some s else map_option snd (Dchain_Append zalc addr (typ \<noteq> 0) 0 s)
    }"

definition Dchain_Reset :: "zalc \<Rightarrow> nat \<Rightarrow> stduint \<Rightarrow> chain_state \<Rightarrow> chain_state option" where
  "Dchain_Reset zalc addr typ s =
    (case s of (w, c) \<Rightarrow>
     do {
       nod \<leftarrow> Dchain_LocateNode_content (dcells w) c addr None;
       if nod \<noteq> 0 then
         do { h \<leftarrow> assign (\<lambda>n. n\<lparr>d_type := typ\<rparr>) nod (dcells w); Some (w\<lparr>dcells := h\<rparr>, c) }
       else map_option snd (Dchain_Append zalc addr (typ \<noteq> 0) 0 (w, c))
     })"

section \<open>Removing nodes\<close>

fun remove_times :: "bool \<Rightarrow> nat \<Rightarrow> nat \<Rightarrow> world \<Rightarrow> world option" where
  "remove_times freefunc 0 crt w = Some w"
| "remove_times freefunc (Suc i) crt w =
    do {
      n \<leftarrow> node_at (dcells w) crt;
      w \<leftarrow> DnodeRemove freefunc crt w;
      remove_times freefunc i (d_next n) w
    }"

definition Dchain_Remove :: "nat \<Rightarrow> nat \<Rightarrow> chain_state \<Rightarrow> (bool \<times> chain_state) option" where
  "Dchain_Remove idx num s =
    (case s of (w, c) \<Rightarrow>
     if num = 0 then Some (True, s)
     else do {
       crt \<leftarrow> Dchain_Locate (dcells w) c idx;
       if crt = 0 then Some (False, s)
       else do {
         n \<leftarrow> node_at (dcells w) crt;
         nxt \<leftarrow> Dchain_Locate (dcells w) c (u64 (idx + num));
         w \<leftarrow> remove_times (func_free c) num crt w;
         h \<leftarrow> asserv_next (d_left n) nxt (dcells w);
         s \<leftarrow> adapt (if d_left n \<noteq> 0 then root_node c else nxt)
                (if nxt \<noteq> 0 then last_node c else d_left n) (- of_nat num) (w\<lparr>dcells := h\<rparr>, c);
         Some (True, s)
       }
     })"

partial_function (option) remove_first ::
  "(nat \<Rightarrow> Dnode \<Rightarrow> bool) \<Rightarrow> nat \<Rightarrow> nat \<Rightarrow> chain_state \<Rightarrow> (nat \<times> chain_state) option" where
  "remove_first found las crt s =
    do {
      n \<leftarrow> node_at (dcells (fst s)) crt;
      if \<not> found crt n then
        (if d_next n = 0 then Some (0, s) else remove_first found crt (d_next n) s)
      else do {
        w \<leftarrow> DnodeRemove (func_free (snd s)) crt (fst s);
        s \<leftarrow> adapt (if crt = root_node (snd s) then d_next n else root_node (snd s))
               (if crt = last_node (snd s) then las else last_node (snd s)) (- 1) (w, snd s);
        Some (d_next n, s)
      }
    }"

definition Dchain_Remove_node :: "nat \<Rightarrow> chain_state \<Rightarrow> (nat \<times> chain_state) option" where
  "Dchain_Remove_node nod s =
    (if root_node (snd s) = 0 then Some (0, s)
     else remove_first (\<lambda>crt n. crt = nod) 0 (root_node (snd s)) s)"

definition Dchain_Remove_content :: "nat \<Rightarrow> chain_state \<Rightarrow> (nat \<times> chain_state) option" where
  "Dchain_Remove_content content s =
    (if root_node (snd s) = 0 then Some (0, s)
     else remove_first (\<lambda>crt n. d_offs n = content) 0 (root_node (snd s)) s)"

definition delete_Dchain :: "chain_state \<Rightarrow> world option" where
  "delete_Dchain s = map_option (\<lambda>(b, w, c). w) (Dchain_Remove 0 (unat (Dchain_Length (snd s))) s)"

section \<open>Exchanging and reversing\<close>

definition Dchain_Exchange :: "nat \<Rightarrow> nat \<Rightarrow> chain_state \<Rightarrow> (bool \<times> chain_state) option" where
  "Dchain_Exchange idx1 idx2 s =
    (case s of (w, c) \<Rightarrow>
     do {
       n1 \<leftarrow> Dchain_Locate (dcells w) c idx1;
       n2 \<leftarrow> Dchain_Locate (dcells w) c idx2;
       if idx1 = idx2 then Some (True, s)
       else do {
         a \<leftarrow> node_at (dcells w) n1;
         b \<leftarrow> node_at (dcells w) n2;
         h \<leftarrow> assign (\<lambda>n. n\<lparr>d_offs := d_offs b, d_type := d_type b\<rparr>) n1 (dcells w);
         h \<leftarrow> assign (\<lambda>n. n\<lparr>d_offs := d_offs a, d_type := d_type a\<rparr>) n2 h;
         Some (True, w\<lparr>dcells := h\<rparr>, c)
       }
     })"

partial_function (option) reverse_loop :: "nat \<Rightarrow> heap \<Rightarrow> heap option" where
  "reverse_loop crt h =
    (if crt = 0 then Some h
     else do {
       n \<leftarrow> node_at h crt;
       h \<leftarrow> assign (\<lambda>n. n\<lparr>d_left := d_next n, d_next := d_left n\<rparr>) crt h;
       reverse_loop (d_next n) h
     })"

definition Dchain_Reverse :: "chain_state \<Rightarrow> chain_state option" where
  "Dchain_Reverse s =
    (case s of (w, c) \<Rightarrow>
     do {
       h \<leftarrow> reverse_loop (root_node c) (dcells w);
       Some (w\<lparr>dcells := h\<rparr>, c\<lparr>root_node := last_node c, last_node := root_node c\<rparr>)
     })"

end
