(* ===== verification/DchainCorrect.thy ===== *)
theory DchainCorrect
  imports Dchain
begin

text \<open>
  What the operations of \<open>Dchain\<close> do to the list of nodes a chain stands for. \<open>seg\<close> says that the
  heap holds given nodes in a row, with their links in both directions; \<open>chain_rep\<close> adds the fields
  of the chain; \<open>delta\<close> says which cells an operation may touch, take and give back. Each operation
  has one lemma, \<open><Operation>_ok\<close>, that gives its result and the new nodes.
\<close>

section \<open>Chains in the heap\<close>

type_synonym item = "nat \<times> stduint \<times> byte list"

definition cell :: "nat \<Rightarrow> item \<Rightarrow> nat \<Rightarrow> Dnode" where
  "cell l x r = \<lparr>d_next = r, d_offs = fst x, d_left = l, d_type = fst (snd x), d_extn = snd (snd x)\<rparr>"

lemma cell_sel [simp]:
  "d_next (cell l x r) = r" "d_left (cell l x r) = l" "d_offs (cell l x r) = fst x"
  "d_type (cell l x r) = fst (snd x)" "d_extn (cell l x r) = snd (snd x)"
  by (simp_all add: cell_def)

lemma cell_upd [simp]:
  "cell l x r\<lparr>d_next := r'\<rparr> = cell l x r'" "cell l x r\<lparr>d_left := l'\<rparr> = cell l' x r"
  "cell l x r\<lparr>d_left := l', d_next := r'\<rparr> = cell l' x r'"
  by (simp_all add: cell_def)

text \<open>The nodes of a chain with their addresses, between a left and a right neighbour.\<close>

type_synonym nodes = "(nat \<times> item) list"

abbreviation first :: "nodes \<Rightarrow> nat \<Rightarrow> nat" where
  "first xs r \<equiv> hd (map fst xs @ [r])"

abbreviation final :: "nat \<Rightarrow> nodes \<Rightarrow> nat" where
  "final l xs \<equiv> last (l # map fst xs)"

fun seg :: "heap \<Rightarrow> nat \<Rightarrow> nodes \<Rightarrow> nat \<Rightarrow> bool" where
  "seg h l [] r = True"
| "seg h l (x # xs) r =
    (fst x \<noteq> 0 \<and> h (fst x) = Some (cell l (snd x) (first xs r)) \<and> seg h (fst x) xs r)"

lemma seg_append:
  "seg h l (xs @ ys) r \<longleftrightarrow> seg h l xs (first ys r) \<and> seg h (final l xs) ys r"
  by (induction xs arbitrary: l) (auto simp: hd_append)

lemma seg_cong: "(\<And>a. a \<in> fst ` set xs \<Longrightarrow> h' a = h a) \<Longrightarrow> seg h' l xs r = seg h l xs r"
  by (induction xs arbitrary: l) auto

lemma seg_upd [simp]: "a \<notin> fst ` set xs \<Longrightarrow> seg (h(a := v)) l xs r = seg h l xs r"
  by (rule seg_cong) auto

lemma seg_nonzero: "seg h l xs r \<Longrightarrow> 0 \<notin> fst ` set xs"
  by (induction xs arbitrary: l) auto

lemma seg_in_dom: "seg h l xs r \<Longrightarrow> a \<in> fst ` set xs \<Longrightarrow> \<exists>n. h a = Some n"
  by (induction xs arbitrary: l) auto

lemma first_nonzero [simp]: "0 \<notin> fst ` set xs \<Longrightarrow> xs \<noteq> [] \<Longrightarrow> hd (map fst xs) \<noteq> 0"
  by (cases xs) (auto simp del: neq0_conv)

lemma final_nonzero [simp]: "0 \<notin> fst ` set xs \<Longrightarrow> xs \<noteq> [] \<Longrightarrow> last (map fst xs) \<noteq> 0"
  by (cases xs rule: rev_cases) (auto simp del: neq0_conv)

lemma seg_nth:
  "seg h l xs r \<Longrightarrow> i < length xs \<Longrightarrow>
   fst (xs ! i) \<noteq> 0 \<and> h (fst (xs ! i)) =
     Some (cell (final l (take i xs)) (snd (xs ! i)) (first (drop (Suc i) xs) r))"
proof (induction xs arbitrary: l i)
  case (Cons x xs)
  then show ?case by (cases i) (auto simp: take_map drop_map)
qed simp

text \<open>How the heap changes when a chain of nodes becomes another one: cells of neither keep their
  contents, new nodes were free, and removed nodes are free.\<close>

definition delta :: "heap \<Rightarrow> nodes \<Rightarrow> heap \<Rightarrow> nodes \<Rightarrow> bool" where
  "delta h xs h' ys \<longleftrightarrow>
    (\<forall>b. b \<notin> fst ` set xs \<and> b \<notin> fst ` set ys \<longrightarrow> h' b = h b) \<and>
    (\<forall>b. b \<in> fst ` set xs \<and> b \<notin> fst ` set ys \<longrightarrow> h' b = None) \<and>
    (\<forall>b. b \<in> fst ` set ys \<and> b \<notin> fst ` set xs \<longrightarrow> h b = None)"

lemma delta_refl [simp]: "delta h xs h xs"
  by (simp add: delta_def)

lemma delta_trans: "delta h xs h' ys \<Longrightarrow> delta h' ys h'' zs \<Longrightarrow> delta h xs h'' zs"
  unfolding delta_def by metis

lemma delta_same: "(\<And>b. b \<notin> fst ` set xs \<Longrightarrow> h' b = h b) \<Longrightarrow> fst ` set ys = fst ` set xs \<Longrightarrow> delta h xs h' ys"
  by (auto simp: delta_def)

section \<open>The node routines\<close>

definition zalc_ok :: "zalc \<Rightarrow> bool" where
  "zalc_ok zalc \<longleftrightarrow> (\<forall>h. zalc h \<noteq> 0 \<longrightarrow> h (zalc h) = None)"

definition fresh_item :: "nat \<Rightarrow> stduint \<Rightarrow> nat \<Rightarrow> item" where
  "fresh_item offs typ ext = (offs, typ, replicate ext 0)"

named_theorems heap_simps \<open>one access to the heap\<close>

lemma node_at_upd [heap_simps]: "node_at (h(p := v)) q = (if q = 0 then None else if q = p then v else h q)"
  by (simp add: node_at_def)

lemma assign_Some [heap_simps]: "p \<noteq> 0 \<Longrightarrow> h p = Some n \<Longrightarrow> assign f p h = Some (h(p \<mapsto> f n))"
  by (simp add: assign_def node_at_def)

lemma asserv_Some [heap_simps]:
  "asserv_next 0 v h = Some h" "asserv_left 0 v h = Some h"
  "p \<noteq> 0 \<Longrightarrow> h p = Some n \<Longrightarrow> asserv_next p v h = Some (h(p \<mapsto> n\<lparr>d_next := v\<rparr>))"
  "p \<noteq> 0 \<Longrightarrow> h p = Some n \<Longrightarrow> asserv_left p v h = Some (h(p \<mapsto> n\<lparr>d_left := v\<rparr>))"
  by (simp_all add: asserv_next_def asserv_left_def assign_Some)

lemma cell_fold [simp]:
  "\<lparr>d_next = r, d_offs = off, d_left = l, d_type = typ, d_extn = replicate ext 0\<rparr> =
   cell l (fresh_item off typ ext) r"
  by (simp add: cell_def fresh_item_def)

lemma DnodeInsert_null:
  assumes "zalc h = a" "a \<noteq> 0"
  shows "DnodeInsert zalc 0 off typ ext right h = Some (a, h(a \<mapsto> cell 0 (fresh_item off typ ext) 0))"
  using assms by (simp add: DnodeInsert_def Let_def assign_def node_at_def)

lemma DnodeInsert_right:
  assumes s: "seg h 0 (xs @ x # ys) 0" and d: "distinct (map fst (xs @ x # ys))"
    and a: "zalc h = a" "a \<noteq> 0" "h a = None"
  shows "\<exists>h'. DnodeInsert zalc (fst x) off typ ext True h = Some (a, h') \<and>
    seg h' 0 (xs @ x # (a, fresh_item off typ ext) # ys) 0 \<and>
    (\<forall>b. b \<noteq> a \<and> b \<notin> fst ` set (xs @ x # ys) \<longrightarrow> h' b = h b)"
proof -
  let ?new = "fresh_item off typ ext"
  have afresh: "a \<notin> fst ` set (xs @ x # ys)"
    using seg_in_dom [OF s] a(3) by fastforce
  have x: "fst x \<noteq> 0" "h (fst x) = Some (cell (final 0 xs) (snd x) (first ys 0))"
    and sx: "seg h 0 xs (fst x)" and sy: "seg h (fst x) ys 0"
    using s by (auto simp: seg_append)
  show ?thesis
  proof (cases ys)
    case Nil
    show ?thesis
      using a afresh x sx d Nil
      by (auto simp: DnodeInsert_def Let_def heap_simps node_at_def seg_append)
  next
    case (Cons y zs)
    show ?thesis
      using a afresh x sx sy d Cons
      by (auto simp: DnodeInsert_def Let_def heap_simps node_at_def seg_append image_Un)
  qed
qed

lemma DnodeInsert_left:
  assumes s: "seg h 0 (xs @ x # ys) 0" and d: "distinct (map fst (xs @ x # ys))"
    and a: "zalc h = a" "a \<noteq> 0" "h a = None"
  shows "\<exists>h'. DnodeInsert zalc (fst x) off typ ext False h = Some (a, h') \<and>
    seg h' 0 (xs @ (a, fresh_item off typ ext) # x # ys) 0 \<and>
    (\<forall>b. b \<noteq> a \<and> b \<notin> fst ` set (xs @ x # ys) \<longrightarrow> h' b = h b)"
proof -
  have afresh: "a \<notin> fst ` set (xs @ x # ys)"
    using seg_in_dom [OF s] a(3) by fastforce
  have x: "fst x \<noteq> 0" "h (fst x) = Some (cell (final 0 xs) (snd x) (first ys 0))"
    and sx: "seg h 0 xs (fst x)" and sy: "seg h (fst x) ys 0"
    using s by (auto simp: seg_append)
  show ?thesis
  proof (cases xs rule: rev_cases)
    case Nil
    show ?thesis
      using a afresh x sy d Nil
      by (auto simp: DnodeInsert_def Let_def heap_simps node_at_def seg_append)
  next
    case (snoc zs y)
    show ?thesis
      using a afresh x sx sy d snoc
      by (auto simp: DnodeInsert_def Let_def heap_simps node_at_def seg_append image_Un)
  qed
qed

lemma DnodeRemove_correct:
  assumes s: "seg (dcells w) 0 (xs @ x # ys) 0" and d: "distinct (map fst (xs @ x # ys))"
  shows "\<exists>h'. DnodeRemove fr (fst x) w =
      Some \<lparr>dcells = h', released = released w @ (if fr then [fst (snd x)] else [])\<rparr> \<and>
    seg h' 0 (xs @ ys) 0 \<and> h' (fst x) = None \<and>
    (\<forall>b. b \<notin> fst ` set (xs @ x # ys) \<longrightarrow> h' b = dcells w b)"
proof -
  have x: "fst x \<noteq> 0" "dcells w (fst x) = Some (cell (final 0 xs) (snd x) (first ys 0))"
    and sx: "seg (dcells w) 0 xs (fst x)" and sy: "seg (dcells w) (fst x) ys 0"
    using s by (auto simp: seg_append)
  show ?thesis
  proof (cases xs rule: rev_cases)
    case Nil
    then show ?thesis
      using x sy d by (cases ys) (auto simp: DnodeRemove_def heap_simps node_at_def)
  next
    case (snoc zs z)
    then show ?thesis
      using x sx sy d
      by (cases ys) (auto simp: DnodeRemove_def heap_simps node_at_def seg_append image_Un)
  qed
qed

section \<open>Walks\<close>

lemma walk_node_seg:
  "seg h l (x # xs) 0 \<Longrightarrow>
   walk_node h (fst x) i = Some (if i < Suc (length xs) then fst ((x # xs) ! i) else 0)"
proof (induction i arbitrary: l x xs)
  case (Suc i)
  then show ?case by (cases xs) (auto simp: node_at_def)
qed simp

lemma walk_first:
  "seg h l xs 0 \<Longrightarrow> xs \<noteq> [] \<Longrightarrow>
   walk_node h (first xs 0) i = Some (if i < length xs then fst (xs ! i) else 0)"
  by (cases xs) (auto simp: walk_node_seg simp del: seg.simps)

definition middle :: "nodes \<Rightarrow> nat" where
  "middle xs = (if length xs < 3 then 0 else fst (xs ! (length xs div 2)))"

lemma DnodeChainAdapt_seg:
  assumes "seg h 0 xs 0" "node_count c + dif = of_nat (length xs)" "length xs < 2 ^ 64"
  shows "DnodeChainAdapt (first xs 0) lst dif h c =
    Some (c\<lparr>node_count := of_nat (length xs), root_node := first xs 0, last_node := lst,
            midl_node := middle xs\<rparr>)"
proof -
  have c: "unat (of_nat (length xs) :: stduint) = length xs"
    using assms(3) by (simp add: unat_of_nat take_bit_nat_eq_self)
  have lt: "(of_nat (length xs) < (3 :: stduint)) = (length xs < 3)"
    by (simp add: word_less_nat_alt c)
  have half: "unat (drop_bit 1 (of_nat (length xs) :: stduint)) = length xs div 2"
    by (simp add: drop_bit_eq_div unat_div c)
  have "length xs \<ge> 3 \<Longrightarrow> walk_node h (first xs 0) (length xs div 2) = Some (fst (xs ! (length xs div 2)))"
    using walk_first [OF assms(1)] by (cases xs) auto
  then show ?thesis
    using assms(1,2) seg_nonzero [OF assms(1)] half
    by (cases "xs = []") (auto simp: DnodeChainAdapt_def Let_def lt middle_def Dchain_LocateNode_def)
qed

section \<open>The state of a chain\<close>

definition chain_rep :: "chain_state \<Rightarrow> nodes \<Rightarrow> bool" where
  "chain_rep s xs \<longleftrightarrow>
    seg (dcells (fst s)) 0 xs 0 \<and> distinct (map fst xs) \<and> length xs < 2 ^ 64 \<and>
    root_node (snd s) = first xs 0 \<and> last_node (snd s) = final 0 xs \<and>
    node_count (snd s) = of_nat (length xs)"

lemma chain_rep_nonzero: "chain_rep s xs \<Longrightarrow> 0 \<notin> fst ` set xs"
  using seg_nonzero [of "dcells (fst s)" 0 xs 0] by (auto simp: chain_rep_def)

lemma chain_rep_empty:
  assumes "chain_rep s xs"
  shows "(root_node (snd s) = 0) = (xs = [])" "(last_node (snd s) = 0) = (xs = [])"
  using assms chain_rep_nonzero [OF assms] by (cases "xs = []"; simp add: chain_rep_def)+

definition same_conf :: "Dchain \<Rightarrow> Dchain \<Rightarrow> bool" where
  "same_conf c c' \<longleftrightarrow> extn_field c' = extn_field c \<and> func_free c' = func_free c \<and>
    Compare_f c' = Compare_f c \<and> been_sorted c' = been_sorted c"

text \<open>A step from the nodes \<open>xs\<close> to the nodes \<open>ys\<close> that releases the contents \<open>rel\<close>.\<close>

definition step_ok :: "chain_state \<Rightarrow> nodes \<Rightarrow> chain_state \<Rightarrow> nodes \<Rightarrow> nat list \<Rightarrow> bool" where
  "step_ok s xs s' ys rel \<longleftrightarrow>
    chain_rep s' ys \<and> delta (dcells (fst s)) xs (dcells (fst s')) ys \<and>
    released (fst s') = released (fst s) @ rel \<and> same_conf (snd s) (snd s')"

lemma step_ok_refl: "chain_rep s xs \<Longrightarrow> step_ok s xs s xs []"
  by (simp add: step_ok_def same_conf_def)

lemma step_ok_trans:
  "step_ok s xs s' ys rel \<Longrightarrow> step_ok s' ys s'' zs rel' \<Longrightarrow> step_ok s xs s'' zs (rel @ rel')"
  by (auto simp: step_ok_def same_conf_def intro: delta_trans)

lemma adapt_ok:
  assumes "seg (dcells w) 0 ys 0" "distinct (map fst ys)" "length ys < 2 ^ 64"
    and "node_count c + dif = of_nat (length ys)"
  shows "\<exists>c'. adapt (first ys 0) (final 0 ys) dif (w, c) = Some (w, c') \<and>
    chain_rep (w, c') ys \<and> same_conf c c' \<and> midl_node c' = middle ys"
  using DnodeChainAdapt_seg [OF assms(1,4,3), of "final 0 ys"] assms
  by (simp add: adapt_def chain_rep_def same_conf_def)

definition fresh_cell :: "zalc \<Rightarrow> heap \<Rightarrow> nat \<Rightarrow> bool" where
  "fresh_cell zalc h a \<longleftrightarrow> zalc h = a \<and> a \<noteq> 0 \<and> h a = None"

lemma fresh_not_in: "seg h l xs r \<Longrightarrow> h a = None \<Longrightarrow> a \<notin> fst ` set xs"
  using seg_in_dom by fastforce

lemma insert_node_right_seg:
  assumes s: "seg (dcells w) 0 (xs @ x # ys) 0" "distinct (map fst (xs @ x # ys))"
    and fresh: "fresh_cell zalc (dcells w) a"
  shows "\<exists>w'. insert_node zalc (fst x) off typ True (w, c) = Some (a, w', c) \<and>
    seg (dcells w') 0 (xs @ x # (a, fresh_item off typ (extn_field c)) # ys) 0 \<and>
    distinct (map fst (xs @ x # (a, fresh_item off typ (extn_field c)) # ys)) \<and>
    delta (dcells w) (xs @ x # ys) (dcells w') (xs @ x # (a, fresh_item off typ (extn_field c)) # ys) \<and>
    released w' = released w"
proof -
  have a: "zalc (dcells w) = a" "a \<noteq> 0" "dcells w a = None"
    using fresh by (auto simp: fresh_cell_def)
  obtain h' where h': "DnodeInsert zalc (fst x) off typ (extn_field c) True (dcells w) = Some (a, h')"
    "seg h' 0 (xs @ x # (a, fresh_item off typ (extn_field c)) # ys) 0"
    "\<forall>b. b \<noteq> a \<and> b \<notin> fst ` set (xs @ x # ys) \<longrightarrow> h' b = dcells w b"
    using DnodeInsert_right [where h = "dcells w", OF s, of zalc a, OF a] by blast
  have "a \<notin> fst ` set (xs @ x # ys)"
    using fresh_not_in [OF s(1) a(3)] .
  then show ?thesis
    using h' s(2) a(3)
    by (intro exI [of _ "w\<lparr>dcells := h'\<rparr>"]) (auto simp: insert_node_def delta_def image_Un)
qed

lemma insert_node_left_seg:
  assumes s: "seg (dcells w) 0 (xs @ x # ys) 0" "distinct (map fst (xs @ x # ys))"
    and fresh: "fresh_cell zalc (dcells w) a"
  shows "\<exists>w'. insert_node zalc (fst x) off typ False (w, c) = Some (a, w', c) \<and>
    seg (dcells w') 0 (xs @ (a, fresh_item off typ (extn_field c)) # x # ys) 0 \<and>
    distinct (map fst (xs @ (a, fresh_item off typ (extn_field c)) # x # ys)) \<and>
    delta (dcells w) (xs @ x # ys) (dcells w') (xs @ (a, fresh_item off typ (extn_field c)) # x # ys) \<and>
    released w' = released w"
proof -
  have a: "zalc (dcells w) = a" "a \<noteq> 0" "dcells w a = None"
    using fresh by (auto simp: fresh_cell_def)
  obtain h' where h': "DnodeInsert zalc (fst x) off typ (extn_field c) False (dcells w) = Some (a, h')"
    "seg h' 0 (xs @ (a, fresh_item off typ (extn_field c)) # x # ys) 0"
    "\<forall>b. b \<noteq> a \<and> b \<notin> fst ` set (xs @ x # ys) \<longrightarrow> h' b = dcells w b"
    using DnodeInsert_left [where h = "dcells w", OF s, of zalc a, OF a] by blast
  have "a \<notin> fst ` set (xs @ x # ys)"
    using fresh_not_in [OF s(1) a(3)] .
  then show ?thesis
    using h' s(2) a(3)
    by (intro exI [of _ "w\<lparr>dcells := h'\<rparr>"]) (auto simp: insert_node_def delta_def image_Un)
qed

lemma chain_rep_seg:
  "chain_rep (w, c) xs \<Longrightarrow> seg (dcells w) 0 xs 0 \<and> distinct (map fst xs)"
  by (simp add: chain_rep_def)

lemmas insert_node_right =
  insert_node_right_seg [OF chain_rep_seg [THEN conjunct1] chain_rep_seg [THEN conjunct2]]
lemmas insert_node_left =
  insert_node_left_seg [OF chain_rep_seg [THEN conjunct1] chain_rep_seg [THEN conjunct2]]

lemma insert_node_null:
  assumes "fresh_cell zalc (dcells w) a"
  shows "insert_node zalc 0 off typ right (w, c) =
    Some (a, w\<lparr>dcells := (dcells w)(a \<mapsto> cell 0 (fresh_item off typ (extn_field c)) 0)\<rparr>, c)"
  using assms by (simp add: insert_node_def fresh_cell_def DnodeInsert_null)

lemma adapt_step:
  assumes "seg (dcells w') 0 ys 0" "distinct (map fst ys)"
    and "delta (dcells w) xs (dcells w') ys" "released w' = released w @ rel"
    and "r = first ys 0" "l = final 0 ys"
    and "length ys < 2 ^ 64" "node_count c + dif = of_nat (length ys)"
  shows "\<exists>s'. adapt r l dif (w', c) = Some s' \<and> step_ok (w, c) xs s' ys rel \<and>
    midl_node (snd s') = middle ys"
  using adapt_ok [OF assms(1,2,7,8)] assms by (auto simp: step_ok_def)

definition new_node :: "nat \<Rightarrow> nat \<Rightarrow> Dchain \<Rightarrow> nat \<times> item" where
  "new_node a off c = (a, fresh_item off 0 (extn_field c))"

section \<open>Append\<close>

lemma first_in: "x \<in> set xs \<Longrightarrow> xs \<noteq> []"
  by auto

lemma insert_before_ok:
  assumes rep: "chain_rep (w, c) (xs @ x # ys)" and fresh: "fresh_cell zalc (dcells w) a"
    and len: "Suc (length (xs @ x # ys)) < 2 ^ 64"
  shows "\<exists>w' s'. insert_node zalc (fst x) off 0 False (w, c) = Some (a, w', c) \<and>
    adapt (if xs = [] then a else root_node c) (last_node c) 1 (w', c) = Some s' \<and>
    step_ok (w, c) (xs @ x # ys) s' (xs @ new_node a off c # x # ys) [] \<and>
    midl_node (snd s') = middle (xs @ new_node a off c # x # ys)"
proof -
  obtain w' where w': "insert_node zalc (fst x) off 0 False (w, c) = Some (a, w', c)"
    "seg (dcells w') 0 (xs @ new_node a off c # x # ys) 0"
    "distinct (map fst (xs @ new_node a off c # x # ys))"
    "delta (dcells w) (xs @ x # ys) (dcells w') (xs @ new_node a off c # x # ys)"
    "released w' = released w @ []"
    using insert_node_left [OF rep rep fresh, of off 0 c] unfolding new_node_def by auto
  have "(if xs = [] then a else root_node c) = first (xs @ new_node a off c # x # ys) 0"
    "last_node c = final 0 (xs @ new_node a off c # x # ys)"
    using rep by (auto simp: chain_rep_def new_node_def hd_append)
  from adapt_step [OF w'(2-5) this, of c 1] show ?thesis
    using w'(1) rep len by (simp add: chain_rep_def)
qed

lemma insert_after_ok:
  assumes rep: "chain_rep (w, c) (xs @ x # ys)" and fresh: "fresh_cell zalc (dcells w) a"
    and len: "Suc (length (xs @ x # ys)) < 2 ^ 64"
  shows "\<exists>w' s'. insert_node zalc (fst x) off 0 True (w, c) = Some (a, w', c) \<and>
    adapt (root_node c) (if ys = [] then a else last_node c) 1 (w', c) = Some s' \<and>
    step_ok (w, c) (xs @ x # ys) s' (xs @ x # new_node a off c # ys) [] \<and>
    midl_node (snd s') = middle (xs @ x # new_node a off c # ys)"
proof -
  obtain w' where w': "insert_node zalc (fst x) off 0 True (w, c) = Some (a, w', c)"
    "seg (dcells w') 0 (xs @ x # new_node a off c # ys) 0"
    "distinct (map fst (xs @ x # new_node a off c # ys))"
    "delta (dcells w) (xs @ x # ys) (dcells w') (xs @ x # new_node a off c # ys)"
    "released w' = released w @ []"
    using insert_node_right [OF rep rep fresh, of off 0 c] unfolding new_node_def by auto
  have "root_node c = first (xs @ x # new_node a off c # ys) 0"
    "(if ys = [] then a else last_node c) = final 0 (xs @ x # new_node a off c # ys)"
    using rep by (auto simp: chain_rep_def new_node_def hd_append)
  from adapt_step [OF w'(2-5) this, of c 1] show ?thesis
    using w'(1) rep len by (simp add: chain_rep_def)
qed

text \<open>The ends of a chain are recognised by their addresses.\<close>

lemma chain_rep_ends:
  assumes "chain_rep (w, c) (xs @ x # ys)"
  shows "(fst x = root_node c) = (xs = [])" "(fst x = last_node c) = (ys = [])"
    "root_node c \<noteq> 0" "last_node c \<noteq> 0" "fst x \<noteq> 0"
proof -
  note d = assms [unfolded chain_rep_def]
  show "(fst x = root_node c) = (xs = [])"
    using d by (cases xs) (auto simp: hd_append)
  show "(fst x = last_node c) = (ys = [])"
    using d by (cases ys rule: rev_cases) auto
  show "root_node c \<noteq> 0" "last_node c \<noteq> 0"
    using chain_rep_empty [OF assms] by auto
  show "fst x \<noteq> 0"
    using chain_rep_nonzero [OF assms] by auto
qed

lemma append_at_ok:
  assumes rep: "chain_rep (w, c) (xs @ x # ys)" and fresh: "fresh_cell zalc (dcells w) a"
    and len: "Suc (length (xs @ x # ys)) < 2 ^ 64"
  shows "\<exists>s'. append_at zalc off onleft (fst x) (w, c) = Some (a, s') \<and>
    step_ok (w, c) (xs @ x # ys) s'
      (if onleft then xs @ new_node a off c # x # ys else xs @ x # new_node a off c # ys) [] \<and>
    midl_node (snd s') =
      middle (if onleft then xs @ new_node a off c # x # ys else xs @ x # new_node a off c # ys)"
proof (cases onleft)
  case True
  obtain w' s' where "insert_node zalc (fst x) off 0 False (w, c) = Some (a, w', c)"
    "adapt (if xs = [] then a else root_node c) (last_node c) 1 (w', c) = Some s'"
    "step_ok (w, c) (xs @ x # ys) s' (xs @ new_node a off c # x # ys) []"
    "midl_node (snd s') = middle (xs @ new_node a off c # x # ys)"
    using insert_before_ok [OF assms, of off] by blast
  then show ?thesis
    using chain_rep_ends [OF rep] True by (simp add: append_at_def Let_def)
next
  case False
  obtain w' s' where "insert_node zalc (fst x) off 0 True (w, c) = Some (a, w', c)"
    "adapt (root_node c) (if ys = [] then a else last_node c) 1 (w', c) = Some s'"
    "step_ok (w, c) (xs @ x # ys) s' (xs @ x # new_node a off c # ys) []"
    "midl_node (snd s') = middle (xs @ x # new_node a off c # ys)"
    using insert_after_ok [OF assms, of off] by blast
  then show ?thesis
    using chain_rep_ends [OF rep] False by (simp add: append_at_def Let_def)
qed

text \<open>A new node alone.\<close>

lemma append_first_ok:
  assumes rep: "chain_rep (w, c) []" and fresh: "fresh_cell zalc (dcells w) a"
  shows "\<exists>w' s'. insert_node zalc 0 off 0 right (w, c) = Some (a, w', c) \<and>
    adapt a a 1 (w', c) = Some s' \<and> step_ok (w, c) [] s' [new_node a off c] [] \<and> midl_node (snd s') = middle [new_node a off c]"
proof -
  let ?w = "w\<lparr>dcells := (dcells w)(a \<mapsto> cell 0 (fresh_item off 0 (extn_field c)) 0)\<rparr>"
  have "seg (dcells ?w) 0 [new_node a off c] 0" "distinct (map fst [new_node a off c])" "delta (dcells w) [] (dcells ?w) [new_node a off c]"
    "released ?w = released w @ []" "a = first [new_node a off c] 0" "a = final 0 [new_node a off c]"
    using fresh by (auto simp: new_node_def fresh_cell_def delta_def)
  from adapt_step [OF this, of c 1] show ?thesis
    using rep insert_node_null [OF fresh] by (auto simp: chain_rep_def)
qed

lemma Push_ok:
  assumes rep: "chain_rep (w, c) xs" and fresh: "fresh_cell zalc (dcells w) a"
    and len: "Suc (length xs) < 2 ^ 64"
  shows "\<exists>s'. Dchain_Push zalc off end_left (w, c) = Some (a, s') \<and>
    step_ok (w, c) xs s' (if end_left then new_node a off c # xs else xs @ [new_node a off c]) [] \<and>
    midl_node (snd s') = middle (if end_left then new_node a off c # xs else xs @ [new_node a off c])"
proof (cases "xs = []")
  case True
  then show ?thesis
    using append_first_ok [of w c zalc a off False] rep fresh
    by (auto simp: Dchain_Push_def chain_rep_def)
next
  case False
  have nz: "root_node c \<noteq> 0" "last_node c \<noteq> 0"
    using chain_rep_empty [OF rep] False by auto
  show ?thesis
  proof (cases end_left)
    case True
    obtain x ys where xs: "xs = [] @ x # ys"
      using False by (cases xs) auto
    then have "root_node c = fst x"
      using rep by (simp add: chain_rep_def)
    with insert_before_ok [OF rep [unfolded xs] fresh, of off] len nz True show ?thesis
      by (auto simp: xs Dchain_Push_def Let_def)
  next
    case False
    obtain ys x where xs: "xs = ys @ x # []"
      using \<open>xs \<noteq> []\<close> by (cases xs rule: rev_cases) auto
    then have "last_node c = fst x"
      using rep by (simp add: chain_rep_def)
    with insert_after_ok [OF rep [unfolded xs] fresh, of off] len nz False show ?thesis
      by (auto simp: xs Dchain_Push_def Let_def)
  qed
qed

lemma seek_right_seg:
  "seg h l (x # xs) 0 \<Longrightarrow>
   seek_right h cmp addr (fst x) =
     Some (first (dropWhile (\<lambda>y. cmp addr (fst (snd y)) > 0) (x # xs)) 0)"
proof (induction xs arbitrary: l x)
  case Nil
  then show ?case by (subst seek_right.simps) (simp add: node_at_def)
next
  case (Cons y ys)
  have "seek_right h cmp addr (fst y) =
    Some (first (dropWhile (\<lambda>y. cmp addr (fst (snd y)) > 0) (y # ys)) 0)"
    using Cons by auto
  then show ?case
    using Cons.prems by (subst seek_right.simps) (auto simp: node_at_def)
qed

text \<open>Where \<open>Append\<close> puts a new node when no neighbour is named.\<close>

definition put_node :: "(nat \<Rightarrow> nat \<Rightarrow> int) option \<Rightarrow> bool \<Rightarrow> nat \<times> item \<Rightarrow> nodes \<Rightarrow> nodes" where
  "put_node cf onleft x xs =
    (case cf of
       None \<Rightarrow> if onleft then x # xs else xs @ [x]
     | Some cmp \<Rightarrow>
         takeWhile (\<lambda>y. cmp (fst (snd x)) (fst (snd y)) > 0) xs @ x #
         dropWhile (\<lambda>y. cmp (fst (snd x)) (fst (snd y)) > 0) xs)"

lemma Append_ok:
  assumes rep: "chain_rep (w, c) xs" and fresh: "fresh_cell zalc (dcells w) a"
    and len: "Suc (length xs) < 2 ^ 64" and sorted: "been_sorted c"
  shows "\<exists>s'. Dchain_Append zalc off onleft 0 (w, c) = Some (a, s') \<and>
    step_ok (w, c) xs s' (put_node (Compare_f c) onleft (new_node a off c) xs) [] \<and>
    midl_node (snd s') = middle (put_node (Compare_f c) onleft (new_node a off c) xs)"
proof (cases "xs = [] \<or> Compare_f c = None")
  case True
  then show ?thesis
    using append_first_ok [of w c zalc a off True] Push_ok [OF rep fresh len, of off onleft]
      chain_rep_empty [OF rep] rep fresh
    by (cases "xs = []") (auto simp: Dchain_Append_def put_node_def split: option.splits)
next
  case False
  then obtain cmp x xs' where cmp: "Compare_f c = Some cmp" and xs: "xs = x # xs'"
    by (cases xs) auto
  define P where "P = (\<lambda>y::nat \<times> item. cmp off (fst (snd y)) > 0)"
  have pl: "put_node (Compare_f c) onleft (new_node a off c) xs =
    takeWhile P xs @ new_node a off c # dropWhile P xs"
    by (simp add: put_node_def cmp new_node_def fresh_item_def P_def)
  have c1: "c\<lparr>been_sorted := True\<rparr> = c"
    using sorted by simp
  have root: "root_node c = fst x" "fst x \<noteq> 0"
    and sx: "seg (dcells w) 0 (x # xs') 0"
    using rep xs by (auto simp: chain_rep_def)
  have dx: "node_at (dcells w) (fst x) = Some (cell 0 (snd x) (first xs' 0))"
    using sx by (simp add: node_at_def)
  have start: "Dchain_Append zalc off onleft 0 (w, c) =
    (if P x then do {
        crt \<leftarrow> seek_right (dcells w) cmp off (fst x);
        if crt = 0 then
          do {
            (new_nod, w, c) \<leftarrow> insert_node zalc (last_node c) off 0 True (w, c);
            s \<leftarrow> adapt (if root_node c = 0 then new_nod else root_node c) new_nod 1 (w, c);
            Some (new_nod, s)
          }
        else
          do {
            (new_nod, w, c) \<leftarrow> insert_node zalc crt off 0 False (w, c);
            s \<leftarrow> adapt (if crt = root_node c then new_nod else root_node c) (last_node c) 1 (w, c);
            Some (new_nod, s)
          }
      }
     else Dchain_Push zalc off True (w, c))"
    using root dx sorted cmp by (simp add: Dchain_Append_def append_sorted_def c1 P_def Let_def cong: if_cong)
  show ?thesis
  proof (cases "P x")
    case False
    then show ?thesis
      using Push_ok [OF rep fresh len, of off True] start by (simp add: pl [unfolded xs] xs)
  next
    case True
    have seek: "seek_right (dcells w) cmp off (fst x) = Some (first (dropWhile P xs) 0)"
      using seek_right_seg [OF sx] by (simp add: P_def xs)
    show ?thesis
    proof (cases "dropWhile P xs")
      case Nil
      obtain ys z where ys: "xs = ys @ z # []"
        by (rule that [of "butlast xs" "last xs"]) (simp add: xs)
      then have "last_node c = fst z" "takeWhile P xs = xs"
        using rep Nil by (auto simp: chain_rep_def takeWhile_eq_all_conv dropWhile_eq_Nil_conv)
      with insert_after_ok [OF rep [unfolded ys] fresh, of off] True len start seek Nil root pl
      show ?thesis by (auto simp: ys)
    next
      case (Cons z zs)
      define ts where "ts = takeWhile P xs"
      have ys: "xs = ts @ z # zs"
        using takeWhile_dropWhile_id [of P xs] Cons by (simp add: ts_def)
      have "ts \<noteq> []"
        using True by (simp add: ts_def xs)
      with insert_before_ok [OF rep [unfolded ys] fresh, of off] len start seek Cons True
        chain_rep_ends [OF rep [unfolded ys]] pl
      show ?thesis by (auto simp: ts_def [symmetric]) (auto simp: ys)
    qed
  qed
qed

section \<open>Remove\<close>

abbreviation contents :: "nodes \<Rightarrow> nat list" where
  "contents xs \<equiv> map (\<lambda>x. fst (snd x)) xs"

definition dropped :: "Dchain \<Rightarrow> nodes \<Rightarrow> nat list" where
  "dropped c xs = (if func_free c then contents xs else [])"

lemma DnodeRemove_delta:
  assumes s: "seg (dcells w) 0 (xs @ x # ys) 0" and d: "distinct (map fst (xs @ x # ys))"
  shows "\<exists>w'. DnodeRemove fr (fst x) w = Some w' \<and> seg (dcells w') 0 (xs @ ys) 0 \<and>
    delta (dcells w) (xs @ x # ys) (dcells w') (xs @ ys) \<and>
    released w' = released w @ (if fr then [fst (snd x)] else [])"
proof -
  obtain h' where h': "DnodeRemove fr (fst x) w =
      Some \<lparr>dcells = h', released = released w @ (if fr then [fst (snd x)] else [])\<rparr>"
    "seg h' 0 (xs @ ys) 0" "h' (fst x) = None"
    "\<forall>b. b \<notin> fst ` set (xs @ x # ys) \<longrightarrow> h' b = dcells w b"
    using DnodeRemove_correct [OF s d, of fr] by blast
  then show ?thesis
    using d by (auto simp: delta_def image_Un)
qed

lemma remove_first_found:
  assumes rep: "chain_rep (w, c) (pre @ x # post)"
  shows "\<exists>w' s'. DnodeRemove (func_free c) (fst x) w = Some w' \<and>
    adapt (if fst x = root_node c then first post 0 else root_node c)
      (if fst x = last_node c then final 0 pre else last_node c) (- 1) (w', c) = Some s' \<and>
    step_ok (w, c) (pre @ x # post) s' (pre @ post) (dropped c [x])"
proof -
  have s: "seg (dcells w) 0 (pre @ x # post) 0" "distinct (map fst (pre @ x # post))"
    using rep by (auto simp: chain_rep_def)
  obtain w' where w': "DnodeRemove (func_free c) (fst x) w = Some w'"
    "seg (dcells w') 0 (pre @ post) 0" "delta (dcells w) (pre @ x # post) (dcells w') (pre @ post)"
    "released w' = released w @ dropped c [x]"
    using DnodeRemove_delta [OF s, of "func_free c"] by (auto simp: dropped_def)
  have d: "distinct (map fst (pre @ post))"
    using s(2) by auto
  have r: "(if fst x = root_node c then first post 0 else root_node c) = first (pre @ post) 0"
    and l: "(if fst x = last_node c then final 0 pre else last_node c) = final 0 (pre @ post)"
    using rep chain_rep_ends [OF rep] by (auto simp: chain_rep_def hd_append)
  have "length (pre @ post) < 2 ^ 64" "node_count c + - 1 = of_nat (length (pre @ post))"
    using rep by (auto simp: chain_rep_def)
  from adapt_step [OF w'(2) d w'(3,4) r l this] w'(1) show ?thesis
    by blast
qed

lemma remove_first_ok:
  assumes "chain_rep (w, c) (pre @ x # post)"
    and "\<And>y l r. y \<in> set (x # post) \<Longrightarrow> found (fst y) (cell l (snd y) r) = Q y"
  shows "\<exists>s'. remove_first found (final 0 pre) (fst x) (w, c) =
      Some (first (tl (dropWhile (\<lambda>y. \<not> Q y) (x # post))) 0, s') \<and>
    step_ok (w, c) (pre @ x # post) s'
      (pre @ takeWhile (\<lambda>y. \<not> Q y) (x # post) @ tl (dropWhile (\<lambda>y. \<not> Q y) (x # post)))
      (dropped c (take 1 (dropWhile (\<lambda>y. \<not> Q y) (x # post))))"
  using assms
proof (induction post arbitrary: pre x)
  case Nil
  have x: "node_at (dcells w) (fst x) = Some (cell (final 0 pre) (snd x) 0)"
    using Nil(1) by (auto simp: chain_rep_def seg_append node_at_def)
  show ?case
    using remove_first_found [OF Nil(1)] Nil x step_ok_refl [OF Nil(1)]
    by (subst remove_first.simps) (auto simp: dropped_def)
next
  case (Cons y ys)
  have x: "node_at (dcells w) (fst x) = Some (cell (final 0 pre) (snd x) (fst y))" "fst y \<noteq> 0"
    using Cons(2) by (auto simp: chain_rep_def seg_append node_at_def)
  show ?case
  proof (cases "Q x")
    case True
    then show ?thesis
      using remove_first_found [OF Cons(2)] Cons(3) x
      by (subst remove_first.simps) auto
  next
    case False
    then show ?thesis
      using Cons(1) [of "pre @ [x]" y] Cons(2,3) x
      by (subst remove_first.simps) auto
  qed
qed

text \<open>The chain without the first node that satisfies a condition.\<close>

definition without :: "(nat \<times> item \<Rightarrow> bool) \<Rightarrow> nodes \<Rightarrow> nodes" where
  "without Q xs = takeWhile (\<lambda>y. \<not> Q y) xs @ tl (dropWhile (\<lambda>y. \<not> Q y) xs)"

lemma Remove_node_ok:
  assumes "chain_rep (w, c) xs"
  shows "\<exists>s'. Dchain_Remove_node nod (w, c) =
      Some (first (tl (dropWhile (\<lambda>y. fst y \<noteq> nod) xs)) 0, s') \<and>
    step_ok (w, c) xs s' (without (\<lambda>y. fst y = nod) xs)
      (dropped c (take 1 (dropWhile (\<lambda>y. fst y \<noteq> nod) xs)))"
proof (cases xs)
  case Nil
  then show ?thesis
    using assms step_ok_refl [OF assms]
    by (auto simp: Dchain_Remove_node_def chain_rep_def without_def dropped_def)
next
  case (Cons x post)
  then show ?thesis
    using remove_first_ok [of w c "[]" x post "\<lambda>crt n. crt = nod" "\<lambda>y. fst y = nod"] assms
      chain_rep_empty [OF assms]
    by (auto simp: Dchain_Remove_node_def without_def chain_rep_def)
qed

lemma Remove_content_ok:
  assumes "chain_rep (w, c) xs"
  shows "\<exists>s'. Dchain_Remove_content o1 (w, c) =
      Some (first (tl (dropWhile (\<lambda>y. fst (snd y) \<noteq> o1) xs)) 0, s') \<and>
    step_ok (w, c) xs s' (without (\<lambda>y. fst (snd y) = o1) xs)
      (dropped c (take 1 (dropWhile (\<lambda>y. fst (snd y) \<noteq> o1) xs)))"
proof (cases xs)
  case Nil
  then show ?thesis
    using assms step_ok_refl [OF assms]
    by (auto simp: Dchain_Remove_content_def chain_rep_def without_def dropped_def)
next
  case (Cons x post)
  then show ?thesis
    using remove_first_ok [of w c "[]" x post "\<lambda>crt n. d_offs n = o1" "\<lambda>y. fst (snd y) = o1"] assms
      chain_rep_empty [OF assms]
    by (auto simp: Dchain_Remove_content_def without_def chain_rep_def)
qed

lemma remove_times_ok:
  assumes "seg (dcells w) 0 (pre @ mid @ post) 0" "distinct (map fst (pre @ mid @ post))"
  shows "\<exists>w'. remove_times fr (length mid) (first (mid @ post) 0) w = Some w' \<and>
    seg (dcells w') 0 (pre @ post) 0 \<and>
    delta (dcells w) (pre @ mid @ post) (dcells w') (pre @ post) \<and>
    released w' = released w @ (if fr then contents mid else [])"
  using assms
proof (induction mid arbitrary: w)
  case (Cons x mid)
  have x: "node_at (dcells w) (fst x) = Some (cell (final 0 pre) (snd x) (first (mid @ post) 0))"
    using Cons.prems by (auto simp: seg_append node_at_def hd_append)
  obtain w' where w': "DnodeRemove fr (fst x) w = Some w'" "seg (dcells w') 0 (pre @ mid @ post) 0"
    "delta (dcells w) (pre @ x # mid @ post) (dcells w') (pre @ mid @ post)"
    "released w' = released w @ (if fr then [fst (snd x)] else [])"
    using DnodeRemove_delta [of w pre x "mid @ post" fr] Cons.prems by auto
  have "distinct (map fst (pre @ mid @ post))"
    using Cons.prems by auto
  from Cons.IH [OF w'(2) this] show ?case
    using x w' by (auto intro: delta_trans)
qed auto

lemma Remove_ok:
  assumes rep: "chain_rep (w, c) (pre @ mid @ post)" and m: "mid \<noteq> []"
  shows "\<exists>s'. Dchain_Remove (length pre) (length mid) (w, c) = Some (True, s') \<and>
    step_ok (w, c) (pre @ mid @ post) s' (pre @ post) (dropped c mid) \<and>
    midl_node (snd s') = middle (pre @ post)"
proof -
  let ?xs = "pre @ mid @ post"
  have s: "seg (dcells w) 0 ?xs 0" "distinct (map fst ?xs)" and len: "length ?xs < 2 ^ 64"
    and ends: "root_node c = first ?xs 0" "last_node c = final 0 ?xs"
    and cnt: "node_count c = of_nat (length ?xs)"
    using rep by (auto simp: chain_rep_def simp del: map_append)
  obtain x ms where mid: "mid = x # ms"
    using m by (cases mid) auto
  have crt: "Dchain_Locate (dcells w) c (length pre) = Some (fst x)"
    using walk_first [OF s(1)] ends(1) mid by (simp add: Dchain_Locate_def nth_append)
  have x: "node_at (dcells w) (fst x) = Some (cell (final 0 pre) (snd x) (first (ms @ post) 0))" "fst x \<noteq> 0"
    using s(1) mid by (auto simp: seg_append node_at_def hd_append)
  have nxt: "Dchain_Locate (dcells w) c (u64 (length pre + length mid)) = Some (first post 0)"
    using walk_first [OF s(1)] ends(1) m len
    by (cases post) (auto simp: Dchain_Locate_def nth_append)
  obtain w' where w': "remove_times (func_free c) (length mid) (fst x) w = Some w'"
    "seg (dcells w') 0 (pre @ post) 0" "delta (dcells w) ?xs (dcells w') (pre @ post)"
    "released w' = released w @ dropped c mid"
    using remove_times_ok [OF s, of "func_free c"] mid by (auto simp: dropped_def)
  have nz: "0 \<notin> fst ` set (pre @ post)"
    using seg_nonzero [OF w'(2)] .
  have link: "asserv_next (final 0 pre) (first post 0) (dcells w') = Some (dcells w')"
  proof (cases pre rule: rev_cases)
    case (snoc ps p)
    then have "fst p \<noteq> 0" "dcells w' (fst p) = Some (cell (final 0 ps) (snd p) (first post 0))"
      using w'(2) by (auto simp: seg_append)
    then show ?thesis
      using snoc by (simp add: heap_simps fun_upd_idem)
  qed (simp add: heap_simps)
  have r: "(if final 0 pre \<noteq> 0 then root_node c else first post 0) = first (pre @ post) 0"
    and l: "(if first post 0 \<noteq> 0 then last_node c else final 0 pre) = final 0 (pre @ post)"
    using ends nz by (auto simp: hd_append image_Un)
  have d: "distinct (map fst (pre @ post))"
    using s(2) by auto
  have "length (pre @ post) < 2 ^ 64"
    "node_count c + - of_nat (length mid) = of_nat (length (pre @ post))"
    using len cnt by auto
  from adapt_step [OF w'(2) d w'(3,4) r l this] obtain s' where
    "adapt (if final 0 pre \<noteq> 0 then root_node c else first post 0)
      (if first post 0 \<noteq> 0 then last_node c else final 0 pre) (- of_nat (length mid)) (w', c) = Some s'"
    "step_ok (w, c) ?xs s' (pre @ post) (dropped c mid)" "midl_node (snd s') = middle (pre @ post)"
    by blast
  then show ?thesis
    using w'(1) crt x nxt link m by (cases s') (auto simp: Dchain_Remove_def simp del: last.simps)
qed

section \<open>Insert, Exchange and Reverse\<close>

lemma Insert_ok:
  assumes rep: "chain_rep (w, c) xs" and fresh: "fresh_cell zalc (dcells w) a"
    and len: "Suc (length xs) < 2 ^ 64" and i: "i \<le> length xs" "xs \<noteq> []"
  shows "\<exists>s'. Dchain_Insert zalc i off (w, c) = Some (True, s') \<and>
    step_ok (w, c) xs s' (take i xs @ new_node a off c # drop i xs) []"
proof -
  have count: "unat (node_count c) = length xs" "node_count c = of_nat (length xs)"
    using rep by (auto simp: chain_rep_def unat_of_nat take_bit_nat_eq_self)
  show ?thesis
  proof (cases "i = 0")
    case True
    obtain x ys where xs: "xs = [] @ x # ys"
      using i(2) by (cases xs) auto
    have "root_node c = fst x"
      using rep xs by (simp add: chain_rep_def)
    then show ?thesis
      using insert_node_left [OF rep [unfolded xs] rep [unfolded xs] fresh, of off 0 c] True rep len
      by (auto simp: Dchain_Insert_def Let_def xs step_ok_def chain_rep_def new_node_def same_conf_def)
  next
    case False
    then obtain x where xs: "xs = take (i - 1) xs @ x # drop i xs" and x: "x = xs ! (i - 1)"
      using id_take_nth_drop [of "i - 1" xs] i by auto
    have split: "take (i - 1) xs @ x # zs = take i xs @ zs" for zs
      using False i x by (cases i) (auto simp: take_Suc_conv_app_nth)
    have rep': "chain_rep (w, c) (take (i - 1) xs @ x # drop i xs)"
      using rep xs by simp
    obtain w' where w': "insert_node zalc (fst x) off 0 True (w, c) = Some (a, w', c)"
      "seg (dcells w') 0 (take i xs @ new_node a off c # drop i xs) 0"
      "distinct (map fst (take i xs @ new_node a off c # drop i xs))"
      "delta (dcells w) xs (dcells w') (take i xs @ new_node a off c # drop i xs)"
      "released w' = released w"
      using insert_node_right [OF rep' rep' fresh, of off 0 c]
      unfolding new_node_def [symmetric] split append_take_drop_id by blast
    have root: "root_node c = first (take i xs @ new_node a off c # drop i xs) 0"
      using rep False i by (cases xs; cases i) (auto simp: chain_rep_def)
    show ?thesis
    proof (cases "i = length xs")
      case True
      then have "last_node c = fst x"
        using rep x i by (simp add: chain_rep_def last_conv_nth)
      then show ?thesis
        using True False w' root count len
        by (simp add: Dchain_Insert_def Let_def Dchain_Length_def step_ok_def chain_rep_def same_conf_def
            new_node_def)
    next
      case inner: False
      have "i - Suc 0 < length xs"
        using i inner by simp
      then have "Dchain_Locate (dcells w) c (i - 1) = Some (fst x)"
        using walk_first [of "dcells w" 0 xs "i - 1"] rep i x
        by (simp add: Dchain_Locate_def chain_rep_def)
      moreover have "last_node c = final 0 (take i xs @ new_node a off c # drop i xs)"
        using rep i inner by (simp add: chain_rep_def last_map)
      ultimately show ?thesis
        using inner False w' root count len i
        by (simp add: Dchain_Insert_def Let_def Dchain_Length_def step_ok_def chain_rep_def same_conf_def)
    qed
  qed
qed

definition retag :: "item \<Rightarrow> item \<Rightarrow> item" where
  "retag y x = (fst y, fst (snd y), snd (snd x))"

lemma cell_retag [simp]:
  "cell l x r\<lparr>d_offs := fst y, d_type := fst (snd y)\<rparr> = cell l (retag y x) r"
  by (simp add: cell_def retag_def)

lemma map_fst_retag [simp]:
  "map fst (xs[i := (fst (xs ! i), y)]) = map fst xs"
  by (metis fst_conv list_update_id map_update)

lemma seg_retag:
  "seg h l xs r \<Longrightarrow> distinct (map fst xs) \<Longrightarrow> i < length xs \<Longrightarrow>
   seg (h(fst (xs ! i) \<mapsto>
       the (h (fst (xs ! i)))\<lparr>d_offs := fst y, d_type := fst (snd y)\<rparr>)) l
     (xs[i := (fst (xs ! i), retag y (snd (xs ! i)))]) r"
proof (induction xs arbitrary: l i)
  case (Cons x xs)
  show ?case
  proof (cases i)
    case 0
    have "seg (h(fst x := v)) (fst x) xs r" for v
      using Cons.prems by auto
    then show ?thesis
      using Cons.prems 0 by (simp del: fun_upd_apply add: fun_upd_same)
  next
    case (Suc j)
    have "first (xs[j := (fst (xs ! j), retag y (snd (xs ! j)))]) r = first xs r"
      by simp
    then show ?thesis
      using Cons.IH [of "fst x" j] Cons.prems Suc
      by (auto simp: image_iff nth_mem)
  qed
qed simp

definition exchanged :: "nat \<Rightarrow> nat \<Rightarrow> nodes \<Rightarrow> nodes" where
  "exchanged i j xs =
    xs[i := (fst (xs ! i), retag (snd (xs ! j)) (snd (xs ! i))),
       j := (fst (xs ! j), retag (snd (xs ! i)) (snd (xs ! j)))]"

lemma Exchange_ok:
  assumes rep: "chain_rep (w, c) xs" and ij: "i < length xs" "j < length xs"
  shows "\<exists>s'. Dchain_Exchange i j (w, c) = Some (True, s') \<and>
    step_ok (w, c) xs s' (if i = j then xs else exchanged i j xs) []"
proof -
  have s: "seg (dcells w) 0 xs 0" "distinct (map fst xs)"
    using rep by (auto simp: chain_rep_def)
  have loc: "Dchain_Locate (dcells w) c i = Some (fst (xs ! i))"
    "Dchain_Locate (dcells w) c j = Some (fst (xs ! j))"
    using walk_first [OF s(1)] rep ij
    by (cases "xs = []"; simp add: Dchain_Locate_def chain_rep_def)+
  note ci = seg_nth [OF s(1) ij(1)] and cj = seg_nth [OF s(1) ij(2)]
  show ?thesis
  proof (cases "i = j")
    case True
    then show ?thesis
      using loc step_ok_refl [OF rep] by (auto simp: Dchain_Exchange_def)
  next
    case False
    then have ne: "fst (xs ! i) \<noteq> fst (xs ! j)"
      using s(2) ij by (metis length_map nth_eq_iff_index_eq nth_map)
    define xs1 where "xs1 = xs[i := (fst (xs ! i), retag (snd (xs ! j)) (snd (xs ! i)))]"
    define h1 where "h1 = (dcells w)(fst (xs ! i) \<mapsto> the (dcells w (fst (xs ! i)))
      \<lparr>d_offs := fst (snd (xs ! j)), d_type := fst (snd (snd (xs ! j)))\<rparr>)"
    define h2 where "h2 = h1(fst (xs ! j) \<mapsto> the (h1 (fst (xs ! j)))
      \<lparr>d_offs := fst (snd (xs ! i)), d_type := fst (snd (snd (xs ! i)))\<rparr>)"
    have s1: "seg h1 0 xs1 0" "distinct (map fst xs1)"
      using seg_retag [OF s ij(1), of "snd (xs ! j)"] s(2) by (simp_all add: h1_def xs1_def)
    have "xs1 ! j = xs ! j" "length xs1 = length xs"
      using False ij by (simp_all add: xs1_def)
    then have s2: "seg h2 0 (exchanged i j xs) 0" "map fst (exchanged i j xs) = map fst xs"
      using seg_retag [OF s1, of j "snd (xs ! i)"] ij s(2)
      by (simp_all add: h2_def exchanged_def xs1_def [symmetric])
        (metis map_fst_retag xs1_def \<open>xs1 ! j = xs ! j\<close>)
    have frame: "\<And>b. b \<notin> fst ` set xs \<Longrightarrow> h2 b = dcells w b"
      using ij by (auto simp: h1_def h2_def)
    have adr: "fst ` set (exchanged i j xs) = fst ` set xs"
      by (metis list.set_map s2(2))
    have "Dchain_Exchange i j (w, c) = Some (True, w\<lparr>dcells := h2\<rparr>, c)"
      using loc ci cj ne False by (simp add: Dchain_Exchange_def node_at_def assign_def h1_def h2_def)
    moreover have "length (exchanged i j xs) = length xs" "first (exchanged i j xs) 0 = first xs 0"
      "final 0 (exchanged i j xs) = final 0 xs"
      using s2(2) by (auto simp: exchanged_def)
    ultimately show ?thesis
      using rep s2 False delta_same [OF frame adr]
      by (auto simp: step_ok_def chain_rep_def same_conf_def)
  qed
qed

lemma reverse_loop_ok:
  "seg h l xs 0 \<Longrightarrow> distinct (map fst xs) \<Longrightarrow>
   \<exists>h'. reverse_loop (first xs 0) h = Some h' \<and> seg h' 0 (rev xs) l \<and>
     (\<forall>b. b \<notin> fst ` set xs \<longrightarrow> h' b = h b)"
proof (induction xs arbitrary: l h)
  case Nil
  then show ?case by (subst reverse_loop.simps) simp
next
  case (Cons x xs)
  let ?h = "h(fst x \<mapsto> cell (first xs 0) (snd x) l)"
  have "seg ?h (fst x) xs 0" "distinct (map fst xs)"
    using Cons.prems by auto
  from Cons.IH [OF this] obtain h' where h': "reverse_loop (first xs 0) ?h = Some h'"
    "seg h' 0 (rev xs) (fst x)" "\<forall>b. b \<notin> fst ` set xs \<longrightarrow> h' b = ?h b"
    by blast
  have "final 0 (rev xs) = first xs 0"
    by (cases xs) auto
  then show ?case
    using h' Cons.prems by (subst reverse_loop.simps) (auto simp: node_at_def assign_def seg_append)
qed

lemma Reverse_ok:
  assumes rep: "chain_rep (w, c) xs"
  shows "\<exists>s'. Dchain_Reverse (w, c) = Some s' \<and> step_ok (w, c) xs s' (rev xs) []"
proof -
  obtain h' where "reverse_loop (first xs 0) (dcells w) = Some h'" "seg h' 0 (rev xs) 0"
    "\<forall>b. b \<notin> fst ` set xs \<longrightarrow> h' b = dcells w b"
    using reverse_loop_ok [of "dcells w" 0 xs] rep by (auto simp: chain_rep_def)
  moreover have "first (rev xs) 0 = final 0 xs" "final 0 (rev xs) = first xs 0"
    by (cases xs rule: rev_cases; simp) (cases xs; simp)
  ultimately show ?thesis
    using rep delta_same [of xs h' "dcells w" "rev xs"]
    by (auto simp: Dchain_Reverse_def step_ok_def chain_rep_def same_conf_def rev_map [symmetric])
qed

end
