(* ===== verification/DchainSpec.thy ===== *)
theory DchainSpec
  imports DchainCorrect
begin

text \<open>
  The contract of \<open>Dchain\<close> on lists of items: a call of the class and its effect on the list. Every
  sequence of calls inside the contract refines the sequence of its effects, from the constructor
  to the destructor; what happens outside the contract is stated at the end.
\<close>

section \<open>Reading a chain\<close>

lemma iterate_seg:
  "seg h l xs r \<Longrightarrow> iterate_datas h (first xs r) (length xs) = Some (map fst xs)"
  by (induction xs arbitrary: l) (auto simp: node_at_def)

lemma Iterate_ok:
  "chain_rep (w, c) xs \<Longrightarrow> Dchain_Iterate (dcells w) c = Some (map fst xs)"
  using iterate_seg [of "dcells w" 0 xs 0]
  by (simp add: Dchain_Iterate_def Dchain_Length_def chain_rep_def unat_of_nat take_bit_nat_eq_self)

lemma Length_ok: "chain_rep (w, c) xs \<Longrightarrow> unat (Dchain_Length c) = length xs"
  by (simp add: Dchain_Length_def chain_rep_def unat_of_nat take_bit_nat_eq_self)

lemma Locate_ok:
  assumes "chain_rep (w, c) xs" "xs \<noteq> []"
  shows "Dchain_Locate (dcells w) c i = Some (if i < length xs then fst (xs ! i) else 0)"
  using walk_first [of "dcells w" 0 xs i] assms by (simp add: Dchain_Locate_def chain_rep_def)

lemma locate_left_seg:
  "seg h l xs 0 \<Longrightarrow> locate_left h v (first xs 0) k =
    Some (if v \<in> set (contents xs)
          then k + of_nat (length (takeWhile (\<lambda>o1. o1 \<noteq> v) (contents xs))) else - 1)"
proof (induction xs arbitrary: l k)
  case Nil
  then show ?case by (subst locate_left.simps) simp
next
  case (Cons x xs)
  then show ?case
    using Cons.IH [of "fst x" "k + 1"]
    by (subst locate_left.simps) (cases "fst (snd x) = v"; simp add: node_at_def add.assoc)
qed

lemma locate_right_seg:
  "seg h 0 xs r \<Longrightarrow> locate_right h v (final 0 xs) k =
    Some (if v \<in> set (contents xs)
          then k - of_nat (length (takeWhile (\<lambda>o1. o1 \<noteq> v) (rev (contents xs)))) else - 1)"
proof (induction xs arbitrary: r k rule: rev_induct)
  case Nil
  then show ?case by (subst locate_right.simps) simp
next
  case (snoc x xs)
  then show ?case
    using snoc.IH [of "fst x" "k - 1"]
    by (subst locate_right.simps)
      (cases "fst (snd x) = v"; cases "xs = []"; simp add: node_at_def seg_append algebra_simps)
qed

text \<open>Where a content is first met, from the left and from the right.\<close>

definition index_of :: "nat list \<Rightarrow> nat \<Rightarrow> bool \<Rightarrow> stduint" where
  "index_of os v fromRight =
    (if v \<notin> set os then - 1
     else if fromRight then of_nat (length os - 1 - length (takeWhile (\<lambda>o1. o1 \<noteq> v) (rev os)))
     else of_nat (length (takeWhile (\<lambda>o1. o1 \<noteq> v) os)))"

lemma length_takeWhile_less: "\<exists>x \<in> set xs. \<not> P x \<Longrightarrow> length (takeWhile P xs) < length xs"
  by (induction xs) auto

lemma Locate_content_ok:
  assumes "chain_rep (w, c) xs"
  shows "Dchain_Locate_content (dcells w) c v fromRight = Some (index_of (contents xs) v fromRight)"
proof -
  have s: "seg (dcells w) 0 xs 0" "root_node c = first xs 0" "last_node c = final 0 xs"
    "node_count c = of_nat (length xs)"
    using assms by (auto simp: chain_rep_def)
  let ?t = "length (takeWhile (\<lambda>o1. o1 \<noteq> v) (rev (contents xs)))"
  have "of_nat (length xs) - 1 - of_nat ?t = (of_nat (length xs - 1 - ?t) :: stduint)"
    if "v \<in> set (contents xs)"
  proof -
    have "?t < length xs"
      using length_takeWhile_less [of "rev (contents xs)" "\<lambda>o1. o1 \<noteq> v"] that by simp
    then show ?thesis
      by (simp add: of_nat_diff)
  qed
  then show ?thesis
    using locate_left_seg [OF s(1), of v 0] locate_right_seg [OF s(1), of v "of_nat (length xs) - 1"] s
    by (simp add: Dchain_Locate_content_def index_of_def Dchain_Length_def)
qed

section \<open>Calls and what they promise\<close>

datatype chain_call =
    AppendEnd nat bool
  | AppendAt nat nat bool
  | InsertAt nat nat
  | RemoveAt nat nat
  | RemoveNode nat
  | RemoveContent nat
  | ExchangeAt nat nat
  | ReverseAll

text \<open>A call that takes a node is given the one \<open>Locate\<close> returns for an index.\<close>

fun run_call :: "zalc \<Rightarrow> chain_call \<Rightarrow> chain_state \<Rightarrow> chain_state option" where
  "run_call zalc (AppendEnd off onleft) s = map_option snd (Dchain_Append zalc off onleft 0 s)"
| "run_call zalc (AppendAt i off onleft) s =
    do {
      p \<leftarrow> Dchain_Locate (dcells (fst s)) (snd s) i;
      map_option snd (Dchain_Append zalc off onleft p s)
    }"
| "run_call zalc (InsertAt i off) s = map_option snd (Dchain_Insert zalc i off s)"
| "run_call zalc (RemoveAt i n) s = map_option snd (Dchain_Remove i n s)"
| "run_call zalc (RemoveNode i) s =
    do {
      p \<leftarrow> Dchain_Locate (dcells (fst s)) (snd s) i;
      map_option snd (Dchain_Remove_node p s)
    }"
| "run_call zalc (RemoveContent off) s = map_option snd (Dchain_Remove_content off s)"
| "run_call zalc (ExchangeAt i j) s = map_option snd (Dchain_Exchange i j s)"
| "run_call zalc ReverseAll s = Dchain_Reverse s"

fun run_calls :: "zalc \<Rightarrow> chain_call list \<Rightarrow> chain_state \<Rightarrow> chain_state option" where
  "run_calls zalc [] s = Some s"
| "run_calls zalc (k # ks) s = do { s \<leftarrow> run_call zalc k s; run_calls zalc ks s }"

text \<open>The same on the list of the items, with the contents that are released; \<open>None\<close> is a call
  outside the contract.\<close>

definition item_placed :: "(nat \<Rightarrow> nat \<Rightarrow> int) option \<Rightarrow> bool \<Rightarrow> item \<Rightarrow> item list \<Rightarrow> item list" where
  "item_placed cf onleft x xs =
    (case cf of
       None \<Rightarrow> if onleft then x # xs else xs @ [x]
     | Some cmp \<Rightarrow> takeWhile (\<lambda>y. cmp (fst x) (fst y) > 0) xs @ x #
         dropWhile (\<lambda>y. cmp (fst x) (fst y) > 0) xs)"

fun effect :: "(nat \<Rightarrow> nat \<Rightarrow> int) option \<Rightarrow> nat \<Rightarrow> chain_call \<Rightarrow> item list \<Rightarrow> (item list \<times> nat list) option" where
  "effect cf ext (AppendEnd off onleft) xs = Some (item_placed cf onleft (fresh_item off 0 ext) xs, [])"
| "effect cf ext (AppendAt i off onleft) xs =
    (if i < length xs
     then let k = if onleft then i else Suc i in Some (take k xs @ fresh_item off 0 ext # drop k xs, [])
     else None)"
| "effect cf ext (InsertAt i off) xs =
    (if i > length xs then Some (xs, [])
     else if xs = [] then None
     else Some (take i xs @ fresh_item off 0 ext # drop i xs, []))"
| "effect cf ext (RemoveAt i n) xs =
    (if n = 0 then Some (xs, [])
     else if i \<ge> length xs then (if xs = [] \<and> i \<noteq> 0 then None else Some (xs, []))
     else if i + n \<le> length xs then Some (take i xs @ drop (i + n) xs, map fst (take n (drop i xs)))
     else None)"
| "effect cf ext (RemoveNode i) xs =
    (if i < length xs then Some (take i xs @ drop (Suc i) xs, [fst (xs ! i)]) else None)"
| "effect cf ext (RemoveContent off) xs =
    Some (takeWhile (\<lambda>x. fst x \<noteq> off) xs @ tl (dropWhile (\<lambda>x. fst x \<noteq> off) xs),
      map fst (take 1 (dropWhile (\<lambda>x. fst x \<noteq> off) xs)))"
| "effect cf ext (ExchangeAt i j) xs =
    (if i < length xs \<and> j < length xs
     then Some (if i = j then xs else xs[i := retag (xs ! j) (xs ! i), j := retag (xs ! i) (xs ! j)], [])
     else None)"
| "effect cf ext ReverseAll xs = Some (rev xs, [])"

fun effects :: "(nat \<Rightarrow> nat \<Rightarrow> int) option \<Rightarrow> nat \<Rightarrow> chain_call list \<Rightarrow> item list \<Rightarrow> (item list \<times> nat list) option" where
  "effects cf ext [] xs = Some (xs, [])"
| "effects cf ext (k # ks) xs =
    do {
      (ys, rel) \<leftarrow> effect cf ext k xs;
      (zs, rel') \<leftarrow> effects cf ext ks ys;
      Some (zs, rel @ rel')
    }"

text \<open>An allocator of \<open>N\<close> cells answers with a free one as long as there is one.\<close>

definition room :: "zalc \<Rightarrow> nat \<Rightarrow> bool" where
  "room zalc N \<longleftrightarrow>
    (\<forall>h. finite (dom h) \<and> card (dom h) < N \<longrightarrow> zalc h \<noteq> 0 \<and> h (zalc h) = None)"

lemma delta_dom:
  assumes "delta h xs h' ys" "seg h l xs r" "seg h' l' ys r'" "finite (dom h)"
    and "distinct (map fst xs)" "distinct (map fst ys)"
  shows "finite (dom h')" "card (dom h') + length xs = card (dom h) + length ys"
proof -
  let ?X = "fst ` set xs" and ?Y = "fst ` set ys"
  have X: "?X \<subseteq> dom h" and Y: "?Y \<subseteq> dom h'"
    using seg_in_dom [OF assms(2)] seg_in_dom [OF assms(3)] by blast+
  have D: "dom h' = (dom h - ?X) \<union> ?Y"
  proof (intro set_eqI)
    fix b show "b \<in> dom h' \<longleftrightarrow> b \<in> (dom h - ?X) \<union> ?Y"
      using assms(1) X Y unfolding delta_def by (cases "b \<in> ?X"; cases "b \<in> ?Y") (auto simp: dom_def)
  qed
  have dis: "(dom h - ?X) \<inter> ?Y = {}"
    using assms(1) unfolding delta_def by (auto simp: dom_def)
  show fin: "finite (dom h')"
    using D assms(4) by simp
  have "card ?X = length xs" "card ?Y = length ys"
    using assms(5,6) by (metis distinct_card length_map list.set_map)+
  moreover have "card (dom h') = card (dom h - ?X) + card ?Y"
    using D dis assms(4) by (simp add: card_Un_disjoint)
  moreover have "card (dom h - ?X) + card ?X = card (dom h)"
    using X assms(4) by (simp add: card_Diff_subset card_mono finite_subset)
  ultimately show "card (dom h') + length xs = card (dom h) + length ys"
    by simp
qed

lemma length_take_dropWhile: "length (takeWhile P xs) + length (dropWhile P xs) = length xs"
  by (simp flip: length_append)

lemma map_snd_put_node: "map snd (put_node cf l x xs) = item_placed cf l (snd x) (map snd xs)"
  by (auto simp: put_node_def item_placed_def takeWhile_map dropWhile_map comp_def split: option.split)

lemma map_snd_exchanged:
  "i < length xs \<Longrightarrow> j < length xs \<Longrightarrow> map snd (exchanged i j xs) =
   (map snd xs)[i := retag (map snd xs ! j) (map snd xs ! i), j := retag (map snd xs ! i) (map snd xs ! j)]"
  by (simp add: exchanged_def map_update)

lemma snd_new_node [simp]: "snd (new_node a off c) = fresh_item off 0 (extn_field c)"
  by (simp add: new_node_def)

lemma nth_address:
  "distinct (map fst xs) \<Longrightarrow> i < length xs \<Longrightarrow>
   takeWhile (\<lambda>y. fst y \<noteq> fst (xs ! i)) xs = take i xs \<and>
   dropWhile (\<lambda>y. fst y \<noteq> fst (xs ! i)) xs = drop i xs"
proof (induction xs arbitrary: i)
  case (Cons x xs)
  then show ?case by (cases i) auto
qed simp

text \<open>A call of the contract does to the chain what it does to the list of the items.\<close>

definition call_ok :: "zalc \<Rightarrow> chain_call \<Rightarrow> chain_state \<Rightarrow> nodes \<Rightarrow> item list \<Rightarrow> nat list \<Rightarrow> bool" where
  "call_ok zalc k s xs ys rel \<longleftrightarrow>
    (\<exists>s' zs. run_call zalc k s = Some s' \<and>
      step_ok s xs s' zs (if func_free (snd s) then rel else []) \<and> map snd zs = ys \<and>
      length zs \<le> Suc (length xs))"

lemma call_okI:
  "\<exists>s'. run_call zalc k s = Some s' \<and> step_ok s xs s' zs (if func_free (snd s) then rel else []) \<Longrightarrow>
   map snd zs = ys \<Longrightarrow> length zs \<le> Suc (length xs) \<Longrightarrow> call_ok zalc k s xs ys rel"
  unfolding call_ok_def by blast

lemma call_ok_AppendEnd:
  assumes rep: "chain_rep (w, c) xs" and fresh: "fresh_cell zalc (dcells w) a"
    and len: "Suc (length xs) < 2 ^ 64" and sorted: "been_sorted c"
    and eff: "effect (Compare_f c) (extn_field c) (AppendEnd off l) (map snd xs) = Some (ys, rel)"
  shows "call_ok zalc (AppendEnd off l) (w, c) xs ys rel"
proof (rule call_okI)
  let ?zs = "put_node (Compare_f c) l (new_node a off c) xs"
  have rel: "rel = []" and ys: "ys = item_placed (Compare_f c) l (fresh_item off 0 (extn_field c)) (map snd xs)"
    using eff by auto
  show "\<exists>s'. run_call zalc (AppendEnd off l) (w, c) = Some s' \<and>
      step_ok (w, c) xs s' ?zs (if func_free (snd (w, c)) then rel else [])"
    using Append_ok [OF rep fresh len sorted, of off l] rel by auto
  show zs: "map snd ?zs = ys"
    by (simp add: map_snd_put_node ys)
  show "length ?zs \<le> Suc (length xs)"
    by (simp add: put_node_def length_take_dropWhile split: option.split)
qed

lemma call_ok_AppendAt:
  assumes rep: "chain_rep (w, c) xs" and fresh: "fresh_cell zalc (dcells w) a"
    and len: "Suc (length xs) < 2 ^ 64"
    and eff: "effect cf (extn_field c) (AppendAt i off l) (map snd xs) = Some (ys, rel)"
  shows "call_ok zalc (AppendAt i off l) (w, c) xs ys rel"
proof -
  have i: "i < length xs" and rel: "rel = []"
    and ys: "ys = (let k = if l then i else Suc i in
      take k (map snd xs) @ fresh_item off 0 (extn_field c) # drop k (map snd xs))"
    using eff by (auto split: if_splits)
  have xs: "xs = take i xs @ xs ! i # drop (Suc i) xs"
    using i by (rule id_take_nth_drop)
  have "Dchain_Locate (dcells w) c i = Some (fst (xs ! i))" "fst (xs ! i) \<noteq> 0"
    using Locate_ok [OF rep, of i] chain_rep_nonzero [OF rep] i by fastforce+
  moreover obtain s' where "append_at zalc off l (fst (xs ! i)) (w, c) = Some (a, s')"
    "step_ok (w, c) xs s' (if l then take i xs @ new_node a off c # xs ! i # drop (Suc i) xs
      else take i xs @ xs ! i # new_node a off c # drop (Suc i) xs) []"
    using append_at_ok [of w c "take i xs" "xs ! i" "drop (Suc i) xs" zalc a off l]
      rep fresh len unfolding xs [symmetric] by blast
  ultimately show ?thesis
    using i by (intro call_okI [of _ _ _ _ "if l then take i xs @ new_node a off c # xs ! i # drop (Suc i) xs
      else take i xs @ xs ! i # new_node a off c # drop (Suc i) xs"])
      (auto simp: ys rel Dchain_Append_def take_map drop_map Cons_nth_drop_Suc
        take_Suc_conv_app_nth Let_def)
qed

lemma call_ok_InsertAt:
  assumes rep: "chain_rep (w, c) xs" and fresh: "fresh_cell zalc (dcells w) a"
    and len: "Suc (length xs) < 2 ^ 64"
    and eff: "effect cf (extn_field c) (InsertAt i off) (map snd xs) = Some (ys, rel)"
  shows "call_ok zalc (InsertAt i off) (w, c) xs ys rel"
proof (cases "i > length xs")
  case True
  then show ?thesis
    using eff Length_ok [OF rep] step_ok_refl [OF rep]
    by (intro call_okI [of _ _ _ _ xs]) (auto simp: Dchain_Insert_def Let_def)
next
  case False
  then have "xs \<noteq> []" "rel = []"
    "ys = take i (map snd xs) @ fresh_item off 0 (extn_field c) # drop i (map snd xs)"
    using eff by (auto split: if_splits)
  then show ?thesis
    using Insert_ok [OF rep fresh len, of i off] False
    by (intro call_okI [of _ _ _ _ "take i xs @ new_node a off c # drop i xs"])
      (auto simp: take_map drop_map)
qed

lemma call_ok_RemoveAt:
  assumes rep: "chain_rep (w, c) xs"
    and eff: "effect cf (extn_field c) (RemoveAt i n) (map snd xs) = Some (ys, rel)"
  shows "call_ok zalc (RemoveAt i n) (w, c) xs ys rel"
proof (cases "n = 0 \<or> length xs \<le> i")
  case True
  have "Dchain_Locate (dcells w) c i = Some 0" if "n \<noteq> 0"
    using Locate_ok [OF rep, of i] True that eff rep
    by (cases "xs = []") (auto simp: Dchain_Locate_def chain_rep_def split: if_splits)
  then show ?thesis
    using eff True step_ok_refl [OF rep]
    by (intro call_okI [of _ _ _ _ xs]) (auto simp: Dchain_Remove_def split: if_splits)
next
  case False
  define mid where "mid = take n (drop i xs)"
  have n: "i + n \<le> length xs" "rel = contents mid" "ys = map snd (take i xs @ drop (i + n) xs)"
    using eff False by (auto simp: mid_def take_map drop_map split: if_splits)
  have xs: "xs = take i xs @ mid @ drop (i + n) xs"
  proof -
    have "take n (drop i xs) @ drop (i + n) xs = drop i xs"
      using append_take_drop_id [of n "drop i xs"] by (simp add: add.commute)
    then show ?thesis
      by (simp add: mid_def)
  qed
  have mid: "mid \<noteq> []" "length mid = n" "length (take i xs) = i"
    using False n by (auto simp: mid_def)
  obtain s' where "Dchain_Remove i n (w, c) = Some (True, s')"
    "step_ok (w, c) xs s' (take i xs @ drop (i + n) xs) (dropped c mid)"
    using Remove_ok [of w c "take i xs" mid "drop (i + n) xs"] rep mid unfolding xs [symmetric] by auto
  then show ?thesis
    using n by (intro call_okI [of _ _ _ _ "take i xs @ drop (i + n) xs"]) (auto simp: dropped_def)
qed

lemma call_ok_RemoveNode:
  assumes rep: "chain_rep (w, c) xs"
    and eff: "effect cf (extn_field c) (RemoveNode i) (map snd xs) = Some (ys, rel)"
  shows "call_ok zalc (RemoveNode i) (w, c) xs ys rel"
proof -
  have i: "i < length xs" and ys: "ys = map snd (take i xs @ drop (Suc i) xs)"
    and rel: "rel = [fst (snd (xs ! i))]"
    using eff by (auto simp: take_map drop_map split: if_splits)
  have d: "distinct (map fst xs)"
    using rep by (simp add: chain_rep_def)
  have "Dchain_Locate (dcells w) c i = Some (fst (xs ! i))"
    using Locate_ok [OF rep, of i] i by fastforce
  moreover have "without (\<lambda>y. fst y = fst (xs ! i)) xs = take i xs @ drop (Suc i) xs"
    using nth_address [OF d i] by (simp add: without_def drop_Suc tl_drop)
  moreover have "dropped c (take 1 (dropWhile (\<lambda>y. fst y \<noteq> fst (xs ! i)) xs)) =
      (if func_free c then rel else [])"
    using nth_address [OF d i] i by (simp add: dropped_def rel take_Suc hd_drop_conv_nth)
  ultimately show ?thesis
    using Remove_node_ok [OF rep, of "fst (xs ! i)"] ys i
    by (intro call_okI [of _ _ _ _ "take i xs @ drop (Suc i) xs"]) auto
qed

lemma call_ok_RemoveContent:
  assumes rep: "chain_rep (w, c) xs"
    and eff: "effect cf (extn_field c) (RemoveContent off) (map snd xs) = Some (ys, rel)"
  shows "call_ok zalc (RemoveContent off) (w, c) xs ys rel"
proof -
  have "ys = map snd (without (\<lambda>y. fst (snd y) = off) xs)"
    "rel = contents (take 1 (dropWhile (\<lambda>y. fst (snd y) \<noteq> off) xs))"
    using eff by (auto simp: without_def takeWhile_map dropWhile_map comp_def map_tl take_map)
  moreover have "length (without Q xs) \<le> length xs" for Q
    using length_take_dropWhile [of "\<lambda>y. \<not> Q y" xs] by (simp add: without_def)
  ultimately show ?thesis
    using Remove_content_ok [OF rep, of off]
    by (intro call_okI [of _ _ _ _ "without (\<lambda>y. fst (snd y) = off) xs"]) (auto simp: dropped_def le_SucI)
qed

lemma call_ok_any:
  assumes rep: "chain_rep (w, c) xs" and fresh: "fresh_cell zalc (dcells w) a"
    and len: "Suc (length xs) < 2 ^ 64" and sorted: "been_sorted c"
    and eff: "effect (Compare_f c) (extn_field c) k (map snd xs) = Some (ys, rel)"
  shows "call_ok zalc k (w, c) xs ys rel"
proof (cases k)
  case (ExchangeAt i j)
  then have "i < length xs" "j < length xs"
    using eff by (auto split: if_splits)
  then show ?thesis
    using Exchange_ok [OF rep, of i j] eff ExchangeAt map_snd_exchanged [of i xs j]
    by (intro call_okI [of _ _ _ _ "if i = j then xs else exchanged i j xs"])
      (auto simp: exchanged_def)
next
  case ReverseAll
  then show ?thesis
    using Reverse_ok [OF rep] eff by (intro call_okI [of _ _ _ _ "rev xs"]) (auto simp: rev_map)
next
  case (AppendEnd off l)
  then show ?thesis using call_ok_AppendEnd [OF rep fresh len sorted, of off l] eff by auto
next
  case (AppendAt i off l)
  then show ?thesis using call_ok_AppendAt [OF rep fresh len] eff by blast
next
  case (InsertAt i off)
  then show ?thesis using call_ok_InsertAt [OF rep fresh len] eff by blast
next
  case (RemoveAt i n)
  then show ?thesis using call_ok_RemoveAt [OF rep] eff by blast
next
  case (RemoveNode i)
  then show ?thesis using call_ok_RemoveNode [OF rep] eff by blast
next
  case (RemoveContent off)
  then show ?thesis using call_ok_RemoveContent [OF rep] eff by blast
qed

lemma calls_ok:
  assumes "chain_rep s xs" "been_sorted (snd s)" "room zalc N"
    and "finite (dom (dcells (fst s)))" "card (dom (dcells (fst s))) + length ks \<le> N"
    and "length xs + length ks < 2 ^ 64"
    and "effects (Compare_f (snd s)) (extn_field (snd s)) ks (map snd xs) = Some (ys, rel)"
  shows "\<exists>s' zs. run_calls zalc ks s = Some s' \<and>
    step_ok s xs s' zs (if func_free (snd s) then rel else []) \<and> map snd zs = ys"
  using assms
proof (induction ks arbitrary: s xs rel)
  case Nil
  then show ?case using step_ok_refl [OF Nil(1)] by auto
next
  case (Cons k ks)
  obtain ms rel1 rel2 where e: "effect (Compare_f (snd s)) (extn_field (snd s)) k (map snd xs) = Some (ms, rel1)"
    "effects (Compare_f (snd s)) (extn_field (snd s)) ks ms = Some (ys, rel2)" "rel = rel1 @ rel2"
    using Cons.prems(7) by (auto split: Option.bind_splits)
  obtain w c where s: "s = (w, c)"
    by (cases s)
  have "fresh_cell zalc (dcells w) (zalc (dcells w))"
    using Cons.prems(3,4,5) by (auto simp: room_def fresh_cell_def s)
  with Cons.prems e(1) have "call_ok zalc k (w, c) xs ms rel1"
    by (intro call_ok_any) (auto simp: s)
  then obtain s1 zs where s1: "run_call zalc k s = Some s1"
    "step_ok s xs s1 zs (if func_free (snd s) then rel1 else [])" "map snd zs = ms"
    "length zs \<le> Suc (length xs)"
    by (auto simp: call_ok_def s)
  have reps: "chain_rep s1 zs" "same_conf (snd s) (snd s1)"
    and d: "delta (dcells (fst s)) xs (dcells (fst s1)) zs"
    using s1(2) by (auto simp: step_ok_def)
  have "finite (dom (dcells (fst s1)))" "card (dom (dcells (fst s1))) + length xs = card (dom (dcells (fst s))) + length zs"
    using delta_dom [OF d] Cons.prems(1,4) reps(1) by (auto simp: chain_rep_def)
  then obtain s2 us where "run_calls zalc ks s1 = Some s2"
    "step_ok s1 zs s2 us (if func_free (snd s1) then rel2 else [])" "map snd us = ys"
    using Cons.IH [OF reps(1), of rel2] Cons.prems reps(2) s1(3,4) e(2) by (auto simp: same_conf_def)
  moreover from this have "step_ok s xs s2 us (if func_free (snd s) then rel else [])"
    using step_ok_trans [OF s1(2), of s2 us] reps(2) e(3) by (auto simp: same_conf_def)
  ultimately show ?case
    using s1(1) by auto
qed

section \<open>The life of a chain\<close>

lemma new_Dchain_rep:
  "chain_rep (w, new_Dchain fr\<lparr>extn_field := ext, Compare_f := cf\<rparr>) []"
  by (simp add: chain_rep_def new_Dchain_def)

lemma delete_ok:
  assumes rep: "chain_rep (w, c) xs"
  shows "\<exists>w'. delete_Dchain (w, c) = Some w' \<and> delta (dcells w) xs (dcells w') [] \<and>
    released w' = released w @ dropped c xs"
proof (cases "xs = []")
  case True
  then show ?thesis
    using Length_ok [OF rep] by (auto simp: delete_Dchain_def Dchain_Remove_def dropped_def)
next
  case False
  then show ?thesis
    using Remove_ok [of w c "[]" xs "[]"] Length_ok [OF rep] rep
    by (auto simp: delete_Dchain_def step_ok_def)
qed

lemma delta_empty: "delta h [] h' [] \<Longrightarrow> h' = h"
  by (auto simp: delta_def)

lemma rep_item:
  assumes rep: "chain_rep (w, c) xs" and i: "i < length xs"
  shows "\<exists>p n. Dchain_Locate (dcells w) c i = Some p \<and> dcells w p = Some n \<and>
    (d_offs n, d_type n, d_extn n) = map snd xs ! i"
proof -
  have "seg (dcells w) 0 xs 0"
    using rep by (simp add: chain_rep_def)
  from seg_nth [OF this i] show ?thesis
    using Locate_ok [OF rep, of i] i by (cases "xs = []") auto
qed

text \<open>
  C33. Life of a doubly linked chain. From a new chain, any sequence of appends, insertions,
  removals, exchanges and reversals inside the contract goes through without touching a null
  pointer or freed memory and leaves the list these calls leave as operations on lists; the
  items are found by index, and contents from both ends; each removed content is released
  once, and after the destructor the memory is exactly what it was before.
\<close>
theorem dchain_life:
  assumes "room zalc N" "finite (dom h)" "card (dom h) + length ks \<le> N" "length ks < 2 ^ 64"
    and "effects cf ext ks [] = Some (ys, rel)"
  shows "\<exists>w c. run_calls zalc ks (\<lparr>dcells = h, released = []\<rparr>,
      new_Dchain fr\<lparr>extn_field := ext, Compare_f := cf\<rparr>) = Some (w, c) \<and>
    unat (Dchain_Length c) = length ys \<and>
    (\<forall>i < length ys. \<exists>p n. Dchain_Locate (dcells w) c i = Some p \<and> dcells w p = Some n \<and>
      (d_offs n, d_type n, d_extn n) = ys ! i) \<and>
    (\<forall>v fromRight. Dchain_Locate_content (dcells w) c v fromRight =
      Some (index_of (map fst ys) v fromRight)) \<and>
    released w = (if fr then rel else []) \<and>
    delete_Dchain (w, c) = Some \<lparr>dcells = h, released = if fr then rel @ map fst ys else []\<rparr>"
proof -
  let ?c = "new_Dchain fr\<lparr>extn_field := ext, Compare_f := cf\<rparr>" and ?w = "\<lparr>dcells = h, released = []\<rparr>"
  obtain w c zs where run: "run_calls zalc ks (?w, ?c) = Some (w, c)" and ys: "map snd zs = ys"
    and step: "step_ok (?w, ?c) [] (w, c) zs (if fr then rel else [])"
    using calls_ok [OF new_Dchain_rep [where w = ?w and fr = fr and ext = ext and cf = cf], of zalc N ks ys rel] assms
    by (auto simp: new_Dchain_def)
  have rep: "chain_rep (w, c) zs" and d: "delta h [] (dcells w) zs"
    and rel: "released w = (if fr then rel else [])" and fr: "func_free c = fr"
    using step by (auto simp: step_ok_def same_conf_def new_Dchain_def)
  obtain w' where "delete_Dchain (w, c) = Some w'" "delta (dcells w) zs (dcells w') []"
    "released w' = released w @ dropped c zs"
    using delete_ok [OF rep] by blast
  moreover from this have "dcells w' = h"
    using delta_trans [OF d] delta_empty by blast
  ultimately have "delete_Dchain (w, c) = Some \<lparr>dcells = h, released = if fr then rel @ map fst ys else []\<rparr>"
    using rel fr ys by (auto simp: dropped_def comp_def)
  then show ?thesis
    using run rel ys rep_item [OF rep] Locate_content_ok [OF rep] Length_ok [OF rep]
    by (auto simp: comp_def)
qed

definition slot_alloc :: "nat \<Rightarrow> zalc" where
  "slot_alloc N h = (case filter (\<lambda>a. h a = None) [1..<Suc N] of [] \<Rightarrow> 0 | a # _ \<Rightarrow> a)"

lemma slot_alloc_room: "room (slot_alloc N) N"
  unfolding room_def
proof (intro allI impI)
  fix h :: heap assume h: "finite (dom h) \<and> card (dom h) < N"
  have "filter (\<lambda>a. h a = None) [1..<Suc N] \<noteq> []"
  proof
    assume "filter (\<lambda>a. h a = None) [1..<Suc N] = []"
    then have "{1..<Suc N} \<subseteq> dom h"
      by (auto simp: filter_empty_conv)
    then show False
      using h card_mono [of "dom h" "{1..<Suc N}"] by simp
  qed
  then obtain a as where as: "filter (\<lambda>a. h a = None) [1..<Suc N] = a # as"
    by (cases "filter (\<lambda>a. h a = None) [1..<Suc N]") auto
  then have "a \<in> set (filter (\<lambda>a. h a = None) [1..<Suc N])"
    by simp
  then show "slot_alloc N h \<noteq> 0 \<and> h (slot_alloc N h) = None"
    using as by (auto simp: slot_alloc_def simp del: upt_Suc)
qed

definition sample_calls :: "chain_call list" where
  "sample_calls = [AppendEnd 10 False, AppendEnd 20 True, AppendAt 1 30 True, InsertAt 2 40, ReverseAll,
     ExchangeAt 0 3, RemoveAt 1 1, RemoveContent 10, AppendEnd 50 False, RemoveNode 0]"

lemma sample_effects:
  "effects None 0 sample_calls [] = Some ([(30, 0, []), (50, 0, [])], [40, 10, 20])"
  by (simp add: sample_calls_def item_placed_def fresh_item_def retag_def Let_def)

theorem dchain_life_witness:
  "\<exists>w c. run_calls (slot_alloc 10) sample_calls (\<lparr>dcells = Map.empty, released = []\<rparr>,
      new_Dchain True\<lparr>extn_field := 0, Compare_f := None\<rparr>) = Some (w, c) \<and>
    delete_Dchain (w, c) = Some \<lparr>dcells = Map.empty, released = [40, 10, 20, 30, 50]\<rparr>"
  using dchain_life [OF slot_alloc_room, of Map.empty sample_calls 10 None 0 _ _ True] sample_effects
  by (auto simp: sample_calls_def)

section \<open>Outside the contract\<close>

lemma insert_into_empty:
  fixes w :: world
  assumes "fresh_cell zalc (dcells w) a"
  shows "Dchain_Insert zalc 0 off (w, new_Dchain fr) =
    Some (True, w\<lparr>dcells := (dcells w)(a \<mapsto> cell 0 (fresh_item off 0 0) 0)\<rparr>,
      new_Dchain fr\<lparr>root_node := a, node_count := 1\<rparr>)"
  using insert_node_null [OF assms, of off 0 False "new_Dchain fr"]
  by (simp add: Dchain_Insert_def Let_def new_Dchain_def)

lemma append_after_insert:
  fixes fr :: bool and w :: world
  assumes "fresh_cell zalc (dcells w) b" "a \<noteq> 0" "dcells w a = Some (cell 0 x 0)"
  defines "c \<equiv> new_Dchain fr\<lparr>root_node := a, node_count := 1\<rparr>"
  shows "\<exists>w' c'. Dchain_Append zalc off False 0 (w, c) = Some (b, w', c') \<and>
    Dchain_Length c' = 2 \<and> last_node c' = b \<and> Dchain_Locate (dcells w') c' 1 = Some 0"
proof -
  have "a \<noteq> b"
    using assms(1,3) by (auto simp: fresh_cell_def)
  then show ?thesis
    using insert_node_null [OF assms(1), of off 0 True c] assms(2,3)
    by (simp add: Dchain_Append_def Dchain_Push_def c_def new_Dchain_def adapt_def DnodeChainAdapt_def
        Let_def Dchain_Length_def Dchain_Locate_def node_at_def)
qed

lemma push_without_memory:
  assumes rep: "chain_rep (w, c) xs" and "xs \<noteq> []" and full: "zalc (dcells w) = 0"
  shows "\<exists>c'. Dchain_Push zalc off True (w, c) = Some (0, w, c') \<and> root_node c' = 0 \<and>
    node_count c' = node_count c + 1"
proof -
  have "insert_node zalc p off ty right (w, c) = Some (0, w, c)" for p ty right
    using full by (simp add: insert_node_def DnodeInsert_def Let_def)
  then show ?thesis
    using chain_rep_empty [OF rep] assms(2)
    by (simp add: Dchain_Push_def Let_def adapt_def DnodeChainAdapt_def Dchain_LocateNode_def)
qed

lemma append0_forgets_type:
  fixes w :: world
  assumes "fresh_cell zalc (dcells w) a" "ty \<noteq> 0"
  shows "\<exists>w' c'. Dchain_Append0Match zalc addr ty (w, new_Dchain fr) = Some (w', c') \<and>
    Dchain_Length c' = 1 \<and> Dchain_Match (dcells w') c' addr ty = Some False"
  using insert_node_null [OF assms(1), of addr 0 True "new_Dchain fr"] assms
  by (simp add: Dchain_Append0Match_def Dchain_Match_def Dchain_Append_def new_Dchain_def adapt_def
      DnodeChainAdapt_def Let_def Dchain_Length_def fresh_cell_def node_at_def fresh_item_def
      locate_node.simps [of _ _ 0] locate_node.simps [of _ _ a])

text \<open>
  C35. What the chain does outside its contract. \<open>Insert\<close> at 0 into an empty chain does not set
  the last node, so that the next node appended is counted but not linked; when memory runs out,
  \<open>Push\<close> on the left forgets the whole chain and counts one node more; \<open>Append0Match\<close> does not
  store the type, so that the pair it appended does not match afterwards.
\<close>
theorem dchain_defects:
  fixes w :: world
  assumes fresh: "fresh_cell zalc (dcells w) a"
  shows "(\<exists>w1 c1. Dchain_Insert zalc 0 off (w, new_Dchain fr) = Some (True, w1, c1) \<and>
      Dchain_Length c1 = 1 \<and> last_node c1 = 0 \<and>
      (\<forall>b off'. fresh_cell zalc (dcells w1) b \<longrightarrow>
        (\<exists>w2 c2. Dchain_Append zalc off' False 0 (w1, c1) = Some (b, w2, c2) \<and>
          Dchain_Length c2 = 2 \<and> last_node c2 = b \<and> Dchain_Locate (dcells w2) c2 1 = Some 0))) \<and>
    (\<forall>w' c xs. chain_rep (w', c) xs \<and> xs \<noteq> [] \<and> zalc (dcells w') = 0 \<longrightarrow>
      (\<exists>c'. Dchain_Push zalc off True (w', c) = Some (0, w', c') \<and> root_node c' = 0 \<and>
        node_count c' = node_count c + 1)) \<and>
    (\<forall>addr ty. ty \<noteq> 0 \<longrightarrow> (\<exists>w2 c2. Dchain_Append0Match zalc addr ty (w, new_Dchain fr) = Some (w2, c2) \<and>
      Dchain_Length c2 = 1 \<and> Dchain_Match (dcells w2) c2 addr ty = Some False))"
proof (intro conjI)
  let ?w1 = "w\<lparr>dcells := (dcells w)(a \<mapsto> cell 0 (fresh_item off 0 0) 0)\<rparr>"
  let ?c1 = "new_Dchain fr\<lparr>root_node := a, node_count := 1\<rparr>"
  have "a \<noteq> 0"
    using fresh by (simp add: fresh_cell_def)
  then have "\<exists>w2 c2. Dchain_Append zalc off' False 0 (?w1, ?c1) = Some (b, w2, c2) \<and>
      Dchain_Length c2 = 2 \<and> last_node c2 = b \<and> Dchain_Locate (dcells w2) c2 1 = Some 0"
    if "fresh_cell zalc (dcells ?w1) b" for b off'
    using append_after_insert [of zalc ?w1 b a "fresh_item off 0 0" off' fr] that by simp
  then show "\<exists>w1 c1. Dchain_Insert zalc 0 off (w, new_Dchain fr) = Some (True, w1, c1) \<and>
      Dchain_Length c1 = 1 \<and> last_node c1 = 0 \<and>
      (\<forall>b off'. fresh_cell zalc (dcells w1) b \<longrightarrow>
        (\<exists>w2 c2. Dchain_Append zalc off' False 0 (w1, c1) = Some (b, w2, c2) \<and>
          Dchain_Length c2 = 2 \<and> last_node c2 = b \<and> Dchain_Locate (dcells w2) c2 1 = Some 0))"
    unfolding insert_into_empty [OF fresh] by (auto simp: Dchain_Length_def new_Dchain_def)
qed (use push_without_memory append0_forgets_type [OF fresh] in blast)+

theorem dchain_defects_witness:
  "\<exists>w1 c1 w2 c2. Dchain_Insert (slot_alloc 2) 0 10 (\<lparr>dcells = Map.empty, released = []\<rparr>, new_Dchain True) =
      Some (True, w1, c1) \<and>
    Dchain_Append0Match (slot_alloc 2) 10 7 (\<lparr>dcells = Map.empty, released = []\<rparr>, new_Dchain True) = Some (w2, c2) \<and>
    Dchain_Match (dcells w2) c2 10 7 = Some False"
proof -
  have f: "fresh_cell (slot_alloc 2) (dcells \<lparr>dcells = Map.empty, released = []\<rparr>) 1"
    by (simp add: fresh_cell_def slot_alloc_def upt_conv_Cons)
  have "(7 :: stduint) \<noteq> 0"
    by simp
  then show ?thesis
    using dchain_defects [OF f, of 10 True] by blast
qed

end
