(* ===== verification/DchainSort.thy ===== *)
theory DchainSort
  imports DchainSpec SortCorrect
begin

text \<open>
  \<open>Dchain::SortByInsertion\<close>: the items are sorted stably by moving each node that is out of place, as
  a new node, in front of the nodes behind it.
\<close>

section \<open>Insertion on items\<close>

definition relocated :: "nat \<Rightarrow> item \<Rightarrow> item" where
  "relocated ext x = fresh_item (fst x) (fst (snd x)) ext"

lemma fst_relocated [simp]: "fst (relocated ext x) = fst x"
  by (simp add: relocated_def fresh_item_def)

text \<open>The items not behind \<open>x\<close>, and those behind it, of a sorted prefix.\<close>

abbreviation behind :: "nat comparison \<Rightarrow> item \<Rightarrow> item \<Rightarrow> bool" where
  "behind cmp x y \<equiv> cmp (fst y) (fst x) > 0"

definition out_of_place :: "nat comparison \<Rightarrow> item list \<Rightarrow> item \<Rightarrow> bool" where
  "out_of_place cmp ps x \<longleftrightarrow> (\<exists>y \<in> set ps. behind cmp x y)"

definition insert_item :: "nat comparison \<Rightarrow> nat \<Rightarrow> item list \<Rightarrow> item \<Rightarrow> item list" where
  "insert_item cmp ext ps x =
    (if out_of_place cmp ps x
     then takeWhile (\<lambda>y. \<not> behind cmp x y) ps @ relocated ext x # dropWhile (\<lambda>y. \<not> behind cmp x y) ps
     else ps @ [x])"

definition sort_items :: "nat comparison \<Rightarrow> nat \<Rightarrow> item list \<Rightarrow> item list \<Rightarrow> item list" where
  "sort_items cmp ext ps xs = foldl (insert_item cmp ext) ps xs"

definition items_sorted :: "nat comparison \<Rightarrow> item list \<Rightarrow> bool" where
  "items_sorted cmp ps \<longleftrightarrow> cmp_sorted cmp (map fst ps)"

text \<open>Content and type, which a move keeps.\<close>

definition tagged :: "item \<Rightarrow> nat \<times> stduint" where
  "tagged x = (fst x, fst (snd x))"

lemma tagged_relocated [simp]: "tagged (relocated ext x) = tagged x"
  by (simp add: tagged_def relocated_def fresh_item_def)

definition same_key :: "nat comparison \<Rightarrow> nat \<Rightarrow> item \<Rightarrow> bool" where
  "same_key cmp k y \<longleftrightarrow> cmp k (fst y) \<le> 0 \<and> cmp (fst y) k \<le> 0"

lemma sorted_behind:
  assumes "comparator cmp" "items_sorted cmp (p # ps)" "behind cmp x p" "y \<in> set (p # ps)"
  shows "behind cmp x y"
proof (cases "y = p")
  case False
  then have "cmp (fst p) (fst y) \<le> 0"
    using assms(2,4) by (auto simp: items_sorted_def cmp_sorted_def)
  then show ?thesis
    using assms(3) comparator_trans [OF assms(1), of "fst p" "fst y" "fst x"] by linarith
qed (use assms in simp)

lemma sorted_split:
  "comparator cmp \<Longrightarrow> items_sorted cmp ps \<Longrightarrow>
   y \<in> set (dropWhile (\<lambda>y. \<not> behind cmp x y) ps) \<Longrightarrow> behind cmp x y"
proof (induction ps)
  case (Cons p ps)
  show ?case
  proof (cases "behind cmp x p")
    case True
    then have "y \<in> set (p # ps)"
      using Cons.prems(3) by (simp only: dropWhile.simps not_not if_True if_False simp_thms)
    then show ?thesis using sorted_behind [OF Cons.prems(1,2) True] by blast
  next
    case False
    then have "y \<in> set (dropWhile (\<lambda>y. \<not> behind cmp x y) ps)" "items_sorted cmp ps"
      using Cons.prems(2,3) by (simp_all add: items_sorted_def cmp_sorted_def)
    then show ?thesis using Cons.IH Cons.prems(1) by blast
  qed
qed simp

lemma out_of_place_last:
  assumes "comparator cmp" "items_sorted cmp ps" "ps \<noteq> []"
  shows "out_of_place cmp ps x \<longleftrightarrow> behind cmp x (last ps)"
proof
  assume "out_of_place cmp ps x"
  then have "dropWhile (\<lambda>y. \<not> behind cmp x y) ps \<noteq> []"
    by (auto simp: out_of_place_def dropWhile_eq_Nil_conv)
  then have "last ps \<in> set (dropWhile (\<lambda>y. \<not> behind cmp x y) ps)"
    using last_in_set [of "dropWhile (\<lambda>y. \<not> behind cmp x y) ps"]
      last_append [of "takeWhile (\<lambda>y. \<not> behind cmp x y) ps" "dropWhile (\<lambda>y. \<not> behind cmp x y) ps"]
    by auto
  then show "behind cmp x (last ps)"
    using sorted_split [OF assms(1,2)] by blast
next
  assume "behind cmp x (last ps)"
  then show "out_of_place cmp ps x"
    using assms(3) by (auto simp: out_of_place_def)
qed

lemma items_sorted_insert:
  "items_sorted cmp (as @ bs) \<Longrightarrow> \<forall>y \<in> set as. cmp (fst y) (fst x) \<le> 0 \<Longrightarrow>
   \<forall>y \<in> set bs. cmp (fst x) (fst y) \<le> 0 \<Longrightarrow> items_sorted cmp (as @ x # bs)"
  by (auto simp: items_sorted_def cmp_sorted_def sorted_wrt_append)

lemma insert_item_sorted:
  assumes c: "comparator cmp" and s: "items_sorted cmp ps"
  shows "items_sorted cmp (insert_item cmp ext ps x)"
proof (cases "out_of_place cmp ps x")
  case True
  let ?a = "takeWhile (\<lambda>y. \<not> behind cmp x y) ps" and ?b = "dropWhile (\<lambda>y. \<not> behind cmp x y) ps"
  have "items_sorted cmp (?a @ ?b)"
    using s by simp
  moreover have "\<forall>y \<in> set ?a. cmp (fst y) (fst (relocated ext x)) \<le> 0"
    by (auto dest: set_takeWhileD)
  moreover have "\<forall>y \<in> set ?b. cmp (fst (relocated ext x)) (fst y) \<le> 0"
    unfolding fst_relocated using sorted_split [OF c s] comparator_total [OF c] by blast
  ultimately show ?thesis
    using True items_sorted_insert by (simp only: insert_item_def if_True)
next
  case False
  then show ?thesis
    using items_sorted_insert [of cmp ps "[]" x] s by (auto simp: insert_item_def out_of_place_def not_less)
qed

lemma insert_item_mset: "image_mset tagged (mset (insert_item cmp ext ps x)) = image_mset tagged (mset (ps @ [x]))"
proof -
  let ?a = "takeWhile (\<lambda>y. \<not> behind cmp x y) ps" and ?b = "dropWhile (\<lambda>y. \<not> behind cmp x y) ps"
  have "mset ps = mset ?a + mset ?b"
    by (simp flip: mset_append)
  then show ?thesis
    by (simp add: insert_item_def)
qed

lemma insert_item_stable:
  assumes c: "comparator cmp" and s: "items_sorted cmp ps"
  shows "map tagged (filter (same_key cmp k) (insert_item cmp ext ps x)) =
    map tagged (filter (same_key cmp k) (ps @ [x]))"
proof -
  let ?a = "takeWhile (\<lambda>y. \<not> behind cmp x y) ps" and ?b = "dropWhile (\<lambda>y. \<not> behind cmp x y) ps"
  have "filter (same_key cmp k) ps = filter (same_key cmp k) ?a @ filter (same_key cmp k) ?b"
    by (simp flip: filter_append)
  moreover have "filter (same_key cmp k) ?b = []" if "same_key cmp k x"
  proof -
    have "\<not> same_key cmp k y" if "y \<in> set ?b" for y
    proof -
      have "cmp (fst y) (fst x) > 0" "cmp k (fst x) \<le> 0"
        using sorted_split [OF c s that] \<open>same_key cmp k x\<close> by (simp_all add: same_key_def)
      then show ?thesis
        using comparator_trans [OF c, of "fst y" k "fst x"] by (auto simp: same_key_def)
    qed
    then show ?thesis
      by (simp add: filter_empty_conv)
  qed
  ultimately show ?thesis
    by (auto simp: insert_item_def same_key_def)
qed

lemma sort_items_correct:
  assumes c: "comparator cmp"
  shows "items_sorted cmp ps \<Longrightarrow> items_sorted cmp (sort_items cmp ext ps xs)"
    and "image_mset tagged (mset (sort_items cmp ext ps xs)) = image_mset tagged (mset (ps @ xs))"
    and "items_sorted cmp ps \<Longrightarrow> map tagged (filter (same_key cmp k) (sort_items cmp ext ps xs)) =
      map tagged (filter (same_key cmp k) (ps @ xs))"
proof (induction xs arbitrary: ps)
  case (Cons x xs)
  {
    case 1
    then show ?case using Cons(1) insert_item_sorted [OF c] by (simp add: sort_items_def)
  next
    case 2
    then show ?case
      using Cons(2) [of "insert_item cmp ext ps x"] insert_item_mset [of cmp ext ps x]
      by (simp add: sort_items_def)
  next
    case 3
    then show ?case
      using Cons(3) [OF insert_item_sorted [OF c 3]] insert_item_stable [OF c 3, of k ext x]
      by (simp add: sort_items_def)
  }
qed (auto simp: sort_items_def)

section \<open>Insertion in the heap\<close>

text \<open>All of \<^const>\<open>chain_rep\<close> but the pointer to the last node.\<close>

definition chain_open :: "chain_state \<Rightarrow> nodes \<Rightarrow> bool" where
  "chain_open s xs \<longleftrightarrow>
    seg (dcells (fst s)) 0 xs 0 \<and> distinct (map fst xs) \<and> length xs < 2 ^ 64 \<and>
    root_node (snd s) = first xs 0 \<and> node_count (snd s) = of_nat (length xs)"

lemma chain_rep_open: "chain_rep s xs \<longleftrightarrow> chain_open s xs \<and> last_node (snd s) = final 0 xs"
  by (auto simp: chain_rep_def chain_open_def)

lemma seek_left_seg:
  assumes c: "Compare_f c = Some cmp" and n: "node_at h p = Some n"
  shows "seg h 0 qs r \<Longrightarrow> seek_left h c p (final 0 qs) =
    Some (final 0 (rev (dropWhile (\<lambda>y. cmp (fst (snd y)) (d_offs n) > 0) (rev qs))))"
proof (induction qs arbitrary: r rule: rev_induct)
  case Nil
  then show ?case by (subst seek_left.simps) simp
next
  case (snoc q qs)
  have q: "fst q \<noteq> 0" "h (fst q) = Some (cell (final 0 qs) (snd q) r)" "seg h 0 qs (fst q)"
    using snoc.prems by (auto simp: seg_append)
  have cq: "cmp_nodes h c (fst q) p = Some (cmp (fst (snd q)) (d_offs n))"
    using q n by (simp add: cmp_nodes_def c node_at_def [of h "fst q"])
  show ?case
    using q cq snoc.IH [OF q(3)] by (subst seek_left.simps) (simp add: node_at_def [of h "fst q"])
qed

lemma rev_dropWhile_split:
  assumes "\<forall>y \<in> set bs. B y" "\<forall>y \<in> set as. \<not> B y"
  shows "rev (dropWhile B (rev (as @ bs))) = as"
proof -
  have "dropWhile B (rev as) = rev as"
    using assms(2) by (cases as rule: rev_cases) auto
  then show ?thesis
    using assms(1) dropWhile_append2 [of "rev bs" B "rev as"] by auto
qed

lemma cell_retype:
  "cell l (fresh_item off t ext) r\<lparr>d_type := ty\<rparr> = cell l (fresh_item off ty ext) r"
  by (simp add: cell_def fresh_item_def del: cell_fold)

lemma seg_retype:
  "seg h 0 ((a, fresh_item off 0 ext) # xs) 0 \<Longrightarrow> a \<notin> fst ` set xs \<Longrightarrow>
   assign (\<lambda>r. r\<lparr>d_type := ty\<rparr>) a h = Some (h(a \<mapsto> cell 0 (fresh_item off ty ext) (first xs 0))) \<and>
   seg (h(a \<mapsto> cell 0 (fresh_item off ty ext) (first xs 0))) 0 ((a, fresh_item off ty ext) # xs) 0"
  by (simp add: heap_simps cell_retype)

text \<open>The new node is linked in front of the nodes behind \<open>x\<close>.\<close>

lemma sort_link:
  assumes op: "chain_open (w, c) (as @ bs @ x # rest)" and bs: "bs \<noteq> []"
    and fresh: "fresh_cell zalc (dcells w) a"
    and zs: "zs = as @ (a, relocated (extn_field c) (snd x)) # bs @ x # rest"
  defines "p \<equiv> final 0 as" and "off \<equiv> fst (snd x)" and "ty \<equiv> fst (snd (snd x))"
  shows "\<exists>w' c'. sort_place zalc (fst x) p off ty (w, c) = Some (w', c') \<and>
    seg (dcells w') 0 zs 0 \<and> distinct (map fst zs) \<and> delta (dcells w) (as @ bs @ x # rest) (dcells w') zs \<and>
    released w' = released w \<and> root_node c' = first zs 0 \<and> node_count c' = node_count c + 1 \<and>
    last_node c' = last_node c \<and> same_conf c c'"
proof (cases as rule: rev_cases)
  case Nil
  obtain b bs' where b: "bs = b # bs'"
    using bs by (cases bs) auto
  have s: "seg (dcells w) 0 ([] @ b # bs' @ x # rest) 0" "distinct (map fst ([] @ b # bs' @ x # rest))"
    and root: "root_node c = fst b"
    using op Nil b by (auto simp: chain_open_def)
  let ?xs = "b # bs' @ x # rest"
  obtain w1 where w1: "insert_node zalc (fst b) off 0 False (w, c) = Some (a, w1, c)"
    "seg (dcells w1) 0 ((a, fresh_item off 0 (extn_field c)) # ?xs) 0"
    "distinct (map fst ((a, fresh_item off 0 (extn_field c)) # ?xs))"
    "delta (dcells w) ?xs (dcells w1) ((a, fresh_item off 0 (extn_field c)) # ?xs)" "released w1 = released w"
    using insert_node_left_seg [OF s fresh, of off 0 c] by auto
  have "dcells w1 (fst x) = Some (cell (final a (b # bs')) (snd x) (first rest 0))" "fst x \<noteq> 0"
    using w1(2) by (auto simp: seg_append)
  then have m: "node_at (dcells w1) (fst x) = Some (cell (final a (b # bs')) (snd x) (first rest 0))"
    by (simp add: node_at_def)
  have a: "a \<notin> fst ` set ?xs"
    using w1(3) by auto
  let ?h = "(dcells w1)(a \<mapsto> cell 0 (fresh_item off ty (extn_field c)) (first ?xs 0))"
  have re: "assign (\<lambda>r. r\<lparr>d_type := ty\<rparr>) a (dcells w1) = Some ?h"
    "seg ?h 0 ((a, fresh_item off ty (extn_field c)) # ?xs) 0"
    using seg_retype [OF w1(2) a, of ty] by blast+
  have z: "zs = (a, fresh_item off ty (extn_field c)) # ?xs"
    by (simp add: zs Nil b relocated_def off_def ty_def)
  have "delta (dcells w) ?xs ?h zs"
    using w1(4) a unfolding z delta_def by auto
  then show ?thesis
    using Nil b root w1 m re unfolding z
    by (auto simp: sort_place_def p_def Dchain_Insert_def Let_def ty_def [symmetric] same_conf_def)
next
  case (snoc ps q)
  have s: "seg (dcells w) 0 (ps @ q # bs @ x # rest) 0" "distinct (map fst (ps @ q # bs @ x # rest))"
    and root: "root_node c = first zs 0"
    using op snoc by (auto simp: chain_open_def zs hd_append)
  have z: "ps @ q # (a, fresh_item off ty (extn_field c)) # bs @ x # rest = zs"
    by (simp add: zs snoc relocated_def off_def ty_def)
  obtain w1 where "insert_node zalc (fst q) off ty True (w, c) = Some (a, w1, c)"
    "seg (dcells w1) 0 zs 0" "distinct (map fst zs)"
    "delta (dcells w) (as @ bs @ x # rest) (dcells w1) zs" "released w1 = released w"
    using insert_node_right_seg [OF s fresh, of off ty c] unfolding z by (auto simp: snoc)
  moreover have "fst q \<noteq> 0"
    using s(1) by (auto simp: seg_append)
  ultimately show ?thesis
    using snoc root by (auto simp: sort_place_def p_def same_conf_def)
qed

lemma sort_move_ok:
  assumes op: "chain_open (w, c) (as @ bs @ x # rest)" and cmp: "Compare_f c = Some cmp"
    and bs: "bs \<noteq> []" "\<forall>y \<in> set bs. behind cmp (snd x) (snd y)"
    and "as": "\<forall>y \<in> set as. \<not> behind cmp (snd x) (snd y)"
    and fresh: "fresh_cell zalc (dcells w) a"
  shows "\<exists>w' c'. sort_move zalc (fst x) (w, c) = Some (w', c') \<and>
    chain_open (w', c') (as @ (a, relocated (extn_field c) (snd x)) # bs @ rest) \<and>
    delta (dcells w) (as @ bs @ x # rest) (dcells w') (as @ (a, relocated (extn_field c) (snd x)) # bs @ rest) \<and>
    released w' = released w \<and> last_node c' = last_node c \<and> same_conf c c' \<and>
    a \<notin> fst ` set (as @ bs @ x # rest)"
proof -
  let ?new = "(a, relocated (extn_field c) (snd x))"
  obtain cs b where b: "bs = cs @ [b]"
    using bs(1) by (cases bs rule: rev_cases) auto
  have s: "seg (dcells w) 0 (as @ bs @ x # rest) 0"
    and cnt: "node_count c = of_nat (length (as @ bs @ x # rest))" "length (as @ bs @ x # rest) < 2 ^ 64"
    using op by (auto simp: chain_open_def)
  have x: "node_at (dcells w) (fst x) = Some (cell (fst b) (snd x) (first rest 0))" "fst x \<noteq> 0"
    and bb: "node_at (dcells w) (fst b) = Some (cell (final 0 (as @ cs)) (snd b) (fst x))"
    and sq: "seg (dcells w) 0 (as @ cs) (fst b)"
    using s by (auto simp: seg_append b node_at_def hd_append)
  have seek: "seek_left (dcells w) c (fst x) (final 0 (as @ cs)) = Some (final 0 as)"
  proof -
    have "rev (dropWhile (\<lambda>y. behind cmp (snd x) (snd y)) (rev (as @ cs))) = as"
      using bs(2) "as" by (intro rev_dropWhile_split) (auto simp: b)
    then show ?thesis
      using seek_left_seg [OF cmp x(1) sq] by (simp only: cell_sel)
  qed
  obtain w1 c1 where link:
    "sort_place zalc (fst x) (final 0 as) (fst (snd x)) (fst (snd (snd x))) (w, c) = Some (w1, c1)"
    and s1: "seg (dcells w1) 0 (as @ ?new # bs @ x # rest) 0"
      "distinct (map fst (as @ ?new # bs @ x # rest))"
    and d1: "delta (dcells w) (as @ bs @ x # rest) (dcells w1) (as @ ?new # bs @ x # rest)"
      "released w1 = released w"
    and c1: "root_node c1 = first (as @ ?new # bs @ x # rest) 0" "node_count c1 = node_count c + 1"
      "last_node c1 = last_node c" "same_conf c c1"
    using sort_link [OF op bs(1) fresh refl] by blast
  obtain w2 where w2: "DnodeRemove False (fst x) w1 = Some w2"
    "seg (dcells w2) 0 (as @ ?new # bs @ rest) 0"
    "delta (dcells w1) (as @ ?new # bs @ x # rest) (dcells w2) (as @ ?new # bs @ rest)"
    "released w2 = released w1"
    using DnodeRemove_delta [of w1 "as @ ?new # bs" x rest False] s1 by auto
  have move: "sort_move zalc (fst x) (w, c) = Some (w2, c1\<lparr>node_count := node_count c1 - 1\<rparr>)"
    using x bb seek link w2(1) by (simp add: sort_move_def del: last.simps)
  have "chain_open (w2, c1\<lparr>node_count := node_count c1 - 1\<rparr>) (as @ ?new # bs @ rest)"
    using w2(2) s1(2) c1(1,2) cnt by (auto simp: chain_open_def hd_append)
  moreover have "a \<notin> fst ` set (as @ bs @ x # rest)"
    using s1(2) by auto
  ultimately show ?thesis
    using move delta_trans [OF d1(1) w2(3)] d1(2) w2(4) c1(3,4) by (auto simp: same_conf_def)
qed

text \<open>Where the last node ends up: it stays the last, or it was replaced and given back.\<close>

definition last_fate :: "nat comparison \<Rightarrow> nodes \<Rightarrow> nodes \<Rightarrow> nodes \<Rightarrow> bool" where
  "last_fate cmp ps rest zs \<longleftrightarrow>
    (rest \<noteq> [] \<longrightarrow>
      (if out_of_place cmp (map snd (ps @ butlast rest)) (snd (last rest))
       then final 0 rest \<notin> fst ` set zs else final 0 zs = final 0 rest))"

lemma out_of_place_tag:
  assumes "image_mset tagged (mset xs) = image_mset tagged (mset ys)"
  shows "out_of_place cmp xs x = out_of_place cmp ys x"
proof -
  have "tagged ` set xs = tagged ` set ys"
    using arg_cong [OF assms, of set_mset] by simp
  moreover have "out_of_place cmp us x \<longleftrightarrow> (\<exists>t \<in> tagged ` set us. cmp (fst t) (fst x) > 0)" for us
    by (auto simp: out_of_place_def tagged_def)
  ultimately show ?thesis
    by (simp only:)
qed

text \<open>One round of the loop.\<close>

lemma sort_round:
  assumes op: "chain_open (w, c) (ps @ x # rest)" and cmp: "Compare_f c = Some cmp" "comparator cmp"
    and ps: "ps \<noteq> []" "items_sorted cmp (map snd ps)" and fresh: "fresh_cell zalc (dcells w) a"
  shows "\<exists>w' c' qs. (do {
       r \<leftarrow> cmp_nodes (dcells w) c (final 0 ps) (fst x);
       if r > 0 then sort_move zalc (fst x) (w, c) else Some (w, c)
     }) = Some (w', c') \<and>
    chain_open (w', c') (qs @ rest) \<and> map snd qs = insert_item cmp (extn_field c) (map snd ps) (snd x) \<and>
    delta (dcells w) (ps @ x # rest) (dcells w') (qs @ rest) \<and> released w' = released w \<and>
    last_node c' = last_node c \<and> same_conf c c' \<and>
    (if out_of_place cmp (map snd ps) (snd x) then fst x \<notin> fst ` set qs else qs = ps @ [x])"
proof -
  obtain ps' p where p: "ps = ps' @ [p]"
    using ps(1) by (cases ps rule: rev_cases) auto
  have s: "seg (dcells w) 0 (ps @ x # rest) 0" "distinct (map fst (ps @ x # rest))"
    using op by (auto simp: chain_open_def)
  have "node_at (dcells w) (fst p) = Some (cell (final 0 ps') (snd p) (fst x))"
    "node_at (dcells w) (fst x) = Some (cell (fst p) (snd x) (first rest 0))"
    using s by (auto simp: p seg_append node_at_def)
  then have c: "cmp_nodes (dcells w) c (final 0 ps) (fst x) = Some (cmp (fst (snd p)) (fst (snd x)))"
    by (simp add: cmp_nodes_def cmp p)
  have out: "out_of_place cmp (map snd ps) (snd x) \<longleftrightarrow> cmp (fst (snd p)) (fst (snd x)) > 0"
    using out_of_place_last [OF cmp(2) ps(2), of "snd x"] by (simp add: p)
  show ?thesis
  proof (cases "out_of_place cmp (map snd ps) (snd x)")
    case False
    then show ?thesis
      using op c out
      by (intro exI [of _ w] exI [of _ c] exI [of _ "ps @ [x]"])
        (auto simp: insert_item_def same_conf_def)
  next
    case True
    define as where "as = takeWhile (\<lambda>y. \<not> behind cmp (snd x) (snd y)) ps"
    define bs where "bs = dropWhile (\<lambda>y. \<not> behind cmp (snd x) (snd y)) ps"
    have split: "ps = as @ bs"
      by (simp add: as_def bs_def)
    have maps: "map snd as = takeWhile (\<lambda>y. \<not> behind cmp (snd x) y) (map snd ps)"
      "map snd bs = dropWhile (\<lambda>y. \<not> behind cmp (snd x) y) (map snd ps)"
      by (simp_all add: as_def bs_def takeWhile_map dropWhile_map comp_def)
    have "bs \<noteq> []"
      using True by (auto simp: bs_def out_of_place_def dropWhile_eq_Nil_conv)
    moreover have "\<forall>y \<in> set bs. behind cmp (snd x) (snd y)"
    proof
      fix y assume "y \<in> set bs"
      then have "snd y \<in> set (dropWhile (\<lambda>y. \<not> behind cmp (snd x) y) (map snd ps))"
        unfolding maps(2) [symmetric] by simp
      then show "behind cmp (snd x) (snd y)"
        by (rule sorted_split [OF cmp(2) ps(2)])
    qed
    moreover have "\<forall>y \<in> set as. \<not> behind cmp (snd x) (snd y)"
      by (auto simp: as_def dest: set_takeWhileD)
    moreover have "chain_open (w, c) (as @ bs @ x # rest)"
      using op by (simp add: split)
    ultimately obtain w' c' where "sort_move zalc (fst x) (w, c) = Some (w', c')"
      "chain_open (w', c') (as @ (a, relocated (extn_field c) (snd x)) # bs @ rest)"
      "delta (dcells w) (as @ bs @ x # rest) (dcells w') (as @ (a, relocated (extn_field c) (snd x)) # bs @ rest)"
      "released w' = released w" "last_node c' = last_node c" "same_conf c c'"
      "a \<notin> fst ` set (as @ bs @ x # rest)"
      using sort_move_ok [OF _ cmp(1) _ _ _ fresh, of as bs x rest] by blast
    moreover from this have "fst x \<notin> fst ` set (as @ (a, relocated (extn_field c) (snd x)) # bs)"
      using s(2) by (auto simp: split)
    moreover have "map snd (as @ (a, relocated (extn_field c) (snd x)) # bs) =
      insert_item cmp (extn_field c) (map snd ps) (snd x)"
      using True by (simp only: insert_item_def if_True maps map_append list.map snd_conv)
    ultimately show ?thesis
      using c out True split
      by (intro exI [of _ w'] exI [of _ c'] exI [of _ "as @ (a, relocated (extn_field c) (snd x)) # bs"])
        simp
  qed
qed

lemma delta_room:
  assumes d: "delta h xs h' ys" "seg h 0 xs 0" "seg h' 0 ys 0" "distinct (map fst xs)" "distinct (map fst ys)"
    and len: "length ys = length xs" and fin: "finite (dom h)" "card (dom h) < N"
  shows "finite (dom h')" "card (dom h') < N"
  using delta_dom [OF d(1-3) fin(1) d(4,5)] len fin(2) by auto

lemma length_insert_item [simp]: "length (insert_item cmp ext ps x) = Suc (length ps)"
  by (simp add: insert_item_def) (metis add_Suc_right length_take_dropWhile)

lemma length_sort_items [simp]: "length (sort_items cmp ext ps xs) = length ps + length xs"
  by (induction xs arbitrary: ps) (simp_all add: sort_items_def)

lemma last_fate_Cons:
  assumes fate: "last_fate cmp qs rest zs" and qs: "map snd qs = insert_item cmp ext (map snd ps) (snd x)"
    and x: "if out_of_place cmp (map snd ps) (snd x) then fst x \<notin> fst ` set qs else qs = ps @ [x]"
    and zs: "rest = [] \<Longrightarrow> zs = qs"
  shows "last_fate cmp ps (x # rest) zs"
proof (cases "rest = []")
  case True
  then show ?thesis
    using x zs by (auto simp: last_fate_def)
next
  case False
  have "image_mset tagged (mset (map snd (qs @ butlast rest))) =
      image_mset tagged (mset (map snd (ps @ x # butlast rest)))"
    using insert_item_mset [of cmp ext "map snd ps" "snd x"] qs by simp
  from out_of_place_tag [OF this] show ?thesis
    using fate False by (auto simp: last_fate_def split: if_splits)
qed

lemma sort_loop_ok:
  assumes "chain_open (w, c) (ps @ rest)" "ps \<noteq> []" "items_sorted cmp (map snd ps)"
    and "Compare_f c = Some cmp" "comparator cmp" "room zalc N"
    and "finite (dom (dcells w))" "card (dom (dcells w)) < N"
  shows "\<exists>w' c' zs. sort_loop zalc (first rest 0) (w, c) = Some (w', c') \<and> chain_open (w', c') zs \<and>
    map snd zs = sort_items cmp (extn_field c) (map snd ps) (map snd rest) \<and>
    delta (dcells w) (ps @ rest) (dcells w') zs \<and> released w' = released w \<and>
    last_node c' = last_node c \<and> same_conf c c' \<and> last_fate cmp ps rest zs \<and> (rest = [] \<longrightarrow> zs = ps)"
  using assms
proof (induction rest arbitrary: w c ps)
  case Nil
  then show ?case
    by (intro exI [of _ w] exI [of _ c] exI [of _ ps], subst sort_loop.simps)
      (simp add: sort_items_def same_conf_def last_fate_def)
next
  case (Cons x rest)
  have s: "seg (dcells w) 0 (ps @ x # rest) 0" "distinct (map fst (ps @ x # rest))"
    using Cons.prems(1) by (auto simp: chain_open_def)
  have x: "node_at (dcells w) (fst x) = Some (cell (final 0 ps) (snd x) (first rest 0))" "fst x \<noteq> 0"
    using s by (auto simp: seg_append node_at_def)
  have "fresh_cell zalc (dcells w) (zalc (dcells w))"
    using Cons.prems(6-8) by (auto simp: room_def fresh_cell_def)
  from sort_round [OF Cons.prems(1,4,5,2,3) this]
  obtain w1 c1 qs where "do {
       r \<leftarrow> cmp_nodes (dcells w) c (final 0 ps) (fst x);
       if r > 0 then sort_move zalc (fst x) (w, c) else Some (w, c)
     } = Some (w1, c1)"
    and op1: "chain_open (w1, c1) (qs @ rest)"
    and qs: "map snd qs = insert_item cmp (extn_field c) (map snd ps) (snd x)"
    and d1: "delta (dcells w) (ps @ x # rest) (dcells w1) (qs @ rest)" "released w1 = released w"
    and c1: "last_node c1 = last_node c" "same_conf c c1"
    and fate: "if out_of_place cmp (map snd ps) (snd x) then fst x \<notin> fst ` set qs else qs = ps @ [x]"
    by blast
  then obtain r where r: "cmp_nodes (dcells w) c (final 0 ps) (fst x) = Some r"
    "(if r > 0 then sort_move zalc (fst x) (w, c) else Some (w, c)) = Some (w1, c1)"
    by (auto simp: Option.bind_eq_Some_conv)
  have len: "length qs = Suc (length ps)"
    using arg_cong [OF qs, of length] by simp
  have fin: "finite (dom (dcells w1))" "card (dom (dcells w1)) < N"
    using delta_room [OF d1(1) s(1) _ s(2) _ _ Cons.prems(7,8)] op1 len by (auto simp: chain_open_def)
  have sorted1: "items_sorted cmp (map snd qs)" "qs \<noteq> []" and cf1: "Compare_f c1 = Some cmp"
    using insert_item_sorted [OF Cons.prems(5,3)] qs len c1(2) Cons.prems(4) by (auto simp: same_conf_def)
  obtain w2 c2 zs where IH: "sort_loop zalc (first rest 0) (w1, c1) = Some (w2, c2)"
    "chain_open (w2, c2) zs"
    "map snd zs = sort_items cmp (extn_field c1) (map snd qs) (map snd rest)"
    "delta (dcells w1) (qs @ rest) (dcells w2) zs" "released w2 = released w1"
    "last_node c2 = last_node c1" "same_conf c1 c2" "last_fate cmp qs rest zs" "rest = [] \<longrightarrow> zs = qs"
    using Cons.IH [OF op1 sorted1(2,1) cf1 Cons.prems(5,6) fin] by blast
  have "sort_loop zalc (fst x) (w, c) = Some (w2, c2)"
    using x r IH(1) by (subst sort_loop.simps) (simp del: last.simps)
  moreover have "last_fate cmp ps (x # rest) zs"
    using last_fate_Cons [OF IH(8) qs fate] IH(9) by blast
  moreover have "map snd zs = sort_items cmp (extn_field c) (map snd ps) (map snd (x # rest))"
    using IH(3) qs c1(2) by (simp add: sort_items_def same_conf_def)
  ultimately show ?case
    using IH d1 c1 delta_trans [OF d1(1) IH(4)] by (auto simp: same_conf_def)
qed

lemma SortByInsertion_ok:
  assumes rep: "chain_rep (w, c) xs" and cmp: "Compare_f c = Some cmp" "comparator cmp"
    and mem: "room zalc N" "finite (dom (dcells w))" "card (dom (dcells w)) < N"
  shows "\<exists>w' c' zs. Dchain_SortByInsertion zalc (w, c) = Some (w', c') \<and> chain_open (w', c') zs \<and>
    map snd zs = sort_items cmp (extn_field c) [] (map snd xs) \<and>
    delta (dcells w) xs (dcells w') zs \<and> released w' = released w \<and>
    last_node c' = last_node c \<and> same_conf c c' \<and> last_fate cmp [] xs zs"
proof (cases xs)
  case Nil
  then show ?thesis
    using rep by (auto simp: Dchain_SortByInsertion_def chain_rep_open chain_open_def sort_items_def
        same_conf_def last_fate_def)
next
  case (Cons x rest)
  have op: "chain_open (w, c) ([x] @ rest)"
    using rep Cons by (simp add: chain_rep_open)
  have x: "root_node c = fst x" "fst x \<noteq> 0" "node_at (dcells w) (fst x) = Some (cell 0 (snd x) (first rest 0))"
    using rep Cons by (auto simp: chain_rep_def node_at_def)
  have one: "items_sorted cmp (map snd [x])"
    by (simp add: items_sorted_def cmp_sorted_def)
  obtain w' c' zs where loop: "sort_loop zalc (first rest 0) (w, c) = Some (w', c')"
    "chain_open (w', c') zs" "map snd zs = sort_items cmp (extn_field c) (map snd [x]) (map snd rest)"
    "delta (dcells w) ([x] @ rest) (dcells w') zs" "released w' = released w"
    "last_node c' = last_node c" "same_conf c c'" "last_fate cmp [x] rest zs" "rest = [] \<longrightarrow> zs = [x]"
    using sort_loop_ok [OF op _ one cmp mem] by blast
  have "Dchain_SortByInsertion zalc (w, c) = Some (w', c')"
  proof (cases "rest = []")
    case True
    then show ?thesis
      using loop(1) x by (simp add: Dchain_SortByInsertion_def sort_loop.simps [of zalc 0])
  next
    case False
    then have "first rest 0 \<noteq> 0"
      using chain_rep_nonzero [OF rep] Cons by auto
    then show ?thesis
      using loop(1) x by (simp add: Dchain_SortByInsertion_def)
  qed
  moreover have "insert_item cmp (extn_field c) [] (snd x) = [snd x]"
    by (simp add: insert_item_def out_of_place_def)
  moreover have "last_fate cmp [] (x # rest) zs"
    using last_fate_Cons [OF loop(8), where ext = "extn_field c" and ps = "[]" and x = x] loop(9) calculation(2)
    by (simp add: out_of_place_def)
  ultimately show ?thesis
    using loop Cons by (auto simp: sort_items_def)
qed

text \<open>
  C34. Insertion sort of a chain. With room for one more node, and a comparison that is a total
  preorder, the chain read from its first node is afterwards a sorted, stable rearrangement of
  the contents with their types, nothing is released and no other cell changes. The pointer to
  the last node is never updated: when the last node was out of place it points to freed memory,
  otherwise the chain is sound.
\<close>
theorem dchain_sort:
  assumes "chain_rep (w, c) xs" "Compare_f c = Some cmp" "comparator cmp"
    and "room zalc N" "finite (dom (dcells w))" "card (dom (dcells w)) < N"
  shows "\<exists>w' c' zs. Dchain_SortByInsertion zalc (w, c) = Some (w', c') \<and> chain_open (w', c') zs \<and>
    cmp_sorted cmp (contents zs) \<and>
    image_mset (tagged \<circ> snd) (mset zs) = image_mset (tagged \<circ> snd) (mset xs) \<and>
    (\<forall>k. map tagged (filter (same_key cmp k) (map snd zs)) = map tagged (filter (same_key cmp k) (map snd xs))) \<and>
    delta (dcells w) xs (dcells w') zs \<and> released w' = released w \<and>
    (if xs \<noteq> [] \<and> out_of_place cmp (map snd (butlast xs)) (snd (last xs))
     then dcells w' (last_node c') = None else chain_rep (w', c') zs)"
proof -
  obtain w' c' zs where z: "Dchain_SortByInsertion zalc (w, c) = Some (w', c')" "chain_open (w', c') zs"
    "map snd zs = sort_items cmp (extn_field c) [] (map snd xs)"
    "delta (dcells w) xs (dcells w') zs" "released w' = released w"
    "last_node c' = last_node c" "last_fate cmp [] xs zs"
    using SortByInsertion_ok [OF assms] by blast
  have lst: "last_node c = final 0 xs"
    using assms(1) by (simp add: chain_rep_open)
  have items: "items_sorted cmp (map snd zs)"
    "image_mset tagged (mset (map snd zs)) = image_mset tagged (mset (map snd xs))"
    and stable: "\<forall>k. map tagged (filter (same_key cmp k) (map snd zs)) = map tagged (filter (same_key cmp k) (map snd xs))"
    using sort_items_correct [OF assms(3), where ps = "[]" and ext = "extn_field c" and xs = "map snd xs"] z(3)
    by (simp_all add: items_sorted_def cmp_sorted_def)
  have "cmp_sorted cmp (contents zs)"
    "image_mset (tagged \<circ> snd) (mset zs) = image_mset (tagged \<circ> snd) (mset xs)"
    using items by (simp_all add: items_sorted_def comp_def multiset.map_comp)
  moreover have "if xs \<noteq> [] \<and> out_of_place cmp (map snd (butlast xs)) (snd (last xs))
     then dcells w' (last_node c') = None else chain_rep (w', c') zs"
  proof (cases "xs = []")
    case True
    then show ?thesis
      using z lst by (auto simp: chain_rep_open sort_items_def)
  next
    case False
    have "final 0 xs \<in> fst ` set xs"
      using False by (cases xs rule: rev_cases) auto
    then have "final 0 xs \<notin> fst ` set zs \<Longrightarrow> dcells w' (final 0 xs) = None"
      using z(4) unfolding delta_def by blast
    then show ?thesis
      using z(2,6,7) lst False by (auto simp: last_fate_def chain_rep_open)
  qed
  ultimately show ?thesis
    using z(1,2,4,5) stable by blast
qed

definition sample_heap :: heap where
  "sample_heap = [1 \<mapsto> cell 0 (20, 5, [7]) 2, 2 \<mapsto> cell 1 (10, 6, [8]) 0]"

definition sample_chain :: Dchain where
  "sample_chain = \<lparr>root_node = 1, last_node = 2, midl_node = 0, node_count = 2, extn_field = 1,
     been_sorted = True, func_free = True, Compare_f = Some (\<lambda>a b. int a - int b)\<rparr>"

lemma sample_rep: "chain_rep (\<lparr>dcells = sample_heap, released = []\<rparr>, sample_chain) [(1, 20, 5, [7]), (2, 10, 6, [8])]"
  by (simp add: chain_rep_def sample_heap_def sample_chain_def)

theorem dchain_sort_witness:
  "\<exists>w' c' zs. Dchain_SortByInsertion (slot_alloc 3) (\<lparr>dcells = sample_heap, released = []\<rparr>, sample_chain) =
      Some (w', c') \<and> cmp_sorted (\<lambda>a b. int a - int b) (contents zs) \<and> length zs = 2 \<and>
      dcells w' (last_node c') = None"
proof -
  have "comparator (\<lambda>a b. int a - int b)"
    by (auto simp: comparator_def)
  moreover have "finite (dom sample_heap)" "card (dom sample_heap) < 3"
    by (simp_all add: sample_heap_def)
  ultimately obtain w' c' zs where
    r: "Dchain_SortByInsertion (slot_alloc 3) (\<lparr>dcells = sample_heap, released = []\<rparr>, sample_chain) = Some (w', c')"
      "cmp_sorted (\<lambda>a b. int a - int b) (contents zs)"
      "image_mset (tagged \<circ> snd) (mset zs) = image_mset (tagged \<circ> snd) (mset [(1, 20, 5, [7]), (2, 10, 6, [8])])"
      "dcells w' (last_node c') = None"
    using dchain_sort [OF sample_rep _ _ slot_alloc_room, of "\<lambda>a b. int a - int b" 3]
    by (auto simp: sample_chain_def out_of_place_def)
  have "length zs = 2"
    using arg_cong [OF r(3), of size] by simp
  then show ?thesis
    using r by blast
qed

end
