(* ===== verification/Bnode.thy ===== *)
theory Bnode
  imports DchainSpec "HOL-Library.Tree"
begin

text \<open>
  Binary trees of nodes: \<open>Bnode\<close> and \<open>BnodeChain\<close> of \<open>src/inc/cpp/bnode\<close> and
  \<open>src/lib/cpp/Datype/bnode.cpp\<close>. A tree node is a \<open>Dnode\<close> whose links are its children. The
  level-order traversal keeps the pending nodes in a \<open>Dchain\<close>; it is written over the operations it
  calls, and the locale \<open>work_queue\<close> is what it relies on.

  The visitor \<open>procfunc\<close> is a function of a state of its own; it does not write the nodes. \<open>None\<close>
  of the source, the address with all bits set, stands for the root where a function accepts it.
\<close>

section \<open>Tree nodes\<close>

definition NonePtr :: nat where
  "NonePtr = 2 ^ 64 - 1"

definition new_Bnode :: "zalc \<Rightarrow> nat \<Rightarrow> heap \<Rightarrow> (nat \<times> heap) option" where
  "new_Bnode zalc off h =
    (let p = zalc h in
     if p = 0 then None
     else Some (p, h(p \<mapsto> \<lparr>d_next = 0, d_offs = off, d_left = 0, d_type = 0, d_extn = []\<rparr>)))"

definition Bnode_Append :: "zalc \<Rightarrow> nat \<Rightarrow> nat \<Rightarrow> bool \<Rightarrow> heap \<Rightarrow> heap option" where
  "Bnode_Append zalc nod off onleft h =
    do {
      (p, h) \<leftarrow> new_Bnode zalc off h;
      assign (\<lambda>n. if onleft then n\<lparr>d_left := p\<rparr> else n\<lparr>d_next := p\<rparr>) nod h
    }"

definition Bnode_Swap :: "nat \<Rightarrow> nat \<Rightarrow> heap \<Rightarrow> heap option" where
  "Bnode_Swap a b h =
    do {
      na \<leftarrow> node_at h a;
      nb \<leftarrow> node_at h b;
      h \<leftarrow> assign (\<lambda>n. n\<lparr>d_left := d_left nb, d_next := d_next nb\<rparr>) a h;
      assign (\<lambda>n. n\<lparr>d_left := d_left na, d_next := d_next na\<rparr>) b h
    }"

section \<open>Traversal\<close>

datatype TraversalOrder = Preorder | Inorder | Postorder | Levelorder

type_synonym 's visitor = "'s \<Rightarrow> nat \<Rightarrow> bool \<times> 's"

text \<open>\<open>if (procfunc) if (!procfunc(starter)) break;\<close>\<close>

definition call_visitor :: "'s visitor option \<Rightarrow> 's \<Rightarrow> nat \<Rightarrow> bool \<times> 's" where
  "call_visitor procfunc s p = (case procfunc of None \<Rightarrow> (True, s) | Some f \<Rightarrow> f s p)"

partial_function (option) traverse ::
  "heap \<Rightarrow> TraversalOrder \<Rightarrow> 's visitor option \<Rightarrow> nat \<Rightarrow> 's \<Rightarrow> 's option" where
  "traverse h order procfunc starter s =
    (if starter = 0 then Some s
     else if order = Preorder then
       do {
         let r = call_visitor procfunc s starter;
         if \<not> fst r then Some (snd r)
         else do {
           n \<leftarrow> node_at h starter;
           s \<leftarrow> traverse h order procfunc (d_left n) (snd r);
           traverse h order procfunc (d_next n) s
         }
       }
     else if order = Inorder then
       do {
         n \<leftarrow> node_at h starter;
         s \<leftarrow> traverse h order procfunc (d_left n) s;
         let r = call_visitor procfunc s starter;
         if \<not> fst r then Some (snd r) else traverse h order procfunc (d_next n) (snd r)
       }
     else
       do {
         n \<leftarrow> node_at h starter;
         s \<leftarrow> traverse h order procfunc (d_left n) s;
         s \<leftarrow> traverse h order procfunc (d_next n) s;
         Some (snd (call_visitor procfunc s starter))
       })"

text \<open>The loop of the level-order traversal, over the operations on the pending nodes and the read
  of a node; \<open>front\<close> is the content of the first pending entry, if there is one.\<close>

partial_function (option) level_loop ::
  "(nat \<Rightarrow> 'q \<Rightarrow> 'q option) \<Rightarrow> ('q \<Rightarrow> nat option option) \<Rightarrow> ('q \<Rightarrow> 'q option) \<Rightarrow> ('q \<Rightarrow> nat \<Rightarrow> Dnode option) \<Rightarrow>
   's visitor \<Rightarrow> 'q \<Rightarrow> 's \<Rightarrow> ('q \<times> 's) option" where
  "level_loop put front drop_front read procfunc q s =
    do {
      f \<leftarrow> front q;
      if f = None then Some (q, s)
      else if f = Some 0 then
        do { q \<leftarrow> drop_front q; level_loop put front drop_front read procfunc q s }
      else do {
        let r = procfunc s (the f);
        if \<not> fst r then Some (q, snd r)
        else do {
          n \<leftarrow> read q (the f);
          q \<leftarrow> put (d_left n) q;
          n \<leftarrow> read q (the f);
          q \<leftarrow> put (d_next n) q;
          q \<leftarrow> drop_front q;
          level_loop put front drop_front read procfunc q (snd r)
        }
      }
    }"

definition dc_put :: "zalc \<Rightarrow> nat \<Rightarrow> chain_state \<Rightarrow> chain_state option" where
  "dc_put zalc off s = map_option snd (Dchain_Append zalc off False 0 s)"

definition dc_front :: "chain_state \<Rightarrow> nat option option" where
  "dc_front s =
    (case s of (w, c) \<Rightarrow>
     if root_node c = 0 then Some None
     else map_option (\<lambda>n. Some (d_offs n)) (node_at (dcells w) (root_node c)))"

definition dc_drop :: "chain_state \<Rightarrow> chain_state option" where
  "dc_drop s = map_option snd (Dchain_Remove_node (root_node (snd s)) s)"

definition dc_read :: "chain_state \<Rightarrow> nat \<Rightarrow> Dnode option" where
  "dc_read s p = node_at (dcells (fst s)) p"

definition TraversalLevelorder ::
  "zalc \<Rightarrow> 's visitor option \<Rightarrow> nat \<Rightarrow> world \<Rightarrow> 's \<Rightarrow> (world \<times> 's) option" where
  "TraversalLevelorder zalc procfunc nod w s =
    (case procfunc of
       None \<Rightarrow> Some (w, s)
     | Some f \<Rightarrow>
         if nod = 0 then Some (w, s)
         else do {
           dc \<leftarrow> dc_put zalc nod (w, new_Dchain False);
           (dc, s) \<leftarrow> level_loop (dc_put zalc) dc_front dc_drop dc_read f dc s;
           w \<leftarrow> delete_Dchain dc;
           Some (w, s)
         })"

definition Traversal ::
  "zalc \<Rightarrow> TraversalOrder \<Rightarrow> 's visitor option \<Rightarrow> nat \<Rightarrow> world \<Rightarrow> 's \<Rightarrow> (world \<times> 's) option" where
  "Traversal zalc order procfunc starter w s =
    (if starter = 0 then Some (w, s)
     else if order = Levelorder then TraversalLevelorder zalc procfunc starter w s
     else map_option (Pair w) (traverse (dcells w) order procfunc starter s))"

section \<open>Measures\<close>

text \<open>\<open>nulrecurs\<close>: the null pointer ends a recursion, \<open>None\<close> starts it at the root.\<close>

definition start_at :: "nat \<Rightarrow> nat \<Rightarrow> nat" where
  "start_at root p = (if p = NonePtr then root else p)"

partial_function (option) Leaves :: "heap \<Rightarrow> nat \<Rightarrow> nat \<Rightarrow> stduint option" where
  "Leaves h root starter =
    (if starter = 0 then Some 0
     else do {
       n \<leftarrow> node_at h (start_at root starter);
       if d_left n = 0 \<and> d_next n = 0 then Some 1
       else do {
         l \<leftarrow> Leaves h root (d_left n);
         r \<leftarrow> Leaves h root (d_next n);
         Some (l + r)
       }
     })"

partial_function (option) Depth :: "heap \<Rightarrow> nat \<Rightarrow> nat \<Rightarrow> stduint option" where
  "Depth h root starter =
    (if starter = 0 then Some 0
     else do {
       n \<leftarrow> node_at h (start_at root starter);
       l \<leftarrow> Depth h root (d_left n);
       r \<leftarrow> Depth h root (d_next n);
       Some ((if l > r then l else r) + 1)
     })"

partial_function (option) Bnode_Count :: "heap \<Rightarrow> nat \<Rightarrow> nat \<Rightarrow> stduint option" where
  "Bnode_Count h root from =
    (if from = 0 then Some 0
     else do {
       n \<leftarrow> node_at h (start_at root from);
       if d_left n = 0 \<and> d_next n = 0 then Some 1
       else do {
         l \<leftarrow> Bnode_Count h root (d_left n);
         r \<leftarrow> Bnode_Count h root (d_next n);
         Some (l + r + 1)
       }
     })"

partial_function (option) isProper :: "heap \<Rightarrow> nat \<Rightarrow> nat \<Rightarrow> bool option" where
  "isProper h root from =
    (if from = 0 then Some True
     else do {
       n \<leftarrow> node_at h (start_at root from);
       if (d_left n = 0) \<noteq> (d_next n = 0) then Some False
       else if d_left n \<noteq> 0 \<or> d_next n \<noteq> 0 then
         do {
           l \<leftarrow> isProper h root (d_left n);
           if l then isProper h root (d_next n) else Some False
         }
       else Some True
     })"

text \<open>\<open>exp2\<close> of the depth is exact, and converts to \<open>stduint\<close> where it is below \<open>2 ^ 64\<close>.\<close>

definition isFull :: "heap \<Rightarrow> nat \<Rightarrow> bool option" where
  "isFull h root =
    do {
      d \<leftarrow> Depth h root NonePtr;
      c \<leftarrow> Bnode_Count h root NonePtr;
      if d \<ge> 64 then None else Some (2 ^ unat d = c + 1)
    }"

section \<open>Changing a tree\<close>

partial_function (option) Mirror :: "nat \<Rightarrow> nat \<Rightarrow> heap \<Rightarrow> heap option" where
  "Mirror root from h =
    (if from = 0 then Some h
     else do {
       n \<leftarrow> node_at h (start_at root from);
       h \<leftarrow> Mirror root (d_left n) h;
       n \<leftarrow> node_at h (start_at root from);
       h \<leftarrow> Mirror root (d_next n) h;
       assign (\<lambda>n. n\<lparr>d_left := d_next n, d_next := d_left n\<rparr>) (start_at root from) h
     })"

text \<open>The flag is \<open>available\<close>, which the removal of the root clears.\<close>

partial_function (option) Bnode_Remove ::
  "nat \<Rightarrow> bool \<Rightarrow> nat \<Rightarrow> world \<times> bool \<Rightarrow> (world \<times> bool) option" where
  "Bnode_Remove root address_mode item s =
    (if item = 0 then Some s
     else do {
       let p = start_at root item;
       n \<leftarrow> node_at (dcells (fst s)) p;
       s \<leftarrow> Bnode_Remove root address_mode (d_left n) s;
       n \<leftarrow> node_at (dcells (fst s)) p;
       s \<leftarrow> Bnode_Remove root address_mode (d_next n) s;
       h \<leftarrow> assign (\<lambda>n. n\<lparr>d_left := 0, d_next := 0\<rparr>) p (dcells (fst s));
       let rel = released (fst s) @ (if address_mode then [] else [d_offs n]);
       if p \<noteq> root then Some (\<lparr>dcells = h(p := None), released = rel\<rparr>, snd s)
       else Some (\<lparr>dcells = h, released = rel\<rparr>, False)
     })"

end
