(* ===== verification/BnodeCorrect.thy ===== *)
theory BnodeCorrect
  imports Bnode
begin

text \<open>
  Trees of nodes as trees of addresses: the measures, the traversals and the changes of a tree.
  The level-order traversal is proved once for every work queue, in the locale \<open>work_queue\<close>,
  and \<open>Dchain\<close> is shown to be one.
\<close>

section \<open>Trees in the heap\<close>

fun tree_rep :: "heap \<Rightarrow> nat \<Rightarrow> nat tree \<Rightarrow> bool" where
  "tree_rep h p Leaf = (p = 0)"
| "tree_rep h p (Node l a r) =
    (p = a \<and> a \<noteq> 0 \<and> a \<noteq> NonePtr \<and>
     (\<exists>n. h a = Some n \<and> tree_rep h (d_left n) l \<and> tree_rep h (d_next n) r))"

lemma tree_rep_zero: "tree_rep h p t \<Longrightarrow> p = 0 \<longleftrightarrow> t = Leaf"
  by (cases t) auto

lemma tree_rep_NonePtr: "tree_rep h p t \<Longrightarrow> p \<noteq> NonePtr"
  by (cases t) (auto simp: NonePtr_def)

lemma tree_rep_start [simp]: "tree_rep h p t \<Longrightarrow> start_at root p = p"
  using tree_rep_NonePtr by (simp add: start_at_def)

lemma start_at_None [simp]: "start_at root NonePtr = root"
  by (simp add: start_at_def)

lemma NonePtr_nonzero [simp]: "NonePtr \<noteq> 0"
  by (simp add: NonePtr_def)

lemma tree_rep_cong: "tree_rep h p t \<Longrightarrow> (\<And>a. a \<in> set_tree t \<Longrightarrow> h' a = h a) \<Longrightarrow> tree_rep h' p t"
  by (induction t arbitrary: p) auto

lemma tree_rep_dom: "tree_rep h p t \<Longrightarrow> a \<in> set_tree t \<Longrightarrow> a \<noteq> 0 \<and> (\<exists>n. h a = Some n)"
  by (induction t arbitrary: p) auto

section \<open>Measures\<close>

fun leaf_count :: "'a tree \<Rightarrow> nat" where
  "leaf_count Leaf = 0"
| "leaf_count (Node l a r) = (if l = Leaf \<and> r = Leaf then 1 else leaf_count l + leaf_count r)"

fun proper :: "'a tree \<Rightarrow> bool" where
  "proper Leaf = True"
| "proper (Node l a r) = ((l = Leaf) = (r = Leaf) \<and> proper l \<and> proper r)"

lemma Leaves_ok: "tree_rep h p t \<Longrightarrow> Leaves h root p = Some (of_nat (leaf_count t))"
proof (induction t arbitrary: p)
  case Leaf
  then show ?case by (subst Leaves.simps) simp
next
  case (Node l a r)
  then obtain n where n: "h a = Some n" "tree_rep h (d_left n) l" "tree_rep h (d_next n) r" "p = a" "a \<noteq> 0"
    by auto
  then show ?case
    using Node.IH tree_rep_zero tree_rep_start [OF Node.prems]
    by (subst Leaves.simps) (auto simp: node_at_def)
qed

lemma Depth_ok: "tree_rep h p t \<Longrightarrow> size t < 2 ^ 64 \<Longrightarrow> Depth h root p = Some (of_nat (height t))"
proof (induction t arbitrary: p)
  case Leaf
  then show ?case by (subst Depth.simps) simp
next
  case (Node l a r)
  then obtain n where n: "h a = Some n" "tree_rep h (d_left n) l" "tree_rep h (d_next n) r" "p = a" "a \<noteq> 0"
    by auto
  have "height l < 2 ^ 64" "height r < 2 ^ 64"
    using Node.prems(2) height_le_size_tree [of l] height_le_size_tree [of r] by auto
  then have "((of_nat (height l) :: stduint) > of_nat (height r)) = (height l > height r)"
    by (simp add: word_less_nat_alt unat_of_nat take_bit_nat_eq_self)
  then show ?case
    using Node n tree_rep_start [OF Node.prems(1)]
    by (subst Depth.simps) (auto simp: node_at_def max_def)
qed

lemma Count_ok: "tree_rep h p t \<Longrightarrow> Bnode_Count h root p = Some (of_nat (size t))"
proof (induction t arbitrary: p)
  case Leaf
  then show ?case by (subst Bnode_Count.simps) simp
next
  case (Node l a r)
  then obtain n where n: "h a = Some n" "tree_rep h (d_left n) l" "tree_rep h (d_next n) r" "p = a" "a \<noteq> 0"
    by auto
  then show ?case
    using Node.IH tree_rep_zero tree_rep_start [OF Node.prems]
    by (subst Bnode_Count.simps) (auto simp: node_at_def)
qed

lemma isProper_ok: "tree_rep h p t \<Longrightarrow> isProper h root p = Some (proper t)"
proof (induction t arbitrary: p)
  case Leaf
  then show ?case by (subst isProper.simps) simp
next
  case (Node l a r)
  then obtain n where n: "h a = Some n" "tree_rep h (d_left n) l" "tree_rep h (d_next n) r" "p = a" "a \<noteq> 0"
    by auto
  then show ?case
    using Node.IH tree_rep_zero [OF n(2)] tree_rep_zero [OF n(3)] tree_rep_start [OF Node.prems]
    by (subst isProper.simps) (auto simp: node_at_def)
qed

text \<open>Starting at the root by \<open>None\<close>.\<close>

lemma start_None:
  assumes "p \<noteq> 0" "p \<noteq> NonePtr"
  shows "Leaves h p NonePtr = Leaves h p p" "Depth h p NonePtr = Depth h p p"
    "Bnode_Count h p NonePtr = Bnode_Count h p p" "isProper h p NonePtr = isProper h p p"
  using assms
  by (simp_all add: Leaves.simps [of h p NonePtr] Leaves.simps [of h p p] Depth.simps [of h p NonePtr]
      Depth.simps [of h p p] Bnode_Count.simps [of h p NonePtr] Bnode_Count.simps [of h p p]
      isProper.simps [of h p NonePtr] isProper.simps [of h p p] start_at_def)

lemma isFull_ok:
  assumes "tree_rep h p t" "t \<noteq> Leaf" "size t < 2 ^ 64" "height t < 64"
  shows "isFull h p = Some (complete t)"
proof -
  have p: "p \<noteq> 0" "p \<noteq> NonePtr"
    using assms(1,2) tree_rep_zero tree_rep_NonePtr by auto
  have d: "unat (of_nat (height t) :: stduint) = height t" "\<not> (64 :: stduint) \<le> of_nat (height t)"
    using assms(4) by (simp_all add: unat_of_nat take_bit_nat_eq_self word_le_nat_alt)
  have s: "size t + 1 \<le> 2 ^ height t"
    using size1_height [of t] by (simp add: size1_size)
  also have "(2 :: nat) ^ height t < 2 ^ 64"
    using assms(4) by (intro power_strict_increasing) auto
  finally have lt: "size t + 1 < 2 ^ 64" "(2 :: nat) ^ height t < 2 ^ 64"
    using \<open>(2 :: nat) ^ height t < 2 ^ 64\<close> by auto
  have "((2 :: stduint) ^ height t = of_nat (size t) + 1) \<longleftrightarrow> (of_nat (2 ^ height t) = (of_nat (size t + 1) :: stduint))"
    by (simp add: add.commute)
  also have "\<dots> \<longleftrightarrow> 2 ^ height t = size t + 1"
  proof -
    have "x < 2 ^ 64 \<Longrightarrow> unat (of_nat x :: stduint) = x" for x :: nat
      by (simp add: unat_of_nat take_bit_nat_eq_self)
    from this [OF lt(2)] this [OF lt(1)] show ?thesis
      by metis
  qed
  also have "\<dots> \<longleftrightarrow> complete t"
    using complete_if_size1_height [of t] size1_if_complete [of t] by (auto simp: size1_size)
  finally show ?thesis
    using p d Depth_ok [OF assms(1,3), of p] Count_ok [OF assms(1), of p]
    by (simp add: isFull_def start_None)
qed

section \<open>Traversals\<close>

text \<open>A visitor that answers false ends the call for the node it was given: before its children in
  preorder, between them in inorder, after them in postorder.\<close>

fun pre_visit :: "('s \<Rightarrow> 'a \<Rightarrow> bool \<times> 's) \<Rightarrow> 'a tree \<Rightarrow> 's \<Rightarrow> 's" where
  "pre_visit f Leaf s = s"
| "pre_visit f (Node l a r) s =
    (case f s a of (ok, s) \<Rightarrow> if ok then pre_visit f r (pre_visit f l s) else s)"

fun in_visit :: "('s \<Rightarrow> 'a \<Rightarrow> bool \<times> 's) \<Rightarrow> 'a tree \<Rightarrow> 's \<Rightarrow> 's" where
  "in_visit f Leaf s = s"
| "in_visit f (Node l a r) s =
    (case f (in_visit f l s) a of (ok, s) \<Rightarrow> if ok then in_visit f r s else s)"

fun post_visit :: "('s \<Rightarrow> 'a \<Rightarrow> bool \<times> 's) \<Rightarrow> 'a tree \<Rightarrow> 's \<Rightarrow> 's" where
  "post_visit f Leaf s = s"
| "post_visit f (Node l a r) s = snd (f (post_visit f r (post_visit f l s)) a)"

text \<open>In level order a visitor that answers false ends the whole traversal.\<close>

fun visit_all :: "('s \<Rightarrow> 'a \<Rightarrow> bool \<times> 's) \<Rightarrow> 'a list \<Rightarrow> 's \<Rightarrow> 's" where
  "visit_all f [] s = s"
| "visit_all f (a # as) s = (case f s a of (ok, s) \<Rightarrow> if ok then visit_all f as s else s)"

fun at_depth :: "nat \<Rightarrow> 'a tree \<Rightarrow> 'a list" where
  "at_depth d Leaf = []"
| "at_depth 0 (Node l a r) = [a]"
| "at_depth (Suc d) (Node l a r) = at_depth d l @ at_depth d r"

definition level_order :: "'a tree \<Rightarrow> 'a list" where
  "level_order t = concat (map (\<lambda>d. at_depth d t) [0..<height t])"

lemma traverse_ok:
  assumes "tree_rep h p t" "order \<noteq> Levelorder"
  shows "traverse h order procfunc p s = Some (case order of
      Preorder \<Rightarrow> pre_visit (call_visitor procfunc) t s
    | Inorder \<Rightarrow> in_visit (call_visitor procfunc) t s
    | _ \<Rightarrow> post_visit (call_visitor procfunc) t s)"
  using assms(1)
proof (induction t arbitrary: p s)
  case Leaf
  then show ?case by (subst traverse.simps) (simp split: TraversalOrder.split)
next
  case (Node l a r)
  then obtain n where n: "h a = Some n" "tree_rep h (d_left n) l" "tree_rep h (d_next n) r" "p = a" "a \<noteq> 0"
    by auto
  then show ?case
    using Node.IH(1) [OF n(2)] Node.IH(2) [OF n(3)] assms(2)
    by (subst traverse.simps; cases order) (auto simp: node_at_def Let_def split: prod.split)
qed

text \<open>A visitor that never stops sees every node once, in the order of the name.\<close>

lemma visits_all:
  assumes "\<forall>s a. fst (f s a)"
  shows "pre_visit f t s = fold (\<lambda>a s. snd (f s a)) (preorder t) s"
    and "in_visit f t s = fold (\<lambda>a s. snd (f s a)) (inorder t) s"
    and "post_visit f t s = fold (\<lambda>a s. snd (f s a)) (postorder t) s"
    and "visit_all f as s = fold (\<lambda>a s. snd (f s a)) as s"
proof -
  have f: "f s a = (True, snd (f s a))" for s a
    using assms by (metis prod.collapse)
  show "pre_visit f t s = fold (\<lambda>a s. snd (f s a)) (preorder t) s"
    by (induction t arbitrary: s) (simp_all, subst f, simp)
  show "in_visit f t s = fold (\<lambda>a s. snd (f s a)) (inorder t) s"
    by (induction t arbitrary: s) (simp_all, subst f, simp)
  show "post_visit f t s = fold (\<lambda>a s. snd (f s a)) (postorder t) s"
    by (induction t arbitrary: s) simp_all
  show "visit_all f as s = fold (\<lambda>a s. snd (f s a)) as s"
    by (induction as arbitrary: s) (simp_all, subst f, simp)
qed

section \<open>Level order by a queue\<close>

fun roots :: "'a tree list \<Rightarrow> 'a list" where
  "roots [] = []"
| "roots (Leaf # ts) = roots ts"
| "roots (Node l a r # ts) = a # roots ts"

fun children :: "'a tree list \<Rightarrow> 'a tree list" where
  "children [] = []"
| "children (Leaf # ts) = children ts"
| "children (Node l a r # ts) = l # r # children ts"

abbreviation forest_size :: "'a tree list \<Rightarrow> nat" where
  "forest_size ts \<equiv> sum_list (map (\<lambda>t. 2 * size t + 1) ts)"

function queue_order :: "'a tree list \<Rightarrow> 'a list" where
  "queue_order [] = []"
| "queue_order (Leaf # ts) = queue_order ts"
| "queue_order (Node l a r # ts) = a # queue_order (ts @ [l, r])"
  by pat_completeness auto
termination
  by (relation "measure forest_size") auto

lemma queue_order_level: "queue_order (ts @ us) = roots ts @ queue_order (us @ children ts)"
proof (induction ts arbitrary: us rule: roots.induct)
  case (3 l a r ts)
  then show ?case using 3 [of "us @ [l, r]"] by simp
qed auto

lemma roots_at_depth: "roots ts = concat (map (at_depth 0) ts)"
  by (induction ts rule: roots.induct) auto

lemma children_at_depth: "concat (map (at_depth d) (children ts)) = concat (map (at_depth (Suc d)) ts)"
  by (induction ts rule: children.induct) auto

lemma height_children: "\<forall>t \<in> set ts. height t \<le> Suc n \<Longrightarrow> \<forall>t \<in> set (children ts). height t \<le> n"
  by (induction ts rule: children.induct) auto

lemma queue_order_depths:
  "\<forall>t \<in> set ts. height t \<le> n \<Longrightarrow>
   queue_order ts = concat (map (\<lambda>d. concat (map (at_depth d) ts)) [0..<n])"
proof (induction n arbitrary: ts)
  case 0
  then show ?case by (induction ts rule: queue_order.induct) auto
next
  case (Suc n)
  have "queue_order ts = roots ts @ queue_order (children ts)"
    using queue_order_level [of ts "[]"] by simp
  also have "\<dots> = concat (map (at_depth 0) ts) @
      concat (map (\<lambda>d. concat (map (at_depth (Suc d)) ts)) [0..<n])"
    using Suc.IH [OF height_children [OF Suc.prems]] by (simp add: roots_at_depth children_at_depth)
  also have "\<dots> = concat (map (\<lambda>d. concat (map (at_depth d) ts)) [0..<Suc n])"
    by (simp only: upt_conv_Cons [OF zero_less_Suc] map_Suc_upt [symmetric] list.map concat.simps
        map_map comp_def)
  finally show ?case .
qed

lemma queue_order_level_order: "queue_order [t] = level_order t"
  using queue_order_depths [of "[t]" "height t"] by (simp add: level_order_def)

text \<open>What the traversal relies on: a first-in first-out queue of bounded length beside which the
  nodes of \<open>h\<close> stay readable.\<close>

locale work_queue =
  fixes put :: "nat \<Rightarrow> 'q \<Rightarrow> 'q option"
    and front :: "'q \<Rightarrow> nat option option"
    and drop_front :: "'q \<Rightarrow> 'q option"
    and read :: "'q \<Rightarrow> nat \<Rightarrow> Dnode option"
    and holds :: "'q \<Rightarrow> nat list \<Rightarrow> bool"
    and bound :: nat
    and h :: heap
  assumes put_law: "holds q qs \<Longrightarrow> length qs < bound \<Longrightarrow> \<exists>q'. put x q = Some q' \<and> holds q' (qs @ [x])"
    and front_law: "holds q qs \<Longrightarrow> front q = Some (case qs of [] \<Rightarrow> None | x # _ \<Rightarrow> Some x)"
    and drop_law: "holds q (x # qs) \<Longrightarrow> \<exists>q'. drop_front q = Some q' \<and> holds q' qs"
    and read_law: "holds q qs \<Longrightarrow> a \<noteq> 0 \<Longrightarrow> h a = Some n \<Longrightarrow> read q a = Some n"
begin

lemma length_forest: "length ts \<le> forest_size ts"
  by (induction ts) auto

lemma level_loop_ok:
  "holds q ps \<Longrightarrow> list_all2 (tree_rep h) ps ts \<Longrightarrow> forest_size ts \<le> bound \<Longrightarrow>
   \<exists>q' qs. level_loop put front drop_front read f q s = Some (q', visit_all f (queue_order ts) s) \<and> holds q' qs"
proof (induction ts arbitrary: q ps s rule: queue_order.induct)
  case 1
  then show ?case
    using front_law by (subst level_loop.simps) auto
next
  case (2 ts)
  then obtain ps' where ps: "ps = 0 # ps'" "list_all2 (tree_rep h) ps' ts"
    by (auto simp: list_all2_Cons2)
  obtain q1 where q1: "drop_front q = Some q1" "holds q1 ps'"
    using drop_law 2(2) ps(1) by blast
  then show ?case
    using 2(1) [OF q1(2) ps(2)] 2(4) front_law [OF 2(2)] ps(1)
    by (subst level_loop.simps) auto
next
  case (3 l a r ts)
  then obtain ps' where ps: "ps = a # ps'" "list_all2 (tree_rep h) ps' ts" "tree_rep h a (Node l a r)"
    by (auto simp: list_all2_Cons2)
  then obtain n where n: "h a = Some n" "tree_rep h (d_left n) l" "tree_rep h (d_next n) r" "a \<noteq> 0"
    by auto
  have len: "length ps' = length ts"
    using ps(2) by (rule list_all2_lengthD)
  have room: "length ps < bound" "length (ps @ [d_left n]) < bound"
    using "3.prems"(3) length_forest [of ts] ps(1) len by auto
  obtain q1 where q1: "put (d_left n) q = Some q1" "holds q1 (ps @ [d_left n])"
    using put_law [OF "3.prems"(1) room(1)] by blast
  obtain q2 where q2: "put (d_next n) q1 = Some q2" "holds q2 ((ps @ [d_left n]) @ [d_next n])"
    using put_law [OF q1(2) room(2)] by blast
  obtain q3 where q3: "drop_front q2 = Some q3" "holds q3 (ps' @ [d_left n, d_next n])"
    using drop_law [of q2 a "ps' @ [d_left n, d_next n]"] q2(2) ps(1) by auto
  have "list_all2 (tree_rep h) (ps' @ [d_left n, d_next n]) (ts @ [l, r])"
    using ps(2) n(2,3) by (simp add: list_all2_appendI)
  from "3.IH" [OF q3(2) this, of "snd (f s a)"] "3.prems"(3)
  obtain q4 qs where q4: "level_loop put front drop_front read f q3 (snd (f s a)) =
      Some (q4, visit_all f (queue_order (ts @ [l, r])) (snd (f s a)))" "holds q4 qs"
    by auto
  have reads: "read q a = Some n" "read q1 a = Some n"
    using read_law "3.prems"(1) q1(2) n(1,4) by blast+
  have front: "front q = Some (Some a)"
    using front_law [OF "3.prems"(1)] ps(1) by simp
  show ?case
  proof (cases "fst (f s a)")
    case True
    then show ?thesis
      using front reads n(4) q1(1) q2(1) q3(1) q4
      by (subst level_loop.simps) (auto simp: Let_def split: prod.split)
  next
    case False
    then show ?thesis
      using front "3.prems"(1) n(4) by (subst level_loop.simps) (auto simp: Let_def split: prod.split)
  qed
qed

end

section \<open>The chain as a work queue\<close>

definition dc_holds :: "zalc \<Rightarrow> nat \<Rightarrow> heap \<Rightarrow> nat list \<Rightarrow> nat \<Rightarrow> chain_state \<Rightarrow> nat list \<Rightarrow> bool" where
  "dc_holds zalc N h0 rel m s qs \<longleftrightarrow>
    room zalc N \<and> finite (dom h0) \<and> card (dom h0) + m \<le> N \<and> m < 2 ^ 64 \<and>
    (\<exists>xs. chain_rep s xs \<and> contents xs = qs \<and> delta h0 [] (dcells (fst s)) xs \<and>
      released (fst s) = rel \<and> same_conf (new_Dchain False) (snd s))"

lemma dc_holds_put:
  assumes "dc_holds zalc N h0 rel m s qs" "length qs < m"
  shows "\<exists>s'. dc_put zalc x s = Some s' \<and> dc_holds zalc N h0 rel m s' (qs @ [x])"
proof -
  obtain w c where s: "s = (w, c)" by (cases s)
  obtain xs where xs: "chain_rep (w, c) xs" "contents xs = qs" "delta h0 [] (dcells w) xs"
    "released w = rel" "same_conf (new_Dchain False) c"
    using assms(1) by (auto simp: dc_holds_def s)
  have len: "length xs = length qs"
    using xs(2) by auto
  have mem: "room zalc N" "finite (dom h0)" "card (dom h0) + m \<le> N" "m < 2 ^ 64"
    using assms(1) by (auto simp: dc_holds_def)
  have "finite (dom (dcells w))" "card (dom (dcells w)) = card (dom h0) + length xs"
    using delta_dom [OF xs(3), of 0 0 0 0] mem(2) xs(1) by (auto simp: chain_rep_def)
  then have "fresh_cell zalc (dcells w) (zalc (dcells w))"
    using mem(1,3) assms(2) len by (auto simp: room_def fresh_cell_def)
  moreover have "been_sorted c" "Compare_f c = None"
    using xs(5) by (auto simp: same_conf_def new_Dchain_def)
  ultimately obtain s' where s': "Dchain_Append zalc x False 0 (w, c) = Some (zalc (dcells w), s')"
    "step_ok (w, c) xs s' (xs @ [new_node (zalc (dcells w)) x c]) []"
    using Append_ok [OF xs(1), of zalc "zalc (dcells w)" x False] mem(4) assms(2) len
    by (auto simp: put_node_def)
  have "dc_holds zalc N h0 rel m s' (qs @ [x])"
    unfolding dc_holds_def
    using s'(2) xs(2,4,5) delta_trans [OF xs(3)] mem
    by (intro conjI exI [of _ "xs @ [new_node (zalc (dcells w)) x c]"])
      (auto simp: step_ok_def same_conf_def fresh_item_def)
  then show ?thesis
    using s'(1) by (simp add: dc_put_def s)
qed

lemma dc_holds_front:
  assumes "dc_holds zalc N h0 rel m s qs"
  shows "dc_front s = Some (case qs of [] \<Rightarrow> None | x # _ \<Rightarrow> Some x)"
proof -
  obtain w c where s: "s = (w, c)" by (cases s)
  obtain xs where xs: "chain_rep (w, c) xs" "contents xs = qs"
    using assms by (auto simp: dc_holds_def s)
  then show ?thesis
    by (cases xs) (auto simp: dc_front_def s chain_rep_def node_at_def)
qed

lemma dc_holds_drop:
  assumes "dc_holds zalc N h0 rel m s (q # qs)"
  shows "\<exists>s'. dc_drop s = Some s' \<and> dc_holds zalc N h0 rel m s' qs"
proof -
  obtain w c where s: "s = (w, c)" by (cases s)
  obtain xs where xs: "chain_rep (w, c) xs" "contents xs = q # qs" "delta h0 [] (dcells w) xs"
    "released w = rel" "same_conf (new_Dchain False) c"
    and mem: "room zalc N" "finite (dom h0)" "card (dom h0) + m \<le> N" "m < 2 ^ 64"
    using assms by (auto simp: dc_holds_def s)
  then obtain x ys where x: "xs = x # ys" "contents ys = qs"
    by (cases xs) auto
  have root: "root_node c = fst x"
    using xs(1) x(1) by (simp add: chain_rep_def)
  obtain s' where s': "Dchain_Remove_node (fst x) (w, c) = Some (first ys 0, s')"
    "step_ok (w, c) xs s' ys (dropped c [x])"
    using Remove_node_ok [OF xs(1), of "fst x"] by (auto simp: x without_def)
  have "dc_holds zalc N h0 rel m s' qs"
    unfolding dc_holds_def
    using s'(2) xs(4,5) x delta_trans [OF xs(3)] mem
    by (intro conjI exI [of _ ys]) (auto simp: step_ok_def same_conf_def dropped_def new_Dchain_def)
  then show ?thesis
    using s'(1) root by (simp add: dc_drop_def s)
qed

lemma dc_holds_read:
  assumes "dc_holds zalc N h0 rel m s qs" "a \<noteq> 0" "h0 a = Some n"
  shows "dc_read s a = Some n"
proof -
  obtain xs where "delta h0 [] (dcells (fst s)) xs"
    using assms(1) by (auto simp: dc_holds_def)
  then have "dcells (fst s) a = h0 a"
    using assms(3) unfolding delta_def by (metis empty_iff empty_set image_empty option.distinct(1))
  then show ?thesis
    using assms by (simp add: dc_read_def node_at_def)
qed

interpretation dchain_queue: work_queue "dc_put zalc" dc_front dc_drop dc_read "dc_holds zalc N h0 rel m" m h0
  for zalc N h0 rel m
proof (unfold_locales, goal_cases)
  case 1
  then show ?case by (rule dc_holds_put)
next
  case 2
  then show ?case by (rule dc_holds_front)
next
  case 3
  then show ?case by (rule dc_holds_drop)
next
  case 4
  then show ?case by (rule dc_holds_read)
qed

lemma TraversalLevelorder_ok:
  assumes t: "tree_rep (dcells w) p t"
    and mem: "room zalc N" "finite (dom (dcells w))" "card (dom (dcells w)) + (2 * size t + 1) \<le> N"
      "2 * size t + 1 < (2 :: nat) ^ 64"
  shows "TraversalLevelorder zalc (Some f) p w s = Some (w, visit_all f (level_order t) s)"
proof (cases "p = 0")
  case True
  then show ?thesis
    using tree_rep_zero [OF t] by (simp add: TraversalLevelorder_def level_order_def)
next
  case False
  let ?holds = "dc_holds zalc N (dcells w) (released w) (2 * size t + 1)"
  have "?holds (w, new_Dchain False) []"
    unfolding dc_holds_def using mem
    by (intro conjI exI [of _ "[]"]) (auto simp: chain_rep_def new_Dchain_def same_conf_def)
  then obtain q where q: "dc_put zalc p (w, new_Dchain False) = Some q" "?holds q [p]"
    using dc_holds_put [of zalc N "dcells w" "released w" "2 * size t + 1" "(w, new_Dchain False)" "[]" p] by auto
  obtain q' qs where loop: "level_loop (dc_put zalc) dc_front dc_drop dc_read f q s =
      Some (q', visit_all f (queue_order [t]) s)" "?holds q' qs"
    using dchain_queue.level_loop_ok [OF q(2), of "[t]" f s] t by auto
  obtain w1 c1 xs where q': "q' = (w1, c1)" "chain_rep (w1, c1) xs" "delta (dcells w) [] (dcells w1) xs"
    "released w1 = released w" "func_free c1 = False"
    using loop(2) by (cases q') (auto simp: dc_holds_def same_conf_def new_Dchain_def)
  obtain w2 where "delete_Dchain (w1, c1) = Some w2" "delta (dcells w1) xs (dcells w2) []"
    "released w2 = released w1 @ dropped c1 xs"
    using delete_ok [OF q'(2)] by blast
  moreover from this have "w2 = w"
    using delta_empty [OF delta_trans [OF q'(3)]] q'(4,5) by (simp add: dropped_def)
  ultimately show ?thesis
    using False q(1) loop(1) q'(1) by (simp add: TraversalLevelorder_def queue_order_level_order)
qed

text \<open>
  C36. Traversal of a node tree. Each order calls the visitor on the nodes in that order and leaves
  memory as it was, the queue of the level order included. In preorder, inorder and postorder a
  visitor that answers false prunes at that node only; in level order it ends the traversal. A visitor
  that always answers true sees every node exactly once.
\<close>
theorem bnode_traversal:
  assumes "tree_rep (dcells w) p t" "room zalc N" "finite (dom (dcells w))"
    and "card (dom (dcells w)) + (2 * size t + 1) \<le> N" "2 * size t + 1 < (2 :: nat) ^ 64"
  shows "Traversal zalc order (Some f) p w s = Some (w, case order of
        Preorder \<Rightarrow> pre_visit f t s
      | Inorder \<Rightarrow> in_visit f t s
      | Postorder \<Rightarrow> post_visit f t s
      | Levelorder \<Rightarrow> visit_all f (level_order t) s) \<and>
    ((\<forall>s a. fst (f s a)) \<longrightarrow>
      Traversal zalc order (Some f) p w s = Some (w, fold (\<lambda>a s. snd (f s a)) (case order of
        Preorder \<Rightarrow> preorder t | Inorder \<Rightarrow> inorder t | Postorder \<Rightarrow> postorder t
      | Levelorder \<Rightarrow> level_order t) s))"
proof -
  have f: "call_visitor (Some f) = f"
    by (simp add: call_visitor_def fun_eq_iff)
  have leaf: "p = 0 \<longleftrightarrow> t = Leaf"
    by (rule tree_rep_zero [OF assms(1)])
  have run: "Traversal zalc order (Some f) p w s = Some (w, case order of
        Preorder \<Rightarrow> pre_visit f t s | Inorder \<Rightarrow> in_visit f t s | Postorder \<Rightarrow> post_visit f t s
      | Levelorder \<Rightarrow> visit_all f (level_order t) s)"
    using TraversalLevelorder_ok [OF assms, of f s] traverse_ok [OF assms(1), of order "Some f" s] leaf
    by (cases order) (auto simp: Traversal_def f level_order_def)
  then show ?thesis
    using visits_all [of f] by (cases order) simp_all
qed

definition sample_tree :: heap where
  "sample_tree = [1 \<mapsto> \<lparr>d_next = 3, d_offs = 10, d_left = 2, d_type = 0, d_extn = []\<rparr>,
     2 \<mapsto> \<lparr>d_next = 0, d_offs = 20, d_left = 4, d_type = 0, d_extn = []\<rparr>,
     3 \<mapsto> \<lparr>d_next = 0, d_offs = 30, d_left = 0, d_type = 0, d_extn = []\<rparr>,
     4 \<mapsto> \<lparr>d_next = 0, d_offs = 40, d_left = 0, d_type = 0, d_extn = []\<rparr>]"

abbreviation sample_shape :: "nat tree" where
  "sample_shape \<equiv> Node (Node (Node Leaf 4 Leaf) 2 Leaf) 1 (Node Leaf 3 Leaf)"

lemma sample_tree_rep: "tree_rep sample_tree 1 sample_shape"
  by (simp add: sample_tree_def NonePtr_def)

theorem bnode_traversal_witness:
  "Traversal (slot_alloc 13) Levelorder (Some (\<lambda>s a. (True, s @ [a]))) 1 \<lparr>dcells = sample_tree, released = []\<rparr> [] =
    Some (\<lparr>dcells = sample_tree, released = []\<rparr>, [1, 2, 3, 4])"
proof -
  have "finite (dom sample_tree)" "card (dom sample_tree) = 4"
    by (simp_all add: sample_tree_def)
  moreover have "level_order sample_shape = [1, 2, 3, 4]"
    by (simp add: level_order_def upt_conv_Cons eval_nat_numeral)
  ultimately show ?thesis
    using bnode_traversal [of "\<lparr>dcells = sample_tree, released = []\<rparr>" 1 sample_shape "slot_alloc 13" 13
        Levelorder "\<lambda>s a. (True, s @ [a])" "[]"] sample_tree_rep slot_alloc_room
    by simp
qed

section \<open>Changes\<close>

definition same_content :: "Dnode \<Rightarrow> Dnode \<Rightarrow> bool" where
  "same_content n m \<longleftrightarrow> d_offs m = d_offs n \<and> d_type m = d_type n \<and> d_extn m = d_extn n"

lemma tree_rep_frame:
  "tree_rep h p t \<Longrightarrow> \<forall>b. b \<notin> S \<longrightarrow> h' b = h b \<Longrightarrow> set_tree t \<inter> S = {} \<Longrightarrow> tree_rep h' p t"
  by (erule tree_rep_cong) auto

lemma set_tree_mirror [simp]: "set_tree (mirror t) = set_tree t"
  by (induction t) auto

text \<open>The addresses of a tree do not repeat.\<close>

fun unshared :: "'a tree \<Rightarrow> bool" where
  "unshared Leaf = True"
| "unshared (Node l a r) =
    (unshared l \<and> unshared r \<and> a \<notin> set_tree l \<and> a \<notin> set_tree r \<and> set_tree l \<inter> set_tree r = {})"

lemma Mirror_ok:
  "tree_rep h p t \<Longrightarrow> unshared t \<Longrightarrow>
   \<exists>h'. Mirror root p h = Some h' \<and> tree_rep h' p (mirror t) \<and> (\<forall>b. b \<notin> set_tree t \<longrightarrow> h' b = h b) \<and>
     (\<forall>b \<in> set_tree t. same_content (the (h b)) (the (h' b)))"
proof (induction t arbitrary: p h)
  case Leaf
  then show ?case by (subst Mirror.simps) simp
next
  case (Node l a r)
  then obtain n where n: "h a = Some n" "tree_rep h (d_left n) l" "tree_rep h (d_next n) r" "p = a"
    "a \<noteq> 0" "a \<noteq> NonePtr"
    by auto
  have ap: "unshared l" "unshared r" "a \<notin> set_tree l" "a \<notin> set_tree r" "set_tree l \<inter> set_tree r = {}"
    using Node.prems(2) by auto
  obtain h1 where h1: "Mirror root (d_left n) h = Some h1" "tree_rep h1 (d_left n) (mirror l)"
    "\<forall>b. b \<notin> set_tree l \<longrightarrow> h1 b = h b" "\<forall>b \<in> set_tree l. same_content (the (h b)) (the (h1 b))"
    using Node.IH(1) [OF n(2) ap(1)] by blast
  have r1: "tree_rep h1 (d_next n) r" and a1: "h1 a = Some n"
    using tree_rep_frame [OF n(3) h1(3)] ap h1(3) n(1) by auto
  obtain h2 where h2: "Mirror root (d_next n) h1 = Some h2" "tree_rep h2 (d_next n) (mirror r)"
    "\<forall>b. b \<notin> set_tree r \<longrightarrow> h2 b = h1 b" "\<forall>b \<in> set_tree r. same_content (the (h1 b)) (the (h2 b))"
    using Node.IH(2) [OF r1 ap(2)] by blast
  have l2: "tree_rep h2 (d_left n) (mirror l)" and a2: "h2 a = Some n"
    using tree_rep_frame [OF h1(2) h2(3)] ap h2(3) a1 by auto
  let ?h = "h2(a \<mapsto> n\<lparr>d_left := d_next n, d_next := d_left n\<rparr>)"
  have "\<forall>b. b \<notin> {a} \<longrightarrow> ?h b = h2 b"
    by simp
  then have "tree_rep ?h (d_left n) (mirror l)" "tree_rep ?h (d_next n) (mirror r)"
    using tree_rep_frame [OF l2, of "{a}"] tree_rep_frame [OF h2(2), of "{a}"] ap by auto
  then have "tree_rep ?h p (mirror (Node l a r))"
    using n by simp
  moreover have "Mirror root p h = Some ?h"
    using n h1(1) a1 h2(1) a2 by (subst Mirror.simps) (simp add: start_at_def node_at_def assign_Some)
  moreover have "same_content (the (h b)) (the (?h b))" if "b \<in> set_tree (Node l a r)" for b
    using that h1(3,4) h2(3,4) ap n(1) by (auto simp: same_content_def)
  moreover have "?h b = h b" if "b \<notin> set_tree (Node l a r)" for b
    using that h1(3) h2(3) by auto
  ultimately show ?case
    by blast
qed

abbreviation offs_of :: "heap \<Rightarrow> nat list \<Rightarrow> nat list" where
  "offs_of h as \<equiv> map (\<lambda>a. d_offs (the (h a))) as"

lemma Bnode_Remove_ok:
  "tree_rep (dcells w) p t \<Longrightarrow> unshared t \<Longrightarrow> root \<notin> set_tree t \<Longrightarrow>
   \<exists>w'. Bnode_Remove root am p (w, av) = Some (w', av) \<and>
     (\<forall>b. dcells w' b = (if b \<in> set_tree t then None else dcells w b)) \<and>
     released w' = released w @ (if am then [] else offs_of (dcells w) (postorder t))"
proof (induction t arbitrary: p w)
  case Leaf
  then show ?case by (subst Bnode_Remove.simps) simp
next
  case (Node l a r)
  then obtain n where n: "dcells w a = Some n" "tree_rep (dcells w) (d_left n) l"
    "tree_rep (dcells w) (d_next n) r" "p = a" "a \<noteq> 0" "a \<noteq> NonePtr"
    by auto
  have ap: "unshared l" "unshared r" "a \<notin> set_tree l" "a \<notin> set_tree r" "set_tree l \<inter> set_tree r = {}"
    and root: "root \<notin> set_tree l" "root \<notin> set_tree r" "root \<noteq> a"
    using Node.prems(2,3) by auto
  obtain w1 where w1: "Bnode_Remove root am (d_left n) (w, av) = Some (w1, av)"
    "\<forall>b. dcells w1 b = (if b \<in> set_tree l then None else dcells w b)"
    "released w1 = released w @ (if am then [] else offs_of (dcells w) (postorder l))"
    using Node.IH(1) [OF n(2) ap(1) root(1)] by blast
  have r1: "tree_rep (dcells w1) (d_next n) r"
    using tree_rep_frame [OF n(3), of "set_tree l" "dcells w1"] w1(2) ap(5) by auto
  obtain w2 where w2: "Bnode_Remove root am (d_next n) (w1, av) = Some (w2, av)"
    "\<forall>b. dcells w2 b = (if b \<in> set_tree r then None else dcells w1 b)"
    "released w2 = released w1 @ (if am then [] else offs_of (dcells w1) (postorder r))"
    using Node.IH(2) [OF r1 ap(2) root(2)] by blast
  have a: "dcells w1 a = Some n" "dcells w2 a = Some n"
    using w1(2) w2(2) ap n(1) by auto
  have "offs_of (dcells w1) (postorder r) = offs_of (dcells w) (postorder r)"
    using w1(2) ap(5) by auto
  then have "released w2 @ (if am then [] else [d_offs n]) =
      released w @ (if am then [] else offs_of (dcells w) (postorder (Node l a r)))"
    using w1(3) w2(3) n(1) by simp
  then show ?case
    using n w1(1,2) w2(1,2) a root(3) ap
    by (subst Bnode_Remove.simps) (auto simp: start_at_def node_at_def assign_Some Let_def)
qed

text \<open>
  C37. The operations of a binary tree of nodes, from its root. \<open>Leaves\<close>, \<open>Depth\<close>, \<open>Count\<close>, \<open>isProper\<close>
  and \<open>isFull\<close> compute the number of leaves, the height, the size, whether each node has no or two
  children, and whether the tree is complete; \<open>Mirror\<close> mirrors the tree in place and keeps all contents;
  \<open>Remove\<close> gives back every node but the root, with all contents in postorder, and touches no other
  cell.
\<close>
theorem bnode_operations:
  assumes t: "tree_rep (dcells w) p (Node l p r)" and ap: "unshared (Node l p r)"
    and small: "size (Node l p r) < 2 ^ 64"
  shows "Leaves (dcells w) p NonePtr = Some (of_nat (leaf_count (Node l p r))) \<and>
    Depth (dcells w) p NonePtr = Some (of_nat (height (Node l p r))) \<and>
    Bnode_Count (dcells w) p NonePtr = Some (of_nat (size (Node l p r))) \<and>
    isProper (dcells w) p NonePtr = Some (proper (Node l p r)) \<and>
    (height (Node l p r) < 64 \<longrightarrow> isFull (dcells w) p = Some (complete (Node l p r))) \<and>
    (\<exists>h'. Mirror p p (dcells w) = Some h' \<and> tree_rep h' p (mirror (Node l p r)) \<and>
      (\<forall>b. b \<notin> set_tree (Node l p r) \<longrightarrow> h' b = dcells w b) \<and>
      (\<forall>b \<in> set_tree (Node l p r). same_content (the (dcells w b)) (the (h' b)))) \<and>
    (\<exists>w'. Bnode_Remove p am p (w, True) = Some (w', False) \<and> tree_rep (dcells w') p (Node Leaf p Leaf) \<and>
      (\<forall>b. b \<noteq> p \<longrightarrow> dcells w' b = (if b \<in> set_tree l \<union> set_tree r then None else dcells w b)) \<and>
      released w' = released w @ (if am then [] else offs_of (dcells w) (postorder (Node l p r))))"
proof (intro conjI)
  have p: "p \<noteq> 0" "p \<noteq> NonePtr"
    using t by auto
  show "Leaves (dcells w) p NonePtr = Some (of_nat (leaf_count (Node l p r)))"
    "Depth (dcells w) p NonePtr = Some (of_nat (height (Node l p r)))"
    "Bnode_Count (dcells w) p NonePtr = Some (of_nat (size (Node l p r)))"
    "isProper (dcells w) p NonePtr = Some (proper (Node l p r))"
    unfolding start_None [OF p]
    using Leaves_ok [OF t] Depth_ok [OF t small] Count_ok [OF t] isProper_ok [OF t] by blast+
  show "height (Node l p r) < 64 \<longrightarrow> isFull (dcells w) p = Some (complete (Node l p r))"
    using isFull_ok [OF t _ small] by blast
  show "\<exists>h'. Mirror p p (dcells w) = Some h' \<and> tree_rep h' p (mirror (Node l p r)) \<and>
      (\<forall>b. b \<notin> set_tree (Node l p r) \<longrightarrow> h' b = dcells w b) \<and>
      (\<forall>b \<in> set_tree (Node l p r). same_content (the (dcells w b)) (the (h' b)))"
    by (rule Mirror_ok [OF t ap])
  obtain n where n: "dcells w p = Some n" "tree_rep (dcells w) (d_left n) l" "tree_rep (dcells w) (d_next n) r"
    using t by auto
  have d: "unshared l" "unshared r" "p \<notin> set_tree l" "p \<notin> set_tree r" "set_tree l \<inter> set_tree r = {}"
    using ap by auto
  obtain w1 where w1: "Bnode_Remove p am (d_left n) (w, True) = Some (w1, True)"
    "\<forall>b. dcells w1 b = (if b \<in> set_tree l then None else dcells w b)"
    "released w1 = released w @ (if am then [] else offs_of (dcells w) (postorder l))"
    using Bnode_Remove_ok [OF n(2) d(1,3)] by blast
  have r1: "tree_rep (dcells w1) (d_next n) r"
    using tree_rep_frame [OF n(3), of "set_tree l" "dcells w1"] w1(2) d(5) by auto
  obtain w2 where w2: "Bnode_Remove p am (d_next n) (w1, True) = Some (w2, True)"
    "\<forall>b. dcells w2 b = (if b \<in> set_tree r then None else dcells w1 b)"
    "released w2 = released w1 @ (if am then [] else offs_of (dcells w1) (postorder r))"
    using Bnode_Remove_ok [OF r1 d(2,4)] by blast
  have a: "dcells w1 p = Some n" "dcells w2 p = Some n"
    using w1(2) w2(2) d n(1) by auto
  have "offs_of (dcells w1) (postorder r) = offs_of (dcells w) (postorder r)"
    using w1(2) d(5) by auto
  then have rel: "released w2 @ (if am then [] else [d_offs n]) =
      released w @ (if am then [] else offs_of (dcells w) (postorder (Node l p r)))"
    using w1(3) w2(3) n(1) by simp
  show "\<exists>w'. Bnode_Remove p am p (w, True) = Some (w', False) \<and> tree_rep (dcells w') p (Node Leaf p Leaf) \<and>
      (\<forall>b. b \<noteq> p \<longrightarrow> dcells w' b = (if b \<in> set_tree l \<union> set_tree r then None else dcells w b)) \<and>
      released w' = released w @ (if am then [] else offs_of (dcells w) (postorder (Node l p r)))"
    using p n(1) w1(1,2) w2(1,2) a rel
    by (subst Bnode_Remove.simps) (auto simp: start_at_def node_at_def assign_Some Let_def)
qed

theorem bnode_operations_witness:
  "Leaves sample_tree 1 NonePtr = Some 2 \<and> Depth sample_tree 1 NonePtr = Some 3 \<and>
   Bnode_Count sample_tree 1 NonePtr = Some 4 \<and> isFull sample_tree 1 = Some False \<and>
   (\<exists>w. Bnode_Remove 1 False 1 (\<lparr>dcells = sample_tree, released = []\<rparr>, True) = Some (w, False) \<and>
     released w = [40, 20, 30, 10])"
proof -
  have r: "offs_of sample_tree [4, 2, 3, 1] = [40, 20, 30, 10]"
    by (simp add: sample_tree_def)
  show ?thesis
    using bnode_operations [of "\<lparr>dcells = sample_tree, released = []\<rparr>" 1 "Node (Node Leaf 4 Leaf) 2 Leaf"
        "Node Leaf 3 Leaf" False] sample_tree_rep r
    by auto
qed

end
