(* ===== verification/Spec2Isabelle.thy ===== *)
theory Spec2Isabelle
  imports JSONText INIText TOMLText XMLText SortCorrect PartTable Request TCP MempoolCorrect Bitmap Unicode HTTP DHCP DNS DchainSort BnodeCorrect
begin

text \<open>
  Verification of the UNISYM library: configuration texts, sorting, block storage, memory managers,
  the network stack, character sets, linked chains and trees.

  \<^bold>\<open>The program.\<close> UNISYM is a freestanding C and C++ library for operating systems, firmware and
  hosted tools. Its core logic is in the parts below. A host object (a kernel or a driver) calls
  them with memory it owns; they report failure by return values and keep no global state beside
  the objects they are called on. The parts meet in five places: the configuration formats share
  the interface \<open>trait::ConfigText\<close> and the C string routines; partitions, partition tables and
  storage requests sit on the block interface \<open>trait::StorageTrait\<close>; the memory allocator keeps its
  free memory in two free lists and grows from another allocator; UDP, TCP and DHCP build and check
  their packets with the network layer, which uses the link layer; the level-order
  traversal of a tree keeps its pending nodes in a linked chain.

  \<^bold>\<open>Shared theories.\<close>
  \<^item> \<open>Prelude\<close>: the machine integers of the 64-bit build (\<open>stduint\<close> as \<open>64 word\<close> or as a natural
    number with \<open>u64\<close>, reduction modulo \<open>2 ^ 64\<close>, written where it may wrap around), memory areas
    as byte lists and \<open>patch\<close>, scans of lists.
  \<^item> \<open>CString\<close>: character classes, \<open>StrCompare\<close>, and \<open>atoins\<close> with the table of decimal digits of
    \<open>src/lib/c/ustring\<close> and \<open>src/inc/c/ustring.h\<close>; \<open>atoins\<close> reads decimal numerals modulo \<open>2 ^ 64\<close>.

  \<^bold>\<open>Configuration texts\<close> (\<open>src/lib/cpp/Format/ConfigText\<close>, \<open>src/inc/cpp/trait/ConfigText.hpp\<close>).
  \<open>ConfigText\<close> holds the splitting of names into segments (128 byte buffers, dropped surplus
  included) and three interfaces: \<open>config_tree\<close> (finding and updating a child), \<open>section_tree\<close>
  (trees with values only at leaves) and \<open>config_text\<close> (set, get, getNumber), whose lemmas give
  last-write-wins for every sequence of writes. \<open>ConfigJSON\<close>, \<open>ConfigINI\<close>, \<open>ConfigTOML\<close> and
  \<open>ConfigXML\<close> translate the four classes function by function (nodes as datatypes, the parser's
  pointer as the rest of the text, failure as \<open>None\<close>) and interpret the interfaces. \<open>JSONText\<close>,
  \<open>INIText\<close>, \<open>TOMLText\<close> and \<open>XMLText\<close> state the grammars independently of the parsers and show
  that every text of the grammar is accepted with its meaning (C1 to C4). The grammars are of what the
  parsers support: JSON has no fractions, exponents or hexadecimal escapes, and names and values are within the
  sizes of the buffers. The mutually recursive
  parsers terminate because each call leaves a shorter rest. What holds of all four formats is stated
  at the end of this theory: what a read returns after writes, that all reachable trees are well
  formed, and what becomes of malformed files (C38 to C40).

  \<^bold>\<open>Sorting\<close> (\<open>src/lib/cpp/sort.cpp\<close>, \<open>src/inc/cpp/vector\<close>). \<open>Sort\<close> translates the six algorithms
  and their dispatcher over the array interface, an access outside the array being \<open>None\<close>; the
  inner loop of quick sort is a \<open>partial_function\<close>, so that its termination is part of the
  theorem. \<open>SortCorrect\<close> shows which of them sort, that merge sort is stable, and where insertion
  and heap sort fail (C5 to C7).

  \<^bold>\<open>Block storage.\<close> \<open>Block\<close> (\<open>src/inc/cpp/trait/BlockTrait.hpp\<close>, \<open>StorageTrait.hpp\<close>,
  \<open>src/lib/cpp/Device/Storage.cpp\<close>): byte reads and writes over any block device, the device in
  memory and partitions. The locale \<open>block_device\<close> states what a device promises; byte access is
  proved once in it. \<open>partition_view\<close> extends it, and a partition is again a \<open>block_device\<close> (C8 to
  C10). \<open>Request\<close> (the asynchronous requests of \<open>StorageTrait.hpp\<close> and \<open>Storage.cpp\<close>): requests in
  a store, queues of handles, callbacks recorded in order; \<open>host_step\<close> has one rule per operation,
  and the invariant holds in every state \<open>host_reach\<close> reaches (C11 to C13). \<open>PartTable\<close>
  (\<open>Storage.cpp\<close>, \<open>Storage-GPT.cpp\<close>): boot records with their chain of extended partitions, GUID
  partition tables with CRC-32, primary and backup (C14 and C15). The chain of boot records is
  followed for as many steps as the source has slots for logical partitions.

  \<^bold>\<open>Memory.\<close> \<open>Pool\<close> translates \<open>SinglePool\<close> (\<open>src/lib/cpp/Datype/mempool.cpp\<close>, \<open>src/inc/c/mempool.h\<close>):
  the chain of pools is a list, a pointer to a slice is a pair of indices, and \<open>Insert\<close>, \<open>Remove\<close>
  and \<open>PrepareNextPool\<close>, which call each other, are functions of a depth; the depth \<open>pool_depth\<close> is
  enough because a chain that has just grown has room (C18). \<open>PoolArray\<close> shows that the chain
  implements one list of slices, \<open>PoolCorrect\<close> that the list stays ordered and apart and what each
  operation does to the set of free bytes (C16, C17); its locale \<open>free_list\<close> states the trade with a
  user. \<open>Mempool\<close> translates the allocator over a memory of bytes: headers and the page table are read
  and written in it. The default allocator behind it has a state that the model does not see: \<open>Host\<close> gives its answer
  to each request by the number of the request, so that no two answers are related. \<open>MempoolCorrect\<close> says
  which memory a call gets from it (\<open>growth\<close>), shows that blocks are taken from free memory and that memory only and
  that a request that can be served is served, and follows clients that allocate, write and give back over an
  allocator that grows (\<open>heap_run\<close>): live blocks are apart and never free (C19 to C21). The theorems are about blocks with a
  header; page allocations are modelled and excluded there. \<open>Bitmap\<close> is the map of
  pages of \<open>bmmemoman.cpp\<close> and \<open>bitmap.h\<close> (C22).

  \<^bold>\<open>Network\<close> (\<open>src/inc/cpp/System/Network\<close>, \<open>src/lib/cpp/System/Network\<close>). \<open>NetIP\<close>: Ethernet, ARP,
  IPv4, the Internet checksum and ICMP echo; \<open>UDP\<close>: datagrams and the socket object; \<open>TCP\<close>: segments,
  the connection state machine and the ring of pending connections, which implements the locale
  \<open>bounded_queue\<close>. The round trips (C23 to C25) build a frame and parse it back; C26 follows any
  sequence of segments with 32-bit sequence numbers; C27 is the refinement of the ring. The
  application layer is in \<open>DHCP\<close> (messages, options and the client object, C28 and C29), \<open>DNS\<close> (results
  of name resolution as bounded lists without repetitions, the locale \<open>address_store\<close>, C30) and \<open>HTTP\<close>
  (requests and responses, C31).

  \<^bold>\<open>Character sets.\<close> \<open>Unicode\<close> (\<open>src/lib/cpp/Datype/Charset/Unicode.cpp\<close>): the conversion from UTF-8 and
  the scanners, against an encoder that is stated independently of them (C32).

  \<^bold>\<open>Linked chains and trees.\<close> \<open>Dchain\<close> translates the doubly linked chain (\<open>src/lib/cpp/Datype/dnode.cpp\<close>
  and \<open>dnode/\<close>, \<open>src/lib/c/dnode\<close>, \<open>src/inc/c/dnode.h\<close>) over an explicit heap: a map from addresses to
  nodes, the list of contents given back, and the allocator \<open>zalc\<close> as a parameter. An access to a cell
  that is not allocated is \<open>None\<close>, and the loops over links are \<open>partial_function\<close>s, so every theorem
  that gives \<open>Some\<close> says that nothing dangles and that the loop ends. \<open>DchainCorrect\<close> relates the heap
  to a list of addresses and shows what each operation does to it; \<open>DchainSpec\<close> states the contract as
  operations on a list of contents (\<open>effects\<close>) and the refinement from the constructor to the
  destructor (C33) and shows what happens outside of it (C35); \<open>DchainSort\<close> is insertion sort (C34).
  \<open>Bnode\<close> translates the trees of \<open>src/inc/cpp/bnode\<close> and \<open>bnode.cpp\<close> over the same heap, and \<open>BnodeCorrect\<close>
  compares them with the trees of the library (C36, C37); the locale \<open>work_queue\<close> is what the
  level-order traversal asks of its queue, and the chain is an instance of it. The hypothesis
  \<open>room zalc N\<close> says that memory holds \<open>N\<close> cells; \<open>slot_alloc\<close> is a concrete allocator for which it holds.

  \<^bold>\<open>Parameters.\<close> Comparison functions, the visitor of a traversal, the allocator of nodes, the next layer below a socket, the allocator behind a memory
  pool, and the growth of a vector (which may fail for lack of memory) are arguments of the
  definitions; each property that assumes something of them has a witness with a concrete function.

  \<^bold>\<open>Not modelled.\<close> Output and logging; device drivers, whose behaviour is that of memory-mapped
  registers; hardware page tables; the assembler, which is driven by generated tables; media codecs;
  windows. The singly linked chain and the general tree, strings, the file systems on top of block
  devices, the image formats and the compiler are program logic that is not translated yet.
\<close>

section \<open>Properties of all configuration formats\<close>

text \<open>
  C38. The last assignment wins, in all four formats: after any sequence of \<open>set\<close> calls, \<open>get\<close> returns
  the value last written to a name (of at least one segment) and \<open>getNumber\<close> its conversion, whatever was written before, as
  long as the names written after it lie neither above nor below it in the tree. In XML, names with
  and without the root tag denote the same node.
\<close>

theorem config_last_write_wins:
  "(name_segments json_sep name \<noteq> [] \<and>
     (\<forall>(n, v) \<in> set later. unrelated (name_segments json_sep n) (name_segments json_sep name)) \<longrightarrow>
     (let c' = set_all (\<lambda>c n v. json_set c (Some n) (Some v)) cj (earlier @ (name, val) # later) in
       json_get c' (Some name) = cstr_of val \<and> json_getNumber c' (Some name) = atoins val)) \<and>
   (name_segments ini_sep name \<noteq> [] \<and>
     (\<forall>(n, v) \<in> set later. unrelated (name_segments ini_sep n) (name_segments ini_sep name)) \<longrightarrow>
     (let c' = set_all (\<lambda>c n v. ini_set c (Some n) (Some v)) ci (earlier @ (name, val) # later) in
       ini_get c' (Some name) = cstr_of val \<and> ini_getNumber c' (Some name) = atoins val)) \<and>
   (name_segments toml_sep name \<noteq> [] \<and>
     (\<forall>(n, v) \<in> set later. unrelated (name_segments toml_sep n) (name_segments toml_sep name)) \<longrightarrow>
     (let c' = set_all (\<lambda>c n v. toml_set c (Some n) (Some v)) ct (earlier @ (name, val) # later) in
       toml_get c' (Some name) = cstr_of val \<and> toml_getNumber c' (Some name) = atoins val)) \<and>
   (xml_segs cx name \<noteq> [] \<and> xml_segs cx q = xml_segs cx name \<and>
     (\<forall>(n, v) \<in> set later. unrelated (xml_segs cx n) (xml_segs cx name)) \<longrightarrow>
     (let c' = set_all (\<lambda>c n v. xml_set c (Some n) (Some v)) cx (earlier @ (name, val) # later) in
       xml_get c' (Some q) = cstr_of val \<and> xml_getNumber c' (Some q) = atoins val))"
  using json_last_write_wins [of name later cj earlier val] ini_last_write_wins [of name later ci earlier val]
    toml_last_write_wins [of name later ct earlier val] xml_last_write_wins [of cx name q later earlier val]
  by blast

theorem config_last_write_wins_witness:
  "json_get (set_all (\<lambda>c n v. json_set c (Some n) (Some v)) (new_ConfigJSON None)
      ([(''/net'', ''x'')] @ (''net/mtu'', ''1500'') # [(''net/dev'', ''eth0'')])) (Some ''net/mtu'') = ''1500'' \<and>
   xml_get (set_all (\<lambda>c n v. xml_set c (Some n) (Some v)) (new_ConfigXML None)
      ([(''net'', ''x'')] @ (''root/net/mtu'', ''1500'') # [(''net/dev'', ''eth0'')])) (Some ''net/mtu'') = ''1500''"
proof -
  have "name_segments json_sep ''net/mtu'' \<noteq> []"
    "\<forall>(n, v) \<in> set [(''net/dev'', ''eth0'')]. unrelated (name_segments json_sep n) (name_segments json_sep ''net/mtu'')"
    by (simp_all add: name_segments_def segments.simps segment_def after_segment_def seg_limit_def json_sep_def cstr_of_def)
  moreover have "xml_segs (new_ConfigXML None) ''root/net/mtu'' \<noteq> []"
    "xml_segs (new_ConfigXML None) ''net/mtu'' = xml_segs (new_ConfigXML None) ''root/net/mtu''"
    "\<forall>(n, v) \<in> set [(''net/dev'', ''eth0'')]. unrelated (xml_segs (new_ConfigXML None) n) (xml_segs (new_ConfigXML None) ''root/net/mtu'')"
    by (simp_all add: xml_segs_def xml_tree_of_def xml_strip_root_def new_ConfigXML_def parse_xml_def new_XMLNode_def
        skip_xml_prolog_or_comment.simps StrCompare_eq_0
        segments.simps segment_def after_segment_def seg_limit_def xml_sep_def cstr_of_def)
  moreover have "cstr_of ''1500'' = ''1500''" by (simp add: cstr_of_def)
  ultimately show ?thesis
    using config_last_write_wins [of "''net/mtu''" "[(''net/dev'', ''eth0'')]" "new_ConfigJSON None" "[(''/net'', ''x'')]" "''1500''"]
      config_last_write_wins [of "''root/net/mtu''" "[(''net/dev'', ''eth0'')]" _ "[(''net'', ''x'')]" "''1500''" _ _
        "new_ConfigXML None" "''net/mtu''"]
    unfolding Let_def by metis
qed

text \<open>
  C39. Whatever file is read and whatever is written afterwards, the configuration is well formed in
  every format, at every depth. In JSON only objects have members and only arrays have elements, and a valid
  configuration has a root; members of a JSON object need not be unique, a text with a key twice is
  read as an object that holds both. In INI and TOML values have no children and
  sections and tables have one pair per key. In XML children are filed under their own tags. All keys and tags are C strings.
\<close>

theorem config_wf_invariant:
  "json_config_wf (set_all json_set (new_ConfigJSON file) kvs) \<and> ini_config_wf (set_all ini_set (new_ConfigINI file) kvs) \<and>
   toml_config_wf (set_all toml_set (new_ConfigTOML file) kvs) \<and> xml_config_wf (set_all xml_set (new_ConfigXML file) kvs)"
  by (intro conjI json_wf_invariant ini_wf_invariant toml_wf_invariant xml_wf_invariant)

text \<open>
  C40. Malformed files. Reading is all or nothing in three formats: a rejected JSON file reads as an
  empty configuration (\<open>get\<close> returns the empty string and \<open>getNumber\<close> zero for every name), and an INI
  or TOML file with a malformed line leaves no trace of the lines before it, the configuration is that
  of an empty file marked invalid. XML is laxer: the closing tag is not compared with the opening one,
  and an element closed by any other tag is accepted and read exactly as if it were closed properly.
\<close>

theorem config_malformed_files:
  "(json_Probe (new_ConfigJSON file) \<or>
     json_get (new_ConfigJSON file) name = [] \<and> json_getNumber (new_ConfigJSON file) name = 0) \<and>
   (ini_Probe (new_ConfigINI file) \<or> new_ConfigINI file = (new_ConfigINI None)\<lparr>ini_valid := False\<rparr>) \<and>
   (toml_Probe (new_ConfigTOML file) \<or> new_ConfigTOML file = (new_ConfigTOML None)\<lparr>toml_valid := False\<rparr>) \<and>
   (xml_tag tag \<and> xml_items items t \<and> xml_tag other \<longrightarrow>
     new_ConfigXML (Some (CHR ''<'' # tag @ CHR ''>'' # t @ ''</'' @ other @ ''>'')) =
       new_ConfigXML (Some (CHR ''<'' # tag @ CHR ''>'' # t @ ''</'' @ tag @ ''>'')) \<and>
     xml_Probe (new_ConfigXML (Some (CHR ''<'' # tag @ CHR ''>'' # t @ ''</'' @ other @ ''>''))))"
  using json_invalid_reads_empty ini_rejected_is_empty toml_rejected_is_empty xml_closing_tag_unchecked by blast

theorem config_malformed_files_witness:
  "json_get (new_ConfigJSON (Some ''{1}'')) (Some ''a'') = [] \<and>
   new_ConfigINI (Some ([CHR ''a'', CHR ''='', CHR ''1'', LF] @ ''[b'')) = (new_ConfigINI None)\<lparr>ini_valid := False\<rparr> \<and>
   xml_Probe (new_ConfigXML (Some (CHR ''<'' # ''a'' @ CHR ''>'' # [] @ ''</'' @ ''b'' @ ''>'')))"
proof -
  have "\<not> json_Probe (new_ConfigJSON (Some ''{1}''))"
    by (simp add: json_Probe_def new_ConfigJSON_def parse_json_def cstr_of_def parse_json_value.simps
        parse_json_object.simps json_members.simps skip_json_whitespace_def json_ws_def)
  moreover have "\<not> ini_Probe (new_ConfigINI (Some ([CHR ''a'', CHR ''='', CHR ''1'', LF] @ ''[b'')))"
    by (simp add: ini_Probe_def new_ConfigINI_def parse_ini_def cstr_of_def ini_lines.simps ini_ws_def
        ini_blank_def ini_eol_def ini_pair_def ini_value_def ini_header_def skip_ini_inline_spaces_def)
  moreover have "xml_tag ''a''" "xml_tag ''b''" "xml_items [] []"
    by (simp_all add: xml_tag_def xml_tag_char_def xml_ws_def items_nil)
  ultimately show ?thesis
    using config_malformed_files [of "Some ''{1}''" "Some ''a''"]
      config_malformed_files [of "Some ([CHR ''a'', CHR ''='', CHR ''1'', LF] @ ''[b'')"]
      config_malformed_files [of _ _ "''a''" "[]" "[]" "''b''"]
    by blast
qed

end
